(* ===== verification/Prelude.thy ===== *)
theory Prelude
  imports Main "HOL-Library.Word"
begin

text \<open>
  Shared vocabulary of the development: the types the Rust sources use (bytes and
  fixed-width unsigned integers as words, \<open>usize\<close> as \<open>nat\<close>, with operations that wrap for
  the places where an unchecked sum or product can leave 64 bits), the result type with a branch for a panic,
  slices, little-endian integers, and the list lemmas the components share.
\<close>

named_theorems layout_simps \<open>constants of the wire layout, unfolded to numerals\<close>

named_theorems outcome_simps \<open>equations that take a monadic outcome apart\<close>

unbundle bit_operations_syntax

subsection \<open>Machine types\<close>

type_synonym u8 = "8 word"
type_synonym u16 = "16 word"
type_synonym u32 = "32 word"
type_synonym u64 = "64 word"

text \<open>An \<open>f32\<close> is carried as its bit pattern (\<open>f32::to_bits\<close>).\<close>

type_synonym f32 = "32 word"

lemma unat_lt: "unat (w :: 'a::len word) < 2 ^ LENGTH('a)"
  by (rule unsigned_less)

subsection \<open>Results\<close>

text \<open>
  \<open>Result<T, E>\<close> of the sources, with a third constructor for an index out of range, an
  \<open>unwrap\<close> of nothing or another panic: what the source would abort on is a value here.
\<close>

datatype ('a, 'e) outcome = Ok 'a | Err 'e | Panic

primrec obind :: "('a, 'e) outcome \<Rightarrow> ('a \<Rightarrow> ('b, 'e) outcome) \<Rightarrow> ('b, 'e) outcome" where
  "obind (Ok x) f = f x"
| "obind (Err e) f = Err e"
| "obind Panic f = Panic"

lemma obind_eq_Ok [outcome_simps]: "obind m f = Ok y \<longleftrightarrow> (\<exists>x. m = Ok x \<and> f x = Ok y)"
  by (cases m) auto

lemma obind_eq_Err [outcome_simps]:
  "obind m f = Err e \<longleftrightarrow> m = Err e \<or> (\<exists>x. m = Ok x \<and> f x = Err e)"
  by (cases m) auto

lemma obind_eq_Panic [outcome_simps]:
  "obind m f = Panic \<longleftrightarrow> m = Panic \<or> (\<exists>x. m = Ok x \<and> f x = Panic)"
  by (cases m) auto

lemma obind_cong [fundef_cong]:
  "m = m' \<Longrightarrow> (\<And>x. m' = Ok x \<Longrightarrow> f x = g x) \<Longrightarrow> obind m f = obind m' g"
  by (cases m') auto

lemma obind_assoc: "obind (obind m f) g = obind m (\<lambda>x. obind (f x) g)"
  by (cases m) auto

primrec is_ok :: "('a, 'e) outcome \<Rightarrow> bool" where
  "is_ok (Ok x) = True"
| "is_ok (Err e) = False"
| "is_ok Panic = False"

lemma is_ok_iff: "is_ok m \<longleftrightarrow> (\<exists>x. m = Ok x)"
  by (cases m) auto

text \<open>A loop that pushes one fallible element after the other and stops at the first error.\<close>

primrec collect_results :: "('a \<Rightarrow> ('b, 'e) outcome) \<Rightarrow> 'a list \<Rightarrow> ('b list, 'e) outcome" where
  "collect_results f [] = Ok []"
| "collect_results f (x # xs) =
     obind (f x) (\<lambda>y. obind (collect_results f xs) (\<lambda>ys. Ok (y # ys)))"

lemma collect_results_map: "collect_results f (map g xs) = collect_results (f \<circ> g) xs"
  by (induction xs) auto

lemma collect_results_cong:
  "(\<And>x. x \<in> set xs \<Longrightarrow> f x = g x) \<Longrightarrow> collect_results f xs = collect_results g xs"
  by (induction xs) auto

lemma collect_results_all_Ok:
  "(\<And>x. x \<in> set xs \<Longrightarrow> f x = Ok (g x)) \<Longrightarrow> collect_results f xs = Ok (map g xs)"
  by (induction xs) auto

lemma collect_results_eq_Ok:
  "collect_results f xs = Ok ys \<longleftrightarrow> list_all2 (\<lambda>x y. f x = Ok y) xs ys"
proof (induction xs arbitrary: ys)
  case Nil
  then show ?case by auto
next
  case (Cons x xs)
  then show ?case by (cases ys) (auto simp: outcome_simps)
qed

lemma collect_results_no_Panic:
  "(\<And>x. x \<in> set xs \<Longrightarrow> f x \<noteq> Panic) \<Longrightarrow> collect_results f xs \<noteq> Panic"
  by (induction xs) (auto simp: outcome_simps)

lemma collect_results_length: "collect_results f xs = Ok ys \<Longrightarrow> length ys = length xs"
  by (auto simp: collect_results_eq_Ok dest: list_all2_lengthD)

lemma collect_results_nth:
  "collect_results f xs = Ok ys \<Longrightarrow> i < length xs \<Longrightarrow> f (xs ! i) = Ok (ys ! i)"
  by (auto simp: collect_results_eq_Ok dest: list_all2_nthD)

text \<open>A loop that only checks: it stops at the first error.\<close>

primrec check_all :: "('a \<Rightarrow> (unit, 'e) outcome) \<Rightarrow> 'a list \<Rightarrow> (unit, 'e) outcome" where
  "check_all f [] = Ok ()"
| "check_all f (x # xs) = obind (f x) (\<lambda>_. check_all f xs)"

lemma check_all_eq_Ok: "check_all f xs = Ok () \<longleftrightarrow> (\<forall>x \<in> set xs. f x = Ok ())"
  by (induction xs) (auto simp: outcome_simps)

lemma check_all_no_Panic:
  "(\<And>x. x \<in> set xs \<Longrightarrow> f x \<noteq> Panic) \<Longrightarrow> check_all f xs \<noteq> Panic"
  by (induction xs) (auto simp: outcome_simps)

text \<open>A loop that threads a state through fallible steps and stops at the first error.\<close>

primrec fold_results :: "('s \<Rightarrow> 'a \<Rightarrow> ('s, 'e) outcome) \<Rightarrow> 's \<Rightarrow> 'a list \<Rightarrow> ('s, 'e) outcome" where
  "fold_results f s [] = Ok s"
| "fold_results f s (x # xs) = obind (f s x) (\<lambda>s'. fold_results f s' xs)"

lemma fold_results_append:
  "fold_results f s (xs @ ys) = obind (fold_results f s xs) (\<lambda>s'. fold_results f s' ys)"
  by (induction xs arbitrary: s) (simp_all add: obind_assoc)

lemma fold_results_all_Ok:
  "(\<And>x s. x \<in> set xs \<Longrightarrow> f s x = Ok (g s x)) \<Longrightarrow> fold_results f s xs = Ok (foldl g s xs)"
  by (induction xs arbitrary: s) auto

text \<open>\<open>xs[i]\<close> and \<open>xs[at..at + v.len()].copy_from_slice(&v)\<close> on a slice of unknown length.\<close>

definition index_at :: "'a list \<Rightarrow> nat \<Rightarrow> ('a, 'e) outcome" where
  "index_at xs i = (if i < length xs then Ok (xs ! i) else Panic)"

definition write_at :: "nat \<Rightarrow> 'a list \<Rightarrow> 'a list \<Rightarrow> ('a list, 'e) outcome" where
  "write_at at v xs =
     (if at + length v \<le> length xs then Ok (take at xs @ v @ drop (at + length v) xs) else Panic)"

definition chunks_exact :: "nat \<Rightarrow> 'a list \<Rightarrow> 'a list list" where
  "chunks_exact n xs = map (\<lambda>i. take n (drop (i * n) xs)) [0..<length xs div n]"

subsection \<open>usize\<close>

text \<open>
  \<open>usize\<close> is 64 bits on both targets. A sum or product the code writes with \<open>+\<close> or \<open>*\<close> wraps in
  the release build; \<open>checked_mul\<close> and \<open>checked_add\<close> return \<open>None\<close> there instead.
\<close>

definition usize_add :: "nat \<Rightarrow> nat \<Rightarrow> nat" where
  "usize_add a b = (a + b) mod 2 ^ 64"

lemma usize_add_no_wrap: "a + b < 2 ^ 64 \<Longrightarrow> usize_add a b = a + b"
  by (simp add: usize_add_def)

lemma usize_add_less: "usize_add a b < 2 ^ 64"
  by (simp add: usize_add_def)

definition usize_mul :: "nat \<Rightarrow> nat \<Rightarrow> nat" where
  "usize_mul a b = a * b mod 2 ^ 64"

lemma usize_mul_no_wrap: "a * b < 2 ^ 64 \<Longrightarrow> usize_mul a b = a * b"
  by (simp add: usize_mul_def)

lemma usize_mul_0 [simp]: "usize_mul 0 b = 0" "usize_mul a 0 = 0"
  by (simp_all add: usize_mul_def)

subsection \<open>Slices\<close>

text \<open>\<open>&xs[a..b]\<close>: a panic unless \<open>a \<le> b \<le> xs.len()\<close>.\<close>

definition subslice :: "'a list \<Rightarrow> nat \<Rightarrow> nat \<Rightarrow> ('a list, 'e) outcome" where
  "subslice xs a b = (if a \<le> b \<and> b \<le> length xs then Ok (take (b - a) (drop a xs)) else Panic)"

lemma subslice_in_range: "a \<le> b \<Longrightarrow> b \<le> length xs \<Longrightarrow> subslice xs a b = Ok (take (b - a) (drop a xs))"
  by (simp add: subslice_def)

text \<open>\<open>out[at..at + v.len()].copy_from_slice(&v)\<close> on an array.\<close>

definition put_bytes :: "nat \<Rightarrow> 'a list \<Rightarrow> 'a list \<Rightarrow> 'a list" where
  "put_bytes at v out = take at out @ v @ drop (at + length v) out"

lemma length_put_bytes [simp]:
  "at + length v \<le> length out \<Longrightarrow> length (put_bytes at v out) = length out"
  by (simp add: put_bytes_def)

lemma take_drop_put_same:
  "at + length v \<le> length out \<Longrightarrow> n = length v \<Longrightarrow> take n (drop at (put_bytes at v out)) = v"
  by (simp add: put_bytes_def)

lemma take_drop_put_before:
  assumes "i + n \<le> at" "at + length v \<le> length out"
  shows "take n (drop i (put_bytes at v out)) = take n (drop i out)"
proof -
  have "take n (drop i (take at out @ xs)) = take n (drop i out)" for xs
  proof -
    have "take n (drop i (take at out @ xs)) = take n (take (at - i) (drop i out) @ xs)"
      using assms by (simp add: drop_take)
    also have "\<dots> = take n (drop i out)"
    proof -
      have "n \<le> at - i" "at - i \<le> length out - i" using assms by simp_all
      then show ?thesis by (simp add: min_absorb1)
    qed
    finally show ?thesis .
  qed
  then show ?thesis by (simp only: put_bytes_def)
qed

lemma take_drop_put_after:
  assumes "at + length v \<le> i" "at + length v \<le> length out"
  shows "take n (drop i (put_bytes at v out)) = take n (drop i out)"
  using assms by (simp add: put_bytes_def)

lemma nth_put_bytes:
  assumes "at + length v \<le> length out" "i < length out"
  shows "put_bytes at v out ! i = (if at \<le> i \<and> i < at + length v then v ! (i - at) else out ! i)"
  using assms by (auto simp: put_bytes_def nth_append min_def)

text \<open>Two byte strings that agree outside the window \<open>[p, p + n)\<close>.\<close>

definition differ_only_in :: "nat \<Rightarrow> nat \<Rightarrow> 'a list \<Rightarrow> 'a list \<Rightarrow> bool" where
  "differ_only_in p n xs ys \<longleftrightarrow>
     length xs = length ys \<and> take p xs = take p ys \<and> drop (p + n) xs = drop (p + n) ys"

lemma differ_only_inD:
  assumes "differ_only_in p n xs ys"
  obtains a u v z where "xs = a @ u @ z" "ys = a @ v @ z" "length u = length v" "length u \<le> n"
proof
  show "xs = take p xs @ take n (drop p xs) @ drop (p + n) xs"
    by (simp add: add.commute flip: drop_drop)
  show "ys = take p xs @ take n (drop p ys) @ drop (p + n) xs"
    using assms by (simp add: differ_only_in_def add.commute flip: drop_drop)
  show "length (take n (drop p xs)) = length (take n (drop p ys))"
    using assms by (simp add: differ_only_in_def)
qed simp

lemma differ_only_in_take_drop:
  assumes "differ_only_in p n xs ys" "i + m \<le> p \<or> p + n \<le> i"
  shows "take m (drop i xs) = take m (drop i ys)"
  using assms(2)
proof
  assume le: "i + m \<le> p"
  have "take m (drop i zs) = take m (drop i (take p zs))" for zs :: "'a list"
    using le by (simp add: drop_take)
  then show ?thesis using assms(1) by (metis differ_only_in_def)
next
  assume "p + n \<le> i"
  then have "drop i zs = drop (i - (p + n)) (drop (p + n) zs)" for zs :: "'a list"
    by simp
  then show ?thesis using assms(1) by (metis differ_only_in_def)
qed

subsection \<open>Equal-width rows\<close>

lemma take_drop_concat_uniform:
  assumes "\<And>x. x \<in> set xs \<Longrightarrow> length (f x) = w" "i < length xs"
  shows "take w (drop (i * w) (concat (map f xs))) = f (xs ! i)"
  using assms
proof (induction xs arbitrary: i)
  case Nil
  then show ?case by simp
next
  case (Cons x xs)
  show ?case
  proof (cases i)
    case 0
    with Cons.prems show ?thesis by simp
  next
    case (Suc j)
    have "take w (drop (j * w) (concat (map f xs))) = f (xs ! j)"
      by (rule Cons.IH) (use Cons.prems Suc in auto)
    with Cons.prems Suc show ?thesis by simp
  qed
qed

lemma length_concat_uniform:
  "(\<And>x. x \<in> set xs \<Longrightarrow> length (f x) = w) \<Longrightarrow> length (concat (map f xs)) = length xs * w"
  by (induction xs) auto

lemma concat_rows_eq:
  assumes "length bs = n * w"
  shows "concat (map (\<lambda>i. take w (drop (i * w) bs)) [0..<n]) = bs"
  using assms
proof (induction n arbitrary: bs)
  case 0
  then show ?case by simp
next
  case (Suc n)
  have "concat (map (\<lambda>i. take w (drop (i * w) (drop w bs))) [0..<n]) = drop w bs"
    by (rule Suc.IH) (use Suc.prems in simp)
  moreover have "map (\<lambda>i. take w (drop (i * w) (drop w bs))) [0..<n]
      = map (\<lambda>i. take w (drop (Suc i * w) bs)) [0..<n]"
    by (rule map_cong) (simp_all add: add.commute)
  ultimately have "concat (map (\<lambda>i. take w (drop (Suc i * w) bs)) [0..<n]) = drop w bs"
    by (simp only:)
  moreover have "map (\<lambda>i. take w (drop (i * w) bs)) [0..<Suc n]
      = take w bs # map (\<lambda>i. take w (drop (Suc i * w) bs)) [0..<n]"
    by (simp only: upt_conv_Cons [OF zero_less_Suc] list.map map_Suc_upt [symmetric] map_map)
      (simp add: comp_def)
  ultimately show ?case by simp
qed

subsection \<open>Little-endian integers\<close>

text \<open>\<open>to_le_bytes\<close> and \<open>from_le_bytes\<close>.\<close>

primrec le_bytes :: "nat \<Rightarrow> nat \<Rightarrow> u8 list" where
  "le_bytes 0 v = []"
| "le_bytes (Suc n) v = of_nat v # le_bytes n (v div 256)"

primrec le_nat :: "u8 list \<Rightarrow> nat" where
  "le_nat [] = 0"
| "le_nat (b # bs) = unat b + 256 * le_nat bs"

lemma length_le_bytes [simp]: "length (le_bytes n v) = n"
  by (induction n arbitrary: v) auto

lemma le_nat_less: "le_nat bs < 256 ^ length bs"
proof (induction bs)
  case Nil
  then show ?case by simp
next
  case (Cons b bs)
  have "unat b < 256" using unat_lt [of b] by simp
  with Cons show ?case by simp
qed

lemma le_nat_le_bytes: "le_nat (le_bytes n v) = v mod 256 ^ n"
proof (induction n arbitrary: v)
  case 0
  then show ?case by simp
next
  case (Suc n)
  have "v mod (256 * 256 ^ n) = 256 * (v div 256 mod 256 ^ n) + v mod 256"
    by (rule mod_mult2_eq)
  with Suc show ?case by (simp add: unat_of_nat)
qed

lemma le_bytes_le_nat: "n = length bs \<Longrightarrow> le_bytes n (le_nat bs) = bs"
proof (induction bs arbitrary: n)
  case Nil
  then show ?case by simp
next
  case (Cons b bs)
  have b: "unat b < 256" using unat_lt [of b] by simp
  have "(256 :: u8) = 0" by simp
  then have "(of_nat (unat b + 256 * le_nat bs) :: u8) = b"
    by (simp only: of_nat_add of_nat_mult of_nat_numeral) simp
  with Cons b show ?case by simp
qed

definition u16_le :: "u16 \<Rightarrow> u8 list" where "u16_le w = le_bytes 2 (unat w)"
definition u32_le :: "u32 \<Rightarrow> u8 list" where "u32_le w = le_bytes 4 (unat w)"
definition u64_le :: "u64 \<Rightarrow> u8 list" where "u64_le w = le_bytes 8 (unat w)"
definition of_u16_le :: "u8 list \<Rightarrow> u16" where "of_u16_le bs = of_nat (le_nat bs)"
definition of_u32_le :: "u8 list \<Rightarrow> u32" where "of_u32_le bs = of_nat (le_nat bs)"
definition of_u64_le :: "u8 list \<Rightarrow> u64" where "of_u64_le bs = of_nat (le_nat bs)"

text \<open>
  The contract of a fixed-width field: encoding has the width, decoding inverts it. What
  follows for a field written into a buffer is proved once and holds for the three widths.
\<close>

locale le_field =
  fixes enc :: "'w \<Rightarrow> u8 list" and dec :: "u8 list \<Rightarrow> 'w" and width :: nat
  assumes enc_length: "length (enc w) = width"
    and dec_enc: "dec (enc w) = w"
    and enc_dec: "length bs = width \<Longrightarrow> enc (dec bs) = bs"
begin

lemma read_back:
  "at + width \<le> length out \<Longrightarrow> dec (take width (drop at (put_bytes at (enc w) out))) = w"
  by (simp add: take_drop_put_same enc_length dec_enc)

lemma enc_inject: "enc v = enc w \<longleftrightarrow> v = w"
  using dec_enc by metis

lemma dec_inject: "length xs = width \<Longrightarrow> length ys = width \<Longrightarrow> dec xs = dec ys \<longleftrightarrow> xs = ys"
  using enc_dec by metis

end

interpretation u16_field: le_field u16_le of_u16_le 2
proof
  fix w :: u16 and bs :: "u8 list"
  show "length (u16_le w) = 2" by (simp add: u16_le_def)
  have "unat w mod 256 ^ 2 = unat w" using unat_lt [of w] by simp
  then show "of_u16_le (u16_le w) = w" by (simp add: of_u16_le_def u16_le_def le_nat_le_bytes)
  assume len: "length bs = 2"
  have "le_nat bs < 2 ^ 16" using le_nat_less [of bs] len by simp
  then have "unat (of_nat (le_nat bs) :: u16) = le_nat bs" by (simp add: unat_of_nat)
  then show "u16_le (of_u16_le bs) = bs" by (simp add: of_u16_le_def u16_le_def le_bytes_le_nat len)
qed

interpretation u32_field: le_field u32_le of_u32_le 4
proof
  fix w :: u32 and bs :: "u8 list"
  show "length (u32_le w) = 4" by (simp add: u32_le_def)
  have "unat w mod 256 ^ 4 = unat w" using unat_lt [of w] by simp
  then show "of_u32_le (u32_le w) = w" by (simp add: of_u32_le_def u32_le_def le_nat_le_bytes)
  assume len: "length bs = 4"
  have "le_nat bs < 2 ^ 32" using le_nat_less [of bs] len by simp
  then have "unat (of_nat (le_nat bs) :: u32) = le_nat bs" by (simp add: unat_of_nat)
  then show "u32_le (of_u32_le bs) = bs" by (simp add: of_u32_le_def u32_le_def le_bytes_le_nat len)
qed

interpretation u64_field: le_field u64_le of_u64_le 8
proof
  fix w :: u64 and bs :: "u8 list"
  show "length (u64_le w) = 8" by (simp add: u64_le_def)
  have "unat w mod 256 ^ 8 = unat w" using unat_lt [of w] by simp
  then show "of_u64_le (u64_le w) = w" by (simp add: of_u64_le_def u64_le_def le_nat_le_bytes)
  assume len: "length bs = 8"
  have "le_nat bs < 2 ^ 64" using le_nat_less [of bs] len by simp
  then have "unat (of_nat (le_nat bs) :: u64) = le_nat bs" by (simp add: unat_of_nat)
  then show "u64_le (of_u64_le bs) = bs" by (simp add: of_u64_le_def u64_le_def le_bytes_le_nat len)
qed

lemmas le_width [simp] = u16_field.enc_length u32_field.enc_length u64_field.enc_length

lemmas le_decode [simp] = u16_field.dec_enc u32_field.dec_enc u64_field.dec_enc

subsection \<open>Searching a list\<close>

text \<open>\<open>Iterator::position\<close>.\<close>

fun position_of :: "('a \<Rightarrow> bool) \<Rightarrow> 'a list \<Rightarrow> nat option" where
  "position_of P [] = None"
| "position_of P (x # xs) = (if P x then Some 0 else map_option Suc (position_of P xs))"

lemma position_of_Some: "position_of P xs = Some i \<Longrightarrow> i < length xs \<and> P (xs ! i)"
  by (induction xs arbitrary: i) (auto split: if_splits)

lemma position_of_None: "position_of P xs = None \<longleftrightarrow> (\<forall>x \<in> set xs. \<not> P x)"
  by (induction xs) auto

lemma position_of_first: "position_of P xs = Some i \<Longrightarrow> j < i \<Longrightarrow> \<not> P (xs ! j)"
proof (induction xs arbitrary: i j)
  case (Cons x xs)
  then show ?case by (cases j) (auto split: if_splits)
qed simp

end
