(* ===== verification/WireLayout.thy ===== *)
theory WireLayout
  imports Prelude
begin

text \<open>
  The DS41RTE3 v3 wire constants, enums and error taxonomy: \<open>crates/mimo26-wire/src/\<close>
  \<open>naive.rs\<close>, \<open>layout.rs\<close> and \<open>error.rs\<close>. A \<open>WireNaive\<close> value selects known-wrong variants
  (the traps of the test suite); \<open>naive_none\<close> is the contract.
\<close>

subsection \<open>naive.rs\<close>

type_synonym wire_naive = u32

definition naive_has :: "wire_naive \<Rightarrow> u32 \<Rightarrow> bool" where
  "naive_has n b = (n AND b \<noteq> 0)"

definition naive_bits :: "wire_naive \<Rightarrow> u32" where
  "naive_bits n = n"

definition naive_of :: "u32 \<Rightarrow> wire_naive" where
  "naive_of b = b"

definition naive_none :: wire_naive where "naive_none = 0"
definition naive_all :: wire_naive where "naive_all = 0xFFFFFFFF"
definition K16_SCALES :: u32 where "K16_SCALES = push_bit 0 1"
definition ROW_SCALED_DTYPE :: u32 where "ROW_SCALED_DTYPE = push_bit 1 1"
definition FP32_RETURN :: u32 where "FP32_RETURN = push_bit 2 1"
definition PER_ROUTE_RETURN :: u32 where "PER_ROUTE_RETURN = push_bit 3 1"
definition ROUTE_FIELD_SWAP :: u32 where "ROUTE_FIELD_SWAP = push_bit 4 1"
definition DESC_FIELD_DRIFT :: u32 where "DESC_FIELD_DRIFT = push_bit 5 1"
definition DTYPE_RECODE :: u32 where "DTYPE_RECODE = push_bit 6 1"
definition CRC32_IEEE :: u32 where "CRC32_IEEE = push_bit 7 1"
definition CRC_HEADER_EXEMPT :: u32 where "CRC_HEADER_EXEMPT = push_bit 8 1"
definition CRC_UNCHECKED :: u32 where "CRC_UNCHECKED = push_bit 9 1"
definition SEQ_IGNORED :: u32 where "SEQ_IGNORED = push_bit 10 1"
definition DUP_DOUBLE_COUNT :: u32 where "DUP_DOUBLE_COUNT = push_bit 11 1"
definition ACCUM_BY_ARRIVAL :: u32 where "ACCUM_BY_ARRIVAL = push_bit 12 1"
definition BF16_TRUNCATE :: u32 where "BF16_TRUNCATE = push_bit 13 1"
definition RANK_SUM_BY_ARRIVAL :: u32 where "RANK_SUM_BY_ARRIVAL = push_bit 14 1"

lemma naive_none_has [simp]: "\<not> naive_has naive_none b"
  by (simp add: naive_has_def naive_none_def)

text \<open>
  \<open>naive_from_env\<close> reads two environment variables; the two arguments are
  \<open>var(..) == "1"\<close> for each.
\<close>

definition naive_from_env :: "bool \<Rightarrow> bool \<Rightarrow> wire_naive" where
  "naive_from_env spike wire = (if spike \<or> wire then naive_all else naive_none)"

subsection \<open>error.rs\<close>

record slot_key =
  sk_request_id :: u64
  sk_layer_id :: u32
  sk_token_position :: u64
  sk_executor_id :: u64

datatype disposition = Retry | DropIdempotent | FailLoud

datatype wire_error =
    TooShort nat nat
  | Truncated nat nat
  | TrailingBytes nat nat
  | BadMagic "u8 list"
  | BadVersion u16
  | BadKind u16
  | BadHeaderLen u32
  | DimMismatch string nat nat
  | BadCode string u32
  | Corrupt u64 u32 u32
  | Duplicate u64 u64
  | OutOfOrder u64 u64
  | RouteRowMismatch nat u32 u32
  | RouteRangeBad nat
  | UnpresummedReturn u32
  | SlotFilled slot_key
  | SparkReportedError u64
  | Incomplete nat nat
  | RetryExhausted u32 wire_error
  | UnknownRequest u64

type_synonym 'a wire_result = "('a, wire_error) outcome"

fun error_disposition :: "wire_error \<Rightarrow> disposition" where
  "error_disposition (TooShort _ _) = Retry"
| "error_disposition (Truncated _ _) = Retry"
| "error_disposition (Corrupt _ _ _) = Retry"
| "error_disposition (OutOfOrder _ _) = Retry"
| "error_disposition (Duplicate _ _) = DropIdempotent"
| "error_disposition (SlotFilled _) = DropIdempotent"
| "error_disposition (TrailingBytes _ _) = FailLoud"
| "error_disposition (BadMagic _) = FailLoud"
| "error_disposition (BadVersion _) = FailLoud"
| "error_disposition (BadKind _) = FailLoud"
| "error_disposition (BadHeaderLen _) = FailLoud"
| "error_disposition (DimMismatch _ _ _) = FailLoud"
| "error_disposition (BadCode _ _) = FailLoud"
| "error_disposition (RouteRowMismatch _ _ _) = FailLoud"
| "error_disposition (RouteRangeBad _) = FailLoud"
| "error_disposition (UnpresummedReturn _) = FailLoud"
| "error_disposition (SparkReportedError _) = FailLoud"
| "error_disposition (Incomplete _ _) = FailLoud"
| "error_disposition (RetryExhausted _ _) = FailLoud"
| "error_disposition (UnknownRequest _) = FailLoud"

subsection \<open>layout.rs: constants\<close>

definition wire_magic :: "u8 list" where
  "wire_magic = [0x44, 0x53, 0x34, 0x31, 0x52, 0x54, 0x45, 0x33]" \<comment> \<open>b"DS41RTE3"\<close>

definition VERSION :: u16 where "VERSION = 3"
definition KIND_REQUEST :: u16 where "KIND_REQUEST = 1"
definition KIND_RETURN :: u16 where "KIND_RETURN = 2"

definition HEADER_LEN :: nat where [layout_simps]: "HEADER_LEN = 128"
definition ROW_DESCRIPTOR_LEN :: nat where [layout_simps]: "ROW_DESCRIPTOR_LEN = 40"
definition ROUTE_ENTRY_LEN :: nat where [layout_simps]: "ROUTE_ENTRY_LEN = 12"
definition HIDDEN :: nat where "HIDDEN = 4096"
definition TOPK :: nat where [layout_simps]: "TOPK = 8"
definition SPARKS :: nat where [layout_simps]: "SPARKS = 4"
definition K32 :: nat where "K32 = 32"
definition K16 :: nat where "K16 = 16"
definition HIDDEN_ROW_BYTES :: nat where "HIDDEN_ROW_BYTES = HIDDEN + HIDDEN div K32"
definition REQUEST_ROW_BYTES :: nat where
  "REQUEST_ROW_BYTES = ROW_DESCRIPTOR_LEN + HIDDEN_ROW_BYTES + TOPK * ROUTE_ENTRY_LEN"
definition RETURN_ROW_BYTES :: nat where "RETURN_ROW_BYTES = HIDDEN * 2"

text \<open>The compile-time guards of the source.\<close>

lemma static_layout_guards:
  "HIDDEN_ROW_BYTES = 4224" "REQUEST_ROW_BYTES = 4360" "RETURN_ROW_BYTES = 8192"
  by (simp_all add: HIDDEN_ROW_BYTES_def REQUEST_ROW_BYTES_def RETURN_ROW_BYTES_def HIDDEN_def K32_def
      layout_simps)

text \<open>Field offsets of the header (\<open>hdr\<close>), the row descriptor (\<open>desc\<close>) and the route entry.\<close>

definition hdr_MAGIC :: nat where [layout_simps]: "hdr_MAGIC = 0"
definition hdr_VERSION :: nat where [layout_simps]: "hdr_VERSION = 8"
definition hdr_KIND :: nat where [layout_simps]: "hdr_KIND = 10"
definition hdr_HEADER_LEN :: nat where [layout_simps]: "hdr_HEADER_LEN = 12"
definition hdr_REQUEST_ID :: nat where [layout_simps]: "hdr_REQUEST_ID = 16"
definition hdr_PLACEMENT_VERSION :: nat where [layout_simps]: "hdr_PLACEMENT_VERSION = 24"
definition hdr_LAYER_ID :: nat where [layout_simps]: "hdr_LAYER_ID = 32"
definition hdr_ROW_COUNT :: nat where [layout_simps]: "hdr_ROW_COUNT = 36"
definition hdr_DIM :: nat where [layout_simps]: "hdr_DIM = 40"
definition hdr_PAYLOAD_DTYPE :: nat where [layout_simps]: "hdr_PAYLOAD_DTYPE = 44"
definition hdr_SOURCE_KIND :: nat where [layout_simps]: "hdr_SOURCE_KIND = 46"
definition hdr_ROUTE_COUNT :: nat where [layout_simps]: "hdr_ROUTE_COUNT = 48"
definition hdr_ROW_DESCRIPTOR_BYTES :: nat where [layout_simps]: "hdr_ROW_DESCRIPTOR_BYTES = 52"
definition hdr_ROUTE_BYTES :: nat where [layout_simps]: "hdr_ROUTE_BYTES = 56"
definition hdr_PAYLOAD_BYTES :: nat where [layout_simps]: "hdr_PAYLOAD_BYTES = 60"
definition hdr_LOGICAL_PAYLOAD_BYTES :: nat where [layout_simps]: "hdr_LOGICAL_PAYLOAD_BYTES = 68"
definition hdr_WIRE_BYTES :: nat where [layout_simps]: "hdr_WIRE_BYTES = 76"
definition hdr_FLAGS :: nat where [layout_simps]: "hdr_FLAGS = 84"
definition hdr_ROW_STRIDE_BYTES :: nat where [layout_simps]: "hdr_ROW_STRIDE_BYTES = 88"
definition hdr_STATUS :: nat where [layout_simps]: "hdr_STATUS = 92"
definition hdr_EXECUTOR_ID :: nat where [layout_simps]: "hdr_EXECUTOR_ID = 96"
definition hdr_TOKEN_POSITION :: nat where [layout_simps]: "hdr_TOKEN_POSITION = 104"
definition hdr_SEQ :: nat where [layout_simps]: "hdr_SEQ = 112"
definition hdr_CRC32C :: nat where [layout_simps]: "hdr_CRC32C = 120"

definition desc_ROW_ID :: nat where [layout_simps]: "desc_ROW_ID = 0"
definition desc_SOURCE_KIND :: nat where [layout_simps]: "desc_SOURCE_KIND = 8"
definition desc_SOURCE_REQUEST_ID :: nat where [layout_simps]: "desc_SOURCE_REQUEST_ID = 12"
definition desc_TOKEN_POSITION :: nat where [layout_simps]: "desc_TOKEN_POSITION = 20"
definition desc_ROUTE_OFFSET :: nat where [layout_simps]: "desc_ROUTE_OFFSET = 28"
definition desc_ROUTE_COUNT :: nat where [layout_simps]: "desc_ROUTE_COUNT = 32"

definition route_ROW_INDEX :: nat where [layout_simps]: "route_ROW_INDEX = 0"
definition route_EXPERT_ID :: nat where [layout_simps]: "route_EXPERT_ID = 4"
definition route_GATE_WEIGHT :: nat where [layout_simps]: "route_GATE_WEIGHT = 8"

subsection \<open>layout.rs: wire codes\<close>

datatype dtype =
    DtBf16 | DtF16 | DtFp8Debug | DtNvfp4E2m1Fp8E4m3 | DtFp8E4m3RowScaled | DtF32 | DtFp8E4m3Ue8m0K32

fun dtype_raw :: "dtype \<Rightarrow> u16" where
  "dtype_raw DtBf16 = 1"
| "dtype_raw DtF16 = 2"
| "dtype_raw DtFp8Debug = 3"
| "dtype_raw DtNvfp4E2m1Fp8E4m3 = 4"
| "dtype_raw DtFp8E4m3RowScaled = 5"
| "dtype_raw DtF32 = 6"
| "dtype_raw DtFp8E4m3Ue8m0K32 = 7"

definition dtype_code :: "dtype \<Rightarrow> wire_naive \<Rightarrow> u16" where
  "dtype_code d naive = (if naive_has naive DTYPE_RECODE then dtype_raw d + 100 else dtype_raw d)"

definition dtype_from_code :: "u16 \<Rightarrow> wire_naive \<Rightarrow> dtype wire_result" where
  "dtype_from_code code naive =
     (let raw = (if naive_has naive DTYPE_RECODE then code - 100 else code) in
      if raw = 1 then Ok DtBf16
      else if raw = 2 then Ok DtF16
      else if raw = 3 then Ok DtFp8Debug
      else if raw = 4 then Ok DtNvfp4E2m1Fp8E4m3
      else if raw = 5 then Ok DtFp8E4m3RowScaled
      else if raw = 6 then Ok DtF32
      else if raw = 7 then Ok DtFp8E4m3Ue8m0K32
      else Err (BadCode ''payload_dtype'' (ucast code)))"

datatype source_kind = SkDecode | SkPrefill | SkMtpVerify | SkBenchmark

fun source_kind_code :: "source_kind \<Rightarrow> u16" where
  "source_kind_code SkDecode = 1"
| "source_kind_code SkPrefill = 2"
| "source_kind_code SkMtpVerify = 3"
| "source_kind_code SkBenchmark = 4"

definition source_kind_from_code :: "u16 \<Rightarrow> source_kind wire_result" where
  "source_kind_from_code code =
     (if code = 1 then Ok SkDecode
      else if code = 2 then Ok SkPrefill
      else if code = 3 then Ok SkMtpVerify
      else if code = 4 then Ok SkBenchmark
      else Err (BadCode ''source_kind'' (ucast code)))"

datatype status = StatusOk | StatusError

fun status_code :: "status \<Rightarrow> u32" where
  "status_code StatusOk = 0"
| "status_code StatusError = 1"

definition status_from_code :: "u32 \<Rightarrow> status wire_result" where
  "status_from_code code =
     (if code = 0 then Ok StatusOk
      else if code = 1 then Ok StatusError
      else Err (BadCode ''status'' code))"

lemma dtype_code_roundtrip [simp]: "dtype_from_code (dtype_code d naive) naive = Ok d"
  by (cases d) (simp_all add: dtype_from_code_def dtype_code_def)

lemma source_kind_roundtrip [simp]: "source_kind_from_code (source_kind_code k) = Ok k"
  by (cases k) (simp_all add: source_kind_from_code_def)

lemma status_roundtrip [simp]: "status_from_code (status_code s) = Ok s"
  by (cases s) (simp_all add: status_from_code_def)

lemma dtype_from_code_no_Panic [simp]: "dtype_from_code c naive \<noteq> Panic"
  by (simp add: dtype_from_code_def Let_def)

lemma source_kind_from_code_no_Panic [simp]: "source_kind_from_code c \<noteq> Panic"
  by (simp add: source_kind_from_code_def)

lemma status_from_code_no_Panic [simp]: "status_from_code c \<noteq> Panic"
  by (simp add: status_from_code_def)

lemma source_kind_from_code_Ok: "source_kind_from_code c = Ok k \<Longrightarrow> source_kind_code k = c"
  by (auto simp: source_kind_from_code_def split: if_splits)

lemma status_from_code_Ok: "status_from_code c = Ok s \<Longrightarrow> status_code s = c"
  by (auto simp: status_from_code_def split: if_splits)

lemma dtype_from_code_Ok: "dtype_from_code c naive = Ok d \<Longrightarrow> dtype_code d naive = c"
  by (auto simp: dtype_from_code_def dtype_code_def Let_def algebra_simps split: if_splits)

subsection \<open>layout.rs: row accounting\<close>

definition ue8m0_k32_row_bytes :: "nat \<Rightarrow> nat wire_result" where
  "ue8m0_k32_row_bytes elements =
     (if elements = 0 \<or> elements mod K32 \<noteq> 0
      then Err (DimMismatch ''ue8m0_k32_row_width'' K32 elements)
      else Ok (elements + elements div K32))"

definition scale_k :: "wire_naive \<Rightarrow> nat" where
  "scale_k naive = (if naive_has naive K16_SCALES then K16 else K32)"

definition hidden_row_bytes :: "wire_naive \<Rightarrow> nat" where
  "hidden_row_bytes naive =
     (if naive_has naive ROW_SCALED_DTYPE then HIDDEN + 4 else HIDDEN + HIDDEN div scale_k naive)"

definition request_row_bytes :: "wire_naive \<Rightarrow> nat" where
  "request_row_bytes naive = ROW_DESCRIPTOR_LEN + hidden_row_bytes naive + TOPK * ROUTE_ENTRY_LEN"

definition return_row_bytes :: "nat \<Rightarrow> wire_naive \<Rightarrow> nat" where
  "return_row_bytes route_count naive =
     (if naive_has naive PER_ROUTE_RETURN then route_count * HIDDEN * 2
      else if naive_has naive FP32_RETURN then HIDDEN * 4
      else RETURN_ROW_BYTES)"

lemma hidden_row_bytes_ge: "HIDDEN \<le> hidden_row_bytes naive"
  by (simp add: hidden_row_bytes_def)

lemma hidden_row_bytes_bound: "hidden_row_bytes naive \<le> 4352"
  by (simp add: hidden_row_bytes_def scale_k_def HIDDEN_def K16_def K32_def)

lemma hidden_row_bytes_none: "hidden_row_bytes naive_none = HIDDEN_ROW_BYTES"
  by (simp add: hidden_row_bytes_def scale_k_def HIDDEN_ROW_BYTES_def)

end
