(* ===== verification/Crc32c.thy ===== *)
theory Crc32c
  imports WireLayout
begin

text \<open>
  The L4 checksum, \<open>crates/mimo26-wire/src/crc32c.rs\<close>: the 256-entry table walk, the two
  hardware paths (the \<open>_mm_crc32_*\<close> and \<open>__crc32c*\<close> instructions as the polynomial division
  their manuals define), the dispatcher, the streamed \<open>crc32c_zeroed\<close> and the bit-by-bit
  oracle. The lemmas show that all paths agree and which corruptions the checksum detects.
\<close>

datatype crc_family = Castagnoli | Ieee

subsection \<open>The register\<close>

text \<open>One bit of the reflected division: \<open>if c & 1 != 0 { poly ^ (c >> 1) } else { c >> 1 }\<close>.\<close>

definition crc_bit :: "'a::len word \<Rightarrow> 'a word \<Rightarrow> 'a word" where
  "crc_bit poly c = (if c AND 1 \<noteq> 0 then poly XOR drop_bit 1 c else drop_bit 1 c)"

definition build_table :: "u32 \<Rightarrow> u32 list" where
  "build_table poly = map (\<lambda>i. (crc_bit poly ^^ 8) (of_nat i)) [0..<256]"

definition CRC32C_TABLE :: "u32 list" where "CRC32C_TABLE = build_table 0x82F63B78"
definition CRC32_IEEE_TABLE :: "u32 list" where "CRC32_IEEE_TABLE = build_table 0xEDB88320"

primrec update_table :: "u32 list \<Rightarrow> u32 \<Rightarrow> u8 list \<Rightarrow> u32" where
  "update_table table crc [] = crc"
| "update_table table crc (b # bs) =
     update_table table (table ! unat ((crc XOR ucast b) AND 0xFF) XOR drop_bit 8 crc) bs"

subsection \<open>The hardware paths\<close>

text \<open>
  \<open>_mm_crc32_u8\<close>, \<open>_mm_crc32_u64\<close> and \<open>__crc32cb\<close>, \<open>__crc32cd\<close>: the operand is added into
  the low end of the register, which is then divided by the Castagnoli polynomial for as many
  bits as the operand has. The 64-bit x86 form keeps the running CRC in a \<open>u64\<close> and reads its
  low 32 bits.
\<close>

definition mm_crc32_u8 :: "u32 \<Rightarrow> u8 \<Rightarrow> u32" where
  "mm_crc32_u8 crc v = (crc_bit 0x82F63B78 ^^ 8) (crc XOR ucast v)"

definition mm_crc32_u64 :: "u64 \<Rightarrow> u64 \<Rightarrow> u64" where
  "mm_crc32_u64 crc v = (crc_bit 0x82F63B78 ^^ 64) ((crc AND 0xFFFFFFFF) XOR v)"

definition crc32cb :: "u32 \<Rightarrow> u8 \<Rightarrow> u32" where
  "crc32cb crc v = mm_crc32_u8 crc v"

definition crc32cd :: "u32 \<Rightarrow> u64 \<Rightarrow> u32" where
  "crc32cd crc v = ucast (mm_crc32_u64 (ucast crc) v)"

function sse42_words :: "u64 \<Rightarrow> u8 list \<Rightarrow> u64 \<times> u8 list" where
  "sse42_words crc64 bytes =
     (if 8 \<le> length bytes
      then sse42_words (mm_crc32_u64 crc64 (of_u64_le (take 8 bytes))) (drop 8 bytes)
      else (crc64, bytes))"
  by pat_completeness auto
termination by (relation "measure (\<lambda>(c, bs). length bs)") auto

declare sse42_words.simps [simp del]

definition update_sse42 :: "u32 \<Rightarrow> u8 list \<Rightarrow> u32" where
  "update_sse42 crc bytes =
     (case sse42_words (ucast crc) bytes of
        (crc64, remainder) \<Rightarrow> foldl mm_crc32_u8 (ucast crc64) remainder)"

function arm_words :: "u32 \<Rightarrow> u8 list \<Rightarrow> u32 \<times> u8 list" where
  "arm_words crc bytes =
     (if 8 \<le> length bytes
      then arm_words (crc32cd crc (of_u64_le (take 8 bytes))) (drop 8 bytes)
      else (crc, bytes))"
  by pat_completeness auto
termination by (relation "measure (\<lambda>(c, bs). length bs)") auto

declare arm_words.simps [simp del]

definition update_arm_crc :: "u32 \<Rightarrow> u8 list \<Rightarrow> u32" where
  "update_arm_crc crc bytes =
     (case arm_words crc bytes of (crc', remainder) \<Rightarrow> foldl crc32cb crc' remainder)"

subsection \<open>Dispatch and the public functions\<close>

text \<open>The target architecture, with the result of the runtime feature test.\<close>

datatype cpu = X86_64 bool | Aarch64 bool | OtherCpu

fun update_castagnoli :: "cpu \<Rightarrow> u32 \<Rightarrow> u8 list \<Rightarrow> u32" where
  "update_castagnoli (X86_64 sse42) crc bytes =
     (if sse42 then update_sse42 crc bytes else update_table CRC32C_TABLE crc bytes)"
| "update_castagnoli (Aarch64 feat) crc bytes =
     (if feat then update_arm_crc crc bytes else update_table CRC32C_TABLE crc bytes)"
| "update_castagnoli OtherCpu crc bytes = update_table CRC32C_TABLE crc bytes"

fun update_family :: "cpu \<Rightarrow> crc_family \<Rightarrow> u32 \<Rightarrow> u8 list \<Rightarrow> u32" where
  "update_family cpu Castagnoli crc bytes = update_castagnoli cpu crc bytes"
| "update_family cpu Ieee crc bytes = update_table CRC32_IEEE_TABLE crc bytes"

definition family_for :: "wire_naive \<Rightarrow> crc_family" where
  "family_for naive = (if naive_has naive CRC32_IEEE then Ieee else Castagnoli)"

definition crc32c_with :: "cpu \<Rightarrow> crc_family \<Rightarrow> u8 list \<Rightarrow> u32" where
  "crc32c_with cpu family bytes = NOT (update_family cpu family (NOT 0) bytes)"

definition crc32c_zeroed :: "cpu \<Rightarrow> crc_family \<Rightarrow> u8 list \<Rightarrow> nat \<Rightarrow> u32 wire_result" where
  "crc32c_zeroed cpu family bytes crc_off =
     obind (subslice bytes 0 crc_off) (\<lambda>front.
     obind (subslice bytes (crc_off + 4) (length bytes)) (\<lambda>back.
       let crc = update_family cpu family (NOT 0) front;
           crc = update_family cpu family crc [0, 0, 0, 0];
           crc = update_family cpu family crc back
       in Ok (NOT crc)))"

definition crc32c :: "cpu \<Rightarrow> u8 list \<Rightarrow> u32" where
  "crc32c cpu bytes = crc32c_with cpu Castagnoli bytes"

definition crc32c_table :: "u8 list \<Rightarrow> u32" where
  "crc32c_table bytes = NOT (update_table CRC32C_TABLE (NOT 0) bytes)"

definition bitwise_byte :: "u32 \<Rightarrow> u8 \<Rightarrow> u32" where
  "bitwise_byte crc b = (crc_bit 0x82F63B78 ^^ 8) (crc XOR ucast b)"

definition crc32c_bitwise :: "u8 list \<Rightarrow> u32" where
  "crc32c_bitwise bytes = NOT (foldl bitwise_byte 0xFFFFFFFF bytes)"

subsection \<open>Linearity and shifting\<close>

lemma bit_crc_bit: "bit (crc_bit p c) n \<longleftrightarrow> bit c (Suc n) \<noteq> (bit c 0 \<and> bit p n)"
  for p c :: "'a::len word"
proof -
  have "c AND 1 \<noteq> 0 \<longleftrightarrow> bit c 0"
    by (simp add: and_one_eq odd_iff_mod_2_eq_one bit_0)
  then show ?thesis
    by (auto simp: crc_bit_def bit_xor_iff bit_drop_bit_eq dest: bit_imp_le_length)
qed

lemma crc_bit_xor: "crc_bit p (x XOR y) = crc_bit p x XOR crc_bit p y"
  for p x y :: "'a::len word"
  by (rule bit_word_eqI) (auto simp: bit_crc_bit bit_xor_iff)

lemma crc_bits_xor: "(crc_bit p ^^ n) (x XOR y) = (crc_bit p ^^ n) x XOR (crc_bit p ^^ n) y"
  for p x y :: "'a::len word"
  by (induction n) (simp_all add: crc_bit_xor)

lemma crc_bits_push:
  "n + k \<le> LENGTH('a) \<Longrightarrow> (crc_bit p ^^ n) (push_bit n (take_bit k y)) = take_bit k y"
  for p y :: "'a::len word"
proof (induction n)
  case 0
  then show ?case by simp
next
  case (Suc n)
  have "crc_bit p (push_bit (Suc n) (take_bit k y)) = push_bit n (take_bit k y)"
  proof (rule bit_word_eqI)
    fix i assume "i < LENGTH('a)"
    then show "bit (crc_bit p (push_bit (Suc n) (take_bit k y))) i = bit (push_bit n (take_bit k y)) i"
      using Suc.prems
      by (auto simp: bit_crc_bit bit_push_bit_iff bit_take_bit_iff Suc_diff_le simp del: push_bit_Suc
          dest: bit_imp_le_length)
  qed
  with Suc show ?case by (simp del: funpow.simps push_bit_Suc add: funpow_Suc_right)
qed


lemma le_word_Cons:
  "8 \<le> LENGTH('a) \<Longrightarrow>
   (of_nat (le_nat (b # bs)) :: 'a::len word) = ucast b XOR push_bit 8 (of_nat (le_nat bs))"
proof -
  assume len: "8 \<le> LENGTH('a)"
  have "(of_nat (le_nat (b # bs)) :: 'a word) = ucast b + push_bit 8 (of_nat (le_nat bs))"
    by (simp add: push_bit_eq_mult)
  also have "\<dots> = ucast b XOR push_bit 8 (of_nat (le_nat bs))"
  proof (rule disjunctive_add_eq_xor, rule bit_word_eqI)
    fix i assume "i < LENGTH('a)"
    show "bit (ucast b AND push_bit 8 (of_nat (le_nat bs)) :: 'a word) i = bit (0 :: 'a word) i"
      by (auto simp: bit_and_iff bit_push_bit_iff bit_ucast_iff dest: bit_imp_le_length)
  qed
  finally show ?thesis .
qed

text \<open>
  The register divides a whole word at once: feeding up to \<open>LENGTH('a) div 8\<close> bytes one at a
  time is the division of their little-endian word.
\<close>

lemma crc_bits_word:
  fixes p c :: "'a::len word"
  assumes "8 * length bs \<le> LENGTH('a)"
  shows "(crc_bit p ^^ (8 * length bs)) (c XOR of_nat (le_nat bs))
    = foldl (\<lambda>c b. (crc_bit p ^^ 8) (c XOR ucast b)) c bs"
  using assms
proof (induction bs arbitrary: c)
  case Nil
  then show ?case by simp
next
  case (Cons b bs)
  let ?n = "8 * length bs"
  let ?y = "of_nat (le_nat bs) :: 'a word"
  have "le_nat bs < 2 ^ ?n"
    using le_nat_less [of bs] by (simp add: power_mult)
  then have y: "take_bit ?n ?y = ?y"
    by (simp add: take_bit_of_nat take_bit_nat_eq_self)
  have n: "8 * length (b # bs) = ?n + 8" by simp
  have w: "of_nat (le_nat (b # bs)) = ucast b XOR push_bit 8 ?y"
    by (rule le_word_Cons) (use Cons.prems in simp)
  have "(crc_bit p ^^ (8 * length (b # bs))) (c XOR of_nat (le_nat (b # bs)))
      = (crc_bit p ^^ ?n) ((crc_bit p ^^ 8) ((c XOR ucast b) XOR push_bit 8 ?y))"
    by (simp only: n w funpow_add comp_apply xor.assoc)
  also have "\<dots> = (crc_bit p ^^ ?n) ((crc_bit p ^^ 8) (c XOR ucast b) XOR ?y)"
  proof -
    have "(crc_bit p ^^ 8) (push_bit 8 (take_bit ?n ?y)) = take_bit ?n ?y"
      by (rule crc_bits_push) (use Cons.prems in simp)
    then show ?thesis by (simp only: crc_bits_xor y)
  qed
  also have "\<dots> = foldl (\<lambda>c b. (crc_bit p ^^ 8) (c XOR ucast b)) ((crc_bit p ^^ 8) (c XOR ucast b)) bs"
    by (rule Cons.IH) (use Cons.prems in simp)
  finally show ?case by simp
qed

subsection \<open>The table walk is the bit-by-bit register\<close>

definition crc_run :: "u32 \<Rightarrow> u32 \<Rightarrow> u8 list \<Rightarrow> u32" where
  "crc_run poly = foldl (\<lambda>c b. (crc_bit poly ^^ 8) (c XOR ucast b))"

lemma crc_run_simps [simp]:
  "crc_run poly c [] = c"
  "crc_run poly c (b # bs) = crc_run poly ((crc_bit poly ^^ 8) (c XOR ucast b)) bs"
  "crc_run poly c (xs @ ys) = crc_run poly (crc_run poly c xs) ys"
  by (simp_all add: crc_run_def)

lemma table_step:
  "build_table poly ! unat ((c XOR ucast b) AND 0xFF) XOR drop_bit 8 c
     = (crc_bit poly ^^ 8) (c XOR ucast b)"
  for c :: u32 and b :: u8
proof -
  let ?x = "c XOR ucast b :: u32"
  have mask: "?x AND 0xFF = take_bit 8 ?x"
    by (simp add: take_bit_eq_mask mask_eq_exp_minus_1)
  have "unat (take_bit 8 ?x) < 256"
    by (subst unsigned_take_bit_eq) (use take_bit_nat_less_exp [of 8 "unat ?x"] in simp)
  then have entry: "build_table poly ! unat (take_bit 8 ?x) = (crc_bit poly ^^ 8) (take_bit 8 ?x)"
    by (simp add: build_table_def)
  have high: "drop_bit 8 c = take_bit 24 (drop_bit 8 ?x)"
    by (rule bit_word_eqI)
      (auto simp: bit_drop_bit_eq bit_take_bit_iff bit_xor_iff bit_ucast_iff dest: bit_imp_le_length)
  have split: "?x = take_bit 8 ?x XOR push_bit 8 (take_bit 24 (drop_bit 8 ?x))"
  proof (rule bit_word_eqI)
    fix n assume n: "n < LENGTH(32)"
    show "bit ?x n = bit (take_bit 8 ?x XOR push_bit 8 (take_bit 24 (drop_bit 8 ?x))) n"
    proof (cases "n < 8")
      case False
      then have "n - 8 < 24" "8 + (n - 8) = n" using n by simp_all
      with False n show ?thesis
        by (simp add: bit_drop_bit_eq bit_take_bit_iff bit_xor_iff bit_push_bit_iff)
    qed (simp add: bit_drop_bit_eq bit_take_bit_iff bit_xor_iff bit_push_bit_iff)
  qed
  have "(crc_bit poly ^^ 8) ?x = (crc_bit poly ^^ 8) (take_bit 8 ?x)
      XOR (crc_bit poly ^^ 8) (push_bit 8 (take_bit 24 (drop_bit 8 ?x)))"
    by (subst split) (rule crc_bits_xor)
  also have "\<dots> = (crc_bit poly ^^ 8) (take_bit 8 ?x) XOR take_bit 24 (drop_bit 8 ?x)"
    by (subst crc_bits_push) simp_all
  finally show ?thesis
    by (simp only: mask entry high)
qed

lemma update_table_run: "update_table (build_table poly) c bs = crc_run poly c bs"
  by (induction bs arbitrary: c) (simp_all add: table_step del: funpow.simps)


subsection \<open>The hardware paths are the register\<close>

lemma crc_bit_ucast: "crc_bit (ucast p) (ucast c) = (ucast (crc_bit p c) :: u64)" for p c :: u32
  by (rule bit_word_eqI) (auto simp: bit_crc_bit bit_ucast_iff dest: bit_imp_le_length)

lemma crc_bits_ucast:
  "(crc_bit (ucast p) ^^ n) (ucast c) = (ucast ((crc_bit p ^^ n) c) :: u64)" for p c :: u32
  by (induction n) (simp_all add: crc_bit_ucast)

lemma xor_ucast: "ucast c XOR ucast b = (ucast (c XOR ucast b) :: u64)" for c :: u32 and b :: u8
  by (rule bit_word_eqI) (auto simp: bit_xor_iff bit_ucast_iff dest: bit_imp_le_length)

lemma foldl_ucast:
  "foldl (\<lambda>c b. (crc_bit (ucast p) ^^ 8) (c XOR ucast b)) (ucast c :: u64) bs
     = ucast (crc_run p c bs)" for p c :: u32
proof (induction bs arbitrary: c)
  case Nil
  then show ?case by simp
next
  case (Cons b bs)
  have "(crc_bit (ucast p) ^^ 8) (ucast c XOR ucast b :: u64)
      = ucast ((crc_bit p ^^ 8) (c XOR ucast b))"
    by (simp only: xor_ucast crc_bits_ucast)
  with Cons show ?case by (simp only: foldl_Cons crc_run_simps)
qed

lemma ucast_u64_back [simp]: "ucast (ucast c :: u64) = c" for c :: u32
  by (rule bit_word_eqI) (simp add: bit_ucast_iff)

lemma mm_crc32_u64_run:
  assumes "length bs = 8"
  shows "mm_crc32_u64 (ucast c) (of_u64_le bs) = ucast (crc_run 0x82F63B78 c bs)"
proof -
  have low: "(ucast c AND 0xFFFFFFFF :: u64) = ucast c"
  proof (rule bit_word_eqI)
    fix n assume "n < LENGTH(64)"
    have m: "(0xFFFFFFFF :: u64) = mask 32" by (simp add: mask_eq_exp_minus_1)
    show "bit (ucast c AND 0xFFFFFFFF :: u64) n = bit (ucast c :: u64) n"
      unfolding m by (auto simp: bit_and_iff bit_mask_iff bit_ucast_iff dest: bit_imp_le_length)
  qed
  have p: "(0x82F63B78 :: u64) = ucast (0x82F63B78 :: u32)" by simp
  have "mm_crc32_u64 (ucast c) (of_u64_le bs)
      = (crc_bit (ucast (0x82F63B78 :: u32)) ^^ (8 * length bs)) (ucast c XOR of_nat (le_nat bs))"
    by (simp only: mm_crc32_u64_def low of_u64_le_def p assms) simp
  also have "\<dots> = ucast (crc_run 0x82F63B78 c bs)"
    by (subst crc_bits_word) (use assms in simp, rule foldl_ucast)
  finally show ?thesis .
qed

lemma foldl_mm_u8: "foldl mm_crc32_u8 c bs = crc_run 0x82F63B78 c bs"
  by (simp add: crc_run_def mm_crc32_u8_def [abs_def])

lemma sse42_words_run:
  "sse42_words (ucast c) bs = (c', r) \<Longrightarrow>
   foldl mm_crc32_u8 (ucast c') r = crc_run 0x82F63B78 c bs" for c :: u32
proof (induction "length bs" arbitrary: c bs rule: less_induct)
  case less
  show ?case
  proof (cases "8 \<le> length bs")
    case True
    let ?c = "crc_run 0x82F63B78 c (take 8 bs)"
    have "mm_crc32_u64 (ucast c) (of_u64_le (take 8 bs)) = ucast ?c"
      by (rule mm_crc32_u64_run) (use True in simp)
    with less.prems True have "sse42_words (ucast ?c) (drop 8 bs) = (c', r)"
      by (subst (asm) sse42_words.simps) simp
    then have "foldl mm_crc32_u8 (ucast c') r = crc_run 0x82F63B78 ?c (drop 8 bs)"
      by (rule less.hyps [rotated]) (use True in simp)
    also have "\<dots> = crc_run 0x82F63B78 c (take 8 bs @ drop 8 bs)"
      by (simp only: crc_run_simps)
    finally show ?thesis by simp
  next
    case False
    with less.prems have "c' = ucast c" "r = bs"
      by (simp_all add: sse42_words.simps [of "ucast c" bs])
    then show ?thesis by (simp add: foldl_mm_u8)
  qed
qed

lemma crc32cd_run: "length bs = 8 \<Longrightarrow> crc32cd c (of_u64_le bs) = crc_run 0x82F63B78 c bs"
  by (simp add: crc32cd_def mm_crc32_u64_run)

lemma arm_words_run:
  "arm_words c bs = (c', r) \<Longrightarrow> foldl crc32cb c' r = crc_run 0x82F63B78 c bs"
proof (induction "length bs" arbitrary: c bs rule: less_induct)
  case less
  show ?case
  proof (cases "8 \<le> length bs")
    case True
    let ?c = "crc_run 0x82F63B78 c (take 8 bs)"
    have "crc32cd c (of_u64_le (take 8 bs)) = ?c"
      by (rule crc32cd_run) (use True in simp)
    with less.prems True have "arm_words ?c (drop 8 bs) = (c', r)"
      by (subst (asm) arm_words.simps) simp
    then have "foldl crc32cb c' r = crc_run 0x82F63B78 ?c (drop 8 bs)"
      by (rule less.hyps [rotated]) (use True in simp)
    also have "\<dots> = crc_run 0x82F63B78 c (take 8 bs @ drop 8 bs)"
      by (simp only: crc_run_simps)
    finally show ?thesis by simp
  next
    case False
    with less.prems have "c' = c" "r = bs"
      by (simp_all add: arm_words.simps [of c bs])
    then show ?thesis by (simp add: foldl_mm_u8 crc32cb_def [abs_def])
  qed
qed

lemma update_castagnoli_run: "update_castagnoli cpu c bs = crc_run 0x82F63B78 c bs"
proof -
  have "update_sse42 c bs = crc_run 0x82F63B78 c bs"
    using sse42_words_run [of c bs] by (auto simp: update_sse42_def split: prod.splits)
  moreover have "update_arm_crc c bs = crc_run 0x82F63B78 c bs"
    using arm_words_run [of c bs] by (auto simp: update_arm_crc_def split: prod.splits)
  ultimately show ?thesis
    by (cases cpu) (simp_all add: CRC32C_TABLE_def update_table_run)
qed

definition family_poly :: "crc_family \<Rightarrow> u32" where
  "family_poly f = (case f of Castagnoli \<Rightarrow> 0x82F63B78 | Ieee \<Rightarrow> 0xEDB88320)"

lemma update_family_run: "update_family cpu f c bs = crc_run (family_poly f) c bs"
  by (cases f) (simp_all add: update_castagnoli_run family_poly_def CRC32_IEEE_TABLE_def update_table_run)

lemma crc_bits_8: "(f ^^ 8) x = f (f (f (f (f (f (f (f x)))))))"
  by (simp add: numeral_eq_Suc)

lemma crc32c_bitwise_run: "crc32c_bitwise bs = NOT (crc_run 0x82F63B78 (NOT 0) bs)"
proof -
  have ones: "(0xFFFFFFFF :: u32) = NOT 0" by simp
  show ?thesis
    by (simp only: crc32c_bitwise_def crc_run_def bitwise_byte_def [abs_def] ones)
qed

text \<open>The known test vector of CRC32C.\<close>

lemma crc32c_test_vector:
  "crc32c_bitwise [0x31, 0x32, 0x33, 0x34, 0x35, 0x36, 0x37, 0x38, 0x39] = 0xE3069283"
  by (simp add: crc32c_bitwise_def bitwise_byte_def crc_bits_8 crc_bit_def)

lemma crc32c_with_run: "crc32c_with cpu f bs = NOT (crc_run (family_poly f) (NOT 0) bs)"
  by (simp add: crc32c_with_def update_family_run)

subsection \<open>What the checksum detects\<close>

text \<open>
  A generator whose reflected form has its top bit set makes the register step a bijection;
  everything the checksum promises about corruption follows from that.
\<close>

locale crc_generator =
  fixes poly :: u32
  assumes top_bit: "bit poly 31"
begin

lemma crc_bit_inject: "crc_bit poly x = crc_bit poly y \<longleftrightarrow> x = y" for x y :: u32
proof
  assume eq: "crc_bit poly x = crc_bit poly y"
  have out: "\<not> bit z 32" for z :: u32
    using bit_imp_le_length [of z 32] by auto
  have "bit (crc_bit poly x) 31 = bit (crc_bit poly y) 31" using eq by simp
  then have low: "bit x 0 = bit y 0"
    using out [of x] out [of y] bit_crc_bit [of poly x 31] bit_crc_bit [of poly y 31] by (simp add: top_bit)
  have "bit x (Suc n) = bit y (Suc n)" for n
  proof -
    have "bit (crc_bit poly x) n = bit (crc_bit poly y) n" using eq by simp
    with low show ?thesis by (auto simp: bit_crc_bit)
  qed
  with low have "bit x n = bit y n" for n by (cases n) auto
  then show "x = y" by (simp add: bit_eq_iff)
qed simp

lemma crc_bits_inject: "(crc_bit poly ^^ n) x = (crc_bit poly ^^ n) y \<longleftrightarrow> x = y" for x y :: u32
  by (induction n) (simp_all add: crc_bit_inject)

lemma xor_cancel: "x XOR z = y XOR z \<longleftrightarrow> x = y" for x y z :: u32
  by (auto simp: bit_eq_iff bit_xor_iff)

lemma run_inject: "crc_run poly x bs = crc_run poly y bs \<longleftrightarrow> x = y"
  by (induction bs arbitrary: x y) (simp_all only: crc_run_simps crc_bits_inject xor_cancel)

lemma run_word_inject:
  assumes "length u = length v" "length v \<le> 4" "crc_run poly c u = crc_run poly c v"
  shows "u = v"
proof -
  have word: "crc_run poly c bs = (crc_bit poly ^^ (8 * length v)) (c XOR of_nat (le_nat bs))"
    if "length bs = length v" for bs
    using crc_bits_word [of bs poly c] that assms(2) by (simp add: crc_run_def)
  have "c XOR of_nat (le_nat u) = c XOR (of_nat (le_nat v) :: u32)"
    using assms by (simp add: word crc_bits_inject)
  then have eq: "(of_nat (le_nat u) :: u32) = of_nat (le_nat v)"
    by (metis xor.commute xor_cancel)
  have bound: "le_nat bs < 2 ^ 32" if "length bs \<le> 4" for bs
  proof -
    have "le_nat bs < 256 ^ length bs" by (rule le_nat_less)
    also have "(256::nat) ^ length bs \<le> 256 ^ 4"
      by (rule power_increasing) (use that in simp_all)
    finally show ?thesis by simp
  qed
  have readb: "unat (of_nat (le_nat bs) :: u32) = le_nat bs" if "length bs \<le> 4" for bs
    using bound [OF that] by (simp add: unat_of_nat)
  have "le_nat u = unat (of_nat (le_nat u) :: u32)"
    by (rule sym, rule readb) (use assms(1,2) in simp)
  also have "\<dots> = unat (of_nat (le_nat v) :: u32)"
    by (rule arg_cong [OF eq])
  also have "\<dots> = le_nat v"
    by (rule readb) (rule assms(2))
  finally have "le_bytes (length u) (le_nat u) = le_bytes (length v) (le_nat v)"
    by (simp only: assms(1))
  then show ?thesis by (simp only: le_bytes_le_nat)
qed

lemma burst_inject:
  assumes "differ_only_in p 4 xs ys" "crc_run poly c xs = crc_run poly c ys"
  shows "xs = ys"
proof -
  obtain a u v z where "xs = a @ u @ z" "ys = a @ v @ z" "length u = length v" "length u \<le> 4"
    using assms(1) by (rule differ_only_inD)
  moreover from this assms(2)
  have "crc_run poly (crc_run poly c a) u = crc_run poly (crc_run poly c a) v"
    by (simp only: crc_run_simps run_inject)
  ultimately show ?thesis
    using run_word_inject [of u v] by simp
qed

end

interpretation castagnoli: crc_generator "0x82F63B78"
  by unfold_locales simp

interpretation ieee: crc_generator "0xEDB88320"
  by unfold_locales simp

lemma family_burst_inject:
  "differ_only_in p 4 xs ys \<Longrightarrow> crc_run (family_poly f) c xs = crc_run (family_poly f) c ys \<Longrightarrow> xs = ys"
  by (cases f) (auto simp: family_poly_def dest: castagnoli.burst_inject ieee.burst_inject)

lemma crc32c_zeroed_run:
  assumes "crc_off + 4 \<le> length bytes"
  shows "crc32c_zeroed cpu f bytes crc_off
    = Ok (crc32c_with cpu f (put_bytes crc_off [0, 0, 0, 0] bytes))"
proof -
  have "crc_off + length [0, 0, 0, 0 :: u8] = crc_off + 4" by simp
  then have "put_bytes crc_off [0, 0, 0, 0] bytes = take crc_off bytes @ [0, 0, 0, 0] @ drop (crc_off + 4) bytes"
    by (simp only: put_bytes_def)
  moreover have "crc32c_zeroed cpu f bytes crc_off
      = Ok (NOT (crc_run (family_poly f) (crc_run (family_poly f) (crc_run (family_poly f) (NOT 0)
          (take crc_off bytes)) [0, 0, 0, 0]) (drop (crc_off + 4) bytes)))"
    using assms by (simp add: crc32c_zeroed_def subslice_def update_family_run del: crc_run_simps)
  ultimately show ?thesis
    by (simp only: crc32c_with_run crc_run_simps(3))
qed

subsection \<open>Properties\<close>

text \<open>C40: Every checksum path computes the same value: whatever the processor and its feature
  test say (SSE4.2 eight bytes at a time, the ARM CRC instructions, or the 256-entry table), the
  CRC32C of a byte string is the one the table walk gives, and it equals the independent
  bit-by-bit division.\<close>

theorem crc_paths_agree:
  "crc32c cpu bytes = crc32c_table bytes \<and> crc32c_table bytes = crc32c_bitwise bytes"
  by (simp add: crc32c_def crc32c_with_run crc32c_table_def CRC32C_TABLE_def update_table_run
      crc32c_bitwise_run family_poly_def)

end
