(* ===== verification/Float32.thy ===== *)
theory Float32
  imports WireLayout
begin

text \<open>
  The binary32 arithmetic the sources use, on bit patterns, and the BF16 conversions of
  \<open>crates/mimo26-wire/src/bf16.rs\<close>. Every finite \<open>f32\<close> is an integer multiple of
  \<open>2 ^ (-149)\<close>; \<open>f32_units\<close> is that integer, so addition is exact integer addition followed
  by one rounding to nearest, ties to even. Rust leaves the payload of a NaN result open; the
  model takes the quiet NaN \<open>0x7FC00000\<close>.
\<close>

subsection \<open>Values\<close>

definition f32_neg :: "f32 \<Rightarrow> bool" where
  "f32_neg w = bit w 31"

text \<open>The magnitude bits: the pattern without its sign.\<close>

definition f32_mag :: "f32 \<Rightarrow> nat" where
  "f32_mag w = unat (w AND 0x7FFFFFFF)"

definition f32_is_nan :: "f32 \<Rightarrow> bool" where
  "f32_is_nan w = (0x7F800000 < f32_mag w)"

definition f32_is_inf :: "f32 \<Rightarrow> bool" where
  "f32_is_inf w = (f32_mag w = 0x7F800000)"

text \<open>The magnitude of a pattern below infinity, in units of \<open>2 ^ (-149)\<close>.\<close>

definition mag_units :: "nat \<Rightarrow> nat" where
  "mag_units m =
     (if m div 2 ^ 23 = 0 then m else (2 ^ 23 + m mod 2 ^ 23) * 2 ^ (m div 2 ^ 23 - 1))"

definition f32_units :: "f32 \<Rightarrow> int" where
  "f32_units w = (if f32_neg w then - int (mag_units (f32_mag w)) else int (mag_units (f32_mag w)))"

subsection \<open>Rounding and addition\<close>

fun bit_len :: "nat \<Rightarrow> nat" where
  "bit_len n = (if n = 0 then 0 else Suc (bit_len (n div 2)))"

declare bit_len.simps [simp del]

text \<open>The magnitude bits nearest to \<open>n\<close> units, ties to even, infinity on overflow.\<close>

definition round_units :: "nat \<Rightarrow> nat" where
  "round_units n =
     (if n < 2 ^ 24 then n
      else let s = bit_len n - 24; q = n div 2 ^ s; r = n mod 2 ^ s; half = 2 ^ (s - 1);
               q' = (if half < r \<or> (r = half \<and> odd q) then q + 1 else q)
           in min (s * 2 ^ 23 + q') 0x7F800000)"

definition f32_add :: "f32 \<Rightarrow> f32 \<Rightarrow> f32" where
  "f32_add a b =
     (if f32_is_nan a \<or> f32_is_nan b then 0x7FC00000
      else if f32_is_inf a then (if f32_is_inf b \<and> f32_neg a \<noteq> f32_neg b then 0x7FC00000 else a)
      else if f32_is_inf b then b
      else let s = f32_units a + f32_units b in
           if s = 0 then (if f32_neg a \<and> f32_neg b then 0x80000000 else 0)
           else if s < 0 then 0x80000000 OR of_nat (round_units (nat (- s)))
           else of_nat (round_units (nat s)))"

text \<open>The comparison \<open><\<close>: false when either side is NaN; infinity is above every finite value.\<close>

definition f32_lt :: "f32 \<Rightarrow> f32 \<Rightarrow> bool" where
  "f32_lt a b = (\<not> f32_is_nan a \<and> \<not> f32_is_nan b \<and> f32_units a < f32_units b)"

lemma f32_mag_zero [simp]: "f32_mag 0 = 0" and f32_neg_zero [simp]: "\<not> f32_neg 0"
  by (simp_all add: f32_mag_def f32_neg_def)

lemma mag_units_zero [simp]: "mag_units 0 = 0"
  by (simp add: mag_units_def)

lemma f32_units_zero [simp]: "f32_units 0 = 0"
  by (simp add: f32_units_def)

lemma f32_eqI:
  assumes "f32_mag a = f32_mag b" "f32_neg a = f32_neg b"
  shows "a = b"
proof (rule bit_word_eqI)
  fix n assume n: "n < LENGTH(32)"
  have low: "(0x7FFFFFFF :: u32) = mask 31" by (simp add: mask_eq_exp_minus_1)
  have "a AND mask 31 = b AND mask 31"
    using assms(1) by (simp only: f32_mag_def low word_unat_eq_iff)
  then have "bit (a AND mask 31) n = bit (b AND mask 31) n" by simp
  moreover have "n = 31" if "\<not> n < 31" using n that by simp
  ultimately show "bit a n = bit b n"
    using assms(2) by (cases "n < 31") (auto simp: bit_and_iff bit_mask_iff f32_neg_def)
qed

lemma f32_add_commute: "f32_add a b = f32_add b a"
  using f32_eqI [of a b]
  by (auto simp: f32_add_def Let_def add.commute f32_is_inf_def)

subsection \<open>bf16.rs\<close>

definition bf16_to_f32 :: "u16 \<Rightarrow> f32" where
  "bf16_to_f32 bits = push_bit 16 (ucast bits)"

definition f32_to_bf16_rne :: "f32 \<Rightarrow> u16" where
  "f32_to_bf16_rne bits =
     (let sign = ucast (drop_bit 16 bits AND 0x8000);
          mag = bits AND 0x7FFFFFFF in
      if mag > 0x7F800000 then sign OR 0x7FFF
      else let rounded = mag + (0x7FFF + (drop_bit 16 mag AND 1));
               rounded = (if rounded \<ge> 0x7F800000 then 0x7F800000 else rounded)
           in sign OR ucast (drop_bit 16 rounded))"

definition f32_to_bf16 :: "f32 \<Rightarrow> wire_naive \<Rightarrow> u16" where
  "f32_to_bf16 bits naive =
     (if naive_has naive BF16_TRUNCATE then ucast (drop_bit 16 bits) else f32_to_bf16_rne bits)"

definition f32_to_bf16_env :: "bool \<Rightarrow> bool \<Rightarrow> f32 \<Rightarrow> u16" where
  "f32_to_bf16_env spike wire value = f32_to_bf16 value (naive_from_env spike wire)"

end
