(* ===== verification/Frame.thy ===== *)
theory Frame
  imports Crc32c Float32
begin

text \<open>
  The frame codec, \<open>crates/mimo26-wire/src/frame.rs\<close>: row descriptors, route entries, the
  128-byte header, the checksum seal, and the encoders and decoders of request and return
  frames. Two values the process reads from its surroundings are arguments: the processor
  (\<open>env_cpu\<close>) and \<open>MIMO26_WIRE_NOCRC\<close> (\<open>env_nocrc\<close>). Allocation is assumed to succeed.
\<close>

record wire_env =
  env_cpu :: cpu
  env_nocrc :: bool

subsection \<open>Frame data\<close>

definition FLAG_SPARK_REDUCTION :: u32 where "FLAG_SPARK_REDUCTION = push_bit 9 1"
definition FLAG_V41_COMPACT_BF16 :: u32 where "FLAG_V41_COMPACT_BF16 = push_bit 16 1"
definition FLAG_RETURN_REQUIRED :: u32 where
  "FLAG_RETURN_REQUIRED = FLAG_SPARK_REDUCTION OR FLAG_V41_COMPACT_BF16"

record row_descriptor =
  rd_row_id :: u64
  rd_source_kind :: source_kind
  rd_source_request_id :: u64
  rd_token_position :: u64
  rd_route_offset :: u32
  rd_route_count :: u32

record route_entry =
  re_row_index :: u32
  re_expert_id :: u32
  re_gate_weight :: f32

record hidden_row =
  hr_payload :: "u8 list"
  hr_scales :: "u8 list"

record request_frame =
  rq_request_id :: u64
  rq_placement_version :: u64
  rq_layer_id :: u32
  rq_executor_id :: u64
  rq_source_kind :: source_kind
  rq_token_position :: u64
  rq_flags :: u32
  rq_seq :: u64
  rq_rows :: "row_descriptor list"
  rq_routes :: "route_entry list"
  rq_hidden_rows :: "hidden_row list"

record return_row =
  rr_codes :: "u16 list"

record return_frame =
  rt_request_id :: u64
  rt_placement_version :: u64
  rt_layer_id :: u32
  rt_executor_id :: u64
  rt_token_position :: u64
  rt_status :: status
  rt_flags :: u32
  rt_route_count :: nat
  rt_seq :: u64
  rt_rows :: "return_row list"

datatype frame = FRequest request_frame | FReturn return_frame

fun frame_seq_of :: "frame \<Rightarrow> u64" where
  "frame_seq_of (FRequest r) = rq_seq r"
| "frame_seq_of (FReturn r) = rt_seq r"

record header_fields =
  hf_kind :: u16
  hf_request_id :: u64
  hf_placement_version :: u64
  hf_layer_id :: u32
  hf_row_count :: u32
  hf_dim :: u32
  hf_dtype :: dtype
  hf_source_kind :: source_kind
  hf_route_count :: u32
  hf_row_descriptor_bytes :: u32
  hf_route_bytes :: u32
  hf_payload_bytes :: u64
  hf_logical_payload_bytes :: u64
  hf_wire_bytes :: u64
  hf_flags :: u32
  hf_row_stride_bytes :: u32
  hf_status :: status
  hf_executor_id :: u64
  hf_token_position :: u64
  hf_seq :: u64

subsection \<open>Little-endian helpers\<close>

text \<open>
  The buffers the \<open>put\<close> helpers write are arrays of a constant size and every offset is a
  constant inside them. The \<open>get\<close> helpers check the range themselves; a sum that overflows
  \<open>usize\<close> is out of range for any slice.
\<close>

definition put_u16 :: "u8 list \<Rightarrow> nat \<Rightarrow> u16 \<Rightarrow> u8 list" where
  "put_u16 out at v = put_bytes at (u16_le v) out"

definition put_u32 :: "u8 list \<Rightarrow> nat \<Rightarrow> u32 \<Rightarrow> u8 list" where
  "put_u32 out at v = put_bytes at (u32_le v) out"

definition put_u64 :: "u8 list \<Rightarrow> nat \<Rightarrow> u64 \<Rightarrow> u8 list" where
  "put_u64 out at v = put_bytes at (u64_le v) out"

definition get_u16 :: "u8 list \<Rightarrow> nat \<Rightarrow> u16 wire_result" where
  "get_u16 bytes at =
     (if at + 2 \<le> length bytes then Ok (of_u16_le (take 2 (drop at bytes)))
      else Err (TooShort (usize_add at 2) (length bytes)))"

definition get_u32 :: "u8 list \<Rightarrow> nat \<Rightarrow> u32 wire_result" where
  "get_u32 bytes at =
     (if at + 4 \<le> length bytes then Ok (of_u32_le (take 4 (drop at bytes)))
      else Err (TooShort (usize_add at 4) (length bytes)))"

definition get_u64 :: "u8 list \<Rightarrow> nat \<Rightarrow> u64 wire_result" where
  "get_u64 bytes at =
     (if at + 8 \<le> length bytes then Ok (of_u64_le (take 8 (drop at bytes)))
      else Err (TooShort (usize_add at 8) (length bytes)))"

definition get_f32 :: "u8 list \<Rightarrow> nat \<Rightarrow> f32 wire_result" where
  "get_f32 bytes at =
     (if at + 4 \<le> length bytes then Ok (of_u32_le (take 4 (drop at bytes)))
      else Err (TooShort (usize_add at 4) (length bytes)))"

definition usize_MAX :: nat where "usize_MAX = 2 ^ 64 - 1"

definition checked_mul :: "nat \<Rightarrow> nat \<Rightarrow> string \<Rightarrow> nat wire_result" where
  "checked_mul a b field =
     (if a * b < 2 ^ 64 then Ok (a * b) else Err (DimMismatch field 0 usize_MAX))"

definition as_u32 :: "nat \<Rightarrow> string \<Rightarrow> u32 wire_result" where
  "as_u32 v field = (if v < 2 ^ 32 then Ok (of_nat v) else Err (DimMismatch field (2 ^ 32 - 1) v))"

subsection \<open>Row descriptors and route entries\<close>

definition desc_identity_at :: "wire_naive \<Rightarrow> nat \<times> nat" where
  "desc_identity_at naive =
     (if naive_has naive DESC_FIELD_DRIFT then (desc_TOKEN_POSITION, desc_SOURCE_REQUEST_ID)
      else (desc_SOURCE_REQUEST_ID, desc_TOKEN_POSITION))"

definition row_descriptor_wire :: "row_descriptor \<Rightarrow> wire_naive \<Rightarrow> u8 list" where
  "row_descriptor_wire row naive =
     (let b = replicate ROW_DESCRIPTOR_LEN 0;
          b = put_u64 b desc_ROW_ID (rd_row_id row);
          b = put_u16 b desc_SOURCE_KIND (source_kind_code (rd_source_kind row));
          (id_at, pos_at) = desc_identity_at naive;
          b = put_u64 b id_at (rd_source_request_id row);
          b = put_u64 b pos_at (rd_token_position row);
          b = put_u32 b desc_ROUTE_OFFSET (rd_route_offset row);
          b = put_u32 b desc_ROUTE_COUNT (rd_route_count row)
      in b)"

definition row_descriptor_from_wire :: "u8 list \<Rightarrow> nat \<Rightarrow> wire_naive \<Rightarrow> row_descriptor wire_result" where
  "row_descriptor_from_wire bytes off naive =
     (if \<not> off + ROW_DESCRIPTOR_LEN \<le> length bytes
      then Err (TooShort (usize_add off ROW_DESCRIPTOR_LEN) (length bytes))
      else
        obind (subslice bytes off (off + ROW_DESCRIPTOR_LEN)) (\<lambda>b.
        let (id_at, pos_at) = desc_identity_at naive in
        obind (get_u64 b desc_ROW_ID) (\<lambda>row_id.
        obind (get_u16 b desc_SOURCE_KIND) (\<lambda>code.
        obind (source_kind_from_code code) (\<lambda>source_kind.
        obind (get_u64 b id_at) (\<lambda>source_request_id.
        obind (get_u64 b pos_at) (\<lambda>token_position.
        obind (get_u32 b desc_ROUTE_OFFSET) (\<lambda>route_offset.
        obind (get_u32 b desc_ROUTE_COUNT) (\<lambda>route_count.
          Ok \<lparr>rd_row_id = row_id, rd_source_kind = source_kind,
              rd_source_request_id = source_request_id, rd_token_position = token_position,
              rd_route_offset = route_offset, rd_route_count = route_count\<rparr>)))))))))"

definition route_fields_at :: "wire_naive \<Rightarrow> nat \<times> nat" where
  "route_fields_at naive =
     (if naive_has naive ROUTE_FIELD_SWAP then (route_GATE_WEIGHT, route_EXPERT_ID)
      else (route_EXPERT_ID, route_GATE_WEIGHT))"

definition route_entry_wire :: "route_entry \<Rightarrow> wire_naive \<Rightarrow> u8 list" where
  "route_entry_wire r naive =
     (let b = replicate ROUTE_ENTRY_LEN 0;
          b = put_u32 b route_ROW_INDEX (re_row_index r);
          (id_at, w_at) = route_fields_at naive;
          b = put_u32 b id_at (re_expert_id r);
          b = put_u32 b w_at (re_gate_weight r)
      in b)"

definition route_entry_from_wire :: "u8 list \<Rightarrow> nat \<Rightarrow> wire_naive \<Rightarrow> route_entry wire_result" where
  "route_entry_from_wire bytes off naive =
     (if \<not> off + ROUTE_ENTRY_LEN \<le> length bytes
      then Err (TooShort (usize_add off ROUTE_ENTRY_LEN) (length bytes))
      else
        obind (subslice bytes off (off + ROUTE_ENTRY_LEN)) (\<lambda>b.
        let (id_at, w_at) = route_fields_at naive in
        obind (get_u32 b route_ROW_INDEX) (\<lambda>row_index.
        obind (get_u32 b id_at) (\<lambda>expert_id.
        obind (get_f32 b w_at) (\<lambda>gate_weight.
          Ok \<lparr>re_row_index = row_index, re_expert_id = expert_id, re_gate_weight = gate_weight\<rparr>)))))"

definition row_range_ok :: "nat \<Rightarrow> nat \<times> row_descriptor \<Rightarrow> unit wire_result" where
  "row_range_ok routes ir =
     (let end_at = unat (rd_route_offset (snd ir)) + unat (rd_route_count (snd ir)) in
      if end_at > routes then Err (RouteRangeBad (fst ir)) else Ok ())"

definition route_row_ok :: "nat \<Rightarrow> nat \<times> route_entry \<Rightarrow> unit wire_result" where
  "route_row_ok rows jr =
     (if unat (re_row_index (snd jr)) \<ge> rows
      then Err (RouteRowMismatch (fst jr) (re_row_index (snd jr)) (of_nat rows)) else Ok ())"

definition validate_rows_routes :: "row_descriptor list \<Rightarrow> route_entry list \<Rightarrow> unit wire_result" where
  "validate_rows_routes rows routes =
     obind (check_all (row_range_ok (length routes)) (List.enumerate 0 rows)) (\<lambda>_.
     check_all (route_row_ok (length rows)) (List.enumerate 0 routes))"

subsection \<open>Header\<close>

definition write_header :: "header_fields \<Rightarrow> wire_naive \<Rightarrow> u8 list" where
  "write_header h naive =
     (let b = replicate HEADER_LEN 0;
          b = put_bytes hdr_MAGIC wire_magic b;
          b = put_u16 b hdr_VERSION VERSION;
          b = put_u16 b hdr_KIND (hf_kind h);
          b = put_u32 b hdr_HEADER_LEN (of_nat HEADER_LEN);
          b = put_u64 b hdr_REQUEST_ID (hf_request_id h);
          b = put_u64 b hdr_PLACEMENT_VERSION (hf_placement_version h);
          b = put_u32 b hdr_LAYER_ID (hf_layer_id h);
          b = put_u32 b hdr_ROW_COUNT (hf_row_count h);
          b = put_u32 b hdr_DIM (hf_dim h);
          b = put_u16 b hdr_PAYLOAD_DTYPE (dtype_code (hf_dtype h) naive);
          b = put_u16 b hdr_SOURCE_KIND (source_kind_code (hf_source_kind h));
          b = put_u32 b hdr_ROUTE_COUNT (hf_route_count h);
          b = put_u32 b hdr_ROW_DESCRIPTOR_BYTES (hf_row_descriptor_bytes h);
          b = put_u32 b hdr_ROUTE_BYTES (hf_route_bytes h);
          b = put_u64 b hdr_PAYLOAD_BYTES (hf_payload_bytes h);
          b = put_u64 b hdr_LOGICAL_PAYLOAD_BYTES (hf_logical_payload_bytes h);
          b = put_u64 b hdr_WIRE_BYTES (hf_wire_bytes h);
          b = put_u32 b hdr_FLAGS (hf_flags h);
          b = put_u32 b hdr_ROW_STRIDE_BYTES (hf_row_stride_bytes h);
          b = put_u32 b hdr_STATUS (status_code (hf_status h));
          b = put_u64 b hdr_EXECUTOR_ID (hf_executor_id h);
          b = put_u64 b hdr_TOKEN_POSITION (hf_token_position h);
          b = put_u64 b hdr_SEQ (hf_seq h)
      in b)"

definition parse_header :: "u8 list \<Rightarrow> wire_naive \<Rightarrow> header_fields wire_result" where
  "parse_header bytes naive =
     (if length bytes < HEADER_LEN then Err (TooShort HEADER_LEN (length bytes))
      else
      obind (subslice bytes hdr_MAGIC (hdr_MAGIC + 8)) (\<lambda>m.
      if m \<noteq> wire_magic then Err (BadMagic m)
      else
      obind (get_u16 bytes hdr_VERSION) (\<lambda>version.
      if version \<noteq> VERSION then Err (BadVersion version)
      else
      obind (get_u16 bytes hdr_KIND) (\<lambda>kind.
      if kind \<noteq> KIND_REQUEST \<and> kind \<noteq> KIND_RETURN then Err (BadKind kind)
      else
      obind (get_u32 bytes hdr_HEADER_LEN) (\<lambda>header_len.
      if unat header_len \<noteq> HEADER_LEN then Err (BadHeaderLen header_len)
      else
      obind (get_u64 bytes hdr_WIRE_BYTES) (\<lambda>wire_bytes.
      let declared = unat wire_bytes in
      if length bytes < declared then Err (Truncated declared (length bytes))
      else if length bytes > declared then Err (TrailingBytes declared (length bytes))
      else
      obind (get_u64 bytes hdr_REQUEST_ID) (\<lambda>request_id.
      obind (get_u64 bytes hdr_PLACEMENT_VERSION) (\<lambda>placement_version.
      obind (get_u32 bytes hdr_LAYER_ID) (\<lambda>layer_id.
      obind (get_u32 bytes hdr_ROW_COUNT) (\<lambda>row_count.
      obind (get_u32 bytes hdr_DIM) (\<lambda>dim.
      obind (obind (get_u16 bytes hdr_PAYLOAD_DTYPE) (\<lambda>c. dtype_from_code c naive)) (\<lambda>dtype.
      obind (obind (get_u16 bytes hdr_SOURCE_KIND) source_kind_from_code) (\<lambda>source_kind.
      obind (get_u32 bytes hdr_ROUTE_COUNT) (\<lambda>route_count.
      obind (get_u32 bytes hdr_ROW_DESCRIPTOR_BYTES) (\<lambda>row_descriptor_bytes.
      obind (get_u32 bytes hdr_ROUTE_BYTES) (\<lambda>route_bytes.
      obind (get_u64 bytes hdr_PAYLOAD_BYTES) (\<lambda>payload_bytes.
      obind (get_u64 bytes hdr_LOGICAL_PAYLOAD_BYTES) (\<lambda>logical_payload_bytes.
      obind (get_u32 bytes hdr_FLAGS) (\<lambda>flags.
      obind (get_u32 bytes hdr_ROW_STRIDE_BYTES) (\<lambda>row_stride_bytes.
      obind (obind (get_u32 bytes hdr_STATUS) status_from_code) (\<lambda>status.
      obind (get_u64 bytes hdr_EXECUTOR_ID) (\<lambda>executor_id.
      obind (get_u64 bytes hdr_TOKEN_POSITION) (\<lambda>token_position.
      obind (get_u64 bytes hdr_SEQ) (\<lambda>seq.
        Ok \<lparr>hf_kind = kind, hf_request_id = request_id, hf_placement_version = placement_version,
            hf_layer_id = layer_id, hf_row_count = row_count, hf_dim = dim, hf_dtype = dtype,
            hf_source_kind = source_kind, hf_route_count = route_count,
            hf_row_descriptor_bytes = row_descriptor_bytes, hf_route_bytes = route_bytes,
            hf_payload_bytes = payload_bytes, hf_logical_payload_bytes = logical_payload_bytes,
            hf_wire_bytes = wire_bytes, hf_flags = flags, hf_row_stride_bytes = row_stride_bytes,
            hf_status = status, hf_executor_id = executor_id,
            hf_token_position = token_position, hf_seq = seq\<rparr>))))))))))))))))))))))))"

definition frame_seq :: "u8 list \<Rightarrow> u64 option" where
  "frame_seq bytes =
     (if length bytes < hdr_SEQ + 8 then None
      else (case get_u64 bytes hdr_SEQ of Ok v \<Rightarrow> Some v | Err e \<Rightarrow> None | Panic \<Rightarrow> None))"

subsection \<open>Seal and verify\<close>

definition compute_crc :: "wire_env \<Rightarrow> u8 list \<Rightarrow> wire_naive \<Rightarrow> u32 wire_result" where
  "compute_crc env bytes naive =
     (let family = family_for naive in
      if naive_has naive CRC_HEADER_EXEMPT
      then obind (subslice bytes HEADER_LEN (length bytes)) (\<lambda>b. Ok (crc32c_with (env_cpu env) family b))
      else crc32c_zeroed (env_cpu env) family bytes hdr_CRC32C)"

definition seal_in_place :: "wire_env \<Rightarrow> u8 list \<Rightarrow> wire_naive \<Rightarrow> u8 list wire_result" where
  "seal_in_place env buf naive =
     (if env_nocrc env then Ok buf
      else obind (compute_crc env buf naive) (\<lambda>crc. write_at hdr_CRC32C (u32_le crc) buf))"

definition seal :: "wire_env \<Rightarrow> u8 list \<Rightarrow> wire_naive \<Rightarrow> u8 list wire_result" where
  "seal env frame naive =
     (if env_nocrc env then Ok frame
      else obind (compute_crc env frame naive) (\<lambda>crc. write_at hdr_CRC32C (u32_le crc) frame))"

definition verify_crc :: "wire_env \<Rightarrow> u8 list \<Rightarrow> wire_naive \<Rightarrow> u64 \<Rightarrow> unit wire_result" where
  "verify_crc env bytes naive seq =
     (if naive_has naive CRC_UNCHECKED then Ok ()
      else if env_nocrc env then Ok ()
      else
      obind (compute_crc env bytes naive) (\<lambda>want.
      obind (get_u32 bytes hdr_CRC32C) (\<lambda>got.
      if want \<noteq> got then Err (Corrupt seq want got) else Ok ())))"

subsection \<open>Request frames\<close>

definition hidden_row_ok :: "nat \<Rightarrow> hidden_row \<Rightarrow> unit wire_result" where
  "hidden_row_ok scales_len h =
     (if length (hr_payload h) \<noteq> HIDDEN
      then Err (DimMismatch ''hidden.payload'' HIDDEN (length (hr_payload h)))
      else if length (hr_scales h) \<noteq> scales_len
      then Err (DimMismatch ''hidden.scales'' scales_len (length (hr_scales h)))
      else Ok ())"

definition hidden_row_wire :: "hidden_row \<Rightarrow> u8 list" where
  "hidden_row_wire h = hr_payload h @ hr_scales h"

definition request_dtype :: "wire_naive \<Rightarrow> dtype" where
  "request_dtype naive =
     (if naive_has naive ROW_SCALED_DTYPE then DtFp8E4m3RowScaled else DtFp8E4m3Ue8m0K32)"

definition encode_request_seq ::
    "wire_env \<Rightarrow> request_frame \<Rightarrow> u64 \<Rightarrow> wire_naive \<Rightarrow> u8 list wire_result" where
  "encode_request_seq env frame seq naive =
     (if rq_rows frame = [] then Err (DimMismatch ''rows'' 1 0)
      else if length (rq_hidden_rows frame) \<noteq> length (rq_rows frame)
      then Err (DimMismatch ''hidden_rows'' (length (rq_rows frame)) (length (rq_hidden_rows frame)))
      else
      obind (validate_rows_routes (rq_rows frame) (rq_routes frame)) (\<lambda>_.
      let hidden_row = hidden_row_bytes naive; scales_len = hidden_row - HIDDEN in
      obind (check_all (hidden_row_ok scales_len) (rq_hidden_rows frame)) (\<lambda>_.
      let rows = length (rq_rows frame); routes = length (rq_routes frame);
          row_bytes = request_row_bytes naive in
      obind (checked_mul rows ROW_DESCRIPTOR_LEN ''row_descriptor_bytes'') (\<lambda>row_descriptor_bytes.
      obind (checked_mul routes ROUTE_ENTRY_LEN ''route_bytes'') (\<lambda>route_bytes.
      obind (checked_mul rows hidden_row ''payload_bytes'') (\<lambda>payload_bytes.
      obind (checked_mul rows row_bytes ''logical_payload_bytes'') (\<lambda>logical_bytes.
      let body_len = usize_add (usize_add row_descriptor_bytes route_bytes) payload_bytes;
          wire_len = HEADER_LEN + body_len in
      if \<not> wire_len < 2 ^ 64 then Err (DimMismatch ''wire_bytes'' 0 usize_MAX)
      else
      obind (as_u32 rows ''row_count'') (\<lambda>row_count.
      obind (as_u32 routes ''route_count'') (\<lambda>route_count.
      obind (as_u32 row_descriptor_bytes ''row_descriptor_bytes'') (\<lambda>row_descriptor_bytes32.
      obind (as_u32 route_bytes ''route_bytes'') (\<lambda>route_bytes32.
      obind (as_u32 hidden_row ''row_stride_bytes'') (\<lambda>row_stride_bytes.
      let out = write_header
            \<lparr>hf_kind = KIND_REQUEST, hf_request_id = rq_request_id frame,
             hf_placement_version = rq_placement_version frame, hf_layer_id = rq_layer_id frame,
             hf_row_count = row_count, hf_dim = of_nat HIDDEN, hf_dtype = request_dtype naive,
             hf_source_kind = rq_source_kind frame, hf_route_count = route_count,
             hf_row_descriptor_bytes = row_descriptor_bytes32, hf_route_bytes = route_bytes32,
             hf_payload_bytes = of_nat payload_bytes, hf_logical_payload_bytes = of_nat logical_bytes,
             hf_wire_bytes = of_nat wire_len, hf_flags = rq_flags frame,
             hf_row_stride_bytes = row_stride_bytes, hf_status = StatusOk,
             hf_executor_id = rq_executor_id frame, hf_token_position = rq_token_position frame,
             hf_seq = seq\<rparr> naive;
          out = out @ concat (map (\<lambda>row. row_descriptor_wire row naive) (rq_rows frame));
          out = out @ concat (map (\<lambda>r. route_entry_wire r naive) (rq_routes frame));
          out = out @ concat (map hidden_row_wire (rq_hidden_rows frame))
      in seal env out naive))))))))))))"

definition encode_request :: "wire_env \<Rightarrow> request_frame \<Rightarrow> wire_naive \<Rightarrow> u8 list wire_result" where
  "encode_request env frame naive = encode_request_seq env frame (rq_seq frame) naive"

definition encode_request_env :: "wire_env \<Rightarrow> bool \<Rightarrow> bool \<Rightarrow> request_frame \<Rightarrow> u8 list wire_result" where
  "encode_request_env env spike wire frame = encode_request env frame (naive_from_env spike wire)"

text \<open>
  \<open>decode_request\<close>. The three section lengths are added with a plain \<open>+\<close> on \<open>usize\<close>, so
  the sum wraps.
\<close>

definition request_dtype_ok :: "dtype \<Rightarrow> wire_naive \<Rightarrow> unit wire_result" where
  "request_dtype_ok d naive =
     (case d of DtFp8E4m3Ue8m0K32 \<Rightarrow> Ok () | DtFp8E4m3RowScaled \<Rightarrow> Ok ()
      | other \<Rightarrow> Err (DimMismatch ''request_payload_dtype'' 7 (unat (dtype_code other naive))))"

definition hidden_row_at :: "u8 list \<Rightarrow> nat \<Rightarrow> nat \<Rightarrow> hidden_row wire_result" where
  "hidden_row_at body base stride =
     obind (subslice body base (base + HIDDEN)) (\<lambda>payload.
     obind (subslice body (base + HIDDEN) (base + stride)) (\<lambda>scales.
       Ok \<lparr>hr_payload = payload, hr_scales = scales\<rparr>))"

definition decode_request :: "header_fields \<Rightarrow> u8 list \<Rightarrow> wire_naive \<Rightarrow> request_frame wire_result" where
  "decode_request h bytes naive =
     (if hf_row_count h = 0 then Err (DimMismatch ''row_count'' 1 0)
      else
      let rows = unat (hf_row_count h); routes = unat (hf_route_count h) in
      obind (checked_mul rows ROW_DESCRIPTOR_LEN ''row_descriptor_bytes'') (\<lambda>row_descriptor_bytes.
      obind (checked_mul routes ROUTE_ENTRY_LEN ''route_bytes'') (\<lambda>route_bytes.
      if unat (hf_row_descriptor_bytes h) \<noteq> row_descriptor_bytes
      then Err (DimMismatch ''row_descriptor_bytes'' row_descriptor_bytes (unat (hf_row_descriptor_bytes h)))
      else if unat (hf_route_bytes h) \<noteq> route_bytes
      then Err (DimMismatch ''route_bytes'' route_bytes (unat (hf_route_bytes h)))
      else if unat (hf_dim h) \<noteq> HIDDEN
      then Err (DimMismatch ''hidden_dim'' HIDDEN (unat (hf_dim h)))
      else
      obind (request_dtype_ok (hf_dtype h) naive) (\<lambda>_.
      let stride = unat (hf_row_stride_bytes h) in
      if stride < HIDDEN then Err (DimMismatch ''row_stride_bytes'' HIDDEN stride)
      else
      obind (checked_mul rows stride ''payload_bytes'') (\<lambda>payload_bytes.
      if unat (hf_payload_bytes h) \<noteq> payload_bytes
      then Err (DimMismatch ''payload_bytes'' payload_bytes (unat (hf_payload_bytes h)))
      else
      obind (subslice bytes HEADER_LEN (length bytes)) (\<lambda>body.
      let body_len = usize_add (usize_add row_descriptor_bytes route_bytes) payload_bytes in
      if length body \<noteq> body_len then Err (DimMismatch ''body_len'' body_len (length body))
      else
      obind (collect_results (\<lambda>i. row_descriptor_from_wire body (i * ROW_DESCRIPTOR_LEN) naive)
              [0..<rows]) (\<lambda>rows_vec.
      obind (collect_results (\<lambda>j. route_entry_from_wire body
                 (row_descriptor_bytes + j * ROUTE_ENTRY_LEN) naive) [0..<routes]) (\<lambda>routes_vec.
      obind (validate_rows_routes rows_vec routes_vec) (\<lambda>_.
      let hidden_base = row_descriptor_bytes + route_bytes in
      obind (collect_results (\<lambda>i. hidden_row_at body (hidden_base + i * stride) stride)
              [0..<rows]) (\<lambda>hidden_rows.
        Ok \<lparr>rq_request_id = hf_request_id h, rq_placement_version = hf_placement_version h,
            rq_layer_id = hf_layer_id h, rq_executor_id = hf_executor_id h,
            rq_source_kind = hf_source_kind h, rq_token_position = hf_token_position h,
            rq_flags = hf_flags h, rq_seq = hf_seq h, rq_rows = rows_vec, rq_routes = routes_vec,
            rq_hidden_rows = hidden_rows\<rparr>))))))))))"

subsection \<open>Return frames\<close>

definition return_header_seq ::
    "return_frame \<Rightarrow> nat \<Rightarrow> u64 \<Rightarrow> wire_naive \<Rightarrow> u8 list wire_result" where
  "return_header_seq frame rows seq naive =
     (if rows = 0 then Err (DimMismatch ''rows'' 1 0)
      else if rt_route_count frame = 0 then Err (DimMismatch ''route_count'' 1 0)
      else if naive_has naive PER_ROUTE_RETURN \<or> naive_has naive FP32_RETURN
      then Err (DimMismatch ''in_place_return_dtype'' 0 1)
      else
      let block = return_row_bytes (rt_route_count frame) naive in
      obind (checked_mul rows block ''payload_bytes'') (\<lambda>payload_bytes.
      let wire_len = HEADER_LEN + payload_bytes in
      if \<not> wire_len < 2 ^ 64 then Err (DimMismatch ''wire_bytes'' 0 usize_MAX)
      else
      obind (as_u32 rows ''row_count'') (\<lambda>row_count.
      obind (as_u32 (rt_route_count frame) ''route_count'') (\<lambda>route_count.
      obind (as_u32 block ''row_stride_bytes'') (\<lambda>row_stride_bytes.
        Ok (write_header
            \<lparr>hf_kind = KIND_RETURN, hf_request_id = rt_request_id frame,
             hf_placement_version = rt_placement_version frame, hf_layer_id = rt_layer_id frame,
             hf_row_count = row_count, hf_dim = of_nat HIDDEN, hf_dtype = DtBf16,
             hf_source_kind = SkDecode, hf_route_count = route_count,
             hf_row_descriptor_bytes = 0, hf_route_bytes = 0,
             hf_payload_bytes = of_nat payload_bytes,
             hf_logical_payload_bytes = of_nat payload_bytes, hf_wire_bytes = of_nat wire_len,
             hf_flags = rt_flags frame, hf_row_stride_bytes = row_stride_bytes,
             hf_status = rt_status frame, hf_executor_id = rt_executor_id frame,
             hf_token_position = rt_token_position frame, hf_seq = seq\<rparr> naive))))))"

definition return_row_ok :: "return_row \<Rightarrow> unit wire_result" where
  "return_row_ok row =
     (if length (rr_codes row) \<noteq> HIDDEN
      then Err (DimMismatch ''return_row_codes'' HIDDEN (length (rr_codes row))) else Ok ())"

text \<open>
  The body bytes of one row. On a little-endian host the code copies the \<open>u16\<close> array as bytes,
  which are the bytes of the last branch.
\<close>

definition return_row_wire :: "nat \<Rightarrow> wire_naive \<Rightarrow> return_row \<Rightarrow> u8 list" where
  "return_row_wire route_count naive row =
     (let per_route = naive_has naive PER_ROUTE_RETURN;
          fp32 = (\<not> per_route \<and> naive_has naive FP32_RETURN) in
      if fp32 then concat (map (\<lambda>code. u32_le (bf16_to_f32 code)) (rr_codes row))
      else if per_route then concat (replicate route_count (concat (map u16_le (rr_codes row))))
      else concat (map u16_le (rr_codes row)))"

definition encode_return_seq ::
    "wire_env \<Rightarrow> return_frame \<Rightarrow> u64 \<Rightarrow> wire_naive \<Rightarrow> u8 list wire_result" where
  "encode_return_seq env frame seq naive =
     (if rt_rows frame = [] then Err (DimMismatch ''rows'' 1 0)
      else if rt_route_count frame = 0 then Err (DimMismatch ''route_count'' 1 0)
      else
      obind (check_all return_row_ok (rt_rows frame)) (\<lambda>_.
      let per_route = naive_has naive PER_ROUTE_RETURN;
          fp32 = (\<not> per_route \<and> naive_has naive FP32_RETURN);
          dtype = (if fp32 then DtF32 else DtBf16);
          block = return_row_bytes (rt_route_count frame) naive;
          rows = length (rt_rows frame) in
      obind (checked_mul rows block ''payload_bytes'') (\<lambda>payload_bytes.
      let wire_len = HEADER_LEN + payload_bytes in
      if \<not> wire_len < 2 ^ 64 then Err (DimMismatch ''wire_bytes'' 0 usize_MAX)
      else
      obind (as_u32 rows ''row_count'') (\<lambda>row_count.
      obind (as_u32 (rt_route_count frame) ''route_count'') (\<lambda>route_count.
      obind (as_u32 block ''row_stride_bytes'') (\<lambda>row_stride_bytes.
      let out = write_header
            \<lparr>hf_kind = KIND_RETURN, hf_request_id = rt_request_id frame,
             hf_placement_version = rt_placement_version frame, hf_layer_id = rt_layer_id frame,
             hf_row_count = row_count, hf_dim = of_nat HIDDEN, hf_dtype = dtype,
             hf_source_kind = SkDecode, hf_route_count = route_count,
             hf_row_descriptor_bytes = 0, hf_route_bytes = 0,
             hf_payload_bytes = of_nat payload_bytes,
             hf_logical_payload_bytes = of_nat payload_bytes, hf_wire_bytes = of_nat wire_len,
             hf_flags = rt_flags frame, hf_row_stride_bytes = row_stride_bytes,
             hf_status = rt_status frame, hf_executor_id = rt_executor_id frame,
             hf_token_position = rt_token_position frame, hf_seq = seq\<rparr> naive;
          out = out @ concat (map (return_row_wire (rt_route_count frame) naive) (rt_rows frame))
      in seal env out naive))))))"

definition encode_return :: "wire_env \<Rightarrow> return_frame \<Rightarrow> wire_naive \<Rightarrow> u8 list wire_result" where
  "encode_return env frame naive = encode_return_seq env frame (rt_seq frame) naive"

definition encode_return_env :: "wire_env \<Rightarrow> bool \<Rightarrow> bool \<Rightarrow> return_frame \<Rightarrow> u8 list wire_result" where
  "encode_return_env env spike wire frame = encode_return env frame (naive_from_env spike wire)"

definition return_block_codes :: "header_fields \<Rightarrow> nat \<Rightarrow> wire_naive \<Rightarrow> u8 list \<Rightarrow> u16 list wire_result" where
  "return_block_codes h stride naive block =
     (case hf_dtype h of
        DtF32 \<Rightarrow>
          if stride \<noteq> HIDDEN * 4 then Err (DimMismatch ''f32_row_stride'' (HIDDEN * 4) stride)
          else Ok (map (\<lambda>c. f32_to_bf16 (of_u32_le c) naive) (chunks_exact 4 block))
      | DtBf16 \<Rightarrow>
          let unit_len = HIDDEN * 2 in
          if stride mod unit_len \<noteq> 0 then Err (DimMismatch ''bf16_row_stride'' unit_len stride)
          else
            let copies = stride div unit_len in
            if copies \<noteq> 1 \<and> copies \<noteq> unat (hf_route_count h)
            then Err (DimMismatch ''bf16_row_copies'' 1 copies)
            else obind (subslice block 0 unit_len) (\<lambda>b. Ok (map of_u16_le (chunks_exact 2 b)))
      | other \<Rightarrow> Err (DimMismatch ''return_payload_dtype'' 1 (unat (dtype_code other naive))))"

definition decode_return :: "header_fields \<Rightarrow> u8 list \<Rightarrow> wire_naive \<Rightarrow> return_frame wire_result" where
  "decode_return h bytes naive =
     (if hf_status h = StatusOk \<and> hf_flags h AND FLAG_RETURN_REQUIRED \<noteq> FLAG_RETURN_REQUIRED
      then Err (UnpresummedReturn (hf_flags h))
      else if hf_row_count h = 0 then Err (DimMismatch ''row_count'' 1 0)
      else if unat (hf_dim h) \<noteq> HIDDEN then Err (DimMismatch ''output_dim'' HIDDEN (unat (hf_dim h)))
      else
      let rows = unat (hf_row_count h); stride = unat (hf_row_stride_bytes h) in
      obind (checked_mul rows stride ''payload_bytes'') (\<lambda>payload_bytes.
      if unat (hf_payload_bytes h) \<noteq> payload_bytes
      then Err (DimMismatch ''payload_bytes'' payload_bytes (unat (hf_payload_bytes h)))
      else if hf_row_descriptor_bytes h \<noteq> 0 \<or> hf_route_bytes h \<noteq> 0
      then Err (DimMismatch ''return_row_descriptor_bytes'' 0
                 (unat (hf_row_descriptor_bytes h + hf_route_bytes h)))
      else
      obind (subslice bytes HEADER_LEN (length bytes)) (\<lambda>body.
      if length body \<noteq> payload_bytes then Err (DimMismatch ''body_len'' payload_bytes (length body))
      else if hf_route_count h = 0 then Err (DimMismatch ''route_count'' 1 0)
      else
      obind (collect_results (\<lambda>i.
               obind (subslice body (i * stride) ((i + 1) * stride)) (\<lambda>block.
               obind (return_block_codes h stride naive block) (\<lambda>codes. Ok \<lparr>rr_codes = codes\<rparr>)))
              [0..<rows]) (\<lambda>rows_vec.
        Ok \<lparr>rt_request_id = hf_request_id h, rt_placement_version = hf_placement_version h,
            rt_layer_id = hf_layer_id h, rt_executor_id = hf_executor_id h,
            rt_token_position = hf_token_position h, rt_status = hf_status h, rt_flags = hf_flags h,
            rt_route_count = unat (hf_route_count h), rt_seq = hf_seq h, rt_rows = rows_vec\<rparr>))))"

subsection \<open>Dispatch\<close>

definition decode_frame :: "wire_env \<Rightarrow> u8 list \<Rightarrow> wire_naive \<Rightarrow> frame wire_result" where
  "decode_frame env bytes naive =
     obind (parse_header bytes naive) (\<lambda>h.
     obind (verify_crc env bytes naive (hf_seq h)) (\<lambda>_.
     if hf_kind h = KIND_REQUEST
     then obind (decode_request h bytes naive) (\<lambda>f. Ok (FRequest f))
     else if hf_kind h = KIND_RETURN
     then obind (decode_return h bytes naive) (\<lambda>f. Ok (FReturn f))
     else Err (BadKind (hf_kind h))))"

definition decode_frame_env :: "wire_env \<Rightarrow> bool \<Rightarrow> bool \<Rightarrow> u8 list \<Rightarrow> frame wire_result" where
  "decode_frame_env env spike wire bytes = decode_frame env bytes (naive_from_env spike wire)"

end
