(* ===== verification/FrameCodec.thy ===== *)
theory FrameCodec
  imports Frame
begin

text \<open>
  The lemmas of the frame codec: what is written at an offset is read back from it, the
  checksum seal changes only its own four bytes, and from these the round trips.
\<close>

declare length_put_bytes [simp del]

subsection \<open>Reading back what was put\<close>

lemma put_sized:
  "at + length v \<le> N \<Longrightarrow> length out = N \<Longrightarrow> length (put_bytes at v out) = N"
  "n = length v \<Longrightarrow> at + length v \<le> N \<Longrightarrow> length out = N \<Longrightarrow> take n (drop at (put_bytes at v out)) = v"
  "i + n \<le> at \<Longrightarrow> at + length v \<le> N \<Longrightarrow> length out = N \<Longrightarrow>
     take n (drop i (put_bytes at v out)) = take n (drop i out)"
  "at + length v \<le> i \<Longrightarrow> at + length v \<le> N \<Longrightarrow> length out = N \<Longrightarrow>
     take n (drop i (put_bytes at v out)) = take n (drop i out)"
  "n \<le> at \<Longrightarrow> at + length v \<le> N \<Longrightarrow> length out = N \<Longrightarrow> take n (put_bytes at v out) = take n out"
  "at = 0 \<Longrightarrow> n = length v \<Longrightarrow> at + length v \<le> N \<Longrightarrow> length out = N \<Longrightarrow> take n (put_bytes at v out) = v"
  "at + length v = N \<Longrightarrow> length out = N \<Longrightarrow> drop at (put_bytes at v out) = v"
  "at + length v \<le> i \<Longrightarrow> at + length v \<le> N \<Longrightarrow> length out = N \<Longrightarrow> drop i (put_bytes at v out) = drop i out"
  by (simp_all add: take_drop_put_same take_drop_put_before take_drop_put_after)
    (simp_all add: put_bytes_def)

lemmas put_128 = put_sized [where N = 128]
lemmas put_40 = put_sized [where N = 40]
lemmas put_12 = put_sized [where N = 12]

lemma length_wire_magic [simp]: "length wire_magic = 8" by (simp add: wire_magic_def)
declare length_put_bytes [simp del]

lemma length_write_header [simp]: "length (write_header h naive) = 128"
  by (simp add: write_header_def put_u16_def put_u32_def put_u64_def layout_simps Let_def put_128)

lemma header_magic: "take 8 (write_header h naive) = wire_magic"
  by (simp add: write_header_def put_u16_def put_u32_def put_u64_def layout_simps Let_def put_128)

lemma header_reads:
  "take 2 (drop 8 (write_header h naive)) = u16_le VERSION"
  "take 2 (drop 10 (write_header h naive)) = u16_le (hf_kind h)"
  "take 4 (drop 12 (write_header h naive)) = u32_le 128"
  "take 8 (drop 16 (write_header h naive)) = u64_le (hf_request_id h)"
  "take 8 (drop 24 (write_header h naive)) = u64_le (hf_placement_version h)"
  "take 4 (drop 32 (write_header h naive)) = u32_le (hf_layer_id h)"
  "take 4 (drop 36 (write_header h naive)) = u32_le (hf_row_count h)"
  "take 4 (drop 40 (write_header h naive)) = u32_le (hf_dim h)"
  "take 2 (drop 44 (write_header h naive)) = u16_le (dtype_code (hf_dtype h) naive)"
  "take 2 (drop 46 (write_header h naive)) = u16_le (source_kind_code (hf_source_kind h))"
  "take 4 (drop 48 (write_header h naive)) = u32_le (hf_route_count h)"
  "take 4 (drop 52 (write_header h naive)) = u32_le (hf_row_descriptor_bytes h)"
  "take 4 (drop 56 (write_header h naive)) = u32_le (hf_route_bytes h)"
  "take 8 (drop 60 (write_header h naive)) = u64_le (hf_payload_bytes h)"
  "take 8 (drop 68 (write_header h naive)) = u64_le (hf_logical_payload_bytes h)"
  "take 8 (drop 76 (write_header h naive)) = u64_le (hf_wire_bytes h)"
  "take 4 (drop 84 (write_header h naive)) = u32_le (hf_flags h)"
  "take 4 (drop 88 (write_header h naive)) = u32_le (hf_row_stride_bytes h)"
  "take 4 (drop 92 (write_header h naive)) = u32_le (status_code (hf_status h))"
  "take 8 (drop 96 (write_header h naive)) = u64_le (hf_executor_id h)"
  "take 8 (drop 104 (write_header h naive)) = u64_le (hf_token_position h)"
  "take 8 (drop 112 (write_header h naive)) = u64_le (hf_seq h)"
  "take 4 (drop 120 (write_header h naive)) = replicate 4 0"
  by (simp_all add: write_header_def put_u16_def put_u32_def put_u64_def layout_simps Let_def put_128)


lemma le_bytes_zero: "le_bytes n 0 = replicate n 0"
  by (induction n) simp_all

lemma header_crc_zero: "take 4 (drop 120 (write_header h naive)) = u32_le 0"
  by (simp only: header_reads u32_le_def le_bytes_zero unsigned_0)

lemma parse_write_header:
  assumes "hf_kind h \<in> {KIND_REQUEST, KIND_RETURN}"
    and "unat (hf_wire_bytes h) = length (write_header h naive @ body)"
  shows "parse_header (write_header h naive @ body) naive = Ok h"
  using assms
  by (simp add: parse_header_def subslice_def get_u16_def get_u32_def get_u64_def layout_simps
      Let_def header_magic header_reads)

lemma parse_header_cong:
  assumes "differ_only_in 120 4 xs ys"
  shows "parse_header xs naive = parse_header ys naive"
proof -
  have len: "length xs = length ys" using assms by (simp add: differ_only_in_def)
  have sub: "take n (drop i xs) = take n (drop i ys)" if "i + n \<le> 120" for i n
    by (rule differ_only_in_take_drop [OF assms]) (use that in simp)
  have g: "i + 2 \<le> 120 \<Longrightarrow> get_u16 xs i = get_u16 ys i"
    "i + 4 \<le> 120 \<Longrightarrow> get_u32 xs i = get_u32 ys i"
    "i + 8 \<le> 120 \<Longrightarrow> get_u64 xs i = get_u64 ys i" for i
    by (simp_all add: get_u16_def get_u32_def get_u64_def len sub)
  have "subslice xs 0 8 = (subslice ys 0 8 :: u8 list wire_result)"
    using sub [of 0 8] by (simp add: subslice_def len)
  then show ?thesis
    by (simp add: parse_header_def layout_simps g len cong: if_cong)
qed

lemma length_row_descriptor_wire [simp]: "length (row_descriptor_wire r naive) = 40"
  by (simp add: row_descriptor_wire_def desc_identity_at_def put_u16_def put_u32_def put_u64_def
      layout_simps Let_def put_40)

lemma length_route_entry_wire [simp]: "length (route_entry_wire r naive) = 12"
  by (simp add: route_entry_wire_def route_fields_at_def put_u32_def layout_simps Let_def put_12)

lemma row_descriptor_from_wire_eq:
  assumes "off + 40 \<le> length bytes" "take 40 (drop off bytes) = row_descriptor_wire r naive"
  shows "row_descriptor_from_wire bytes off naive = Ok r"
  using assms
  by (simp add: row_descriptor_from_wire_def subslice_def row_descriptor_wire_def
      desc_identity_at_def get_u16_def get_u32_def get_u64_def put_u16_def put_u32_def put_u64_def
      layout_simps Let_def put_40)

lemma route_entry_from_wire_eq:
  assumes "off + 12 \<le> length bytes" "take 12 (drop off bytes) = route_entry_wire r naive"
  shows "route_entry_from_wire bytes off naive = Ok r"
  using assms
  by (simp add: route_entry_from_wire_def subslice_def route_entry_wire_def route_fields_at_def
      get_u32_def get_f32_def put_u32_def layout_simps Let_def put_12)

subsection \<open>The seal\<close>

lemma compute_crc_cong:
  assumes "differ_only_in 120 4 xs ys" "124 \<le> length xs"
  shows "compute_crc env xs naive = compute_crc env ys naive"
proof -
  have "drop 128 xs = drop 128 ys" "take 120 xs = take 120 ys" "drop 124 xs = drop 124 ys"
      "length xs = length ys"
    using assms(1) differ_only_in_take_drop [OF assms(1), of 128 "length xs"]
    by (simp_all add: differ_only_in_def)
  then show ?thesis
    by (simp add: compute_crc_def crc32c_zeroed_def subslice_def layout_simps Let_def)
qed

lemma compute_crc_Ok: "128 \<le> length bytes \<Longrightarrow> \<exists>crc. compute_crc env bytes naive = Ok crc"
  by (simp add: compute_crc_def crc32c_zeroed_def subslice_def layout_simps Let_def)

lemma seal_Ok: "128 \<le> length frame \<Longrightarrow> \<exists>bytes. seal env frame naive = Ok bytes"
  using compute_crc_Ok [of frame env naive]
  by (auto simp: seal_def write_at_def layout_simps)

lemma seal_shape:
  assumes "seal env frame naive = Ok bytes" "take 4 (drop 120 frame) = u32_le 0"
    "128 \<le> length frame"
  shows "differ_only_in 120 4 frame bytes" "verify_crc env bytes naive seq = Ok ()"
proof -
  have "differ_only_in 120 4 frame bytes \<and> verify_crc env bytes naive seq = Ok ()"
  proof (cases "env_nocrc env")
    case True
    with assms show ?thesis
      by (simp add: seal_def verify_crc_def differ_only_in_def)
  next
    case False
    obtain crc where crc: "compute_crc env frame naive = Ok crc"
      using compute_crc_Ok assms(3) by blast
    have bytes: "bytes = put_bytes 120 (u32_le crc) frame"
      using assms(1,3) False crc by (simp add: seal_def write_at_def put_bytes_def layout_simps)
    have d: "differ_only_in 120 4 frame bytes"
      using assms(3) by (simp add: bytes differ_only_in_def put_bytes_def)
    have "compute_crc env bytes naive = Ok crc"
      using crc compute_crc_cong [OF d] assms(3) by simp
    moreover have "get_u32 bytes hdr_CRC32C = Ok crc"
      using assms(3) by (simp add: get_u32_def layout_simps bytes put_bytes_def)
    ultimately show ?thesis using d by (simp add: verify_crc_def)
  qed
  then show "differ_only_in 120 4 frame bytes" "verify_crc env bytes naive seq = Ok ()"
    by simp_all
qed

lemma checked_mul_eq_Ok [outcome_simps]: "checked_mul a b f = Ok c \<longleftrightarrow> a * b < 2 ^ 64 \<and> c = a * b"
  by (auto simp: checked_mul_def)

lemma as_u32_eq_Ok [outcome_simps]: "as_u32 v f = Ok w \<longleftrightarrow> v < 2 ^ 32 \<and> w = of_nat v"
  by (auto simp: as_u32_def)

subsection \<open>Requests the encoder accepts, and their image\<close>

definition request_sendable :: "request_frame \<Rightarrow> wire_naive \<Rightarrow> bool" where
  "request_sendable f naive \<longleftrightarrow>
     rq_rows f \<noteq> [] \<and> length (rq_hidden_rows f) = length (rq_rows f) \<and>
     validate_rows_routes (rq_rows f) (rq_routes f) = Ok () \<and>
     (\<forall>h \<in> set (rq_hidden_rows f). length (hr_payload h) = HIDDEN \<and>
        length (hr_scales h) = hidden_row_bytes naive - HIDDEN) \<and>
     length (rq_rows f) * 40 < 2 ^ 32 \<and> length (rq_routes f) * 12 < 2 ^ 32"

definition request_header :: "request_frame \<Rightarrow> u64 \<Rightarrow> wire_naive \<Rightarrow> header_fields" where
  "request_header f seq naive =
     (let rows = length (rq_rows f); routes = length (rq_routes f);
          body = rows * 40 + routes * 12 + rows * hidden_row_bytes naive in
      \<lparr>hf_kind = KIND_REQUEST, hf_request_id = rq_request_id f,
       hf_placement_version = rq_placement_version f, hf_layer_id = rq_layer_id f,
       hf_row_count = of_nat rows, hf_dim = of_nat HIDDEN, hf_dtype = request_dtype naive,
       hf_source_kind = rq_source_kind f, hf_route_count = of_nat routes,
       hf_row_descriptor_bytes = of_nat (rows * 40), hf_route_bytes = of_nat (routes * 12),
       hf_payload_bytes = of_nat (rows * hidden_row_bytes naive),
       hf_logical_payload_bytes = of_nat (rows * request_row_bytes naive),
       hf_wire_bytes = of_nat (128 + body), hf_flags = rq_flags f,
       hf_row_stride_bytes = of_nat (hidden_row_bytes naive), hf_status = StatusOk,
       hf_executor_id = rq_executor_id f, hf_token_position = rq_token_position f,
       hf_seq = seq\<rparr>)"

definition request_body :: "request_frame \<Rightarrow> wire_naive \<Rightarrow> u8 list" where
  "request_body f naive =
     concat (map (\<lambda>row. row_descriptor_wire row naive) (rq_rows f)) @
     concat (map (\<lambda>r. route_entry_wire r naive) (rq_routes f)) @
     concat (map hidden_row_wire (rq_hidden_rows f))"

lemma check_hidden_rows:
  "check_all (hidden_row_ok n) hs = Ok () \<longleftrightarrow>
     (\<forall>h \<in> set hs. length (hr_payload h) = HIDDEN \<and> length (hr_scales h) = n)"
  by (auto simp: check_all_eq_Ok hidden_row_ok_def)

lemma rows_bounds:
  assumes "rows * 40 < 2 ^ 32" "routes * 12 < 2 ^ 32"
  shows "rows < 2 ^ 32" "routes < 2 ^ 32" "rows * hidden_row_bytes naive < 2 ^ 39"
    "rows * request_row_bytes naive < 2 ^ 39"
    "usize_add (usize_add (rows * 40) (routes * 12)) (rows * hidden_row_bytes naive)
       = rows * 40 + routes * 12 + rows * hidden_row_bytes naive"
    "128 + (rows * 40 + routes * 12 + rows * hidden_row_bytes naive) < 2 ^ 40"
proof -
  define p q where "p = rows * hidden_row_bytes naive" and "q = rows * request_row_bytes naive"
  have "p \<le> rows * 4352" "q \<le> rows * 4488"
    using hidden_row_bytes_bound [of naive]
    by (simp_all add: p_def q_def request_row_bytes_def layout_simps)
  then have "rows < 2 ^ 32" "routes < 2 ^ 32" "p < 2 ^ 39" "q < 2 ^ 39"
    "usize_add (usize_add (rows * 40) (routes * 12)) p = rows * 40 + routes * 12 + p"
    "128 + (rows * 40 + routes * 12 + p) < 2 ^ 40"
    using assms by (simp_all add: usize_add_def)
  then show "rows < 2 ^ 32" "routes < 2 ^ 32" "rows * hidden_row_bytes naive < 2 ^ 39"
    "rows * request_row_bytes naive < 2 ^ 39"
    "usize_add (usize_add (rows * 40) (routes * 12)) (rows * hidden_row_bytes naive)
       = rows * 40 + routes * 12 + rows * hidden_row_bytes naive"
    "128 + (rows * 40 + routes * 12 + rows * hidden_row_bytes naive) < 2 ^ 40"
    unfolding p_def q_def by this+
qed

lemma hidden_row_bytes_lt: "hidden_row_bytes naive < 2 ^ 32" 
  using hidden_row_bytes_bound [of naive] by simp

lemma encode_request_sendable:
  assumes "encode_request_seq env f seq naive = Ok bytes"
  shows "request_sendable f naive"
  using assms
  by (auto simp: encode_request_seq_def request_sendable_def Let_def outcome_simps check_hidden_rows
      layout_simps split: if_splits)

lemma encode_request_seal:
  assumes "request_sendable f naive"
  shows "encode_request_seq env f seq naive =
    seal env (write_header (request_header f seq naive) naive @ request_body f naive) naive"
proof -
  let ?n = "length (rq_rows f)" and ?m = "length (rq_routes f)"
  have b: "?n * 40 < 2 ^ 32" "?m * 12 < 2 ^ 32"
    using assms by (simp_all add: request_sendable_def)
  note r = rows_bounds [OF b]
  have c: "checked_mul ?n 40 s = Ok (?n * 40)" "checked_mul ?m 12 s = Ok (?m * 12)"
    "checked_mul ?n (hidden_row_bytes naive) s = Ok (?n * hidden_row_bytes naive)"
    "checked_mul ?n (request_row_bytes naive) s = Ok (?n * request_row_bytes naive)"
    "as_u32 ?n s = Ok (of_nat ?n)" "as_u32 ?m s = Ok (of_nat ?m)"
    "as_u32 (?n * 40) s = Ok (of_nat (?n * 40))" "as_u32 (?m * 12) s = Ok (of_nat (?m * 12))"
    "as_u32 (hidden_row_bytes naive) s = Ok (of_nat (hidden_row_bytes naive))" for s
    unfolding checked_mul_def as_u32_def
    by (use r(1,2) r(3,4) [of naive] b hidden_row_bytes_lt [of naive] in simp_all)
  have h: "check_all (hidden_row_ok (hidden_row_bytes naive - HIDDEN)) (rq_hidden_rows f) = Ok ()"
    using assms by (simp add: check_hidden_rows request_sendable_def)
  have v: "rq_rows f \<noteq> []" "length (rq_hidden_rows f) = ?n"
    "validate_rows_routes (rq_rows f) (rq_routes f) = Ok ()"
    using assms by (simp_all add: request_sendable_def)
  have w: "128 + (?n * 40 + ?m * 12 + ?n * hidden_row_bytes naive) < 2 ^ 64"
    using r(6) [of naive] by simp
  show ?thesis
    by (simp only: encode_request_seq_def v h Let_def c obind.simps layout_simps w r(5)
        request_header_def request_body_def if_False if_True not_True_eq_False append_assoc
        not_False_eq_True simp_thms)
qed

subsection \<open>Reading the image back\<close>

lemma unat_of_nat_u32: "n < 2 ^ 32 \<Longrightarrow> unat (of_nat n :: u32) = n"
  by (simp add: unat_of_nat)

lemma unat_of_nat_u64: "n < 2 ^ 64 \<Longrightarrow> unat (of_nat n :: u64) = n"
  by (simp add: unat_of_nat)

lemma collect_indexed:
  assumes "\<And>i. i < length xs \<Longrightarrow> f i = Ok (xs ! i)" "n = length xs"
  shows "collect_results f [0..<n] = Ok xs"
proof -
  have "collect_results f [0..<n] = Ok (map (\<lambda>i. xs ! i) [0..<n])"
    by (rule collect_results_all_Ok) (use assms in simp)
  with assms(2) show ?thesis by (simp add: map_nth)
qed

lemma row_window:
  assumes "\<And>x. x \<in> set xs \<Longrightarrow> length (g x) = w" "i < length xs"
  shows "i * w + w \<le> length (concat (map g xs) @ ys)"
    "take w (drop (i * w) (concat (map g xs) @ ys)) = g (xs ! i)"
proof -
  have "i * w + w \<le> length xs * w"
    using assms(2) mult_le_mono1 [of "Suc i" "length xs" w] by simp
  moreover have l: "length (concat (map g xs)) = length xs * w"
    by (rule length_concat_uniform) (rule assms(1))
  ultimately show "i * w + w \<le> length (concat (map g xs) @ ys)" by simp
  show "take w (drop (i * w) (concat (map g xs) @ ys)) = g (xs ! i)"
    using \<open>i * w + w \<le> length xs * w\<close> l take_drop_concat_uniform [OF assms] by simp
qed

lemma body_sections:
  assumes s: "request_sendable f naive"
  shows
  "length (concat (map (\<lambda>row. row_descriptor_wire row naive) (rq_rows f))) = length (rq_rows f) * 40"
  "length (concat (map (\<lambda>r. route_entry_wire r naive) (rq_routes f))) = length (rq_routes f) * 12"
  "h \<in> set (rq_hidden_rows f) \<Longrightarrow> length (hidden_row_wire h) = hidden_row_bytes naive"
  "length (concat (map hidden_row_wire (rq_hidden_rows f))) = length (rq_rows f) * hidden_row_bytes naive"
proof -
  have l: "length (hidden_row_wire h) = hidden_row_bytes naive" if "h \<in> set (rq_hidden_rows f)" for h
    using s that hidden_row_bytes_ge [of naive]
    by (simp add: request_sendable_def hidden_row_wire_def)
  then show "h \<in> set (rq_hidden_rows f) \<Longrightarrow> length (hidden_row_wire h) = hidden_row_bytes naive" .
  show "length (concat (map hidden_row_wire (rq_hidden_rows f))) = length (rq_rows f) * hidden_row_bytes naive"
    using s length_concat_uniform [of "rq_hidden_rows f" hidden_row_wire] l
    by (simp add: request_sendable_def)
  show "length (concat (map (\<lambda>row. row_descriptor_wire row naive) (rq_rows f))) = length (rq_rows f) * 40"
    by (rule length_concat_uniform) simp
  show "length (concat (map (\<lambda>r. route_entry_wire r naive) (rq_routes f))) = length (rq_routes f) * 12"
    by (rule length_concat_uniform) simp
qed

lemma length_request_body:
  "request_sendable f naive \<Longrightarrow> length (request_body f naive) = length (rq_rows f) * 40 + length (rq_routes f) * 12
     + length (rq_rows f) * hidden_row_bytes naive"
  by (simp add: request_body_def body_sections)


lemma body_windows:
  assumes s: "request_sendable f naive"
  shows "i < length (rq_rows f) \<Longrightarrow>
      row_descriptor_from_wire (request_body f naive) (i * 40) naive = Ok (rq_rows f ! i)"
    "j < length (rq_routes f) \<Longrightarrow>
      route_entry_from_wire (request_body f naive) (length (rq_rows f) * 40 + j * 12) naive
        = Ok (rq_routes f ! j)"
    "i < length (rq_rows f) \<Longrightarrow>
      hidden_row_at (request_body f naive)
        (length (rq_rows f) * 40 + length (rq_routes f) * 12 + i * hidden_row_bytes naive)
        (hidden_row_bytes naive) = Ok (rq_hidden_rows f ! i)"
proof -
  note sec = body_sections [OF s]
  show "row_descriptor_from_wire (request_body f naive) (i * 40) naive = Ok (rq_rows f ! i)"
    if "i < length (rq_rows f)"
    unfolding request_body_def
    by (rule row_descriptor_from_wire_eq; rule row_window) (use that in simp_all)
  show "route_entry_from_wire (request_body f naive) (length (rq_rows f) * 40 + j * 12) naive
        = Ok (rq_routes f ! j)"
    if "j < length (rq_routes f)"
  proof (rule route_entry_from_wire_eq)
    note w = row_window [of "rq_routes f" "\<lambda>r. route_entry_wire r naive" 12 j, OF _ that, simplified]
    show "length (rq_rows f) * 40 + j * 12 + 12 \<le> length (request_body f naive)"
      using that by (simp add: request_body_def sec trans_le_add1)
    show "take 12 (drop (length (rq_rows f) * 40 + j * 12) (request_body f naive))
        = route_entry_wire (rq_routes f ! j) naive"
      using w(2) by (simp add: request_body_def sec)
  qed
  show "hidden_row_at (request_body f naive)
        (length (rq_rows f) * 40 + length (rq_routes f) * 12 + i * hidden_row_bytes naive)
        (hidden_row_bytes naive) = Ok (rq_hidden_rows f ! i)"
    if i: "i < length (rq_rows f)"
  proof -
    let ?w = "hidden_row_bytes naive"
    let ?b = "length (rq_rows f) * 40 + length (rq_routes f) * 12 + i * ?w"
    let ?h = "rq_hidden_rows f ! i"
    have i': "i < length (rq_hidden_rows f)" using i s by (simp add: request_sendable_def)
    note w = row_window [of "rq_hidden_rows f" hidden_row_wire ?w i "[]", OF sec(3) i', simplified]
    have len: "?b + ?w \<le> length (request_body f naive)"
      using w(1) by (simp add: request_body_def sec)
    have win: "take ?w (drop ?b (request_body f naive)) = hidden_row_wire ?h"
      using w(2) by (simp add: request_body_def sec)
    have h: "length (hr_payload ?h) = HIDDEN" "length (hr_scales ?h) = ?w - HIDDEN"
      using s nth_mem [OF i'] by (simp_all add: request_sendable_def)
    have le: "HIDDEN \<le> ?w" by (rule hidden_row_bytes_ge)
    have "take HIDDEN (drop ?b (request_body f naive)) = take HIDDEN (hidden_row_wire ?h)"
      using le by (simp add: win [symmetric] min_absorb1)
    also have "\<dots> = hr_payload ?h" by (simp add: hidden_row_wire_def h)
    finally have p: "take HIDDEN (drop ?b (request_body f naive)) = hr_payload ?h" .
    have "take (?w - HIDDEN) (drop (?b + HIDDEN) (request_body f naive)) = drop HIDDEN (hidden_row_wire ?h)"
      by (simp add: win [symmetric] drop_take add.commute)
    also have "\<dots> = hr_scales ?h" by (simp add: hidden_row_wire_def h)
    finally have q: "take (?w - HIDDEN) (drop (?b + HIDDEN) (request_body f naive)) = hr_scales ?h" .
    have "subslice (request_body f naive) ?b (?b + HIDDEN) = (Ok (hr_payload ?h) :: u8 list wire_result)"
      unfolding subslice_def using len le p by (simp only: diff_add_inverse) simp
    moreover have "subslice (request_body f naive) (?b + HIDDEN) (?b + ?w) = (Ok (hr_scales ?h) :: u8 list wire_result)"
      unfolding subslice_def using len le q by (simp only: diff_cancel2) simp
    ultimately show ?thesis by (simp only: hidden_row_at_def obind.simps) simp
  qed
qed

lemma request_header_reads:
  assumes s: "request_sendable f naive"
  shows "unat (hf_row_count (request_header f seq naive)) = length (rq_rows f)"
    "unat (hf_route_count (request_header f seq naive)) = length (rq_routes f)"
    "unat (hf_row_descriptor_bytes (request_header f seq naive)) = length (rq_rows f) * 40"
    "unat (hf_route_bytes (request_header f seq naive)) = length (rq_routes f) * 12"
    "unat (hf_row_stride_bytes (request_header f seq naive)) = hidden_row_bytes naive"
    "unat (hf_payload_bytes (request_header f seq naive)) = length (rq_rows f) * hidden_row_bytes naive"
    "unat (hf_wire_bytes (request_header f seq naive)) = 128 + length (request_body f naive)"
    "unat (hf_dim (request_header f seq naive)) = HIDDEN"
    "hf_row_count (request_header f seq naive) \<noteq> 0"
proof -
  have b: "length (rq_rows f) * 40 < 2 ^ 32" "length (rq_routes f) * 12 < 2 ^ 32"
    using s by (simp_all add: request_sendable_def)
  note r = rows_bounds(1,2) [OF b] rows_bounds(3-) [OF b, of naive]
  show rc: "unat (hf_row_count (request_header f seq naive)) = length (rq_rows f)"
    using r by (simp add: request_header_def Let_def unat_of_nat_u32)
  show "unat (hf_route_count (request_header f seq naive)) = length (rq_routes f)"
    "unat (hf_row_descriptor_bytes (request_header f seq naive)) = length (rq_rows f) * 40"
    "unat (hf_route_bytes (request_header f seq naive)) = length (rq_routes f) * 12"
    "unat (hf_row_stride_bytes (request_header f seq naive)) = hidden_row_bytes naive"
    "unat (hf_payload_bytes (request_header f seq naive)) = length (rq_rows f) * hidden_row_bytes naive"
    "unat (hf_wire_bytes (request_header f seq naive)) = 128 + length (request_body f naive)"
    "unat (hf_dim (request_header f seq naive)) = HIDDEN"
    using r b hidden_row_bytes_lt [of naive]
    by (simp_all add: request_header_def Let_def unat_of_nat_u32 unat_of_nat_u64 HIDDEN_def
        length_request_body [OF s] del: of_nat_mult of_nat_add)
  have "length (rq_rows f) \<noteq> 0" using s by (simp add: request_sendable_def)
  with rc show "hf_row_count (request_header f seq naive) \<noteq> 0" by (metis unsigned_0)
qed

lemma decode_request_body:
  assumes s: "request_sendable f naive" and body: "128 \<le> length bytes" "drop 128 bytes = request_body f naive"
  shows "decode_request (request_header f seq naive) bytes naive = Ok (f\<lparr>rq_seq := seq\<rparr>)"
proof -
  let ?n = "length (rq_rows f)" and ?m = "length (rq_routes f)" and ?w = "hidden_row_bytes naive"
  have b: "?n * 40 < 2 ^ 32" "?m * 12 < 2 ^ 32"
    using s by (simp_all add: request_sendable_def)
  note r = rows_bounds(1,2) [OF b] rows_bounds(3-) [OF b, of naive]
  have c: "checked_mul ?n 40 x = Ok (?n * 40)" "checked_mul ?m 12 x = Ok (?m * 12)"
    "checked_mul ?n ?w x = Ok (?n * ?w)" for x
    unfolding checked_mul_def using r b by simp_all
  have d: "request_dtype_ok (hf_dtype (request_header f seq naive)) naive = Ok ()"
    by (simp add: request_header_def request_dtype_def request_dtype_ok_def Let_def)
  have sub: "subslice bytes 128 (length bytes) = (Ok (request_body f naive) :: u8 list wire_result)"
    using body by (simp add: subslice_def flip: body(2))
  have st: "(?w < HIDDEN) = False" using hidden_row_bytes_ge [of naive] by simp
  have v: "validate_rows_routes (rq_rows f) (rq_routes f) = Ok ()" "length (rq_hidden_rows f) = ?n"
    using s by (simp_all add: request_sendable_def)
  have rows: "collect_results (\<lambda>i. row_descriptor_from_wire (request_body f naive) (i * 40) naive) [0..<?n]
      = Ok (rq_rows f)"
    by (rule collect_indexed) (simp_all add: body_windows [OF s])
  have routes: "collect_results (\<lambda>j. route_entry_from_wire (request_body f naive) (?n * 40 + j * 12) naive) [0..<?m]
      = Ok (rq_routes f)"
    by (rule collect_indexed) (simp_all add: body_windows [OF s])
  have hidden: "collect_results (\<lambda>i. hidden_row_at (request_body f naive) (?n * 40 + ?m * 12 + i * ?w) ?w) [0..<?n]
      = Ok (rq_hidden_rows f)"
    by (rule collect_indexed) (simp_all add: body_windows [OF s] v)
  note reads = request_header_reads [OF s]
  have l: "length (request_body f naive) = usize_add (usize_add (?n * 40) (?m * 12)) (?n * ?w)"
    by (simp only: r length_request_body [OF s])
  show ?thesis
    by (simp only: decode_request_def reads Let_def layout_simps c d obind.simps sub st l [symmetric]
        rows routes hidden v if_False if_True simp_thms)
      (simp add: request_header_def Let_def)
qed

lemma length_differ: "differ_only_in p n xs ys \<Longrightarrow> length ys = length xs"
  by (simp add: differ_only_in_def)

lemma differ_drop: "differ_only_in 120 4 xs ys \<Longrightarrow> drop 128 ys = drop 128 xs"
proof -
  assume "differ_only_in 120 4 xs ys"
  then have "drop 4 (drop 124 ys) = drop 4 (drop 124 xs)" by (simp add: differ_only_in_def)
  then show ?thesis by simp
qed

lemma decode_encoded_request:
  assumes o: "encode_request_seq env f seq naive = Ok bytes"
  shows "decode_frame env bytes naive = Ok (FRequest (f\<lparr>rq_seq := seq\<rparr>))"
proof -
  let ?h = "request_header f seq naive"
  let ?w = "write_header ?h naive @ request_body f naive"
  from o have s: "request_sendable f naive" by (rule encode_request_sendable)
  with o have e: "seal env ?w naive = Ok bytes" by (simp only: encode_request_seal)
  have d: "differ_only_in 120 4 ?w bytes" and v: "verify_crc env bytes naive q = Ok ()" for q
    using seal_shape [OF e] by (simp_all add: header_crc_zero)
  have "parse_header ?w naive = Ok ?h"
    by (rule parse_write_header) (simp_all add: request_header_reads [OF s], simp add: request_header_def Let_def)
  then have p: "parse_header bytes naive = Ok ?h"
    by (simp only: parse_header_cong [OF d])
  have "128 \<le> length bytes" "drop 128 bytes = request_body f naive"
    using length_differ [OF d] differ_drop [OF d] by simp_all
  then have "decode_request ?h bytes naive = Ok (f\<lparr>rq_seq := seq\<rparr>)"
    by (rule decode_request_body [OF s])
  moreover have "hf_kind ?h = KIND_REQUEST" by (simp add: request_header_def Let_def)
  ultimately show ?thesis by (simp add: decode_frame_def p v)
qed
subsection \<open>A sample request frame\<close>

definition sample_env :: wire_env where
  "sample_env = \<lparr>env_cpu = X86_64 True, env_nocrc = False\<rparr>"

definition sample_request :: request_frame where
  "sample_request =
     \<lparr>rq_request_id = 7, rq_placement_version = 1, rq_layer_id = 3, rq_executor_id = 2,
      rq_source_kind = SkDecode, rq_token_position = 0, rq_flags = 0, rq_seq = 5,
      rq_rows = [\<lparr>rd_row_id = 0, rd_source_kind = SkDecode, rd_source_request_id = 7,
                 rd_token_position = 0, rd_route_offset = 0, rd_route_count = 1\<rparr>],
      rq_routes = [\<lparr>re_row_index = 0, re_expert_id = 17, re_gate_weight = 0x3F000000\<rparr>],
      rq_hidden_rows = [\<lparr>hr_payload = replicate HIDDEN 0x38, hr_scales = replicate 128 127\<rparr>]\<rparr>"

lemma sample_request_sendable: "request_sendable sample_request naive_none"
proof -
  have "HIDDEN_ROW_BYTES - HIDDEN = 128"
    by (simp add: HIDDEN_ROW_BYTES_def HIDDEN_def K32_def)
  then show ?thesis
    by (simp add: request_sendable_def sample_request_def validate_rows_routes_def row_range_ok_def
        route_row_ok_def hidden_row_bytes_none)
qed

subsection \<open>Properties\<close>

text \<open>C34: Every request frame the encoder accepts decodes to itself, whatever the trap flags,
  the processor and the checksum switch are, as long as both ends agree on them.\<close>

theorem request_roundtrip:
  assumes "encode_request env f naive = Ok bytes"
  shows "decode_frame env bytes naive = Ok (FRequest f)"
  using decode_encoded_request [OF assms [unfolded encode_request_def]] by simp

theorem request_roundtrip_witness:
  "\<exists>bytes. encode_request sample_env sample_request naive_none = Ok bytes \<and>
     decode_frame sample_env bytes naive_none = Ok (FRequest sample_request)"
proof -
  obtain bytes where "encode_request sample_env sample_request naive_none = Ok bytes"
    unfolding encode_request_def encode_request_seal [OF sample_request_sendable]
    using seal_Ok by (metis length_append length_write_header le_add1)
  with request_roundtrip [of sample_env sample_request naive_none] show ?thesis by blast
qed

end
