(* ===== verification/FrameReturn.thy ===== *)
theory FrameReturn
  imports FrameCodec
begin

text \<open>
  Return frames of \<open>crates/mimo26-wire/src/frame.rs\<close>: the image the encoder builds, its round
  trip, and the frame assembled in place by \<open>return_header_seq\<close> and \<open>seal_in_place\<close>.
\<close>

unbundle bit_operations_syntax

subsection \<open>The image of a return frame\<close>

definition return_sendable :: "return_frame \<Rightarrow> nat \<Rightarrow> wire_naive \<Rightarrow> bool" where
  "return_sendable f rows naive \<longleftrightarrow>
     0 < rows \<and> 0 < rt_route_count f \<and> rows < 2 ^ 32 \<and> rt_route_count f < 2 ^ 32 \<and>
     return_row_bytes (rt_route_count f) naive < 2 ^ 32 \<and>
     128 + rows * return_row_bytes (rt_route_count f) naive < 2 ^ 64"

definition return_dtype :: "wire_naive \<Rightarrow> dtype" where
  "return_dtype naive =
     (if \<not> naive_has naive PER_ROUTE_RETURN \<and> naive_has naive FP32_RETURN then DtF32 else DtBf16)"

definition return_header :: "return_frame \<Rightarrow> nat \<Rightarrow> u64 \<Rightarrow> wire_naive \<Rightarrow> header_fields" where
  "return_header f rows seq naive =
     (let block = return_row_bytes (rt_route_count f) naive in
      \<lparr>hf_kind = KIND_RETURN, hf_request_id = rt_request_id f,
       hf_placement_version = rt_placement_version f, hf_layer_id = rt_layer_id f,
       hf_row_count = of_nat rows, hf_dim = of_nat HIDDEN, hf_dtype = return_dtype naive,
       hf_source_kind = SkDecode, hf_route_count = of_nat (rt_route_count f),
       hf_row_descriptor_bytes = 0, hf_route_bytes = 0,
       hf_payload_bytes = of_nat (rows * block), hf_logical_payload_bytes = of_nat (rows * block),
       hf_wire_bytes = of_nat (128 + rows * block), hf_flags = rt_flags f,
       hf_row_stride_bytes = of_nat block, hf_status = rt_status f,
       hf_executor_id = rt_executor_id f, hf_token_position = rt_token_position f, hf_seq = seq\<rparr>)"

definition return_body :: "return_frame \<Rightarrow> wire_naive \<Rightarrow> u8 list" where
  "return_body f naive = concat (map (return_row_wire (rt_route_count f) naive) (rt_rows f))"

lemma check_return_rows:
  "check_all return_row_ok rs = Ok () \<longleftrightarrow> (\<forall>r \<in> set rs. length (rr_codes r) = HIDDEN)"
  by (auto simp: check_all_eq_Ok return_row_ok_def)

lemma encode_return_sendable:
  assumes "encode_return_seq env f seq naive = Ok bytes"
  shows "return_sendable f (length (rt_rows f)) naive" "\<forall>r \<in> set (rt_rows f). length (rr_codes r) = HIDDEN"
  using assms
  by (auto simp: encode_return_seq_def return_sendable_def Let_def outcome_simps check_return_rows
      layout_simps split: if_splits)

lemma return_bounds:
  assumes "return_sendable f rows naive"
  shows "rows \<noteq> 0" "rt_route_count f \<noteq> 0"
    "checked_mul rows (return_row_bytes (rt_route_count f) naive) s
      = Ok (rows * return_row_bytes (rt_route_count f) naive)"
    "as_u32 rows s = Ok (of_nat rows)"
    "as_u32 (rt_route_count f) s = Ok (of_nat (rt_route_count f))"
    "as_u32 (return_row_bytes (rt_route_count f) naive) s
      = Ok (of_nat (return_row_bytes (rt_route_count f) naive))"
    "128 + rows * return_row_bytes (rt_route_count f) naive < 2 ^ 64"
  using assms by (simp_all add: return_sendable_def checked_mul_def as_u32_def)

lemma encode_return_seal:
  assumes s: "return_sendable f (length (rt_rows f)) naive"
    and c: "\<forall>r \<in> set (rt_rows f). length (rr_codes r) = HIDDEN"
  shows "encode_return_seq env f seq naive = seal env
    (write_header (return_header f (length (rt_rows f)) seq naive) naive @ return_body f naive) naive"
proof -
  note b = return_bounds [OF s]
  have r: "rt_rows f \<noteq> []" using b by auto
  have k: "check_all return_row_ok (rt_rows f) = Ok ()"
    using c by (simp add: check_return_rows)
  show ?thesis
    by (simp only: encode_return_seq_def r b k obind.simps Let_def layout_simps if_False if_True
        simp_thms return_header_def return_dtype_def return_body_def)
qed

lemma return_header_reads:
  assumes "return_sendable f rows naive"
  shows "unat (hf_row_count (return_header f rows seq naive)) = rows"
    "hf_row_count (return_header f rows seq naive) \<noteq> 0"
    "unat (hf_dim (return_header f rows seq naive)) = HIDDEN"
    "unat (hf_route_count (return_header f rows seq naive)) = rt_route_count f"
    "hf_route_count (return_header f rows seq naive) \<noteq> 0"
    "unat (hf_row_stride_bytes (return_header f rows seq naive)) = return_row_bytes (rt_route_count f) naive"
    "unat (hf_payload_bytes (return_header f rows seq naive)) = rows * return_row_bytes (rt_route_count f) naive"
    "unat (hf_wire_bytes (return_header f rows seq naive)) = 128 + rows * return_row_bytes (rt_route_count f) naive"
proof -
  show r: "unat (hf_row_count (return_header f rows seq naive)) = rows"
    and c: "unat (hf_route_count (return_header f rows seq naive)) = rt_route_count f"
    and "unat (hf_dim (return_header f rows seq naive)) = HIDDEN"
    "unat (hf_row_stride_bytes (return_header f rows seq naive)) = return_row_bytes (rt_route_count f) naive"
    "unat (hf_payload_bytes (return_header f rows seq naive)) = rows * return_row_bytes (rt_route_count f) naive"
    "unat (hf_wire_bytes (return_header f rows seq naive)) = 128 + rows * return_row_bytes (rt_route_count f) naive"
    using assms
    by (simp_all add: return_sendable_def return_header_def Let_def HIDDEN_def
        unat_of_nat_u32 unat_of_nat_u64 del: of_nat_mult of_nat_add)
  show "hf_row_count (return_header f rows seq naive) \<noteq> 0" "hf_route_count (return_header f rows seq naive) \<noteq> 0"
    using r c return_bounds(1,2) [OF assms] by (metis unsigned_0)+
qed

lemma length_return_row_wire:
  assumes "length (rr_codes row) = HIDDEN"
  shows "length (return_row_wire routes naive row) = return_row_bytes routes naive"
proof -
  have a: "length (concat (map u16_le cs)) = length cs * 2" for cs
    by (rule length_concat_uniform) simp
  have b: "length (concat (map (\<lambda>c. u32_le (bf16_to_f32 c)) cs)) = length cs * 4" for cs
    by (rule length_concat_uniform) simp
  have c: "length (concat (replicate n xs)) = n * length xs" for n and xs :: "u8 list"
    by (induction n) simp_all
  show ?thesis
    by (cases "naive_has naive PER_ROUTE_RETURN"; cases "naive_has naive FP32_RETURN")
      (simp_all only: return_row_wire_def Let_def return_row_bytes_def RETURN_ROW_BYTES_def
        a b c assms if_True if_False simp_thms mult.assoc)
qed

lemma length_return_body:
  assumes "\<forall>r \<in> set (rt_rows f). length (rr_codes r) = HIDDEN"
  shows "length (return_body f naive) = length (rt_rows f) * return_row_bytes (rt_route_count f) naive"
  unfolding return_body_def
  by (rule length_concat_uniform) (simp add: length_return_row_wire assms)

lemma chunks_exact_concat:
  assumes "\<And>x. length (enc x) = n" "0 < n"
  shows "chunks_exact n (concat (map enc xs)) = map enc xs"
proof -
  have l: "length (concat (map enc xs)) = length xs * n"
    by (rule length_concat_uniform) (rule assms(1))
  have "map (\<lambda>i. take n (drop (i * n) (concat (map enc xs)))) [0..<length xs] = map (\<lambda>i. enc (xs ! i)) [0..<length xs]"
    by (rule map_cong) (simp_all add: take_drop_concat_uniform assms(1))
  also have "\<dots> = map enc xs" by (rule nth_equalityI) simp_all
  finally have m: "map (\<lambda>i. take n (drop (i * n) (concat (map enc xs)))) [0..<length xs] = map enc xs" .
  have "length (concat (map enc xs)) div n = length xs" using assms(2) by (simp only: l) simp
  then show ?thesis by (simp only: chunks_exact_def m)
qed

lemma codes_read_back: "map of_u16_le (chunks_exact 2 (concat (map u16_le cs))) = cs"
  by (simp add: chunks_exact_concat comp_def)

lemma return_block_codes_wire:
  assumes f: "return_sendable f rows naive" and c: "length (rr_codes row) = HIDDEN"
    and n: "return_dtype naive = DtBf16"
  shows "return_block_codes (return_header f rows seq naive) (return_row_bytes (rt_route_count f) naive)
    naive (return_row_wire (rt_route_count f) naive row) = Ok (rr_codes row)"
proof -
  let ?u = "concat (map u16_le (rr_codes row))" and ?k = "rt_route_count f"
  have len: "length ?u = HIDDEN * 2"
    by (subst length_concat_uniform [of _ u16_le 2]) (simp_all add: c)
  have h: "hf_dtype (return_header f rows seq naive) = DtBf16"
    using n by (simp add: return_header_def Let_def)
  have pos: "HIDDEN * 2 \<noteq> 0" by (simp add: HIDDEN_def)
  have k: "?k \<noteq> 0" using return_bounds(2) [OF f] .
  show ?thesis
  proof (cases "naive_has naive PER_ROUTE_RETURN")
    case True
    have st: "return_row_bytes ?k naive = ?k * (HIDDEN * 2)"
      using True by (simp only: return_row_bytes_def if_True mult.assoc)
    have w: "return_row_wire ?k naive row = ?u @ concat (replicate (?k - 1) ?u)"
      using True k by (cases ?k) (simp_all only: return_row_wire_def Let_def if_True if_False simp_thms
        replicate_Suc concat.simps diff_Suc_1)
    have "subslice (return_row_wire ?k naive row) 0 (HIDDEN * 2) = (Ok ?u :: u8 list wire_result)"
      unfolding w subslice_def using len by (simp only: append_Nil2 length_append) simp
    then show ?thesis
      using pos k
      by (simp only: return_block_codes_def h dtype.case Let_def st return_header_reads [OF f] obind.simps
          codes_read_back) simp
  next
    case False
    have st: "return_row_bytes ?k naive = HIDDEN * 2"
      using False n by (auto simp: return_row_bytes_def return_dtype_def RETURN_ROW_BYTES_def split: if_splits)
    have w: "return_row_wire ?k naive row = ?u"
      using False n by (auto simp: return_row_wire_def return_dtype_def Let_def split: if_splits)
    have "subslice ?u 0 (HIDDEN * 2) = (Ok ?u :: u8 list wire_result)"
      unfolding subslice_def using len by simp
    then show ?thesis
      using pos
      by (simp only: return_block_codes_def h dtype.case Let_def st w obind.simps codes_read_back) simp
  qed
qed

lemma row_slice:
  assumes "\<And>x. x \<in> set xs \<Longrightarrow> length (g x) = w" "i < length xs"
  shows "subslice (concat (map g xs)) (i * w) ((i + 1) * w) = Ok (g (xs ! i))"
  using row_window [of xs g w i "[]", OF assms] by (simp add: subslice_def add.commute)

lemma decode_return_body:
  assumes s: "return_sendable f (length (rt_rows f)) naive"
    and c: "\<forall>r \<in> set (rt_rows f). length (rr_codes r) = HIDDEN"
    and n: "return_dtype naive = DtBf16"
    and body: "128 \<le> length bytes" "drop 128 bytes = return_body f naive"
    and flags: "\<not> (rt_status f = StatusOk \<and> rt_flags f AND FLAG_RETURN_REQUIRED \<noteq> FLAG_RETURN_REQUIRED)"
  shows "decode_return (return_header f (length (rt_rows f)) seq naive) bytes naive = Ok (f\<lparr>rt_seq := seq\<rparr>)"
proof -
  let ?h = "return_header f (length (rt_rows f)) seq naive"
  let ?w = "return_row_bytes (rt_route_count f) naive"
  have sub: "subslice bytes 128 (length bytes) = (Ok (return_body f naive) :: u8 list wire_result)"
    using body by (simp add: subslice_def flip: body(2))
  have l: "length (return_body f naive) = length (rt_rows f) * ?w"
    by (rule length_return_body) (rule c)
  have rows: "collect_results (\<lambda>i.
       obind (subslice (return_body f naive) (i * ?w) ((i + 1) * ?w)) (\<lambda>block.
       obind (return_block_codes ?h ?w naive block) (\<lambda>codes. Ok \<lparr>rr_codes = codes\<rparr>)))
       [0..<length (rt_rows f)] = (Ok (rt_rows f) :: return_row list wire_result)"
  proof (rule collect_indexed)
    fix i assume i: "i < length (rt_rows f)"
    then have r: "length (rr_codes (rt_rows f ! i)) = HIDDEN" using c by simp
    have sl: "subslice (return_body f naive) (i * ?w) ((i + 1) * ?w)
        = (Ok (return_row_wire (rt_route_count f) naive (rt_rows f ! i)) :: u8 list wire_result)"
      unfolding return_body_def
      by (rule row_slice) (use c i length_return_row_wire in auto)
    show "obind (subslice (return_body f naive) (i * ?w) ((i + 1) * ?w)) (\<lambda>block.
       obind (return_block_codes ?h ?w naive block) (\<lambda>codes. Ok \<lparr>rr_codes = codes\<rparr>))
       = (Ok (rt_rows f ! i) :: return_row wire_result)"
      by (simp only: sl obind.simps return_block_codes_wire [OF s r n]) simp
  qed simp
  have z: "hf_row_descriptor_bytes ?h = 0" "hf_route_bytes ?h = 0" "hf_status ?h = rt_status f"
    "hf_flags ?h = rt_flags f"
    by (simp_all add: return_header_def Let_def)
  show ?thesis
    by (simp only: decode_return_def return_header_reads [OF s] return_bounds [OF s] z flags Let_def
        layout_simps obind.simps sub l rows if_False if_True simp_thms)
      (simp add: return_header_def Let_def)
qed

lemma decode_encoded_return:
  assumes "encode_return env f naive = Ok bytes"
    and "naive_has naive FP32_RETURN \<longrightarrow> naive_has naive PER_ROUTE_RETURN"
  shows "decode_frame env bytes naive =
    (if rt_status f = StatusOk \<and> rt_flags f AND FLAG_RETURN_REQUIRED \<noteq> FLAG_RETURN_REQUIRED
     then Err (UnpresummedReturn (rt_flags f)) else Ok (FReturn f))"
proof -
  let ?h = "return_header f (length (rt_rows f)) (rt_seq f) naive"
  let ?w = "write_header ?h naive @ return_body f naive"
  have o: "encode_return_seq env f (rt_seq f) naive = Ok bytes"
    using assms(1) by (simp only: encode_return_def)
  note s = encode_return_sendable [OF o]
  from o have e: "seal env ?w naive = Ok bytes" by (simp only: encode_return_seal [OF s])
  have d: "differ_only_in 120 4 ?w bytes" and v: "verify_crc env bytes naive q = Ok ()" for q
    using seal_shape [OF e] by (simp_all add: header_crc_zero)
  have k: "hf_kind ?h = KIND_RETURN" by (simp add: return_header_def Let_def)
  have "parse_header ?w naive = Ok ?h"
    by (rule parse_write_header)
      (simp_all add: return_header_reads [OF s(1)] length_return_body [OF s(2)] k)
  then have p: "parse_header bytes naive = Ok ?h"
    by (simp only: parse_header_cong [OF d])
  have b: "128 \<le> length bytes" "drop 128 bytes = return_body f naive"
    using length_differ [OF d] differ_drop [OF d] by simp_all
  have n: "return_dtype naive = DtBf16" using assms(2) by (auto simp: return_dtype_def)
  have "decode_return ?h bytes naive =
    (if rt_status f = StatusOk \<and> rt_flags f AND FLAG_RETURN_REQUIRED \<noteq> FLAG_RETURN_REQUIRED
     then Err (UnpresummedReturn (rt_flags f)) else Ok f)"
  proof (cases "rt_status f = StatusOk \<and> rt_flags f AND FLAG_RETURN_REQUIRED \<noteq> FLAG_RETURN_REQUIRED")
    case True
    then show ?thesis by (simp add: decode_return_def return_header_def Let_def)
  next
    case False
    then show ?thesis using decode_return_body [OF s n b False, of "rt_seq f"] by (simp only: if_False) simp
  qed
  moreover have "KIND_RETURN \<noteq> KIND_REQUEST" by (simp add: KIND_RETURN_def KIND_REQUEST_def)
  ultimately show ?thesis by (simp add: decode_frame_def p v k)
qed

lemma encode_return_seq_stamp: "encode_return_seq env f seq naive = encode_return env (f\<lparr>rt_seq := seq\<rparr>) naive"
  by (simp add: encode_return_def encode_return_seq_def cong: if_cong)

subsection \<open>A sample return frame\<close>

definition sample_return :: return_frame where
  "sample_return =
     \<lparr>rt_request_id = 7, rt_placement_version = 1, rt_layer_id = 3, rt_executor_id = 2,
      rt_token_position = 0, rt_status = StatusOk, rt_flags = FLAG_RETURN_REQUIRED,
      rt_route_count = 8, rt_seq = 5, rt_rows = [\<lparr>rr_codes = replicate HIDDEN 0x3F80\<rparr>]\<rparr>"

lemma sample_return_sendable: "return_sendable sample_return (length (rt_rows sample_return)) naive_none"
  by (simp add: return_sendable_def sample_return_def return_row_bytes_def static_layout_guards)

lemma sample_return_codes: "\<forall>r \<in> set (rt_rows sample_return). length (rr_codes r) = HIDDEN"
  by (simp add: sample_return_def)

lemma sample_return_encodes: "\<exists>bytes. encode_return sample_env sample_return naive_none = Ok bytes"
  unfolding encode_return_def encode_return_seal [OF sample_return_sendable sample_return_codes]
  by (rule seal_Ok) simp

lemma return_header_seq_Ok:
  assumes "return_header_seq f rows seq naive = Ok hdr"
  shows "return_sendable f rows naive" "hdr = write_header (return_header f rows seq naive) naive"
    "return_dtype naive = DtBf16" "\<not> naive_has naive PER_ROUTE_RETURN"
  using assms
  by (auto simp: return_header_seq_def return_sendable_def return_header_def return_dtype_def Let_def
      outcome_simps layout_simps split: if_splits)

lemma return_header_seq_sendable:
  assumes "return_sendable f rows naive" "\<not> naive_has naive PER_ROUTE_RETURN" "\<not> naive_has naive FP32_RETURN"
  shows "return_header_seq f rows seq naive = Ok (write_header (return_header f rows seq naive) naive)"
  using assms(2,3) return_bounds [OF assms(1)]
  by (simp add: return_header_seq_def return_header_def return_dtype_def Let_def layout_simps
      del: of_nat_mult of_nat_add)

subsection \<open>Properties\<close>

text \<open>C35: A compact return frame decodes to itself, except that a frame whose status is Ok but
  whose flags do not promise a reduced BF16 payload is refused. (With the FP32 trap a NaN code
  would not survive, so that encoding is left out.)\<close>

theorem return_roundtrip:
  assumes "encode_return env f naive = Ok bytes"
    and "naive_has naive FP32_RETURN \<longrightarrow> naive_has naive PER_ROUTE_RETURN"
  shows "decode_frame env bytes naive =
    (if rt_status f = StatusOk \<and> rt_flags f AND FLAG_RETURN_REQUIRED \<noteq> FLAG_RETURN_REQUIRED
     then Err (UnpresummedReturn (rt_flags f)) else Ok (FReturn f))"
  by (rule decode_encoded_return [OF assms])

theorem return_roundtrip_witness:
  "\<exists>bytes. encode_return sample_env sample_return naive_none = Ok bytes \<and>
     decode_frame sample_env bytes naive_none = Ok (FReturn sample_return)"
proof -
  obtain bytes where e: "encode_return sample_env sample_return naive_none = Ok bytes"
    using sample_return_encodes by blast
  have "rt_flags sample_return AND FLAG_RETURN_REQUIRED = FLAG_RETURN_REQUIRED"
    by (simp add: sample_return_def)
  then have "decode_frame sample_env bytes naive_none = Ok (FReturn sample_return)"
    using return_roundtrip [OF e] by simp
  with e show ?thesis by blast
qed

text \<open>C39: A return frame assembled in place (header, BF16 rows written behind it, then the
  seal) is byte for byte the frame the copying encoder builds.\<close>

theorem return_assembled_in_place:
  assumes "return_header_seq f (length (rt_rows f)) seq naive = Ok hdr"
    and "\<forall>r \<in> set (rt_rows f). length (rr_codes r) = HIDDEN"
  shows "seal_in_place env (hdr @ concat (map (\<lambda>r. concat (map u16_le (rr_codes r))) (rt_rows f))) naive
    = encode_return_seq env f seq naive"
proof -
  note h = return_header_seq_Ok [OF assms(1)]
  have "return_row_wire (rt_route_count f) naive = (\<lambda>r. concat (map u16_le (rr_codes r)))"
    using h(3,4) by (auto simp: return_row_wire_def return_dtype_def Let_def split: if_splits)
  then have "return_body f naive = concat (map (\<lambda>r. concat (map u16_le (rr_codes r))) (rt_rows f))"
    by (simp only: return_body_def)
  then show ?thesis
    by (simp only: encode_return_seal [OF h(1) assms(2)] h(2) seal_def seal_in_place_def)
qed
theorem return_assembled_in_place_witness:
  "seal_in_place sample_env
     (write_header (return_header sample_return (length (rt_rows sample_return)) 9 naive_none) naive_none
        @ concat (map (\<lambda>r. concat (map u16_le (rr_codes r))) (rt_rows sample_return))) naive_none
   = encode_return_seq sample_env sample_return 9 naive_none"
proof (rule return_assembled_in_place)
  show "return_header_seq sample_return (length (rt_rows sample_return)) 9 naive_none
      = Ok (write_header (return_header sample_return (length (rt_rows sample_return)) 9 naive_none) naive_none)"
    by (rule return_header_seq_sendable) (simp_all add: sample_return_sendable)
qed (rule sample_return_codes)

end
