(* ===== verification/FrameIntegrity.thy ===== *)
theory FrameIntegrity
  imports FrameReturn
begin

text \<open>
  What the frame decoder promises about bytes it did not write: it never panics, and a
  checksummed frame damaged within four adjacent bytes is refused.
\<close>

unbundle bit_operations_syntax

subsection \<open>No panic\<close>

lemma get_no_Panic [simp]:
  "get_u16 b i \<noteq> Panic" "get_u32 b i \<noteq> Panic" "get_u64 b i \<noteq> Panic" "get_f32 b i \<noteq> Panic"
  by (simp_all add: get_u16_def get_u32_def get_u64_def get_f32_def)

lemma checks_no_Panic [simp]:
  "checked_mul a b s \<noteq> Panic" "as_u32 a s \<noteq> Panic" "request_dtype_ok d naive \<noteq> Panic"
  by (auto simp: checked_mul_def as_u32_def request_dtype_ok_def split: dtype.splits)

lemma subslice_Panic: "subslice xs a b = Panic \<longleftrightarrow> \<not> (a \<le> b \<and> b \<le> length xs)"
  by (simp add: subslice_def)

lemma parse_header_no_Panic [simp]: "parse_header bytes naive \<noteq> Panic"
  by (simp add: parse_header_def outcome_simps subslice_Panic layout_simps Let_def)

lemma verify_crc_no_Panic:
  "128 \<le> length bytes \<Longrightarrow> verify_crc env bytes naive seq \<noteq> Panic"
  using compute_crc_Ok [of bytes env naive] by (auto simp: verify_crc_def outcome_simps)

lemma from_wire_no_Panic [simp]:
  "row_descriptor_from_wire b off naive \<noteq> Panic" "route_entry_from_wire b off naive \<noteq> Panic"
  by (auto simp: row_descriptor_from_wire_def route_entry_from_wire_def outcome_simps subslice_Panic
      layout_simps split: prod.splits)

lemma from_wire_in_range:
  "row_descriptor_from_wire b off naive = Ok r \<Longrightarrow> off + 40 \<le> length b"
  "route_entry_from_wire b off naive = Ok e \<Longrightarrow> off + 12 \<le> length b"
  by (auto simp: row_descriptor_from_wire_def route_entry_from_wire_def layout_simps split: if_splits)

lemma validate_no_Panic [simp]: "validate_rows_routes rows routes \<noteq> Panic"
proof -
  have "check_all (row_range_ok (length routes)) (List.enumerate 0 rows) \<noteq> Panic"
    by (rule check_all_no_Panic) (simp add: row_range_ok_def Let_def)
  moreover have "check_all (route_row_ok (length rows)) (List.enumerate 0 routes) \<noteq> Panic"
    by (rule check_all_no_Panic) (simp add: route_row_ok_def)
  ultimately show ?thesis by (simp add: validate_rows_routes_def outcome_simps)
qed

lemma sections_fit:
  assumes "collect_results (\<lambda>i. row_descriptor_from_wire b (i * 40) naive) [0..<rows] = Ok rs"
    and "collect_results (\<lambda>j. route_entry_from_wire b (rows * 40 + j * 12) naive) [0..<routes] = Ok es"
    and "0 < rows"
  shows "rows * 40 + routes * 12 \<le> length b"
proof (cases routes)
  case 0
  have "row_descriptor_from_wire b ((rows - 1) * 40) naive = Ok (rs ! (rows - 1))"
    using collect_results_nth [OF assms(1), of "rows - 1"] assms(3) by simp
  from from_wire_in_range(1) [OF this] show ?thesis using 0 assms(3) by (cases rows) simp_all
next
  case (Suc k)
  have "route_entry_from_wire b (rows * 40 + k * 12) naive = Ok (es ! k)"
    using collect_results_nth [OF assms(2), of k] Suc by (simp del: upt_Suc)
  from from_wire_in_range(2) [OF this] show ?thesis using Suc by simp
qed

text \<open>A wrapped sum of the three sections would be smaller than the first two, and then some
  descriptor or route would lie outside the body; so a body whose descriptors and routes decode
  has the true length, and the hidden rows can be sliced out of it.\<close>

lemma unwrapped_body_len:
  assumes "usize_add (usize_add a b) p = len" "a + b \<le> len" "p < 2 ^ 64"
  shows "len = a + b + p"
proof -
  have "len < 2 ^ 64" using assms(1) usize_add_less by blast
  then have ab: "usize_add a b = a + b" using assms(2) by (simp add: usize_add_def)
  show ?thesis
  proof (cases "a + b + p < 2 ^ 64")
    case True
    then show ?thesis using assms(1) by (simp add: ab usize_add_no_wrap)
  next
    case False
    then have "usize_add (a + b) p = a + b + p - 2 ^ 64"
      using assms(2,3) \<open>len < 2 ^ 64\<close> by (simp add: usize_add_def le_mod_geq)
    then have "len < a + b" using assms(1,3) False by (simp add: ab)
    then show ?thesis using assms(2) by simp
  qed
qed

lemma decode_request_no_Panic:
  assumes "128 \<le> length bytes"
  shows "decode_request h bytes naive \<noteq> Panic"
proof
  let ?rows = "unat (hf_row_count h)" and ?routes = "unat (hf_route_count h)"
  let ?stride = "unat (hf_row_stride_bytes h)" and ?body = "drop 128 bytes"
  assume p: "decode_request h bytes naive = Panic"
  have sub: "subslice bytes 128 (length bytes) = (Ok ?body :: u8 list wire_result)"
    using assms by (simp add: subslice_def)
  obtain rs es where
    rs: "collect_results (\<lambda>i. row_descriptor_from_wire ?body (i * 40) naive) [0..<?rows] = Ok rs" and
    es: "collect_results (\<lambda>j. route_entry_from_wire ?body (?rows * 40 + j * 12) naive) [0..<?routes] = Ok es" and
    hid: "collect_results (\<lambda>i. hidden_row_at ?body (?rows * 40 + ?routes * 12 + i * ?stride) ?stride) [0..<?rows] = Panic" and
    len: "length ?body = usize_add (usize_add (?rows * 40) (?routes * 12)) (?rows * ?stride)" and
    pay: "?rows * ?stride < 2 ^ 64" and st: "HIDDEN \<le> ?stride" and pos: "hf_row_count h \<noteq> 0"
    using p
    by (auto simp: decode_request_def outcome_simps layout_simps sub Let_def not_less checked_mul_eq_Ok
        collect_results_no_Panic split: if_splits simp del: length_drop)
  have rp: "0 < ?rows" using pos by (simp add: unat_gt_0)
  have fit: "?rows * 40 + ?routes * 12 \<le> length ?body" by (rule sections_fit [OF rs es rp])
  have l: "length ?body = ?rows * 40 + ?routes * 12 + ?rows * ?stride"
    by (rule unwrapped_body_len [OF len [symmetric] fit pay])
  have "hidden_row_at ?body (?rows * 40 + ?routes * 12 + i * ?stride) ?stride \<noteq> Panic" if "i < ?rows" for i
  proof -
    have "i * ?stride + ?stride \<le> ?rows * ?stride" using that mult_le_mono1 [of "Suc i" ?rows ?stride] by simp
    then show ?thesis using l st by (simp add: hidden_row_at_def outcome_simps subslice_Panic)
  qed
  then have "collect_results (\<lambda>i. hidden_row_at ?body (?rows * 40 + ?routes * 12 + i * ?stride) ?stride) [0..<?rows] \<noteq> Panic"
    by (intro collect_results_no_Panic) simp
  with hid show False by contradiction
qed

lemma return_block_no_Panic:
  assumes "length block = stride" "hf_route_count h \<noteq> 0"
  shows "return_block_codes h stride naive block \<noteq> Panic"
proof -
  have "HIDDEN * 2 \<le> stride" if "stride mod (HIDDEN * 2) = 0" "stride div (HIDDEN * 2) \<noteq> 0"
    using that by (metis div_less not_le)
  moreover have "unat (hf_route_count h) \<noteq> 0" using assms(2) by (simp add: unat_eq_zero)
  ultimately show ?thesis
    using assms(1)
    by (auto simp: return_block_codes_def Let_def outcome_simps subslice_Panic split: dtype.splits)
qed

lemma decode_return_no_Panic:
  assumes "128 \<le> length bytes"
  shows "decode_return h bytes naive \<noteq> Panic"
proof -
  let ?rows = "unat (hf_row_count h)" and ?stride = "unat (hf_row_stride_bytes h)" and ?body = "drop 128 bytes"
  have sub: "subslice bytes 128 (length bytes) = (Ok ?body :: u8 list wire_result)"
    using assms by (simp add: subslice_def)
  have "collect_results (\<lambda>i. obind (subslice ?body (i * ?stride) ((i + 1) * ?stride)) (\<lambda>block.
          obind (return_block_codes h ?stride naive block) (\<lambda>codes. Ok \<lparr>rr_codes = codes\<rparr>)))
       [0..<?rows] \<noteq> (Panic :: return_row list wire_result)"
    if len: "length ?body = ?rows * ?stride" and rc: "hf_route_count h \<noteq> 0"
  proof (rule collect_results_no_Panic)
    fix i assume "i \<in> set [0..<?rows]"
    then have "(i + 1) * ?stride \<le> length ?body"
      unfolding len by (intro mult_le_mono1) simp
    then have "subslice ?body (i * ?stride) ((i + 1) * ?stride)
        = (Ok (take ?stride (drop (i * ?stride) ?body)) :: u8 list wire_result)"
      "length (take ?stride (drop (i * ?stride) ?body)) = ?stride"
      by (simp_all add: subslice_def)
    then show "obind (subslice ?body (i * ?stride) ((i + 1) * ?stride)) (\<lambda>block.
          obind (return_block_codes h ?stride naive block) (\<lambda>codes. Ok \<lparr>rr_codes = codes\<rparr>))
       \<noteq> (Panic :: return_row wire_result)"
      using return_block_no_Panic [OF _ rc] by (simp add: outcome_simps)
  qed
  then show ?thesis
    by (simp add: decode_return_def outcome_simps layout_simps sub Let_def checked_mul_eq_Ok del: length_drop)
qed

subsection \<open>Damage within four bytes\<close>

lemma split_window: "xs = take 120 xs @ take 4 (drop 120 xs) @ drop 124 xs"
proof -
  have "drop 120 xs = take 4 (drop 120 xs) @ drop 4 (drop 120 xs)" by (simp only: append_take_drop_id)
  moreover have "drop 4 (drop 120 xs) = drop 124 xs" by simp
  ultimately show ?thesis by (metis append_take_drop_id)
qed

lemma parse_header_length: "parse_header bytes naive = Ok h \<Longrightarrow> 128 \<le> length bytes"
  by (auto simp: parse_header_def layout_simps split: if_splits)

lemma verify_crc_stored:
  assumes "verify_crc env bytes naive seq = Ok ()" "\<not> env_nocrc env" "\<not> naive_has naive CRC_UNCHECKED"
    "128 \<le> length bytes"
  shows "compute_crc env bytes naive = Ok (of_u32_le (take 4 (drop 120 bytes)))"
  using assms by (auto simp: verify_crc_def outcome_simps get_u32_def layout_simps split: if_splits)

lemma zeroed_differ:
  assumes "differ_only_in p 4 xs ys" "128 \<le> length xs" "p + 4 \<le> 120 \<or> 124 \<le> p" "length v = 4"
  shows "differ_only_in p 4 (put_bytes 120 v xs) (put_bytes 120 v ys)"
proof -
  have len: "length ys = length xs" and t: "take p xs = take p ys" and d: "drop (p + 4) xs = drop (p + 4) ys"
    using assms(1) by (simp_all add: differ_only_in_def)
  from assms(3) show ?thesis
  proof
    assume p: "p + 4 \<le> 120"
    have "take p (take 120 xs) = take p (take 120 ys)" using p t by (simp add: min_absorb1)
    moreover have "drop (p + 4) (take 120 xs) = drop (p + 4) (take 120 ys)"
      using p d by (simp add: drop_take)
    moreover have "drop 124 xs = drop 124 ys"
    proof -
      have "drop (124 - (p + 4)) (drop (p + 4) xs) = drop (124 - (p + 4)) (drop (p + 4) ys)" by (simp only: d)
      then show ?thesis using p by simp
    qed
    ultimately show ?thesis
      using p len assms(2,4) by (simp add: differ_only_in_def put_bytes_def min_def)
  next
    assume p: "124 \<le> p"
    have "take 120 xs = take 120 (take p xs)" "take 120 ys = take 120 (take p ys)"
      using p by (simp_all add: min_absorb1)
    then have a: "take 120 xs = take 120 ys" by (simp only: t)
    obtain k where k: "p = 124 + k" using p le_Suc_ex by blast
    have r: "take k (drop 124 xs) = take k (drop 124 ys)" "drop (k + 4) (drop 124 xs) = drop (k + 4) (drop 124 ys)"
      using t d by (simp_all add: k take_drop add.commute)
    define B where "B = take 120 xs @ v"
    have B: "length B = 124" using assms(2,4) by (simp add: B_def)
    have z: "put_bytes 120 v xs = B @ drop 124 xs" "put_bytes 120 v ys = B @ drop 124 ys"
      using a assms(4) by (simp_all add: put_bytes_def B_def)
    have "p + 4 = 124 + (k + 4)" by (simp add: k)
    then show ?thesis
      unfolding z differ_only_in_def
      using len r by (simp only: k take_append drop_append B length_append length_drop) simp
  qed
qed

lemma crc32c_with_burst:
  assumes "differ_only_in p 4 xs ys" "crc32c_with cpu f xs = crc32c_with cpu f ys"
  shows "xs = ys"
proof (rule family_burst_inject [OF assms(1), of f "NOT 0"])
  show "crc_run (family_poly f) (NOT 0) xs = crc_run (family_poly f) (NOT 0) ys"
    using assms(2) by (simp only: crc32c_with_run bit.compl_eq_compl_iff)
qed

subsection \<open>Properties\<close>

text \<open>C32: No byte string makes the frame decoder panic (index out of range, failed unwrap),
  whatever lengths and counts its header claims.\<close>

theorem decode_frame_no_panic: "decode_frame env bytes naive \<noteq> Panic"
proof
  assume "decode_frame env bytes naive = Panic"
  then obtain h where h: "parse_header bytes naive = Ok h"
    and c: "verify_crc env bytes naive (hf_seq h) = Panic \<or> decode_request h bytes naive = Panic
      \<or> decode_return h bytes naive = Panic"
    by (auto simp: decode_frame_def outcome_simps split: if_splits)
  have "128 \<le> length bytes" 
    using h by (auto simp: parse_header_def layout_simps split: if_splits)
  with c show False
    using verify_crc_no_Panic decode_request_no_Panic decode_return_no_Panic by blast
qed

text \<open>C33: A frame that was accepted with its checksum verified is refused after any change
  confined to four adjacent bytes that lie outside the CRC field, or are the CRC field.\<close>

theorem corruption_detected:
  assumes accepted: "decode_frame env bytes naive = Ok f"
    and checked: "\<not> env_nocrc env" "\<not> naive_has naive CRC_UNCHECKED" "\<not> naive_has naive CRC_HEADER_EXEMPT"
    and window: "differ_only_in p 4 bytes bytes'" "p + 4 \<le> 120 \<or> p = 120 \<or> 124 \<le> p"
    and changed: "bytes' \<noteq> bytes"
  shows "decode_frame env bytes' naive \<noteq> Ok g"
proof
  assume "decode_frame env bytes' naive = Ok g"
  then obtain h' where h': "parse_header bytes' naive = Ok h'" "verify_crc env bytes' naive (hf_seq h') = Ok ()"
    by (auto simp: decode_frame_def outcome_simps)
  obtain h where h: "parse_header bytes naive = Ok h" "verify_crc env bytes naive (hf_seq h) = Ok ()"
    using accepted by (auto simp: decode_frame_def outcome_simps)
  have len: "128 \<le> length bytes" "128 \<le> length bytes'"
    using h h' parse_header_length by blast+
  note c = verify_crc_stored [OF h(2) checked(1,2) len(1)] verify_crc_stored [OF h'(2) checked(1,2) len(2)]
  show False
  proof (cases "p = 120")
    case True
    then have d: "differ_only_in 120 4 bytes bytes'" using window by simp
    then have "compute_crc env bytes naive = compute_crc env bytes' naive"
      by (rule compute_crc_cong) (use len in simp)
    then have "of_u32_le (take 4 (drop 120 bytes)) = of_u32_le (take 4 (drop 120 bytes'))"
      using c by simp
    then have m: "take 4 (drop 120 bytes) = take 4 (drop 120 bytes')"
      using u32_field.dec_inject [of "take 4 (drop 120 bytes)" "take 4 (drop 120 bytes')"] len by simp
    have "take 120 bytes = take 120 bytes'" "drop 124 bytes = drop 124 bytes'"
      using d by (simp_all add: differ_only_in_def)
    then have "bytes = bytes'" using m split_window by metis
    with changed show False by simp
  next
    case False
    with window have w: "p + 4 \<le> 120 \<or> 124 \<le> p" by simp
    let ?z = "put_bytes 120 [0, 0, 0, 0 :: u8]"
    have z: "compute_crc env xs naive = Ok (crc32c_with (env_cpu env) (family_for naive) (?z xs))"
      if "128 \<le> length xs" for xs
      using that checked(3) by (simp add: compute_crc_def crc32c_zeroed_run layout_simps Let_def)
    have m: "take 4 (drop 120 bytes) = take 4 (drop 120 bytes')"
      by (rule differ_only_in_take_drop [OF window(1)]) (use w in auto)
    have "crc32c_with (env_cpu env) (family_for naive) (?z bytes)
        = crc32c_with (env_cpu env) (family_for naive) (?z bytes')"
      using c z [OF len(1)] z [OF len(2)] m by simp
    then have e: "?z bytes = ?z bytes'"
      using crc32c_with_burst zeroed_differ [OF window(1) len(1) w, of "[0, 0, 0, 0]"] by simp
    have "take 120 (?z xs) = take 120 xs" "drop 124 (?z xs) = drop 124 xs" if "128 \<le> length xs" for xs
      using that by (simp_all add: put_bytes_def)
    from this [OF len(1)] this [OF len(2)] have "take 120 bytes = take 120 bytes'" "drop 124 bytes = drop 124 bytes'"
      using e by metis+
    then have "bytes = bytes'" using m split_window by metis
    with changed show False by simp
  qed
qed

theorem corruption_detected_witness:
  "\<exists>bytes. encode_return sample_env sample_return naive_none = Ok bytes \<and>
     decode_frame sample_env (bytes[16 := bytes ! 16 + 1]) naive_none \<noteq> Ok (FReturn sample_return)"
proof -
  obtain bytes where e: "encode_return sample_env sample_return naive_none = Ok bytes"
    and l: "128 \<le> length bytes" and d: "decode_frame sample_env bytes naive_none = Ok (FReturn sample_return)"
  proof -
    obtain bytes where b: "encode_return sample_env sample_return naive_none = Ok bytes"
      using sample_return_encodes by blast
    have "rt_flags sample_return AND FLAG_RETURN_REQUIRED = FLAG_RETURN_REQUIRED"
      by (simp add: sample_return_def)
    then have d: "decode_frame sample_env bytes naive_none = Ok (FReturn sample_return)"
      using decode_encoded_return [OF b] by simp
    then obtain h where "parse_header bytes naive_none = Ok h"
      by (auto simp: decode_frame_def outcome_simps)
    then have "128 \<le> length bytes" by (rule parse_header_length)
    from that [OF b this d] show thesis .
  qed
  have "decode_frame sample_env (bytes[16 := bytes ! 16 + 1]) naive_none \<noteq> Ok (FReturn sample_return)"
  proof (rule corruption_detected [OF d])
    show "differ_only_in 16 4 bytes (bytes[16 := bytes ! 16 + 1])"
      by (simp add: differ_only_in_def)
    have "(bytes[16 := bytes ! 16 + 1]) ! 16 \<noteq> bytes ! 16" using l by simp
    then show "bytes[16 := bytes ! 16 + 1] \<noteq> bytes" by metis
  qed (simp_all add: sample_env_def)
  with e show ?thesis by blast
qed

end
