(* ===== verification/FrameView.thy ===== *)
theory FrameView
  imports FrameIntegrity
begin

text \<open>
  \<open>RequestView\<close> of \<open>crates/mimo26-wire/src/frame.rs\<close>, which validates a request where it
  lies, and the proof that it accepts and shows what the copying decoder does.
\<close>

subsection \<open>RequestView\<close>

record request_view =
  rv_request_id :: u64
  rv_placement_version :: u64
  rv_layer_id :: u32
  rv_executor_id :: u64
  rv_source_kind :: source_kind
  rv_token_position :: u64
  rv_flags :: u32
  rv_seq :: u64
  rv_rows :: nat
  rv_routes :: nat
  rv_row_stride :: nat
  rv_naive :: wire_naive
  rv_body :: "u8 list"
  rv_route_base :: nat
  rv_hidden_base :: nat

definition view_row :: "request_view \<Rightarrow> nat \<Rightarrow> row_descriptor wire_result" where
  "view_row v i = row_descriptor_from_wire (rv_body v) (i * ROW_DESCRIPTOR_LEN) (rv_naive v)"

definition view_route :: "request_view \<Rightarrow> nat \<Rightarrow> route_entry wire_result" where
  "view_route v j =
     route_entry_from_wire (rv_body v) (rv_route_base v + j * ROUTE_ENTRY_LEN) (rv_naive v)"

definition view_hidden :: "request_view \<Rightarrow> u8 list wire_result" where
  "view_hidden v = subslice (rv_body v) (rv_hidden_base v) (length (rv_body v))"

definition view_row_ok :: "request_view \<Rightarrow> nat \<Rightarrow> unit wire_result" where
  "view_row_ok v i =
     obind (view_row v i) (\<lambda>row.
     if unat (rd_route_offset row) + unat (rd_route_count row) > rv_routes v
     then Err (RouteRangeBad i) else Ok ())"

definition view_route_ok :: "request_view \<Rightarrow> nat \<Rightarrow> unit wire_result" where
  "view_route_ok v j =
     obind (view_route v j) (\<lambda>r.
     if unat (re_row_index r) \<ge> rv_rows v
     then Err (RouteRowMismatch j (re_row_index r) (of_nat (rv_rows v))) else Ok ())"

definition request_view_parse :: "wire_env \<Rightarrow> u8 list \<Rightarrow> wire_naive \<Rightarrow> request_view wire_result" where
  "request_view_parse env bytes naive =
     obind (parse_header bytes naive) (\<lambda>h.
     obind (verify_crc env bytes naive (hf_seq h)) (\<lambda>_.
     if hf_kind h \<noteq> KIND_REQUEST then Err (BadKind (hf_kind h))
     else if hf_row_count h = 0 then Err (DimMismatch ''row_count'' 1 0)
     else
     let rows = unat (hf_row_count h); routes = unat (hf_route_count h) in
     obind (checked_mul rows ROW_DESCRIPTOR_LEN ''row_descriptor_bytes'') (\<lambda>row_descriptor_bytes.
     obind (checked_mul routes ROUTE_ENTRY_LEN ''route_bytes'') (\<lambda>route_bytes.
     if unat (hf_row_descriptor_bytes h) \<noteq> row_descriptor_bytes
     then Err (DimMismatch ''row_descriptor_bytes'' row_descriptor_bytes (unat (hf_row_descriptor_bytes h)))
     else if unat (hf_route_bytes h) \<noteq> route_bytes
     then Err (DimMismatch ''route_bytes'' route_bytes (unat (hf_route_bytes h)))
     else if unat (hf_dim h) \<noteq> HIDDEN
     then Err (DimMismatch ''hidden_dim'' HIDDEN (unat (hf_dim h)))
     else
     obind (request_dtype_ok (hf_dtype h) naive) (\<lambda>_.
     let stride = unat (hf_row_stride_bytes h) in
     if stride < HIDDEN then Err (DimMismatch ''row_stride_bytes'' HIDDEN stride)
     else
     obind (checked_mul rows stride ''payload_bytes'') (\<lambda>payload_bytes.
     if unat (hf_payload_bytes h) \<noteq> payload_bytes
     then Err (DimMismatch ''payload_bytes'' payload_bytes (unat (hf_payload_bytes h)))
     else
     obind (subslice bytes HEADER_LEN (length bytes)) (\<lambda>body.
     let body_len = usize_add (usize_add row_descriptor_bytes route_bytes) payload_bytes in
     if length body \<noteq> body_len then Err (DimMismatch ''body_len'' body_len (length body))
     else
     let view = \<lparr>rv_request_id = hf_request_id h, rv_placement_version = hf_placement_version h,
           rv_layer_id = hf_layer_id h, rv_executor_id = hf_executor_id h,
           rv_source_kind = hf_source_kind h, rv_token_position = hf_token_position h,
           rv_flags = hf_flags h, rv_seq = hf_seq h, rv_rows = rows, rv_routes = routes,
           rv_row_stride = stride, rv_naive = naive, rv_body = body,
           rv_route_base = row_descriptor_bytes,
           rv_hidden_base = row_descriptor_bytes + route_bytes\<rparr> in
     obind (check_all (view_row_ok view) [0..<rows]) (\<lambda>_.
     obind (check_all (view_route_ok view) [0..<routes]) (\<lambda>_.
       Ok view)))))))))"

subsection \<open>The view and the decoder make the same checks\<close>

definition request_geometry :: "header_fields \<Rightarrow> u8 list \<Rightarrow> wire_naive \<Rightarrow> bool" where
  "request_geometry h bytes naive \<longleftrightarrow>
     (let rows = unat (hf_row_count h); routes = unat (hf_route_count h);
          stride = unat (hf_row_stride_bytes h) in
      hf_row_count h \<noteq> 0 \<and> unat (hf_row_descriptor_bytes h) = rows * 40 \<and>
      unat (hf_route_bytes h) = routes * 12 \<and> unat (hf_dim h) = HIDDEN \<and>
      request_dtype_ok (hf_dtype h) naive = Ok () \<and> HIDDEN \<le> stride \<and> rows * stride < 2 ^ 64 \<and>
      unat (hf_payload_bytes h) = rows * stride \<and> 128 \<le> length bytes \<and>
      length bytes - 128 = usize_add (usize_add (rows * 40) (routes * 12)) (rows * stride))"

lemma unat_bounds: "unat (w :: u32) * 40 < 2 ^ 64" "unat (w :: u32) * 12 < 2 ^ 64"
  using unat_lt [of w] by simp_all

lemma decode_request_Ok:
  "decode_request h bytes naive = Ok f \<longleftrightarrow>
    request_geometry h bytes naive \<and>
    (let rows = unat (hf_row_count h); routes = unat (hf_route_count h);
          stride = unat (hf_row_stride_bytes h); body = drop 128 bytes in
     collect_results (\<lambda>i. row_descriptor_from_wire body (i * 40) naive) [0..<rows] = Ok (rq_rows f) \<and>
     collect_results (\<lambda>j. route_entry_from_wire body (rows * 40 + j * 12) naive) [0..<routes] = Ok (rq_routes f) \<and>
     validate_rows_routes (rq_rows f) (rq_routes f) = Ok () \<and>
     collect_results (\<lambda>i. hidden_row_at body (rows * 40 + routes * 12 + i * stride) stride) [0..<rows]
       = Ok (rq_hidden_rows f) \<and>
     rq_request_id f = hf_request_id h \<and> rq_placement_version f = hf_placement_version h \<and>
     rq_layer_id f = hf_layer_id h \<and> rq_executor_id f = hf_executor_id h \<and>
     rq_source_kind f = hf_source_kind h \<and> rq_token_position f = hf_token_position h \<and>
     rq_flags f = hf_flags h \<and> rq_seq f = hf_seq h)" (is "?l \<longleftrightarrow> ?r")
proof -
  have sub: "subslice bytes 128 (length bytes) = (if 128 \<le> length bytes then Ok (drop 128 bytes) else Panic :: u8 list wire_result)"
    by (simp add: subslice_def)
  show ?thesis
    using unat_bounds [of "hf_row_count h"] unat_bounds [of "hf_route_count h"]
    by (cases f) (auto simp: decode_request_def request_geometry_def outcome_simps checked_mul_eq_Ok layout_simps
        sub Let_def split: if_splits)
qed

definition header_view :: "header_fields \<Rightarrow> u8 list \<Rightarrow> wire_naive \<Rightarrow> request_view" where
  "header_view h bytes naive =
     \<lparr>rv_request_id = hf_request_id h, rv_placement_version = hf_placement_version h,
      rv_layer_id = hf_layer_id h, rv_executor_id = hf_executor_id h,
      rv_source_kind = hf_source_kind h, rv_token_position = hf_token_position h,
      rv_flags = hf_flags h, rv_seq = hf_seq h, rv_rows = unat (hf_row_count h),
      rv_routes = unat (hf_route_count h), rv_row_stride = unat (hf_row_stride_bytes h),
      rv_naive = naive, rv_body = drop 128 bytes, rv_route_base = unat (hf_row_count h) * 40,
      rv_hidden_base = unat (hf_row_count h) * 40 + unat (hf_route_count h) * 12\<rparr>"

lemma request_view_parse_Ok:
  "request_view_parse env bytes naive = Ok v \<longleftrightarrow>
    (\<exists>h. parse_header bytes naive = Ok h \<and> verify_crc env bytes naive (hf_seq h) = Ok () \<and>
      hf_kind h = KIND_REQUEST \<and> request_geometry h bytes naive \<and> v = header_view h bytes naive \<and>
      (\<forall>i < rv_rows v. view_row_ok v i = Ok ()) \<and> (\<forall>j < rv_routes v. view_route_ok v j = Ok ()))"
    (is "?l \<longleftrightarrow> (\<exists>h. ?r h)")
proof -
  have sub: "subslice bytes 128 (length bytes) = (if 128 \<le> length bytes then Ok (drop 128 bytes) else Panic :: u8 list wire_result)"
    by (simp add: subslice_def)
  have "?l \<longleftrightarrow> (\<exists>h. parse_header bytes naive = Ok h \<and> verify_crc env bytes naive (hf_seq h) = Ok () \<and>
      hf_kind h = KIND_REQUEST \<and> request_geometry h bytes naive \<and> v = header_view h bytes naive \<and>
      check_all (view_row_ok v) [0..<rv_rows v] = Ok () \<and> check_all (view_route_ok v) [0..<rv_routes v] = Ok ())"
  proof -
    have "obind (checked_mul (unat w) 40 s) g = g (unat w * 40)" "obind (checked_mul (unat w) 12 s) g = g (unat w * 12)"
      for w :: u32 and s and g :: "nat \<Rightarrow> request_view wire_result"
      using unat_bounds [of w] by (simp_all add: checked_mul_def)
    note c = this
    show ?thesis
      unfolding request_view_parse_def obind_eq_Ok [where m = "parse_header bytes naive"]
        obind_eq_Ok [where m = "verify_crc env bytes naive q" for q]
      by (intro ex_cong1 conj_cong refl)
        (auto simp: c request_geometry_def outcome_simps checked_mul_eq_Ok layout_simps
          sub Let_def header_view_def split: if_splits)
  qed
  then show ?thesis by (simp add: check_all_eq_Ok atLeast0LessThan Ball_def)
qed

lemma collect_results_exists:
  "(\<And>x. x \<in> set xs \<Longrightarrow> \<exists>y. f x = Ok y) \<Longrightarrow> \<exists>ys. collect_results f xs = Ok ys"
  by (induction xs) fastforce+

lemma validate_rows_routes_Ok:
  "validate_rows_routes rows routes = Ok () \<longleftrightarrow>
     (\<forall>i < length rows. unat (rd_route_offset (rows ! i)) + unat (rd_route_count (rows ! i)) \<le> length routes) \<and>
     (\<forall>j < length routes. unat (re_row_index (routes ! j)) < length rows)"
  by (auto simp: validate_rows_routes_def outcome_simps check_all_eq_Ok Ball_def in_set_enumerate_eq
      row_range_ok_def route_row_ok_def Let_def not_le not_less)

lemma hidden_rows_collect:
  assumes "length body = base + rows * stride" "HIDDEN \<le> stride"
  shows "\<exists>hs. collect_results (\<lambda>i. hidden_row_at body (base + i * stride) stride) [0..<rows] = Ok hs \<and>
    length hs = rows \<and> (\<forall>h \<in> set hs. length (hr_payload h) = HIDDEN \<and> length (hidden_row_wire h) = stride) \<and>
    concat (map hidden_row_wire hs) = drop base body"
proof -
  define g where "g i = \<lparr>hr_payload = take HIDDEN (drop (base + i * stride) body),
    hr_scales = take (stride - HIDDEN) (drop (base + i * stride + HIDDEN) body)\<rparr>" for i
  have fits: "base + i * stride + stride \<le> length body" if "i < rows" for i
    using that mult_le_mono1 [of "Suc i" rows stride] assms(1) by simp
  have "collect_results (\<lambda>i. hidden_row_at body (base + i * stride) stride) [0..<rows] = Ok (map g [0..<rows])"
  proof (rule collect_results_all_Ok)
    fix i assume "i \<in> set [0..<rows]"
    then show "hidden_row_at body (base + i * stride) stride = Ok (g i)"
      using fits [of i] assms(2) by (simp add: hidden_row_at_def subslice_def g_def)
  qed
  moreover have wire: "hidden_row_wire (g i) = take stride (drop (i * stride) (drop base body))" for i
  proof -
    have "take stride xs = take HIDDEN xs @ take (stride - HIDDEN) (drop HIDDEN xs)" for xs :: "u8 list"
      using assms(2) take_add [of HIDDEN "stride - HIDDEN" xs] by simp
    then show ?thesis by (simp add: hidden_row_wire_def g_def add.commute add.left_commute)
  qed
  moreover have "length (hr_payload (g i)) = HIDDEN \<and> length (hidden_row_wire (g i)) = stride" if "i < rows" for i
    using fits [OF that] assms(2) by (simp add: wire) (simp add: g_def)
  moreover have "concat (map hidden_row_wire (map g [0..<rows])) = drop base body"
  proof -
    have "concat (map (\<lambda>i. take stride (drop (i * stride) (drop base body))) [0..<rows]) = drop base body"
      by (rule concat_rows_eq) (simp add: assms(1))
    then show ?thesis by (simp only: list.map_comp comp_def wire)
  qed
  ultimately show ?thesis by (intro exI [of _ "map g [0..<rows]"]) auto
qed

definition view_shows :: "request_view \<Rightarrow> request_frame \<Rightarrow> bool" where
  "view_shows v f \<longleftrightarrow>
     rv_request_id v = rq_request_id f \<and> rv_placement_version v = rq_placement_version f \<and>
     rv_layer_id v = rq_layer_id f \<and> rv_executor_id v = rq_executor_id f \<and>
     rv_source_kind v = rq_source_kind f \<and> rv_token_position v = rq_token_position f \<and>
     rv_flags v = rq_flags f \<and> rv_seq v = rq_seq f \<and>
     collect_results (view_row v) [0..<rv_rows v] = Ok (rq_rows f) \<and>
     collect_results (view_route v) [0..<rv_routes v] = Ok (rq_routes f) \<and>
     view_hidden v = Ok (concat (map hidden_row_wire (rq_hidden_rows f))) \<and>
     length (rq_hidden_rows f) = rv_rows v \<and>
     (\<forall>h \<in> set (rq_hidden_rows f). length (hr_payload h) = HIDDEN \<and>
        length (hidden_row_wire h) = rv_row_stride v)"

lemma view_rows_checked:
  assumes "\<forall>i < rv_rows v. view_row_ok v i = Ok ()" "\<forall>j < rv_routes v. view_route_ok v j = Ok ()"
  shows "\<exists>rs es. collect_results (view_row v) [0..<rv_rows v] = Ok rs \<and>
    collect_results (view_route v) [0..<rv_routes v] = Ok es \<and> validate_rows_routes rs es = Ok ()"
proof -
  obtain rs where rs: "collect_results (view_row v) [0..<rv_rows v] = Ok rs"
    using assms(1) collect_results_exists [of "[0..<rv_rows v]" "view_row v"]
    by (auto simp: view_row_ok_def outcome_simps)
  obtain es where es: "collect_results (view_route v) [0..<rv_routes v] = Ok es"
    using assms(2) collect_results_exists [of "[0..<rv_routes v]" "view_route v"]
    by (auto simp: view_route_ok_def outcome_simps)
  have l: "length rs = rv_rows v" "length es = rv_routes v"
    using collect_results_length [OF rs] collect_results_length [OF es] by simp_all
  have "validate_rows_routes rs es = Ok ()"
    unfolding validate_rows_routes_Ok l
  proof (intro conjI allI impI)
    fix i assume i: "i < rv_rows v"
    have "view_row v i = Ok (rs ! i)" using collect_results_nth [OF rs, of i] i by simp
    then show "unat (rd_route_offset (rs ! i)) + unat (rd_route_count (rs ! i)) \<le> rv_routes v"
      using assms(1) i by (auto simp: view_row_ok_def split: if_splits)
  next
    fix j assume j: "j < rv_routes v"
    have "view_route v j = Ok (es ! j)" using collect_results_nth [OF es, of j] j by simp
    then show "unat (re_row_index (es ! j)) < rv_rows v"
      using assms(2) j by (auto simp: view_route_ok_def split: if_splits)
  qed
  with rs es show ?thesis by blast
qed

lemma rows_checked_view:
  assumes "collect_results (view_row v) [0..<rv_rows v] = Ok rs"
    "collect_results (view_route v) [0..<rv_routes v] = Ok es" "validate_rows_routes rs es = Ok ()"
  shows "\<forall>i < rv_rows v. view_row_ok v i = Ok ()" "\<forall>j < rv_routes v. view_route_ok v j = Ok ()"
proof -
  have l: "length rs = rv_rows v" "length es = rv_routes v"
    using collect_results_length [OF assms(1)] collect_results_length [OF assms(2)] by simp_all
  have n: "view_row v i = Ok (rs ! i)" if "i < rv_rows v" for i
    using collect_results_nth [OF assms(1), of i] that by simp
  have m: "view_route v j = Ok (es ! j)" if "j < rv_routes v" for j
    using collect_results_nth [OF assms(2), of j] that by simp
  show "\<forall>i < rv_rows v. view_row_ok v i = Ok ()" "\<forall>j < rv_routes v. view_route_ok v j = Ok ()"
    using assms(3) n m by (auto simp: validate_rows_routes_Ok l view_row_ok_def view_route_ok_def not_le not_less)
qed

lemma view_of_header:
  assumes g: "request_geometry h bytes naive"
    and c: "\<forall>i < rv_rows v. view_row_ok v i = Ok ()" "\<forall>j < rv_routes v. view_route_ok v j = Ok ()"
    and v: "v = header_view h bytes naive"
  shows "\<exists>f. decode_request h bytes naive = Ok f \<and> view_shows v f"
proof -
  let ?rows = "unat (hf_row_count h)" and ?routes = "unat (hf_route_count h)"
  let ?stride = "unat (hf_row_stride_bytes h)" and ?body = "drop 128 bytes"
  have vf: "rv_rows v = ?rows" "rv_routes v = ?routes" "rv_row_stride v = ?stride" "rv_body v = ?body"
    "rv_hidden_base v = ?rows * 40 + ?routes * 12"
    "view_row v = (\<lambda>i. row_descriptor_from_wire ?body (i * 40) naive)"
    "view_route v = (\<lambda>j. route_entry_from_wire ?body (?rows * 40 + j * 12) naive)"
    by (simp_all add: v header_view_def view_row_def [abs_def] view_route_def [abs_def] layout_simps)
  obtain rs es where rs: "collect_results (view_row v) [0..<rv_rows v] = Ok rs"
    and es: "collect_results (view_route v) [0..<rv_routes v] = Ok es"
    and val: "validate_rows_routes rs es = Ok ()"
    using view_rows_checked [OF c] by blast
  have geo: "hf_row_count h \<noteq> 0" "HIDDEN \<le> ?stride" "?rows * ?stride < 2 ^ 64"
    "length ?body = usize_add (usize_add (?rows * 40) (?routes * 12)) (?rows * ?stride)"
    using g by (simp_all add: request_geometry_def Let_def)
  have "0 < ?rows" using geo(1) by (simp add: unat_gt_0)
  then have "?rows * 40 + ?routes * 12 \<le> length ?body"
    by (rule sections_fit [OF rs [unfolded vf] es [unfolded vf]])
  with geo(3,4) have len: "length ?body = ?rows * 40 + ?routes * 12 + ?rows * ?stride"
    using unwrapped_body_len by metis
  obtain hs where hs: "collect_results (\<lambda>i. hidden_row_at ?body (?rows * 40 + ?routes * 12 + i * ?stride) ?stride) [0..<?rows] = Ok hs"
    "length hs = ?rows" "\<forall>h \<in> set hs. length (hr_payload h) = HIDDEN \<and> length (hidden_row_wire h) = ?stride"
    "concat (map hidden_row_wire hs) = drop (?rows * 40 + ?routes * 12) ?body"
    using hidden_rows_collect [OF len geo(2)] by blast
  define f where "f = \<lparr>rq_request_id = hf_request_id h, rq_placement_version = hf_placement_version h,
            rq_layer_id = hf_layer_id h, rq_executor_id = hf_executor_id h,
            rq_source_kind = hf_source_kind h, rq_token_position = hf_token_position h,
            rq_flags = hf_flags h, rq_seq = hf_seq h, rq_rows = rs, rq_routes = es,
            rq_hidden_rows = hs\<rparr>"
  have "decode_request h bytes naive = Ok f"
    using g rs es val hs unfolding decode_request_Ok vf by (simp add: f_def Let_def)
  moreover have "view_hidden v = Ok (concat (map hidden_row_wire hs))"
    unfolding view_hidden_def vf subslice_def hs(4) using len by simp
  moreover have "rv_request_id v = hf_request_id h \<and> rv_placement_version v = hf_placement_version h \<and>
     rv_layer_id v = hf_layer_id h \<and> rv_executor_id v = hf_executor_id h \<and>
     rv_source_kind v = hf_source_kind h \<and> rv_token_position v = hf_token_position h \<and>
     rv_flags v = hf_flags h \<and> rv_seq v = hf_seq h"
    by (simp add: v header_view_def)
  ultimately have "decode_request h bytes naive = Ok f \<and> view_shows v f"
    using rs es hs by (simp add: view_shows_def f_def vf)
  then show ?thesis by blast
qed

text \<open>C36: The zero-copy view accepts exactly the byte strings the decoder accepts as requests,
  and shows the same header fields, row descriptors, routes and hidden rows.\<close>

theorem request_view_agrees:
  "case request_view_parse env bytes naive of
     Ok v \<Rightarrow> \<exists>f. decode_frame env bytes naive = Ok (FRequest f) \<and> view_shows v f
   | _ \<Rightarrow> \<forall>f. decode_frame env bytes naive \<noteq> Ok (FRequest f)"
proof -
  have "\<exists>v. request_view_parse env bytes naive = Ok v" if d: "decode_frame env bytes naive = Ok (FRequest f)" for f
  proof -
    obtain h where h: "parse_header bytes naive = Ok h" "verify_crc env bytes naive (hf_seq h) = Ok ()"
      "hf_kind h = KIND_REQUEST" "decode_request h bytes naive = Ok f"
      using d by (auto simp: decode_frame_def outcome_simps split: if_splits)
    let ?v = "header_view h bytes naive"
    have "collect_results (view_row ?v) [0..<rv_rows ?v] = Ok (rq_rows f)"
      "collect_results (view_route ?v) [0..<rv_routes ?v] = Ok (rq_routes f)"
      "validate_rows_routes (rq_rows f) (rq_routes f) = Ok ()"
      using h(4) by (simp_all add: decode_request_Ok Let_def header_view_def view_row_def [abs_def]
          view_route_def [abs_def] layout_simps)
    note c = rows_checked_view [OF this]
    have g: "request_geometry h bytes naive" using h(4) by (simp add: decode_request_Ok)
    show ?thesis
      unfolding request_view_parse_Ok using h(1-3) g c by blast
  qed
  moreover have "\<exists>f. decode_frame env bytes naive = Ok (FRequest f) \<and> view_shows v f"
    if "request_view_parse env bytes naive = Ok v" for v
  proof -
    from that obtain h where h: "parse_header bytes naive = Ok h" "verify_crc env bytes naive (hf_seq h) = Ok ()"
      "hf_kind h = KIND_REQUEST" and g: "request_geometry h bytes naive" and v: "v = header_view h bytes naive"
      and c: "\<forall>i < rv_rows v. view_row_ok v i = Ok ()" "\<forall>j < rv_routes v. view_route_ok v j = Ok ()"
      unfolding request_view_parse_Ok by blast
    obtain f where "decode_request h bytes naive = Ok f" "view_shows v f"
      using view_of_header [OF g c v] by blast
    then show ?thesis using h by (simp add: decode_frame_def)
  qed
  ultimately show ?thesis by (fastforce split: outcome.split)
qed
end
