(* ===== verification/FrameInto.thy ===== *)
theory FrameInto
  imports FrameView
begin

text \<open>
  \<open>encode_request_meta_into\<close> and \<open>encode_request_desc_into\<close> of
  \<open>crates/mimo26-wire/src/frame.rs\<close>: a request's metadata written into a caller's buffer, and
  the proof that the frame completed there is the one the copying encoder builds.
\<close>

subsection \<open>Metadata written into a caller's buffer\<close>

definition decode_row_descriptor :: "u64 \<Rightarrow> nat \<Rightarrow> nat \<Rightarrow> row_descriptor" where
  "decode_row_descriptor request_id topk t =
     \<lparr>rd_row_id = of_nat t, rd_source_kind = SkDecode, rd_source_request_id = request_id,
      rd_token_position = of_nat t, rd_route_offset = of_nat (t * topk), rd_route_count = of_nat topk\<rparr>"

definition decode_header :: "u64 \<Rightarrow> u32 \<Rightarrow> u64 \<Rightarrow> u64 \<Rightarrow> u32 \<Rightarrow> u32 \<Rightarrow> u32 \<Rightarrow> u32 \<Rightarrow> nat \<Rightarrow> nat \<Rightarrow> nat \<Rightarrow> u32
    \<Rightarrow> wire_naive \<Rightarrow> header_fields" where
  "decode_header request_id layer_id executor_id seq row_count route_count row_descriptor_bytes
       route_bytes payload_bytes logical_bytes body_len row_stride_bytes naive =
     \<lparr>hf_kind = KIND_REQUEST, hf_request_id = request_id, hf_placement_version = 1,
      hf_layer_id = layer_id, hf_row_count = row_count, hf_dim = of_nat HIDDEN,
      hf_dtype = request_dtype naive, hf_source_kind = SkDecode, hf_route_count = route_count,
      hf_row_descriptor_bytes = row_descriptor_bytes, hf_route_bytes = route_bytes,
      hf_payload_bytes = of_nat payload_bytes, hf_logical_payload_bytes = of_nat logical_bytes,
      hf_wire_bytes = of_nat (usize_add HEADER_LEN body_len), hf_flags = 0,
      hf_row_stride_bytes = row_stride_bytes, hf_status = StatusOk, hf_executor_id = executor_id,
      hf_token_position = 0, hf_seq = seq\<rparr>"

definition meta_route :: "(u32 \<times> f32) list \<Rightarrow> nat \<Rightarrow> nat \<Rightarrow> nat \<Rightarrow> route_entry wire_result" where
  "meta_route routes topk t k =
     obind (index_at routes (t * topk + k)) (\<lambda>(expert_id, gate_weight).
       Ok \<lparr>re_row_index = of_nat t, re_expert_id = expert_id, re_gate_weight = gate_weight\<rparr>)"

text \<open>One pass of the outer loop: the descriptor of row \<open>t\<close>, then its \<open>topk\<close> routes. The state is
  the buffer with the lists of what was written.\<close>

definition meta_row ::
    "u64 \<Rightarrow> (u32 \<times> f32) list \<Rightarrow> nat \<Rightarrow> nat \<Rightarrow> wire_naive \<Rightarrow>
     u8 list \<times> row_descriptor list \<times> route_entry list \<Rightarrow> nat \<Rightarrow>
     (u8 list \<times> row_descriptor list \<times> route_entry list) wire_result" where
  "meta_row request_id routes topk row_descriptor_bytes naive = (\<lambda>(body, row_list, route_list) t.
     let row = decode_row_descriptor request_id topk t in
     obind (write_at (t * ROW_DESCRIPTOR_LEN) (row_descriptor_wire row naive) body) (\<lambda>body.
     fold_results (\<lambda>(body, row_list, route_list) k.
       obind (meta_route routes topk t k) (\<lambda>r.
       obind (write_at (row_descriptor_bytes + (t * topk + k) * ROUTE_ENTRY_LEN)
                (route_entry_wire r naive) body) (\<lambda>body.
         Ok (body, row_list, route_list @ [r]))))
       (body, row_list @ [row], route_list) [0..<topk]))"

text \<open>
  The buffer is returned next to the result, since it stays written when a later check fails.
  (A panic leaves the buffer to unwinding; the model then returns it as it was given.)
\<close>

definition encode_request_meta_into ::
    "u8 list \<Rightarrow> u64 \<Rightarrow> u32 \<Rightarrow> u64 \<Rightarrow> u64 \<Rightarrow> (u32 \<times> f32) list \<Rightarrow> nat \<Rightarrow> wire_naive \<Rightarrow>
     u8 list \<times> (u8 list \<times> nat \<times> nat) wire_result" where
  "encode_request_meta_into body request_id layer_id executor_id seq routes topk naive =
     (if topk = 0 \<or> routes = [] \<or> length routes mod topk \<noteq> 0
      then (body, Err (DimMismatch ''routes'' topk (length routes)))
      else
      let rows = length routes div topk; hidden_row = hidden_row_bytes naive;
          row_bytes = request_row_bytes naive;
          sizes = obind (checked_mul rows ROW_DESCRIPTOR_LEN ''row_descriptor_bytes'') (\<lambda>a.
                  obind (checked_mul (length routes) ROUTE_ENTRY_LEN ''route_bytes'') (\<lambda>b.
                  obind (checked_mul rows hidden_row ''payload_bytes'') (\<lambda>c.
                  obind (checked_mul rows row_bytes ''logical_payload_bytes'') (\<lambda>d.
                    Ok (a, b, c, d))))) in
      case sizes of Err e \<Rightarrow> (body, Err e) | Panic \<Rightarrow> (body, Panic)
      | Ok (row_descriptor_bytes, route_bytes, payload_bytes, logical_bytes) \<Rightarrow>
      let body_len = usize_add (usize_add row_descriptor_bytes route_bytes) payload_bytes in
      if length body < body_len then (body, Err (TooShort body_len (length body)))
      else
      (case fold_results (meta_row request_id routes topk row_descriptor_bytes naive)
              (body, [], []) [0..<rows] of
         Err e \<Rightarrow> (body, Err e) | Panic \<Rightarrow> (body, Panic)
       | Ok (body', row_list, route_list) \<Rightarrow>
         (body',
          obind (validate_rows_routes row_list route_list) (\<lambda>_.
          obind (as_u32 rows ''row_count'') (\<lambda>row_count.
          obind (as_u32 (length routes) ''route_count'') (\<lambda>route_count.
          obind (as_u32 row_descriptor_bytes ''row_descriptor_bytes'') (\<lambda>rd32.
          obind (as_u32 route_bytes ''route_bytes'') (\<lambda>rt32.
          obind (as_u32 hidden_row ''row_stride_bytes'') (\<lambda>stride32.
            Ok (write_header (decode_header request_id layer_id executor_id seq row_count route_count
                  rd32 rt32 payload_bytes logical_bytes body_len stride32 naive) naive,
                row_descriptor_bytes + route_bytes, body_len))))))))))"

definition desc_row :: "u64 \<Rightarrow> nat \<Rightarrow> wire_naive \<Rightarrow> u8 list \<Rightarrow> nat \<Rightarrow> u8 list wire_result" where
  "desc_row request_id topk naive body t =
     write_at (t * ROW_DESCRIPTOR_LEN)
       (row_descriptor_wire (decode_row_descriptor request_id topk t) naive) body"

definition encode_request_desc_into ::
    "u8 list \<Rightarrow> u64 \<Rightarrow> u32 \<Rightarrow> u64 \<Rightarrow> u64 \<Rightarrow> nat \<Rightarrow> nat \<Rightarrow> wire_naive \<Rightarrow>
     u8 list \<times> (u8 list \<times> nat \<times> nat \<times> nat) wire_result" where
  "encode_request_desc_into body request_id layer_id executor_id seq rows topk naive =
     (if rows = 0 \<or> topk = 0 \<or> topk > TOPK
      then (body, Err (DimMismatch ''rows/topk'' TOPK topk))
      else
      let hidden_row = hidden_row_bytes naive; row_bytes = request_row_bytes naive;
          sizes = obind (checked_mul rows topk ''route_count'') (\<lambda>r.
                  obind (checked_mul rows ROW_DESCRIPTOR_LEN ''row_descriptor_bytes'') (\<lambda>a.
                  obind (checked_mul r ROUTE_ENTRY_LEN ''route_bytes'') (\<lambda>b.
                  obind (checked_mul rows hidden_row ''payload_bytes'') (\<lambda>c.
                  obind (checked_mul rows row_bytes ''logical_payload_bytes'') (\<lambda>d.
                    Ok (r, a, b, c, d)))))) in
      case sizes of Err e \<Rightarrow> (body, Err e) | Panic \<Rightarrow> (body, Panic)
      | Ok (routes, row_descriptor_bytes, route_bytes, payload_bytes, logical_bytes) \<Rightarrow>
      let body_len = usize_add (usize_add row_descriptor_bytes route_bytes) payload_bytes in
      if length body < body_len then (body, Err (TooShort body_len (length body)))
      else
      (case fold_results (desc_row request_id topk naive) body [0..<rows] of
         Err e \<Rightarrow> (body, Err e) | Panic \<Rightarrow> (body, Panic)
       | Ok body' \<Rightarrow>
         (body',
          obind (as_u32 rows ''row_count'') (\<lambda>row_count.
          obind (as_u32 routes ''route_count'') (\<lambda>route_count.
          obind (as_u32 row_descriptor_bytes ''row_descriptor_bytes'') (\<lambda>rd32.
          obind (as_u32 route_bytes ''route_bytes'') (\<lambda>rt32.
          obind (as_u32 hidden_row ''row_stride_bytes'') (\<lambda>stride32.
            Ok (write_header (decode_header request_id layer_id executor_id seq row_count route_count
                  rd32 rt32 payload_bytes logical_bytes body_len stride32 naive) naive,
                row_descriptor_bytes, row_descriptor_bytes + route_bytes, body_len)))))))))"

subsection \<open>Filling the buffer\<close>

definition filled_body :: "u8 list \<Rightarrow> u8 list \<Rightarrow> u8 list list \<Rightarrow> u8 list list \<Rightarrow> u8 list" where
  "filled_body A B rows routes =
     concat rows @ drop (40 * length rows) A @ concat routes @ drop (12 * length routes) B"

lemma write_at_append:
  assumes "n = length P" "length v \<le> length Q"
  shows "write_at n v (P @ Q) = Ok (P @ v @ drop (length v) Q)"
  using assms by (simp add: write_at_def)

lemma length_concat_const: "\<forall>x \<in> set xs. length x = n \<Longrightarrow> length (concat xs) = n * length xs"
  by (induction xs) auto

lemma write_row:
  assumes "\<forall>x \<in> set rows. length x = 40" "length w = 40" "40 * length rows + 40 \<le> length A"
  shows "write_at (length rows * 40) w (filled_body A B rows routes) = Ok (filled_body A B (rows @ [w]) routes)"
proof -
  have "write_at (length rows * 40) w (filled_body A B rows routes) =
    Ok (concat rows @ w @ drop (length w) (drop (40 * length rows) A @ concat routes @ drop (12 * length routes) B))"
    unfolding filled_body_def
    by (rule write_at_append) (use assms length_concat_const [OF assms(1)] in simp_all)
  also have "drop (length w) (drop (40 * length rows) A @ R) = drop (40 * length (rows @ [w])) A @ R" for R
    using assms by (simp add: add.commute)
  finally show ?thesis by (simp add: filled_body_def)
qed

lemma write_route:
  assumes "\<forall>x \<in> set rows. length x = 40" "\<forall>x \<in> set routes. length x = 12" "length w = 12"
    "40 * length rows \<le> length A" "12 * length routes + 12 \<le> length B"
  shows "write_at (length A + length routes * 12) w (filled_body A B rows routes)
    = Ok (filled_body A B rows (routes @ [w]))"
proof -
  have "write_at (length A + length routes * 12) w
      ((concat rows @ drop (40 * length rows) A @ concat routes) @ drop (12 * length routes) B) =
    Ok ((concat rows @ drop (40 * length rows) A @ concat routes) @ w @ drop (length w) (drop (12 * length routes) B))"
    by (rule write_at_append)
      (use assms length_concat_const [OF assms(1)] length_concat_const [OF assms(2)] in simp_all)
  then show ?thesis using assms(3) by (simp add: filled_body_def add.commute)
qed

definition meta_entry :: "(u32 \<times> f32) list \<Rightarrow> nat \<Rightarrow> nat \<Rightarrow> nat \<Rightarrow> route_entry" where
  "meta_entry routes topk t k =
     \<lparr>re_row_index = of_nat t, re_expert_id = fst (routes ! (t * topk + k)),
      re_gate_weight = snd (routes ! (t * topk + k))\<rparr>"

definition meta_entries :: "(u32 \<times> f32) list \<Rightarrow> nat \<Rightarrow> nat \<Rightarrow> route_entry list" where
  "meta_entries routes topk rows = concat (map (\<lambda>t. map (meta_entry routes topk t) [0..<topk]) [0..<rows])"

lemma length_meta_entries: "length (meta_entries routes topk rows) = rows * topk"
  by (simp add: meta_entries_def length_concat comp_def sum_list_triv)

lemma meta_inner:
  fixes rws :: "u8 list list"
  assumes "\<forall>x \<in> set rows. length x = 40" "\<forall>x \<in> set rws. length x = 12" "40 * length rows \<le> length A"
    "length rws = t * topk" "(t * topk + n) * 12 \<le> length B" "t * topk + n \<le> length routes"
  shows "fold_results (\<lambda>(body, row_list, route_list) k.
       obind (meta_route routes topk t k) (\<lambda>r.
       obind (write_at (length A + (t * topk + k) * 12) (route_entry_wire r naive) body) (\<lambda>body.
         Ok (body, row_list, route_list @ [r]))))
       (filled_body A B rows rws, rl, es) [0..<n]
    = (Ok (filled_body A B rows (rws @ map (\<lambda>k. route_entry_wire (meta_entry routes topk t k) naive) [0..<n]),
           rl, es @ map (meta_entry routes topk t) [0..<n]) :: (u8 list \<times> 'r \<times> route_entry list) wire_result)"
  using assms(5,6)
proof (induction n)
  case 0
  then show ?case by simp
next
  case (Suc n)
  let ?rws = "rws @ map (\<lambda>k. route_entry_wire (meta_entry routes topk t k) naive) [0..<n]"
  let ?w = "route_entry_wire (meta_entry routes topk t n) naive"
  have r: "meta_route routes topk t n = Ok (meta_entry routes topk t n)"
    using Suc.prems by (auto simp: meta_route_def index_at_def meta_entry_def split: prod.splits)
  have l: "length ?rws = t * topk + n" using assms(4) by simp
  have "write_at (length A + length ?rws * 12) ?w (filled_body A B rows ?rws) = Ok (filled_body A B rows (?rws @ [?w]))"
    by (rule write_route) (use assms(1-4) Suc.prems in auto)
  then have w: "write_at (length A + (t * topk + n) * 12) ?w (filled_body A B rows ?rws) = Ok (filled_body A B rows (?rws @ [?w]))"
    by (simp only: l)
  have "(t * topk + n) * 12 \<le> length B" "t * topk + n \<le> length routes" using Suc.prems by simp_all
  note IH = Suc.IH [OF this]
  show ?case
    by (simp only: upt_Suc_append [OF le0] fold_results_append IH obind.simps fold_results.simps prod.case r w
        map_append list.map append_assoc)
qed

lemma concat_map_snoc: "concat (map f [0..<Suc n]) = concat (map f [0..<n]) @ f n"
  by simp

lemma meta_outer:
  assumes "length A = rows * 40" "rows * topk * 12 \<le> length B" "rows * topk \<le> length routes" "n \<le> rows"
  shows "fold_results (meta_row request_id routes topk (length A) naive) (filled_body A B [] [], [], []) [0..<n]
    = Ok (filled_body A B (map (\<lambda>t. row_descriptor_wire (decode_row_descriptor request_id topk t) naive) [0..<n])
            (map (\<lambda>r. route_entry_wire r naive) (meta_entries routes topk n)),
          map (decode_row_descriptor request_id topk) [0..<n], meta_entries routes topk n)"
  using assms(4)
proof (induction n)
  case 0
  then show ?case by (simp add: meta_entries_def)
next
  case (Suc n)
  let ?rows = "map (\<lambda>t. row_descriptor_wire (decode_row_descriptor request_id topk t) naive) [0..<n]"
  let ?es = "meta_entries routes topk n"
  let ?rws = "map (\<lambda>r. route_entry_wire r naive) ?es"
  let ?w = "row_descriptor_wire (decode_row_descriptor request_id topk n) naive"
  have IH: "fold_results (meta_row request_id routes topk (length A) naive) (filled_body A B [] [], [], []) [0..<n]
     = Ok (filled_body A B ?rows ?rws, map (decode_row_descriptor request_id topk) [0..<n], ?es)"
    using Suc by simp
  have le: "Suc n * topk \<le> rows * topk" using Suc.prems by (rule mult_le_mono1)
  then have le12: "n * topk + topk \<le> rows * topk" "(n * topk + topk) * 12 \<le> rows * topk * 12" by simp_all
  have "write_at (length ?rows * 40) ?w (filled_body A B ?rows ?rws) = Ok (filled_body A B (?rows @ [?w]) ?rws)"
    by (rule write_row) (use Suc.prems assms(1) in auto)
  then have w: "write_at (n * 40) ?w (filled_body A B ?rows ?rws) = Ok (filled_body A B (?rows @ [?w]) ?rws)"
    by simp
  have inner: "fold_results (\<lambda>(body, row_list, route_list) k.
       obind (meta_route routes topk n k) (\<lambda>r.
       obind (write_at (length A + (n * topk + k) * 12) (route_entry_wire r naive) body) (\<lambda>body.
         Ok (body, row_list, route_list @ [r]))))
       (filled_body A B (?rows @ [?w]) ?rws,
        map (decode_row_descriptor request_id topk) [0..<n] @ [decode_row_descriptor request_id topk n], ?es) [0..<topk]
    = (Ok (filled_body A B (?rows @ [?w])
            (?rws @ map (\<lambda>k. route_entry_wire (meta_entry routes topk n k) naive) [0..<topk]),
        map (decode_row_descriptor request_id topk) [0..<n] @ [decode_row_descriptor request_id topk n],
        ?es @ map (meta_entry routes topk n) [0..<topk])
      :: (u8 list \<times> row_descriptor list \<times> route_entry list) wire_result)"
    by (rule meta_inner)
      (use Suc.prems assms le12 in \<open>auto simp: length_meta_entries\<close>)
  have e: "meta_entries routes topk (Suc n) = ?es @ map (meta_entry routes topk n) [0..<topk]"
    by (simp only: meta_entries_def concat_map_snoc)
  have step: "meta_row request_id routes topk (length A) naive
      (filled_body A B ?rows ?rws, map (decode_row_descriptor request_id topk) [0..<n], ?es) n
    = Ok (filled_body A B (?rows @ [?w])
            (?rws @ map (\<lambda>k. route_entry_wire (meta_entry routes topk n k) naive) [0..<topk]),
        map (decode_row_descriptor request_id topk) [0..<n] @ [decode_row_descriptor request_id topk n],
        ?es @ map (meta_entry routes topk n) [0..<topk])"
    by (simp only: meta_row_def prod.case Let_def layout_simps w obind.simps inner)
  show ?case
    by (simp only: upt_Suc_append [OF le0] fold_results_append IH obind.simps fold_results.simps step)
      (simp add: e comp_def)
qed

subsection \<open>The frame that is completed\<close>

text \<open>The request frame the in-place encoders stand for.\<close>

definition decode_frame_of :: "u64 \<Rightarrow> u32 \<Rightarrow> u64 \<Rightarrow> nat \<Rightarrow> nat \<Rightarrow> route_entry list \<Rightarrow> hidden_row list \<Rightarrow> request_frame" where
  "decode_frame_of request_id layer_id executor_id rows topk es hs =
     \<lparr>rq_request_id = request_id, rq_placement_version = 1, rq_layer_id = layer_id,
      rq_executor_id = executor_id, rq_source_kind = SkDecode, rq_token_position = 0, rq_flags = 0,
      rq_seq = 0, rq_rows = map (decode_row_descriptor request_id topk) [0..<rows], rq_routes = es,
      rq_hidden_rows = hs\<rparr>"

definition hidden_rows_sized :: "wire_naive \<Rightarrow> nat \<Rightarrow> hidden_row list \<Rightarrow> bool" where
  "hidden_rows_sized naive rows hs \<longleftrightarrow> length hs = rows \<and>
     (\<forall>h \<in> set hs. length (hr_payload h) = HIDDEN \<and> length (hr_scales h) = hidden_row_bytes naive - HIDDEN)"

lemma decode_header_is_request_header:
  assumes "rows * 40 < 2 ^ 32" "routes * 12 < 2 ^ 32" "length es = routes"
  shows "decode_header request_id layer_id executor_id seq (of_nat rows) (of_nat routes)
      (of_nat (rows * 40)) (of_nat (routes * 12)) (rows * hidden_row_bytes naive) (rows * request_row_bytes naive)
      (usize_add (usize_add (rows * 40) (routes * 12)) (rows * hidden_row_bytes naive))
      (of_nat (hidden_row_bytes naive)) naive
    = request_header (decode_frame_of request_id layer_id executor_id rows topk es hs) seq naive"
proof -
  note b = rows_bounds(5-6) [OF assms(1,2), of naive]
  have "usize_add 128 (rows * 40 + routes * 12 + rows * hidden_row_bytes naive)
      = 128 + (rows * 40 + routes * 12 + rows * hidden_row_bytes naive)"
    by (rule usize_add_no_wrap) (use b(2) in simp)
  with b(1) assms(3) show ?thesis
    by (simp add: decode_header_def request_header_def decode_frame_of_def Let_def layout_simps
        del: of_nat_add of_nat_mult)
qed

lemma take_put_back:
  assumes "off = length M" "off + length H \<le> length M + length R"
  shows "take (off + length H) (put_bytes off H (M @ R)) = M @ H"
  using assms by (simp add: put_bytes_def)

lemma length_hidden_rows:
  "hidden_rows_sized naive rows hs \<Longrightarrow> length (concat (map hidden_row_wire hs)) = rows * hidden_row_bytes naive"
proof -
  assume s: "hidden_rows_sized naive rows hs"
  then have "length (concat (map hidden_row_wire hs)) = length hs * hidden_row_bytes naive"
    using hidden_row_bytes_ge [of naive]
    by (intro length_concat_uniform) (simp add: hidden_rows_sized_def hidden_row_wire_def)
  with s show ?thesis by (simp add: hidden_rows_sized_def)
qed

lemma meta_into_Ok:
  assumes "encode_request_meta_into body request_id layer_id executor_id seq routes topk naive
      = (body', Ok (header, off, body_len))"
    and rows: "rows = length routes div topk"
    and len: "len = usize_add (usize_add (rows * 40) (length routes * 12)) (rows * hidden_row_bytes naive)"
  obtains rl es where "topk \<noteq> 0" "routes \<noteq> []" "length routes mod topk = 0"
    "fold_results (meta_row request_id routes topk (rows * 40) naive) (body, [], []) [0..<rows]
      = Ok (body', rl, es)"
    "validate_rows_routes rl es = Ok ()"
    "rows * 40 < 2 ^ 32" "length routes * 12 < 2 ^ 32" "len \<le> length body"
    "header = write_header (decode_header request_id layer_id executor_id seq (of_nat rows)
      (of_nat (length routes)) (of_nat (rows * 40)) (of_nat (length routes * 12))
      (rows * hidden_row_bytes naive) (rows * request_row_bytes naive) len
      (of_nat (hidden_row_bytes naive)) naive) naive"
    "off = rows * 40 + length routes * 12" "body_len = len"
proof -
  have ok: "topk \<noteq> 0" "routes \<noteq> []" "length routes mod topk = 0"
    using assms(1) by (auto simp: encode_request_meta_into_def split: if_splits)
  then have cond: "(topk = 0 \<or> routes = [] \<or> length routes mod topk \<noteq> 0) = False" by simp
  note u = assms(1) [unfolded encode_request_meta_into_def cond if_False Let_def layout_simps, folded rows]
  have m: "checked_mul rows 40 s = Ok (rows * 40)" "checked_mul (length routes) 12 s = Ok (length routes * 12)"
    "checked_mul rows (hidden_row_bytes naive) s = Ok (rows * hidden_row_bytes naive)"
    "checked_mul rows (request_row_bytes naive) s = Ok (rows * request_row_bytes naive)" for s
    using u by (simp_all add: checked_mul_def split: if_splits)
  show thesis
  proof (cases "fold_results (meta_row request_id routes topk (rows * 40) naive) (body, [], []) [0..<rows]")
    case (Ok x)
    obtain b rl es where x: "x = (b, rl, es)" by (cases x)
    show ?thesis
      using u unfolding m obind.simps outcome.case prod.case Ok x len [symmetric]
      by (intro that [OF ok, of rl es]) (auto simp: Ok x outcome_simps as_u32_eq_Ok not_less simp del: of_nat_mult split: if_splits)
  qed (use u in \<open>auto simp: m split: if_splits\<close>)
qed
lemma meta_into_completes:
  assumes "encode_request_meta_into body request_id layer_id executor_id seq routes topk naive
      = (body', Ok (header, off, body_len))"
    and "hidden_rows_sized naive (length routes div topk) hs"
  shows "encode_request_seq env (decode_frame_of request_id layer_id executor_id (length routes div topk) topk
        (meta_entries routes topk (length routes div topk)) hs) seq naive
    = seal_in_place env (header @ take body_len (put_bytes off (concat (map hidden_row_wire hs)) body')) naive"
proof -
  define rows where "rows = length routes div topk"
  let ?es = "meta_entries routes topk rows"
  let ?f = "decode_frame_of request_id layer_id executor_id rows topk ?es hs"
  let ?H = "concat (map hidden_row_wire hs)"
  let ?len = "usize_add (usize_add (rows * 40) (length routes * 12)) (rows * hidden_row_bytes naive)"
  obtain rl es where ok: "topk \<noteq> 0" "routes \<noteq> []" "length routes mod topk = 0" and
    loop: "fold_results (meta_row request_id routes topk (rows * 40) naive) (body, [], []) [0..<rows]
      = Ok (body', rl, es)" and
    val: "validate_rows_routes rl es = Ok ()" and
    b: "rows * 40 < 2 ^ 32" "length routes * 12 < 2 ^ 32" and
    blen: "?len \<le> length body" and
    hdr: "header = write_header (decode_header request_id layer_id executor_id seq (of_nat rows)
      (of_nat (length routes)) (of_nat (rows * 40)) (of_nat (length routes * 12))
      (rows * hidden_row_bytes naive) (rows * request_row_bytes naive) ?len
      (of_nat (hidden_row_bytes naive)) naive) naive" and
    off: "off = rows * 40 + length routes * 12" and bl: "body_len = ?len"
    using meta_into_Ok [OF assms(1) rows_def refl] by metis
  have n: "length routes = rows * topk" using ok by (auto simp: rows_def)
  have rp: "rows \<noteq> 0" using n ok(2) by (metis length_0_conv mult_0)
  have l: "?len = rows * 40 + length routes * 12 + rows * hidden_row_bytes naive"
    by (rule rows_bounds(5) [OF b])
  define A where "A = take (rows * 40) body"
  define B where "B = drop (rows * 40) body"
  have A: "length A = rows * 40" and B: "rows * topk * 12 \<le> length B"
    using blen [unfolded l] unfolding n A_def B_def by simp_all
  have "filled_body A B [] [] = body" by (simp add: filled_body_def A_def B_def)
  moreover have "rows * topk \<le> length routes" using n by simp
  ultimately have "body' = filled_body A B
      (map (\<lambda>t. row_descriptor_wire (decode_row_descriptor request_id topk t) naive) [0..<rows])
      (map (\<lambda>r. route_entry_wire r naive) ?es)"
    and rl: "rl = map (decode_row_descriptor request_id topk) [0..<rows]" and es: "es = ?es"
    using loop meta_outer [OF A B _ order_refl, of routes request_id naive] by (simp_all add: A)
  then have body': "body' = (concat (map (\<lambda>row. row_descriptor_wire row naive) (rq_rows ?f))
      @ concat (map (\<lambda>r. route_entry_wire r naive) (rq_routes ?f))) @ drop (12 * length ?es) B" (is "_ = ?M @ ?R")
    by (simp add: filled_body_def decode_frame_of_def A comp_def)
  have s: "request_sendable ?f naive"
    using val rl es rp ok(1) assms(2) b
    by (simp add: request_sendable_def decode_frame_of_def hidden_rows_sized_def length_meta_entries n
        flip: rows_def)
  have M: "length ?M = rows * 40 + length routes * 12"
    using body_sections [OF s] by (simp only: length_append) (simp add: decode_frame_of_def length_meta_entries n)
  have H: "length ?H = rows * hidden_row_bytes naive"
    using length_hidden_rows assms(2) by (simp add: rows_def)
  have R: "length ?R = length body - (rows * 40 + length routes * 12)"
    by (simp add: B_def length_meta_entries n)
  have "take (off + length ?H) (put_bytes off ?H (?M @ ?R)) = ?M @ ?H"
  proof (rule take_put_back)
    show "off = length ?M" by (simp only: M off)
    have "off + length ?H \<le> length body" using blen by (simp only: l off H)
    then show "off + length ?H \<le> length ?M + length ?R" by (simp only: M R off)
  qed
  then have "take body_len (put_bytes off ?H body') = request_body ?f naive"
    by (simp only: body' bl l off H) (simp add: request_body_def decode_frame_of_def)
  moreover have "header = write_header (request_header ?f seq naive) naive"
    unfolding hdr
    by (subst decode_header_is_request_header [OF b, of ?es _ _ _ _ _ topk hs]) (simp_all add: length_meta_entries n)
  ultimately show ?thesis
    by (simp only: rows_def [symmetric] encode_request_seal [OF s] seal_def seal_in_place_def)
qed

lemma decode_rows_valid:
  assumes "rows * topk < 2 ^ 32" "length es = rows * topk" "\<forall>e \<in> set es. unat (re_row_index e) < rows"
  shows "validate_rows_routes (map (decode_row_descriptor request_id topk) [0..<rows]) es = Ok ()"
  unfolding validate_rows_routes_Ok
proof (intro conjI allI impI)
  fix i assume "i < length (map (decode_row_descriptor request_id topk) [0..<rows])"
  then have i: "i < rows" by simp
  then have le: "i * topk + topk \<le> rows * topk" using mult_le_mono1 [of "Suc i" rows topk] by simp
  then have "unat (of_nat (i * topk) :: u32) = i * topk" "unat (of_nat topk :: u32) = topk"
    using assms(1) by (simp_all add: unat_of_nat_u32 del: of_nat_mult)
  then show "unat (rd_route_offset (map (decode_row_descriptor request_id topk) [0..<rows] ! i))
      + unat (rd_route_count (map (decode_row_descriptor request_id topk) [0..<rows] ! i)) \<le> length es"
    using i le by (simp add: decode_row_descriptor_def assms(2) del: of_nat_mult)
qed (use assms(3) in simp)

lemma desc_outer:
  assumes "n \<le> rows" "rows * 40 \<le> length body"
  shows "fold_results (desc_row request_id topk naive) body [0..<n]
    = Ok (concat (map (\<lambda>t. row_descriptor_wire (decode_row_descriptor request_id topk t) naive) [0..<n])
          @ drop (n * 40) body)"
  using assms(1)
proof (induction n)
  case 0
  then show ?case by simp
next
  case (Suc n)
  let ?P = "concat (map (\<lambda>t. row_descriptor_wire (decode_row_descriptor request_id topk t) naive) [0..<n])"
  let ?w = "row_descriptor_wire (decode_row_descriptor request_id topk n) naive"
  have "length ?P = length [0..<n] * 40" by (rule length_concat_uniform) simp
  then have "n * 40 = length ?P" by simp
  moreover have "length ?w \<le> length (drop (n * 40) body)" using Suc.prems assms(2) by simp
  ultimately have "write_at (n * 40) ?w (?P @ drop (n * 40) body) = Ok (?P @ ?w @ drop (length ?w) (drop (n * 40) body))"
    by (rule write_at_append)
  then have step: "desc_row request_id topk naive (?P @ drop (n * 40) body) n = Ok (?P @ ?w @ drop (Suc n * 40) body)"
    by (simp add: desc_row_def layout_simps add.commute)
  have IH: "fold_results (desc_row request_id topk naive) body [0..<n] = Ok (?P @ drop (n * 40) body)"
    using Suc by simp
  show ?case
    by (simp only: upt_Suc_append [OF le0] fold_results_append IH obind.simps fold_results.simps step
        concat_append map_append list.map concat.simps append_assoc append_Nil2 append_Nil)
qed

lemma desc_into_completes:
  assumes "encode_request_desc_into body request_id layer_id executor_id seq rows topk naive
      = (body', Ok (header, routes_off, hidden_off, body_len))"
    and "length es = rows * topk" "\<forall>e \<in> set es. unat (re_row_index e) < rows"
    and "hidden_rows_sized naive rows hs"
  shows "encode_request_seq env (decode_frame_of request_id layer_id executor_id rows topk es hs) seq naive
    = seal_in_place env (header @ take body_len
        (put_bytes hidden_off (concat (map hidden_row_wire hs))
          (put_bytes routes_off (concat (map (\<lambda>r. route_entry_wire r naive) es)) body'))) naive"
proof -
  let ?f = "decode_frame_of request_id layer_id executor_id rows topk es hs"
  let ?H = "concat (map hidden_row_wire hs)"
  let ?E = "concat (map (\<lambda>r. route_entry_wire r naive) es)"
  let ?D = "concat (map (\<lambda>t. row_descriptor_wire (decode_row_descriptor request_id topk t) naive) [0..<rows])"
  let ?len = "usize_add (usize_add (rows * 40) (rows * topk * 12)) (rows * hidden_row_bytes naive)"
  have rp: "rows \<noteq> 0" and
    loop: "fold_results (desc_row request_id topk naive) body [0..<rows] = Ok body'" and
    b: "rows * 40 < 2 ^ 32" "rows * topk * 12 < 2 ^ 32" and
    blen: "?len \<le> length body" and
    hdr: "header = write_header (decode_header request_id layer_id executor_id seq (of_nat rows)
      (of_nat (rows * topk)) (of_nat (rows * 40)) (of_nat (rows * topk * 12))
      (rows * hidden_row_bytes naive) (rows * request_row_bytes naive) ?len
      (of_nat (hidden_row_bytes naive)) naive) naive" and
    off: "routes_off = rows * 40" "hidden_off = rows * 40 + rows * topk * 12" and bl: "body_len = ?len"
    using assms(1)
    by (auto simp: encode_request_desc_into_def outcome_simps layout_simps checked_mul_eq_Ok as_u32_eq_Ok Let_def
        not_less simp del: of_nat_mult split: if_splits outcome.splits prod.splits)
  have l: "?len = rows * 40 + rows * topk * 12 + rows * hidden_row_bytes naive"
    by (rule rows_bounds(5) [OF b])
  have "rows * 40 \<le> length body" using blen unfolding l by simp
  then have body': "body' = ?D @ drop (rows * 40) body"
    using loop desc_outer [OF order_refl, of rows body request_id topk naive] by simp
  have val: "validate_rows_routes (map (decode_row_descriptor request_id topk) [0..<rows]) es = Ok ()"
    by (rule decode_rows_valid) (use b assms(2,3) in simp_all)
  have s: "request_sendable ?f naive"
    using val rp assms(2,4) b by (simp add: request_sendable_def decode_frame_of_def hidden_rows_sized_def)
  have D: "length ?D = rows * 40"
    by (subst length_concat_uniform [where w = 40]) simp_all
  have E: "length ?E = rows * topk * 12"
    by (subst length_concat_uniform [where w = 12]) (simp_all add: assms(2))
  have H: "length ?H = rows * hidden_row_bytes naive"
    using length_hidden_rows assms(4) by simp
  let ?R = "drop (rows * 40 + rows * topk * 12) body"
  have "put_bytes routes_off ?E body' = (?D @ ?E) @ ?R"
    by (simp only: body' off put_bytes_def E) (simp add: D add.commute)
  moreover have "take (hidden_off + length ?H) (put_bytes hidden_off ?H ((?D @ ?E) @ ?R)) = (?D @ ?E) @ ?H"
    using blen unfolding l by (intro take_put_back) (simp_all only: length_append D E H off, simp)
  moreover have "request_body ?f naive = (?D @ ?E) @ ?H"
    by (simp add: request_body_def decode_frame_of_def comp_def)
  ultimately have "take body_len (put_bytes hidden_off ?H (put_bytes routes_off ?E body')) = request_body ?f naive"
    by (simp only: bl l off H)
  moreover have "header = write_header (request_header ?f seq naive) naive"
    unfolding hdr
    by (subst decode_header_is_request_header [OF b, of es _ _ _ _ _ topk hs]) (simp_all add: assms(2))
  ultimately show ?thesis
    by (simp only: encode_request_seal [OF s] seal_def seal_in_place_def)
qed


subsection \<open>Success\<close>

lemma in_place_len:
  "rows * 40 < 2 ^ 32 \<Longrightarrow> routes * 12 < 2 ^ 32 \<Longrightarrow>
     usize_add (usize_add (rows * 40) (routes * 12)) (rows * hidden_row_bytes naive)
       = rows * 40 + routes * 12 + rows * hidden_row_bytes naive"
  by (rule rows_bounds)

lemma in_place_sizes:
  assumes "rows * 40 < 2 ^ 32" "routes * 12 < 2 ^ 32"
  shows "checked_mul rows 40 s = Ok (rows * 40)" "checked_mul routes 12 s = Ok (routes * 12)"
    "checked_mul rows (hidden_row_bytes naive) s = Ok (rows * hidden_row_bytes naive)"
    "checked_mul rows (request_row_bytes naive) s = Ok (rows * request_row_bytes naive)"
    "as_u32 rows s = Ok (of_nat rows)" "as_u32 routes s = Ok (of_nat routes)"
    "as_u32 (rows * 40) s = Ok (of_nat (rows * 40))" "as_u32 (routes * 12) s = Ok (of_nat (routes * 12))"
    "as_u32 (hidden_row_bytes naive) s = Ok (of_nat (hidden_row_bytes naive))"
  unfolding checked_mul_def as_u32_def
  by (use rows_bounds(1,2) [OF assms] rows_bounds(3,4) [OF assms, of naive] assms
      hidden_row_bytes_lt [of naive] in simp_all)

lemma meta_entries_rows:
  assumes "rows < 2 ^ 32"
  shows "\<forall>e \<in> set (meta_entries routes topk rows). unat (re_row_index e) < rows"
  using assms by (auto simp: meta_entries_def meta_entry_def unat_of_nat_u32)

lemma meta_into_succeeds:
  assumes "0 < topk" "0 < rows" "length routes = rows * topk"
    and b: "rows * 40 < 2 ^ 32" "length routes * 12 < 2 ^ 32"
    and body: "rows * 40 + length routes * 12 + rows * hidden_row_bytes naive \<le> length body"
  shows "\<exists>body' header. encode_request_meta_into body request_id layer_id executor_id seq routes topk naive
    = (body', Ok (header, rows * 40 + length routes * 12,
        rows * 40 + length routes * 12 + rows * hidden_row_bytes naive))"
proof -
  have r: "(topk = 0 \<or> routes = [] \<or> length routes mod topk \<noteq> 0) = False" "length routes div topk = rows"
    using assms(1-3) by auto
  define A where "A = take (rows * 40) body"
  define B where "B = drop (rows * 40) body"
  have A: "length A = rows * 40" and B: "rows * topk * 12 \<le> length B"
    using body unfolding assms(3) A_def B_def by simp_all
  have f: "filled_body A B [] [] = body" by (simp add: filled_body_def A_def B_def)
  obtain body' where loop: "fold_results (meta_row request_id routes topk (rows * 40) naive) (body, [], []) [0..<rows]
      = Ok (body', map (decode_row_descriptor request_id topk) [0..<rows], meta_entries routes topk rows)"
    using meta_outer [OF A B _ order_refl, of routes request_id naive] assms(3) by (simp add: A f)
  have "validate_rows_routes (map (decode_row_descriptor request_id topk) [0..<rows]) (meta_entries routes topk rows) = Ok ()"
    by (rule decode_rows_valid) (use b assms(3) in \<open>simp_all add: length_meta_entries meta_entries_rows\<close>)
  moreover have "\<not> length body < rows * 40 + length routes * 12 + rows * hidden_row_bytes naive"
    using body by simp
  ultimately show ?thesis
    by (simp only: encode_request_meta_into_def r layout_simps in_place_sizes [OF b] obind.simps Let_def
        in_place_len [OF b] loop outcome.case prod.case if_False simp_thms prod.inject outcome.inject) blast
qed

lemma desc_into_succeeds:
  assumes "0 < topk" "topk \<le> 8" "0 < rows" and b: "rows * 40 < 2 ^ 32" "rows * topk * 12 < 2 ^ 32"
    and body: "rows * 40 + rows * topk * 12 + rows * hidden_row_bytes naive \<le> length body"
  shows "\<exists>body' header. encode_request_desc_into body request_id layer_id executor_id seq rows topk naive
    = (body', Ok (header, rows * 40, rows * 40 + rows * topk * 12,
        rows * 40 + rows * topk * 12 + rows * hidden_row_bytes naive))"
proof -
  have "checked_mul rows topk s = Ok (rows * topk)" for s
    using b(2) by (simp add: checked_mul_def)
  moreover obtain body' where "fold_results (desc_row request_id topk naive) body [0..<rows] = Ok body'"
    using desc_outer [OF order_refl, of rows body request_id topk naive] body by simp
  moreover have "(rows = 0 \<or> topk = 0 \<or> 8 < topk) = False" using assms(1-3) by simp
  moreover have "\<not> length body < rows * 40 + rows * topk * 12 + rows * hidden_row_bytes naive"
    using body by simp
  ultimately show ?thesis
    by (simp only: encode_request_desc_into_def layout_simps in_place_sizes [OF b] obind.simps Let_def
        in_place_len [OF b] outcome.case prod.case if_False simp_thms prod.inject outcome.inject) blast
qed

subsection \<open>Properties\<close>

text \<open>C37: Writing a request's descriptors and routes straight into a large enough buffer succeeds,
  and the returned header followed by that buffer, once the hidden rows are filled in at the
  returned offset, is byte for byte the frame the copying encoder builds (sealed where the
  checksum is on).\<close>

theorem meta_into_builds_frame:
  assumes "0 < topk" "0 < rows" "length routes = rows * topk" "rows * 40 < 2 ^ 32" "length routes * 12 < 2 ^ 32"
    and "rows * 40 + length routes * 12 + rows * hidden_row_bytes naive \<le> length body"
    and "hidden_rows_sized naive rows hs"
  shows "\<exists>body' header off body_len.
    encode_request_meta_into body request_id layer_id executor_id seq routes topk naive
      = (body', Ok (header, off, body_len)) \<and>
    encode_request_seq env (decode_frame_of request_id layer_id executor_id rows topk
        (meta_entries routes topk rows) hs) seq naive
      = seal_in_place env (header @ take body_len (put_bytes off (concat (map hidden_row_wire hs)) body')) naive"
proof -
  have d: "length routes div topk = rows" using assms(1,3) by simp
  obtain body' header off body_len where
    m: "encode_request_meta_into body request_id layer_id executor_id seq routes topk naive
      = (body', Ok (header, off, body_len))"
    using meta_into_succeeds [OF assms(1-6)] by metis
  show ?thesis
    using m meta_into_completes [OF m, of hs env, unfolded d, OF assms(7)] by blast
qed

theorem meta_into_builds_frame_witness:
  "\<exists>body' header off body_len.
    encode_request_meta_into (replicate 4276 0) 7 3 2 5 [(17, 0x3F000000)] 1 naive_none
      = (body', Ok (header, off, body_len)) \<and>
    encode_request_seq sample_env (decode_frame_of 7 3 2 1 1 (meta_entries [(17, 0x3F000000)] 1 1)
        (rq_hidden_rows sample_request)) 5 naive_none
      = seal_in_place sample_env (header @ take body_len
          (put_bytes off (concat (map hidden_row_wire (rq_hidden_rows sample_request))) body')) naive_none"
proof (rule meta_into_builds_frame)
  show "hidden_rows_sized naive_none 1 (rq_hidden_rows sample_request)"
    using sample_request_sendable by (simp add: request_sendable_def hidden_rows_sized_def) (simp add: sample_request_def)
qed (simp_all add: hidden_row_bytes_none static_layout_guards)

text \<open>C38: The variant that leaves the routes to the caller too builds the same frame: with the
  route entries and the hidden rows written at the returned offsets, header and buffer are the
  copying encoder's frame.\<close>

theorem desc_into_builds_frame:
  assumes "0 < topk" "topk \<le> 8" "0 < rows" "rows * 40 < 2 ^ 32" "rows * topk * 12 < 2 ^ 32"
    and "rows * 40 + rows * topk * 12 + rows * hidden_row_bytes naive \<le> length body"
    and "length es = rows * topk" "\<forall>e \<in> set es. unat (re_row_index e) < rows"
    and "hidden_rows_sized naive rows hs"
  shows "\<exists>body' header routes_off hidden_off body_len.
    encode_request_desc_into body request_id layer_id executor_id seq rows topk naive
      = (body', Ok (header, routes_off, hidden_off, body_len)) \<and>
    encode_request_seq env (decode_frame_of request_id layer_id executor_id rows topk es hs) seq naive
      = seal_in_place env (header @ take body_len
          (put_bytes hidden_off (concat (map hidden_row_wire hs))
            (put_bytes routes_off (concat (map (\<lambda>r. route_entry_wire r naive) es)) body'))) naive"
proof -
  obtain body' header where
    m: "encode_request_desc_into body request_id layer_id executor_id seq rows topk naive
      = (body', Ok (header, rows * 40, rows * 40 + rows * topk * 12,
          rows * 40 + rows * topk * 12 + rows * hidden_row_bytes naive))"
    using desc_into_succeeds [OF assms(1-6)] by metis
  show ?thesis
    using m desc_into_completes [OF m assms(7-9)] by blast
qed

theorem desc_into_builds_frame_witness:
  "\<exists>body' header routes_off hidden_off body_len.
    encode_request_desc_into (replicate 4276 0) 7 3 2 5 1 1 naive_none
      = (body', Ok (header, routes_off, hidden_off, body_len)) \<and>
    encode_request_seq sample_env (decode_frame_of 7 3 2 1 1 (rq_routes sample_request)
        (rq_hidden_rows sample_request)) 5 naive_none
      = seal_in_place sample_env (header @ take body_len
          (put_bytes hidden_off (concat (map hidden_row_wire (rq_hidden_rows sample_request)))
            (put_bytes routes_off (concat (map (\<lambda>r. route_entry_wire r naive_none) (rq_routes sample_request))) body')))
          naive_none"
proof (rule desc_into_builds_frame)
  show "hidden_rows_sized naive_none 1 (rq_hidden_rows sample_request)"
    using sample_request_sendable by (simp add: request_sendable_def hidden_rows_sized_def) (simp add: sample_request_def)
qed (simp_all add: hidden_row_bytes_none static_layout_guards sample_request_def)

end
