(* ===== verification/L4.thy ===== *)
theory L4
  imports FrameReturn
begin

text \<open>
  The integrity ladder, \<open>crates/mimo26-wire/src/l4.rs\<close>: the sequence-stamping sender, the
  receiver's sequence policy, the bounded retry driver and the coordinator's rank-ordered FP32
  sum. Sequence counters are \<open>u64\<close> and wrap, as in the release build.
\<close>

subsection \<open>StreamSender and StreamReceiver\<close>

record stream_sender =
  snd_naive :: wire_naive
  snd_next_seq :: u64

definition sender_new :: "wire_naive \<Rightarrow> stream_sender" where
  "sender_new naive = \<lparr>snd_naive = naive, snd_next_seq = 0\<rparr>"

definition sender_take_seq :: "stream_sender \<Rightarrow> stream_sender \<times> u64" where
  "sender_take_seq s = (s\<lparr>snd_next_seq := snd_next_seq s + 1\<rparr>, snd_next_seq s)"

definition sender_encode_request ::
    "wire_env \<Rightarrow> stream_sender \<Rightarrow> request_frame \<Rightarrow> stream_sender \<times> u8 list wire_result" where
  "sender_encode_request env s f =
     (let seq = snd_next_seq s in
      (s\<lparr>snd_next_seq := snd_next_seq s + 1\<rparr>, encode_request_seq env f seq (snd_naive s)))"

definition sender_encode_return ::
    "wire_env \<Rightarrow> stream_sender \<Rightarrow> return_frame \<Rightarrow> stream_sender \<times> u8 list wire_result" where
  "sender_encode_return env s f =
     (let seq = snd_next_seq s in
      (s\<lparr>snd_next_seq := snd_next_seq s + 1\<rparr>, encode_return_seq env f seq (snd_naive s)))"

record stream_receiver =
  rcv_naive :: wire_naive
  rcv_expected :: u64

definition receiver_new :: "wire_naive \<Rightarrow> stream_receiver" where
  "receiver_new naive = \<lparr>rcv_naive = naive, rcv_expected = 0\<rparr>"

definition accept_seq :: "stream_receiver \<Rightarrow> u64 \<Rightarrow> stream_receiver \<times> unit wire_result" where
  "accept_seq r seq =
     (if naive_has (rcv_naive r) SEQ_IGNORED then (r, Ok ())
      else if seq = rcv_expected r then (r\<lparr>rcv_expected := rcv_expected r + 1\<rparr>, Ok ())
      else if seq < rcv_expected r then (r, Err (Duplicate seq (rcv_expected r)))
      else (r, Err (OutOfOrder (rcv_expected r) seq)))"

definition accept :: "wire_env \<Rightarrow> stream_receiver \<Rightarrow> u8 list \<Rightarrow> stream_receiver \<times> frame wire_result" where
  "accept env r bytes =
     (case decode_frame env bytes (rcv_naive r) of
        Err e \<Rightarrow> (r, Err e) | Panic \<Rightarrow> (r, Panic)
      | Ok f \<Rightarrow>
        let seq = frame_seq_of f in
        if naive_has (rcv_naive r) SEQ_IGNORED then (r, Ok f)
        else if seq = rcv_expected r then (r\<lparr>rcv_expected := rcv_expected r + 1\<rparr>, Ok f)
        else if seq < rcv_expected r then (r, Err (Duplicate seq (rcv_expected r)))
        else (r, Err (OutOfOrder (rcv_expected r) seq)))"

subsection \<open>retry_until\<close>

text \<open>
  \<open>op\<close> is a closure with state of its own. The counter stays below \<open>max_attempts\<close>, so its
  increment cannot wrap and the loop ends.
\<close>

function retry_loop ::
    "nat \<Rightarrow> ('s \<Rightarrow> 's \<times> 'a wire_result) \<Rightarrow> nat \<Rightarrow> 's \<Rightarrow> 's \<times> 'a wire_result" where
  "retry_loop max_attempts op attempts s =
     (case op s of
        (s', Ok v) \<Rightarrow> (s', Ok v)
      | (s', Panic) \<Rightarrow> (s', Panic)
      | (s', Err e) \<Rightarrow>
          if error_disposition e = Retry \<and> attempts + 1 < max_attempts
          then retry_loop max_attempts op (attempts + 1) s'
          else if error_disposition e = Retry then (s', Err (RetryExhausted (of_nat attempts) e))
          else (s', Err e))"
  by pat_completeness auto
termination by (relation "measure (\<lambda>(m, op, a, s). m - a)") auto

declare retry_loop.simps [simp del]

definition retry_until :: "u32 \<Rightarrow> ('s \<Rightarrow> 's \<times> 'a wire_result) \<Rightarrow> 's \<Rightarrow> 's \<times> 'a wire_result" where
  "retry_until max_attempts op s = retry_loop (unat max_attempts) op 0 s"

subsection \<open>CoordinatorSum\<close>

record coordinator_sum =
  cs_naive :: wire_naive
  cs_rows :: nat
  cs_hidden :: nat
  cs_seen :: "slot_key list"
  cs_distinct :: nat
  cs_acc :: "f32 list"
  cs_arrivals :: nat
  cs_rank_buf :: "f32 list"
  cs_slot_rank_count :: "u8 list"

definition coordinator_sum_new :: "nat \<Rightarrow> nat \<Rightarrow> wire_naive \<Rightarrow> coordinator_sum" where
  "coordinator_sum_new rows hidden naive =
     \<lparr>cs_naive = naive, cs_rows = rows, cs_hidden = hidden, cs_seen = [], cs_distinct = 0,
      cs_acc = replicate (rows * hidden) 0, cs_arrivals = 0,
      cs_rank_buf = replicate (SPARKS * rows * hidden) 0, cs_slot_rank_count = replicate rows 0\<rparr>"

definition cs_filled :: "coordinator_sum \<Rightarrow> nat" where
  "cs_filled cs = cs_distinct cs"

definition cs_is_complete :: "coordinator_sum \<Rightarrow> bool" where
  "cs_is_complete cs = (cs_distinct cs = cs_rows cs * SPARKS)"

definition cs_result :: "coordinator_sum \<Rightarrow> f32 list wire_result" where
  "cs_result cs =
     (let need = cs_rows cs * SPARKS in
      if cs_distinct cs \<noteq> need then Err (Incomplete (cs_distinct cs) need) else Ok (cs_acc cs))"

text \<open>\<open>buf[base + i] += bf16_to_f32(code)\<close> for every code of the row.\<close>

definition add_codes :: "nat \<Rightarrow> u16 list \<Rightarrow> f32 list \<Rightarrow> f32 list" where
  "add_codes base codes buf =
     fold (\<lambda>(i, code) b. b[base + i := f32_add (b ! (base + i)) (bf16_to_f32 code)])
       (List.enumerate 0 codes) buf"

text \<open>The rank-ordered sum of element \<open>i\<close> of the slot at \<open>base\<close>.\<close>

definition rank_sum :: "nat \<Rightarrow> nat \<Rightarrow> f32 list \<Rightarrow> nat \<Rightarrow> f32" where
  "rank_sum stride base rank_buf i =
     fold (\<lambda>rr s. f32_add s (rank_buf ! (rr * stride + base + i))) [0..<SPARKS] 0"

definition sum_slot :: "nat \<Rightarrow> nat \<Rightarrow> nat \<Rightarrow> f32 list \<Rightarrow> f32 list \<Rightarrow> f32 list" where
  "sum_slot stride base hidden rank_buf acc =
     fold (\<lambda>i a. a[base + i := rank_sum stride base rank_buf i]) [0..<hidden] acc"

text \<open>
  One row of a frame. The buffers have \<open>rows * hidden\<close> elements per rank and the slot row is
  below \<open>rows\<close>, so every index is in range (the invariant \<open>sum_shows\<close> of CoordSum records the lengths).
\<close>

definition store_row :: "coordinator_sum \<Rightarrow> nat \<Rightarrow> slot_key \<Rightarrow> bool \<Rightarrow> u16 list \<Rightarrow> nat \<Rightarrow> coordinator_sum" where
  "store_row cs rank key is_dup codes token =
     (let slot_row = (if naive_has (cs_naive cs) ACCUM_BY_ARRIVAL
                      then (cs_arrivals cs div SPARKS) mod cs_rows cs else token);
          cs = cs\<lparr>cs_arrivals := cs_arrivals cs + 1, cs_seen := cs_seen cs @ [key]\<rparr>;
          cs = (if is_dup then cs
                else cs\<lparr>cs_distinct := cs_distinct cs + 1,
                        cs_slot_rank_count := (cs_slot_rank_count cs)
                          [slot_row := cs_slot_rank_count cs ! slot_row + 1]\<rparr>);
          base = slot_row * cs_hidden cs; stride = cs_rows cs * cs_hidden cs in
      if naive_has (cs_naive cs) RANK_SUM_BY_ARRIVAL
      then cs\<lparr>cs_acc := add_codes base codes (cs_acc cs)\<rparr>
      else
        let cs = cs\<lparr>cs_rank_buf := add_codes (rank * stride + base) codes (cs_rank_buf cs)\<rparr> in
        if unat (cs_slot_rank_count cs ! slot_row) = SPARKS
        then cs\<lparr>cs_acc := sum_slot stride base (cs_hidden cs) (cs_rank_buf cs) (cs_acc cs)\<rparr>
        else cs)"

definition accumulate_row ::
    "return_frame \<Rightarrow> coordinator_sum \<Rightarrow> nat \<times> return_row \<Rightarrow> coordinator_sum \<times> unit wire_result" where
  "accumulate_row f cs rrow =
     (let (r, row) = rrow in
      if \<not> unat (rt_token_position f) + r < 2 ^ 64
      then (cs, Err (DimMismatch ''token_position'' (cs_rows cs) usize_MAX))
      else
      let token = unat (rt_token_position f) + r in
      if token \<ge> cs_rows cs then (cs, Err (DimMismatch ''token_position'' (cs_rows cs) token))
      else if length (rr_codes row) \<noteq> cs_hidden cs
      then (cs, Err (DimMismatch ''return_row_codes'' (cs_hidden cs) (length (rr_codes row))))
      else
      let key = \<lparr>sk_request_id = rt_request_id f, sk_layer_id = rt_layer_id f,
                 sk_token_position = of_nat token, sk_executor_id = rt_executor_id f\<rparr>;
          is_dup = (key \<in> set (cs_seen cs)) in
      if is_dup \<and> \<not> naive_has (cs_naive cs) DUP_DOUBLE_COUNT then (cs, Err (SlotFilled key))
      else (store_row cs (unat (rt_executor_id f)) key is_dup (rr_codes row) token, Ok ()))"

fun accumulate_rows ::
    "return_frame \<Rightarrow> coordinator_sum \<Rightarrow> (nat \<times> return_row) list \<Rightarrow> coordinator_sum \<times> unit wire_result" where
  "accumulate_rows f cs [] = (cs, Ok ())"
| "accumulate_rows f cs (x # xs) =
     (case accumulate_row f cs x of
        (cs', Ok u) \<Rightarrow> accumulate_rows f cs' xs
      | (cs', Err e) \<Rightarrow> (cs', Err e)
      | (cs', Panic) \<Rightarrow> (cs', Panic))"

definition accumulate :: "coordinator_sum \<Rightarrow> return_frame \<Rightarrow> coordinator_sum \<times> unit wire_result" where
  "accumulate cs f =
     (if rt_status f \<noteq> StatusOk then (cs, Err (SparkReportedError (rt_executor_id f)))
      else if unat (rt_executor_id f) \<ge> SPARKS
      then (cs, Err (DimMismatch ''executor_id'' SPARKS (unat (rt_executor_id f))))
      else accumulate_rows f cs (List.enumerate 0 (rt_rows f)))"

end
