(* ===== verification/CoordSum.thy ===== *)
theory CoordSum
  imports L4
begin

text \<open>
  \<open>CoordinatorSum\<close> of \<open>crates/mimo26-wire/src/l4.rs\<close>: its buffers show which rank's partial has
  landed for which token row, every operation keeps that, and so the result does not depend on
  delivery.
\<close>

subsection \<open>The buffer loops\<close>

lemma add_codes_from:
  "length (fold (\<lambda>(i, code) b. b[base + i := f32_add (b ! (base + i)) (bf16_to_f32 code)]) (List.enumerate n codes) buf) = length buf"
  by (induction codes arbitrary: n buf) simp_all

lemma nth_add_codes_from:
  assumes "base + n + length codes \<le> length buf" "j < length buf"
  shows "fold (\<lambda>(i, code) b. b[base + i := f32_add (b ! (base + i)) (bf16_to_f32 code)]) (List.enumerate n codes) buf ! j
    = (if base + n \<le> j \<and> j < base + n + length codes
       then f32_add (buf ! j) (bf16_to_f32 (codes ! (j - (base + n)))) else buf ! j)"
  using assms
proof (induction codes arbitrary: n buf)
  case Nil
  then show ?case by auto
next
  case (Cons c codes)
  let ?buf = "buf[base + n := f32_add (buf ! (base + n)) (bf16_to_f32 c)]"
  have "fold (\<lambda>(i, code) b. b[base + i := f32_add (b ! (base + i)) (bf16_to_f32 code)]) (List.enumerate (Suc n) codes) ?buf ! j
    = (if base + Suc n \<le> j \<and> j < base + Suc n + length codes
       then f32_add (?buf ! j) (bf16_to_f32 (codes ! (j - (base + Suc n)))) else ?buf ! j)"
    by (rule Cons.IH) (use Cons.prems in simp_all)
  moreover have "codes ! (j - (base + Suc n)) = (c # codes) ! (j - (base + n))" if "base + Suc n \<le> j"
  proof -
    have "j - (base + n) = Suc (j - (base + Suc n))" using that by simp
    then show ?thesis by simp
  qed
  ultimately show ?case using Cons.prems by (auto simp: nth_list_update not_le less_Suc_eq_le)
qed

lemma length_add_codes [simp]: "length (add_codes base codes buf) = length buf"
  by (simp add: add_codes_def add_codes_from)

lemma nth_add_codes:
  "base + length codes \<le> length buf \<Longrightarrow> j < length buf \<Longrightarrow>
   add_codes base codes buf ! j =
     (if base \<le> j \<and> j < base + length codes then f32_add (buf ! j) (bf16_to_f32 (codes ! (j - base))) else buf ! j)"
  using nth_add_codes_from [of base 0 codes buf j] by (simp add: add_codes_def)

lemma fold_update:
  "base + n \<le> length acc \<Longrightarrow>
   length (fold (\<lambda>i a. a[base + i := v i]) [0..<n] acc) = length acc \<and>
   (\<forall>j < length acc. fold (\<lambda>i a. a[base + i := v i]) [0..<n] acc ! j
      = (if base \<le> j \<and> j < base + n then v (j - base) else acc ! j))"
  by (induction n) (auto simp: nth_list_update less_Suc_eq)

lemma length_sum_slot: "base + hidden \<le> length acc \<Longrightarrow> length (sum_slot stride base hidden rank_buf acc) = length acc"
  using fold_update [of base hidden acc "rank_sum stride base rank_buf"] by (simp add: sum_slot_def)

lemma nth_sum_slot:
  "base + hidden \<le> length acc \<Longrightarrow> j < length acc \<Longrightarrow> sum_slot stride base hidden rank_buf acc ! j
     = (if base \<le> j \<and> j < base + hidden then rank_sum stride base rank_buf (j - base) else acc ! j)"
  using fold_update [of base hidden acc "rank_sum stride base rank_buf"] by (simp add: sum_slot_def)

text \<open>Positions: row \<open>a\<close> of a buffer of rows of \<open>h\<close> elements.\<close>

lemma row_position:
  assumes "i < h"
  shows "a * h \<le> b * h + i \<and> b * h + i < a * h + h \<longleftrightarrow> a = (b :: nat)"
proof
  assume r: "a * h \<le> b * h + i \<and> b * h + i < a * h + h"
  have "a * h < Suc b * h" "b * h < Suc a * h" using r assms by simp_all
  then show "a = b" by (simp only: mult_less_cancel2) simp
qed (use assms in simp)

lemma rank_row_inject:
  assumes "t < r" "t' < (r :: nat)"
  shows "k * r + t = k' * r + t' \<longleftrightarrow> k = k' \<and> t = t'"
proof
  assume "k * r + t = k' * r + t'"
  then have "(k * r + t) div r = (k' * r + t') div r" "(k * r + t) mod r = (k' * r + t') mod r" by simp_all
  with assms show "k = k' \<and> t = t'" by simp
qed simp

subsection \<open>What the buffers hold\<close>

text \<open>The abstract state: which rank's codes have landed for which token row.\<close>

type_synonym partials = "nat \<times> nat \<Rightarrow> u16 list option"

definition window_key :: "u64 \<Rightarrow> u32 \<Rightarrow> nat \<times> nat \<Rightarrow> slot_key" where
  "window_key q l = (\<lambda>(t, k). \<lparr>sk_request_id = q, sk_layer_id = l, sk_token_position = of_nat t, sk_executor_id = of_nat k\<rparr>)"

definition slot_val :: "partials \<Rightarrow> nat \<Rightarrow> nat \<Rightarrow> nat \<Rightarrow> f32" where
  "slot_val M k t i = (case M (t, k) of None \<Rightarrow> 0 | Some c \<Rightarrow> f32_add 0 (bf16_to_f32 (c ! i)))"

definition ordered_sum :: "(nat \<Rightarrow> f32) \<Rightarrow> f32" where
  "ordered_sum v = fold (\<lambda>k s. f32_add s (v k)) [0..<SPARKS] 0"

definition sum_shows :: "u64 \<Rightarrow> u32 \<Rightarrow> nat \<Rightarrow> nat \<Rightarrow> coordinator_sum \<Rightarrow> partials \<Rightarrow> bool" where
  "sum_shows q l R H cs M \<longleftrightarrow>
     cs_naive cs = naive_none \<and> cs_rows cs = R \<and> cs_hidden cs = H \<and>
     dom M \<subseteq> {..<R} \<times> {..<SPARKS} \<and> (\<forall>c \<in> ran M. length c = H) \<and>
     set (cs_seen cs) = window_key q l ` dom M \<and> cs_distinct cs = card (dom M) \<and>
     length (cs_acc cs) = R * H \<and> length (cs_rank_buf cs) = SPARKS * R * H \<and>
     length (cs_slot_rank_count cs) = R \<and>
     (\<forall>t < R. unat (cs_slot_rank_count cs ! t) = card {k. (t, k) \<in> dom M}) \<and>
     (\<forall>k < SPARKS. \<forall>t < R. \<forall>i < H. cs_rank_buf cs ! ((k * R + t) * H + i) = slot_val M k t i) \<and>
     (\<forall>t < R. \<forall>i < H. card {k. (t, k) \<in> dom M} = SPARKS \<longrightarrow>
        cs_acc cs ! (t * H + i) = ordered_sum (\<lambda>k. slot_val M k t i))"

lemma finite_partials: "dom (M :: partials) \<subseteq> {..<R} \<times> {..<SPARKS} \<Longrightarrow> finite (dom M)"
  by (erule finite_subset) (intro finite_cartesian_product finite_lessThan)

lemma ranks_bound:
  assumes "dom (M :: partials) \<subseteq> {..<R} \<times> {..<SPARKS}"
  shows "{k. (t, k) \<in> dom M} \<subseteq> {..<SPARKS}" "finite {k. (t, k) \<in> dom M}" "card {k. (t, k) \<in> dom M} \<le> SPARKS"
proof -
  show s: "{k. (t, k) \<in> dom M} \<subseteq> {..<SPARKS}" using assms by auto
  then show "finite {k. (t, k) \<in> dom M}" by (rule finite_subset) simp
  show "card {k. (t, k) \<in> dom M} \<le> SPARKS" using card_mono [OF _ s] by simp
qed

lemma new_shows: "sum_shows q l R H (coordinator_sum_new R H naive_none) Map.empty"
proof -
  have "(k * R + t) * H + i < SPARKS * R * H" if "k < SPARKS" "t < R" "i < H" for k t i
  proof -
    have "(k * R + t) * H + i < Suc (k * R + t) * H" using that by simp
    also have "\<dots> \<le> (Suc k * R) * H" using that by (intro mult_le_mono1) simp
    also have "\<dots> \<le> (SPARKS * R) * H" using that by (intro mult_le_mono1) simp
    finally show ?thesis .
  qed
  then show ?thesis
    by (simp add: sum_shows_def coordinator_sum_new_def slot_val_def) (simp add: layout_simps)
qed

lemma position_bound:
  assumes "k < K" "t < R" "i < H"
  shows "(k * R + t) * H + i < K * R * (H :: nat)"
proof -
  have "(k * R + t) * H + i < Suc (k * R + t) * H" using assms by simp
  also have "\<dots> \<le> (Suc k * R) * H" using assms by (intro mult_le_mono1) simp
  also have "\<dots> \<le> (K * R) * H" using assms by (intro mult_le_mono1) simp
  finally show ?thesis .
qed

lemma store_row_shows:
  assumes s: "sum_shows q l R H cs M" and k: "k < SPARKS" and t: "t < R" and c: "length c = H"
    and fresh: "(t, k) \<notin> dom M"
  shows "sum_shows q l R H (store_row cs k (window_key q l (t, k)) False c t) (M((t, k) \<mapsto> c))"
proof -
  let ?M = "M((t, k) \<mapsto> c)"
  define buf where "buf = add_codes ((k * R + t) * H) c (cs_rank_buf cs)"
  define cnt where "cnt = (cs_slot_rank_count cs)[t := cs_slot_rank_count cs ! t + 1]"
  define acc where "acc = (if unat (cnt ! t) = SPARKS then sum_slot (R * H) (t * H) H buf (cs_acc cs) else cs_acc cs)"
  have d: "dom M \<subseteq> {..<R} \<times> {..<SPARKS}" and l: "length (cs_acc cs) = R * H" "length (cs_rank_buf cs) = SPARKS * R * H"
    "length (cs_slot_rank_count cs) = R" and n: "cs_naive cs = naive_none" "cs_rows cs = R" "cs_hidden cs = H"
    using s by (simp_all add: sum_shows_def)
  have pos: "k * (R * H) + t * H = (k * R + t) * H" by (simp add: algebra_simps)
  have fields: "store_row cs k (window_key q l (t, k)) False c t
    = cs\<lparr>cs_arrivals := cs_arrivals cs + 1, cs_seen := cs_seen cs @ [window_key q l (t, k)],
        cs_distinct := cs_distinct cs + 1, cs_slot_rank_count := cnt, cs_rank_buf := buf, cs_acc := acc\<rparr>"
    using t l by (simp add: store_row_def n Let_def pos buf_def cnt_def acc_def)
  have D: "dom ?M = insert (t, k) (dom M)" by simp
  have ranks: "{k'. (t', k') \<in> dom ?M} = (if t' = t then insert k {k'. (t, k') \<in> dom M} else {k'. (t', k') \<in> dom M})" for t'
    by auto
  have cards: "card {k'. (t', k') \<in> dom ?M} = (if t' = t then Suc (card {k'. (t, k') \<in> dom M}) else card {k'. (t', k') \<in> dom M})" for t'
    unfolding ranks using fresh ranks_bound(2) [OF d, of t] by simp
  have buf: "length buf = SPARKS * R * H" "buf ! ((k' * R + t') * H + i) = slot_val ?M k' t' i"
    if "k' < SPARKS" "t' < R" "i < H" for k' t' i
  proof -
    show "length buf = SPARKS * R * H" by (simp add: buf_def l)
    have b: "(k' * R + t') * H + i < SPARKS * R * H" using that by (rule position_bound)
    have "Suc (k * R + t) * H \<le> (SPARKS * R) * H"
    proof (rule mult_le_mono1)
      have "Suc (k * R + t) \<le> Suc k * R" using t by simp
      also have "\<dots> \<le> SPARKS * R" using k by (intro mult_le_mono1) simp
      finally show "Suc (k * R + t) \<le> SPARKS * R" .
    qed
    then have "(k * R + t) * H + length c \<le> length (cs_rank_buf cs)" by (simp add: c l)
    from nth_add_codes [OF this, of "(k' * R + t') * H + i"] b
    have e: "buf ! ((k' * R + t') * H + i)
      = (if (k * R + t) * H \<le> (k' * R + t') * H + i \<and> (k' * R + t') * H + i < (k * R + t) * H + H
         then f32_add (cs_rank_buf cs ! ((k' * R + t') * H + i)) (bf16_to_f32 (c ! ((k' * R + t') * H + i - (k * R + t) * H)))
         else cs_rank_buf cs ! ((k' * R + t') * H + i))"
      by (simp add: buf_def l c)
    have old: "cs_rank_buf cs ! ((k' * R + t') * H + i) = slot_val M k' t' i"
      using s that by (simp add: sum_shows_def)
    show "buf ! ((k' * R + t') * H + i) = slot_val ?M k' t' i"
    proof (cases "k' = k \<and> t' = t")
      case True
      then have "buf ! ((k' * R + t') * H + i) = f32_add (slot_val M k t i) (bf16_to_f32 (c ! i))"
        using e old that(3) by simp
      moreover have "slot_val M k t i = 0" using fresh by (simp add: slot_val_def domIff)
      ultimately show ?thesis using True by (simp add: slot_val_def)
    next
      case False
      then have "k * R + t \<noteq> k' * R + t'" using rank_row_inject [OF t that(2), of k k'] by blast
      then have "buf ! ((k' * R + t') * H + i) = slot_val M k' t' i"
        using e old row_position [OF that(3), of "k * R + t" "k' * R + t'"] by simp
      then show ?thesis using False by (auto simp: slot_val_def)
    qed
  qed
  have cnt: "length cnt = R" "\<forall>t' < R. unat (cnt ! t') = card {k'. (t', k') \<in> dom ?M}"
  proof -
    show "length cnt = R" by (simp add: cnt_def l)
    show "\<forall>t' < R. unat (cnt ! t') = card {k'. (t', k') \<in> dom ?M}"
    proof (intro allI impI)
      fix t' assume t': "t' < R"
      have old: "unat (cs_slot_rank_count cs ! t') = card {k. (t', k) \<in> dom M}"
        using s t' by (simp add: sum_shows_def)
      show "unat (cnt ! t') = card {k'. (t', k') \<in> dom ?M}"
      proof (cases "t' = t")
        case True
        have "unat (cs_slot_rank_count cs ! t) < 2 ^ 8 - 1"
          using old ranks_bound(3) [OF d, of t] True by (simp add: layout_simps)
        then have "unat (cs_slot_rank_count cs ! t + 1) = Suc (unat (cs_slot_rank_count cs ! t))"
          by (simp add: unat_word_ariths)
        then show ?thesis using old True t by (simp only: cards cnt_def) (simp add: l)
      next
        case False
        then show ?thesis using old by (simp only: cards cnt_def) (simp add: l)
      qed
    qed
  qed
  have fit: "t * H + H \<le> length (cs_acc cs)"
    using mult_le_mono1 [of "Suc t" R H] t by (simp add: l add.commute)
  have acc: "length acc = R * H" by (simp add: acc_def length_sum_slot [OF fit] l)
  have sums: "acc ! (t' * H + i) = ordered_sum (\<lambda>k. slot_val ?M k t' i)"
    if t': "t' < R" and i: "i < H" and full: "card {k'. (t', k') \<in> dom ?M} = SPARKS" for t' i
  proof -
    have j: "t' * H + i < length (cs_acc cs)"
      using position_bound [of 0 1 t' R i H] t' i by (simp add: l)
    show ?thesis
    proof (cases "t' = t")
      case True
      have "acc ! (t' * H + i) = rank_sum (R * H) (t * H) buf i"
        using full cnt(2) t nth_sum_slot [OF fit j] True i by (simp add: acc_def)
      also have "\<dots> = ordered_sum (\<lambda>k. slot_val ?M k t i)"
        unfolding rank_sum_def ordered_sum_def
      proof (rule fold_cong)
        fix k' assume "k' \<in> set [0..<SPARKS]"
        then have k': "k' < SPARKS" by simp
        have "k' * (R * H) + t * H + i = (k' * R + t) * H + i" by (simp add: algebra_simps)
        then show "(\<lambda>s. f32_add s (buf ! (k' * (R * H) + t * H + i))) = (\<lambda>s. f32_add s (slot_val ?M k' t i))"
          using buf(2) [OF k' t i] by simp
      qed simp_all
      finally show ?thesis using True by simp
    next
      case False
      then have "\<not> (t * H \<le> t' * H + i \<and> t' * H + i < t * H + H)"
        using row_position [OF i, of t t'] by simp
      then have "acc ! (t' * H + i) = cs_acc cs ! (t' * H + i)"
        by (auto simp: acc_def nth_sum_slot [OF fit j])
      also have "\<dots> = ordered_sum (\<lambda>k. slot_val M k t' i)"
        using s t' i full False by (simp add: cards sum_shows_def)
      finally show ?thesis using False by (simp add: slot_val_def)
    qed
  qed
  have "length buf = SPARKS * R * H" by (simp add: buf_def l)
  moreover have "card (dom ?M) = Suc (card (dom M))"
    using fresh finite_partials [OF d] by simp
  moreover have "\<forall>c' \<in> ran ?M. length c' = H"
    using s c fresh by (simp add: sum_shows_def domIff)
  ultimately show ?thesis
    unfolding fields sum_shows_def
    using s k t acc buf(2) cnt sums by (simp add: sum_shows_def D del: dom_fun_upd)
qed

subsection \<open>Frames of one window\<close>

text \<open>A partial frame of the window \<open>(q, l)\<close> with \<open>R\<close> rows of \<open>H\<close> codes, carrying the data \<open>D\<close>.\<close>

definition partial_frame :: "u64 \<Rightarrow> u32 \<Rightarrow> nat \<Rightarrow> nat \<Rightarrow> (nat \<Rightarrow> nat \<Rightarrow> u16 list) \<Rightarrow> return_frame \<Rightarrow> bool" where
  "partial_frame q l R H D f \<longleftrightarrow>
     rt_status f = StatusOk \<and> rt_request_id f = q \<and> rt_layer_id f = l \<and>
     unat (rt_executor_id f) < SPARKS \<and> unat (rt_token_position f) + length (rt_rows f) \<le> R \<and>
     (\<forall>r < length (rt_rows f). length (rr_codes (rt_rows f ! r)) = H \<and>
        rr_codes (rt_rows f ! r) = D (unat (rt_token_position f) + r) (unat (rt_executor_id f)))"

definition frame_slots :: "return_frame \<Rightarrow> (nat \<times> nat) set" where
  "frame_slots f = (\<lambda>r. (unat (rt_token_position f) + r, unat (rt_executor_id f))) ` {..<length (rt_rows f)}"

definition data_on :: "(nat \<Rightarrow> nat \<Rightarrow> u16 list) \<Rightarrow> (nat \<times> nat) set \<Rightarrow> partials" where
  "data_on D S = (\<lambda>(t, k). if (t, k) \<in> S then Some (D t k) else None)"

lemma dom_data_on [simp]: "dom (data_on D S) = S"
  by (auto simp: data_on_def split: if_splits)

lemma data_on_insert: "data_on D (insert (t, k) S) = (data_on D S)((t, k) \<mapsto> D t k)"
  by (auto simp: data_on_def fun_eq_iff)

lemma window_key_inject:
  assumes "t < 2 ^ 64" "t' < 2 ^ 64" "k < SPARKS" "k' < SPARKS" "window_key q l (t, k) = window_key q l (t', k')"
  shows "(t, k) = (t', k')"
proof -
  have "(of_nat t :: u64) = of_nat t'" "(of_nat k :: u64) = of_nat k'"
    using assms(5) by (simp_all add: window_key_def)
  then have "unat (of_nat t :: u64) = unat (of_nat t' :: u64)" "unat (of_nat k :: u64) = unat (of_nat k' :: u64)"
    by simp_all
  moreover have "k < 2 ^ 64" "k' < 2 ^ 64" using assms(3,4) by (simp_all add: layout_simps)
  ultimately show ?thesis using assms(1,2) by (simp only: unat_of_nat_u64)
qed

lemma seen_iff:
  assumes "sum_shows q l R H cs M" "R < 2 ^ 64" "t < R" "k < SPARKS"
  shows "window_key q l (t, k) \<in> set (cs_seen cs) \<longleftrightarrow> (t, k) \<in> dom M"
proof
  assume "window_key q l (t, k) \<in> set (cs_seen cs)"
  then obtain t' k' where m: "(t', k') \<in> dom M" "window_key q l (t, k) = window_key q l (t', k')"
    using assms(1) by (auto simp: sum_shows_def)
  then have "t' < R" "k' < SPARKS" using assms(1) by (auto simp: sum_shows_def)
  then have "(t, k) = (t', k')"
    using window_key_inject [of t t' k k' q l] m(2) assms(2-4) by simp
  with m(1) show "(t, k) \<in> dom M" by simp
next
  assume "(t, k) \<in> dom M"
  then show "window_key q l (t, k) \<in> set (cs_seen cs)" using assms(1) by (auto simp: sum_shows_def)
qed

lemma accumulate_row_partial:
  assumes s: "sum_shows q l R H cs (data_on D S)" and f: "partial_frame q l R H D f" and R: "R < 2 ^ 64"
    and r: "r < length (rt_rows f)"
  defines "t \<equiv> unat (rt_token_position f) + r" and "k \<equiv> unat (rt_executor_id f)"
  shows "(t, k) \<in> S \<Longrightarrow> accumulate_row f cs (r, rt_rows f ! r) = (cs, Err (SlotFilled (window_key q l (t, k))))"
    "(t, k) \<notin> S \<Longrightarrow> \<exists>cs'. accumulate_row f cs (r, rt_rows f ! r) = (cs', Ok ()) \<and>
       sum_shows q l R H cs' (data_on D (insert (t, k) S))"
proof -
  have k: "k < SPARKS" and t: "t < R" and c: "length (rr_codes (rt_rows f ! r)) = H" "rr_codes (rt_rows f ! r) = D t k"
    using f r by (auto simp: partial_frame_def t_def k_def)
  have key: "\<lparr>sk_request_id = rt_request_id f, sk_layer_id = rt_layer_id f, sk_token_position = of_nat t,
      sk_executor_id = rt_executor_id f\<rparr> = window_key q l (t, k)"
    using f by (simp add: window_key_def partial_frame_def k_def)
  have n: "cs_naive cs = naive_none" "cs_rows cs = R" "cs_hidden cs = H" using s by (simp_all add: sum_shows_def)
  have "t < 2 ^ 64" using t R by simp
  then have e: "accumulate_row f cs (r, rt_rows f ! r) =
    (if (t, k) \<in> S then (cs, Err (SlotFilled (window_key q l (t, k))))
     else (store_row cs k (window_key q l (t, k)) False (D t k) t, Ok ()))"
    using t c seen_iff [OF s R t k]
    unfolding accumulate_row_def Let_def prod.case t_def [symmetric] k_def [symmetric]
    by (simp add: n key)
  then show "(t, k) \<in> S \<Longrightarrow> accumulate_row f cs (r, rt_rows f ! r) = (cs, Err (SlotFilled (window_key q l (t, k))))"
    by simp
  show "\<exists>cs'. accumulate_row f cs (r, rt_rows f ! r) = (cs', Ok ()) \<and>
       sum_shows q l R H cs' (data_on D (insert (t, k) S))" if fresh: "(t, k) \<notin> S"
  proof (intro exI conjI)
    show "accumulate_row f cs (r, rt_rows f ! r) = (store_row cs k (window_key q l (t, k)) False (D t k) t, Ok ())"
      using e fresh by simp
    have "length (D t k) = H" using c by simp
    then show "sum_shows q l R H (store_row cs k (window_key q l (t, k)) False (D t k) t) (data_on D (insert (t, k) S))"
      unfolding data_on_insert by (intro store_row_shows [OF s k t]) (simp_all add: fresh)
  qed
qed

lemma accumulate_rows_fresh:
  assumes f: "partial_frame q l R H D f" and R: "R < 2 ^ 64"
    and s: "sum_shows q l R H cs (data_on D S)"
    and xs: "xs = drop n (rt_rows f)" "n \<le> length (rt_rows f)"
    and fresh: "\<forall>r. n \<le> r \<and> r < length (rt_rows f) \<longrightarrow> (unat (rt_token_position f) + r, unat (rt_executor_id f)) \<notin> S"
  shows "\<exists>cs'. accumulate_rows f cs (List.enumerate n xs) = (cs', Ok ()) \<and>
    sum_shows q l R H cs' (data_on D (S \<union> (\<lambda>r. (unat (rt_token_position f) + r, unat (rt_executor_id f))) ` {n..<length (rt_rows f)}))"
  using s xs fresh
proof (induction xs arbitrary: n cs S)
  case Nil
  then show ?case by simp
next
  case (Cons x xs)
  let ?g = "\<lambda>r. (unat (rt_token_position f) + r, unat (rt_executor_id f))"
  have n: "n < length (rt_rows f)" using Cons.prems(2) by (metis drop_all list.discI not_le)
  have x: "x = rt_rows f ! n" "xs = drop (Suc n) (rt_rows f)"
    using Cons.prems(2) n by (simp_all add: Cons_nth_drop_Suc [symmetric])
  obtain cs1 where a: "accumulate_row f cs (n, x) = (cs1, Ok ())"
    and s1: "sum_shows q l R H cs1 (data_on D (insert (?g n) S))"
    using accumulate_row_partial(2) [OF Cons.prems(1) f R n] Cons.prems(4) n x by blast
  have "\<forall>r. Suc n \<le> r \<and> r < length (rt_rows f) \<longrightarrow> ?g r \<notin> insert (?g n) S"
    using Cons.prems(4) by simp
  then obtain cs' where b: "accumulate_rows f cs1 (List.enumerate (Suc n) xs) = (cs', Ok ())"
    and s': "sum_shows q l R H cs' (data_on D (insert (?g n) S \<union> ?g ` {Suc n..<length (rt_rows f)}))"
    using Cons.IH [OF s1 x(2)] n by auto
  have "insert (?g n) S \<union> ?g ` {Suc n..<length (rt_rows f)} = S \<union> ?g ` {n..<length (rt_rows f)}"
  proof -
    have "{n..<length (rt_rows f)} = insert n {Suc n..<length (rt_rows f)}" using n by auto
    then show ?thesis by simp
  qed
  then show ?case using a b s' by simp
qed

lemma accumulate_fresh:
  assumes "sum_shows q l R H cs (data_on D S)" "partial_frame q l R H D f" "R < 2 ^ 64" "frame_slots f \<inter> S = {}"
  shows "\<exists>cs'. accumulate cs f = (cs', Ok ()) \<and> sum_shows q l R H cs' (data_on D (S \<union> frame_slots f))"
proof -
  have "\<forall>r. 0 \<le> r \<and> r < length (rt_rows f) \<longrightarrow> (unat (rt_token_position f) + r, unat (rt_executor_id f)) \<notin> S"
    using assms(4) by (auto simp: frame_slots_def)
  then show ?thesis
    using accumulate_rows_fresh [OF assms(2,3,1), of "rt_rows f" 0] assms(2)
    by (simp add: accumulate_def partial_frame_def frame_slots_def atLeast0LessThan)
qed

lemma accumulate_again:
  assumes s: "sum_shows q l R H cs (data_on D S)" and f: "partial_frame q l R H D f" and R: "R < 2 ^ 64"
    and seen: "frame_slots f \<subseteq> S" and rows: "rt_rows f \<noteq> []"
  shows "\<exists>k. accumulate cs f = (cs, Err (SlotFilled k))"
proof -
  obtain x xs where x: "rt_rows f = x # xs" using rows by (cases "rt_rows f") simp_all
  have "(unat (rt_token_position f) + 0, unat (rt_executor_id f)) \<in> S"
    using seen x by (force simp: frame_slots_def)
  from accumulate_row_partial(1) [OF s f R _ this] x
  have "\<exists>k. accumulate_row f cs (0, x) = (cs, Err (SlotFilled k))" by simp
  then show ?thesis using f x by (auto simp: accumulate_def partial_frame_def)
qed

definition deliver :: "coordinator_sum \<Rightarrow> return_frame list \<Rightarrow> coordinator_sum" where
  "deliver cs fs = foldl (\<lambda>cs f. fst (accumulate cs f)) cs fs"

definition rank_order_result :: "nat \<Rightarrow> nat \<Rightarrow> (nat \<Rightarrow> nat \<Rightarrow> u16 list) \<Rightarrow> f32 list" where
  "rank_order_result R H D =
     map (\<lambda>j. ordered_sum (\<lambda>k. f32_add 0 (bf16_to_f32 (D (j div H) k ! (j mod H))))) [0..<R * H]"

lemma deliver_shows:
  assumes "\<forall>f \<in> set fs. partial_frame q l R H D f" "R < 2 ^ 64"
    and "\<forall>f \<in> set fs. \<forall>g \<in> set fs. frame_slots f = frame_slots g \<or> frame_slots f \<inter> frame_slots g = {}"
  shows "sum_shows q l R H (deliver (coordinator_sum_new R H naive_none) fs) (data_on D (\<Union> (frame_slots ` set fs)))"
  using assms(1,3)
proof (induction fs rule: rev_induct)
  case Nil
  have "data_on D {} = Map.empty" by (simp add: data_on_def fun_eq_iff)
  then show ?case by (simp add: deliver_def new_shows)
next
  case (snoc f fs)
  let ?S = "\<Union> (frame_slots ` set fs)" and ?cs = "deliver (coordinator_sum_new R H naive_none) fs"
  have s: "sum_shows q l R H ?cs (data_on D ?S)" using snoc by simp
  have f: "partial_frame q l R H D f" using snoc.prems by simp
  have step: "deliver (coordinator_sum_new R H naive_none) (fs @ [f]) = fst (accumulate ?cs f)"
    by (simp add: deliver_def)
  show ?case
  proof (cases "frame_slots f \<inter> ?S = {}")
    case True
    then obtain cs' where "accumulate ?cs f = (cs', Ok ())" "sum_shows q l R H cs' (data_on D (?S \<union> frame_slots f))"
      using accumulate_fresh [OF s f assms(2)] by blast
    then show ?thesis by (simp add: step Un_commute)
  next
    case False
    then obtain g where g: "g \<in> set fs" "frame_slots f \<inter> frame_slots g \<noteq> {}" by blast
    then have "frame_slots f = frame_slots g" using snoc.prems(2) by auto
    then have sub: "frame_slots f \<subseteq> ?S" using g(1) by blast
    have "rt_rows f \<noteq> []" using False by (auto simp: frame_slots_def)
    then have "fst (accumulate ?cs f) = ?cs" using accumulate_again [OF s f assms(2) sub] by auto
    moreover have "frame_slots f \<union> ?S = ?S" using sub by blast
    ultimately show ?thesis using s by (simp add: step)
  qed
qed

lemma complete_result:
  assumes s: "sum_shows q l R H cs (data_on D ({..<R} \<times> {..<SPARKS}))"
  shows "cs_result cs = Ok (rank_order_result R H D)"
proof -
  let ?M = "data_on D ({..<R} \<times> {..<SPARKS})"
  have n: "cs_distinct cs = R * SPARKS" "cs_rows cs = R" "length (cs_acc cs) = R * H"
    using s by (simp_all add: sum_shows_def)
  have "cs_acc cs = rank_order_result R H D"
  proof (rule nth_equalityI)
    show "length (cs_acc cs) = length (rank_order_result R H D)" by (simp add: n rank_order_result_def)
    fix j assume "j < length (cs_acc cs)"
    then have j: "j < R * H" by (simp add: n)
    then have H: "0 < H" by (cases H) simp_all
    have t: "j div H < R" using j H by (simp add: less_mult_imp_div_less)
    have i: "j mod H < H" using H by simp
    have "\<forall>t < R. \<forall>i < H. cs_acc cs ! (t * H + i) = ordered_sum (\<lambda>k. slot_val ?M k t i)"
      using s by (simp add: sum_shows_def)
    then have "cs_acc cs ! (j div H * H + j mod H) = ordered_sum (\<lambda>k. slot_val ?M k (j div H) (j mod H))"
      using t i by blast
    also have "\<dots> = ordered_sum (\<lambda>k. f32_add 0 (bf16_to_f32 (D (j div H) k ! (j mod H))))"
      unfolding ordered_sum_def by (rule fold_cong) (use t in \<open>simp_all add: slot_val_def data_on_def\<close>)
    finally show "cs_acc cs ! j = rank_order_result R H D ! j"
      using j by (simp add: rank_order_result_def)
  qed
  then show ?thesis by (simp add: cs_result_def n Let_def)
qed

lemmas f32_eval = f32_add_def f32_is_nan_def f32_mag_def f32_is_inf_def f32_units_def f32_neg_def
  mag_units_def round_units_def bit_len.simps Let_def

text \<open>The additions of the example of the source, \<open>2^24 + 1 + -2^24 + 1\<close>.\<close>

lemma r8_additions:
  "f32_add 0 0x4B800000 = 0x4B800000" "f32_add 0 0x3F800000 = 0x3F800000"
  "f32_add 0 0xCB800000 = 0xCB800000" "f32_add 0x4B800000 0x3F800000 = 0x4B800000"
  "f32_add 0x4B800000 0xCB800000 = 0"
  by (simp_all add: f32_eval)

definition r8_partial :: "u64 \<Rightarrow> return_frame" where
  "r8_partial k = sample_return\<lparr>rt_executor_id := k,
     rt_rows := [\<lparr>rr_codes = [[0x4B80, 0x3F80, 0xCB80, 0x3F80] ! unat k]\<rparr>]\<rparr>"

subsection \<open>Properties\<close>

text \<open>C1: Whatever order the partial frames of a window arrive in, however often each is
  delivered, and however they are cut into multi-row frames, once every token row has its four
  ranks the coordinator returns the same sums: each element summed over the ranks in rank order
  0 to 3. (Two frames cover the same slots or disjoint ones, as retransmissions do.)\<close>

theorem sum_ignores_delivery:
  assumes "\<forall>f \<in> set fs. partial_frame q l R H D f" "R < 2 ^ 64"
    and "\<forall>f \<in> set fs. \<forall>g \<in> set fs. frame_slots f = frame_slots g \<or> frame_slots f \<inter> frame_slots g = {}"
    and "\<Union> (frame_slots ` set fs) = {..<R} \<times> {..<SPARKS}"
  shows "cs_result (deliver (coordinator_sum_new R H naive_none) fs) = Ok (rank_order_result R H D)"
  by (rule complete_result) (use deliver_shows [OF assms(1-3)] assms(4) in simp)

text \<open>The example of the source: partials \<open>2^24, 1, -2^24, 1\<close> sum to 1 in rank order, also when the
  second and third swap and one is delivered twice.\<close>

theorem sum_ignores_delivery_witness:
  "cs_result (deliver (coordinator_sum_new 1 1 naive_none) (map r8_partial [0, 2, 1, 2, 3])) = Ok [0x3F800000]"
proof -
  let ?D = "\<lambda>t k. [[0x4B80, 0x3F80, 0xCB80, 0x3F80] ! k] :: u16 list"
  have "cs_result (deliver (coordinator_sum_new 1 1 naive_none) (map r8_partial [0, 2, 1, 2, 3]))
      = Ok (rank_order_result 1 1 ?D)"
  proof (rule sum_ignores_delivery)
    show "\<forall>f \<in> set (map r8_partial [0, 2, 1, 2, 3]). partial_frame 7 3 1 1 ?D f"
      by (simp add: partial_frame_def r8_partial_def sample_return_def layout_simps)
    have slots: "frame_slots (r8_partial k) = {(0, unat k)}" for k
      by (simp add: frame_slots_def r8_partial_def sample_return_def lessThan_Suc)
    show "\<forall>f \<in> set (map r8_partial [0, 2, 1, 2, 3]). \<forall>g \<in> set (map r8_partial [0, 2, 1, 2, 3]).
        frame_slots f = frame_slots g \<or> frame_slots f \<inter> frame_slots g = {}"
      by (simp add: slots)
    have "{..<4 :: nat} = {0, 1, 2, 3}" by auto
    then show "\<Union> (frame_slots ` set (map r8_partial [0, 2, 1, 2, 3])) = {..<1} \<times> {..<SPARKS}"
      by (auto simp: slots layout_simps)
  qed simp
  also have "rank_order_result 1 1 ?D = [0x3F800000]"
    by (simp add: rank_order_result_def ordered_sum_def layout_simps upt_rec bf16_to_f32_def r8_additions)
  finally show ?thesis .
qed
end
