(* ===== verification/Ladder.thy ===== *)
theory Ladder
  imports L4 "HOL-Library.Sublist"
begin

text \<open>
  What the sequence layer of \<open>crates/mimo26-wire/src/l4.rs\<close> promises end to end: the receiver
  delivers the sender's frames exactly once and in order whatever the channel repeats, drops,
  reorders or corrupts, and the retry driver is bounded.
\<close>

subsection \<open>Sending and receiving\<close>

fun sender_send :: "wire_env \<Rightarrow> stream_sender \<Rightarrow> frame \<Rightarrow> stream_sender \<times> u8 list wire_result" where
  "sender_send env s (FRequest f) = sender_encode_request env s f"
| "sender_send env s (FReturn f) = sender_encode_return env s f"

primrec send_all :: "wire_env \<Rightarrow> stream_sender \<Rightarrow> frame list \<Rightarrow> u8 list wire_result list" where
  "send_all env s [] = []"
| "send_all env s (f # fs) = (let (s', b) = sender_send env s f in b # send_all env s' fs)"

primrec receive_all :: "wire_env \<Rightarrow> stream_receiver \<Rightarrow> u8 list list \<Rightarrow> stream_receiver \<times> frame list" where
  "receive_all env r [] = (r, [])"
| "receive_all env r (d # ds) =
     (case accept env r d of
        (r', Ok f) \<Rightarrow> (case receive_all env r' ds of (r'', fs) \<Rightarrow> (r'', f # fs))
      | (r', Err e) \<Rightarrow> receive_all env r' ds
      | (r', Panic) \<Rightarrow> receive_all env r' ds)"

fun stamp :: "u64 \<Rightarrow> frame \<Rightarrow> frame" where
  "stamp seq (FRequest f) = FRequest (f\<lparr>rq_seq := seq\<rparr>)"
| "stamp seq (FReturn f) = FReturn (f\<lparr>rt_seq := seq\<rparr>)"

lemma frame_seq_stamp [simp]: "frame_seq_of (stamp seq f) = seq"
  by (cases f) simp_all

text \<open>Returns that the decoder will not refuse as un-pre-summed.\<close>

fun sendable_status :: "frame \<Rightarrow> bool" where
  "sendable_status (FRequest f) = True"
| "sendable_status (FReturn f) =
     (rt_status f = StatusOk \<longrightarrow> rt_flags f AND FLAG_RETURN_REQUIRED = FLAG_RETURN_REQUIRED)"

lemma sender_send_decodes:
  assumes "snd (sender_send env \<lparr>snd_naive = naive_none, snd_next_seq = seq\<rparr> f) = Ok bytes" "sendable_status f"
  shows "decode_frame env bytes naive_none = Ok (stamp seq f)"
proof (cases f)
  case (FRequest q)
  then show ?thesis using assms by (simp add: sender_encode_request_def Let_def decode_encoded_request)
next
  case (FReturn t)
  then have "encode_return env (t\<lparr>rt_seq := seq\<rparr>) naive_none = Ok bytes"
    using assms(1) by (simp add: sender_encode_return_def Let_def encode_return_seq_stamp)
  from decode_encoded_return [OF this] show ?thesis using FReturn assms(2) by simp
qed

lemma sender_send_next:
  "fst (sender_send env s f) = s\<lparr>snd_next_seq := snd_next_seq s + 1\<rparr>"
  by (cases f) (simp_all add: sender_encode_request_def sender_encode_return_def Let_def)

lemma send_all_nth:
  assumes "i < length fs"
  shows "send_all env \<lparr>snd_naive = naive, snd_next_seq = seq\<rparr> fs ! i
    = snd (sender_send env \<lparr>snd_naive = naive, snd_next_seq = seq + of_nat i\<rparr> (fs ! i))"
  using assms
proof (induction fs arbitrary: i seq)
  case Nil
  then show ?case by simp
next
  case (Cons f fs)
  have "fst (sender_send env \<lparr>snd_naive = naive, snd_next_seq = seq\<rparr> f) = \<lparr>snd_naive = naive, snd_next_seq = seq + 1\<rparr>"
    by (simp add: sender_send_next)
  with Cons show ?case by (cases i) (auto simp: split_beta Let_def add.assoc)
qed

lemma length_send_all: "length (send_all env s fs) = length fs"
  by (induction fs arbitrary: s) (simp_all add: split_beta)

text \<open>Every delivered byte string is one of the sent frames or does not decode.\<close>

definition channel_delivers :: "wire_env \<Rightarrow> u8 list list \<Rightarrow> u8 list list \<Rightarrow> bool" where
  "channel_delivers env sent ds \<longleftrightarrow>
     (\<forall>d \<in> set ds. d \<in> set sent \<or> \<not> is_ok (decode_frame env d naive_none))"

lemma receive_from:
  assumes dec: "\<forall>i < length fs. decode_frame env (sent ! i) naive_none = Ok (stamp (of_nat i) (fs ! i))"
    and len: "length sent = length fs" "length fs < 2 ^ 64"
    and ds: "channel_delivers env sent ds" and m: "m \<le> length fs"
  shows "\<exists>n. m \<le> n \<and> n \<le> length fs \<and>
    receive_all env \<lparr>rcv_naive = naive_none, rcv_expected = of_nat m\<rparr> ds
      = (\<lparr>rcv_naive = naive_none, rcv_expected = of_nat n\<rparr>, map (\<lambda>i. stamp (of_nat i) (fs ! i)) [m..<n]) \<and>
    (subseq (drop m sent) ds \<longrightarrow> n = length fs)"
  using ds m
proof (induction ds arbitrary: m)
  case Nil
  have "m = length fs" if "subseq (drop m sent) []"
    using list_emb_length [OF that] len Nil.prems(2) by simp
  then show ?case using Nil.prems(2) by (intro exI [of _ m]) simp
next
  case (Cons d ds)
  let ?r = "\<lparr>rcv_naive = naive_none, rcv_expected = of_nat m\<rparr>"
  have ch: "channel_delivers env sent ds" using Cons.prems by (simp add: channel_delivers_def)
  show ?case
  proof (cases "m < length fs \<and> d = sent ! m")
    case True
    have "accept env ?r d = (\<lparr>rcv_naive = naive_none, rcv_expected = of_nat (Suc m)\<rparr>, Ok (stamp (of_nat m) (fs ! m)))"
    proof -
      have "decode_frame env d naive_none = Ok (stamp (of_nat m) (fs ! m))" using dec True by simp
      then show ?thesis by (simp add: accept_def Let_def add.commute)
    qed
    moreover have "Suc m \<le> length fs" using True by simp
    from Cons.IH [OF ch this] obtain n where n: "Suc m \<le> n" "n \<le> length fs"
      "receive_all env \<lparr>rcv_naive = naive_none, rcv_expected = of_nat (Suc m)\<rparr> ds
        = (\<lparr>rcv_naive = naive_none, rcv_expected = of_nat n\<rparr>, map (\<lambda>i. stamp (of_nat i) (fs ! i)) [Suc m..<n])"
      "subseq (drop (Suc m) sent) ds \<longrightarrow> n = length fs" by blast
    moreover have "[m..<n] = m # [Suc m..<n]" using n(1) by (simp add: upt_conv_Cons)
    moreover have "subseq (drop m sent) (d # ds) \<longrightarrow> subseq (drop (Suc m) sent) ds"
    proof -
      have "drop m sent = d # drop (Suc m) sent"
        using True len(1) by (simp add: Cons_nth_drop_Suc)
      then show ?thesis by simp
    qed
    ultimately show ?thesis by (intro exI [of _ n]) auto
  next
    case False
    have rej: "\<exists>e. accept env ?r d = (?r, e) \<and> \<not> is_ok e"
    proof (cases "is_ok (decode_frame env d naive_none)")
      case False
      then show ?thesis by (cases "decode_frame env d naive_none") (simp_all add: accept_def)
    next
      case True
      then obtain i where i: "i < length fs" "d = sent ! i"
        using Cons.prems(1) len(1) by (auto simp: channel_delivers_def in_set_conv_nth)
      have "of_nat i \<noteq> (of_nat m :: u64)"
      proof
        assume "of_nat i = (of_nat m :: u64)"
        then have "unat (of_nat i :: u64) = unat (of_nat m :: u64)" by simp
        moreover have "unat (of_nat i :: u64) = i" "unat (of_nat m :: u64) = m"
          by (rule unat_of_nat_u64, use i(1) len(2) Cons.prems(2) in simp)+
        ultimately have "i = m" by simp
        with False i show False by simp
      qed
      then show ?thesis using dec i by (simp add: accept_def Let_def)
    qed
    from Cons.IH [OF ch Cons.prems(2)] obtain n where n: "m \<le> n" "n \<le> length fs"
      "receive_all env ?r ds
        = (\<lparr>rcv_naive = naive_none, rcv_expected = of_nat n\<rparr>, map (\<lambda>i. stamp (of_nat i) (fs ! i)) [m..<n])"
      "subseq (drop m sent) ds \<longrightarrow> n = length fs" by blast
    have sub: "subseq (drop m sent) (d # ds) \<longrightarrow> subseq (drop m sent) ds"
    proof (cases "m < length fs")
      case True
      then have "drop m sent = sent ! m # drop (Suc m) sent" using len(1) by (simp add: Cons_nth_drop_Suc)
      with False True show ?thesis by auto
    next
      case False
      then show ?thesis using len(1) by simp
    qed
    have "receive_all env ?r (d # ds) = receive_all env ?r ds"
      using rej by (auto split: outcome.splits)
    with n sub show ?thesis by (intro exI [of _ n]) auto
  qed
qed

subsection \<open>Retrying\<close>

text \<open>The state before the \<open>i\<close>-th call of \<open>op\<close> and the result of that call.\<close>

primrec retry_state :: "('s \<Rightarrow> 's \<times> 'a wire_result) \<Rightarrow> 's \<Rightarrow> nat \<Rightarrow> 's" where
  "retry_state op s 0 = s"
| "retry_state op s (Suc i) = fst (op (retry_state op s i))"

definition retry_result :: "('s \<Rightarrow> 's \<times> 'a wire_result) \<Rightarrow> 's \<Rightarrow> nat \<Rightarrow> 'a wire_result" where
  "retry_result op s i = snd (op (retry_state op s i))"

definition retry_class :: "'a wire_result \<Rightarrow> bool" where
  "retry_class r = (case r of Ok v \<Rightarrow> False | Panic \<Rightarrow> False | Err e \<Rightarrow> error_disposition e = Retry)"

lemma retry_state_shift: "retry_state op (fst (op s)) i = retry_state op s (Suc i)"
  by (induction i) simp_all

lemma retry_loop_calls:
  "\<exists>n. a + n < max m (Suc a) \<and> (\<forall>i < n. retry_class (retry_result op s i)) \<and>
    fst (retry_loop m op a s) = retry_state op s (Suc n) \<and>
    (if retry_class (retry_result op s n)
     then a + n + 1 \<ge> m \<and> (\<exists>e. retry_result op s n = Err e \<and> snd (retry_loop m op a s) = Err (RetryExhausted (of_nat (a + n)) e))
     else snd (retry_loop m op a s) = retry_result op s n)"
proof (induction m op a s rule: retry_loop.induct)
  case (1 m op a s)
  show ?case
  proof (cases "retry_class (snd (op s)) \<and> a + 1 < m")
    case True
    then obtain s' e where o: "op s = (s', Err e)" "error_disposition e = Retry"
      by (cases "op s") (auto simp: retry_class_def split: outcome.splits)
    have step: "retry_loop m op a s = retry_loop m op (a + 1) s'"
      using o True by (subst retry_loop.simps) simp
    have sh: "retry_state op s' i = retry_state op s (Suc i)" "retry_result op s' i = retry_result op s (Suc i)" for i
      using retry_state_shift [of op s i] o by (simp_all add: retry_result_def)
    from 1 [OF o(1) [symmetric] refl] o True obtain n where
      n: "a + 1 + n < max m (Suc (a + 1))" "\<forall>i < n. retry_class (retry_result op s' i)"
      "fst (retry_loop m op (a + 1) s') = retry_state op s' (Suc n)"
      "if retry_class (retry_result op s' n)
       then a + 1 + n + 1 \<ge> m \<and> (\<exists>e. retry_result op s' n = Err e \<and> snd (retry_loop m op (a + 1) s') = Err (RetryExhausted (of_nat (a + 1 + n)) e))
       else snd (retry_loop m op (a + 1) s') = retry_result op s' n"
      by (auto simp del: retry_state.simps of_nat_add)
    have ar: "a + 1 + n = a + Suc n" by simp
    have first: "retry_class (retry_result op s 0)" using True by (simp add: retry_result_def)
    show ?thesis
    proof (intro exI [of _ "Suc n"] conjI)
      show "a + Suc n < max m (Suc a)" using n(1) True by auto
      show "\<forall>i < Suc n. retry_class (retry_result op s i)"
        using n(2) first by (auto simp: sh less_Suc_eq_0_disj)
      show "fst (retry_loop m op a s) = retry_state op s (Suc (Suc n))"
        using n(3) by (simp only: step sh)
      show "if retry_class (retry_result op s (Suc n))
       then a + Suc n + 1 \<ge> m \<and> (\<exists>e. retry_result op s (Suc n) = Err e \<and> snd (retry_loop m op a s) = Err (RetryExhausted (of_nat (a + Suc n)) e))
       else snd (retry_loop m op a s) = retry_result op s (Suc n)"
        unfolding step using n(4) [unfolded sh ar] .
    qed
  next
    case False
    have step: "retry_loop m op a s = (case op s of
        (s', Ok v) \<Rightarrow> (s', Ok v)
      | (s', Panic) \<Rightarrow> (s', Panic)
      | (s', Err e) \<Rightarrow> if error_disposition e = Retry then (s', Err (RetryExhausted (of_nat a) e)) else (s', Err e))"
      using False by (subst retry_loop.simps) (auto simp: retry_class_def split: outcome.splits prod.splits)
    show ?thesis
      unfolding step using False
      by (intro exI [of _ 0]) (auto simp: retry_class_def retry_result_def not_less split: outcome.splits prod.splits)
  qed
qed

subsection \<open>Properties\<close>

text \<open>C6: The frames a sender stamps come out of the receiver exactly once, in the order sent and
  unchanged but for the stamp: whatever the channel delivers (the sent frames in any order, any
  number of times, mixed with byte strings that do not decode), what is accepted is a prefix of
  what was sent, and all of it as soon as the sent sequence is a subsequence of the deliveries.\<close>

theorem exactly_once_in_order:
  assumes "send_all env (sender_new naive_none) fs = map Ok sent" "length fs < 2 ^ 64"
    and "\<forall>f \<in> set fs. sendable_status f" "channel_delivers env sent ds"
  shows "\<exists>n \<le> length fs. snd (receive_all env (receiver_new naive_none) ds)
      = map (\<lambda>i. stamp (of_nat i) (fs ! i)) [0..<n] \<and> (subseq sent ds \<longrightarrow> n = length fs)"
proof -
  have len: "length sent = length fs"
    using arg_cong [OF assms(1), of length] by (simp add: length_send_all)
  have "\<forall>i < length fs. decode_frame env (sent ! i) naive_none = Ok (stamp (of_nat i) (fs ! i))"
  proof (intro allI impI)
    fix i assume i: "i < length fs"
    have "send_all env (sender_new naive_none) fs ! i = Ok (sent ! i)"
      using assms(1) i len by simp
    then have "snd (sender_send env \<lparr>snd_naive = naive_none, snd_next_seq = of_nat i\<rparr> (fs ! i)) = Ok (sent ! i)"
      using send_all_nth [OF i, of env naive_none 0] by (simp add: sender_new_def)
    then show "decode_frame env (sent ! i) naive_none = Ok (stamp (of_nat i) (fs ! i))"
      by (rule sender_send_decodes) (use assms(3) i in simp)
  qed
  from receive_from [OF this len assms(2,4), of 0] show ?thesis
    by (auto simp: receiver_new_def)
qed

theorem exactly_once_in_order_witness:
  "\<exists>b0 b1. send_all sample_env (sender_new naive_none) [FRequest sample_request, FReturn sample_return] = [Ok b0, Ok b1] \<and>
     snd (receive_all sample_env (receiver_new naive_none) [b1, [], b0, b0, b1])
       = [stamp 0 (FRequest sample_request), stamp 1 (FReturn sample_return)]"
proof -
  let ?fs = "[FRequest sample_request, FReturn sample_return]"
  obtain b0 where b0: "encode_request_seq sample_env sample_request 0 naive_none = Ok b0"
    unfolding encode_request_seal [OF sample_request_sendable]
    using seal_Ok by (metis length_append length_write_header le_add1)
  obtain b1 where b1: "encode_return_seq sample_env sample_return 1 naive_none = Ok b1"
    unfolding encode_return_seal [OF sample_return_sendable sample_return_codes]
    using seal_Ok by (metis length_append length_write_header le_add1)
  have sent: "send_all sample_env (sender_new naive_none) ?fs = map Ok [b0, b1]"
    by (simp add: sender_new_def sender_encode_request_def sender_encode_return_def b0 b1)
  have "decode_frame sample_env [] naive_none = Err (TooShort 128 0)"
    by (simp add: decode_frame_def parse_header_def layout_simps)
  then have ch: "channel_delivers sample_env [b0, b1] [b1, [], b0, b0, b1]"
    by (simp add: channel_delivers_def)
  have st: "\<forall>f \<in> set ?fs. sendable_status f" by (simp add: sample_return_def)
  have "length ?fs < 2 ^ 64" by simp
  from exactly_once_in_order [OF sent this st ch] obtain n where n: "snd (receive_all sample_env (receiver_new naive_none) [b1, [], b0, b0, b1])
      = map (\<lambda>i. stamp (of_nat i) (?fs ! i)) [0..<n]" "subseq [b0, b1] [b1, [], b0, b0, b1] \<longrightarrow> n = length ?fs"
    by blast
  have "subseq [b0, b1] [b1, [], b0, b0, b1]" by auto
  then have "n = 2" using n(2) by simp
  then have "snd (receive_all sample_env (receiver_new naive_none) [b1, [], b0, b0, b1])
      = map (\<lambda>i. stamp (of_nat i) (?fs ! i)) [0, 1]"
    unfolding n(1) by (simp add: upt_rec)
  then show ?thesis using sent by (intro exI [of _ b0] exI [of _ b1] conjI) simp_all
qed

text \<open>C23: The retry driver calls its operation at least once and at most \<open>max_attempts\<close> times
  (once when that is 0), goes on only after a retry-class error, returns the first other result,
  and reports the last error as exhausted when the budget is used up.\<close>

theorem retry_bounded:
  "\<exists>n. n < max (unat max_attempts) 1 \<and> (\<forall>i < n. retry_class (retry_result op s i)) \<and>
    fst (retry_until max_attempts op s) = retry_state op s (Suc n) \<and>
    (if retry_class (retry_result op s n)
     then n + 1 \<ge> unat max_attempts \<and> (\<exists>e. retry_result op s n = Err e \<and>
            snd (retry_until max_attempts op s) = Err (RetryExhausted (of_nat n) e))
     else snd (retry_until max_attempts op s) = retry_result op s n)"
  using retry_loop_calls [of 0 "unat max_attempts" op s]
  by (simp only: retry_until_def add_0 One_nat_def)

theorem retry_bounded_witness:
  "snd (retry_until 4 (\<lambda>k. (Suc k, Err (Corrupt 0 0 0) :: unit wire_result)) 0)
     = Err (RetryExhausted 3 (Corrupt 0 0 0))"
proof -
  let ?op = "\<lambda>k. (Suc k, Err (Corrupt 0 0 0) :: unit wire_result)"
  have r: "retry_result ?op 0 i = Err (Corrupt 0 0 0)" for i by (simp add: retry_result_def)
  from retry_bounded [of 4 ?op 0] obtain n where n: "n < 4" "n + 1 \<ge> 4"
    "snd (retry_until 4 ?op 0) = Err (RetryExhausted (of_nat n) (Corrupt 0 0 0))"
    by (auto simp: r retry_class_def)
  then have "n = 3" by simp
  with n(3) show ?thesis by simp
qed

end
