(* ===== verification/Phase.thy ===== *)
theory Phase
  imports Prelude
begin

text \<open>
  The phase contract of the KV cache, \<open>crates/mimo26-coordinator/src/phase.rs\<close>: provenance by
  role, the arm registry, validation of a cache hit, and the run-length packing of a conversation
  into phase-homogeneous ranges. Hash maps and hash sets are maps and sets.
\<close>

subsection \<open>Types\<close>

datatype phase = Context | Generated

datatype role = User | System | Assistant | Tool

fun phase_for_role :: "role \<Rightarrow> phase" where
  "phase_for_role User = Context"
| "phase_for_role System = Context"
| "phase_for_role Tool = Context"
| "phase_for_role Assistant = Generated"

datatype phase_layer_kind = LkGa | LkSwa

datatype derivation_path =
    InitialPrefill | ChunkedPrefillContinuation | PrefixCacheHit | EvictionRebuild | PrefixResend
  | PreemptionResume | ContinueRequest | RejectedDraftRederivation | HistoryDivergence

datatype lattice_family = EFp32 | EBf16 | EW4A8V1

type_synonym arm_id = string

definition SINGLE_ARM :: arm_id where "SINGLE_ARM = ''e-fp32-v1''"
definition ATTENTION_ARM :: arm_id where "ATTENTION_ARM = ''a-f32q-v1''"

record arm =
  arm_ident :: arm_id
  arm_version_no :: u32
  arm_lattice :: lattice_family

datatype equiv_class = EcBitwise | EcTolerance | EcNone

definition class_for :: "arm \<Rightarrow> arm \<Rightarrow> equiv_class" where
  "class_for a b =
     (if arm_ident a = arm_ident b then EcBitwise
      else if arm_lattice a = arm_lattice b then EcTolerance
      else EcNone)"

datatype page_state = PsValid | PsInvalid | PsStale

type_synonym digest = "u8 list"

record kv_page =
  kp_prefix_key :: u64
  kp_position_range :: "u64 \<times> u64"
  kp_layer_kind :: phase_layer_kind
  kp_phase_tag :: phase
  kp_arm_id :: arm_id
  kp_arm_version :: u32
  kp_phi_version :: u32
  kp_derivation_path :: derivation_path
  kp_payload_digest :: digest
  kp_state :: page_state

record page_key =
  pk_prefix_key :: u64
  pk_position_range :: "u64 \<times> u64"
  pk_phase_tag :: phase

definition page_key_of :: "kv_page \<Rightarrow> page_key" where
  "page_key_of p = \<lparr>pk_prefix_key = kp_prefix_key p, pk_position_range = kp_position_range p,
     pk_phase_tag = kp_phase_tag p\<rparr>"

datatype phase_error =
    UnregisteredPhase phase
  | UnregisteredArm arm_id
  | UnregisteredQuad u32 phase arm_id derivation_path
  | PhaseTagMismatch phase phase
  | ArmMismatch arm_id arm_id
  | MissingSpan u64

datatype hit_verdict = HitValid | HitStale

subsection \<open>ArmRegistry\<close>

record arm_registry =
  ar_phi_version :: u32
  ar_phi :: "phase \<Rightarrow> arm_id option"
  ar_arms :: "arm_id \<Rightarrow> arm option"
  ar_legal :: "(u32 \<times> phase \<times> arm_id \<times> derivation_path) set"

definition registry_new :: arm_registry where
  "registry_new = \<lparr>ar_phi_version = 1, ar_phi = Map.empty, ar_arms = Map.empty, ar_legal = {}\<rparr>"

definition bump_phi_version :: "arm_registry \<Rightarrow> arm_registry \<times> u32" where
  "bump_phi_version r =
     (let r = r\<lparr>ar_phi_version := ar_phi_version r + 1\<rparr> in (r, ar_phi_version r))"

definition register_arm :: "arm_registry \<Rightarrow> arm \<Rightarrow> arm_registry" where
  "register_arm r a = r\<lparr>ar_arms := (ar_arms r)(arm_ident a \<mapsto> a)\<rparr>"

definition set_phi :: "arm_registry \<Rightarrow> phase \<Rightarrow> arm_id \<Rightarrow> arm_registry" where
  "set_phi r ph a = r\<lparr>ar_phi := (ar_phi r)(ph \<mapsto> a)\<rparr>"

definition allow_path :: "arm_registry \<Rightarrow> phase \<Rightarrow> arm_id \<Rightarrow> derivation_path \<Rightarrow> arm_registry" where
  "allow_path r ph a path = r\<lparr>ar_legal := insert (ar_phi_version r, ph, a, path) (ar_legal r)\<rparr>"

definition arm_for :: "arm_registry \<Rightarrow> phase \<Rightarrow> (arm, phase_error) outcome" where
  "arm_for r ph =
     (case ar_phi r ph of None \<Rightarrow> Err (UnregisteredPhase ph)
      | Some i \<Rightarrow> (case ar_arms r i of None \<Rightarrow> Err (UnregisteredArm i) | Some a \<Rightarrow> Ok a))"

definition resolve :: "arm_registry \<Rightarrow> phase \<Rightarrow> derivation_path \<Rightarrow> (arm, phase_error) outcome" where
  "resolve r ph path =
     (case ar_phi r ph of None \<Rightarrow> Err (UnregisteredPhase ph)
      | Some i \<Rightarrow>
        (case ar_arms r i of None \<Rightarrow> Err (UnregisteredArm i)
         | Some a \<Rightarrow>
           if (ar_phi_version r, ph, i, path) \<notin> ar_legal r
           then Err (UnregisteredQuad (ar_phi_version r) ph i path) else Ok a))"

definition validate_cache_hit :: "kv_page \<Rightarrow> phase \<Rightarrow> arm_registry \<Rightarrow> (hit_verdict, phase_error) outcome" where
  "validate_cache_hit stored requested_phase registry =
     (if kp_phi_version stored \<noteq> ar_phi_version registry then Ok HitStale
      else if kp_phase_tag stored \<noteq> requested_phase
      then Err (PhaseTagMismatch (kp_phase_tag stored) requested_phase)
      else
      obind (arm_for registry (kp_phase_tag stored)) (\<lambda>arm.
      if kp_arm_id stored \<noteq> arm_ident arm then Err (ArmMismatch (kp_arm_id stored) (arm_ident arm))
      else Ok HitValid))"

subsection \<open>Run-length encoding\<close>

text \<open>The loop over the tail; \<open>i\<close> is the index \<open>enumerate\<close> gives, \<open>n\<close> the length of the whole.\<close>

fun rle_loop :: "nat \<Rightarrow> nat \<Rightarrow> phase list \<Rightarrow> phase \<Rightarrow> nat \<Rightarrow> (phase \<times> nat \<times> nat) list \<Rightarrow> (phase \<times> nat \<times> nat) list" where
  "rle_loop n i [] cur start out = out @ [(cur, start, n)]"
| "rle_loop n i (p # rest) cur start out =
     (if p \<noteq> cur then rle_loop n (i + 1) rest p (i + 1) (out @ [(cur, start, i + 1)])
      else rle_loop n (i + 1) rest cur start out)"

definition run_length_encode :: "phase list \<Rightarrow> (phase \<times> nat \<times> nat) list" where
  "run_length_encode phases =
     (case phases of [] \<Rightarrow> [] | first # rest \<Rightarrow> rle_loop (length phases) 0 rest first 0 [])"

text \<open>Runs that tile a stream: each is non-empty and of one phase, each starts where the last
  ended, and neighbours differ, so no run can be extended.\<close>

fun runs_tile :: "nat \<Rightarrow> (phase \<times> nat \<times> nat) list \<Rightarrow> phase list \<Rightarrow> bool" where
  "runs_tile pos [] phases = (phases = [])"
| "runs_tile pos ((p, s, e) # runs) phases =
     (s = pos \<and> s < e \<and> e - s \<le> length phases \<and> take (e - s) phases = replicate (e - s) p \<and>
      (drop (e - s) phases = [] \<or> hd (drop (e - s) phases) \<noteq> p) \<and>
      runs_tile e runs (drop (e - s) phases))"

lemma rle_loop_out: "rle_loop n i rest cur start (out @ out') = out @ rle_loop n i rest cur start out'"
  by (induction rest arbitrary: i cur start out') simp_all

lemma rle_loop_tiles:
  assumes "start \<le> i" "n = i + 1 + length rest"
  shows "runs_tile start (rle_loop n i rest cur start []) (replicate (i + 1 - start) cur @ rest)"
  using assms
proof (induction rest arbitrary: i cur start)
  case Nil
  then show ?case by simp
next
  case (Cons p rest)
  show ?case
  proof (cases "p = cur")
    case True
    have "replicate (i + 1 + 1 - start) cur @ rest = replicate (i + 1 - start) cur @ p # rest"
      using Cons.prems(1) True by (simp add: Suc_diff_le replicate_app_Cons_same)
    with Cons.IH [of start "i + 1" cur] Cons.prems True show ?thesis by simp
  next
    case False
    have out: "rle_loop n (i + 1) rest p (i + 1) [(cur, start, i + 1)]
        = (cur, start, i + 1) # rle_loop n (i + 1) rest p (i + 1) []"
      using rle_loop_out [of n "i + 1" rest p "i + 1" "[(cur, start, i + 1)]" "[]"] by simp
    have "runs_tile (i + 1) (rle_loop n (i + 1) rest p (i + 1) []) (p # rest)"
      using Cons.IH [of "i + 1" "i + 1" p] Cons.prems by simp
    with False Cons.prems out show ?thesis by simp
  qed
qed

subsection \<open>Properties\<close>

text \<open>C25: A conversation is packed into phase-homogeneous ranges: the runs tile it from position
  0 to its end, each run is non-empty and of one phase, and neighbouring runs differ in phase, so
  no page built from a run spans two phases and none could be longer.\<close>

theorem run_length_encode_tiles: "runs_tile 0 (run_length_encode phases) phases"
proof (cases phases)
  case Nil
  then show ?thesis by (simp add: run_length_encode_def)
next
  case (Cons first rest)
  with rle_loop_tiles [of 0 0 "length phases" rest first] show ?thesis
    by (simp add: run_length_encode_def)
qed

end
