(* ===== verification/Paging.thy ===== *)
theory Paging
  imports Phase "HOL-Library.Multiset"
begin

text \<open>
  The KV pool's byte accounting and the page table over it,
  \<open>crates/mimo26-coordinator/src/kv_pool.rs\<close> and \<open>paging.rs\<close>. Byte counts are \<open>u64\<close> and wrap
  where the code adds or multiplies without a check; \<open>saturating_sub\<close> stops at 0. The contract
  between the pool and its two clients, the pager and the scheduler, is the locale
  \<open>byte_ledger\<close>.
\<close>

subsection \<open>kv_pool.rs\<close>

definition GA_KV_BYTES_PER_TOKEN :: u64 where "GA_KV_BYTES_PER_TOKEN = 9 * 4 * (192 + 128)"
definition SWA_RING_BYTES_PER_SEQ :: u64 where "SWA_RING_BYTES_PER_SEQ = 39 * 8 * (192 + 128) * 128"
definition DEFAULT_ADMIT_RESERVE :: u64 where "DEFAULT_ADMIT_RESERVE = 8192"
definition MAX_OUTPUT_TOKENS :: u64 where "MAX_OUTPUT_TOKENS = 65536"

definition request_reservation :: "u64 \<Rightarrow> u64 \<Rightarrow> u64 \<Rightarrow> u64" where
  "request_reservation prompt_tokens max_tokens admit_reserve =
     (let output_reserve = min max_tokens admit_reserve in
      prompt_tokens * GA_KV_BYTES_PER_TOKEN + SWA_RING_BYTES_PER_SEQ
        + output_reserve * GA_KV_BYTES_PER_TOKEN)"

definition full_lifetime_reservation :: "u64 \<Rightarrow> u64 \<Rightarrow> u64" where
  "full_lifetime_reservation prompt_tokens max_tokens =
     prompt_tokens * GA_KV_BYTES_PER_TOKEN + SWA_RING_BYTES_PER_SEQ
       + max_tokens * GA_KV_BYTES_PER_TOKEN"

datatype admission = Admitted u64 | Rejected

record kv_pool =
  pool_total :: u64
  pool_used :: u64

definition pool_new :: "u64 \<Rightarrow> kv_pool" where
  "pool_new measured_bytes = \<lparr>pool_total = measured_bytes, pool_used = 0\<rparr>"

definition saturating_sub :: "u64 \<Rightarrow> u64 \<Rightarrow> u64" where
  "saturating_sub a b = (if b \<le> a then a - b else 0)"

definition pool_free :: "kv_pool \<Rightarrow> u64" where
  "pool_free p = saturating_sub (pool_total p) (pool_used p)"

definition pool_admit :: "kv_pool \<Rightarrow> u64 \<Rightarrow> u64 \<Rightarrow> u64 \<Rightarrow> kv_pool \<times> admission" where
  "pool_admit p prompt_tokens max_tokens admit_reserve =
     (let reservation = request_reservation prompt_tokens max_tokens admit_reserve in
      if pool_used p + reservation > pool_total p then (p, Rejected)
      else (p\<lparr>pool_used := pool_used p + reservation\<rparr>, Admitted reservation))"

definition pool_grow :: "kv_pool \<Rightarrow> u64 \<Rightarrow> kv_pool \<times> u64" where
  "pool_grow p extra_tokens =
     (let extra = extra_tokens * GA_KV_BYTES_PER_TOKEN in
      (p\<lparr>pool_used := pool_used p + extra\<rparr>, extra))"

definition pool_reserve_bytes :: "kv_pool \<Rightarrow> u64 \<Rightarrow> kv_pool \<times> bool" where
  "pool_reserve_bytes p bytes =
     (if pool_used p + bytes > pool_total p then (p, False)
      else (p\<lparr>pool_used := pool_used p + bytes\<rparr>, True))"

definition pool_release :: "kv_pool \<Rightarrow> u64 \<Rightarrow> kv_pool" where
  "pool_release p reservation = p\<lparr>pool_used := saturating_sub (pool_used p) reservation\<rparr>"

subsection \<open>The contract of a pool\<close>

text \<open>
  What a client relies on: a reservation that does not wrap is granted exactly when it fits and is
  then counted, a refusal changes nothing, a release gives the bytes back. A client that keeps the
  multiset of its live reservations has their sum as the pool's use.
\<close>

locale byte_ledger =
  fixes used total :: "'p \<Rightarrow> u64"
    and reserve :: "'p \<Rightarrow> u64 \<Rightarrow> 'p \<times> bool"
    and release :: "'p \<Rightarrow> u64 \<Rightarrow> 'p"
  assumes granted: "unat (used p) + unat n < 2 ^ 64 \<Longrightarrow> reserve p n = (p', True) \<Longrightarrow>
      unat (used p') = unat (used p) + unat n \<and> used p' \<le> total p \<and> total p' = total p"
    and fits: "unat (used p) + unat n \<le> unat (total p) \<Longrightarrow> snd (reserve p n)"
    and refused: "reserve p n = (p', False) \<Longrightarrow> p' = p"
    and released: "unat (used (release p n)) = unat (used p) - unat n \<and> total (release p n) = total p"
begin

definition balanced :: "'p \<Rightarrow> u64 multiset \<Rightarrow> bool" where
  "balanced p M \<longleftrightarrow> unat (used p) = (\<Sum>n \<in># M. unat n) \<and> used p \<le> total p"

lemma reserve_balanced:
  assumes "balanced p M" "unat (used p) + unat n < 2 ^ 64" "reserve p n = (p', True)"
  shows "balanced p' (add_mset n M)" "total p' = total p"
  using assms granted [OF assms(2,3)] by (simp_all add: balanced_def)

lemma release_balanced:
  assumes "balanced p (add_mset n M)"
  shows "balanced (release p n) M" "total (release p n) = total p"
proof -
  have u: "unat (used p) = unat n + (\<Sum>n \<in># M. unat n)" "used p \<le> total p"
    using assms by (simp_all add: balanced_def)
  then have v: "unat (used (release p n)) = (\<Sum>n \<in># M. unat n)" using released [of p n] by simp
  then have "unat (used (release p n)) \<le> unat (total p)" using u by (simp add: word_le_nat_alt)
  then show "balanced (release p n) M" using v released [of p n] by (simp add: balanced_def word_le_nat_alt)
  show "total (release p n) = total p" using released by simp
qed

end

lemma unat_add_no_wrap: "unat a + unat b < 2 ^ 64 \<Longrightarrow> unat (a + b) = unat a + unat b" for a b :: u64
  by (simp add: unat_word_ariths)

lemma saturating_sub_unat: "unat (saturating_sub a b) = unat a - unat b"
  by (simp add: saturating_sub_def unat_sub word_le_nat_alt)

interpretation pool: byte_ledger pool_used pool_total pool_reserve_bytes pool_release
proof
  fix p p' :: kv_pool and n :: u64
  show "unat (pool_used p) + unat n < 2 ^ 64 \<Longrightarrow> pool_reserve_bytes p n = (p', True) \<Longrightarrow>
      unat (pool_used p') = unat (pool_used p) + unat n \<and> pool_used p' \<le> pool_total p \<and> pool_total p' = pool_total p"
    by (auto simp: pool_reserve_bytes_def unat_add_no_wrap not_less split: if_splits)
  show "unat (pool_used p) + unat n \<le> unat (pool_total p) \<Longrightarrow> snd (pool_reserve_bytes p n)"
    using unat_lt [of "pool_total p"]
    by (auto simp: pool_reserve_bytes_def word_less_nat_alt unat_add_no_wrap)
  show "pool_reserve_bytes p n = (p', False) \<Longrightarrow> p' = p"
    by (auto simp: pool_reserve_bytes_def split: if_splits)
  show "unat (pool_used (pool_release p n)) = unat (pool_used p) - unat n \<and>
      pool_total (pool_release p n) = pool_total p"
    by (simp add: pool_release_def saturating_sub_unat)
qed

text \<open>Admission is a reservation of the request's bytes.\<close>

lemma pool_admit_reserve:
  "pool_admit p prompt max_tokens quantum =
     (let r = request_reservation prompt max_tokens quantum in
      case pool_reserve_bytes p r of (p', True) \<Rightarrow> (p', Admitted r) | (p', False) \<Rightarrow> (p', Rejected))"
  by (simp add: pool_admit_def pool_reserve_bytes_def Let_def)

subsection \<open>paging.rs\<close>

datatype pager_error = PoolRejected | NotFound | PagerPhase phase_error

record pager =
  pg_pool :: kv_pool
  pg_pages :: "page_key \<Rightarrow> (kv_page \<times> u64) option"

definition pager_new :: "kv_pool \<Rightarrow> pager" where
  "pager_new pool = \<lparr>pg_pool = pool, pg_pages = Map.empty\<rparr>"

definition pager_used_bytes :: "pager \<Rightarrow> u64" where "pager_used_bytes p = pool_used (pg_pool p)"
definition pager_total_bytes :: "pager \<Rightarrow> u64" where "pager_total_bytes p = pool_total (pg_pool p)"
definition pager_len :: "pager \<Rightarrow> nat" where "pager_len p = card (dom (pg_pages p))"

definition pager_allocate :: "pager \<Rightarrow> kv_page \<Rightarrow> u64 \<Rightarrow> pager \<times> (unit, pager_error) outcome" where
  "pager_allocate p page bytes =
     (let key = page_key_of page in
      case pool_reserve_bytes (pg_pool p) bytes of
        (pool, False) \<Rightarrow> (p\<lparr>pg_pool := pool\<rparr>, Err PoolRejected)
      | (pool, True) \<Rightarrow> (p\<lparr>pg_pool := pool, pg_pages := (pg_pages p)(key \<mapsto> (page, bytes))\<rparr>, Ok ()))"

definition pager_lookup :: "pager \<Rightarrow> page_key \<Rightarrow> phase \<Rightarrow> arm_registry \<Rightarrow> (hit_verdict, pager_error) outcome" where
  "pager_lookup p key requested_phase registry =
     (case pg_pages p key of None \<Rightarrow> Err NotFound
      | Some (page, _) \<Rightarrow>
        (case validate_cache_hit page requested_phase registry of
           Ok v \<Rightarrow> Ok v | Err e \<Rightarrow> Err (PagerPhase e) | Panic \<Rightarrow> Panic))"

definition pager_get :: "pager \<Rightarrow> page_key \<Rightarrow> kv_page option" where
  "pager_get p key = map_option fst (pg_pages p key)"

definition cleared_digest :: digest where "cleared_digest = replicate 32 0"

definition pager_evict :: "pager \<Rightarrow> page_key \<Rightarrow> pager \<times> kv_page option" where
  "pager_evict p key =
     (case pg_pages p key of None \<Rightarrow> (p, None)
      | Some (page, bytes) \<Rightarrow>
        (p\<lparr>pg_pages := (pg_pages p)(key := None), pg_pool := pool_release (pg_pool p) bytes\<rparr>,
         Some (page\<lparr>kp_state := PsInvalid, kp_payload_digest := cleared_digest\<rparr>)))"

subsection \<open>Reachable pagers\<close>

text \<open>What a caller does that never allocates a page under a key that is still live, with sizes
  that do not wrap the byte count.\<close>

inductive pager_reach :: "u64 \<Rightarrow> pager \<Rightarrow> bool" for measured where
  start: "pager_reach measured (pager_new (pool_new measured))"
| allocate: "pager_reach measured p \<Longrightarrow> page_key_of page \<notin> dom (pg_pages p) \<Longrightarrow>
    unat (pager_used_bytes p) + unat bytes < 2 ^ 64 \<Longrightarrow> pager_reach measured (fst (pager_allocate p page bytes))"
| evict: "pager_reach measured p \<Longrightarrow> pager_reach measured (fst (pager_evict p key))"

definition live_bytes :: "pager \<Rightarrow> u64 multiset" where
  "live_bytes p = image_mset (\<lambda>k. snd (the (pg_pages p k))) (mset_set (dom (pg_pages p)))"

definition pager_ok :: "u64 \<Rightarrow> pager \<Rightarrow> bool" where
  "pager_ok measured p \<longleftrightarrow> finite (dom (pg_pages p)) \<and> pool.balanced (pg_pool p) (live_bytes p) \<and>
     pager_total_bytes p = measured \<and>
     (\<forall>k page b. pg_pages p k = Some (page, b) \<longrightarrow> page_key_of page = k)"

lemma live_bytes_insert:
  assumes "finite (dom (pg_pages p))" "k \<notin> dom (pg_pages p)"
  shows "live_bytes (p\<lparr>pg_pool := q, pg_pages := (pg_pages p)(k \<mapsto> (page, b))\<rparr>) = add_mset b (live_bytes p)"
proof -
  have "image_mset (\<lambda>k'. snd (the (if k' = k then Some (page, b) else pg_pages p k'))) (mset_set (dom (pg_pages p)))
      = image_mset (\<lambda>k'. snd (the (pg_pages p k'))) (mset_set (dom (pg_pages p)))"
    by (rule image_mset_cong) (use assms in auto)
  then show ?thesis using assms by (simp add: live_bytes_def)
qed

lemma live_bytes_remove:
  assumes "finite (dom (pg_pages p))" "pg_pages p k = Some (page, b)"
  shows "live_bytes p = add_mset b (live_bytes (p\<lparr>pg_pages := (pg_pages p)(k := None), pg_pool := q\<rparr>))"
proof -
  have d: "dom (pg_pages p) = insert k (dom (pg_pages p) - {k})" using assms(2) by auto
  have "image_mset (\<lambda>k'. snd (the (if k' = k then None else pg_pages p k'))) (mset_set (dom (pg_pages p) - {k}))
      = image_mset (\<lambda>k'. snd (the (pg_pages p k'))) (mset_set (dom (pg_pages p) - {k}))"
    by (rule image_mset_cong) (use assms(1) in auto)
  moreover have "mset_set (dom (pg_pages p)) = add_mset k (mset_set (dom (pg_pages p) - {k}))"
    using assms by (subst d) (simp del: insert_Diff_single)
  ultimately show ?thesis using assms(2) by (simp add: live_bytes_def)
qed

lemma pager_reach_ok: "pager_reach measured p \<Longrightarrow> pager_ok measured p"
proof (induction rule: pager_reach.induct)
  case start
  show ?case
    by (simp add: pager_ok_def pager_new_def pool_new_def live_bytes_def pool.balanced_def pager_total_bytes_def)
next
  case (allocate p page bytes)
  note ok = allocate.IH [unfolded pager_ok_def]
  show ?case
  proof (cases "pool_reserve_bytes (pg_pool p) bytes")
    case (Pair pool granted)
    show ?thesis
    proof (cases granted)
      case True
      have "pool.balanced pool (add_mset bytes (live_bytes p))" "pool_total pool = pool_total (pg_pool p)"
        using pool.reserve_balanced [of "pg_pool p" "live_bytes p" bytes pool] ok allocate.hyps(3) Pair True
        by (simp_all add: pager_used_bytes_def)
      then show ?thesis
        using ok Pair True allocate.hyps(2)
        by (auto simp: pager_ok_def pager_allocate_def Let_def live_bytes_insert pager_total_bytes_def)
    next
      case False
      then show ?thesis
        using ok Pair pool.refused [of "pg_pool p" bytes pool]
        by (simp add: pager_ok_def pager_allocate_def Let_def)
    qed
  qed
next
  case (evict p key)
  note ok = evict.IH [unfolded pager_ok_def]
  show ?case
  proof (cases "pg_pages p key")
    case None
    then show ?thesis using evict.IH by (simp add: pager_evict_def)
  next
    case (Some pb)
    obtain page b where pb: "pg_pages p key = Some (page, b)" using Some by (cases pb) simp
    let ?q = "p\<lparr>pg_pages := (pg_pages p)(key := None), pg_pool := pool_release (pg_pool p) b\<rparr>"
    have "pool.balanced (pg_pool p) (add_mset b (live_bytes ?q))"
      using ok live_bytes_remove [OF _ pb, of "pool_release (pg_pool p) b"] by simp
    from pool.release_balanced [OF this] show ?thesis
      using ok pb by (auto simp: pager_ok_def pager_evict_def pager_total_bytes_def)
  qed
qed

subsection \<open>Properties\<close>

text \<open>C19: While no page is allocated under a key that is still live, the pool's used bytes are
  exactly the sum of the bytes reserved for the live pages and never exceed the bytes measured at
  boot, whatever was allocated, refused and evicted.\<close>

theorem pager_accounts_for_live_pages:
  assumes "pager_reach measured p"
  shows "unat (pager_used_bytes p) = (\<Sum>k \<in> dom (pg_pages p). unat (snd (the (pg_pages p k)))) \<and>
    pager_used_bytes p \<le> measured"
  using pager_reach_ok [OF assms]
  by (auto simp: pager_ok_def pool.balanced_def live_bytes_def pager_used_bytes_def pager_total_bytes_def
      image_mset.compositionality comp_def sum_unfold_sum_mset)

definition sample_page :: kv_page where
  "sample_page = \<lparr>kp_prefix_key = 1, kp_position_range = (0, 64), kp_layer_kind = LkGa,
     kp_phase_tag = Context, kp_arm_id = SINGLE_ARM, kp_arm_version = 1, kp_phi_version = 1,
     kp_derivation_path = InitialPrefill, kp_payload_digest = replicate 32 7, kp_state = PsValid\<rparr>"

theorem pager_accounts_for_live_pages_witness:
  "pager_used_bytes (fst (pager_allocate (pager_new (pool_new 1000)) sample_page 600)) = 600 \<and>
   unat (600 :: u64) = (\<Sum>k \<in> {page_key_of sample_page}.
     unat (snd (the (pg_pages (fst (pager_allocate (pager_new (pool_new 1000)) sample_page 600)) k))))"
proof -
  let ?p = "fst (pager_allocate (pager_new (pool_new 1000)) sample_page 600)"
  have "pager_reach 1000 ?p"
    by (rule pager_reach.allocate [OF pager_reach.start])
      (simp_all add: pager_new_def pool_new_def pager_used_bytes_def)
  from pager_accounts_for_live_pages [OF this] show ?thesis
    by (simp add: pager_allocate_def pool_reserve_bytes_def pager_new_def pool_new_def
        pager_used_bytes_def Let_def)
qed

text \<open>C24: Allocating a page under a key that is still live replaces the entry without releasing
  the old reservation: after the page is evicted the table is empty and the old bytes are still
  counted as used.\<close>

theorem pager_leaks_on_replacement:
  assumes "unat b + unat b' \<le> unat measured" "page_key_of page' = page_key_of page"
  shows "let p = fst (pager_allocate (pager_new (pool_new measured)) page b);
             p = fst (pager_allocate p page' b');
             p = fst (pager_evict p (page_key_of page))
         in pg_pages p = Map.empty \<and> pager_used_bytes p = b"
proof -
  have m: "unat measured < 2 ^ 64" using unat_lt [of measured] by simp
  have le: "b \<le> measured" "b + b' \<le> measured" "b' \<le> b + b'"
    using assms(1) m by (simp_all add: word_le_nat_alt unat_add_no_wrap)
  then have lt: "(measured < b) = False" "(measured < b + b') = False" by (simp_all add: leD)
  show ?thesis
    using le assms(2)
    by (simp add: lt pager_allocate_def pool_reserve_bytes_def pager_new_def pool_new_def pager_evict_def
        pool_release_def saturating_sub_def pager_used_bytes_def Let_def not_less)
qed

theorem pager_leaks_on_replacement_witness:
  "pager_used_bytes (fst (pager_evict (fst (pager_allocate
     (fst (pager_allocate (pager_new (pool_new 1000)) sample_page 300)) sample_page 400))
     (page_key_of sample_page))) = 300"
  using pager_leaks_on_replacement [of 300 400 1000 sample_page sample_page] by (simp add: Let_def)

text \<open>C21: A lookup serves a page only when the stored page carries the key asked for, the phase
  asked for, the current epoch, and the arm the plan of record maps that phase to; in particular
  text cached under one phase is never served for the other.\<close>

theorem pager_never_cross_serves:
  assumes "pager_reach measured p" "pager_lookup p key ph reg = Ok HitValid"
  shows "\<exists>page arm. pager_get p key = Some page \<and> page_key_of page = key \<and> kp_phase_tag page = ph \<and>
    pk_phase_tag key = ph \<and> kp_phi_version page = ar_phi_version reg \<and>
    arm_for reg ph = Ok arm \<and> kp_arm_id page = arm_ident arm"
proof -
  obtain page b where k: "pg_pages p key = Some (page, b)" and v: "validate_cache_hit page ph reg = Ok HitValid"
    using assms(2) by (auto simp: pager_lookup_def split: option.splits outcome.splits)
  have "page_key_of page = key" using pager_reach_ok [OF assms(1)] k by (simp add: pager_ok_def)
  moreover have "kp_phi_version page = ar_phi_version reg" "kp_phase_tag page = ph"
    "\<exists>arm. arm_for reg ph = Ok arm \<and> kp_arm_id page = arm_ident arm"
    using v by (auto simp: validate_cache_hit_def outcome_simps split: if_splits)
  ultimately show ?thesis using k by (auto simp: pager_get_def page_key_of_def)
qed

definition sample_registry :: arm_registry where
  "sample_registry = set_phi (register_arm registry_new
     \<lparr>arm_ident = SINGLE_ARM, arm_version_no = 1, arm_lattice = EFp32\<rparr>) Context SINGLE_ARM"

theorem pager_never_cross_serves_witness:
  "pager_lookup (fst (pager_allocate (pager_new (pool_new 1000)) sample_page 600)) (page_key_of sample_page)
     Context sample_registry = Ok HitValid \<and>
   (\<exists>page. pager_get (fst (pager_allocate (pager_new (pool_new 1000)) sample_page 600)) (page_key_of sample_page)
     = Some page \<and> kp_phase_tag page = Context)"
proof -
  let ?p = "fst (pager_allocate (pager_new (pool_new 1000)) sample_page 600)"
  have r: "pager_reach 1000 ?p"
    by (rule pager_reach.allocate [OF pager_reach.start])
      (simp_all add: pager_new_def pool_new_def pager_used_bytes_def)
  have l: "pager_lookup ?p (page_key_of sample_page) Context sample_registry = Ok HitValid"
    by (simp add: pager_lookup_def pager_allocate_def pool_reserve_bytes_def pager_new_def pool_new_def Let_def
        validate_cache_hit_def sample_page_def sample_registry_def set_phi_def register_arm_def registry_new_def
        arm_for_def)
  from pager_never_cross_serves [OF r l] show ?thesis using l by blast
qed

end
