(* ===== verification/Scheduler.thy ===== *)
theory Scheduler
  imports Paging Float32
begin

text \<open>
  The request scheduler, \<open>crates/mimo26-coordinator/src/scheduler.rs\<close>: admission, chunked
  prefill, decode lanes, preemption and finishing. Token counts are \<open>u64\<close> in the code and are
  carried as \<open>nat\<close> here: positions never pass \<open>prompt_tokens\<close>, so nothing but the reservation,
  which is computed on words, could wrap.
\<close>

subsection \<open>State\<close>

datatype request_state = Pending | Prefilling | Decoding | Done

record request =
  req_id :: u64
  req_prompt_tokens :: nat
  req_max_tokens :: nat
  req_state :: request_state
  req_prefill_pos :: nat
  req_reservation :: u64

definition request_new :: "u64 \<Rightarrow> nat \<Rightarrow> nat \<Rightarrow> request" where
  "request_new ident prompt_tokens max_tokens =
     \<lparr>req_id = ident, req_prompt_tokens = prompt_tokens, req_max_tokens = max_tokens,
      req_state = Pending, req_prefill_pos = 0, req_reservation = 0\<rparr>"

record scheduler_config =
  sc_prefill_chunk :: nat
  sc_long_context_threshold :: nat
  sc_max_concurrency :: nat

definition scheduler_config_default :: scheduler_config where
  "scheduler_config_default =
     \<lparr>sc_prefill_chunk = 2048, sc_long_context_threshold = 524288, sc_max_concurrency = 8\<rparr>"

datatype step = PrefillChunk u64 nat nat | DecodeRound "u64 list" | Idle

datatype submit_outcome = SubmitAccepted | SubmitRejected

record scheduler =
  sch_config :: scheduler_config
  sch_pool :: kv_pool
  sch_pending :: "request list"
  sch_decoding :: "request list"

subsection \<open>Operations\<close>

definition scheduler_new :: "scheduler_config \<Rightarrow> kv_pool \<Rightarrow> scheduler" where
  "scheduler_new config pool =
     \<lparr>sch_config = config, sch_pool = pool, sch_pending = [], sch_decoding = []\<rparr>"

definition scheduler_used_bytes :: "scheduler \<Rightarrow> u64" where
  "scheduler_used_bytes s = pool_used (sch_pool s)"

definition is_long_context :: "scheduler \<Rightarrow> nat \<Rightarrow> bool" where
  "is_long_context s prompt_tokens = (prompt_tokens > sc_long_context_threshold (sch_config s))"

definition concurrency_for :: "scheduler \<Rightarrow> nat \<Rightarrow> nat" where
  "concurrency_for s prompt_tokens =
     (if is_long_context s prompt_tokens then 1 else sc_max_concurrency (sch_config s))"

text \<open>The loop does not end when \<open>prefill_chunk\<close> is 0 and there is a prompt: then the value is
  \<open>None\<close>.\<close>

partial_function (option) chunks_loop :: "nat \<Rightarrow> nat \<Rightarrow> nat \<Rightarrow> (nat \<times> nat) list \<Rightarrow> (nat \<times> nat) list option" where
  "chunks_loop chunk prompt_tokens pos out =
     (if pos < prompt_tokens
      then let len = min (prompt_tokens - pos) chunk in
           chunks_loop chunk prompt_tokens (pos + len) (out @ [(pos, len)])
      else Some out)"

definition chunks :: "scheduler \<Rightarrow> nat \<Rightarrow> (nat \<times> nat) list option" where
  "chunks s prompt_tokens = chunks_loop (sc_prefill_chunk (sch_config s)) prompt_tokens 0 []"

definition scheduler_submit :: "scheduler \<Rightarrow> request \<Rightarrow> scheduler \<times> submit_outcome" where
  "scheduler_submit s req =
     (case pool_admit (sch_pool s) (of_nat (req_prompt_tokens req)) (of_nat (req_max_tokens req))
             DEFAULT_ADMIT_RESERVE of
        (pool, Admitted reservation) \<Rightarrow>
          (s\<lparr>sch_pool := pool,
             sch_pending := sch_pending s @ [req\<lparr>req_reservation := reservation, req_state := Pending\<rparr>]\<rparr>,
           SubmitAccepted)
      | (pool, Rejected) \<Rightarrow> (s\<lparr>sch_pool := pool\<rparr>, SubmitRejected))"

definition decode_step :: "scheduler \<Rightarrow> scheduler \<times> step" where
  "decode_step s = (if sch_decoding s \<noteq> [] then (s, DecodeRound (map req_id (sch_decoding s))) else (s, Idle))"

definition next_step :: "scheduler \<Rightarrow> scheduler \<times> step" where
  "next_step s =
     (if sch_decoding s = [] \<and> sch_pending s = [] then (s, Idle)
      else case sch_pending s of
        [] \<Rightarrow> decode_step s
      | req # rest \<Rightarrow>
          let req = (if req_state req = Pending then req\<lparr>req_state := Prefilling\<rparr> else req);
              start = req_prefill_pos req;
              remaining = req_prompt_tokens req - start in
          if remaining > 0 then
            let len = min remaining (sc_prefill_chunk (sch_config s));
                req = req\<lparr>req_prefill_pos := req_prefill_pos req + len\<rparr> in
            if req_prefill_pos req \<ge> req_prompt_tokens req then
              (s\<lparr>sch_pending := rest, sch_decoding := sch_decoding s @ [req\<lparr>req_state := Decoding\<rparr>]\<rparr>,
               PrefillChunk (req_id req) start len)
            else (s\<lparr>sch_pending := req # rest\<rparr>, PrefillChunk (req_id req) start len)
          else decode_step (s\<lparr>sch_pending := req # rest\<rparr>))"

definition release_reservation :: "scheduler \<Rightarrow> request \<Rightarrow> scheduler" where
  "release_reservation s req = s\<lparr>sch_pool := pool_release (sch_pool s) (req_reservation req)\<rparr>"

definition preempt_lowest_priority :: "scheduler \<Rightarrow> scheduler \<times> request option" where
  "preempt_lowest_priority s =
     (if sch_decoding s = [] then (s, None)
      else let req = last (sch_decoding s);
               s = s\<lparr>sch_decoding := butlast (sch_decoding s)\<rparr>
           in (release_reservation s req, Some req))"

definition finish :: "scheduler \<Rightarrow> u64 \<Rightarrow> scheduler \<times> request option" where
  "finish s ident =
     (case position_of (\<lambda>r. req_id r = ident) (sch_decoding s) of
        None \<Rightarrow> (s, None)
      | Some idx \<Rightarrow>
          let req = (sch_decoding s ! idx)\<lparr>req_state := Done\<rparr>;
              s = s\<lparr>sch_decoding := take idx (sch_decoding s) @ drop (Suc idx) (sch_decoding s)\<rparr>
          in (release_reservation s req, Some req))"

definition decoding_len :: "scheduler \<Rightarrow> nat" where "decoding_len s = length (sch_decoding s)"
definition pending_len :: "scheduler \<Rightarrow> nat" where "pending_len s = length (sch_pending s)"

definition should_time_slice :: "f32 \<Rightarrow> bool" where
  "should_time_slice expert_touch_fraction = f32_lt expert_touch_fraction 0x3F000000"

subsection \<open>Chunks\<close>

definition chunk_at :: "nat \<Rightarrow> nat \<Rightarrow> nat \<Rightarrow> nat \<times> nat" where
  "chunk_at chunk prompt i = (i * chunk, min (prompt - i * chunk) chunk)"

definition chunk_list :: "nat \<Rightarrow> nat \<Rightarrow> nat \<Rightarrow> (nat \<times> nat) list" where
  "chunk_list chunk prompt i = map (chunk_at chunk prompt) [i..<(prompt + chunk - 1) div chunk]"

lemma chunk_count:
  assumes "0 < chunk"
  shows "i < (prompt + chunk - 1) div chunk \<longleftrightarrow> i * chunk < (prompt :: nat)"
proof -
  have "i < (prompt + chunk - 1) div chunk \<longleftrightarrow> Suc i * chunk \<le> prompt + chunk - 1"
    using assms by (metis Suc_le_eq less_eq_div_iff_mult_less_eq)
  also have "\<dots> \<longleftrightarrow> i * chunk < prompt" using assms by auto
  finally show ?thesis .
qed

lemma chunks_loop_list:
  assumes "0 < chunk"
  shows "chunks_loop chunk prompt (i * chunk) out = Some (out @ chunk_list chunk prompt i)"
proof (induction "prompt - i * chunk" arbitrary: i out rule: less_induct)
  case less
  show ?case
  proof (cases "i * chunk < prompt")
    case True
    let ?k = "(prompt + chunk - 1) div chunk"
    have k: "i < ?k" using True chunk_count [OF assms] by blast
    have c: "chunk_list chunk prompt i = (i * chunk, min (prompt - i * chunk) chunk) # chunk_list chunk prompt (Suc i)"
      using k by (simp add: chunk_list_def chunk_at_def upt_conv_Cons)
    show ?thesis
    proof (cases "prompt - i * chunk \<ge> chunk")
      case full: True
      have "chunks_loop chunk prompt (i * chunk) out
          = chunks_loop chunk prompt (Suc i * chunk) (out @ [(i * chunk, chunk)])"
        using True full by (subst chunks_loop.simps) (simp add: min_absorb2 add.commute)
      also have "\<dots> = Some ((out @ [(i * chunk, chunk)]) @ chunk_list chunk prompt (Suc i))"
        by (rule less) (use True assms in simp)
      finally show ?thesis using full c by (simp add: min_absorb2)
    next
      case False
      then have "\<not> Suc i * chunk < prompt" by simp
      then have "\<not> Suc i < ?k" using chunk_count [OF assms] by blast
      then have "chunk_list chunk prompt (Suc i) = []" by (simp add: chunk_list_def)
      moreover have "chunks_loop chunk prompt (i * chunk) out = Some (out @ [(i * chunk, prompt - i * chunk)])"
        using True False by (subst chunks_loop.simps) (simp add: Let_def chunks_loop.simps)
      ultimately show ?thesis using False c by simp
    qed
  next
    case False
    then have "\<not> i < (prompt + chunk - 1) div chunk" using chunk_count [OF assms] by blast
    then show ?thesis using False by (subst chunks_loop.simps) (simp add: chunk_list_def)
  qed
qed

lemma chunks_loop_stuck:
  assumes ret: "chunks_loop chunk prompt pos out = Some r"
  shows "chunk \<noteq> 0 \<or> \<not> pos < prompt"
proof (rule chunks_loop.raw_induct [where P = "\<lambda>chunk prompt pos out r. chunk \<noteq> 0 \<or> \<not> pos < prompt", OF _ ret])
  fix f and chunk prompt pos :: nat and out r :: "(nat \<times> nat) list"
  assume IH: "\<And>chunk prompt pos out r. f chunk prompt pos out = Some r \<Longrightarrow> chunk \<noteq> 0 \<or> \<not> pos < prompt"
    and eq: "(if pos < prompt
      then let len = min (prompt - pos) chunk in f chunk prompt (pos + len) (out @ [(pos, len)])
      else Some out) = Some r"
  show "chunk \<noteq> 0 \<or> \<not> pos < prompt"
  proof (rule ccontr)
    assume "\<not> ?thesis"
    then have "chunk = 0" "pos < prompt" by simp_all
    with eq have "f 0 prompt pos (out @ [(pos, 0)]) = Some r" by (simp add: Let_def)
    from IH [OF this] \<open>pos < prompt\<close> show False by simp
  qed
qed

subsection \<open>Reachable schedulers\<close>

inductive sched_reach :: "scheduler_config \<Rightarrow> u64 \<Rightarrow> scheduler \<Rightarrow> bool" for config measured where
  start: "sched_reach config measured (scheduler_new config (pool_new measured))"
| submit: "sched_reach config measured s \<Longrightarrow>
    unat (scheduler_used_bytes s)
      + unat (request_reservation (of_nat prompt) (of_nat max_tokens) DEFAULT_ADMIT_RESERVE) < 2 ^ 64 \<Longrightarrow>
    sched_reach config measured (fst (scheduler_submit s (request_new ident prompt max_tokens)))"
| next_step: "sched_reach config measured s \<Longrightarrow> sched_reach config measured (fst (next_step s))"
| preempt: "sched_reach config measured s \<Longrightarrow> sched_reach config measured (fst (preempt_lowest_priority s))"
| finish: "sched_reach config measured s \<Longrightarrow> sched_reach config measured (fst (finish s ident))"

definition reservations :: "scheduler \<Rightarrow> u64 multiset" where
  "reservations s = image_mset req_reservation (mset (sch_pending s @ sch_decoding s))"

definition prefilled :: "request \<Rightarrow> bool" where
  "prefilled r \<longleftrightarrow> req_state r = Decoding \<and> req_prefill_pos r = req_prompt_tokens r"

definition awaiting :: "request \<Rightarrow> bool" where
  "awaiting r \<longleftrightarrow> req_state r \<in> {Pending, Prefilling} \<and>
     (req_prefill_pos r < req_prompt_tokens r \<or> req_prompt_tokens r = 0 \<and> req_prefill_pos r = 0)"

definition sched_ok :: "u64 \<Rightarrow> scheduler \<Rightarrow> bool" where
  "sched_ok measured s \<longleftrightarrow> pool.balanced (sch_pool s) (reservations s) \<and> pool_total (sch_pool s) = measured \<and>
     (\<forall>r \<in> set (sch_decoding s). prefilled r) \<and> (\<forall>r \<in> set (sch_pending s). awaiting r)"

lemma decode_step_fst [simp]: "fst (decode_step s) = s"
  by (simp add: decode_step_def)

lemma next_step_ok:
  assumes "sched_ok measured s"
  shows "sched_ok measured (fst (next_step s))"
proof (cases "sch_pending s")
  case Nil
  then show ?thesis using assms by (simp add: next_step_def)
next
  case (Cons req rest)
  have a: "awaiting req" using assms Cons by (simp add: sched_ok_def)
  show ?thesis
    using assms Cons a
    by (auto simp: next_step_def Let_def sched_ok_def reservations_def awaiting_def prefilled_def)
qed

lemma release_live:
  assumes "pool.balanced (sch_pool s) (add_mset (req_reservation r) M)"
  shows "pool.balanced (sch_pool (release_reservation s r)) M"
    "pool_total (sch_pool (release_reservation s r)) = pool_total (sch_pool s)"
  using pool.release_balanced [OF assms] by (simp_all add: release_reservation_def)

lemma mset_remove_nth: "i < length xs \<Longrightarrow> mset xs = add_mset (xs ! i) (mset (take i xs @ drop (Suc i) xs))"
proof -
  assume "i < length xs"
  then have "mset (take i xs @ xs ! i # drop (Suc i) xs) = mset xs" by (simp flip: id_take_nth_drop)
  then show ?thesis by simp
qed

lemma sched_reach_ok: "sched_reach config measured s \<Longrightarrow> sched_ok measured s"
proof (induction rule: sched_reach.induct)
  case start
  show ?case
    by (simp add: sched_ok_def scheduler_new_def pool_new_def reservations_def pool.balanced_def)
next
  case (submit s prompt max_tokens ident)
  let ?r = "request_reservation (of_nat prompt) (of_nat max_tokens) DEFAULT_ADMIT_RESERVE"
  note ok = submit.IH [unfolded sched_ok_def]
  show ?case
  proof (cases "pool_reserve_bytes (sch_pool s) ?r")
    case (Pair p granted)
    show ?thesis
    proof (cases granted)
      case True
      have "pool.balanced p (add_mset ?r (reservations s))" "pool_total p = pool_total (sch_pool s)"
        using pool.reserve_balanced [of "sch_pool s" "reservations s" ?r p] ok submit.hyps(2) Pair True
        by (simp_all add: scheduler_used_bytes_def)
      then show ?thesis
        using ok Pair True
        by (auto simp: sched_ok_def scheduler_submit_def pool_admit_reserve request_new_def Let_def
            reservations_def awaiting_def)
    next
      case False
      then show ?thesis
        using ok Pair pool.refused [of "sch_pool s" ?r p]
        by (simp add: sched_ok_def scheduler_submit_def pool_admit_reserve request_new_def Let_def
            reservations_def)
    qed
  qed
next
  case (next_step s)
  then show ?case by (simp add: next_step_ok)
next
  case (preempt s)
  note ok = preempt.IH [unfolded sched_ok_def]
  show ?case
  proof (cases "sch_decoding s = []")
    case True
    then show ?thesis using preempt.IH by (simp add: preempt_lowest_priority_def)
  next
    case False
    let ?s = "s\<lparr>sch_decoding := butlast (sch_decoding s)\<rparr>"
    have "mset (sch_decoding s) = add_mset (last (sch_decoding s)) (mset (butlast (sch_decoding s)))"
      using False by (metis append_butlast_last_id mset_append mset.simps union_mset_add_mset_right add.right_neutral)
    then have "reservations s = add_mset (req_reservation (last (sch_decoding s))) (reservations ?s)"
      by (simp add: reservations_def)
    then have "pool.balanced (sch_pool ?s) (add_mset (req_reservation (last (sch_decoding s))) (reservations ?s))"
      using ok by simp
    from release_live [OF this] show ?thesis
      using ok False
      by (auto simp: sched_ok_def preempt_lowest_priority_def Let_def release_reservation_def reservations_def
          dest: in_set_butlastD)
  qed
next
  case (finish s ident)
  note ok = finish.IH [unfolded sched_ok_def]
  show ?case
  proof (cases "position_of (\<lambda>r. req_id r = ident) (sch_decoding s)")
    case None
    then show ?thesis using finish.IH by (simp add: finish_def)
  next
    case (Some i)
    let ?d = "sch_decoding s"
    let ?s = "s\<lparr>sch_decoding := take i ?d @ drop (Suc i) ?d\<rparr>"
    have i: "i < length ?d" using position_of_Some [OF Some] by simp
    have "reservations s = add_mset (req_reservation (?d ! i)) (reservations ?s)"
      by (simp add: reservations_def mset_remove_nth [OF i])
    then have "pool.balanced (sch_pool ?s) (add_mset (req_reservation ((?d ! i)\<lparr>req_state := Done\<rparr>)) (reservations ?s))"
      using ok by simp
    from release_live [OF this] show ?thesis
      using ok Some
      by (auto simp: sched_ok_def finish_def Let_def release_reservation_def reservations_def
          dest: in_set_takeD in_set_dropD)
  qed
qed

subsection \<open>Prefill order\<close>

primrec run_steps :: "nat \<Rightarrow> scheduler \<Rightarrow> scheduler \<times> step list" where
  "run_steps 0 s = (s, [])"
| "run_steps (Suc n) s =
     (let (s1, st) = next_step s; (s2, sts) = run_steps n s1 in (s2, st # sts))"

lemma run_steps_add:
  "run_steps (m + n) s = (let (s1, a) = run_steps m s; (s2, b) = run_steps n s1 in (s2, a @ b))"
  by (induction m arbitrary: s) (simp_all add: split_beta Let_def)

definition prefill_steps :: "nat \<Rightarrow> request \<Rightarrow> nat \<Rightarrow> step list" where
  "prefill_steps chunk r i = map (\<lambda>(start, len). PrefillChunk (req_id r) start len) (chunk_list chunk (req_prompt_tokens r) i)"

definition prefill_done :: "request \<Rightarrow> request" where
  "prefill_done r = r\<lparr>req_state := Decoding, req_prefill_pos := req_prompt_tokens r\<rparr>"

lemma chunk_list_step:
  assumes "0 < chunk" "i * chunk < prompt"
  shows "chunk_list chunk prompt i = (i * chunk, min (prompt - i * chunk) chunk) # chunk_list chunk prompt (Suc i)"
  using assms chunk_count [OF assms(1), of i prompt] by (simp add: chunk_list_def chunk_at_def upt_conv_Cons)

lemma chunk_list_end:
  assumes "0 < chunk" "\<not> i * chunk < prompt"
  shows "chunk_list chunk prompt i = []"
  using assms chunk_count [OF assms(1), of i prompt] by (simp add: chunk_list_def)

lemma prefill_head:
  assumes c: "0 < sc_prefill_chunk (sch_config s)" and p: "sch_pending s = r # rest"
    and pos: "req_prefill_pos r = i * sc_prefill_chunk (sch_config s)" "req_prefill_pos r < req_prompt_tokens r"
  shows "run_steps (length (prefill_steps (sc_prefill_chunk (sch_config s)) r i)) s
    = (s\<lparr>sch_pending := rest, sch_decoding := sch_decoding s @ [prefill_done r]\<rparr>,
       prefill_steps (sc_prefill_chunk (sch_config s)) r i)"
  using assms
proof (induction "req_prompt_tokens r - req_prefill_pos r" arbitrary: s r i rule: less_induct)
  case less
  let ?c = "sc_prefill_chunk (sch_config s)"
  let ?r = "if req_state r = Pending then r\<lparr>req_state := Prefilling\<rparr> else r"
  let ?len = "min (req_prompt_tokens r - req_prefill_pos r) ?c"
  have lt: "i * ?c < req_prompt_tokens r" using less.prems by simp
  have ps: "prefill_steps ?c r i = PrefillChunk (req_id r) (req_prefill_pos r) ?len # prefill_steps ?c r (Suc i)"
    by (simp add: prefill_steps_def chunk_list_step [OF less.prems(1) lt] less.prems(3))
  show ?case
  proof (cases "req_prompt_tokens r - req_prefill_pos r \<le> ?c")
    case True
    have "\<not> Suc i * ?c < req_prompt_tokens r" using True less.prems(3) by simp
    then have e: "prefill_steps ?c r (Suc i) = []"
      by (simp add: prefill_steps_def chunk_list_end [OF less.prems(1)])
    have "next_step s = (s\<lparr>sch_pending := rest, sch_decoding := sch_decoding s @ [prefill_done r]\<rparr>,
        PrefillChunk (req_id r) (req_prefill_pos r) ?len)"
      using less.prems(2,4) True
      by (auto simp: next_step_def Let_def prefill_done_def min_absorb1)
    then show ?thesis by (simp add: ps e)
  next
    case False
    let ?r' = "?r\<lparr>req_prefill_pos := req_prefill_pos r + ?c\<rparr>"
    let ?s = "s\<lparr>sch_pending := ?r' # rest\<rparr>"
    have step: "next_step s = (?s, PrefillChunk (req_id r) (req_prefill_pos r) ?len)"
      using less.prems(2,4) False by (auto simp: next_step_def Let_def min_absorb2)
    have same: "prefill_steps ?c ?r' j = prefill_steps ?c r j" for j by (simp add: prefill_steps_def)
    have "run_steps (length (prefill_steps ?c ?r' (Suc i))) ?s
        = (?s\<lparr>sch_pending := rest, sch_decoding := sch_decoding ?s @ [prefill_done ?r']\<rparr>, prefill_steps ?c ?r' (Suc i))"
      using less.hyps [of ?r' ?s "Suc i"] less.prems False by simp
    moreover have "prefill_done ?r' = prefill_done r" by (simp add: prefill_done_def)
    ultimately have "run_steps (length (prefill_steps ?c r (Suc i))) ?s
        = (s\<lparr>sch_pending := rest, sch_decoding := sch_decoding s @ [prefill_done r]\<rparr>, prefill_steps ?c r (Suc i))"
      by (simp only: same) simp
    then show ?thesis by (simp add: ps step)
  qed
qed

definition fresh_request :: "request \<Rightarrow> bool" where
  "fresh_request r \<longleftrightarrow> req_prefill_pos r = 0 \<and> 0 < req_prompt_tokens r"

lemma blocked_head:
  assumes "sch_pending s = r # rest" "req_prompt_tokens r \<le> req_prefill_pos r"
  shows "\<exists>r'. sch_pending (fst (next_step s)) = r' # rest \<and> req_id r' = req_id r \<and>
    req_prompt_tokens r' = req_prompt_tokens r \<and> req_prefill_pos r' = req_prefill_pos r \<and>
    sch_decoding (fst (next_step s)) = sch_decoding s \<and>
    (\<forall>i start len. snd (next_step s) \<noteq> PrefillChunk i start len)"
  using assms by (auto simp: next_step_def Let_def decode_step_def)

subsection \<open>Properties\<close>

text \<open>C26: Splitting a prompt gives its positions cut every \<open>prefill_chunk\<close> tokens, the last piece
  shorter, and nothing for an empty prompt; with a chunk size of 0 the loop never ends on a
  non-empty prompt.\<close>

theorem chunks_exact_cover:
  "chunks s prompt =
     (let c = sc_prefill_chunk (sch_config s) in
      if c = 0 \<and> prompt \<noteq> 0 then None
      else Some (map (\<lambda>i. (i * c, min (prompt - i * c) c)) [0..<(prompt + c - 1) div c]))"
proof (cases "sc_prefill_chunk (sch_config s) = 0")
  case True
  have "chunks_loop 0 prompt 0 [] = None" if "prompt \<noteq> 0"
    using chunks_loop_stuck [of 0 prompt 0 "[]"] that by (cases "chunks_loop 0 prompt 0 []") auto
  moreover have "chunks_loop 0 0 0 [] = Some []" by (subst chunks_loop.simps) simp
  ultimately show ?thesis using True by (simp add: chunks_def)
next
  case False
  then show ?thesis
    using chunks_loop_list [of "sc_prefill_chunk (sch_config s)" prompt 0 "[]"]
    by (simp add: chunks_def chunk_list_def chunk_at_def [abs_def] Let_def)
qed

text \<open>C17: In every reachable scheduler the pool's used bytes are the sum of the reservations of the
  requests it holds, within the measured total; every request in a decode lane has its whole
  prompt prefilled.\<close>

theorem scheduler_accounts:
  assumes "sched_reach config measured s"
  shows "unat (scheduler_used_bytes s)
      = sum_list (map (\<lambda>r. unat (req_reservation r)) (sch_pending s @ sch_decoding s)) \<and>
    scheduler_used_bytes s \<le> measured \<and>
    (\<forall>r \<in> set (sch_decoding s). req_state r = Decoding \<and> req_prefill_pos r = req_prompt_tokens r)"
proof -
  have "(\<Sum>n \<in># reservations s. unat n) = sum_list (map (\<lambda>r. unat (req_reservation r)) (sch_pending s @ sch_decoding s))"
    by (simp only: reservations_def image_mset.compositionality comp_def flip: mset_map) (simp add: sum_mset_sum_list comp_def del: mset_map flip: mset_append)
  then show ?thesis
    using sched_reach_ok [OF assms]
    by (auto simp: sched_ok_def pool.balanced_def scheduler_used_bytes_def prefilled_def)
qed

definition sample_scheduler :: scheduler where
  "sample_scheduler = fst (next_step (fst (scheduler_submit
     (scheduler_new scheduler_config_default (pool_new 1000000000)) (request_new 1 100 16))))"

lemma sample_scheduler_reach: "sched_reach scheduler_config_default 1000000000 sample_scheduler"
  unfolding sample_scheduler_def
  by (intro sched_reach.intros)
    (simp add: scheduler_used_bytes_def scheduler_new_def pool_new_def request_reservation_def Let_def
      GA_KV_BYTES_PER_TOKEN_def SWA_RING_BYTES_PER_SEQ_def DEFAULT_ADMIT_RESERVE_def)

theorem scheduler_accounts_witness:
  "unat (scheduler_used_bytes sample_scheduler) = 14115840 \<and> map req_prefill_pos (sch_decoding sample_scheduler) = [100]"
proof -
  have "sch_pending sample_scheduler @ sch_decoding sample_scheduler
      = [(request_new 1 100 16)\<lparr>req_reservation := 14115840, req_state := Decoding, req_prefill_pos := 100\<rparr>]"
    "map req_prefill_pos (sch_decoding sample_scheduler) = [100]"
    by (simp_all add: sample_scheduler_def scheduler_submit_def scheduler_new_def pool_new_def pool_admit_def
        next_step_def request_new_def request_reservation_def GA_KV_BYTES_PER_TOKEN_def
        SWA_RING_BYTES_PER_SEQ_def DEFAULT_ADMIT_RESERVE_def scheduler_config_default_def Let_def)
  with scheduler_accounts [OF sample_scheduler_reach] show ?thesis by simp
qed

text \<open>C18: With a positive chunk size, fresh requests with non-empty prompts are prefilled strictly
  in the order they were admitted, each in its own chunks, one chunk per step, and each moves to a
  decode lane with its last chunk; after those steps nothing is pending.\<close>

theorem prefill_is_fifo:
  assumes "0 < sc_prefill_chunk (sch_config s)" "\<forall>r \<in> set (sch_pending s). fresh_request r"
  shows "let c = sc_prefill_chunk (sch_config s);
             steps = concat (map (\<lambda>r. prefill_steps c r 0) (sch_pending s))
         in run_steps (length steps) s
            = (s\<lparr>sch_pending := [], sch_decoding := sch_decoding s @ map prefill_done (sch_pending s)\<rparr>, steps)"
  using assms
proof (induction "sch_pending s" arbitrary: s)
  case Nil
  then have "s\<lparr>sch_pending := [], sch_decoding := sch_decoding s\<rparr> = s" by (cases s) simp
  with Nil show ?case by (simp flip: Nil.hyps)
next
  case (Cons r rest)
  let ?c = "sc_prefill_chunk (sch_config s)"
  let ?s = "s\<lparr>sch_pending := rest, sch_decoding := sch_decoding s @ [prefill_done r]\<rparr>"
  have r: "req_prefill_pos r = 0 * ?c" "req_prefill_pos r < req_prompt_tokens r"
    using Cons.prems(2) Cons.hyps(2) [symmetric] by (simp_all add: fresh_request_def)
  note head = prefill_head [OF Cons.prems(1) Cons.hyps(2) [symmetric] r]
  have "let steps = concat (map (\<lambda>r. prefill_steps ?c r 0) rest)
         in run_steps (length steps) ?s
            = (?s\<lparr>sch_pending := [], sch_decoding := sch_decoding ?s @ map prefill_done rest\<rparr>, steps)"
    using Cons.hyps(1) [of ?s] Cons.prems Cons.hyps(2) [symmetric] by (simp add: Let_def)
  then show ?case
    using head by (simp add: Let_def run_steps_add flip: Cons.hyps(2))
qed

theorem prefill_is_fifo_witness:
  "let s = \<lparr>sch_config = scheduler_config_default, sch_pool = pool_new 0,
            sch_pending = [request_new 1 3000 16, request_new 2 10 16], sch_decoding = []\<rparr>
   in snd (run_steps 3 s) = [PrefillChunk 1 0 2048, PrefillChunk 1 2048 952, PrefillChunk 2 0 10]"
proof -
  let ?s = "\<lparr>sch_config = scheduler_config_default, sch_pool = pool_new 0,
            sch_pending = [request_new 1 3000 16, request_new 2 10 16], sch_decoding = []\<rparr>"
  have c: "sc_prefill_chunk (sch_config ?s) = 2048" by (simp add: scheduler_config_default_def)
  have steps: "concat (map (\<lambda>r. prefill_steps 2048 r 0) (sch_pending ?s))
      = [PrefillChunk 1 0 2048, PrefillChunk 1 2048 952, PrefillChunk 2 0 10]"
    by (simp add: prefill_steps_def chunk_list_def chunk_at_def request_new_def upt_rec)
  have "\<forall>r \<in> set (sch_pending ?s). fresh_request r" by (simp add: fresh_request_def request_new_def)
  moreover have "length [PrefillChunk 1 0 2048, PrefillChunk 1 2048 952, PrefillChunk 2 0 10] = 3" by simp
  ultimately show ?thesis
    using prefill_is_fifo [of ?s]
    by (simp only: c steps Let_def snd_conv)
qed

text \<open>C27: A request with an empty prompt never leaves the head of the queue: no number of steps
  moves it to a decode lane, prefills any request behind it, or changes the lanes.\<close>

theorem empty_prompt_blocks:
  assumes "sch_pending s = r # rest" "req_prompt_tokens r = 0"
  shows "(\<exists>r'. sch_pending (fst (run_steps n s)) = r' # rest \<and> req_id r' = req_id r) \<and>
    sch_decoding (fst (run_steps n s)) = sch_decoding s \<and>
    (\<forall>i start len. PrefillChunk i start len \<notin> set (snd (run_steps n s)))"
  using assms
proof (induction n arbitrary: s r)
  case 0
  then show ?case by simp
next
  case (Suc n)
  obtain r' where r': "sch_pending (fst (next_step s)) = r' # rest" "req_id r' = req_id r"
    "req_prompt_tokens r' = 0" "sch_decoding (fst (next_step s)) = sch_decoding s"
    "\<forall>i start len. snd (next_step s) \<noteq> PrefillChunk i start len"
    using blocked_head [OF Suc.prems(1)] Suc.prems(2) by auto
  from Suc.IH [OF r'(1,3)] r' show ?case by (simp add: split_beta Let_def) metis
qed

theorem empty_prompt_blocks_witness:
  "let s = \<lparr>sch_config = scheduler_config_default, sch_pool = pool_new 0,
            sch_pending = [request_new 1 0 16, request_new 2 10 16], sch_decoding = []\<rparr>
   in length (sch_pending (fst (run_steps 1000 s))) = 2"
proof -
  let ?s = "\<lparr>sch_config = scheduler_config_default, sch_pool = pool_new 0,
            sch_pending = [request_new 1 0 16, request_new 2 10 16], sch_decoding = []\<rparr>"
  have "sch_pending ?s = request_new 1 0 16 # [request_new 2 10 16]" by simp
  from empty_prompt_blocks [OF this, of 1000] show ?thesis
    by (auto simp: request_new_def Let_def simp del: run_steps.simps)
qed

end
