(* ===== verification/Utf8.thy ===== *)
theory Utf8
  imports Prelude "HOL-Library.Sublist"
begin

text \<open>
  Rust strings. A \<open>str\<close> is carried as the list of its characters, a character as its code point; its
  UTF-8 bytes, which the code indexes and measures, are \<open>str_utf8\<close>. The standard library's
  decoders (\<open>str::from_utf8\<close> with its \<open>error_len\<close>, \<open>String::from_utf8_lossy\<close>) and searches (\<open>find\<close>,
  \<open>starts_with\<close>, \<open>ends_with\<close>, \<open>len\<close>) are the definitions below; the lemmas say how decoding
  behaves on the bytes of a text cut anywhere.
\<close>

type_synonym str = "nat list"

subsection \<open>Encoding\<close>

definition char_ok :: "nat \<Rightarrow> bool" where
  "char_ok c \<longleftrightarrow> c < 0x110000 \<and> \<not> (0xD800 \<le> c \<and> c \<le> 0xDFFF)"

definition char_bytes :: "nat \<Rightarrow> nat list" where
  "char_bytes c =
     (if c < 0x80 then [c]
      else if c < 0x800 then [0xC0 + c div 64, 0x80 + c mod 64]
      else if c < 0x10000 then [0xE0 + c div 4096, 0x80 + c div 64 mod 64, 0x80 + c mod 64]
      else [0xF0 + c div 262144, 0x80 + c div 4096 mod 64, 0x80 + c div 64 mod 64, 0x80 + c mod 64])"

definition str_utf8 :: "str \<Rightarrow> u8 list" where
  "str_utf8 t = concat (map (\<lambda>c. map of_nat (char_bytes c)) t)"

definition str_len :: "str \<Rightarrow> nat" where
  "str_len t = sum_list (map (\<lambda>c. length (char_bytes c)) t)"

subsection \<open>Decoding\<close>

definition cont_byte :: "nat \<Rightarrow> bool" where
  "cont_byte b \<longleftrightarrow> 0x80 \<le> b \<and> b \<le> 0xBF"

definition second_of_3 :: "nat \<Rightarrow> nat \<Rightarrow> bool" where
  "second_of_3 b0 b1 \<longleftrightarrow>
     b0 = 0xE0 \<and> 0xA0 \<le> b1 \<and> b1 \<le> 0xBF \<or> 0xE1 \<le> b0 \<and> b0 \<le> 0xEC \<and> cont_byte b1 \<or>
     b0 = 0xED \<and> 0x80 \<le> b1 \<and> b1 \<le> 0x9F \<or> 0xEE \<le> b0 \<and> b0 \<le> 0xEF \<and> cont_byte b1"

definition second_of_4 :: "nat \<Rightarrow> nat \<Rightarrow> bool" where
  "second_of_4 b0 b1 \<longleftrightarrow>
     b0 = 0xF0 \<and> 0x90 \<le> b1 \<and> b1 \<le> 0xBF \<or> 0xF1 \<le> b0 \<and> b0 \<le> 0xF3 \<and> cont_byte b1 \<or>
     b0 = 0xF4 \<and> 0x80 \<le> b1 \<and> b1 \<le> 0x8F"

text \<open>One decoding step: a character, an invalid sequence of known length, or the bytes end inside a
  character.\<close>

datatype utf8_step = UChar nat "nat list" | UBad nat "nat list" | UCut

definition utf8_step :: "nat \<Rightarrow> nat list \<Rightarrow> utf8_step" where
  "utf8_step b0 bs =
     (if b0 < 0x80 then UChar b0 bs
      else if 0xC2 \<le> b0 \<and> b0 \<le> 0xDF then
        (case bs of [] \<Rightarrow> UCut
         | b1 # bs1 \<Rightarrow> if cont_byte b1 then UChar ((b0 - 0xC0) * 64 + (b1 - 0x80)) bs1 else UBad 1 bs)
      else if 0xE0 \<le> b0 \<and> b0 \<le> 0xEF then
        (case bs of [] \<Rightarrow> UCut
         | b1 # bs1 \<Rightarrow>
           if \<not> second_of_3 b0 b1 then UBad 1 bs
           else (case bs1 of [] \<Rightarrow> UCut
             | b2 # bs2 \<Rightarrow>
               if cont_byte b2 then UChar ((b0 - 0xE0) * 4096 + (b1 - 0x80) * 64 + (b2 - 0x80)) bs2
               else UBad 2 bs1))
      else if 0xF0 \<le> b0 \<and> b0 \<le> 0xF4 then
        (case bs of [] \<Rightarrow> UCut
         | b1 # bs1 \<Rightarrow>
           if \<not> second_of_4 b0 b1 then UBad 1 bs
           else (case bs1 of [] \<Rightarrow> UCut
             | b2 # bs2 \<Rightarrow>
               if \<not> cont_byte b2 then UBad 2 bs1
               else (case bs2 of [] \<Rightarrow> UCut
                 | b3 # bs3 \<Rightarrow>
                   if cont_byte b3
                   then UChar ((b0 - 0xF0) * 262144 + (b1 - 0x80) * 4096 + (b2 - 0x80) * 64 + (b3 - 0x80)) bs3
                   else UBad 3 bs2)))
      else UBad 1 bs)"

lemma utf8_step_shorter:
  "utf8_step b0 bs = UChar c r \<Longrightarrow> length r \<le> length bs"
  "utf8_step b0 bs = UBad n r \<Longrightarrow> length r \<le> length bs"
  by (auto simp: utf8_step_def split: if_splits list.splits)

function nat_lossy :: "nat list \<Rightarrow> str" where
  "nat_lossy [] = []"
| "nat_lossy (b # bs) =
     (case utf8_step b bs of UChar c r \<Rightarrow> c # nat_lossy r | UBad _ r \<Rightarrow> 0xFFFD # nat_lossy r | UCut \<Rightarrow> [0xFFFD])"
  by pat_completeness auto
termination
  by (relation "measure length") (auto simp: less_Suc_eq_le dest: utf8_step_shorter)

text \<open>The error of \<open>from_utf8\<close> is its \<open>error_len\<close>.\<close>

function nat_from_utf8 :: "nat list \<Rightarrow> (str, nat option) outcome" where
  "nat_from_utf8 [] = Ok []"
| "nat_from_utf8 (b # bs) =
     (case utf8_step b bs of
        UChar c r \<Rightarrow> obind (nat_from_utf8 r) (\<lambda>t. Ok (c # t))
      | UBad n r \<Rightarrow> Err (Some n) | UCut \<Rightarrow> Err None)"
  by pat_completeness auto
termination
  by (relation "measure length") (auto simp: less_Suc_eq_le dest: utf8_step_shorter)

definition from_utf8 :: "u8 list \<Rightarrow> (str, nat option) outcome" where
  "from_utf8 bs = nat_from_utf8 (map unat bs)"

definition from_utf8_lossy :: "u8 list \<Rightarrow> str" where
  "from_utf8_lossy bs = nat_lossy (map unat bs)"

subsection \<open>Searching\<close>

fun str_find :: "str \<Rightarrow> str \<Rightarrow> nat option" where
  "str_find [] pat = (if pat = [] then Some 0 else None)"
| "str_find (c # t) pat = (if prefix pat (c # t) then Some 0 else map_option Suc (str_find t pat))"

lemma str_find_Some:
  "str_find t pat = Some i \<Longrightarrow> i \<le> length t \<and> prefix pat (drop i t) \<and> (\<forall>j < i. \<not> prefix pat (drop j t))"
proof (induction t arbitrary: i)
  case Nil
  then show ?case by (auto split: if_splits)
next
  case (Cons c t)
  show ?case
  proof (cases "prefix pat (c # t)")
    case True
    with Cons.prems show ?thesis by auto
  next
    case False
    with Cons.prems obtain k where k: "str_find t pat = Some k" "i = Suc k" by (auto split: if_splits)
    have "\<not> prefix pat (drop j (c # t))" if "j < Suc k" for j
      using Cons.IH [OF k(1)] False that by (cases j) auto
    then show ?thesis using Cons.IH [OF k(1)] k(2) by simp
  qed
qed

lemma str_find_None: "str_find t pat = None \<longleftrightarrow> (\<forall>j \<le> length t. \<not> prefix pat (drop j t))"
proof (induction t)
  case Nil
  then show ?case by auto
next
  case (Cons c t)
  have "(\<forall>j \<le> length (c # t). \<not> prefix pat (drop j (c # t)))
      \<longleftrightarrow> \<not> prefix pat (c # t) \<and> (\<forall>j \<le> length t. \<not> prefix pat (drop j t))"
    (is "?l \<longleftrightarrow> ?r")
  proof
    assume l: ?l
    from l [rule_format, of 0] l [rule_format, of "Suc j" for j] show ?r by auto
  next
    assume r: ?r
    show ?l
    proof (intro allI impI)
      fix j assume "j \<le> length (c # t)"
      with r show "\<not> prefix pat (drop j (c # t))" by (cases j) auto
    qed
  qed
  with Cons.IH show ?case by auto
qed

subsection \<open>Decoding what was encoded\<close>

lemma char_bytes_less: "char_ok c \<Longrightarrow> b \<in> set (char_bytes c) \<Longrightarrow> b < 256"
  unfolding char_ok_def char_bytes_def by (auto split: if_splits)

lemma char_bytes_nonempty [simp]: "char_bytes c \<noteq> []"
  by (simp add: char_bytes_def)

lemma split_digits:
  fixes c :: nat
  shows "c div 64 * 64 + c mod 64 = c" "c div 4096 * 4096 + c div 64 mod 64 * 64 + c mod 64 = c"
    "c div 262144 * 262144 + c div 4096 mod 64 * 4096 + c div 64 mod 64 * 64 + c mod 64 = c"
proof -
  have a: "c div 64 * 64 + c mod 64 = c" "c div 64 div 64 * 64 + c div 64 mod 64 = c div 64"
    "c div 4096 div 64 * 64 + c div 4096 mod 64 = c div 4096" by simp_all
  have d: "c div 64 div 64 = c div 4096" "c div 4096 div 64 = c div 262144" by (simp_all flip: div_mult2_eq)
  show "c div 64 * 64 + c mod 64 = c" by simp
  show "c div 4096 * 4096 + c div 64 mod 64 * 64 + c mod 64 = c" using a d by linarith
  show "c div 262144 * 262144 + c div 4096 mod 64 * 4096 + c div 64 mod 64 * 64 + c mod 64 = c"
    using a d by linarith
qed

lemma second_byte_bounds:
  fixes c :: nat
  assumes "0x800 \<le> c"
  shows "c < 0x10000 \<Longrightarrow> \<not> (0xD800 \<le> c \<and> c \<le> 0xDFFF) \<Longrightarrow> second_of_3 (0xE0 + c div 4096) (0x80 + c div 64 mod 64)"
    and "0x10000 \<le> c \<Longrightarrow> c < 0x110000 \<Longrightarrow> second_of_4 (0xF0 + c div 262144) (0x80 + c div 4096 mod 64)"
proof -
  define q r s where "q = c div 4096" and "r = c div 64 mod 64" and "s = c mod 64"
  have c: "c = q * 4096 + r * 64 + s" "r < 64" "s < 64"
    using split_digits(2) [of c] by (simp_all add: q_def r_def s_def)
  show "second_of_3 (0xE0 + c div 4096) (0x80 + c div 64 mod 64)"
    if "c < 0x10000" "\<not> (0xD800 \<le> c \<and> c \<le> 0xDFFF)"
  proof -
    consider "q = 0" | "1 \<le> q" "q \<le> 12" | "q = 13" | "14 \<le> q" by linarith
    then show ?thesis
      unfolding second_of_3_def cont_byte_def q_def [symmetric] r_def [symmetric]
      by cases (use c that assms in linarith)+
  qed
  define q' r' s' where "q' = c div 262144" and "r' = c div 4096 mod 64" and "s' = c div 64 mod 64 * 64 + c mod 64"
  have c': "c = q' * 262144 + r' * 4096 + s'" "r' < 64"
    using split_digits(3) [of c] by (simp_all add: q'_def r'_def s'_def)
  have s': "s' < 4096"
  proof -
    have "c div 64 mod 64 \<le> 63" "c mod 64 < 64" by (simp_all add: less_Suc_eq_le flip: Suc_le_eq)
    then show ?thesis unfolding s'_def by linarith
  qed
  show "second_of_4 (0xF0 + c div 262144) (0x80 + c div 4096 mod 64)" if "0x10000 \<le> c" "c < 0x110000"
  proof -
    consider "q' = 0" | "1 \<le> q'" "q' \<le> 3" | "4 \<le> q'" by linarith
    then show ?thesis
      unfolding second_of_4_def cont_byte_def q'_def [symmetric] r'_def [symmetric]
      by cases (use c' s' that in linarith)+
  qed
qed

lemma digit_less: "(n :: nat) mod 64 < 64"
  by simp

lemma lead_range:
  fixes c :: nat
  shows "0x80 \<le> c \<Longrightarrow> 2 \<le> c div 64" "c < 0x800 \<Longrightarrow> c div 64 < 32"
    "c < 0x10000 \<Longrightarrow> c div 4096 < 16" "c < 0x110000 \<Longrightarrow> c div 262144 < 5"
proof -
  show "2 \<le> c div 64" if "0x80 \<le> c" using div_le_mono [OF that, of 64] by simp
  show "c div 64 < 32" if "c < 0x800" by (rule less_mult_imp_div_less) (use that in simp)
  show "c div 4096 < 16" if "c < 0x10000" by (rule less_mult_imp_div_less) (use that in simp)
  show "c div 262144 < 5" if "c < 0x110000" by (rule less_mult_imp_div_less) (use that in simp)
qed

lemma utf8_step_2:
  "2 \<le> d \<Longrightarrow> d < 32 \<Longrightarrow> utf8_step (0xC0 + d) [] = UCut"
  "2 \<le> d \<Longrightarrow> d < 32 \<Longrightarrow> e < 64 \<Longrightarrow> utf8_step (0xC0 + d) ((0x80 + e) # rest) = UChar (d * 64 + e) rest"
  by (simp_all add: utf8_step_def cont_byte_def)

lemma utf8_step_3:
  "d < 16 \<Longrightarrow> utf8_step (0xE0 + d) [] = UCut"
  "d < 16 \<Longrightarrow> second_of_3 (0xE0 + d) (0x80 + e) \<Longrightarrow> utf8_step (0xE0 + d) [0x80 + e] = UCut"
  "d < 16 \<Longrightarrow> second_of_3 (0xE0 + d) (0x80 + e) \<Longrightarrow> f < 64 \<Longrightarrow>
    utf8_step (0xE0 + d) ((0x80 + e) # (0x80 + f) # rest) = UChar (d * 4096 + e * 64 + f) rest"
  by (simp_all add: utf8_step_def cont_byte_def)

lemma utf8_step_4:
  "d < 5 \<Longrightarrow> utf8_step (0xF0 + d) [] = UCut"
  "d < 5 \<Longrightarrow> second_of_4 (0xF0 + d) (0x80 + e) \<Longrightarrow> utf8_step (0xF0 + d) [0x80 + e] = UCut"
  "d < 5 \<Longrightarrow> second_of_4 (0xF0 + d) (0x80 + e) \<Longrightarrow> f < 64 \<Longrightarrow> utf8_step (0xF0 + d) [0x80 + e, 0x80 + f] = UCut"
  "d < 5 \<Longrightarrow> second_of_4 (0xF0 + d) (0x80 + e) \<Longrightarrow> f < 64 \<Longrightarrow> g < 64 \<Longrightarrow>
    utf8_step (0xF0 + d) ((0x80 + e) # (0x80 + f) # (0x80 + g) # rest) = UChar (d * 262144 + e * 4096 + f * 64 + g) rest"
  by (simp_all add: utf8_step_def cont_byte_def)

lemma char_width_cases:
  assumes "char_ok c"
  obtains "c < 0x80" "char_bytes c = [c]"
  | "0x80 \<le> c" "c < 0x800" "char_bytes c = [0xC0 + c div 64, 0x80 + c mod 64]"
  | "0x800 \<le> c" "c < 0x10000" "second_of_3 (0xE0 + c div 4096) (0x80 + c div 64 mod 64)"
    "char_bytes c = [0xE0 + c div 4096, 0x80 + c div 64 mod 64, 0x80 + c mod 64]"
  | "0x10000 \<le> c" "c < 0x110000" "second_of_4 (0xF0 + c div 262144) (0x80 + c div 4096 mod 64)"
    "char_bytes c = [0xF0 + c div 262144, 0x80 + c div 4096 mod 64, 0x80 + c div 64 mod 64, 0x80 + c mod 64]"
proof -
  consider "c < 0x80" | "0x80 \<le> c" "c < 0x800" | "0x800 \<le> c" "c < 0x10000" | "0x10000 \<le> c" by linarith
  then show thesis
  proof cases
    case 1
    with that(1) show thesis by (simp add: char_bytes_def)
  next
    case 2
    with that(2) show thesis by (simp add: char_bytes_def)
  next
    case 3
    with that(3) second_byte_bounds(1) [OF 3] assms show thesis by (simp add: char_bytes_def char_ok_def)
  next
    case 4
    with that(4) second_byte_bounds(2) [of c] assms show thesis by (simp add: char_bytes_def char_ok_def)
  qed
qed

lemma utf8_step_char:
  assumes "char_ok c"
  shows "utf8_step (hd (char_bytes c)) (tl (char_bytes c) @ rest) = UChar c rest"
  using assms
proof (cases rule: char_width_cases)
  case 1
  then show ?thesis by (simp add: utf8_step_def)
next
  case 2
  then show ?thesis
    using utf8_step_2(2) [of "c div 64" "c mod 64" rest] lead_range(1,2) [of c] split_digits(1) [of c] by simp
next
  case 3
  then show ?thesis
    using utf8_step_3(3) [OF lead_range(3) 3(3) digit_less] split_digits(2) [of c] by simp
next
  case 4
  then show ?thesis
    using utf8_step_4(4) [OF lead_range(4) 4(3) digit_less digit_less] split_digits(3) [of c] by simp
qed

text \<open>A proper part of a character's bytes is cut, never invalid.\<close>

lemma utf8_step_cut:
  assumes "char_ok c" "char_bytes c = b # bs @ x # xs"
  shows "utf8_step b bs = UCut"
  using assms(1)
proof (cases rule: char_width_cases)
  case 1
  then show ?thesis using assms(2) by simp
next
  case 2
  then have "b = 0xC0 + c div 64" "bs = []" using assms(2) by (auto simp: Cons_eq_append_conv append_eq_Cons_conv)
  then show ?thesis using utf8_step_2(1) [OF lead_range(1,2)] 2 by simp
next
  case 3
  then have "b = 0xE0 + c div 4096" "bs = [] \<or> bs = [0x80 + c div 64 mod 64]"
    using assms(2) by (auto simp: Cons_eq_append_conv append_eq_Cons_conv)
  then show ?thesis using utf8_step_3(1,2) lead_range(3) [OF 3(2)] 3(3) by auto
next
  case 4
  then have "b = 0xF0 + c div 262144"
    "bs = [] \<or> bs = [0x80 + c div 4096 mod 64] \<or> bs = [0x80 + c div 4096 mod 64, 0x80 + c div 64 mod 64]"
    using assms(2) by (auto simp: Cons_eq_append_conv append_eq_Cons_conv)
  then show ?thesis
    using utf8_step_4(1,2) utf8_step_4(3) [OF _ _ digit_less] lead_range(4) [OF 4(2)] 4(3) by auto
qed

text \<open>A decoded character does not depend on what follows it.\<close>

lemma utf8_step_extend: "utf8_step b bs = UChar c r \<Longrightarrow> utf8_step b (bs @ ys) = UChar c (r @ ys)"
  by (auto simp: utf8_step_def split: if_splits list.splits)

lemma nat_lossy_append: "nat_from_utf8 xs = Ok t \<Longrightarrow> nat_lossy (xs @ ys) = t @ nat_lossy ys"
proof (induction xs arbitrary: t rule: nat_from_utf8.induct)
  case 1
  then show ?case by simp
next
  case (2 b bs)
  from "2.prems" obtain c r t' where r: "utf8_step b bs = UChar c r" "nat_from_utf8 r = Ok t'" "t = c # t'"
    by (auto simp: outcome_simps split: utf8_step.splits)
  then show ?case using "2.IH" [OF r(1,2)] utf8_step_extend [OF r(1), of ys] by simp
qed

lemma nat_from_utf8_append:
  "nat_from_utf8 xs = Ok t \<Longrightarrow> nat_from_utf8 (xs @ ys) = obind (nat_from_utf8 ys) (\<lambda>u. Ok (t @ u))"
proof (induction xs arbitrary: t rule: nat_from_utf8.induct)
  case 1
  then show ?case by (cases "nat_from_utf8 ys") auto
next
  case (2 b bs)
  from "2.prems" obtain c r t' where r: "utf8_step b bs = UChar c r" "nat_from_utf8 r = Ok t'" "t = c # t'"
    by (auto simp: outcome_simps split: utf8_step.splits)
  then show ?case
    using "2.IH" [OF r(1,2)] utf8_step_extend [OF r(1), of ys] by (cases "nat_from_utf8 ys") simp_all
qed

definition nat_bytes :: "str \<Rightarrow> nat list" where
  "nat_bytes t = concat (map char_bytes t)"

lemma nat_from_utf8_bytes: "\<forall>c \<in> set t. char_ok c \<Longrightarrow> nat_from_utf8 (nat_bytes t) = Ok t"
proof (induction t)
  case Nil
  then show ?case by (simp add: nat_bytes_def)
next
  case (Cons c t)
  have b: "nat_bytes (c # t) = hd (char_bytes c) # tl (char_bytes c) @ nat_bytes t"
    by (simp add: nat_bytes_def)
  show ?case
    unfolding b using Cons utf8_step_char [of c "nat_bytes t"] by simp
qed

text \<open>The bytes of a text cut anywhere decode to whole characters, or are cut inside the last one.\<close>

lemma nat_from_utf8_cut:
  assumes "\<forall>c \<in> set t. char_ok c" "nat_bytes t = xs @ ys"
  shows "(\<exists>u v. t = u @ v \<and> xs = nat_bytes u \<and> ys = nat_bytes v \<and> nat_from_utf8 xs = Ok u) \<or>
    nat_from_utf8 xs = Err None"
  using assms
proof (induction t arbitrary: xs)
  case Nil
  then show ?case by (simp add: nat_bytes_def)
next
  case (Cons c t)
  have b: "char_bytes c @ nat_bytes t = xs @ ys" using Cons.prems(2) by (simp add: nat_bytes_def)
  show ?case
  proof (cases "length (char_bytes c) \<le> length xs")
    case True
    then obtain zs where zs: "xs = char_bytes c @ zs" "nat_bytes t = zs @ ys"
      using b by (auto simp: append_eq_append_conv2)
    have x: "xs = hd (char_bytes c) # tl (char_bytes c) @ zs" using zs by simp
    have step: "nat_from_utf8 xs = obind (nat_from_utf8 zs) (\<lambda>t. Ok (c # t))"
      unfolding x using utf8_step_char [of c zs] Cons.prems(1) by simp
    from Cons.IH [OF _ zs(2)] Cons.prems(1) consider
      u v where "t = u @ v" "zs = nat_bytes u" "ys = nat_bytes v" "nat_from_utf8 zs = Ok u"
      | "nat_from_utf8 zs = Err None" by auto
    then show ?thesis
    proof cases
      case 1
      then have "c # t = (c # u) @ v" "xs = nat_bytes (c # u)" using zs by (simp_all add: nat_bytes_def)
      with 1 step show ?thesis by (metis obind.simps(1))
    next
      case 2
      then show ?thesis using step by simp
    qed
  next
    case False
    then obtain zs where zs: "char_bytes c = xs @ zs" "zs \<noteq> []"
      using b by (auto simp: append_eq_append_conv2)
    show ?thesis
    proof (cases xs)
      case Nil
      then have "c # t = [] @ c # t \<and> xs = nat_bytes [] \<and> ys = nat_bytes (c # t) \<and> nat_from_utf8 xs = Ok []"
        using b by (simp add: nat_bytes_def)
      then show ?thesis by blast
    next
      case (Cons b' bs)
      moreover obtain z zs' where "zs = z # zs'" using zs(2) by (cases zs) auto
      ultimately have "utf8_step b' bs = UCut"
        using utf8_step_cut [of c b' bs z zs'] zs(1) Cons.prems(1) by simp
      then show ?thesis using Cons by simp
    qed
  qed
qed

lemma map_unat_str_utf8: "\<forall>c \<in> set t. char_ok c \<Longrightarrow> map unat (str_utf8 t) = nat_bytes t"
proof (induction t)
  case Nil
  then show ?case by (simp add: str_utf8_def nat_bytes_def)
next
  case (Cons c t)
  have "map (\<lambda>b. unat (of_nat b :: u8)) (char_bytes c) = char_bytes c"
    by (rule map_idI) (use char_bytes_less [of c] Cons.prems in \<open>auto simp: unat_of_nat\<close>)
  with Cons show ?case by (simp add: str_utf8_def nat_bytes_def comp_def)
qed

lemma from_utf8_str_utf8: "\<forall>c \<in> set t. char_ok c \<Longrightarrow> from_utf8 (str_utf8 t) = Ok t"
  by (simp add: from_utf8_def map_unat_str_utf8 nat_from_utf8_bytes)

lemma from_utf8_lossy_append:
  "from_utf8 xs = Ok t \<Longrightarrow> from_utf8_lossy (xs @ ys) = t @ from_utf8_lossy ys"
  by (simp add: from_utf8_def from_utf8_lossy_def nat_lossy_append)

lemma from_utf8_lossy_Ok: "from_utf8 xs = Ok t \<Longrightarrow> from_utf8_lossy xs = t"
  using from_utf8_lossy_append [of xs t "[]"] by (simp add: from_utf8_lossy_def)

lemma from_utf8_append:
  "from_utf8 xs = Ok t \<Longrightarrow> from_utf8 (xs @ ys) = obind (from_utf8 ys) (\<lambda>u. Ok (t @ u))"
  by (simp add: from_utf8_def nat_from_utf8_append)

lemma from_utf8_lossy_str_utf8: "\<forall>c \<in> set t. char_ok c \<Longrightarrow> from_utf8_lossy (str_utf8 t) = t"
  by (simp add: from_utf8_str_utf8 from_utf8_lossy_Ok)

lemma str_utf8_append [simp]: "str_utf8 (s @ t) = str_utf8 s @ str_utf8 t"
  by (simp add: str_utf8_def)

lemma from_utf8_cut:
  assumes "\<forall>c \<in> set t. char_ok c" "str_utf8 t = xs @ ys"
  shows "(\<exists>u v. t = u @ v \<and> xs = str_utf8 u \<and> ys = str_utf8 v \<and> from_utf8 xs = Ok u) \<or> from_utf8 xs = Err None"
proof -
  have n: "nat_bytes t = map unat xs @ map unat ys" using map_unat_str_utf8 [OF assms(1)] assms(2) by simp
  have inj: "map unat ws = map unat ws' \<longleftrightarrow> ws = ws'" for ws ws' :: "u8 list"
    using inj_map_eq_map [of unat ws ws'] by (simp add: inj_def flip: word_unat_eq_iff)
  have "\<exists>u v. t = u @ v \<and> xs = str_utf8 u \<and> ys = str_utf8 v \<and> from_utf8 xs = Ok u"
    if uv: "t = u @ v" "map unat xs = nat_bytes u" "map unat ys = nat_bytes v" "nat_from_utf8 (map unat xs) = Ok u" for u v
  proof -
    have "map unat xs = map unat (str_utf8 u)" "map unat ys = map unat (str_utf8 v)"
      using uv assms(1) by (simp_all add: map_unat_str_utf8)
    then show ?thesis using uv(1,4) unfolding inj from_utf8_def by blast
  qed
  with nat_from_utf8_cut [OF assms(1) n] show ?thesis by (auto simp: from_utf8_def)
qed

end
