(* ===== verification/Tokenizer.thy ===== *)
theory Tokenizer
  imports Utf8
begin

text \<open>
  The byte-level BPE tokenizer, \<open>crates/mimo26-coordinator/src/tokenizer.rs\<close>: the byte-to-character
  table, the hand-rolled pre-tokenizer, the merge loop, \<open>encode\<close> and \<open>decode\<close>. Unicode's
  alphabetic and numeric tables, which the standard library holds, are an argument; what is proved
  holds for every table. A hash map is the list of its entries in iteration order.
  Loading \<open>tokenizer.json\<close> from disk is not modelled.
\<close>

subsection \<open>The byte table\<close>

definition printable_byte :: "nat \<Rightarrow> bool" where
  "printable_byte b \<longleftrightarrow> 33 \<le> b \<and> b \<le> 126 \<or> 161 \<le> b \<and> b \<le> 172 \<or> 174 \<le> b \<and> b \<le> 255"

fun b2u_loop :: "nat \<Rightarrow> nat list \<Rightarrow> nat list" where
  "b2u_loop n [] = []"
| "b2u_loop n (b # bs) =
     (if printable_byte b then b # b2u_loop n bs else (256 + n) # b2u_loop (n + 1) bs)"

definition bytes_to_unicode :: "nat list" where
  "bytes_to_unicode = b2u_loop 0 [0..<256]"

definition unicode_to_bytes :: "nat \<Rightarrow> u8 option" where
  "unicode_to_bytes = map_of (rev (zip bytes_to_unicode (map of_nat [0..<256])))"

definition byte_encode :: "str \<Rightarrow> str" where
  "byte_encode s = map (\<lambda>b. bytes_to_unicode ! unat b) (str_utf8 s)"

subsection \<open>The tokenizer\<close>

record added_token =
  at_content :: str
  at_id :: u32
  at_special :: bool

record bpe_tokenizer =
  bt_vocab :: "(str \<times> u32) list"
  bt_id_to_token :: "u32 \<Rightarrow> str option"
  bt_merges :: "str \<times> str \<Rightarrow> u32 option"
  bt_added :: "added_token list"

definition from_parts :: "(str \<times> u32) list \<Rightarrow> (str \<times> str) list \<Rightarrow> added_token list \<Rightarrow> bpe_tokenizer" where
  "from_parts vocab merges added =
     \<lparr>bt_vocab = vocab,
      bt_id_to_token = map_of (rev (map (\<lambda>(k, v). (v, k)) vocab)),
      bt_merges = map_of (rev (zip merges (map of_nat [0..<length merges]))),
      bt_added = added\<rparr>"

definition vocab_len :: "bpe_tokenizer \<Rightarrow> nat" where
  "vocab_len tok = length (bt_vocab tok)"

definition id_bound :: "bpe_tokenizer \<Rightarrow> nat" where
  "id_bound tok =
     max (foldr (\<lambda>(_, v) m. max (unat v + 1) m) (bt_vocab tok) 0)
         (foldr (\<lambda>t m. max (unat (at_id t) + 1) m) (bt_added tok) 0)"

text \<open>\<open>Iterator::max_by_key\<close>: the last of the greatest.\<close>

fun max_by_key :: "('a \<Rightarrow> nat) \<Rightarrow> 'a list \<Rightarrow> 'a option" where
  "max_by_key f [] = None"
| "max_by_key f (x # xs) =
     (case max_by_key f xs of None \<Rightarrow> Some x | Some y \<Rightarrow> if f y < f x then Some x else Some y)"

definition match_added :: "bpe_tokenizer \<Rightarrow> str \<Rightarrow> added_token option" where
  "match_added tok txt =
     max_by_key (\<lambda>t. str_len (at_content t)) (filter (\<lambda>t. prefix (at_content t) txt) (bt_added tok))"

subsection \<open>Pre-tokenizer\<close>

record char_classes =
  cc_alphabetic :: "nat \<Rightarrow> bool"
  cc_numeric :: "nat \<Rightarrow> bool"

text \<open>\<open>char::is_whitespace\<close>: the White_Space property.\<close>

definition is_ws :: "nat \<Rightarrow> bool" where
  "is_ws c \<longleftrightarrow> 9 \<le> c \<and> c \<le> 13 \<or> c \<in> {32, 0x85, 0xA0, 0x1680} \<or> 0x2000 \<le> c \<and> c \<le> 0x200A \<or>
     c \<in> {0x2028, 0x2029, 0x202F, 0x205F, 0x3000}"

definition is_newline :: "nat \<Rightarrow> bool" where "is_newline c \<longleftrightarrow> c = 13 \<or> c = 10"

definition ascii_lower :: "nat \<Rightarrow> nat" where
  "ascii_lower c = (if 65 \<le> c \<and> c \<le> 90 then c + 32 else c)"

text \<open>'s, 't, 're, 've, 'm, 'll, 'd\<close>

definition CONT :: "str list" where
  "CONT = [[39, 115], [39, 116], [39, 114, 101], [39, 118, 101], [39, 109], [39, 108, 108], [39, 100]]"

definition contraction_at :: "str \<Rightarrow> str \<Rightarrow> bool" where
  "contraction_at s c \<longleftrightarrow> length c \<le> length s \<and> map ascii_lower (take (length c) s) = map ascii_lower c"

definition run_len :: "(nat \<Rightarrow> bool) \<Rightarrow> str \<Rightarrow> nat" where
  "run_len P s = length (takeWhile P s)"

text \<open>The backward scans of alternatives 5 and 6.\<close>

fun last_newline :: "str \<Rightarrow> nat \<Rightarrow> nat" where
  "last_newline s 0 = 0"
| "last_newline s (Suc k) = (if is_newline (s ! k) then Suc k else last_newline s k)"

fun backtrack_ws :: "str \<Rightarrow> nat \<Rightarrow> nat" where
  "backtrack_ws s 0 = 0"
| "backtrack_ws s (Suc i) =
     (if length s \<le> Suc i \<or> is_ws (s ! Suc i) then Suc i else backtrack_ws s i)"

text \<open>The length of the first alternative of the pattern that matches at the start of \<open>s\<close>, the
  characters from \<open>pos\<close> on.\<close>

definition match_alternative :: "char_classes \<Rightarrow> str \<Rightarrow> nat" where
  "match_alternative cc s =
     (let alpha = cc_alphabetic cc; num = cc_numeric cc; c0 = s ! 0 in
      case List.find (contraction_at s) CONT of Some c \<Rightarrow> length c
      | None \<Rightarrow>
      if alpha c0 then run_len alpha s
      else if \<not> is_newline c0 \<and> \<not> num c0 \<and> 1 < length s \<and> alpha (s ! 1) then 1 + run_len alpha (drop 1 s)
      else if num c0 then 1
      else
        let start = (if c0 = 32 then 1 else 0);
            p = run_len (\<lambda>c. \<not> is_ws c \<and> \<not> alpha c \<and> \<not> num c) (drop start s) in
        if 0 < p then start + p + run_len is_newline (drop (start + p) s)
        else
          let w = run_len is_ws s; k = last_newline s w in
          if 0 < k then k
          else let i = backtrack_ws s w in if 0 < i then i else w)"

lemma run_len_le: "run_len P s \<le> length s"
  by (simp add: run_len_def length_takeWhile_le)

lemma run_len_pos: "s \<noteq> [] \<Longrightarrow> P (s ! 0) \<Longrightarrow> 0 < run_len P s"
  by (cases s) (auto simp: run_len_def)

lemma last_newline_le: "last_newline s k \<le> k"
  by (induction k) auto

lemma backtrack_ws_le: "backtrack_ws s k \<le> k"
  by (induction k) auto

lemma CONT_bounds: "List.find P CONT = Some c \<Longrightarrow> 0 < length c"
  by (auto simp: CONT_def split: if_splits)

lemma if_both:
  "(a \<Longrightarrow> l < x \<and> x \<le> u) \<Longrightarrow> (\<not> a \<Longrightarrow> l < y \<and> y \<le> u) \<Longrightarrow>
    l < (if a then x else y) \<and> (if a then x else y) \<le> (u :: nat)"
  by simp

text \<open>Some alternative always matches, inside the string.\<close>

lemma match_alternative_bounds:
  assumes "s \<noteq> []"
  shows "0 < match_alternative cc s \<and> match_alternative cc s \<le> length s"
proof (cases "List.find (contraction_at s) CONT")
  case (Some c)
  then have "contraction_at s c" by (auto simp: find_Some_iff)
  then show ?thesis using Some CONT_bounds [OF Some] by (simp add: match_alternative_def contraction_at_def Let_def)
next
  case None
  let ?alpha = "cc_alphabetic cc" and ?num = "cc_numeric cc"
  let ?start = "if s ! 0 = 32 then 1 else 0 :: nat"
  let ?P = "\<lambda>c. \<not> is_ws c \<and> \<not> ?alpha c \<and> \<not> ?num c"
  let ?p = "run_len ?P (drop ?start s)"
  have alpha: "run_len ?alpha (drop 1 s) \<le> length s - 1" using run_len_le [of ?alpha "drop 1 s"] by simp
  have p: "?p \<le> length s - ?start" using run_len_le [of ?P "drop ?start s"] by simp
  have nl: "run_len is_newline (drop (?start + ?p) s) \<le> length s - (?start + ?p)"
    using run_len_le [of is_newline "drop (?start + ?p) s"] by simp
  have start: "?start \<le> length s" using assms by (cases s) auto
  have w: "run_len is_ws s \<le> length s" by (rule run_len_le)
  have ws: "0 < run_len is_ws s" if "\<not> ?alpha (s ! 0)" "\<not> ?num (s ! 0)" "\<not> 0 < ?p"
  proof (rule run_len_pos [OF assms], rule ccontr)
    assume nws: "\<not> is_ws (s ! 0)"
    then have "s ! 0 \<noteq> 32" by (auto simp: is_ws_def)
    then have "0 < ?p" using run_len_pos [of s ?P] assms that(1,2) nws by simp
    with that(3) show False by simp
  qed
  have tail: "0 < (let k = last_newline s (run_len is_ws s) in if 0 < k then k
        else let i = backtrack_ws s (run_len is_ws s) in if 0 < i then i else run_len is_ws s) \<and>
      (let k = last_newline s (run_len is_ws s) in if 0 < k then k
        else let i = backtrack_ws s (run_len is_ws s) in if 0 < i then i else run_len is_ws s) \<le> length s"
    if "0 < run_len is_ws s"
    using that w last_newline_le [of s "run_len is_ws s"] backtrack_ws_le [of s "run_len is_ws s"]
    by (simp add: Let_def)
  have punct: "?start + ?p + run_len is_newline (drop (?start + ?p) s) \<le> length s"
    using p nl start by linarith
  have one: "1 \<le> length s" using assms by (cases s) auto
  have m: "match_alternative cc s =
     (if ?alpha (s ! 0) then run_len ?alpha s
      else if \<not> is_newline (s ! 0) \<and> \<not> ?num (s ! 0) \<and> 1 < length s \<and> ?alpha (s ! 1) then 1 + run_len ?alpha (drop 1 s)
      else if ?num (s ! 0) then 1
      else if 0 < ?p then ?start + ?p + run_len is_newline (drop (?start + ?p) s)
      else let k = last_newline s (run_len is_ws s) in if 0 < k then k
        else let i = backtrack_ws s (run_len is_ws s) in if 0 < i then i else run_len is_ws s)"
    using None by (simp only: match_alternative_def Let_def option.case)
  have "?alpha (s ! 0) \<Longrightarrow> 0 < run_len ?alpha s" "run_len ?alpha s \<le> length s"
    using run_len_le [of ?alpha s] run_len_pos [OF assms, of ?alpha] by auto
  then show ?thesis
    unfolding m
    by (rule_tac if_both, simp, rule_tac if_both, use alpha in linarith, rule_tac if_both, use one in simp,
        rule_tac if_both, use punct in linarith, rule_tac tail [OF ws]) blast+
qed

function gpt2_pretokenize :: "char_classes \<Rightarrow> str \<Rightarrow> str list" where
  "gpt2_pretokenize cc s =
     (if s = [] then []
      else let len = match_alternative cc s in take len s # gpt2_pretokenize cc (drop len s))"
  by pat_completeness auto
termination
proof (relation "measure (length \<circ> snd)", goal_cases)
  case 1
  show ?case by simp
next
  case (2 cc s len)
  then show ?case using match_alternative_bounds [OF 2(1), of cc] by simp
qed

declare gpt2_pretokenize.simps [simp del]

lemma concat_gpt2_pretokenize: "concat (gpt2_pretokenize cc s) = s"
proof (induction cc s rule: gpt2_pretokenize.induct)
  case (1 cc s)
  show ?case
  proof (cases "s = []")
    case True
    then show ?thesis by (simp add: gpt2_pretokenize.simps)
  next
    case False
    then show ?thesis using "1.IH" [OF False refl] by (subst gpt2_pretokenize.simps) (simp add: Let_def)
  qed
qed

subsection \<open>Merging\<close>

text \<open>The scan for the adjacent pair of lowest rank, the leftmost among equals.\<close>

fun best_pair :: "(str \<times> str \<Rightarrow> u32 option) \<Rightarrow> nat \<Rightarrow> str list \<Rightarrow> (nat \<times> u32) option \<Rightarrow> (nat \<times> u32) option" where
  "best_pair merges i (a # b # ts) best =
     best_pair merges (i + 1) (b # ts)
       (case merges (a, b) of None \<Rightarrow> best
        | Some rank \<Rightarrow>
          (case best of None \<Rightarrow> Some (i, rank)
           | Some (_, r) \<Rightarrow> if rank < r then Some (i, rank) else best))"
| "best_pair merges i ts best = best"

definition merge_at :: "nat \<Rightarrow> str list \<Rightarrow> str list" where
  "merge_at i tokens = take i tokens @ (tokens ! i @ tokens ! (i + 1)) # drop (i + 2) tokens"

lemma best_pair_spec:
  "best_pair merges i ts best = Some (j, r) \<Longrightarrow>
    best = Some (j, r) \<or>
    (\<exists>k. j = i + k \<and> k + 1 < length ts \<and> merges (ts ! k, ts ! (k + 1)) = Some r)"
proof (induction merges i ts best rule: best_pair.induct)
  case (1 merges i a b ts best)
  from "1.IH" [OF "1.prems" [unfolded best_pair.simps]] show ?case
  proof (elim disjE exE conjE, goal_cases)
    case 1
    then show ?case by (auto split: option.splits if_splits intro!: exI [of _ 0])
  next
    case (2 k)
    then show ?case by (intro disjI2 exI [of _ "Suc k"]) simp
  qed
qed auto

lemma best_pair_in_range:
  assumes "best_pair merges 0 ts None = Some (j, r)"
  shows "j + 1 < length ts" "merges (ts ! j, ts ! (j + 1)) = Some r"
  using best_pair_spec [OF assms] by auto

lemma length_merge_at: "i + 1 < length ts \<Longrightarrow> length (merge_at i ts) = length ts - 1"
  by (simp add: merge_at_def)

function bpe_loop :: "(str \<times> str \<Rightarrow> u32 option) \<Rightarrow> str list \<Rightarrow> str list" where
  "bpe_loop merges tokens =
     (case best_pair merges 0 tokens None of None \<Rightarrow> tokens | Some (i, _) \<Rightarrow> bpe_loop merges (merge_at i tokens))"
  by pat_completeness auto
termination
proof (relation "measure (length \<circ> snd)", goal_cases)
  case 1
  show ?case by simp
next
  case (2 merges tokens p i r)
  then have "best_pair merges 0 tokens None = Some (i, r)" by simp
  from best_pair_in_range [OF this] show ?case by (simp add: length_merge_at)
qed

declare bpe_loop.simps [simp del]

definition bpe_merge :: "str \<Rightarrow> (str \<times> str \<Rightarrow> u32 option) \<Rightarrow> str list" where
  "bpe_merge word merges = bpe_loop merges (map (\<lambda>c. [c]) word)"

lemma concat_merge_at:
  assumes "i + 1 < length ts"
  shows "concat (merge_at i ts) = concat ts"
proof -
  have "ts = take i ts @ ts ! i # ts ! (i + 1) # drop (i + 2) ts"
    using assms by (metis Cons_nth_drop_Suc Suc_eq_plus1 Suc_lessD add_2_eq_Suc' append_take_drop_id)
  then have "concat ts = concat (take i ts) @ ts ! i @ ts ! (i + 1) @ concat (drop (i + 2) ts)"
    by (metis concat.simps(2) concat_append)
  then show ?thesis by (simp add: merge_at_def)
qed

lemma bpe_loop_concat: "concat (bpe_loop merges ts) = concat ts"
proof (induction merges ts rule: bpe_loop.induct)
  case (1 merges ts)
  show ?case
  proof (cases "best_pair merges 0 ts None")
    case None
    then show ?thesis by (simp add: bpe_loop.simps)
  next
    case (Some p)
    obtain i r where p: "p = (i, r)" by (cases p)
    have "concat (bpe_loop merges (merge_at i ts)) = concat (merge_at i ts)"
      by (rule "1.IH" [OF Some]) (simp add: p)
    then show ?thesis
      using Some p best_pair_in_range [of merges ts i r] concat_merge_at [of i ts] by (subst bpe_loop.simps) simp
  qed
qed

text \<open>Every token is one of the tokens it started from, or what a merge rule joins.\<close>

lemma bpe_loop_tokens:
  "\<forall>t \<in> set ts. t \<in> V \<Longrightarrow> \<forall>a b r. merges (a, b) = Some r \<longrightarrow> a @ b \<in> V \<Longrightarrow> set (bpe_loop merges ts) \<subseteq> V"
proof (induction merges ts rule: bpe_loop.induct)
  case (1 merges ts)
  show ?case
  proof (cases "best_pair merges 0 ts None")
    case None
    then show ?thesis using "1.prems" by (subst bpe_loop.simps) auto
  next
    case (Some p)
    obtain i r where p: "p = (i, r)" by (cases p)
    have bp: "best_pair merges 0 ts None = Some (i, r)" using Some p by simp
    have "\<forall>t \<in> set (merge_at i ts). t \<in> V"
      using "1.prems" best_pair_in_range(2) [OF bp] by (auto simp: merge_at_def dest: in_set_takeD in_set_dropD)
    with "1.IH" [OF Some p [symmetric]] "1.prems"(2) show ?thesis
      using bp by (subst bpe_loop.simps) simp
  qed
qed

subsection \<open>encode\<close>

text \<open>A token the vocabulary lacks panics.\<close>

definition encode_segment :: "char_classes \<Rightarrow> bpe_tokenizer \<Rightarrow> str \<Rightarrow> u32 list \<Rightarrow> (u32 list, 'e) outcome" where
  "encode_segment cc tok segment ids =
     obind (collect_results (\<lambda>token. case map_of (bt_vocab tok) token of Some i \<Rightarrow> Ok i | None \<Rightarrow> Panic)
              (concat (map (\<lambda>raw. bpe_merge (byte_encode raw) (bt_merges tok)) (gpt2_pretokenize cc segment))))
       (\<lambda>new. Ok (ids @ new))"

definition flush_segment :: "char_classes \<Rightarrow> bpe_tokenizer \<Rightarrow> str \<Rightarrow> u32 list \<Rightarrow> (u32 list, 'e) outcome" where
  "flush_segment cc tok pending ids = (if pending \<noteq> [] then encode_segment cc tok pending ids else Ok ids)"

text \<open>The loop of \<open>encode\<close> over the rest of the text. An added token with no characters would match
  without advancing: then the value is \<open>None\<close>.\<close>

partial_function (option) encode_loop ::
  "char_classes \<Rightarrow> bpe_tokenizer \<Rightarrow> str \<Rightarrow> str \<Rightarrow> u32 list \<Rightarrow> (u32 list, unit) outcome option" where
  "encode_loop cc tok rest pending ids =
     (case rest of [] \<Rightarrow> Some (flush_segment cc tok pending ids)
      | c # cs \<Rightarrow>
        (case match_added tok rest of
           Some t \<Rightarrow>
             (case flush_segment cc tok pending ids of
                Ok ids \<Rightarrow> encode_loop cc tok (drop (length (at_content t)) rest) [] (ids @ [at_id t])
              | Err e \<Rightarrow> Some (Err e) | Panic \<Rightarrow> Some Panic)
         | None \<Rightarrow> encode_loop cc tok cs (pending @ [c]) ids))"

definition encode :: "char_classes \<Rightarrow> bpe_tokenizer \<Rightarrow> str \<Rightarrow> (u32 list, unit) outcome option" where
  "encode cc tok txt = encode_loop cc tok txt [] []"

subsection \<open>decode\<close>

definition char_to_bytes :: "nat \<Rightarrow> u8 list" where
  "char_to_bytes c = (case unicode_to_bytes c of Some b \<Rightarrow> [b] | None \<Rightarrow> map of_nat (char_bytes c))"

definition id_bytes :: "bpe_tokenizer \<Rightarrow> u32 \<Rightarrow> u8 list" where
  "id_bytes tok i =
     (case List.find (\<lambda>t. at_id t = i) (bt_added tok) of
        Some t \<Rightarrow> if at_special t then [] else str_utf8 (at_content t)
      | None \<Rightarrow>
        (case bt_id_to_token tok i of None \<Rightarrow> [] | Some token \<Rightarrow> concat (map char_to_bytes token)))"

definition decode_bytes :: "bpe_tokenizer \<Rightarrow> u32 list \<Rightarrow> u8 list" where
  "decode_bytes tok ids = concat (map (id_bytes tok) ids)"

definition decode_ids :: "bpe_tokenizer \<Rightarrow> u32 list \<Rightarrow> str" where
  "decode_ids tok ids = from_utf8_lossy (decode_bytes tok ids)"

end
