(* ===== verification/Streaming.thy ===== *)
theory Streaming
  imports Tokenizer
begin

text \<open>
  When a generation stops and what it streams: the special token ids
  (\<open>crates/mimo26-coordinator/src/token.rs\<close>), the stop rules (\<open>stop.rs\<close>), the hold-back of
  undecided text (\<open>streaming.rs\<close>), and the decode loop of \<open>generate\<close> (\<open>api.rs\<close>) that samples, flushes
  and delivers. The source of tokens, the cancellation flag and the client's callback are arguments.
\<close>

subsection \<open>Special tokens\<close>

definition BOS_TOKEN_ID :: u32 where "BOS_TOKEN_ID = 151643"
definition EOS_TOKEN_IDS :: "u32 list" where "EOS_TOKEN_IDS = [151643, 151645, 151672]"
definition PAD_TOKEN_ID :: u32 where "PAD_TOKEN_ID = 151643"
definition MASK_TOKEN_ID :: u32 where "MASK_TOKEN_ID = 151675"

text \<open>The characters of an ASCII literal.\<close>

definition lit :: "string \<Rightarrow> str" where
  "lit s = map of_char s"

definition IM_START :: str where "IM_START = lit ''<|im_start|>''"
definition IM_END :: str where "IM_END = lit ''<|im_end|>''"
definition THINK :: str where "THINK = lit ''<think>''"
definition THINK_CLOSE :: str where "THINK_CLOSE = lit ''</think>''"

definition is_eos :: "u32 \<Rightarrow> bool" where
  "is_eos i \<longleftrightarrow> i \<in> set EOS_TOKEN_IDS"

subsection \<open>Stop rules\<close>

datatype stop_reason = StopEos u32 | StopMaxTokens | StopString str

record stop_config =
  st_eos :: "u32 list"
  st_max_tokens :: nat
  st_stop_strings :: "str list"

definition stop_config_default :: stop_config where
  "stop_config_default = \<lparr>st_eos = EOS_TOKEN_IDS, st_max_tokens = 65536, st_stop_strings = []\<rparr>"

definition stop_check :: "stop_config \<Rightarrow> u32 \<Rightarrow> nat \<Rightarrow> str \<Rightarrow> stop_reason option" where
  "stop_check cfg token generated decoded =
     (if is_eos token \<or> token \<in> set (st_eos cfg) then Some (StopEos token)
      else if st_max_tokens cfg \<le> generated then Some StopMaxTokens
      else map_option StopString (List.find (\<lambda>s. s \<noteq> [] \<and> suffix s decoded) (st_stop_strings cfg)))"

text \<open>The violations found in a finished text, in order.\<close>

datatype output_violation = RewardArtifact | RolelessMarker

definition check_output :: "str \<Rightarrow> output_violation list" where
  "check_output out =
     (if str_find out (lit ''REWARD:'') \<noteq> None then [RewardArtifact] else []) @
     (if str_find out IM_START \<noteq> None then [RolelessMarker] else [])"

subsection \<open>flush_pending\<close>

fun earliest_stop :: "str \<Rightarrow> str list \<Rightarrow> nat option \<Rightarrow> nat option" where
  "earliest_stop txt [] stop_at = stop_at"
| "earliest_stop txt (s # ss) stop_at =
     earliest_stop txt ss
       (if s = [] then stop_at
        else case str_find txt s of None \<Rightarrow> stop_at
          | Some pos \<Rightarrow> (case stop_at of None \<Rightarrow> Some pos | Some p \<Rightarrow> if pos < p then Some pos else stop_at))"

definition partial_stop :: "str \<Rightarrow> str \<Rightarrow> bool" where
  "partial_stop txt s \<longleftrightarrow>
     s \<noteq> [] \<and> (str_len txt < str_len s \<and> prefix txt s \<or> (\<exists>i \<in> set [0..<length s - 1]. suffix (take (i + 1) s) txt))"

text \<open>The text to emit, whether a stop was hit, and the ids still pending.\<close>

definition flush_pending :: "bpe_tokenizer \<Rightarrow> str list \<Rightarrow> u32 list \<Rightarrow> str \<times> bool \<times> u32 list" where
  "flush_pending tok stop pending =
     (if pending = [] then ([], False, pending)
      else
        let bytes = decode_bytes tok pending in
        if from_utf8 bytes = Err None then ([], False, pending)
        else
          let txt = from_utf8_lossy bytes in
          case earliest_stop txt stop None of
            Some pos \<Rightarrow> (take pos txt, True, [])
          | None \<Rightarrow> if list_ex (partial_stop txt) stop then ([], False, pending) else (txt, False, []))"

subsection \<open>The decode loop of generate\<close>

text \<open>What the loop calls: the n-th sampled token (or the scheduler's error), whether the client has
  gone when the n-th token is asked for, and whether the client's callback returns normally on a delta
  after those already delivered.\<close>

record gen_env =
  ge_draw :: "nat \<Rightarrow> (nat, string) outcome"
  ge_cancel :: "nat \<Rightarrow> bool"
  ge_sink :: "str list \<Rightarrow> str \<Rightarrow> bool"

record generate_outcome =
  go_text :: str
  go_finish_reason :: string
  go_completion_tokens :: nat

text \<open>\<open>if !emit.is_empty() { emit_delta(..)?; full_text.push_str(..) }\<close>: the deltas delivered and the
  text so far, or \<open>None\<close> when the callback panicked.\<close>

definition deliver_text :: "gen_env \<Rightarrow> str list \<Rightarrow> str \<Rightarrow> str \<Rightarrow> (str list \<times> str) option" where
  "deliver_text env deltas full emit =
     (if emit = [] then Some (deltas, full)
      else if ge_sink env deltas emit then Some (deltas @ [emit], full @ emit) else None)"

definition gen_finish ::
  "gen_env \<Rightarrow> bpe_tokenizer \<Rightarrow> string \<Rightarrow> str list \<Rightarrow> str \<Rightarrow> u32 list \<Rightarrow> nat \<Rightarrow>
   str list \<times> (generate_outcome, string) outcome" where
  "gen_finish env tok reason deltas full pending n =
     (case deliver_text env deltas full (decode_ids tok pending) of
        None \<Rightarrow> (deltas, Err ''on_delta panicked'')
      | Some (deltas, full) \<Rightarrow>
          (deltas, Ok \<lparr>go_text = full, go_finish_reason = reason, go_completion_tokens = n\<rparr>))"

text \<open>\<open>n\<close> tokens are sampled, \<open>next\<close> is the last.\<close>

function gen_loop ::
  "gen_env \<Rightarrow> bpe_tokenizer \<Rightarrow> str list \<Rightarrow> nat list \<Rightarrow> nat \<Rightarrow> nat \<Rightarrow> nat \<Rightarrow> str list \<Rightarrow> str \<Rightarrow> u32 list \<Rightarrow>
   str list \<times> (generate_outcome, string) outcome" where
  "gen_loop env tok stop eos mx n next deltas full pending =
     (if next \<in> set eos then gen_finish env tok ''stop'' deltas full pending n
      else
        case flush_pending tok stop (pending @ [of_nat next]) of (emit, stopped, pending) \<Rightarrow>
        case deliver_text env deltas full emit of
          None \<Rightarrow> (deltas, Err ''on_delta panicked'')
        | Some (deltas, full) \<Rightarrow>
            if stopped then gen_finish env tok ''stop'' deltas full pending n
            else if mx \<le> n then gen_finish env tok ''length'' deltas full pending n
            else if ge_cancel env n then (deltas, Err ''client gone'')
            else
              case ge_draw env n of
                Ok next \<Rightarrow> gen_loop env tok stop eos mx (n + 1) next deltas full pending
              | Err e \<Rightarrow> (deltas, Err e)
              | Panic \<Rightarrow> (deltas, Panic))"
  by pat_completeness auto
termination
  by (relation "measure (\<lambda>(env, tok, stop, eos, mx, n, _). mx - n)") auto

declare gen_loop.simps [simp del]

definition generate_text ::
  "gen_env \<Rightarrow> bpe_tokenizer \<Rightarrow> str list \<Rightarrow> nat list \<Rightarrow> nat \<Rightarrow> str list \<times> (generate_outcome, string) outcome" where
  "generate_text env tok stop eos max_tokens =
     (case ge_draw env 0 of
        Ok next \<Rightarrow> gen_loop env tok stop eos (max (min max_tokens 65536) 1) 1 next [] [] []
      | Err e \<Rightarrow> ([], Err e)
      | Panic \<Rightarrow> ([], Panic))"

end
