(* ===== verification/TokenizerRoundtrip.thy ===== *)
theory TokenizerRoundtrip
  imports Tokenizer
begin

text \<open>
  Decoding what the tokenizer encoded. The byte table is invertible; the pre-tokenizer and the merge
  loop only regroup characters; so a tokenizer whose vocabulary holds every single byte and every
  merge result gives back every text, added tokens included, that contains no special token.
\<close>

subsection \<open>The byte table is invertible\<close>

lemma b2u_loop_length [simp]: "length (b2u_loop n bs) = length bs"
  by (induction n bs rule: b2u_loop.induct) auto

lemma b2u_loop_set: "c \<in> set (b2u_loop n bs) \<Longrightarrow> c \<in> set bs \<and> printable_byte c \<or> 256 + n \<le> c"
  by (induction n bs rule: b2u_loop.induct) (auto split: if_splits)

lemma b2u_loop_distinct: "distinct bs \<Longrightarrow> \<forall>b \<in> set bs. b < 256 \<Longrightarrow> distinct (b2u_loop n bs)"
proof (induction n bs rule: b2u_loop.induct)
  case (2 n b bs)
  then show ?case
    using b2u_loop_set [of b n bs] b2u_loop_set [of "256 + n" "n + 1" bs] by auto
qed simp

lemma bytes_to_unicode_distinct: "distinct bytes_to_unicode" and
  bytes_to_unicode_length: "length bytes_to_unicode = 256"
  by (simp_all add: bytes_to_unicode_def b2u_loop_distinct)

lemma unicode_to_bytes_of_byte: "unicode_to_bytes (bytes_to_unicode ! unat (b :: u8)) = Some b"
proof -
  have lt: "unat b < 256" using unat_lt [of b] by simp
  let ?zs = "zip bytes_to_unicode (map of_nat [0..<256]) :: (nat \<times> u8) list"
  have d: "distinct (map fst ?zs)" by (simp add: bytes_to_unicode_length bytes_to_unicode_distinct)
  have "map_of (rev ?zs) = map_of ?zs" using map_of_inject_set [of "rev ?zs" ?zs] d by (simp add: rev_map [symmetric])
  moreover have "?zs ! unat b = (bytes_to_unicode ! unat b, b)" using lt by (simp add: bytes_to_unicode_length)
  then have "(bytes_to_unicode ! unat b, b) \<in> set ?zs"
    using lt by (metis nth_mem bytes_to_unicode_length length_map length_upt length_zip min.idem diff_zero)
  ultimately show ?thesis using d by (simp add: unicode_to_bytes_def)
qed

lemma concat_singletons: "concat (map (\<lambda>c. [c]) w) = w"
  by (induction w) auto

lemma concat_concat: "concat (concat xsss) = concat (map concat xsss)"
  by (induction xsss) auto

lemma byte_encode_bytes: "concat (map char_to_bytes (byte_encode s)) = str_utf8 s"
  by (simp add: byte_encode_def char_to_bytes_def unicode_to_bytes_of_byte comp_def concat_singletons)

subsection \<open>Well-formed tokenizers\<close>

text \<open>What \<open>tokenizer.json\<close> of a byte-level BPE model provides.\<close>

definition parts_ok :: "(str \<times> u32) list \<Rightarrow> (str \<times> str) list \<Rightarrow> added_token list \<Rightarrow> bool" where
  "parts_ok vocab merges added \<longleftrightarrow>
     distinct (map fst vocab) \<and> distinct (map snd vocab @ map at_id added) \<and>
     (\<forall>t \<in> set added. at_content t \<noteq> []) \<and>
     (\<forall>b < 256. [bytes_to_unicode ! b] \<in> fst ` set vocab) \<and>
     (\<forall>(a, b) \<in> set merges. a @ b \<in> fst ` set vocab)"

lemma byte_tokens: "parts_ok vocab merges added \<Longrightarrow> b < 256 \<Longrightarrow> [bytes_to_unicode ! b] \<in> fst ` set vocab"
  unfolding parts_ok_def by blast

lemma merge_tokens: "parts_ok vocab merges added \<Longrightarrow> (a, b) \<in> set merges \<Longrightarrow> a @ b \<in> fst ` set vocab"
  unfolding parts_ok_def by blast

lemma find_None_of_disjoint:
  "i \<notin> at_id ` set ts \<Longrightarrow> List.find (\<lambda>t. at_id t = i) ts = None"
  by (auto simp: find_None_iff)

lemma find_by_id: "distinct (map at_id ts) \<Longrightarrow> t \<in> set ts \<Longrightarrow> List.find (\<lambda>t'. at_id t' = at_id t) ts = Some t"
proof (induction ts)
  case (Cons t' ts)
  then show ?case by (auto simp: image_iff)
qed simp

lemma id_bytes_token:
  assumes "parts_ok vocab merges added" "map_of vocab token = Some i"
  shows "id_bytes (from_parts vocab merges added) i = concat (map char_to_bytes token)"
proof -
  have m: "(token, i) \<in> set vocab" using assms(2) by (rule map_of_SomeD)
  have "i \<notin> at_id ` set added" using assms(1) m by (force simp: parts_ok_def)
  moreover have "map_of (rev (map (\<lambda>(k, v). (v, k)) vocab)) i = Some token"
  proof (rule map_of_is_SomeI)
    show "distinct (map fst (rev (map (\<lambda>(k, v). (v, k)) vocab)))"
      using assms(1) by (simp add: parts_ok_def rev_map [symmetric] comp_def case_prod_unfold)
    show "(i, token) \<in> set (rev (map (\<lambda>(k, v). (v, k)) vocab))" using m by force
  qed
  ultimately show ?thesis by (simp add: id_bytes_def from_parts_def find_None_of_disjoint)
qed

lemma id_bytes_added:
  assumes "parts_ok vocab merges added" "t \<in> set added"
  shows "id_bytes (from_parts vocab merges added) (at_id t) = (if at_special t then [] else str_utf8 (at_content t))"
  using assms find_by_id [of added t] by (simp add: id_bytes_def from_parts_def parts_ok_def)

lemma max_by_key_in: "max_by_key f xs = Some x \<Longrightarrow> x \<in> set xs"
  by (induction xs arbitrary: x) (auto split: option.splits if_splits)

lemma match_added_Some:
  assumes "match_added (from_parts vocab merges added) txt = Some t"
  shows "t \<in> set added" "prefix (at_content t) txt"
  using max_by_key_in [OF assms [unfolded match_added_def]] by (auto simp: from_parts_def)

lemma merges_product:
  assumes "bt_merges (from_parts vocab merges added) (a, b) = Some r"
  shows "(a, b) \<in> set merges"
  using map_of_SomeD [OF assms [unfolded from_parts_def bpe_tokenizer.simps]] by (auto dest: set_zip_leftD)

lemma word_tokens_in_vocab:
  assumes "parts_ok vocab merges added"
  shows "set (bpe_merge (byte_encode raw) (bt_merges (from_parts vocab merges added))) \<subseteq> fst ` set vocab"
  unfolding bpe_merge_def
proof (rule bpe_loop_tokens)
  show "\<forall>t \<in> set (map (\<lambda>c. [c]) (byte_encode raw)). t \<in> fst ` set vocab"
  proof
    fix t assume "t \<in> set (map (\<lambda>c. [c]) (byte_encode raw))"
    then obtain b :: u8 where "t = [bytes_to_unicode ! unat b]" by (auto simp: byte_encode_def)
    then show "t \<in> fst ` set vocab"
      using byte_tokens [OF assms, of "unat b"] unat_lt [of b] by simp
  qed
  show "\<forall>a b r. bt_merges (from_parts vocab merges added) (a, b) = Some r \<longrightarrow> a @ b \<in> fst ` set vocab"
    using merge_tokens [OF assms merges_product] by blast
qed

subsection \<open>Segments\<close>

lemma encode_segment_decodes:
  assumes "parts_ok vocab merges added"
  shows "\<exists>new. encode_segment cc (from_parts vocab merges added) seg ids = (Ok (ids @ new) :: (u32 list, 'e) outcome) \<and>
    decode_bytes (from_parts vocab merges added) new = str_utf8 seg"
proof -
  let ?tok = "from_parts vocab merges added"
  let ?tokens = "concat (map (\<lambda>raw. bpe_merge (byte_encode raw) (bt_merges ?tok)) (gpt2_pretokenize cc seg))"
  let ?id = "\<lambda>token. the (map_of vocab token)"
  have in_vocab: "map_of vocab token = Some (?id token)" if "token \<in> set ?tokens" for token
  proof -
    have "token \<in> fst ` set vocab" using that word_tokens_in_vocab [OF assms] by auto
    then show ?thesis by (metis map_of_eq_None_iff option.exhaust_sel)
  qed
  have vocab: "bt_vocab ?tok = vocab" by (simp add: from_parts_def)
  have "collect_results (\<lambda>token. case map_of (bt_vocab ?tok) token of Some i \<Rightarrow> Ok i | None \<Rightarrow> Panic) ?tokens
      = (Ok (map ?id ?tokens) :: (u32 list, 'e) outcome)"
    unfolding vocab by (rule collect_results_all_Ok) (use in_vocab in \<open>auto split: option.splits\<close>)
  moreover have "decode_bytes ?tok (map ?id ?tokens) = str_utf8 seg"
  proof -
    define toks where "toks = ?tokens"
    have "map (\<lambda>token. id_bytes ?tok (?id token)) toks = map (\<lambda>token. concat (map char_to_bytes token)) toks"
      by (rule map_cong [OF refl]) (use id_bytes_token [OF assms in_vocab] in \<open>simp add: toks_def\<close>)
    then have "decode_bytes ?tok (map ?id toks) = concat (map (\<lambda>token. concat (map char_to_bytes token)) toks)"
      unfolding decode_bytes_def map_map comp_def by (rule arg_cong)
    also have "\<dots> = concat (map char_to_bytes (concat toks))"
      by (simp add: map_concat comp_def concat_concat)
    also have "concat toks = concat (map byte_encode (gpt2_pretokenize cc seg))"
      unfolding toks_def by (simp add: bpe_merge_def bpe_loop_concat concat_singletons concat_concat comp_def)
    also have "concat (map char_to_bytes \<dots>) = concat (map str_utf8 (gpt2_pretokenize cc seg))"
      by (simp add: map_concat concat_concat comp_def byte_encode_bytes)
    also have "\<dots> = str_utf8 (concat (gpt2_pretokenize cc seg))"
      by (induction "gpt2_pretokenize cc seg") (simp_all add: str_utf8_def map_concat concat_concat comp_def)
    finally show ?thesis by (simp add: concat_gpt2_pretokenize toks_def)
  qed
  ultimately show ?thesis by (intro exI [of _ "map ?id ?tokens"]) (simp add: encode_segment_def)
qed

lemma decode_bytes_append [simp]: "decode_bytes tok (xs @ ys) = decode_bytes tok xs @ decode_bytes tok ys"
  by (simp add: decode_bytes_def)

lemma flush_segment_decodes:
  assumes "parts_ok vocab merges added"
  obtains new where "flush_segment cc (from_parts vocab merges added) pending ids = Ok (ids @ new)"
    "decode_bytes (from_parts vocab merges added) new = str_utf8 pending"
proof (cases "pending = []")
  case True
  then show thesis using that [of "[]"] by (simp add: flush_segment_def decode_bytes_def str_utf8_def)
next
  case False
  then show thesis
    using encode_segment_decodes [OF assms, of cc pending ids] that by (auto simp: flush_segment_def)
qed

subsection \<open>The whole text\<close>

lemma encode_loop_decodes:
  assumes "parts_ok vocab merges added" "\<forall>t \<in> set added. at_special t \<longrightarrow> \<not> sublist (at_content t) rest"
  shows "\<exists>new. encode_loop cc (from_parts vocab merges added) rest pending ids = Some (Ok (ids @ new)) \<and>
    decode_bytes (from_parts vocab merges added) new = str_utf8 (pending @ rest)"
  using assms(2)
proof (induction rest arbitrary: pending ids rule: length_induct)
  case (1 rest)
  let ?tok = "from_parts vocab merges added"
  show ?case
  proof (cases rest)
    case Nil
    obtain new where "flush_segment cc ?tok pending ids = (Ok (ids @ new) :: (u32 list, unit) outcome)" "decode_bytes ?tok new = str_utf8 pending"
      by (rule flush_segment_decodes [OF assms(1)])
    then show ?thesis using Nil by (subst encode_loop.simps) (auto intro!: exI [of _ new])
  next
    case (Cons c cs)
    show ?thesis
    proof (cases "match_added ?tok rest")
      case None
      have "\<forall>t \<in> set added. at_special t \<longrightarrow> \<not> sublist (at_content t) cs"
        using "1.prems" Cons by (simp add: sublist_Cons_right)
      from "1.IH" [rule_format, OF _ this [rule_format], of "pending @ [c]" ids] show ?thesis
        using None Cons by (subst encode_loop.simps) simp
    next
      case (Some t)
      note t = match_added_Some [OF Some]
      then obtain ys where ys: "rest = at_content t @ ys" by (auto simp: prefix_def)
      have ne: "at_content t \<noteq> []" using t(1) assms(1) by (simp add: parts_ok_def)
      have "sublist (at_content t) rest" using t(2) by (rule prefix_imp_sublist)
      then have nsp: "\<not> at_special t" using "1.prems" t(1) by blast
      obtain new where new: "flush_segment cc ?tok pending ids = (Ok (ids @ new) :: (u32 list, unit) outcome)"
        "decode_bytes ?tok new = str_utf8 pending"
        by (rule flush_segment_decodes [OF assms(1)])
      have "\<forall>t' \<in> set added. at_special t' \<longrightarrow> \<not> sublist (at_content t') ys"
        using "1.prems" ys by (auto simp: sublist_append)
      with "1.IH" ys ne obtain new' where
        "encode_loop cc ?tok ys [] ((ids @ new) @ [at_id t]) = Some (Ok (((ids @ new) @ [at_id t]) @ new'))"
        "decode_bytes ?tok new' = str_utf8 ([] @ ys)"
        by (metis add_gr_0 length_append length_greater_0_conv less_add_same_cancel2)
      moreover have "decode_bytes ?tok [at_id t] = str_utf8 (at_content t)"
        using id_bytes_added [OF assms(1) t(1)] nsp by (simp add: decode_bytes_def)
      moreover have "drop (length (at_content t)) rest = ys" "str_utf8 rest = str_utf8 (at_content t) @ str_utf8 ys"
        by (simp_all add: ys)
      ultimately show ?thesis
        using Some new unfolding Cons
        by (subst encode_loop.simps) (auto intro!: exI [of _ "new @ at_id t # new'"] simp: decode_bytes_def)
    qed
  qed
qed

subsection \<open>Property\<close>

text \<open>C2: A tokenizer whose vocabulary holds every single byte and every merge result, with distinct
  ids and no empty added token, encodes every text without panicking, and decoding the ids gives the
  text back, added tokens included, provided no special token occurs in it; Unicode's tables play no
  part.\<close>

theorem tokenizer_roundtrip:
  assumes "parts_ok vocab merges added" "\<forall>c \<in> set txt. char_ok c"
    "\<forall>t \<in> set added. at_special t \<longrightarrow> \<not> sublist (at_content t) txt"
  shows "\<exists>ids. encode cc (from_parts vocab merges added) txt = Some (Ok ids) \<and>
    decode_ids (from_parts vocab merges added) ids = txt"
proof -
  obtain ids where "encode_loop cc (from_parts vocab merges added) txt [] [] = Some (Ok ([] @ ids))"
    "decode_bytes (from_parts vocab merges added) ids = str_utf8 ([] @ txt)"
    using encode_loop_decodes [OF assms(1,3), of cc "[]" "[]"] by blast
  then show ?thesis using from_utf8_lossy_str_utf8 [OF assms(2)] by (auto simp: encode_def decode_ids_def)
qed

text \<open>Single bytes, one merge, one added token.\<close>

definition sample_vocab :: "(str \<times> u32) list" where
  "sample_vocab = zip (map (\<lambda>c. [c]) bytes_to_unicode) (map of_nat [0..<256]) @ [([97, 98], 256)]"

definition sample_added :: "added_token list" where
  "sample_added = [\<lparr>at_content = [60, 124, 62], at_id = 300, at_special = True\<rparr>]"

lemma small_id:
  assumes "n < 257"
  shows "(of_nat n :: u32) \<noteq> 300"
proof
  assume eq: "(of_nat n :: u32) = 300"
  have "n = unat (of_nat n :: u32)" using assms by (simp only: unat_of_nat) simp
  also have "\<dots> = 300" unfolding eq by simp
  finally show False using assms by simp
qed

lemma sample_parts_ok: "parts_ok sample_vocab [([97], [98])] sample_added"
proof -
  have keys: "map fst sample_vocab = map (\<lambda>c. [c]) bytes_to_unicode @ [[97, 98]]"
    by (simp add: sample_vocab_def bytes_to_unicode_length)
  have "[0..<257] = [0..<256] @ [256]" using upt_Suc_append [of 0 256] by simp
  then have ids: "map snd sample_vocab = map of_nat [0..<257]"
    by (simp add: sample_vocab_def bytes_to_unicode_length)
  have "distinct (map (\<lambda>c. [c]) bytes_to_unicode)"
    using bytes_to_unicode_distinct by (simp add: distinct_map inj_on_def)
  then have "distinct (map fst sample_vocab)" unfolding keys by auto
  moreover have "inj_on (of_nat :: nat \<Rightarrow> u32) (set [0..<257])"
    by (rule inj_onI) (simp add: unat_of_nat flip: word_unat_eq_iff, simp add: word_of_nat_eq_iff take_bit_nat_eq_self)
  then have "distinct (map (of_nat :: nat \<Rightarrow> u32) [0..<257])" by (simp add: distinct_map)
  moreover have "300 \<notin> set (map (of_nat :: nat \<Rightarrow> u32) [0..<257])"
  proof
    assume "300 \<in> set (map (of_nat :: nat \<Rightarrow> u32) [0..<257])"
    then have "300 \<in> (of_nat :: nat \<Rightarrow> u32) ` {0..<257}" by (simp only: set_map set_upt)
    then obtain n where "300 = (of_nat n :: u32)" "n \<in> {0..<257}" by (rule imageE)
    then show False using small_id [of n] by simp
  qed
  moreover have "[bytes_to_unicode ! b] \<in> set (map fst sample_vocab)" if "b < 256" for b
    unfolding keys using that by (simp add: bytes_to_unicode_length)
  moreover have "[97] @ [98] \<in> set (map fst sample_vocab)" unfolding keys by simp
  ultimately show ?thesis unfolding parts_ok_def ids by (simp add: sample_added_def)
qed

theorem tokenizer_roundtrip_witness:
  "\<exists>ids. encode \<lparr>cc_alphabetic = (\<lambda>c. c \<ge> 97), cc_numeric = (\<lambda>_. False)\<rparr> (from_parts sample_vocab [([97], [98])] sample_added) [97, 98, 32, 0x6771] = Some (Ok ids) \<and>
    decode_ids (from_parts sample_vocab [([97], [98])] sample_added) ids = [97, 98, 32, 0x6771]"
  by (rule tokenizer_roundtrip [OF sample_parts_ok]) (simp_all add: char_ok_def sample_added_def sublist_Cons_right)

end
