(* ===== verification/StreamText.thy ===== *)
theory StreamText
  imports Streaming TokenizerRoundtrip
begin

text \<open>
  What a generation streams: the decoded text cut at the earliest stop, for text whose bytes are
  valid UTF-8 whatever the token boundaries; and what happens at the two places where they are not.
\<close>

subsection \<open>The earliest stop\<close>

lemma earliest_stop_Some:
  "earliest_stop txt ss acc = Some p \<Longrightarrow>
    (acc = Some p \<or> (\<exists>s \<in> set ss. s \<noteq> [] \<and> str_find txt s = Some p)) \<and>
    (\<forall>q. acc = Some q \<longrightarrow> p \<le> q) \<and> (\<forall>s \<in> set ss. s \<noteq> [] \<longrightarrow> (\<forall>q. str_find txt s = Some q \<longrightarrow> p \<le> q))"
proof (induction "txt" ss acc rule: earliest_stop.induct)
  case (2 t s ss acc)
  from "2.IH" [OF "2.prems" [unfolded earliest_stop.simps]] show ?case
    by (auto split: if_splits option.splits)
qed simp

lemma earliest_stop_None:
  "earliest_stop txt ss acc = None \<longleftrightarrow> acc = None \<and> (\<forall>s \<in> set ss. s \<noteq> [] \<longrightarrow> str_find txt s = None)"
  by (induction "txt" ss acc rule: earliest_stop.induct) (auto split: if_splits option.splits)

text \<open>No stop begins before position \<open>k\<close> of \<open>t\<close>.\<close>

definition no_stop_before :: "str list \<Rightarrow> nat \<Rightarrow> str \<Rightarrow> bool" where
  "no_stop_before stops k t \<longleftrightarrow> (\<forall>s \<in> set stops. s \<noteq> [] \<longrightarrow> (\<forall>j < k. \<not> prefix s (drop j t)))"

lemma earliest_stop_is:
  "earliest_stop txt stops None = Some p \<longleftrightarrow>
    no_stop_before stops p txt \<and> (\<exists>s \<in> set stops. s \<noteq> [] \<and> prefix s (drop p txt))"
  (is "?l \<longleftrightarrow> ?r")
proof
  assume ?l
  from earliest_stop_Some [OF this] obtain s where s: "s \<in> set stops" "s \<noteq> []" "str_find txt s = Some p"
    and least: "\<And>s q. s \<in> set stops \<Longrightarrow> s \<noteq> [] \<Longrightarrow> str_find txt s = Some q \<Longrightarrow> p \<le> q" by auto
  have "no_stop_before stops p txt"
    unfolding no_stop_before_def
  proof (intro ballI impI allI notI)
    fix s' j assume s': "s' \<in> set stops" "s' \<noteq> []" "j < p" "prefix s' (drop j txt)"
    then have "j \<le> length txt" using str_find_Some [OF s(3)] by simp
    then obtain q where q: "str_find txt s' = Some q" using s'(4) str_find_None [of "txt" s'] by (cases "str_find txt s'") auto
    with least [OF s'(1,2)] s'(3,4) str_find_Some [OF q] show False by force
  qed
  then show ?r using s str_find_Some [OF s(3)] by blast
next
  assume r: ?r
  then obtain s where s: "s \<in> set stops" "s \<noteq> []" "prefix s (drop p txt)" by blast
  have "p \<le> length txt" using s(2,3) by (rule_tac ccontr) simp
  then have "earliest_stop txt stops None \<noteq> None"
    using s str_find_None [of "txt" s] by (auto simp: earliest_stop_None)
  then obtain q where q: "earliest_stop txt stops None = Some q" by blast
  from earliest_stop_Some [OF q] obtain s' where s': "s' \<in> set stops" "s' \<noteq> []" "str_find txt s' = Some q"
    and least: "\<And>s k. s \<in> set stops \<Longrightarrow> s \<noteq> [] \<Longrightarrow> str_find txt s = Some k \<Longrightarrow> q \<le> k" by auto
  have "p \<le> q"
    using r s' str_find_Some [OF s'(3)] by (auto simp: no_stop_before_def not_less [symmetric])
  moreover have "q \<le> p"
  proof -
    obtain k where k: "str_find txt s = Some k" using \<open>p \<le> length txt\<close> s(3) str_find_None [of "txt" s]
      by (cases "str_find txt s") auto
    then have "k \<le> p" using str_find_Some [OF k] s(3) by (metis not_less)
    with least [OF s(1,2) k] show ?thesis by simp
  qed
  ultimately show ?l using q by simp
qed

lemma earliest_stop_free: "earliest_stop txt stops None = None \<longleftrightarrow> no_stop_before stops (length txt) txt"
proof -
  have "str_find txt s = None \<longleftrightarrow> (\<forall>j < length txt. \<not> prefix s (drop j txt))" if "s \<noteq> []" for s
    using that by (auto simp: str_find_None le_less)
  then show ?thesis by (auto simp: earliest_stop_None no_stop_before_def)
qed

lemma earliest_stop_hits: "earliest_stop t stops None \<noteq> None \<longleftrightarrow> (\<exists>s \<in> set stops. s \<noteq> [] \<and> sublist s t)"
proof -
  have "sublist s t \<longleftrightarrow> (\<exists>j \<le> length t. prefix s (drop j t))" for s :: str
  proof
    assume "sublist s t"
    then obtain xs ys where "t = xs @ s @ ys" by (auto simp: sublist_def)
    then show "\<exists>j \<le> length t. prefix s (drop j t)" by (auto intro!: exI [of _ "length xs"])
  next
    assume "\<exists>j \<le> length t. prefix s (drop j t)"
    then obtain j where "prefix s (drop j t)" by blast
    then have "t = take j t @ s @ drop (length s) (drop j t)" by (metis append_eq_conv_conj append_take_drop_id prefix_def)
    then show "sublist s t" by (metis sublist_appendI)
  qed
  then show ?thesis using str_find_None [of t] by (auto simp: earliest_stop_None)
qed

definition cut_stop :: "str list \<Rightarrow> str \<Rightarrow> str" where
  "cut_stop stops t = (case earliest_stop t stops None of None \<Rightarrow> t | Some p \<Rightarrow> take p t)"

lemma cut_stop_free:
  assumes "s \<in> set stops" "s \<noteq> []"
  shows "\<not> sublist s (cut_stop stops t)"
proof
  assume "sublist s (cut_stop stops t)"
  then obtain xs ys where xy: "cut_stop stops t = xs @ s @ ys" by (auto simp: sublist_def)
  show False
  proof (cases "earliest_stop t stops None")
    case None
    then have "t = xs @ s @ ys" using xy by (simp add: cut_stop_def)
    moreover have "no_stop_before stops (length t) t" using None by (simp add: earliest_stop_free)
    ultimately show False
      using assms by (auto simp: no_stop_before_def dest!: bspec [of _ _ s] spec [of _ "length xs"])
  next
    case (Some p)
    then have t: "take p t = xs @ s @ ys" using xy by (simp add: cut_stop_def)
    then have "length xs < p" using assms(2) by (metis append_is_Nil_conv length_append length_greater_0_conv
        length_take less_add_same_cancel1 min_less_iff_conj order_less_le_trans min.cobounded2 min.commute)
    moreover have "t = xs @ s @ ys @ drop p t" using t by (metis append_take_drop_id append.assoc)
    then have "prefix s (drop (length xs) t)" by (metis append_eq_conv_conj prefixI)
    ultimately show False
      using Some [unfolded earliest_stop_is] assms by (auto simp: no_stop_before_def)
  qed
qed

subsection \<open>Text that is safe to emit\<close>

text \<open>However the text goes on, no stop begins inside it.\<close>

definition safe_text :: "str list \<Rightarrow> str \<Rightarrow> bool" where
  "safe_text stops t \<longleftrightarrow> (\<forall>ext. no_stop_before stops (length t) (t @ ext))"

lemma safe_text_Nil [simp]: "safe_text stops []"
  by (simp add: safe_text_def no_stop_before_def)

lemma no_stop_before_append:
  assumes "safe_text stops t"
  shows "no_stop_before stops (length t + k) (t @ u) \<longleftrightarrow> no_stop_before stops k u"
proof -
  have "(\<forall>j < length t + k. \<not> prefix s (drop j (t @ u))) \<longleftrightarrow> (\<forall>j < k. \<not> prefix s (drop j u))"
    (is "?l \<longleftrightarrow> ?r") if s: "s \<in> set stops" "s \<noteq> []" for s
  proof
    assume l: ?l
    show ?r
    proof (intro allI impI)
      fix j assume "j < k"
      with l [rule_format, of "length t + j"] show "\<not> prefix s (drop j u)" by simp
    qed
  next
    assume r: ?r
    show ?l
    proof (intro allI impI)
      fix j assume j: "j < length t + k"
      show "\<not> prefix s (drop j (t @ u))"
      proof (cases "j < length t")
        case True
        with assms s show ?thesis by (simp add: safe_text_def no_stop_before_def)
      next
        case False
        with r [rule_format, of "j - length t"] j show ?thesis by simp
      qed
    qed
  qed
  then show ?thesis by (simp add: no_stop_before_def)
qed

lemma safe_text_append: "safe_text stops t \<Longrightarrow> safe_text stops u \<Longrightarrow> safe_text stops (t @ u)"
  using no_stop_before_append [of stops t] by (simp add: safe_text_def)

lemma earliest_stop_append:
  assumes "safe_text stops t"
  shows "earliest_stop (t @ u) stops None = map_option (\<lambda>p. length t + p) (earliest_stop u stops None)"
proof (cases "earliest_stop u stops None")
  case None
  then have "earliest_stop (t @ u) stops None = None"
    using no_stop_before_append [OF assms, of "length u" u] by (simp add: earliest_stop_free)
  with None show ?thesis by simp
next
  case (Some p)
  then have "no_stop_before stops (length t + p) (t @ u)" "\<exists>s \<in> set stops. s \<noteq> [] \<and> prefix s (drop p u)"
    using no_stop_before_append [OF assms, of p u] by (auto simp: earliest_stop_is)
  then have "earliest_stop (t @ u) stops None = Some (length t + p)" unfolding earliest_stop_is by simp
  with Some show ?thesis by simp
qed

lemma cut_stop_append: "safe_text stops t \<Longrightarrow> cut_stop stops (t @ u) = t @ cut_stop stops u"
  by (simp add: cut_stop_def earliest_stop_append split: option.splits)

text \<open>What \<open>flush_pending\<close> lets through is safe: it holds no stop and ends with no beginning of one.\<close>

lemma emitted_is_safe:
  assumes "earliest_stop txt stops None = None" "\<not> list_ex (partial_stop txt) stops"
  shows "safe_text stops txt"
  unfolding safe_text_def no_stop_before_def
proof (intro allI ballI impI notI)
  fix ext s j
  assume s: "s \<in> set stops" "s \<noteq> []" and j: "j < length txt" and p: "prefix s (drop j (txt @ ext))"
  have p': "prefix s (drop j txt @ ext)" using p j by simp
  show False
  proof (cases "length s \<le> length (drop j txt)")
    case True
    then have "prefix s (drop j txt)" using p' by (metis prefix_length_prefix prefixI)
    then show False using assms(1) s j by (simp add: earliest_stop_free no_stop_before_def)
  next
    case False
    let ?i = "length txt - j - 1"
    have pre: "prefix (drop j txt) s" using p' False
      by (metis nat_le_linear prefix_length_prefix prefixI)
    then have "take (?i + 1) s = drop j txt" using j by (auto simp: prefix_def)
    then have "suffix (take (?i + 1) s) txt" by (metis suffix_drop)
    moreover have "?i \<in> set [0..<length s - 1]" using False j by auto
    ultimately have "partial_stop txt s" using s(2) unfolding partial_stop_def by blast
    then show False using assms(2) s(1) by (auto simp: list_ex_iff)
  qed
qed

subsection \<open>The loop\<close>

text \<open>Nothing outside ends the generation early.\<close>

definition undisturbed :: "gen_env \<Rightarrow> (nat \<Rightarrow> nat) \<Rightarrow> bool" where
  "undisturbed env ids \<longleftrightarrow>
     (\<forall>k. ge_draw env k = Ok (ids k)) \<and> (\<forall>k. \<not> ge_cancel env k) \<and> (\<forall>deltas d. ge_sink env deltas d)"

lemma deliver_undisturbed:
  "undisturbed env ids \<Longrightarrow>
    deliver_text env deltas full emit = Some (if emit = [] then deltas else deltas @ [emit], full @ emit)"
  by (simp add: deliver_text_def undisturbed_def)

lemma gen_finish_undisturbed:
  "undisturbed env ids \<Longrightarrow>
    gen_finish env tok reason deltas full pending n =
      (if decode_ids tok pending = [] then deltas else deltas @ [decode_ids tok pending],
       Ok \<lparr>go_text = full @ decode_ids tok pending, go_finish_reason = reason, go_completion_tokens = n\<rparr>)"
  by (simp add: gen_finish_def deliver_undisturbed)

text \<open>The tokens whose text counts: all that were sampled, but for a final end-of-sequence token.\<close>

definition text_tokens :: "nat list \<Rightarrow> (nat \<Rightarrow> nat) \<Rightarrow> nat \<Rightarrow> u32 list" where
  "text_tokens eos ids m = map (\<lambda>k. of_nat (ids k)) [0..<if ids (m - 1) \<in> set eos then m - 1 else m]"

lemma gen_loop_returns:
  assumes "undisturbed env ids"
  shows "0 < n \<Longrightarrow> next = ids (n - 1) \<Longrightarrow> n \<le> mx \<Longrightarrow>
    \<exists>deltas' out. gen_loop env tok stop eos mx n next deltas full pending = (deltas', Ok out) \<and>
      n \<le> go_completion_tokens out \<and> go_completion_tokens out \<le> mx \<and>
      (\<forall>k. n - 1 \<le> k \<and> k < go_completion_tokens out - 1 \<longrightarrow> ids k \<notin> set eos)"
proof (induction "mx - n" arbitrary: n "next" deltas full pending rule: less_induct)
  case less
  show ?case
  proof (cases "next \<in> set eos")
    case True
    then show ?thesis
      using less.prems by (subst gen_loop.simps) (auto simp: gen_finish_undisturbed [OF assms])
  next
    case False
    obtain emit stopped pending' where f: "flush_pending tok stop (pending @ [of_nat next]) = (emit, stopped, pending')"
      by (rule prod_cases3)
    let ?deltas = "if emit = [] then deltas else deltas @ [emit]"
    show ?thesis
    proof (cases "stopped \<or> mx \<le> n")
      case True
      then show ?thesis
        using less.prems False f
        by (subst gen_loop.simps) (auto simp: gen_finish_undisturbed [OF assms] deliver_undisturbed [OF assms])
    next
      case cont: False
      have step: "gen_loop env tok stop eos mx n next deltas full pending
          = gen_loop env tok stop eos mx (n + 1) (ids n) ?deltas (full @ emit) pending'"
        using cont False f assms
        by (subst gen_loop.simps) (simp add: deliver_undisturbed [OF assms] undisturbed_def)
      obtain deltas' out where o: "gen_loop env tok stop eos mx (n + 1) (ids n) ?deltas (full @ emit) pending' = (deltas', Ok out)"
        "n + 1 \<le> go_completion_tokens out" "go_completion_tokens out \<le> mx"
        "\<forall>k. n \<le> k \<and> k < go_completion_tokens out - 1 \<longrightarrow> ids k \<notin> set eos"
        using less.hyps [of "n + 1" "ids n" ?deltas "full @ emit" pending', OF _ _ _ ] cont
        by (metis One_nat_def Suc_leI add.right_neutral add_Suc_right add_diff_cancel_right' add_gr_0
            diff_less_mono2 lessI not_le)
      have "ids k \<notin> set eos" if "n - 1 \<le> k" "k < go_completion_tokens out - 1" for k
        using that o(4) False less.prems(1,2) by (cases "k = n - 1") auto
      then show ?thesis unfolding step using o by auto
    qed
  qed
qed

text \<open>What the pending ids may be between two iterations.\<close>

definition pending_ok :: "bpe_tokenizer \<Rightarrow> str list \<Rightarrow> u32 list \<Rightarrow> bool" where
  "pending_ok tok stop pending \<longleftrightarrow>
     pending = [] \<or> from_utf8 (decode_bytes tok pending) = Err None \<or>
     earliest_stop (decode_ids tok pending) stop None = None"

lemma flush_pending_ok:
  assumes "from_utf8 (decode_bytes tok pending) = Ok u \<or> from_utf8 (decode_bytes tok pending) = Err None"
    and "flush_pending tok stop pending = (emit, stopped, pending')"
  shows "stopped \<Longrightarrow> from_utf8 (decode_bytes tok pending) = Ok u \<and> pending' = [] \<and> emit = cut_stop stop u \<and>
      earliest_stop u stop None \<noteq> None"
    and "\<not> stopped \<Longrightarrow> emit = [] \<and> pending' = pending \<and> pending_ok tok stop pending \<or>
      from_utf8 (decode_bytes tok pending) = Ok u \<and> emit = u \<and> pending' = [] \<and> safe_text stop u"
  using assms emitted_is_safe [of u stop]
  by (auto simp: flush_pending_def Let_def pending_ok_def cut_stop_def decode_ids_def from_utf8_lossy_Ok
      split: if_splits option.splits)

lemma finish_text:
  assumes "from_utf8 (decode_bytes tok Q) = Ok full" "safe_text stop full" "pending_ok tok stop pending"
    "decode_bytes tok (Q @ pending) = str_utf8 t" "\<forall>c \<in> set t. char_ok c"
  shows "full @ decode_ids tok pending = cut_stop stop t \<and> earliest_stop t stop None = None"
proof -
  have "from_utf8 (decode_bytes tok (Q @ pending)) = Ok t"
    unfolding assms(4) using assms(5) by (rule from_utf8_str_utf8)
  then obtain u where u: "from_utf8 (decode_bytes tok pending) = Ok u" "t = full @ u"
    using from_utf8_append [OF assms(1)] by (auto simp: outcome_simps)
  have "earliest_stop u stop None = None"
    using assms(3) u(1) unfolding pending_ok_def decode_ids_def from_utf8_lossy_Ok [OF u(1)]
    by (auto simp: decode_bytes_def from_utf8_def earliest_stop_free no_stop_before_def)
  then show ?thesis
    using u assms(2) by (simp add: decode_ids_def from_utf8_lossy_Ok earliest_stop_append cut_stop_append)
      (simp add: cut_stop_def)
qed

lemma valid_part:
  assumes "decode_bytes tok (Q @ P @ R) = str_utf8 t" "\<forall>c \<in> set t. char_ok c" "from_utf8 (decode_bytes tok Q) = Ok full"
  obtains u where "from_utf8 (decode_bytes tok P) = Ok u" | "from_utf8 (decode_bytes tok P) = Err None"
proof -
  have "str_utf8 t = decode_bytes tok (Q @ P) @ decode_bytes tok R" using assms(1) by simp
  from from_utf8_cut [OF assms(2) this] that show thesis
    using from_utf8_append [OF assms(3), of "decode_bytes tok P"]
    by (cases "from_utf8 (decode_bytes tok P)") auto
qed

lemma text_tokens_from:
  assumes "n \<le> m" "0 < n" "ids (n - 1) \<notin> set eos"
  obtains R where "text_tokens eos ids m = map (\<lambda>k. of_nat (ids k)) [0..<n - 1] @ [of_nat (ids (n - 1))] @ R"
proof -
  let ?e = "if ids (m - 1) \<in> set eos then m - 1 else m"
  have "n \<le> ?e" using assms by (cases "m = n") auto
  then have "[0..<?e] = [0..<n] @ [n..<?e]" by (metis le_add_diff_inverse upt_add_eq_append zero_le)
  moreover have "[0..<n] = [0..<n - 1] @ [n - 1]" using assms(2) by (cases n) auto
  ultimately show thesis using that by (simp add: text_tokens_def)
qed

lemma gen_loop_text:
  assumes env: "undisturbed env ids"
  shows "0 < n \<Longrightarrow> next = ids (n - 1) \<Longrightarrow> n \<le> mx \<Longrightarrow>
    gen_loop env tok stop eos mx n next deltas full pending = (deltas', Ok out) \<Longrightarrow>
    Q @ pending = map (\<lambda>k. of_nat (ids k)) [0..<n - 1] \<Longrightarrow> from_utf8 (decode_bytes tok Q) = Ok full \<Longrightarrow>
    safe_text stop full \<Longrightarrow> concat deltas = full \<Longrightarrow> pending_ok tok stop pending \<Longrightarrow>
    decode_bytes tok (text_tokens eos ids (go_completion_tokens out)) = str_utf8 t \<Longrightarrow> \<forall>c \<in> set t. char_ok c \<Longrightarrow>
    go_text out = cut_stop stop t \<and> concat deltas' = go_text out \<and>
    (go_finish_reason out = ''stop'' \<longleftrightarrow>
       ids (go_completion_tokens out - 1) \<in> set eos \<or> earliest_stop t stop None \<noteq> None)"
proof (induction "mx - n" arbitrary: n "next" deltas full pending Q rule: less_induct)
  case less
  let ?m = "go_completion_tokens out" and ?P = "pending @ [of_nat next]"
  note ret = less.prems(4) and toks = less.prems(5) and Q = less.prems(6) and safe = less.prems(7)
    and deltas = less.prems(8) and pend = less.prems(9) and t = less.prems(10,11)
  show ?case
  proof (cases "next \<in> set eos")
    case True
    then have g: "gen_finish env tok ''stop'' deltas full pending n = (deltas', Ok out)"
      using ret by (subst (asm) gen_loop.simps) simp
    then have m: "?m = n" "go_text out = full @ decode_ids tok pending" "go_finish_reason out = ''stop''"
      "concat deltas' = go_text out"
      using deltas by (auto simp: gen_finish_undisturbed [OF env])
    have "text_tokens eos ids ?m = Q @ pending"
      using True less.prems(2) unfolding m(1) toks by (simp add: text_tokens_def)
    with finish_text [OF Q safe pend _ t(2)] t(1) m True less.prems(2) show ?thesis by simp
  next
    case False
    have n_le: "n \<le> ?m"
      using gen_loop_returns [OF env less.prems(1-3), of tok stop eos deltas full pending] ret by auto
    obtain R where R: "text_tokens eos ids ?m = Q @ ?P @ R"
      using text_tokens_from [OF n_le less.prems(1), of ids eos] False less.prems(2) toks by (metis append.assoc)
    obtain u where u: "from_utf8 (decode_bytes tok ?P) = Ok u \<or> from_utf8 (decode_bytes tok ?P) = Err None"
      using valid_part [OF _ t(2) Q, of ?P R] t(1) R by metis
    obtain emit stopped pending' where f: "flush_pending tok stop ?P = (emit, stopped, pending')"
      by (rule prod_cases3)
    note flush = flush_pending_ok [OF u f]
    let ?deltas = "if emit = [] then deltas else deltas @ [emit]"
    have here: "text_tokens eos ids ?m = Q @ ?P" if "?m = n"
      using that False less.prems(1,2) toks by (cases n) (simp_all add: text_tokens_def flip: append.assoc)
    show ?thesis
    proof (cases stopped)
      case True
      then have "gen_finish env tok ''stop'' ?deltas (full @ emit) pending' n = (deltas', Ok out)"
        using ret False f by (subst (asm) gen_loop.simps) (simp add: deliver_undisturbed [OF env])
      then have m: "?m = n" "go_text out = full @ emit" "go_finish_reason out = ''stop''" "concat deltas' = go_text out"
        using deltas flush(1) [OF True]
        by (auto simp: gen_finish_undisturbed [OF env] decode_ids_def decode_bytes_def from_utf8_lossy_def split: if_splits)
      have "from_utf8 (str_utf8 t) = Ok (full @ u)"
        using t(1) here [OF m(1)] from_utf8_append [OF Q, of "decode_bytes tok ?P"] flush(1) [OF True] by simp
      then have "t = full @ u" using from_utf8_str_utf8 [OF t(2)] by simp
      then show ?thesis
        using flush(1) [OF True] m safe by (auto simp: cut_stop_append earliest_stop_append)
    next
      case go: False
      obtain Q' where Q': "Q' @ pending' = Q @ ?P" "from_utf8 (decode_bytes tok Q') = Ok (full @ emit)"
        "safe_text stop (full @ emit)" "pending_ok tok stop pending'"
      proof (cases "emit = [] \<and> pending' = ?P \<and> pending_ok tok stop ?P")
        case True
        then show thesis using that [of Q] Q safe by auto
      next
        case nheld: False
        then have e: "from_utf8 (decode_bytes tok ?P) = Ok u" "emit = u" "pending' = []" "safe_text stop u"
          using flush(2) [OF go] by auto
        have "from_utf8 (decode_bytes tok (Q @ ?P)) = Ok (full @ u)"
          using from_utf8_append [OF Q, of "decode_bytes tok ?P"] e(1) by simp
        with e safe_text_append [OF safe e(4)] show thesis using that [of "Q @ ?P"] by (simp add: pending_ok_def)
      qed
      have deltas2: "concat ?deltas = full @ emit" using deltas by simp
      show ?thesis
      proof (cases "mx \<le> n")
        case True
        then have "gen_finish env tok ''length'' ?deltas (full @ emit) pending' n = (deltas', Ok out)"
          using ret False f go by (subst (asm) gen_loop.simps) (simp add: deliver_undisturbed [OF env])
        then have m: "?m = n" "go_text out = (full @ emit) @ decode_ids tok pending'" "go_finish_reason out = ''length''"
          "concat deltas' = go_text out"
          using deltas2 by (auto simp: gen_finish_undisturbed [OF env] split: if_splits)
        have "decode_bytes tok (Q' @ pending') = str_utf8 t" using t(1) here [OF m(1)] Q'(1) by simp
        with finish_text [OF Q'(2-4) _ t(2)] m False less.prems(2) show ?thesis by simp
      next
        case cont: False
        have "gen_loop env tok stop eos mx (n + 1) (ids n) ?deltas (full @ emit) pending' = (deltas', Ok out)"
          using ret False f go cont env
          by (subst (asm) gen_loop.simps) (simp add: deliver_undisturbed [OF env] undisturbed_def)
        moreover have "Q' @ pending' = map (\<lambda>k. of_nat (ids k)) [0..<n + 1 - 1]"
          using Q'(1) toks less.prems(1,2) by (cases n) (simp_all flip: append.assoc)
        ultimately show ?thesis
          using less.hyps [of "n + 1" "ids n" ?deltas "full @ emit" pending' Q'] cont Q' deltas2 t by simp
      qed
    qed
  qed
qed

subsection \<open>Properties\<close>

text \<open>C4: A generation nothing disturbs returns after at most \<open>max_tokens\<close> tokens (between 1 and
  65,536), and if the bytes of its tokens are valid UTF-8, characters split over tokens or not, it
  streams their text cut where the earliest stop string begins: no stop string is ever emitted, the
  deltas put together are the text returned, and the finish reason is \<open>stop\<close> exactly when an
  end-of-sequence token or a stop string ended it.\<close>

theorem streamed_text_is_cut:
  assumes "undisturbed env ids"
  shows "\<exists>deltas out. generate_text env tok stop eos max_tokens = (deltas, Ok out) \<and>
    1 \<le> go_completion_tokens out \<and> go_completion_tokens out \<le> max (min max_tokens 65536) 1 \<and>
    (\<forall>txt. decode_bytes tok (text_tokens eos ids (go_completion_tokens out)) = str_utf8 txt \<and> (\<forall>c \<in> set txt. char_ok c) \<longrightarrow>
       go_text out = cut_stop stop txt \<and> concat deltas = go_text out \<and>
       (\<forall>s \<in> set stop. s \<noteq> [] \<longrightarrow> \<not> sublist s (go_text out)) \<and>
       (go_finish_reason out = ''stop'' \<longleftrightarrow>
          ids (go_completion_tokens out - 1) \<in> set eos \<or> (\<exists>s \<in> set stop. s \<noteq> [] \<and> sublist s txt)))"
proof -
  let ?mx = "max (min max_tokens 65536) 1"
  have g: "generate_text env tok stop eos max_tokens = gen_loop env tok stop eos ?mx 1 (ids 0) [] [] []"
    using assms by (simp add: generate_text_def undisturbed_def)
  obtain deltas out where o: "gen_loop env tok stop eos ?mx 1 (ids 0) [] [] [] = (deltas, Ok out)"
    "1 \<le> go_completion_tokens out" "go_completion_tokens out \<le> ?mx"
    using gen_loop_returns [OF assms, of 1 "ids 0" ?mx tok stop eos "[]" "[]" "[]"] by auto
  have "go_text out = cut_stop stop t \<and> concat deltas = go_text out \<and>
      (go_finish_reason out = ''stop'' \<longleftrightarrow>
        ids (go_completion_tokens out - 1) \<in> set eos \<or> earliest_stop t stop None \<noteq> None)"
    if "decode_bytes tok (text_tokens eos ids (go_completion_tokens out)) = str_utf8 t" "\<forall>c \<in> set t. char_ok c" for t
    by (rule gen_loop_text [OF assms _ _ _ o(1), of "[]"])
      (use that in \<open>simp_all add: decode_bytes_def from_utf8_def pending_ok_def\<close>)
  moreover have "earliest_stop t stop None \<noteq> None \<longleftrightarrow> (\<exists>s \<in> set stop. s \<noteq> [] \<and> sublist s t)" for t
    using earliest_stop_hits by blast
  ultimately show ?thesis
    unfolding g using o by (intro exI [of _ deltas] exI [of _ out]) (simp add: cut_stop_free)
qed

text \<open>A three-byte character over two tokens, then a stop string over two more.\<close>

definition byte_token :: "u8 list \<Rightarrow> str" where
  "byte_token bs = map (\<lambda>b. bytes_to_unicode ! unat b) bs"

definition sample_stream_tok :: bpe_tokenizer where
  "sample_stream_tok = from_parts
     [(byte_token [0xE6], 0), (byte_token [0x9D, 0xB1], 1), (byte_token [97], 2), (byte_token [98], 3),
      (byte_token [97, 98, 0xE6], 4), (byte_token [0xFF, 0xE6], 5)] [] []"

definition sample_gen_env :: "nat list \<Rightarrow> gen_env" where
  "sample_gen_env ids =
     \<lparr>ge_draw = (\<lambda>k. Ok (if k < length ids then ids ! k else 0)), ge_cancel = (\<lambda>_. False), ge_sink = (\<lambda>_ _. True)\<rparr>"

lemma sample_gen_env_undisturbed: "undisturbed (sample_gen_env l) (\<lambda>k. if k < length l then l ! k else 0)"
  by (simp add: undisturbed_def sample_gen_env_def)

lemma byte_token_bytes: "concat (map char_to_bytes (byte_token bs)) = bs"
  by (simp add: byte_token_def char_to_bytes_def unicode_to_bytes_of_byte comp_def concat_singletons)

lemma sample_stream_bytes:
  "decode_bytes sample_stream_tok [0] = [0xE6]" "decode_bytes sample_stream_tok [1] = [0x9D, 0xB1]"
  "decode_bytes sample_stream_tok [2] = [97]" "decode_bytes sample_stream_tok [3] = [98]"
  "decode_bytes sample_stream_tok [4] = [97, 98, 0xE6]" "decode_bytes sample_stream_tok [5] = [0xFF, 0xE6]"
  by (simp_all add: decode_bytes_def id_bytes_def sample_stream_tok_def from_parts_def byte_token_bytes)

lemma sample_id_bytes:
  "id_bytes sample_stream_tok 0 = [0xE6]" "id_bytes sample_stream_tok 1 = [0x9D, 0xB1]"
  "id_bytes sample_stream_tok 2 = [97]" "id_bytes sample_stream_tok 3 = [98]"
  using sample_stream_bytes by (simp_all add: decode_bytes_def)

lemma sample_run:
  "generate_text (sample_gen_env [0, 1, 2, 3]) sample_stream_tok [[97, 98]] [9] 10
    = ([[0x6771]], Ok \<lparr>go_text = [0x6771], go_finish_reason = ''stop'', go_completion_tokens = 4\<rparr>)"
  by (simp add: generate_text_def gen_loop.simps sample_gen_env_def flush_pending_def decode_bytes_def
      sample_id_bytes from_utf8_def from_utf8_lossy_def utf8_step_def second_of_3_def cont_byte_def Let_def
      deliver_text_def gen_finish_def decode_ids_def partial_stop_def upt_rec suffix_Cons)

theorem streamed_text_is_cut_witness:
  "cut_stop [[97, 98]] [0x6771, 97, 98] = [0x6771] \<and>
   snd (generate_text (sample_gen_env [0, 1, 2, 3]) sample_stream_tok [[97, 98]] [9] 10)
     = Ok \<lparr>go_text = cut_stop [[97, 98]] [0x6771, 97, 98], go_finish_reason = ''stop'', go_completion_tokens = 4\<rparr>"
proof -
  have "decode_bytes sample_stream_tok (text_tokens [9] (\<lambda>k. if k < length [0, 1, 2, 3] then [0, 1, 2, 3] ! k else 0) 4)
      = str_utf8 [0x6771, 97, 98]"
    by (simp add: text_tokens_def upt_rec decode_bytes_def sample_id_bytes str_utf8_def char_bytes_def)
  moreover have "\<forall>c \<in> set [0x6771, 97, 98 :: nat]. char_ok c" by (simp add: char_ok_def)
  ultimately have "go_text (\<lparr>go_text = [0x6771], go_finish_reason = ''stop'', go_completion_tokens = 4\<rparr>)
      = cut_stop [[97, 98]] [0x6771, 97, 98]"
    using streamed_text_is_cut [OF sample_gen_env_undisturbed, of "[0, 1, 2, 3]" sample_stream_tok "[[97, 98]]" "[9]" 10]
    unfolding sample_run by auto
  then show ?thesis unfolding sample_run by simp
qed

text \<open>C28: The hold-back of a split character looks at the first UTF-8 error only: a character cut at the
  end of the pending bytes is held back, but with an invalid byte before it the same cut character is
  emitted as U+FFFD at once, and the bytes that would complete it come too late.\<close>

theorem partial_char_not_held:
  assumes "decode_bytes tok part = bs" "decode_bytes tok bad = 0xFF # bs" "from_utf8 bs = Err None"
    "part \<noteq> []" "bad \<noteq> []"
  shows "flush_pending tok [] part = ([], False, part) \<and>
    flush_pending tok [] bad = (0xFFFD # from_utf8_lossy bs, False, [])"
  using assms
  by (simp add: flush_pending_def from_utf8_def from_utf8_lossy_def utf8_step_def)

theorem partial_char_not_held_witness:
  "flush_pending sample_stream_tok [] [0] = ([], False, [0]) \<and>
   flush_pending sample_stream_tok [] [5] = ([0xFFFD, 0xFFFD], False, [])"
proof -
  have "from_utf8 [0xE6] = Err None" "from_utf8_lossy [0xE6] = [0xFFFD]"
    by (simp_all add: from_utf8_def from_utf8_lossy_def utf8_step_def)
  with partial_char_not_held [OF sample_stream_bytes(1,6)] show ?thesis by simp
qed

text \<open>Bytes that are invalid stay so, whatever follows.\<close>

lemma utf8_step_bad: "utf8_step b bs = UBad n r \<Longrightarrow> utf8_step b (bs @ ys) = UBad n (r @ ys)"
  by (auto simp: utf8_step_def split: if_splits list.splits)

lemma nat_from_utf8_bad: "nat_from_utf8 xs = Err (Some n) \<Longrightarrow> nat_from_utf8 (xs @ ys) = Err (Some n)"
proof (induction xs rule: nat_from_utf8.induct)
  case (2 b bs)
  show ?case
  proof (cases "utf8_step b bs")
    case (UChar c r)
    then have "nat_from_utf8 r = Err (Some n)" using "2.prems" by (auto simp: outcome_simps)
    then show ?thesis using "2.IH" [OF UChar] utf8_step_extend [OF UChar, of ys] by simp
  next
    case (UBad k r)
    then show ?thesis using "2.prems" utf8_step_bad [OF UBad, of ys] by simp
  qed (use "2.prems" in simp)
qed simp

lemma nat_from_utf8_no_panic: "nat_from_utf8 xs \<noteq> Panic"
  by (induction xs rule: nat_from_utf8.induct) (auto simp: outcome_simps split: utf8_step.splits)

lemma from_utf8_prefix:
  assumes "from_utf8 (xs @ ys) = Ok t \<or> from_utf8 (xs @ ys) = Err None"
  obtains u where "from_utf8 xs = Ok u" | "from_utf8 xs = Err None"
proof (cases "from_utf8 xs")
  case (Err e)
  show thesis
  proof (cases e)
    case (Some n)
    then show thesis using assms Err nat_from_utf8_bad [of "map unat xs" n "map unat ys"] by (simp add: from_utf8_def)
  qed (use Err that in simp)
qed (use that nat_from_utf8_no_panic in \<open>auto simp: from_utf8_def\<close>)

lemma gen_loop_cut:
  assumes env: "undisturbed env ids"
  shows "0 < n \<Longrightarrow> next = ids (n - 1) \<Longrightarrow> n \<le> mx \<Longrightarrow>
    gen_loop env tok stop eos mx n next deltas full pending = (deltas', Ok out) \<Longrightarrow>
    Q @ pending = map (\<lambda>k. of_nat (ids k)) [0..<n - 1] \<Longrightarrow> from_utf8 (decode_bytes tok Q) = Ok full \<Longrightarrow> concat deltas = full \<Longrightarrow>
    from_utf8 (decode_bytes tok (text_tokens eos ids (go_completion_tokens out))) = Err None \<Longrightarrow>
    go_text out = from_utf8_lossy (decode_bytes tok (text_tokens eos ids (go_completion_tokens out))) \<and> concat deltas' = go_text out"
proof (induction "mx - n" arbitrary: n "next" deltas full pending Q rule: less_induct)
  case less
  let ?m = "go_completion_tokens out" and ?P = "pending @ [of_nat next]"
  note ret = less.prems(4) and toks = less.prems(5) and Q = less.prems(6) and deltas = less.prems(7) and cut = less.prems(8)
  show ?case
  proof (cases "next \<in> set eos")
    case True
    then have g: "gen_finish env tok ''stop'' deltas full pending n = (deltas', Ok out)"
      using ret by (subst (asm) gen_loop.simps) simp
    then have m: "?m = n" "go_text out = full @ decode_ids tok pending" "concat deltas' = go_text out"
      using deltas by (auto simp: gen_finish_undisturbed [OF env])
    have "text_tokens eos ids ?m = Q @ pending"
      using True less.prems(2) unfolding m(1) toks by (simp add: text_tokens_def)
    then show ?thesis using m from_utf8_lossy_append [OF Q] by (simp add: decode_ids_def)
  next
    case False
    have n_le: "n \<le> ?m"
      using gen_loop_returns [OF env less.prems(1-3), of tok stop eos deltas full pending] ret by auto
    obtain R where R: "text_tokens eos ids ?m = Q @ ?P @ R"
      using text_tokens_from [OF n_le less.prems(1), of ids eos] False less.prems(2) toks by (metis append.assoc)
    have "from_utf8 (decode_bytes tok (?P @ R)) = Err None"
    proof -
      have "obind (from_utf8 (decode_bytes tok (?P @ R))) (\<lambda>u. Ok (full @ u)) = Err None"
        using cut from_utf8_append [OF Q, of "decode_bytes tok (?P @ R)"] by (simp only: R decode_bytes_append)
      then show ?thesis by (cases "from_utf8 (decode_bytes tok (?P @ R))") (simp_all only: obind.simps outcome.distinct outcome.inject)
    qed
    then obtain u where u: "from_utf8 (decode_bytes tok ?P) = Ok u \<or> from_utf8 (decode_bytes tok ?P) = Err None"
      using from_utf8_prefix [of "decode_bytes tok ?P" "decode_bytes tok R"] unfolding decode_bytes_append by metis
    obtain emit stopped pending' where f: "flush_pending tok stop ?P = (emit, stopped, pending')"
      by (rule prod_cases3)
    note flush = flush_pending_ok [OF u f]
    let ?deltas = "if emit = [] then deltas else deltas @ [emit]"
    have here: "text_tokens eos ids ?m = Q @ ?P" if "?m = n"
      using that False less.prems(1,2) toks by (cases n) (simp_all add: text_tokens_def flip: append.assoc)
    have go: "\<not> stopped"
    proof
      assume stopped
      then have "gen_finish env tok ''stop'' ?deltas (full @ emit) pending' n = (deltas', Ok out)"
        using ret False f by (subst (asm) gen_loop.simps) (simp add: deliver_undisturbed [OF env])
      then have "?m = n" by (auto simp: gen_finish_undisturbed [OF env] split: if_splits)
      then show False
        using cut here from_utf8_append [OF Q, of "decode_bytes tok ?P"] flush(1) [OF \<open>stopped\<close>] by simp
    qed
    obtain Q' where Q': "Q' @ pending' = Q @ ?P" "from_utf8 (decode_bytes tok Q') = Ok (full @ emit)"
    proof (cases "emit = [] \<and> pending' = ?P")
      case True
      then show thesis using that [of Q] Q by auto
    next
      case False
      then have e: "from_utf8 (decode_bytes tok ?P) = Ok u" "emit = u" "pending' = []" using flush(2) [OF go] by auto
      have "from_utf8 (decode_bytes tok (Q @ ?P)) = Ok (full @ u)"
        using from_utf8_append [OF Q, of "decode_bytes tok ?P"] e(1) by simp
      then show thesis using that [of "Q @ ?P"] e by simp
    qed
    have deltas2: "concat ?deltas = full @ emit" using deltas by simp
    show ?thesis
    proof (cases "mx \<le> n")
      case True
      then have "gen_finish env tok ''length'' ?deltas (full @ emit) pending' n = (deltas', Ok out)"
        using ret False f go by (subst (asm) gen_loop.simps) (simp add: deliver_undisturbed [OF env])
      then have m: "?m = n" "go_text out = (full @ emit) @ decode_ids tok pending'" "concat deltas' = go_text out"
        using deltas2 by (auto simp: gen_finish_undisturbed [OF env] split: if_splits)
      have "text_tokens eos ids ?m = Q' @ pending'" using here [OF m(1)] Q'(1) by simp
      then show ?thesis using m from_utf8_lossy_append [OF Q'(2)] by (simp add: decode_ids_def)
    next
      case cont: False
      have "gen_loop env tok stop eos mx (n + 1) (ids n) ?deltas (full @ emit) pending' = (deltas', Ok out)"
        using ret False f go cont env
        by (subst (asm) gen_loop.simps) (simp add: deliver_undisturbed [OF env] undisturbed_def)
      moreover have "Q' @ pending' = map (\<lambda>k. of_nat (ids k)) [0..<n + 1 - 1]"
        using Q'(1) toks less.prems(1,2) by (cases n) (simp_all flip: append.assoc)
      ultimately show ?thesis
        using less.hyps [of "n + 1" "ids n" ?deltas "full @ emit" pending' Q'] cont Q' deltas2 cut by simp
    qed
  qed
qed

text \<open>C29: A stop string is missed when a generation ends inside a character. Whatever the vocabulary, the stop
  strings and the token budget, and whether the budget or an end-of-sequence token ends it: when the bytes of
  the generated tokens end with the beginning of a character, the generation returns their whole text, not cut at
  any stop string. The hold-back of the cut character comes before the search for stops, all of the pending
  text is held back with it, and the tail is delivered without a search.\<close>

theorem cut_char_escapes_stop:
  assumes "undisturbed env ids" "generate_text env tok stop eos max_tokens = (deltas, Ok out)"
    "from_utf8 (decode_bytes tok (text_tokens eos ids (go_completion_tokens out))) = Err None"
  shows "go_text out = from_utf8_lossy (decode_bytes tok (text_tokens eos ids (go_completion_tokens out))) \<and>
    concat deltas = go_text out"
proof -
  let ?mx = "max (min max_tokens 65536) 1"
  have g: "gen_loop env tok stop eos ?mx 1 (ids 0) [] [] [] = (deltas, Ok out)"
    using assms(1,2) by (simp add: generate_text_def undisturbed_def)
  show ?thesis
    by (rule gen_loop_cut [OF assms(1) _ _ _ g, of "[]"]) (use assms(3) in \<open>simp_all add: decode_bytes_def from_utf8_def\<close>)
qed

text \<open>The stop string \<open>ab\<close>: \<open>a\<close> is held back as its beginning, then \<open>ab\<close> with the first byte of a character as that
  of a cut one, and the end of the sequence comes next.\<close>

lemma sample_cut_run:
  "generate_text (sample_gen_env [2, 4, 9]) sample_stream_tok [[97, 98]] [9] 10
    = ([[97, 97, 98, 0xFFFD]], Ok \<lparr>go_text = [97, 97, 98, 0xFFFD], go_finish_reason = ''stop'', go_completion_tokens = 3\<rparr>)"
proof -
  have ids: "id_bytes sample_stream_tok 4 = [97, 98, 0xE6]" using sample_stream_bytes by (simp add: decode_bytes_def)
  show ?thesis
    by (simp add: generate_text_def gen_loop.simps sample_gen_env_def flush_pending_def decode_bytes_def
        sample_id_bytes ids from_utf8_def from_utf8_lossy_def utf8_step_def Let_def
        deliver_text_def gen_finish_def decode_ids_def partial_stop_def upt_rec suffix_Cons)
qed

theorem cut_char_escapes_stop_witness:
  "sublist [97, 98] (from_utf8_lossy (decode_bytes sample_stream_tok [2, 4])) \<and>
   snd (generate_text (sample_gen_env [2, 4, 9]) sample_stream_tok [[97, 98]] [9] 10)
     = Ok \<lparr>go_text = from_utf8_lossy (decode_bytes sample_stream_tok [2, 4]), go_finish_reason = ''stop'', go_completion_tokens = 3\<rparr>"
proof -
  have toks: "text_tokens [9] (\<lambda>k. if k < length [2, 4, 9] then [2, 4, 9] ! k else 0) 3 = [2, 4]"
    by (simp add: text_tokens_def upt_rec)
  have bytes: "decode_bytes sample_stream_tok [2, 4] = [97, 97, 98, 0xE6]"
    using sample_stream_bytes(3,5) by (simp add: decode_bytes_def)
  have "from_utf8 [97, 97, 98, 0xE6] = Err None" by (simp add: from_utf8_def utf8_step_def)
  then have "[97, 97, 98, 0xFFFD] = from_utf8_lossy (decode_bytes sample_stream_tok [2, 4])"
    using cut_char_escapes_stop [OF sample_gen_env_undisturbed sample_cut_run] unfolding generate_outcome.simps toks bytes by blast
  moreover have "sublist [97, 98] [97, 97, 98, 0xFFFD :: nat]" by (simp add: sublist_Cons_right)
  ultimately show ?thesis unfolding sample_cut_run by simp
qed

end
