(* ===== verification/ExpertClient.thy ===== *)
theory ExpertClient
  imports CoordSum
begin

text \<open>
  The non-blocking submit/collect client, \<open>crates/mimo26-wire/src/async_api.rs\<close>: tickets in flight,
  one coordinator sum each, fed from a transport the client only ever polls. The transport is the
  interface \<open>mailbox\<close>; the queue of the crate's tests (\<open>tests/async_api.rs\<close>) provides it.
\<close>

subsection \<open>State\<close>

record ticket =
  tk_id :: u64
  tk_layer_id :: u32
  tk_rows :: nat
  tk_sparks :: nat

record 't transport =
  tp_send :: "'t \<Rightarrow> request_frame \<Rightarrow> 't \<times> unit wire_result"
  tp_try_recv :: "'t \<Rightarrow> 't \<times> return_frame option"

record pending_work =
  pw_ticket :: ticket
  pw_request_id :: u64
  pw_sum :: coordinator_sum

record 't expert_client =
  ec_transport :: 't
  ec_hidden :: nat
  ec_naive :: wire_naive
  ec_next_id :: u64
  ec_pending :: "pending_work list"

subsection \<open>Operations\<close>

definition client_new :: "'t \<Rightarrow> nat \<Rightarrow> wire_naive \<Rightarrow> 't expert_client" where
  "client_new transport hidden naive =
     \<lparr>ec_transport = transport, ec_hidden = hidden, ec_naive = naive, ec_next_id = 1, ec_pending = []\<rparr>"

fun send_requests :: "'t transport \<Rightarrow> 't \<Rightarrow> request_frame list \<Rightarrow> 't \<times> unit wire_result" where
  "send_requests ops t [] = (t, Ok ())"
| "send_requests ops t (f # fs) =
     (case tp_send ops t f of (t, r) \<Rightarrow>
        (case r of Ok _ \<Rightarrow> send_requests ops t fs | Err e \<Rightarrow> (t, Err e) | Panic \<Rightarrow> (t, Panic)))"

definition submit_frame ::
  "u64 \<Rightarrow> u32 \<Rightarrow> row_descriptor list \<Rightarrow> route_entry list \<Rightarrow> hidden_row list \<Rightarrow> nat \<Rightarrow> request_frame" where
  "submit_frame request_id layer_id rows routes hidden_rows executor =
     \<lparr>rq_request_id = request_id, rq_placement_version = 1, rq_layer_id = layer_id,
      rq_executor_id = of_nat executor, rq_source_kind = SkDecode, rq_token_position = 0, rq_flags = 0,
      rq_seq = 0, rq_rows = rows, rq_routes = routes, rq_hidden_rows = hidden_rows\<rparr>"

definition client_submit ::
  "'t transport \<Rightarrow> 't expert_client \<Rightarrow> u32 \<Rightarrow> row_descriptor list \<Rightarrow> route_entry list \<Rightarrow> hidden_row list \<Rightarrow>
   't expert_client \<times> ticket wire_result" where
  "client_submit ops c layer_id rows routes hidden_rows =
     (let request_id = ec_next_id c;
          c = c\<lparr>ec_next_id := ec_next_id c + 1\<rparr> in
      case send_requests ops (ec_transport c) (map (submit_frame request_id layer_id rows routes hidden_rows) [0..<SPARKS]) of
        (t, Ok _) \<Rightarrow>
          let ticket = \<lparr>tk_id = request_id, tk_layer_id = layer_id, tk_rows = length rows, tk_sparks = SPARKS\<rparr>;
              work = \<lparr>pw_ticket = ticket, pw_request_id = request_id,
                      pw_sum = coordinator_sum_new (length rows) (ec_hidden c) (ec_naive c)\<rparr> in
          (c\<lparr>ec_transport := t, ec_pending := ec_pending c @ [work]\<rparr>, Ok ticket)
      | (t, Err e) \<Rightarrow> (c\<lparr>ec_transport := t\<rparr>, Err e)
      | (t, Panic) \<Rightarrow> (c\<lparr>ec_transport := t\<rparr>, Panic))"

definition pending_for :: "return_frame \<Rightarrow> pending_work \<Rightarrow> bool" where
  "pending_for f p \<longleftrightarrow> pw_request_id p = rt_request_id f \<and> tk_layer_id (pw_ticket p) = rt_layer_id f"

text \<open>One arrived frame goes to the sum it belongs to.\<close>

definition absorb :: "pending_work list \<Rightarrow> return_frame \<Rightarrow> pending_work list \<times> unit wire_result" where
  "absorb ps f =
     (case position_of (pending_for f) ps of
        None \<Rightarrow> (ps, Err (UnknownRequest (rt_request_id f)))
      | Some i \<Rightarrow>
          (case accumulate (pw_sum (ps ! i)) f of (cs, r) \<Rightarrow> (ps[i := (ps ! i)\<lparr>pw_sum := cs\<rparr>], r)))"

text \<open>\<open>while let Some(frame) = self.transport.try_recv()\<close>: the value is \<open>None\<close> when frames never stop
  coming.\<close>

partial_function (option) drain :: "'t transport \<Rightarrow> 't expert_client \<Rightarrow> ('t expert_client \<times> unit wire_result) option" where
  "drain ops c =
     (case tp_try_recv ops (ec_transport c) of
        (t, None) \<Rightarrow> Some (c\<lparr>ec_transport := t\<rparr>, Ok ())
      | (t, Some f) \<Rightarrow>
          (case absorb (ec_pending c) f of
             (ps, Ok _) \<Rightarrow> drain ops (c\<lparr>ec_transport := t, ec_pending := ps\<rparr>)
           | (ps, Err e) \<Rightarrow> Some (c\<lparr>ec_transport := t, ec_pending := ps\<rparr>, Err e)
           | (ps, Panic) \<Rightarrow> Some (c\<lparr>ec_transport := t, ec_pending := ps\<rparr>, Panic)))"

definition ticket_result :: "pending_work list \<Rightarrow> ticket \<Rightarrow> f32 list option wire_result" where
  "ticket_result ps ticket =
     (case List.find (\<lambda>p. pw_ticket p = ticket) ps of
        None \<Rightarrow> Err (UnknownRequest (tk_id ticket))
      | Some p \<Rightarrow>
          if \<not> cs_is_complete (pw_sum p) then Ok None
          else obind (cs_result (pw_sum p)) (\<lambda>v. Ok (Some v)))"

definition client_collect ::
  "'t transport \<Rightarrow> 't expert_client \<Rightarrow> ticket \<Rightarrow> ('t expert_client \<times> f32 list option wire_result) option" where
  "client_collect ops c ticket =
     (case drain ops c of
        None \<Rightarrow> None
      | Some (c, Ok _) \<Rightarrow> Some (c, ticket_result (ec_pending c) ticket)
      | Some (c, Err e) \<Rightarrow> Some (c, Err e)
      | Some (c, Panic) \<Rightarrow> Some (c, Panic))"

definition client_retire :: "'t expert_client \<Rightarrow> ticket \<Rightarrow> 't expert_client" where
  "client_retire c ticket = c\<lparr>ec_pending := filter (\<lambda>p. pw_ticket p \<noteq> ticket) (ec_pending c)\<rparr>"

definition client_pending_len :: "'t expert_client \<Rightarrow> nat" where
  "client_pending_len c = length (ec_pending c)"

subsection \<open>The transport as a mailbox\<close>

fun absorb_all :: "pending_work list \<Rightarrow> return_frame list \<Rightarrow> pending_work list \<times> unit wire_result \<times> return_frame list" where
  "absorb_all ps [] = (ps, Ok (), [])"
| "absorb_all ps (f # fs) =
     (case absorb ps f of (ps, r) \<Rightarrow> (case r of Ok _ \<Rightarrow> absorb_all ps fs | _ \<Rightarrow> (ps, r, fs)))"

locale mailbox =
  fixes ops :: "'t transport" and inbox :: "'t \<Rightarrow> return_frame list" and sent :: "'t \<Rightarrow> request_frame list"
  assumes send: "tp_send ops t f = (t', r) \<Longrightarrow> r = Ok () \<and> inbox t' = inbox t \<and> sent t' = sent t @ [f]"
    and recv: "tp_try_recv ops t = (t', m) \<Longrightarrow>
      (case inbox t of [] \<Rightarrow> m = None \<and> inbox t' = [] | f # fs \<Rightarrow> m = Some f \<and> inbox t' = fs) \<and> sent t' = sent t"
begin

lemma send_requests_sent:
  "\<exists>t'. send_requests ops t fs = (t', Ok ()) \<and> inbox t' = inbox t \<and> sent t' = sent t @ fs"
proof (induction fs arbitrary: t)
  case (Cons f fs)
  obtain t1 r where s: "tp_send ops t f = (t1, r)" by (cases "tp_send ops t f")
  from send [OF s] Cons.IH [of t1] s show ?case by auto
qed simp

text \<open>Draining handles the mail that is there, in order, and stops: at the end, or at the first frame
  that is refused, with the rest still in the inbox.\<close>

lemma drain_absorbs:
  "\<exists>t'. drain ops c = Some (c\<lparr>ec_transport := t', ec_pending := fst (absorb_all (ec_pending c) (inbox (ec_transport c)))\<rparr>,
      fst (snd (absorb_all (ec_pending c) (inbox (ec_transport c))))) \<and>
    inbox t' = snd (snd (absorb_all (ec_pending c) (inbox (ec_transport c)))) \<and> sent t' = sent (ec_transport c)"
proof (induction "inbox (ec_transport c)" arbitrary: c)
  case Nil
  obtain t' r where t': "tp_try_recv ops (ec_transport c) = (t', r)" by (cases "tp_try_recv ops (ec_transport c)")
  with recv [OF t'] Nil show ?case by (subst drain.simps) (auto simp flip: Nil intro!: exI [of _ t'])
next
  case (Cons f fs)
  obtain t' r where t': "tp_try_recv ops (ec_transport c) = (t', r)" by (cases "tp_try_recv ops (ec_transport c)")
  have r: "r = Some f" "inbox t' = fs" "sent t' = sent (ec_transport c)"
    using recv [OF t'] unfolding Cons.hyps(2) [symmetric] by simp_all
  obtain ps r' where a: "absorb (ec_pending c) f = (ps, r')" by (cases "absorb (ec_pending c) f")
  show ?case
  proof (cases r')
    case (Ok u)
    have "drain ops c = drain ops (c\<lparr>ec_transport := t', ec_pending := ps\<rparr>)"
      using r t' a Ok by (subst drain.simps) simp
    with Cons.hyps(1) [of "c\<lparr>ec_transport := t', ec_pending := ps\<rparr>"] r a Ok show ?thesis
      unfolding Cons.hyps(2) [symmetric] by simp
  next
    case (Err e)
    then have "drain ops c = Some (c\<lparr>ec_transport := t', ec_pending := ps\<rparr>, Err e)"
      using r t' a by (subst drain.simps) simp
    then show ?thesis using a Err r(2,3) unfolding Cons.hyps(2) [symmetric] by auto
  next
    case Panic
    then have "drain ops c = Some (c\<lparr>ec_transport := t', ec_pending := ps\<rparr>, Panic)"
      using r t' a by (subst drain.simps) simp
    then show ?thesis using a Panic r(2,3) unfolding Cons.hyps(2) [symmetric] by auto
  qed
qed

end

subsection \<open>The queue of the tests\<close>

record queue_transport =
  qt_sent :: "request_frame list"
  qt_inbox :: "return_frame list"
  qt_recv_calls :: nat

definition queue_send :: "queue_transport \<Rightarrow> request_frame \<Rightarrow> queue_transport \<times> unit wire_result" where
  "queue_send t f = (t\<lparr>qt_sent := qt_sent t @ [f]\<rparr>, Ok ())"

definition queue_try_recv :: "queue_transport \<Rightarrow> queue_transport \<times> return_frame option" where
  "queue_try_recv t =
     (let t = t\<lparr>qt_recv_calls := qt_recv_calls t + 1\<rparr> in
      case qt_inbox t of [] \<Rightarrow> (t, None) | f # fs \<Rightarrow> (t\<lparr>qt_inbox := fs\<rparr>, Some f))"

definition queue_ops :: "queue_transport transport" where
  "queue_ops = \<lparr>tp_send = queue_send, tp_try_recv = queue_try_recv\<rparr>"

interpretation queue: mailbox queue_ops qt_inbox qt_sent
  by unfold_locales (auto simp: queue_ops_def queue_send_def queue_try_recv_def Let_def split: list.splits)

subsection \<open>What the tickets' sums hold\<close>

text \<open>The data \<open>D\<close> of each request, of which the slots \<open>S\<close> have arrived.\<close>

definition work_shows :: "nat \<Rightarrow> (u64 \<Rightarrow> nat \<Rightarrow> nat \<Rightarrow> u16 list) \<Rightarrow> (u64 \<Rightarrow> (nat \<times> nat) set) \<Rightarrow> pending_work list \<Rightarrow> bool" where
  "work_shows H D S ps \<longleftrightarrow>
     distinct (map pw_request_id ps) \<and>
     (\<forall>p \<in> set ps. pw_request_id p = tk_id (pw_ticket p) \<and> tk_rows (pw_ticket p) < 2 ^ 64 \<and>
        sum_shows (pw_request_id p) (tk_layer_id (pw_ticket p)) (tk_rows (pw_ticket p)) H (pw_sum p)
          (data_on (D (pw_request_id p)) (S (pw_request_id p))))"

text \<open>The frame is a partial of one of the tickets.\<close>

definition frame_for :: "nat \<Rightarrow> (u64 \<Rightarrow> nat \<Rightarrow> nat \<Rightarrow> u16 list) \<Rightarrow> ticket list \<Rightarrow> return_frame \<Rightarrow> bool" where
  "frame_for H D ts f \<longleftrightarrow> (\<exists>t \<in> set ts. partial_frame (tk_id t) (tk_layer_id t) (tk_rows t) H (D (tk_id t)) f)"

text \<open>No slot of a request arrives twice.\<close>

fun fresh_frames :: "(u64 \<Rightarrow> (nat \<times> nat) set) \<Rightarrow> return_frame list \<Rightarrow> bool" where
  "fresh_frames S [] \<longleftrightarrow> True"
| "fresh_frames S (f # fs) \<longleftrightarrow>
     frame_slots f \<inter> S (rt_request_id f) = {} \<and>
     fresh_frames (S(rt_request_id f := S (rt_request_id f) \<union> frame_slots f)) fs"

definition slots_after :: "(u64 \<Rightarrow> (nat \<times> nat) set) \<Rightarrow> return_frame list \<Rightarrow> u64 \<Rightarrow> (nat \<times> nat) set" where
  "slots_after S fs = (\<lambda>q. S q \<union> \<Union> (frame_slots ` {f \<in> set fs. rt_request_id f = q}))"

lemma slots_after_Cons:
  "slots_after S (f # fs) = slots_after (S(rt_request_id f := S (rt_request_id f) \<union> frame_slots f)) fs"
  by (auto simp: slots_after_def fun_eq_iff)

lemma slots_after_Nil: "slots_after S [] = S"
  by (simp add: slots_after_def)

lemma ticket_of_id:
  assumes "work_shows H D S ps" "p \<in> set ps" "p' \<in> set ps" "pw_request_id p = pw_request_id p'"
  shows "p = p'"
proof -
  have "inj_on pw_request_id (set ps)" using assms(1) by (simp add: work_shows_def distinct_map)
  then show ?thesis using assms(2-4) by (metis inj_onD)
qed

lemma absorb_shows:
  assumes s: "work_shows H D S ps" and f: "frame_for H D (map pw_ticket ps) f"
    and fresh: "frame_slots f \<inter> S (rt_request_id f) = {}"
  shows "\<exists>ps'. absorb ps f = (ps', Ok ()) \<and> map pw_ticket ps' = map pw_ticket ps \<and>
    work_shows H D (S(rt_request_id f := S (rt_request_id f) \<union> frame_slots f)) ps'"
proof -
  obtain p where p: "p \<in> set ps"
    "partial_frame (tk_id (pw_ticket p)) (tk_layer_id (pw_ticket p)) (tk_rows (pw_ticket p)) H (D (tk_id (pw_ticket p))) f"
    using f by (auto simp: frame_for_def)
  have id: "pw_request_id p = tk_id (pw_ticket p)" "rt_request_id f = pw_request_id p"
    "rt_layer_id f = tk_layer_id (pw_ticket p)"
    using p s by (auto simp: work_shows_def partial_frame_def)
  have "pending_for f p" using id by (simp add: pending_for_def)
  then obtain i where i: "position_of (pending_for f) ps = Some i"
    using p(1) position_of_None [of "pending_for f" ps] by (cases "position_of (pending_for f) ps") auto
  have nth: "i < length ps" "pending_for f (ps ! i)" using position_of_Some [OF i] by auto
  have ip: "ps ! i = p"
    using ticket_of_id [OF s nth_mem [OF nth(1)] p(1)] nth(2) id by (simp add: pending_for_def)
  have "sum_shows (pw_request_id p) (tk_layer_id (pw_ticket p)) (tk_rows (pw_ticket p)) H (pw_sum p)
      (data_on (D (pw_request_id p)) (S (pw_request_id p)))" "tk_rows (pw_ticket p) < 2 ^ 64"
    using s p(1) by (auto simp: work_shows_def)
  then obtain cs where cs: "accumulate (pw_sum p) f = (cs, Ok ())"
    "sum_shows (pw_request_id p) (tk_layer_id (pw_ticket p)) (tk_rows (pw_ticket p)) H cs
      (data_on (D (pw_request_id p)) (S (pw_request_id p) \<union> frame_slots f))"
    using accumulate_fresh [of "pw_request_id p" "tk_layer_id (pw_ticket p)" "tk_rows (pw_ticket p)" H "pw_sum p"
        "D (pw_request_id p)" "S (pw_request_id p)" f] p(2) fresh id by auto
  let ?ps = "ps[i := p\<lparr>pw_sum := cs\<rparr>]"
  have a: "absorb ps f = (?ps, Ok ())" using i cs(1) by (simp add: absorb_def ip)
  have t: "map pw_ticket ?ps = map pw_ticket ps" "map pw_request_id ?ps = map pw_request_id ps"
    using nth(1) ip by (auto simp: map_update list_update_same_conv)
  have "work_shows H D (S(rt_request_id f := S (rt_request_id f) \<union> frame_slots f)) ?ps"
    unfolding work_shows_def t(2)
  proof (intro conjI ballI)
    show "distinct (map pw_request_id ps)" using s by (simp add: work_shows_def)
    fix p' assume p': "p' \<in> set ?ps"
    show "pw_request_id p' = tk_id (pw_ticket p')" "tk_rows (pw_ticket p') < 2 ^ 64"
      using set_update_subset_insert [of ps i] p' p(1) s by (force simp: work_shows_def)+
    show "sum_shows (pw_request_id p') (tk_layer_id (pw_ticket p')) (tk_rows (pw_ticket p')) H (pw_sum p')
      (data_on (D (pw_request_id p')) ((S(rt_request_id f := S (rt_request_id f) \<union> frame_slots f)) (pw_request_id p')))"
    proof (cases "pw_request_id p' = pw_request_id p")
      case True
      obtain j where j: "j < length ps" "p' = ?ps ! j" using p' by (auto simp: in_set_conv_nth)
      have "j = i"
      proof (rule ccontr)
        assume "j \<noteq> i"
        then have "p' = ps ! j" using j by simp
        then have "ps ! j = p" using ticket_of_id [OF s nth_mem [OF j(1)] p(1)] True by simp
        with ip \<open>j \<noteq> i\<close> have "\<not> distinct (map pw_request_id ps)"
          using j(1) nth(1) by (metis distinct_conv_nth length_map nth_map)
        with s show False by (simp add: work_shows_def)
      qed
      then have "p' = p\<lparr>pw_sum := cs\<rparr>" using j nth(1) by simp
      then show ?thesis using cs(2) id by simp
    next
      case False
      then have "p' \<in> set ps" using p' set_update_subset_insert [of ps i "p\<lparr>pw_sum := cs\<rparr>"] by auto
      then have "sum_shows (pw_request_id p') (tk_layer_id (pw_ticket p')) (tk_rows (pw_ticket p')) H (pw_sum p')
        (data_on (D (pw_request_id p')) (S (pw_request_id p')))"
        using s unfolding work_shows_def by blast
      then show ?thesis using False id by (simp only: fun_upd_apply if_False)
    qed
  qed
  with a t(1) show ?thesis by blast
qed

lemma absorb_all_shows:
  "work_shows H D S ps \<Longrightarrow> \<forall>f \<in> set fs. frame_for H D (map pw_ticket ps) f \<Longrightarrow> fresh_frames S fs \<Longrightarrow>
    \<exists>ps'. absorb_all ps fs = (ps', Ok (), []) \<and> map pw_ticket ps' = map pw_ticket ps \<and> work_shows H D (slots_after S fs) ps'"
proof (induction fs arbitrary: S ps)
  case Nil
  then show ?case by (simp add: slots_after_def)
next
  case (Cons f fs)
  obtain ps1 where ps1: "absorb ps f = (ps1, Ok ())" "map pw_ticket ps1 = map pw_ticket ps"
    "work_shows H D (S(rt_request_id f := S (rt_request_id f) \<union> frame_slots f)) ps1"
    using absorb_shows [OF Cons.prems(1), of f] Cons.prems(2,3) by auto
  have "\<forall>f \<in> set fs. frame_for H D (map pw_ticket ps1) f"
    "fresh_frames (S(rt_request_id f := S (rt_request_id f) \<union> frame_slots f)) fs"
    unfolding ps1(2) using Cons.prems(2,3) by simp_all
  from Cons.IH [OF ps1(3) this]
  obtain ps' where "absorb_all ps1 fs = (ps', Ok (), [])" "map pw_ticket ps' = map pw_ticket ps1"
    "work_shows H D (slots_after (S(rt_request_id f := S (rt_request_id f) \<union> frame_slots f)) fs) ps'" by blast
  then show ?case using ps1(1,2) by (simp add: slots_after_Cons)
qed

lemma complete_iff:
  assumes "sum_shows q l R H cs (data_on D S)"
  shows "cs_is_complete cs \<longleftrightarrow> S = {..<R} \<times> {..<SPARKS}"
proof -
  have s: "S \<subseteq> {..<R} \<times> {..<SPARKS}" "cs_distinct cs = card S" "cs_rows cs = R"
    using assms by (simp_all add: sum_shows_def)
  have "card S = R * SPARKS \<longleftrightarrow> S = {..<R} \<times> {..<SPARKS}"
    using s(1) card_subset_eq [of "{..<R} \<times> {..<SPARKS}" S] by auto
  then show ?thesis using s by (simp add: cs_is_complete_def)
qed

lemma ticket_result_shows:
  assumes s: "work_shows H D S ps" and p: "p \<in> set ps"
  shows "ticket_result ps (pw_ticket p) =
    Ok (if S (tk_id (pw_ticket p)) = {..<tk_rows (pw_ticket p)} \<times> {..<SPARKS}
        then Some (rank_order_result (tk_rows (pw_ticket p)) H (D (tk_id (pw_ticket p)))) else None)"
proof -
  obtain p' where p': "List.find (\<lambda>p'. pw_ticket p' = pw_ticket p) ps = Some p'" "p' \<in> set ps" "pw_ticket p' = pw_ticket p"
    using p by (cases "List.find (\<lambda>p'. pw_ticket p' = pw_ticket p) ps") (auto simp: find_None_iff find_Some_iff)
  have "pw_request_id p' = pw_request_id p" using s p p' by (simp add: work_shows_def)
  then have "p' = p" using ticket_of_id [OF s p'(2) p] by simp
  moreover have sh: "sum_shows (tk_id (pw_ticket p)) (tk_layer_id (pw_ticket p)) (tk_rows (pw_ticket p)) H (pw_sum p)
      (data_on (D (tk_id (pw_ticket p))) (S (tk_id (pw_ticket p))))"
    using s p unfolding work_shows_def by metis
  ultimately show ?thesis
    using p'(1) complete_iff [OF sh] complete_result [of "tk_id (pw_ticket p)" "tk_layer_id (pw_ticket p)"] sh
    by (auto simp: ticket_result_def)
qed

lemma queue_sends: "send_requests queue_ops t fs = (t\<lparr>qt_sent := qt_sent t @ fs\<rparr>, Ok ())"
  by (induction fs arbitrary: t) (simp_all add: queue_ops_def queue_send_def)

subsection \<open>Properties\<close>

text \<open>Submitting hands one request per Spark to the transport, in rank order, and returns a fresh
  ticket at once: the receive side is not touched, no ticket already in flight changes, and the new
  one starts with nothing received.\<close>

theorem submit_never_receives:
  assumes "work_shows (ec_hidden c) D S (ec_pending c)" "ec_naive c = naive_none"
    "\<forall>p \<in> set (ec_pending c). unat (pw_request_id p) < unat (ec_next_id c)"
    "unat (ec_next_id c) + 1 < 2 ^ 64" "length rows < 2 ^ 64"
  shows "\<exists>c' t. client_submit queue_ops c layer rows routes hidden_rows = (c', Ok t) \<and>
    qt_sent (ec_transport c') = qt_sent (ec_transport c) @
      map (submit_frame (ec_next_id c) layer rows routes hidden_rows) [0..<4] \<and>
    qt_inbox (ec_transport c') = qt_inbox (ec_transport c) \<and>
    qt_recv_calls (ec_transport c') = qt_recv_calls (ec_transport c) \<and>
    t \<notin> set (map pw_ticket (ec_pending c)) \<and> map pw_ticket (ec_pending c') = map pw_ticket (ec_pending c) @ [t] \<and>
    ec_hidden c' = ec_hidden c \<and> ec_naive c' = naive_none \<and>
    work_shows (ec_hidden c') D (S(tk_id t := {})) (ec_pending c') \<and>
    (\<forall>p \<in> set (ec_pending c'). unat (pw_request_id p) < unat (ec_next_id c'))"
proof -
  let ?t = "\<lparr>tk_id = ec_next_id c, tk_layer_id = layer, tk_rows = length rows, tk_sparks = SPARKS\<rparr>"
  let ?w = "\<lparr>pw_ticket = ?t, pw_request_id = ec_next_id c, pw_sum = coordinator_sum_new (length rows) (ec_hidden c) naive_none\<rparr>"
  let ?sent = "map (submit_frame (ec_next_id c) layer rows routes hidden_rows) [0..<SPARKS]"
  let ?c = "c\<lparr>ec_next_id := ec_next_id c + 1, ec_transport := (ec_transport c)\<lparr>qt_sent := qt_sent (ec_transport c) @ ?sent\<rparr>,
    ec_pending := ec_pending c @ [?w]\<rparr>"
  have r: "client_submit queue_ops c layer rows routes hidden_rows = (?c, Ok ?t)"
    by (simp add: client_submit_def queue_sends Let_def assms(2))
  have ne: "pw_request_id p \<noteq> ec_next_id c" if "p \<in> set (ec_pending c)" for p using assms(3) that by force
  have old: "tk_id (pw_ticket p) \<noteq> ec_next_id c" if "p \<in> set (ec_pending c)" for p
    using assms(1) ne [OF that] that by (auto simp: work_shows_def)
  have "data_on D {} = Map.empty" for D by (simp add: data_on_def fun_eq_iff)
  then have new: "sum_shows q l R H (coordinator_sum_new R H naive_none) (data_on E {})" for q l R H E
    using new_shows by simp
  have "work_shows (ec_hidden c) D (S(ec_next_id c := {})) (ec_pending c @ [?w])"
    unfolding work_shows_def
  proof (intro conjI ballI)
    have "ec_next_id c \<notin> pw_request_id ` set (ec_pending c)" by (metis imageE ne)
    then show "distinct (map pw_request_id (ec_pending c @ [?w]))" using assms(1) by (simp add: work_shows_def)
    fix p assume "p \<in> set (ec_pending c @ [?w])"
    then consider "p \<in> set (ec_pending c)" | "p = ?w" by auto
    then show "pw_request_id p = tk_id (pw_ticket p)" "tk_rows (pw_ticket p) < 2 ^ 64"
      "sum_shows (pw_request_id p) (tk_layer_id (pw_ticket p)) (tk_rows (pw_ticket p)) (ec_hidden c) (pw_sum p)
        (data_on (D (pw_request_id p)) ((S(ec_next_id c := {})) (pw_request_id p)))"
    proof (atomize (full), cases)
      case 1
      then show "pw_request_id p = tk_id (pw_ticket p) \<and> tk_rows (pw_ticket p) < 2 ^ 64 \<and>
        sum_shows (pw_request_id p) (tk_layer_id (pw_ticket p)) (tk_rows (pw_ticket p)) (ec_hidden c) (pw_sum p)
        (data_on (D (pw_request_id p)) ((S(ec_next_id c := {})) (pw_request_id p)))"
        using assms(1) unfolding fun_upd_other [OF ne [OF 1], of S "{}"] work_shows_def by blast
    next
      case 2
      then show "pw_request_id p = tk_id (pw_ticket p) \<and> tk_rows (pw_ticket p) < 2 ^ 64 \<and>
        sum_shows (pw_request_id p) (tk_layer_id (pw_ticket p)) (tk_rows (pw_ticket p)) (ec_hidden c) (pw_sum p)
        (data_on (D (pw_request_id p)) ((S(ec_next_id c := {})) (pw_request_id p)))"
        using assms(5) new by simp
    qed
  qed
  moreover have "unat (ec_next_id c + 1) = unat (ec_next_id c) + 1"
    using assms(4) by (simp add: unat_word_ariths)
  then have "\<forall>p \<in> set (ec_pending c @ [?w]). unat (pw_request_id p) < unat (ec_next_id c + 1)"
    using assms(3) by force
  moreover have "?t \<notin> set (map pw_ticket (ec_pending c))"
  proof
    assume "?t \<in> set (map pw_ticket (ec_pending c))"
    then obtain p where "p \<in> set (ec_pending c)" "pw_ticket p = ?t" by auto
    with old [of p] show False by simp
  qed
  ultimately show ?thesis
    unfolding r using assms(2) by (intro exI [of _ ?c] exI [of _ ?t]) (simp add: SPARKS_def)
qed

definition sample_client :: "queue_transport expert_client" where
  "sample_client = client_new \<lparr>qt_sent = [], qt_inbox = [], qt_recv_calls = 0\<rparr> 1 naive_none"

lemma sample_client_facts:
  "work_shows (ec_hidden sample_client) D S (ec_pending sample_client)" "ec_naive sample_client = naive_none"
  "\<forall>p \<in> set (ec_pending sample_client). unat (pw_request_id p) < unat (ec_next_id sample_client)"
  "unat (ec_next_id sample_client) + 1 < 2 ^ 64"
  by (simp_all add: sample_client_def client_new_def work_shows_def)

theorem submit_never_receives_witness:
  "\<exists>c'. client_submit queue_ops sample_client 3 [] [] [] = (c', Ok \<lparr>tk_id = 1, tk_layer_id = 3, tk_rows = 0, tk_sparks = 4\<rparr>) \<and>
    map rq_executor_id (qt_sent (ec_transport c')) = [0, 1, 2, 3] \<and> qt_recv_calls (ec_transport c') = 0"
proof -
  obtain c' t where c': "client_submit queue_ops sample_client 3 [] [] [] = (c', Ok t)"
    "qt_sent (ec_transport c') = qt_sent (ec_transport sample_client) @
      map (submit_frame (ec_next_id sample_client) 3 [] [] []) [0..<4]"
    "qt_recv_calls (ec_transport c') = qt_recv_calls (ec_transport sample_client)"
    using submit_never_receives [OF sample_client_facts, where D = "\<lambda>_ _ _. []" and S = "\<lambda>_. {}" and rows = "[]" and layer = 3
      and routes = "[]" and hidden_rows = "[]"] by auto
  have "t = \<lparr>tk_id = 1, tk_layer_id = 3, tk_rows = 0, tk_sparks = 4\<rparr>"
    using c'(1) by (simp add: client_submit_def queue_sends sample_client_def client_new_def Let_def SPARKS_def split: prod.splits)
  then show ?thesis
    using c' by (simp add: sample_client_def client_new_def submit_frame_def upt_rec)
qed

text \<open>C9: Collecting takes everything that has arrived, whichever tickets it is for and however the
  frames of different tickets are interleaved, credits each ticket with its own partials only, and
  returns at once: the sums in rank order when the asked ticket has every slot, nothing yet
  otherwise. (No slot arrives twice; every frame belongs to a ticket in flight.)\<close>

theorem collect_demultiplexes:
  assumes "work_shows (ec_hidden c) D S (ec_pending c)"
    "\<forall>f \<in> set (qt_inbox (ec_transport c)). frame_for (ec_hidden c) D (map pw_ticket (ec_pending c)) f"
    "fresh_frames S (qt_inbox (ec_transport c))" "t \<in> set (map pw_ticket (ec_pending c))"
  shows "\<exists>c'. client_collect queue_ops c t = Some (c',
      Ok (if slots_after S (qt_inbox (ec_transport c)) (tk_id t) = {..<tk_rows t} \<times> {..<SPARKS}
          then Some (rank_order_result (tk_rows t) (ec_hidden c) (D (tk_id t))) else None)) \<and>
    qt_inbox (ec_transport c') = [] \<and> map pw_ticket (ec_pending c') = map pw_ticket (ec_pending c) \<and>
    ec_hidden c' = ec_hidden c \<and> work_shows (ec_hidden c') D (slots_after S (qt_inbox (ec_transport c))) (ec_pending c')"
proof -
  obtain ps where ps: "absorb_all (ec_pending c) (qt_inbox (ec_transport c)) = (ps, Ok (), [])"
    "map pw_ticket ps = map pw_ticket (ec_pending c)"
    "work_shows (ec_hidden c) D (slots_after S (qt_inbox (ec_transport c))) ps"
    using absorb_all_shows [OF assms(1-3)] by blast
  obtain tr where tr: "drain queue_ops c = Some (c\<lparr>ec_transport := tr, ec_pending := ps\<rparr>, Ok ())" "qt_inbox tr = []"
    using queue.drain_absorbs [of c] ps(1) by auto
  have "t \<in> pw_ticket ` set ps" using assms(4) ps(2) by (metis list.set_map)
  then obtain p where "p \<in> set ps" "t = pw_ticket p" by blast
  then show ?thesis
    using ticket_result_shows [OF ps(3)] tr ps(2,3)
    by (intro exI [of _ "c\<lparr>ec_transport := tr, ec_pending := ps\<rparr>"]) (simp add: client_collect_def)
qed

text \<open>Two tickets in flight; the frames of the second arrive among those of the first.\<close>

definition r8_for :: "u64 \<Rightarrow> u64 \<Rightarrow> return_frame" where
  "r8_for q k = (r8_partial k)\<lparr>rt_request_id := q\<rparr>"

definition r8_ticket :: "u64 \<Rightarrow> ticket" where
  "r8_ticket q = \<lparr>tk_id = q, tk_layer_id = 3, tk_rows = 1, tk_sparks = 4\<rparr>"

definition r8_client :: "queue_transport expert_client" where
  "r8_client =
     \<lparr>ec_transport = \<lparr>qt_sent = [], qt_inbox = [r8_for 1 0, r8_for 2 3, r8_for 1 2, r8_for 1 1, r8_for 2 0, r8_for 1 3], qt_recv_calls = 0\<rparr>,
      ec_hidden = 1, ec_naive = naive_none, ec_next_id = 3,
      ec_pending = map (\<lambda>q. \<lparr>pw_ticket = r8_ticket q, pw_request_id = q, pw_sum = coordinator_sum_new 1 1 naive_none\<rparr>) [1, 2]\<rparr>"

definition r8_data :: "nat \<Rightarrow> nat \<Rightarrow> u16 list" where
  "r8_data t k = [[0x4B80, 0x3F80, 0xCB80, 0x3F80] ! k]"

lemma r8_slots: "frame_slots (r8_for q k) = {(0, unat k)}"
  by (simp add: frame_slots_def r8_for_def r8_partial_def sample_return_def lessThan_Suc)

lemma r8_rank_order: "rank_order_result 1 1 r8_data = [0x3F800000]"
  by (simp add: rank_order_result_def r8_data_def ordered_sum_def layout_simps upt_rec bf16_to_f32_def r8_additions)

theorem collect_demultiplexes_witness:
  "\<exists>c1 c2. client_collect queue_ops r8_client (r8_ticket 1) = Some (c1, Ok (Some [0x3F800000])) \<and>
    client_collect queue_ops r8_client (r8_ticket 2) = Some (c2, Ok None)"
proof -
  let ?D = "\<lambda>_ :: u64. r8_data" and ?S = "\<lambda>_ :: u64. {} :: (nat \<times> nat) set"
  have "data_on r8_data {} = Map.empty" by (simp add: data_on_def fun_eq_iff)
  then have w: "work_shows (ec_hidden r8_client) ?D ?S (ec_pending r8_client)"
    using new_shows by (simp add: work_shows_def r8_client_def r8_ticket_def)
  have f: "\<forall>f \<in> set (qt_inbox (ec_transport r8_client)). frame_for (ec_hidden r8_client) ?D (map pw_ticket (ec_pending r8_client)) f"
    by (simp add: r8_client_def frame_for_def partial_frame_def r8_for_def r8_partial_def r8_data_def r8_ticket_def
        sample_return_def layout_simps)
  have rid: "rt_request_id (r8_for q k) = q" for q k by (simp add: r8_for_def)
  have fr: "fresh_frames ?S (qt_inbox (ec_transport r8_client))"
    by (simp add: r8_client_def r8_slots rid)
  have m: "r8_ticket 1 \<in> set (map pw_ticket (ec_pending r8_client))"
    "r8_ticket 2 \<in> set (map pw_ticket (ec_pending r8_client))"
    by (simp_all add: r8_client_def)
  have "{..<4 :: nat} = {0, 1, 2, 3}" by auto
  then have full: "{..<1 :: nat} \<times> {..<SPARKS} = {(0, 0), (0, 1), (0, 2), (0, 3)}" by (auto simp: SPARKS_def)
  have sl: "slots_after ?S (qt_inbox (ec_transport r8_client)) 1 = {(0, 0), (0, 2), (0, 1), (0, 3)}"
    "slots_after ?S (qt_inbox (ec_transport r8_client)) 2 = {(0, 3), (0, 0)}"
    by (simp_all add: r8_client_def slots_after_Cons slots_after_Nil r8_slots rid) auto
  have here: "slots_after ?S (qt_inbox (ec_transport r8_client)) 1 = {..<1} \<times> {..<SPARKS}"
    and missing: "(slots_after ?S (qt_inbox (ec_transport r8_client)) 2 = {..<1} \<times> {..<SPARKS}) = False"
  proof -
    show "slots_after ?S (qt_inbox (ec_transport r8_client)) 1 = {..<1} \<times> {..<SPARKS}"
      unfolding sl(1) full by blast
    have "(0 :: nat, 1 :: nat) \<notin> {(0, 3), (0, 0)}" "(0 :: nat, 1 :: nat) \<in> {(0, 0), (0, 1), (0, 2), (0, 3)}" by simp_all
    then show "(slots_after ?S (qt_inbox (ec_transport r8_client)) 2 = {..<1} \<times> {..<SPARKS}) = False"
      unfolding sl(2) full by metis
  qed
  have t: "tk_id (r8_ticket q) = q" "tk_rows (r8_ticket q) = 1" for q by (simp_all add: r8_ticket_def)
  have h: "ec_hidden r8_client = 1" by (simp add: r8_client_def)
  obtain c1 where "client_collect queue_ops r8_client (r8_ticket 1) = Some (c1,
      Ok (if slots_after ?S (qt_inbox (ec_transport r8_client)) 1 = {..<1} \<times> {..<SPARKS}
          then Some (rank_order_result 1 1 r8_data) else None))"
    using collect_demultiplexes [OF w f fr m(1)] unfolding t h by (elim exE conjE)
  then have "client_collect queue_ops r8_client (r8_ticket 1) = Some (c1, Ok (Some [0x3F800000]))"
    by (simp only: here refl if_True r8_rank_order)
  moreover obtain c2 where "client_collect queue_ops r8_client (r8_ticket 2) = Some (c2,
      Ok (if slots_after ?S (qt_inbox (ec_transport r8_client)) 2 = {..<1} \<times> {..<SPARKS}
          then Some (rank_order_result 1 1 r8_data) else None))"
    using collect_demultiplexes [OF w f fr m(2)] unfolding t h by (elim exE conjE)
  then have "client_collect queue_ops r8_client (r8_ticket 2) = Some (c2, Ok None)"
    by (simp only: missing if_False)
  ultimately show ?thesis by blast
qed

end
