(* ===== verification/FloatOps.thy ===== *)
theory FloatOps
  imports Float32
begin

text \<open>
  Multiplication, division and negation of binary32, and the binary64 values the dequantizer of
  \<open>crates/mimo26-expert/src/mxfp4.rs\<close> passes through. A finite value is a whole number of units of its
  format (\<open>2 ^ (-149)\<close> for \<open>f32\<close>, \<open>2 ^ (-1074)\<close> for \<open>f64\<close>); an operation is exact on units and then
  rounds once to nearest, ties to even. Rounding inverts reading the units of a pattern
  (\<open>round_mag_val\<close>) and is exact on every representable value (\<open>val_round_mag\<close>).
\<close>

subsection \<open>Formats\<close>

text \<open>\<open>t\<close> is the number of stored fraction bits, \<open>lim\<close> the pattern of infinity.\<close>

definition mag_val :: "nat \<Rightarrow> nat \<Rightarrow> nat" where
  "mag_val t m =
     (if m div 2 ^ t = 0 then m else (2 ^ t + m mod 2 ^ t) * 2 ^ (m div 2 ^ t - 1))"

text \<open>The pattern nearest to \<open>n / d\<close> units.\<close>

definition round_mag :: "nat \<Rightarrow> nat \<Rightarrow> nat \<Rightarrow> nat \<Rightarrow> nat" where
  "round_mag t lim n d =
     (let s = bit_len (n div d) - Suc t; w = d * 2 ^ s; q = n div w; r = n mod w;
          q' = (if w < 2 * r \<or> (2 * r = w \<and> odd q) then q + 1 else q)
      in min (s * 2 ^ t + q') lim)"

lemma bit_len_zero [simp]: "bit_len 0 = 0"
  by (simp add: bit_len.simps)

lemma bit_len_bounds: "n \<noteq> 0 \<Longrightarrow> 2 ^ (bit_len n - 1) \<le> n \<and> n < 2 ^ bit_len n \<and> 0 < bit_len n"
proof (induction n rule: bit_len.induct)
  case (1 n)
  show ?case
  proof (cases "n div 2 = 0")
    case True
    with 1 have "n = 1" by simp
    then show ?thesis by (simp add: bit_len.simps)
  next
    case False
    with 1 have "2 ^ (bit_len (n div 2) - 1) \<le> n div 2" "n div 2 < 2 ^ bit_len (n div 2)" "0 < bit_len (n div 2)"
      by auto
    moreover have "bit_len n = Suc (bit_len (n div 2))" using 1(2) by (subst bit_len.simps) simp
    ultimately show ?thesis by (cases "bit_len (n div 2)") auto
  qed
qed

lemma bit_len_eq:
  assumes "2 ^ k \<le> n" "n < 2 ^ Suc k"
  shows "bit_len n = Suc k"
proof -
  have "n \<noteq> 0" using assms(1) by (cases n) auto
  then have b: "2 ^ (bit_len n - 1) \<le> n" "n < 2 ^ bit_len n" "0 < bit_len n" using bit_len_bounds by auto
  have "(2::nat) ^ k < 2 ^ bit_len n" using assms(1) b(2) by (rule le_less_trans)
  then have "k < bit_len n" by (rule power_less_imp_less_exp [rotated]) simp
  have "(2::nat) ^ (bit_len n - 1) < 2 ^ Suc k" using b(1) assms(2) by (rule le_less_trans)
  then have "bit_len n - 1 < Suc k" by (rule power_less_imp_less_exp [rotated]) simp
  with \<open>k < bit_len n\<close> show ?thesis by simp
qed

lemma bit_len_le:
  assumes "n < 2 ^ k"
  shows "bit_len n \<le> k"
proof (cases "n = 0")
  case False
  note b = bit_len_bounds [OF False]
  from b assms have "2 ^ (bit_len n - 1) < (2::nat) ^ k" by (blast intro: le_less_trans)
  then have "bit_len n - 1 < k" by (rule power_less_imp_less_exp [rotated]) simp
  with b show ?thesis by simp
qed simp

lemma round_mag_div:
  assumes "0 < d"
  shows "round_mag t lim (n * d) d = round_mag t lim n 1"
proof -
  have "n * d div (d * w) = n div w" "n * d mod (d * w) = d * (n mod w)" for w :: nat
    using assms by (simp_all add: mult.commute [of n d])
  moreover have "d * w < 2 * (d * r) \<longleftrightarrow> w < 2 * r" "2 * (d * r) = d * w \<longleftrightarrow> 2 * r = w" for w r :: nat
    using assms by (metis mult.left_commute mult_less_cancel1, metis mult.left_commute mult_cancel1 less_not_refl2)
  ultimately show ?thesis using assms by (simp add: round_mag_def Let_def)
qed

lemma round_mag_val:
  assumes "m \<le> lim"
  shows "round_mag t lim (mag_val t m) 1 = m"
proof (cases "m div 2 ^ t = 0")
  case True
  then have m: "m < 2 ^ t" by (simp add: div_eq_0_iff)
  then have "bit_len m - Suc t = 0" using bit_len_le [of m t] by simp
  with True assms show ?thesis by (simp add: mag_val_def round_mag_def Let_def)
next
  case False
  define e where "e = m div 2 ^ t - 1"
  define f where "f = m mod 2 ^ t"
  have f: "f < 2 ^ t" by (simp add: f_def)
  have m: "m = (Suc e) * 2 ^ t + f" using False div_mult_mod_eq [of m "2 ^ t"] by (simp add: e_def f_def)
  have "bit_len ((2 ^ t + f) * 2 ^ e) = Suc (t + e)"
  proof (rule bit_len_eq)
    show "2 ^ (t + e) \<le> (2 ^ t + f) * 2 ^ e" by (simp add: power_add add_mult_distrib)
    have "2 ^ t + f < 2 ^ Suc t" using f by simp
    then have "(2 ^ t + f) * 2 ^ e < 2 ^ Suc t * 2 ^ e" by (intro mult_strict_right_mono) auto
    then show "(2 ^ t + f) * 2 ^ e < 2 ^ Suc (t + e)" by (simp add: power_add)
  qed
  moreover have "mag_val t m = (2 ^ t + f) * 2 ^ e" using False by (simp add: mag_val_def e_def f_def)
  ultimately show ?thesis using assms by (simp add: round_mag_def Let_def) (simp add: m)
qed

text \<open>A number with at most \<open>t + 1\<close> significant bits is not changed by rounding.\<close>

lemma val_round_mag:
  assumes "m < 2 ^ Suc t" "round_mag t lim (m * 2 ^ k) 1 < lim"
  shows "mag_val t (round_mag t lim (m * 2 ^ k) 1) = m * 2 ^ k"
proof -
  define n where "n = m * 2 ^ k"
  define s where "s = bit_len n - Suc t"
  have r: "n mod 2 ^ s = 0"
  proof (cases "s = 0 \<or> n = 0")
    case False
    then have b: "2 ^ (bit_len n - 1) \<le> n" using bit_len_bounds [of n] by simp
    have "bit_len n - 1 = t + s" using False by (simp add: s_def)
    with b have "2 ^ (t + s) \<le> m * 2 ^ k" by (simp add: n_def)
    also have "\<dots> < 2 ^ Suc t * 2 ^ k" using assms(1) by (intro mult_strict_right_mono) auto
    finally have "(2::nat) ^ (t + s) < 2 ^ (Suc t + k)" by (simp only: power_add)
    then have "t + s < Suc t + k" by (rule power_less_imp_less_exp [rotated]) simp
    then have "s \<le> k" by simp
    then have "(2::nat) ^ s dvd 2 ^ k" by (rule le_imp_power_dvd)
    then show ?thesis by (simp add: n_def dvd_mult)
  qed auto
  have q: "n div 2 ^ s < 2 ^ Suc t" "s \<noteq> 0 \<Longrightarrow> 2 ^ t \<le> n div 2 ^ s"
  proof -
    have "n < 2 ^ (Suc t + s)"
    proof (cases "n = 0")
      case False
      have "n < 2 ^ bit_len n" using bit_len_bounds [OF False] by simp
      also have "(2::nat) ^ bit_len n \<le> 2 ^ (Suc t + s)" by (rule power_increasing) (simp_all add: s_def)
      finally show ?thesis .
    qed simp
    then show "n div 2 ^ s < 2 ^ Suc t" by (simp add: less_mult_imp_div_less power_add)
    assume "s \<noteq> 0"
    then have "n \<noteq> 0" "bit_len n - 1 = t + s" by (cases "n = 0", simp_all add: s_def)
    then have "2 ^ (t + s) \<le> n" using bit_len_bounds [of n] by simp
    then show "2 ^ t \<le> n div 2 ^ s" by (simp add: less_eq_div_iff_mult_less_eq power_add)
  qed
  have n: "n = (n div 2 ^ s) * 2 ^ s" using r by (metis dvd_div_mult_self mod_0_imp_dvd)
  have "round_mag t lim n 1 = s * 2 ^ t + n div 2 ^ s"
    using assms(2) r unfolding n_def [symmetric] round_mag_def Let_def div_by_1 mult_1 s_def [symmetric]
    by (simp split: if_splits)
  moreover have "mag_val t (s * 2 ^ t + n div 2 ^ s) = n"
  proof (cases "n div 2 ^ s < 2 ^ t")
    case True
    with q(2) have "s = 0" by auto
    with True show ?thesis by (simp add: mag_val_def)
  next
    case False
    then obtain f where f: "n div 2 ^ s = 2 ^ t + f" "f < 2 ^ t"
      using q(1) le_Suc_ex [of "2 ^ t" "n div 2 ^ s"] by auto
    have e: "s * 2 ^ t + (2 ^ t + f) = f + Suc s * 2 ^ t" by simp
    have "(s * 2 ^ t + (2 ^ t + f)) div 2 ^ t = Suc s" "(s * 2 ^ t + (2 ^ t + f)) mod 2 ^ t = f"
      unfolding e using f(2) by (simp_all del: mult_Suc)
    then have "mag_val t (s * 2 ^ t + (2 ^ t + f)) = (2 ^ t + f) * 2 ^ s" by (simp add: mag_val_def)
    then have "mag_val t (s * 2 ^ t + n div 2 ^ s) = (n div 2 ^ s) * 2 ^ s" by (simp only: f(1))
    with n show ?thesis by simp
  qed
  ultimately show ?thesis by (simp add: n_def)
qed

lemma round_mag_bound:
  assumes "n < 2 ^ (t + k)"
  shows "round_mag t lim n 1 \<le> (k + 1) * 2 ^ t"
proof -
  define s where "s = bit_len n - Suc t"
  have "bit_len n \<le> t + k" using assms by (rule bit_len_le)
  then have s: "s \<le> k - 1" by (simp add: s_def)
  have "n < 2 ^ (Suc t + s)"
  proof (cases "n = 0")
    case False
    have "n < 2 ^ bit_len n" using bit_len_bounds [OF False] by simp
    also have "(2::nat) ^ bit_len n \<le> 2 ^ (Suc t + s)" by (rule power_increasing) (simp_all add: s_def)
    finally show ?thesis .
  qed simp
  then have "n div 2 ^ s < 2 ^ Suc t" by (simp add: less_mult_imp_div_less power_add)
  then have q: "round_mag t lim n 1 \<le> s * 2 ^ t + 2 ^ Suc t"
    unfolding round_mag_def Let_def div_by_1 mult_1 s_def [symmetric] by auto
  have "n < 2 ^ t \<or> 1 \<le> k" using assms by (cases k) auto
  then show ?thesis
  proof
    assume n: "n < 2 ^ t"
    then have "s = 0" "n div 2 ^ s = n" using bit_len_le [of n t] by (simp_all add: s_def)
    then have "round_mag t lim n 1 \<le> n"
      unfolding round_mag_def Let_def div_by_1 mult_1 s_def [symmetric] by auto
    with n show ?thesis by (simp add: add_increasing)
  next
    assume "1 \<le> k"
    with s have "s + 2 \<le> k + 1" by simp
    then have "(s + 2) * 2 ^ t \<le> (k + 1) * 2 ^ t" by (rule mult_right_mono) simp
    with q show ?thesis by (simp add: algebra_simps)
  qed
qed

lemma val_round_exact:
  assumes "m < 2 ^ Suc t" "m * 2 ^ j < 2 ^ (t + k)" "(k + 1) * 2 ^ t < lim"
  shows "mag_val t (round_mag t lim (m * 2 ^ j) 1) = m * 2 ^ j" "round_mag t lim (m * 2 ^ j) 1 < lim"
proof -
  show "round_mag t lim (m * 2 ^ j) 1 < lim" using round_mag_bound [OF assms(2)] assms(3) by (rule le_less_trans)
  with assms(1) show "mag_val t (round_mag t lim (m * 2 ^ j) 1) = m * 2 ^ j" by (rule val_round_mag)
qed

subsection \<open>binary32\<close>

lemma mag_units_val: "mag_units m = mag_val 23 m"
  by (simp add: mag_units_def mag_val_def)

definition f32_signed :: "bool \<Rightarrow> nat \<Rightarrow> f32" where
  "f32_signed s m = (if s then 0x80000000 OR of_nat m else of_nat m)"

lemma f32_signed_parts:
  assumes "m < 2 ^ 31"
  shows "f32_mag (f32_signed s m) = m" "f32_neg (f32_signed s m) = s"
proof -
  have low: "(0x7FFFFFFF :: u32) = mask 31" by (simp add: mask_eq_exp_minus_1)
  have m: "(of_nat m :: u32) AND mask 31 = of_nat m"
    using assms by (simp only: word_unat_eq_iff take_bit_eq_mask [symmetric] unsigned_take_bit_eq)
      (simp add: unat_of_nat take_bit_eq_mod)
  have "(0x80000000 :: u32) AND mask 31 = 0" by (simp add: mask_eq_exp_minus_1)
  with m have "f32_signed s m AND mask 31 = of_nat m" by (simp add: f32_signed_def bit.conj_disj_distrib2)
  with assms show "f32_mag (f32_signed s m) = m" by (simp add: f32_mag_def low unat_of_nat)
  have "\<not> bit ((of_nat m :: u32) AND mask 31) 31" by (simp only: bit_and_iff bit_mask_iff) simp
  then have "\<not> bit (of_nat m :: u32) 31" unfolding m .
  moreover have "(0x80000000 :: u32) = 2 ^ 31" by simp
  then have "bit (0x80000000 :: u32) 31" by (simp only: bit_exp_iff) simp
  ultimately show "f32_neg (f32_signed s m) = s" by (simp add: f32_neg_def f32_signed_def bit_or_iff)
qed

definition f32_is_finite :: "f32 \<Rightarrow> bool" where
  "f32_is_finite w = (f32_mag w < 0x7F800000)"

definition f32_negate :: "f32 \<Rightarrow> f32" where
  "f32_negate w = w XOR 0x80000000"

definition f32_sub :: "f32 \<Rightarrow> f32 \<Rightarrow> f32" where
  "f32_sub a b = f32_add a (f32_negate b)"

definition f32_mul :: "f32 \<Rightarrow> f32 \<Rightarrow> f32" where
  "f32_mul a b =
     (let s = (f32_neg a \<noteq> f32_neg b) in
      if f32_is_nan a \<or> f32_is_nan b then 0x7FC00000
      else if f32_is_inf a \<or> f32_is_inf b then
        (if f32_mag a = 0 \<or> f32_mag b = 0 then 0x7FC00000 else f32_signed s 0x7F800000)
      else f32_signed s (round_mag 23 0x7F800000 (mag_units (f32_mag a) * mag_units (f32_mag b)) (2 ^ 149)))"

definition f32_div :: "f32 \<Rightarrow> f32 \<Rightarrow> f32" where
  "f32_div a b =
     (let s = (f32_neg a \<noteq> f32_neg b) in
      if f32_is_nan a \<or> f32_is_nan b \<or> (f32_is_inf a \<and> f32_is_inf b) \<or> (f32_mag a = 0 \<and> f32_mag b = 0) then 0x7FC00000
      else if f32_is_inf a \<or> f32_mag b = 0 then f32_signed s 0x7F800000
      else if f32_is_inf b then f32_signed s 0
      else f32_signed s (round_mag 23 0x7F800000 (mag_units (f32_mag a) * 2 ^ 149) (mag_units (f32_mag b))))"

subsection \<open>binary64\<close>

text \<open>An \<open>f64\<close> is carried as its bit pattern too.\<close>

type_synonym f64 = "64 word"

definition f64_neg :: "f64 \<Rightarrow> bool" where
  "f64_neg w = bit w 63"

definition f64_mag :: "f64 \<Rightarrow> nat" where
  "f64_mag w = unat (w AND 0x7FFFFFFFFFFFFFFF)"

definition f64_signed :: "bool \<Rightarrow> nat \<Rightarrow> f64" where
  "f64_signed s m = (if s then 0x8000000000000000 OR of_nat m else of_nat m)"

lemma f64_signed_parts:
  assumes "m < 2 ^ 63"
  shows "f64_mag (f64_signed s m) = m" "f64_neg (f64_signed s m) = s"
proof -
  have low: "(0x7FFFFFFFFFFFFFFF :: u64) = mask 63" by (simp add: mask_eq_exp_minus_1)
  have m: "(of_nat m :: u64) AND mask 63 = of_nat m"
    using assms by (simp only: word_unat_eq_iff take_bit_eq_mask [symmetric] unsigned_take_bit_eq)
      (simp add: unat_of_nat take_bit_eq_mod)
  have "(0x8000000000000000 :: u64) AND mask 63 = 0" by (simp add: mask_eq_exp_minus_1)
  with m have "f64_signed s m AND mask 63 = of_nat m" by (simp add: f64_signed_def bit.conj_disj_distrib2)
  with assms show "f64_mag (f64_signed s m) = m" by (simp add: f64_mag_def low unat_of_nat)
  have "\<not> bit ((of_nat m :: u64) AND mask 63) 63" by (simp only: bit_and_iff bit_mask_iff) simp
  then have "\<not> bit (of_nat m :: u64) 63" unfolding m .
  moreover have "(0x8000000000000000 :: u64) = 2 ^ 63" by simp
  then have "bit (0x8000000000000000 :: u64) 63" by (simp only: bit_exp_iff) simp
  ultimately show "f64_neg (f64_signed s m) = s" by (simp add: f64_neg_def f64_signed_def bit_or_iff)
qed

definition f64_units :: "f64 \<Rightarrow> int" where
  "f64_units w = (if f64_neg w then - int (mag_val 52 (f64_mag w)) else int (mag_val 52 (f64_mag w)))"

definition f64_is_nan :: "f64 \<Rightarrow> bool" where
  "f64_is_nan w = (0x7FF0000000000000 < f64_mag w)"

definition f64_is_inf :: "f64 \<Rightarrow> bool" where
  "f64_is_inf w = (f64_mag w = 0x7FF0000000000000)"

definition f64_lt :: "f64 \<Rightarrow> f64 \<Rightarrow> bool" where
  "f64_lt a b = (\<not> f64_is_nan a \<and> \<not> f64_is_nan b \<and> f64_units a < f64_units b)"

definition f64_mul :: "f64 \<Rightarrow> f64 \<Rightarrow> f64" where
  "f64_mul a b =
     (let s = (f64_neg a \<noteq> f64_neg b) in
      if f64_is_nan a \<or> f64_is_nan b then 0x7FF8000000000000
      else if f64_is_inf a \<or> f64_is_inf b then
        (if f64_mag a = 0 \<or> f64_mag b = 0 then 0x7FF8000000000000 else f64_signed s 0x7FF0000000000000)
      else f64_signed s (round_mag 52 0x7FF0000000000000 (mag_val 52 (f64_mag a) * mag_val 52 (f64_mag b)) (2 ^ 1074)))"

text \<open>\<open>f64::clamp\<close>: the value itself when it is neither below \<open>lo\<close> nor above \<open>hi\<close>.\<close>

definition f64_clamp :: "f64 \<Rightarrow> f64 \<Rightarrow> f64 \<Rightarrow> f64" where
  "f64_clamp lo hi x = (if f64_lt x lo then lo else if f64_lt hi x then hi else x)"

text \<open>The casts \<open>as f64\<close> and \<open>as f32\<close>; one unit of \<open>f32\<close> is \<open>2 ^ 925\<close> units of \<open>f64\<close>.\<close>

definition f64_of_f32 :: "f32 \<Rightarrow> f64" where
  "f64_of_f32 w =
     (if f32_is_nan w then 0x7FF8000000000000
      else if f32_is_inf w then f64_signed (f32_neg w) 0x7FF0000000000000
      else f64_signed (f32_neg w) (round_mag 52 0x7FF0000000000000 (mag_units (f32_mag w) * 2 ^ 925) 1))"

definition f32_of_f64 :: "f64 \<Rightarrow> f32" where
  "f32_of_f64 w =
     (if f64_is_nan w then 0x7FC00000
      else if f64_is_inf w then f32_signed (f64_neg w) 0x7F800000
      else f32_signed (f64_neg w) (round_mag 23 0x7F800000 (mag_val 52 (f64_mag w)) (2 ^ 925)))"

end
