(* ===== verification/Mxfp4.thy ===== *)
theory Mxfp4
  imports FloatOps
begin

text \<open>
  The expert crate's trap flags and errors (\<open>crates/mimo26-expert/src/lib.rs\<close>), the MXFP4 codec
  (\<open>mxfp4.rs\<close>): nibbles of the E2M1 codebook, two to a byte, times a power of two per 32 columns; and the
  integer-only decoder the CUDA kernels use in its place
  (\<open>crates/mimo26-expert/kernels/include/mimo26_expert_bits.h\<close>). The two decoders agree bit for bit.
\<close>

subsection \<open>lib.rs\<close>

type_synonym naive_flags = u32

definition NB_NONE :: naive_flags where "NB_NONE = 0"
definition NB_ALL :: naive_flags where "NB_ALL = 0xFFFFFFFF"
definition NIBBLE_SWAP :: naive_flags where "NIBBLE_SWAP = 0x1"
definition E8M0_NO_CLAMP :: naive_flags where "E8M0_NO_CLAMP = 0x2"
definition SCALE_OFF_BY_ONE :: naive_flags where "SCALE_OFF_BY_ONE = 0x4"
definition PAD_ROW_READ :: naive_flags where "PAD_ROW_READ = 0x8"
definition AOT_MIXED_GATE :: naive_flags where "AOT_MIXED_GATE = 0x10"
definition AOT_CAPACITY_IGNORED :: naive_flags where "AOT_CAPACITY_IGNORED = 0x20"
definition BF16_ACCUM :: naive_flags where "BF16_ACCUM = 0x40"
definition SCALE_ONE :: naive_flags where "SCALE_ONE = 0x80"
definition ROUTE_WEIGHT_TWICE :: naive_flags where "ROUTE_WEIGHT_TWICE = 0x100"

definition nb_has :: "naive_flags \<Rightarrow> naive_flags \<Rightarrow> bool" where
  "nb_has n b = (n AND b \<noteq> 0)"

lemma nb_has_NONE [simp]: "\<not> nb_has NB_NONE b"
  by (simp add: nb_has_def NB_NONE_def)

text \<open>\<open>bits_from_env\<close>; the two environment variables are the arguments.\<close>

definition bits_from_env :: "bool \<Rightarrow> bool \<Rightarrow> naive_flags" where
  "bits_from_env spike expert = (if spike \<or> expert then NB_ALL else NB_NONE)"

text \<open>The message of each error is a constructor with the values it prints.\<close>

datatype expert_what =
    LayoutVersionIs u32
  | EpRankIs nat
  | MoeLayerIs nat
  | ExpertIs nat
  | ExpertOffsetOverflows nat
  | ExpertOutsideImage nat nat nat nat
  | GroupOffset nat nat nat
  | GroupTokens nat nat
  | InputElements nat nat nat nat

datatype expert_error =
    ShapeMismatch expert_what
  | SliceSize nat nat
  | Grouped expert_what
  | PaddedRowRead nat nat

subsection \<open>mxfp4.rs\<close>

definition BLOCK :: nat where "BLOCK = 32"
definition E8M0_BIAS :: int where "E8M0_BIAS = 127"
definition E8M0_BYTE_MAX :: u8 where "E8M0_BYTE_MAX = 254"

text \<open>0, 0.5, 1, 1.5, 2, 3, 4, 6 and their negations.\<close>

definition E2M1_CODEBOOK :: "f32 list" where
  "E2M1_CODEBOOK =
     [0x00000000, 0x3F000000, 0x3F800000, 0x3FC00000, 0x40000000, 0x40400000, 0x40800000, 0x40C00000,
      0x80000000, 0xBF000000, 0xBF800000, 0xBFC00000, 0xC0000000, 0xC0400000, 0xC0800000, 0xC0C00000]"

definition f64_exp2 :: "int \<Rightarrow> f64" where
  "f64_exp2 e =
     (if e \<ge> - 1022 then push_bit 52 (of_int (e + 1023)) else push_bit (nat (e + 1074)) 1)"

definition e8m0_scale :: "u8 \<Rightarrow> naive_flags \<Rightarrow> f64" where
  "e8m0_scale byte naive =
     (if nb_has naive SCALE_ONE then 0x3FF0000000000000
      else let b = (if nb_has naive E8M0_NO_CLAMP then byte else min byte E8M0_BYTE_MAX)
           in f64_exp2 (uint b - E8M0_BIAS))"

text \<open>\<open>[even_k, odd_k]\<close>.\<close>

definition decode_byte :: "u8 \<Rightarrow> naive_flags \<Rightarrow> f32 list" where
  "decode_byte byte naive =
     (let lo = E2M1_CODEBOOK ! unat (byte AND 0x0F);
          hi = E2M1_CODEBOOK ! unat (drop_bit 4 byte AND 0x0F) in
      if nb_has naive NIBBLE_SWAP then [hi, lo] else [lo, hi])"

definition scale_byte_for :: "u8 list \<Rightarrow> nat \<Rightarrow> naive_flags \<Rightarrow> (u8, 'e) outcome" where
  "scale_byte_for scales k naive =
     (let block = k div BLOCK in
      if nb_has naive SCALE_OFF_BY_ONE
      then Ok (if block + 1 < length scales then scales ! (block + 1) else 0)
      else index_at scales block)"

text \<open>\<open>f32::MAX as f64\<close>, and the product of a codebook value and a scale, saturated and cast.\<close>

definition F32_MAX_F64 :: f64 where "F32_MAX_F64 = 0x47EFFFFFE0000000"

definition scaled_value :: "f32 \<Rightarrow> f64 \<Rightarrow> f32" where
  "scaled_value val scale =
     (let prod = f64_mul (f64_of_f32 val) scale
      in f32_of_f64 (f64_clamp (F32_MAX_F64 OR 0x8000000000000000) F32_MAX_F64 prod))"

definition unpack_element :: "u8 list \<Rightarrow> u8 list \<Rightarrow> nat \<Rightarrow> naive_flags \<Rightarrow> (f32, 'e) outcome" where
  "unpack_element packed scales col naive =
     obind (index_at packed (col div 2)) (\<lambda>byte.
     let pair = decode_byte byte naive; val = pair ! (col mod 2) in
     obind (scale_byte_for scales col naive) (\<lambda>sbyte.
     Ok (scaled_value val (e8m0_scale sbyte naive))))"

definition unpack_row :: "u8 list \<Rightarrow> u8 list \<Rightarrow> naive_flags \<Rightarrow> (f32 list, 'e) outcome" where
  "unpack_row packed scales naive =
     (let inn = length packed * 2 in
      collect_results (\<lambda>k.
        obind (index_at packed (k div 2)) (\<lambda>byte.
        let pair = decode_byte byte naive; val = pair ! (k mod 2) in
        obind (scale_byte_for scales k naive) (\<lambda>sbyte.
        Ok (scaled_value val (e8m0_scale sbyte naive))))) [0..<inn])"

definition unpack_matrix :: "u8 list \<Rightarrow> u8 list \<Rightarrow> nat \<Rightarrow> nat \<Rightarrow> naive_flags \<Rightarrow> (f32 list, 'e) outcome" where
  "unpack_matrix packed scales out_rows in_cols naive =
     (let half = in_cols div 2; srow = in_cols div BLOCK in
      obind (collect_results (\<lambda>r.
        obind (subslice packed (r * half) ((r + 1) * half)) (\<lambda>p.
        obind (subslice scales (r * srow) ((r + 1) * srow)) (\<lambda>s.
        unpack_row p s naive))) [0..<out_rows]) (\<lambda>rows.
      Ok (concat rows)))"

text \<open>\<open>x <= y\<close> on \<open>f32\<close>.\<close>

definition f32_le :: "f32 \<Rightarrow> f32 \<Rightarrow> bool" where
  "f32_le a b = (\<not> f32_is_nan a \<and> \<not> f32_is_nan b \<and> f32_units a \<le> f32_units b)"

definition f32_abs :: "f32 \<Rightarrow> f32" where
  "f32_abs w = w AND 0x7FFFFFFF"

text \<open>The nearest magnitude: the loop of \<open>quantize_e2m1\<close> over \<open>mags\<close>.\<close>

fun nearest_mag :: "f32 \<Rightarrow> nat \<Rightarrow> f32 list \<Rightarrow> nat \<Rightarrow> f32 \<Rightarrow> nat" where
  "nearest_mag a i [] best best_d = best"
| "nearest_mag a i (m # ms) best best_d =
     (let d = f32_abs (f32_sub a m) in
      if f32_le d best_d then nearest_mag a (i + 1) ms i d else nearest_mag a (i + 1) ms best best_d)"

definition quantize_e2m1 :: "f32 \<Rightarrow> u8" where
  "quantize_e2m1 x =
     (let sign = (if f32_neg x then 8 else 0 :: u8);
          mags = [0x00000000, 0x3F000000, 0x3F800000, 0x3FC00000, 0x40000000, 0x40400000, 0x40800000, 0x40C00000];
          best = nearest_mag (f32_abs x) 0 mags 0 0x7F800000
      in sign OR of_nat best)"

definition pack_byte :: "u8 \<Rightarrow> u8 \<Rightarrow> u8" where
  "pack_byte even_code odd_code = (even_code AND 0x0F) OR push_bit 4 (odd_code AND 0x0F)"

definition e2m1_codebook_bits :: "u32 list" where
  "e2m1_codebook_bits = map (\<lambda>i. E2M1_CODEBOOK ! i) [0..<16]"

subsection \<open>mimo26_expert_bits.h\<close>

definition m26x_decode_bits :: "u32 \<Rightarrow> u32 \<Rightarrow> u32 \<Rightarrow> u32" where
  "m26x_decode_bits nibble scale naive =
     (let sign = push_bit 28 (nibble AND 8); mag = nibble AND 7 in
      if mag = 0 then sign
      else let scale = (if naive AND SCALE_ONE \<noteq> 0 then 127
                        else if naive AND E8M0_NO_CLAMP = 0 \<and> scale = 255 then 254 else scale);
               exponent = sint scale + sint (drop_bit 1 mag) - 1;
               fraction = (if mag \<ge> 2 then push_bit 22 (mag AND 1) else 0) in
           if exponent \<ge> 255 then sign OR 0x7F7FFFFF
           else if exponent \<le> 0 then sign OR drop_bit (nat (1 - exponent)) (0x800000 OR fraction)
           else sign OR push_bit 23 (of_int exponent) OR fraction)"

definition m26x_bf16_bits :: "u32 \<Rightarrow> u16" where
  "m26x_bf16_bits bits =
     (let mag = bits AND 0x7FFFFFFF in
      if mag > 0x7F800000 then ucast (drop_bit 16 bits OR 0x40)
      else ucast (drop_bit 16 (bits + 0x7FFF + (drop_bit 16 bits AND 1))))"

text \<open>\<open>scale_byte\<close> and \<open>unpack\<close> of \<open>mimo26_expert_device.cuh\<close>; the pointers are lists.\<close>

definition m26x_scale_byte :: "u8 list \<Rightarrow> nat \<Rightarrow> nat \<Rightarrow> u32 \<Rightarrow> u8" where
  "m26x_scale_byte scales block count naive =
     (let block = (if naive AND SCALE_OFF_BY_ONE \<noteq> 0 then block + 1 else block)
      in if block < count then scales ! block else 0)"

definition m26x_unpack :: "u8 list \<Rightarrow> u8 list \<Rightarrow> nat \<Rightarrow> nat \<Rightarrow> u32 \<Rightarrow> u32" where
  "m26x_unpack w s k cols naive =
     (let byte = ucast (w ! (k div 2)) :: u32;
          parity = (k mod 2 + (if naive AND NIBBLE_SWAP \<noteq> 0 then 1 else 0)) mod 2
      in m26x_decode_bits (drop_bit (4 * parity) byte AND 15) (ucast (m26x_scale_byte s (k div 32) (cols div 32) naive)) naive)"

subsection \<open>The decoders agree\<close>

text \<open>Casting a finite \<open>f32\<close> to \<open>f64\<close> is exact.\<close>

lemma mag_units_form:
  assumes "m < 0x7F800000"
  obtains k j where "mag_units m = k * 2 ^ j" "k < 2 ^ 24" "j \<le> 253"
proof (cases "m div 2 ^ 23 = 0")
  case True
  then have "m < 2 ^ 24" by (simp add: div_eq_0_iff)
  with True that [of m 0] show ?thesis by (simp add: mag_units_def)
next
  case False
  have "m mod 2 ^ 23 < 2 ^ 23" by simp
  moreover have "m div 2 ^ 23 \<le> 254" using assms by simp
  ultimately show ?thesis using that [of "2 ^ 23 + m mod 2 ^ 23" "m div 2 ^ 23 - 1"] False by (simp add: mag_units_def)
qed

lemma f64_of_f32_exact:
  assumes "f32_mag w < 0x7F800000"
  shows "mag_val 52 (f64_mag (f64_of_f32 w)) = mag_units (f32_mag w) * 2 ^ 925"
    "f64_mag (f64_of_f32 w) < 0x7FF0000000000000" "f64_neg (f64_of_f32 w) = f32_neg w"
proof -
  obtain k j where k: "mag_units (f32_mag w) = k * 2 ^ j" "k < 2 ^ 24" "j \<le> 253"
    using mag_units_form [OF assms] .
  let ?p = "round_mag 52 0x7FF0000000000000 (k * 2 ^ (j + 925)) 1"
  have "k * 2 ^ (j + 925) < 2 ^ 24 * 2 ^ (j + 925)" using k(2) by (intro mult_strict_right_mono) simp_all
  also have "(2::nat) ^ 24 * 2 ^ (j + 925) = 2 ^ (24 + (j + 925))" by (rule power_add [symmetric])
  also have "(2::nat) ^ (24 + (j + 925)) \<le> 2 ^ (52 + 1150)" by (rule power_increasing) (use k(3) in simp_all)
  finally have lt: "k * 2 ^ (j + 925) < 2 ^ (52 + 1150)" .
  have p: "mag_val 52 ?p = k * 2 ^ (j + 925)" "?p < 0x7FF0000000000000"
    by (rule val_round_exact [OF _ lt], use k(2) in simp, simp)+
  have f: "f64_of_f32 w = f64_signed (f32_neg w) ?p"
    using assms k(1) by (simp add: f64_of_f32_def f32_is_nan_def f32_is_inf_def power_add mult.assoc)
  have "?p < 2 ^ 63" using p(2) by simp
  from f64_signed_parts [OF this] p f k(1)
  show "mag_val 52 (f64_mag (f64_of_f32 w)) = mag_units (f32_mag w) * 2 ^ 925"
    "f64_mag (f64_of_f32 w) < 0x7FF0000000000000" "f64_neg (f64_of_f32 w) = f32_neg w"
    by (simp_all add: power_add mult.assoc)
qed

lemma f64_exp2_parts:
  assumes "b \<le> 255"
  shows "f64_mag (f64_exp2 (int b - 127)) = (b + 896) * 2 ^ 52" "\<not> f64_neg (f64_exp2 (int b - 127))"
    "mag_val 52 (f64_mag (f64_exp2 (int b - 127))) = 2 ^ (b + 947)"
proof -
  have "int b - 127 + 1023 = int (b + 896)" by simp
  then have "f64_exp2 (int b - 127) = f64_signed False ((b + 896) * 2 ^ 52)"
    by (simp add: f64_exp2_def f64_signed_def push_bit_eq_mult)
  moreover have "(b + 896) * 2 ^ 52 < 2 ^ 63" using assms by simp
  ultimately show m: "f64_mag (f64_exp2 (int b - 127)) = (b + 896) * 2 ^ 52" "\<not> f64_neg (f64_exp2 (int b - 127))"
    by (simp_all only: f64_signed_parts not_False_eq_True)
  have "mag_val 52 ((b + 896) * 2 ^ 52) = 2 ^ 52 * 2 ^ (b + 895)" by (simp add: mag_val_def)
  then show "mag_val 52 (f64_mag (f64_exp2 (int b - 127))) = 2 ^ (b + 947)"
    by (simp only: m(1) power_add [symmetric]) (simp add: add.commute)
qed

text \<open>The product with a codebook value, \<open>c\<close> halves, is exact, so only the saturation and the last cast
  can change it.\<close>

definition saturated :: "nat \<Rightarrow> nat \<Rightarrow> nat" where
  "saturated c b =
     (if (2 ^ 24 - 1) * 2 ^ 232 < c * 2 ^ b then 0x7F7FFFFF
      else round_mag 23 0x7F800000 (c * 2 ^ (b + 21)) 1)"

lemma F32_MAX_parts:
  "f64_mag F32_MAX_F64 = 0x47EFFFFFE0000000" "\<not> f64_neg F32_MAX_F64"
  "f64_mag (F32_MAX_F64 OR 0x8000000000000000) = 0x47EFFFFFE0000000" "f64_neg (F32_MAX_F64 OR 0x8000000000000000)"
  using f64_signed_parts [of "0x47EFFFFFE0000000" False] f64_signed_parts [of "0x47EFFFFFE0000000" True]
  by (simp_all add: f64_signed_def F32_MAX_F64_def)

lemma mag_val_max: "mag_val 52 0x47EFFFFFE0000000 = (2 ^ 24 - 1) * 2 ^ 1178"
  by (simp add: mag_val_def)

lemma F32_MAX_units:
  "f64_units F32_MAX_F64 = int ((2 ^ 24 - 1) * 2 ^ 1178)"
    "f64_units (F32_MAX_F64 OR 0x8000000000000000) = - int ((2 ^ 24 - 1) * 2 ^ 1178)"
    "\<not> f64_is_nan F32_MAX_F64" "\<not> f64_is_nan (F32_MAX_F64 OR 0x8000000000000000)"
  by (simp_all only: f64_units_def f64_is_nan_def F32_MAX_parts mag_val_max if_True if_False)

lemma f32_of_F32_MAX:
  "f32_of_f64 F32_MAX_F64 = f32_signed False 0x7F7FFFFF"
    "f32_of_f64 (F32_MAX_F64 OR 0x8000000000000000) = f32_signed True 0x7F7FFFFF"
proof -
  have "mag_val 23 0x7F7FFFFF = (2 ^ 24 - 1) * 2 ^ 253" by (simp add: mag_val_def)
  then have "round_mag 23 0x7F800000 ((2 ^ 24 - 1) * 2 ^ 253) 1 = 0x7F7FFFFF"
      using round_mag_val [of "0x7F7FFFFF" "0x7F800000" 23] by simp
  moreover have "(2 ^ 24 - 1) * 2 ^ 1178 = ((2 ^ 24 - 1) * 2 ^ 253) * (2::nat) ^ 925"
      by (simp only: mult.assoc power_add [symmetric]) simp
  ultimately have "round_mag 23 0x7F800000 ((2 ^ 24 - 1) * 2 ^ 1178) (2 ^ 925) = 0x7F7FFFFF"
      by (simp only: round_mag_div zero_less_power zero_less_numeral)
  then show "f32_of_f64 F32_MAX_F64 = f32_signed False 0x7F7FFFFF"
      "f32_of_f64 (F32_MAX_F64 OR 0x8000000000000000) = f32_signed True 0x7F7FFFFF"
      using F32_MAX_parts by (simp_all only: f32_of_f64_def f64_is_nan_def f64_is_inf_def mag_val_max) simp_all
qed

lemma scaled_value_saturates:
  assumes v: "f32_mag v < 0x7F800000" "mag_units (f32_mag v) = c * 2 ^ 148" and c: "c < 16" and b: "b \<le> 255"
  shows "scaled_value v (f64_exp2 (int b - 127)) = f32_signed (f32_neg v) (saturated c b)"
proof -
  define n where "n = c * 2 ^ (b + 946)"
  define p where "p = round_mag 52 0x7FF0000000000000 n 1"
  note e = f64_exp2_parts [OF b] and w = f64_of_f32_exact [OF v(1)]
  have "c * 2 ^ (b + 946) < 2 ^ 4 * 2 ^ (b + 946)" using c by (intro mult_strict_right_mono) simp_all
  also have "(2::nat) ^ 4 * 2 ^ (b + 946) = 2 ^ (4 + (b + 946))" by (rule power_add [symmetric])
  also have "(2::nat) ^ (4 + (b + 946)) \<le> 2 ^ (52 + 1153)" by (rule power_increasing) (use b in simp_all)
  finally have lt: "c * 2 ^ (b + 946) < 2 ^ (52 + 1153)" .
  have "mag_val 52 p = n" "p < 0x7FF0000000000000"
    unfolding p_def n_def by (rule val_round_exact [OF _ lt], use c in simp, simp)+
  note p = this
  have p63: "p < 2 ^ 63" using p(2) by simp
  have ev: "f64_mag (f64_exp2 (int b - 127)) < 0x7FF0000000000000" "f64_mag (f64_exp2 (int b - 127)) \<noteq> 0"
    using e(1) b by simp_all
  have "mag_val 52 (f64_mag (f64_of_f32 v)) * mag_val 52 (f64_mag (f64_exp2 (int b - 127)))
      = c * (2 ^ (148 + 925) * 2 ^ (b + 947))"
    using w(1) e(3) v(2) by (simp only: power_add mult.assoc)
  also have "(2::nat) ^ (148 + 925) * 2 ^ (b + 947) = 2 ^ (b + 946) * 2 ^ 1074"
    by (simp only: power_add [symmetric]) simp
  finally have "mag_val 52 (f64_mag (f64_of_f32 v)) * mag_val 52 (f64_mag (f64_exp2 (int b - 127))) = n * 2 ^ 1074"
    by (simp only: n_def mult.assoc)
  then have prod: "f64_mul (f64_of_f32 v) (f64_exp2 (int b - 127)) = f64_signed (f32_neg v) p"
    using w(2,3) e(2) ev round_mag_div [of "2 ^ 1074" 52 "0x7FF0000000000000" n]
    by (simp add: f64_mul_def f64_is_nan_def f64_is_inf_def p_def)
  have big: "(2 ^ 24 - 1) * 2 ^ 1178 < n \<longleftrightarrow> (2 ^ 24 - 1) * 2 ^ 232 < c * 2 ^ b"
  proof -
    have "n = (c * 2 ^ b) * 2 ^ 946" by (simp only: n_def power_add mult.assoc)
    moreover have "(2 ^ 24 - 1) * 2 ^ 1178 = ((2 ^ 24 - 1) * 2 ^ 232) * (2::nat) ^ 946"
      by (simp only: mult.assoc power_add [symmetric]) simp
    ultimately show ?thesis by (simp only: mult_less_cancel2) simp
  qed
  have units: "f64_units (f64_signed s p) = (if s then - int n else int n)"
    "\<not> f64_is_nan (f64_signed s p)" "\<not> f64_is_inf (f64_signed s p)" for s
    using f64_signed_parts [OF p63] p by (simp_all add: f64_units_def f64_is_nan_def f64_is_inf_def)
  have clamp: "f64_clamp (F32_MAX_F64 OR 0x8000000000000000) F32_MAX_F64 (f64_signed s p) =
      (if (2 ^ 24 - 1) * 2 ^ 1178 < n
       then (if s then F32_MAX_F64 OR 0x8000000000000000 else F32_MAX_F64) else f64_signed s p)" for s
    using F32_MAX_units units by (simp add: f64_clamp_def f64_lt_def)
  have "n = (c * 2 ^ (b + 21)) * 2 ^ 925" by (simp only: n_def mult.assoc power_add [symmetric]) simp
  then have cast: "f32_of_f64 (f64_signed s p) = f32_signed s (round_mag 23 0x7F800000 (c * 2 ^ (b + 21)) 1)" for s
    using units f64_signed_parts [OF p63] p(1) round_mag_div [of "2 ^ 925" 23 "0x7F800000" "c * 2 ^ (b + 21)"]
    by (simp add: f32_of_f64_def)
  show ?thesis
    unfolding scaled_value_def Let_def prod clamp big saturated_def
    by (cases "f32_neg v"; cases "(2 ^ 24 - 1) * 2 ^ 232 < c * 2 ^ b")
      (simp_all only: if_True if_False f32_of_F32_MAX cast)
qed

text \<open>The device's exponent and fraction, for the magnitude \<open>2 ^ h * (1 + g / 2)\<close> halves.\<close>

definition device_mag :: "nat \<Rightarrow> nat \<Rightarrow> nat \<Rightarrow> nat" where
  "device_mag h g b =
     (if 256 \<le> b + h then 0x7F7FFFFF
      else if b + h \<le> 1 then (2 ^ 23 + g * 2 ^ 22) div 2 ^ (2 - (b + h))
      else (b + h - 1) * 2 ^ 23 + g * 2 ^ 22)"

lemma saturated_device_mag:
  assumes c: "2 * c = 2 ^ h * (2 + g)" and g: "g = 0 \<or> g = 1" and h: "h \<le> 3"
  shows "saturated c b = device_mag h g b"
proof -
  have c2: "2 * (c * 2 ^ k) = (2 + g) * 2 ^ (h + k)" for k
    using c by (simp add: power_add mult.assoc [symmetric] mult.commute [of "2 + g"])
  show ?thesis
  proof (cases "256 \<le> b + h")
    case True
    have "(2::nat) * 2 ^ 256 \<le> (2 + g) * 2 ^ (h + b)"
      using True by (intro mult_mono power_increasing) simp_all
    then have "(2 ^ 24 - 1) * 2 ^ 232 < c * 2 ^ b" using c2 [of b] by simp
    with True show ?thesis by (simp add: saturated_def device_mag_def)
  next
    case False
    have "(2 + g) * 2 ^ (h + b) \<le> 3 * (2::nat) ^ 255"
      using False g by (intro mult_mono power_increasing) auto
    then have small: "\<not> (2 ^ 24 - 1) * 2 ^ 232 < c * 2 ^ b" using c2 [of b] by simp
    have le: "device_mag h g b \<le> 0x7F800000"
    proof (cases "b + h \<le> 1")
      case True
      have "(2 ^ 23 + g * 2 ^ 22) div 2 ^ (2 - (b + h)) \<le> 2 ^ 23 + g * 2 ^ 22" by (rule div_le_dividend)
      with True False have "device_mag h g b \<le> 2 ^ 23 + g * 2 ^ 22" by (simp add: device_mag_def)
      also have "\<dots> \<le> 0x7F800000" using g by auto
      finally show ?thesis .
    next
      case False
      with \<open>\<not> 256 \<le> b + h\<close> have "(b + h - 1) * 2 ^ 23 \<le> 254 * 2 ^ 23" by (intro mult_right_mono) simp_all
      with False g show ?thesis by (auto simp: device_mag_def)
    qed
    have "mag_val 23 (device_mag h g b) = c * 2 ^ (b + 21)"
    proof (cases "b + h \<le> 1")
      case True
      then consider "b = 0" "h = 0" | "b = 1" "h = 0" | "b = 0" "h = 1" by linarith
      then show ?thesis
        using g c by cases (auto simp: device_mag_def mag_val_def)
    next
      case False
      have m: "mag_val 23 (e * 2 ^ 23 + g * 2 ^ 22) = (2 ^ 23 + g * 2 ^ 22) * 2 ^ (e - 1)" if "e \<noteq> 0" for e
        using g that by (auto simp: mag_val_def)
      have "mag_val 23 (device_mag h g b) = (2 ^ 23 + g * 2 ^ 22) * 2 ^ (b + h - 2)"
        using False \<open>\<not> 256 \<le> b + h\<close> m [of "b + h - 1"] by (simp add: device_mag_def numeral_2_eq_2)
      also have "\<dots> = (2 + g) * 2 ^ (22 + (b + h - 2))" by (simp add: power_add algebra_simps)
      also have "22 + (b + h - 2) = h + (b + 20)" using False by simp
      also have "(2 + g) * 2 ^ (h + (b + 20)) = c * (2 ^ 1 * 2 ^ (b + 20))" using c2 [of "b + 20"] by simp
      also have "(2::nat) ^ 1 * 2 ^ (b + 20) = 2 ^ (b + 21)" by (simp only: power_add [symmetric]) simp
      finally show ?thesis .
    qed
    with round_mag_val [OF le, of 23] small show ?thesis by (simp add: saturated_def)
  qed
qed

subsection \<open>The device's words\<close>

lemma sint_small: "k < 2 ^ 31 \<Longrightarrow> sint (of_nat k :: u32) = int k"
  by (simp add: signed_of_nat signed_take_bit_int_eq_self)

lemma device_normal:
  assumes "g = 0 \<or> g = 1" "e < 256"
  shows "push_bit 23 (of_int (int e)) OR push_bit 22 (of_nat g) = (of_nat (e * 2 ^ 23 + g * 2 ^ 22) :: u32)"
proof -
  have "\<not> bit (push_bit 23 (of_nat e :: u32)) n \<or> \<not> bit (push_bit 22 (of_nat g :: u32)) n" for n
    using assms(1) by (auto simp: bit_push_bit_iff bit_1_iff)
  then have "push_bit 23 (of_nat e :: u32) + push_bit 22 (of_nat g) = push_bit 23 (of_nat e) OR push_bit 22 (of_nat g)"
    by (rule disjunctive_add)
  then show ?thesis by (simp add: push_bit_eq_mult)
qed

text \<open>The exponent byte the flags select.\<close>

definition eff_scale :: "nat \<Rightarrow> naive_flags \<Rightarrow> nat" where
  "eff_scale b naive =
     (if nb_has naive SCALE_ONE then 127 else if \<not> nb_has naive E8M0_NO_CLAMP \<and> b = 255 then 254 else b)"

lemma eff_scale_le: "b \<le> 255 \<Longrightarrow> eff_scale b naive \<le> 255"
  by (simp add: eff_scale_def)

lemma device_scale:
  assumes "b \<le> 255"
  shows "sint (if naive AND SCALE_ONE \<noteq> 0 then 127 :: u32
      else if naive AND E8M0_NO_CLAMP = 0 \<and> (of_nat b :: u32) = 255 then 254 else of_nat b) = int (eff_scale b naive)"
proof -
  have "of_nat b = (255 :: u32) \<longleftrightarrow> b = 255"
    using assms of_nat_inverse [of b "255 :: u32"] by (auto simp: word_unat_eq_iff unat_of_nat)
  then show ?thesis using assms sint_small [of b] by (simp add: eff_scale_def nb_has_def)
qed

lemma device_subnormal:
  assumes "g = 0 \<or> g = 1" "b + h \<le> 1"
  shows "drop_bit (nat (1 - (int b + int h - 1))) (0x800000 OR push_bit 22 (of_nat g)) =
    (of_nat ((2 ^ 23 + g * 2 ^ 22) div 2 ^ (2 - (b + h))) :: u32)"
proof -
  consider "b = 0" "h = 0" | "b = 1" "h = 0" | "b = 0" "h = 1" using assms(2) by linarith
  then show ?thesis using assms(1) by cases auto
qed

lemma device_finish:
  assumes g: "g = 0 \<or> g = 1" and h: "h \<le> 3" and b: "b \<le> 255" and "fr = push_bit 22 (of_nat g :: u32)"
  shows "(if int b + int h - 1 \<ge> 255 then sg OR 0x7F7FFFFF
     else if int b + int h - 1 \<le> 0 then sg OR drop_bit (nat (1 - (int b + int h - 1))) (0x800000 OR fr)
     else sg OR push_bit 23 (of_int (int b + int h - 1)) OR fr) = (sg OR of_nat (device_mag h g b) :: u32)"
proof -
  consider "256 \<le> b + h" | "b + h \<le> 1" | "1 < b + h" "b + h < 256" by linarith
  then show ?thesis
  proof cases
    case 2
    with device_subnormal [OF g, of b h] assms(4) show ?thesis by (simp add: device_mag_def)
  next
    case 3
    then have "int b + int h - 1 = int (b + h - 1)" by simp
    moreover have "device_mag h g b = (b + h - 1) * 2 ^ 23 + g * 2 ^ 22" using 3 by (simp add: device_mag_def)
    moreover have "\<not> 255 \<le> int (b + h - 1)" "\<not> int (b + h - 1) \<le> 0" "b + h - 1 < 256" using 3 by linarith+
    ultimately show ?thesis unfolding assms(4) using device_normal [OF g] by (simp only: if_False)
  qed (simp add: device_mag_def)
qed

lemma decode_bits_word:
  assumes n: "n < 8" "n \<noteq> 0" and b: "b \<le> 255"
  shows "m26x_decode_bits (of_nat (n + (if s then 8 else 0))) (of_nat b) naive =
    f32_signed s (device_mag (n div 2) (if 2 \<le> n then n mod 2 else 0) (eff_scale b naive))"
proof -
  have "n \<in> {1, 2, 3, 4, 5, 6, 7}" using n by auto
  then have w: "(of_nat (n + (if s then 8 else 0)) :: u32) AND 7 = of_nat n" "(of_nat n :: u32) \<noteq> 0"
    "push_bit 28 ((of_nat (n + (if s then 8 else 0)) :: u32) AND 8) = (if s then 0x80000000 else 0)"
    "sint (drop_bit 1 (of_nat n :: u32)) = int (n div 2)"
    "(if (2 :: u32) \<le> of_nat n then push_bit 22 (of_nat n AND 1) else 0) = push_bit 22 (of_nat (if 2 \<le> n then n mod 2 else 0) :: u32)"
    by (auto simp: word_le_nat_alt split: if_split)
  have g: "(if 2 \<le> n then n mod 2 else 0) = 0 \<or> (if 2 \<le> n then n mod 2 else 0) = 1" by auto
  have h: "n div 2 \<le> 3" using n by simp
  show ?thesis
    unfolding m26x_decode_bits_def Let_def w(1,3,4,5) device_scale [OF b]
      device_finish [OF g h eff_scale_le [OF b] refl]
    using w(2) by (simp add: f32_signed_def)
qed

subsection \<open>Properties\<close>

text \<open>Twice the codebook's magnitudes.\<close>

definition halves :: "nat list" where
  "halves = [0, 1, 2, 3, 4, 6, 8, 12]"

lemma upt_16: "[0..<16] = [0, 1, 2, 3, 4, 5, 6, 7, 8, 9, 10, 11, 12, 13, 14, 15 :: nat]"
  by (simp add: upt_rec)

lemma codebook_signed:
  assumes "n < 16"
  shows "E2M1_CODEBOOK ! n = f32_signed (8 \<le> n)
    ([0, 0x3F000000, 0x3F800000, 0x3FC00000, 0x40000000, 0x40400000, 0x40800000, 0x40C00000] ! (n mod 8))"
proof -
  have "n \<in> set [0..<16]" using assms by simp
  then have "n \<in> set [0, 1, 2, 3, 4, 5, 6, 7, 8, 9, 10, 11, 12, 13, 14, 15]" unfolding upt_16 .
  then show ?thesis by (auto simp: E2M1_CODEBOOK_def f32_signed_def)
qed

lemma codebook_values:
  assumes "n < 16"
  shows "f32_mag (E2M1_CODEBOOK ! n) < 0x7F800000 \<and> mag_units (f32_mag (E2M1_CODEBOOK ! n)) = halves ! (n mod 8) * 2 ^ 148 \<and>
    f32_neg (E2M1_CODEBOOK ! n) = (8 \<le> n) \<and> halves ! (n mod 8) < 16"
proof -
  let ?m = "[0, 0x3F000000, 0x3F800000, 0x3FC00000, 0x40000000, 0x40400000, 0x40800000, 0x40C00000 :: nat] ! (n mod 8)"
  have "n mod 8 \<in> {0, 1, 2, 3, 4, 5, 6, 7}" by auto
  then have m: "?m < 0x7F800000 \<and> mag_units ?m = halves ! (n mod 8) * 2 ^ 148 \<and> halves ! (n mod 8) < 16"
    by (auto simp: halves_def mag_units_def)
  then have "?m < 2 ^ 31" by simp
  from f32_signed_parts [OF this] m show ?thesis by (simp only: codebook_signed [OF assms])
qed

lemma e8m0_scale_eff: "e8m0_scale sb naive = f64_exp2 (int (eff_scale (unat sb) naive) - 127)"
proof -
  have "f64_exp2 0 = 0x3FF0000000000000" by (simp add: f64_exp2_def)
  moreover have "uint (min sb 254) = int (if unat sb = 255 then 254 else unat sb)"
  proof -
    have "unat sb < 256" using unat_lt [of sb] by simp
    then show ?thesis by (auto simp: min_def word_le_nat_alt)
  qed
  ultimately show ?thesis
    by (simp add: e8m0_scale_def eff_scale_def Let_def E8M0_BIAS_def E8M0_BYTE_MAX_def)
qed

text \<open>One value, decoded on the host through binary64 and on the device with integers.\<close>

lemma decoders_agree_value:
  assumes "n < 16"
  shows "scaled_value (E2M1_CODEBOOK ! n) (e8m0_scale sb naive) = m26x_decode_bits (of_nat n) (ucast sb) naive"
proof -
  have sb: "unat sb \<le> 255" using unat_lt [of sb] by simp
  have uc: "(ucast sb :: u32) = of_nat (unat sb)" by simp
  note v = codebook_values [OF assms]
  have lhs: "scaled_value (E2M1_CODEBOOK ! n) (e8m0_scale sb naive) =
      f32_signed (8 \<le> n) (saturated (halves ! (n mod 8)) (eff_scale (unat sb) naive))"
    using scaled_value_saturates [OF _ _ _ eff_scale_le [OF sb]] v by (simp add: e8m0_scale_eff)
  have n: "n = n mod 8 + (if 8 \<le> n then 8 else 0)"
  proof (cases "8 \<le> n")
    case True
    then have "n div 8 = 1" using assms by simp
    with True div_mult_mod_eq [of n 8] show ?thesis by simp
  qed simp
  show ?thesis
  proof (cases "n mod 8 = 0")
    case True
    then have "n = 0 \<or> n = 8" using assms by auto
    then have "m26x_decode_bits (of_nat n) (ucast sb) naive = f32_signed (8 \<le> n) 0"
      by (elim disjE) (simp_all add: m26x_decode_bits_def f32_signed_def)
    moreover have "saturated 0 b = 0" for b by (simp add: saturated_def round_mag_def)
    ultimately show ?thesis using True by (simp add: lhs halves_def)
  next
    case False
    define m where "m = n mod 8"
    have m: "m \<in> {1, 2, 3, 4, 5, 6, 7}" using False by (auto simp: m_def)
    have "2 * (halves ! m) = 2 ^ (m div 2) * (2 + (if 2 \<le> m then m mod 2 else 0))"
      using m by (auto simp: halves_def)
    then have "saturated (halves ! m) b = device_mag (m div 2) (if 2 \<le> m then m mod 2 else 0) b" for b
      by (rule saturated_device_mag) (use m in auto)
    moreover have "m < 8" "m \<noteq> 0" using m by auto
    ultimately show ?thesis
      unfolding lhs uc using decode_bits_word [OF _ _ sb, of m "8 \<le> n" naive] n by (simp add: m_def)
  qed
qed

lemma nibble_ucast: "drop_bit k (ucast (b :: u8)) AND 15 = (of_nat (unat (drop_bit k b AND 15)) :: u32)"
proof -
  have m: "(15 :: u32) = mask 4" "(15 :: u8) = mask 4" by (simp_all add: mask_eq_exp_minus_1)
  have "drop_bit k (ucast b) AND mask 4 = (ucast (drop_bit k b AND mask 4) :: u32)"
    by (rule bit_word_eqI) (auto simp: bit_simps dest: bit_imp_le_length)
  then show ?thesis unfolding m by simp
qed

lemma unpack_element_device:
  assumes "length packed * 2 = cols" "length scales * 32 = cols" "col < cols"
  shows "unpack_element packed scales col naive = Ok (m26x_unpack packed scales col cols naive)"
proof -
  let ?b = "packed ! (col div 2)"
  have len: "col div 2 < length packed" "col div 32 < length scales" "cols div 32 = length scales"
    using assms by (auto intro!: less_mult_imp_div_less)
  define p where "p = (col mod 2 + (if naive AND NIBBLE_SWAP \<noteq> 0 then 1 else 0)) mod 2"
  define n where "n = unat (drop_bit (4 * p) ?b AND 0x0F)"
  have n: "n < 16"
  proof -
    have "drop_bit (4 * p) ?b AND 0x0F \<le> 0x0F" by (rule word_and_le1)
    then have "n \<le> 15" by (simp add: n_def word_le_nat_alt)
    then show ?thesis by simp
  qed
  have code: "decode_byte ?b naive ! (col mod 2) = E2M1_CODEBOOK ! n"
  proof (cases "nb_has naive NIBBLE_SWAP"; cases "col mod 2 = 0")
    assume "nb_has naive NIBBLE_SWAP" "col mod 2 = 0"
    then show ?thesis by (simp add: decode_byte_def n_def p_def nb_has_def)
  next
    assume "nb_has naive NIBBLE_SWAP" "col mod 2 \<noteq> 0"
    then show ?thesis by (simp add: decode_byte_def n_def p_def nb_has_def)
  next
    assume "\<not> nb_has naive NIBBLE_SWAP" "col mod 2 = 0"
    then show ?thesis by (simp add: decode_byte_def n_def p_def nb_has_def)
  next
    assume "\<not> nb_has naive NIBBLE_SWAP" "col mod 2 \<noteq> 0"
    then show ?thesis by (simp add: decode_byte_def n_def p_def nb_has_def)
  qed
  have sc: "scale_byte_for scales col naive = Ok (m26x_scale_byte scales (col div 32) (cols div 32) naive)"
    using len by (simp add: scale_byte_for_def m26x_scale_byte_def Let_def BLOCK_def nb_has_def index_at_def)
  show ?thesis
    using len(1) decoders_agree_value [OF n]
    by (simp add: unpack_element_def index_at_def Let_def code sc m26x_unpack_def nibble_ucast n_def flip: p_def)
qed

text \<open>C12: The decoder of the CUDA kernels, which composes sign, exponent and fraction with integer
  operations, and the reference decoder, which multiplies in binary64, saturates and casts, give the same
  bits for every element of every row, under every combination of trap flags.\<close>

theorem device_decoder_agrees:
  assumes "length packed * 2 = cols" "length scales * 32 = cols"
  shows "unpack_row packed scales naive = Ok (map (\<lambda>k. m26x_unpack packed scales k cols naive) [0..<cols])"
  unfolding unpack_row_def Let_def assms(1) unpack_element_def [unfolded Let_def, symmetric]
  by (rule collect_results_all_Ok) (simp add: unpack_element_device [OF assms])

text \<open>A row of 32 columns: code 7 under the reserved scale byte saturates, code 1 under scale 0 is subnormal.\<close>

theorem device_decoder_agrees_witness:
  "unpack_row (0x71 # replicate 15 0) [255] NB_NONE =
     Ok (map (\<lambda>k. m26x_unpack (0x71 # replicate 15 0) [255] k 32 NB_NONE) [0..<32]) \<and>
   m26x_unpack (0x71 # replicate 15 0) [255] 1 32 NB_NONE = 0x7F7FFFFF \<and>
   m26x_unpack (0x71 # replicate 15 0) [0] 0 32 NB_NONE = 0x00200000"
proof (intro conjI)
  show "unpack_row (0x71 # replicate 15 0) [255] NB_NONE =
      Ok (map (\<lambda>k. m26x_unpack (0x71 # replicate 15 0) [255] k 32 NB_NONE) [0..<32])"
    by (rule device_decoder_agrees) simp_all
  show "m26x_unpack (0x71 # replicate 15 0) [255] 1 32 NB_NONE = 0x7F7FFFFF"
    "m26x_unpack (0x71 # replicate 15 0) [0] 0 32 NB_NONE = 0x00200000"
    by (simp_all add: m26x_unpack_def m26x_scale_byte_def m26x_decode_bits_def NB_NONE_def word_le_nat_alt)
qed

lemma pack_byte_decodes:
  "decode_byte (pack_byte a b) NB_NONE = [E2M1_CODEBOOK ! unat (a AND 0x0F), E2M1_CODEBOOK ! unat (b AND 0x0F)]"
proof -
  have m: "(0x0F :: u8) = mask 4" by (simp add: mask_eq_exp_minus_1)
  have "pack_byte a b AND 0x0F = a AND 0x0F" "drop_bit 4 (pack_byte a b) AND 0x0F = b AND 0x0F"
    unfolding m pack_byte_def by (rule bit_word_eqI; auto simp: bit_simps)+
  then show ?thesis by (simp add: decode_byte_def)
qed

lemma f32_signed_of: "f32_signed (f32_neg w) (f32_mag w) = w"
proof -
  have "w AND 0x7FFFFFFF \<le> 0x7FFFFFFF" by (rule word_and_le1)
  then have "f32_mag w < 2 ^ 31" by (simp add: f32_mag_def word_le_nat_alt)
  then show ?thesis by (intro f32_eqI f32_signed_parts)
qed

lemma or_top_bit:
  assumes "k < 2 ^ n"
  shows "2 ^ n OR of_nat k = (of_nat (k + 2 ^ n) :: 'a::len word)"
proof -
  have "\<not> bit (of_nat k :: 'a word) n"
    using assms by (metis bit_of_nat_iff bit_take_bit_iff less_irrefl take_bit_nat_eq_self)
  then have "2 ^ n + of_nat k = (2 ^ n :: 'a word) OR of_nat k"
    by (intro disjunctive_add) (auto simp: bit_exp_iff)
  then show ?thesis by (simp add: add.commute)
qed

lemma and_exp: "w AND 2 ^ n = (if bit w n then 2 ^ n else 0)" for w :: "'a::len word"
  by (rule bit_word_eqI) (auto simp: bit_and_iff bit_exp_iff)

lemma drop_bit_of_nat_u32: "k < 2 ^ 32 \<Longrightarrow> drop_bit 16 (of_nat k :: u32) = of_nat (k div 2 ^ 16)"
proof -
  assume "k < 2 ^ 32"
  moreover have "unat (drop_bit 16 (of_nat k :: u32)) = drop_bit 16 (unat (of_nat k :: u32))"
    by (rule unat_drop_bit_eq)
  ultimately show "drop_bit 16 (of_nat k :: u32) = of_nat (k div 2 ^ 16)"
    by (simp only: word_unat_eq_iff) (simp add: unat_of_nat drop_bit_eq_div)
qed

lemma low_bit_of_nat: "(of_nat k :: u32) AND 1 = of_nat (k mod 2)"
  by (simp add: and_one_eq word_unat_eq_iff unat_mod unat_of_nat mod_mod_cancel)

lemma f32_signed_add:
  assumes "m < 2 ^ 31"
  shows "f32_signed s m = of_nat (m + (if s then 2 ^ 31 else 0))"
  using or_top_bit [OF assms, where 'a = 32] by (simp add: f32_signed_def)

text \<open>The BF16 rounding of the device's store agrees with the rounding the wire uses, bit for bit, on
  every value that is not a NaN.\<close>

theorem device_bf16_agrees:
  assumes "\<not> f32_is_nan w"
  shows "m26x_bf16_bits w = f32_to_bf16_rne w"
proof -
  define m where "m = f32_mag w"
  define s where "s = f32_neg w"
  define l where "l = m div 2 ^ 16 mod 2"
  define q where "q = (m + 0x7FFF + l) div 2 ^ 16"
  have m: "m \<le> 0x7F800000" using assms by (simp add: f32_is_nan_def m_def)
  have w: "w = of_nat (m + (if s then 2 ^ 31 else 0))" "w AND 0x7FFFFFFF = of_nat m"
    using f32_signed_add [of m s] f32_signed_of [of w] m by (auto simp: m_def s_def f32_mag_def)
  have sign: "drop_bit 16 w AND 0x8000 = (if s then 0x8000 else 0)"
    using and_exp [of "drop_bit 16 w" 15] by (simp add: bit_drop_bit_eq s_def f32_neg_def)
  have l: "l \<le> 1" by (simp add: l_def)
  have shift: "(k + (if s then 2 ^ 31 else 0)) div 2 ^ 16 = k div 2 ^ 16 + (if s then 2 ^ 15 else 0)" for k :: nat
    using div_mult_self1 [of "2 ^ 16" k "2 ^ 15"] by simp
  have hi: "drop_bit 16 w = of_nat (m div 2 ^ 16 + (if s then 2 ^ 15 else 0))" unfolding w(1)
    by (subst drop_bit_of_nat_u32) (use m in \<open>simp_all only: shift, simp\<close>)
  have "(m div 2 ^ 16 + (if s then 2 ^ 15 else 0)) mod 2 = l" by (simp add: l_def mod_add_eq [symmetric])
  moreover have "drop_bit 16 (of_nat m :: u32) = of_nat (m div 2 ^ 16)" using m by (intro drop_bit_of_nat_u32) simp
  ultimately have low: "drop_bit 16 w AND 1 = of_nat l" "drop_bit 16 (of_nat m :: u32) AND 1 = of_nat l"
    by (simp_all only: hi low_bit_of_nat l_def)
  have q: "q \<le> 0x7F80" "0x7F800000 \<le> m + 0x7FFF + l \<Longrightarrow> q = 0x7F80" using m l by (simp_all add: q_def)
  have "drop_bit 16 (w + 0x7FFF + of_nat l) = (of_nat (q + (if s then 2 ^ 15 else 0)) :: u32)"
  proof -
    have "w + 0x7FFF + of_nat l = of_nat (m + 0x7FFF + l + (if s then 2 ^ 31 else 0))" unfolding w(1) by simp
    moreover have "m + 0x7FFF + l + (if s then 2 ^ 31 else 0) < 2 ^ 32" using m l by simp
    ultimately show ?thesis by (simp only: drop_bit_of_nat_u32 shift q_def)
  qed
  moreover have uc: "(ucast (of_nat k :: u32) :: u16) = of_nat k" for k
    by (simp add: unsigned_of_nat word_unat_eq_iff unat_of_nat take_bit_eq_mod mod_mod_cancel)
  ultimately have device: "m26x_bf16_bits w = of_nat (q + (if s then 2 ^ 15 else 0))"
    using m by (simp del: of_nat_add add: m26x_bf16_bits_def Let_def w(2) low word_less_nat_alt unat_of_nat)
  have round: "drop_bit 16 (if 0x7F800000 \<le> (of_nat m + (0x7FFF + of_nat l) :: u32) then 0x7F800000
      else of_nat m + (0x7FFF + of_nat l)) = (of_nat q :: u32)"
  proof -
    have "of_nat m + (0x7FFF + of_nat l) = (of_nat (m + 0x7FFF + l) :: u32)" by simp
    moreover have "0x7F800000 \<le> (of_nat (m + 0x7FFF + l) :: u32) \<longleftrightarrow> 0x7F800000 \<le> m + 0x7FFF + l"
      using m l by (simp del: of_nat_add add: word_le_nat_alt unat_of_nat)
    ultimately show ?thesis using q m l drop_bit_of_nat_u32 [of "m + 0x7FFF + l"] by (simp only: q_def) simp
  qed
  have "f32_to_bf16_rne w = (if s then 0x8000 else 0) OR of_nat q"
    using m round by (simp add: f32_to_bf16_rne_def Let_def w(2) low sign uc word_less_nat_alt unat_of_nat)
  also have "\<dots> = of_nat (q + (if s then 2 ^ 15 else 0))"
    using or_top_bit [of q 15, where 'a = 16] q(1) by simp
  finally show ?thesis by (simp only: device)
qed

text \<open>A tie goes to the even code, and the largest finite value becomes infinity.\<close>

theorem device_bf16_agrees_witness:
  "m26x_bf16_bits 0x3F818000 = f32_to_bf16_rne 0x3F818000 \<and> f32_to_bf16_rne 0x3F818000 = 0x3F82 \<and>
   m26x_bf16_bits 0xFF7FFFFF = f32_to_bf16_rne 0xFF7FFFFF \<and> f32_to_bf16_rne 0xFF7FFFFF = 0xFF80"
  using device_bf16_agrees [of "0x3F818000"] device_bf16_agrees [of "0xFF7FFFFF"]
  by (simp add: f32_is_nan_def f32_mag_def f32_to_bf16_rne_def word_le_nat_alt word_less_nat_alt)

end
