(* ===== verification/ExpertSlice.thy ===== *)
theory ExpertSlice
  imports Mxfp4
begin

text \<open>
  The quarter-slice image of one expert, \<open>crates/mimo26-expert/src/slice.rs\<close>: three projections, each a
  payload region and a scale region, and their addressing inside an image of many slices back to back.
\<close>

subsection \<open>Geometry\<close>

definition SLICE_HIDDEN :: nat where [layout_simps]: "SLICE_HIDDEN = 4096"
definition INTERMEDIATE :: nat where [layout_simps]: "INTERMEDIATE = 2048"
definition EXPERTS_PER_LAYER :: nat where [layout_simps]: "EXPERTS_PER_LAYER = 256"
definition MOE_LAYERS :: nat where [layout_simps]: "MOE_LAYERS = 47"
definition EP_RANKS :: nat where [layout_simps]: "EP_RANKS = 4"
definition FIRST_MOE_LAYER :: nat where [layout_simps]: "FIRST_MOE_LAYER = 1"
definition EXPERT_BYTES :: nat where [layout_simps]: "EXPERT_BYTES = 13369344"
definition QUARTER_SLICE_BYTES :: nat where [layout_simps]: "QUARTER_SLICE_BYTES = 3342336"
definition LAYOUT_VERSION :: u32 where "LAYOUT_VERSION = 2"

definition check_layout_version :: "u32 \<Rightarrow> (unit, expert_error) outcome" where
  "check_layout_version version =
     (if version \<noteq> LAYOUT_VERSION then Err (ShapeMismatch (LayoutVersionIs version)) else Ok ())"

datatype proj = Gate | Up | Down

definition proj_ALL :: "proj list" where
  "proj_ALL = [Gate, Up, Down]"

fun proj_out_rows :: "proj \<Rightarrow> nat" where
  "proj_out_rows Down = SLICE_HIDDEN"
| "proj_out_rows _ = INTERMEDIATE"

fun proj_in_cols :: "proj \<Rightarrow> nat" where
  "proj_in_cols Down = INTERMEDIATE"
| "proj_in_cols _ = SLICE_HIDDEN"

fun slice_rows :: "proj \<Rightarrow> nat" where
  "slice_rows Down = SLICE_HIDDEN"
| "slice_rows _ = INTERMEDIATE div EP_RANKS"

fun slice_in_cols :: "proj \<Rightarrow> nat" where
  "slice_in_cols Down = INTERMEDIATE div EP_RANKS"
| "slice_in_cols _ = SLICE_HIDDEN"

definition slice_payload_bytes :: "proj \<Rightarrow> nat" where
  "slice_payload_bytes p = slice_rows p * slice_in_cols p div 2"

definition slice_scale_bytes :: "proj \<Rightarrow> nat" where
  "slice_scale_bytes p = slice_rows p * slice_in_cols p div 32"

definition slice_payload_off :: "proj \<Rightarrow> nat" where
  "slice_payload_off p =
     (let up = slice_payload_bytes Gate + slice_scale_bytes Gate in
      case p of Gate \<Rightarrow> 0 | Up \<Rightarrow> up | Down \<Rightarrow> up + slice_payload_bytes Up + slice_scale_bytes Up)"

definition slice_scale_off :: "proj \<Rightarrow> nat" where
  "slice_scale_off p = slice_payload_off p + slice_payload_bytes p"

definition reserved_bytes :: "proj \<Rightarrow> nat" where
  "reserved_bytes p =
     (case p of Down \<Rightarrow> QUARTER_SLICE_BYTES - (slice_scale_off Down + slice_scale_bytes Down) | _ \<Rightarrow> 0)"

definition scale_cols :: "proj \<Rightarrow> nat" where
  "scale_cols p = slice_in_cols p div 32"

definition payload_cols :: "proj \<Rightarrow> nat" where
  "payload_cols p = slice_in_cols p div 2"

datatype region = Payload | Scales | Reserved

record layout_row =
  lr_proj :: proj
  lr_region :: region
  lr_off :: nat
  lr_len :: nat

definition layout_table :: "layout_row list" where
  "layout_table =
     concat (map (\<lambda>p.
       [\<lparr>lr_proj = p, lr_region = Payload, lr_off = slice_payload_off p, lr_len = slice_payload_bytes p\<rparr>,
        \<lparr>lr_proj = p, lr_region = Scales, lr_off = slice_scale_off p, lr_len = slice_scale_bytes p\<rparr>]) proj_ALL) @
     [\<lparr>lr_proj = Down, lr_region = Reserved, lr_off = slice_scale_off Down + slice_scale_bytes Down,
       lr_len = reserved_bytes Down\<rparr>]"

definition slice_row_indices :: "proj \<Rightarrow> nat \<Rightarrow> (nat list, expert_error) outcome" where
  "slice_row_indices p rank =
     (if rank < EP_RANKS
      then let start = (case p of Down \<Rightarrow> 0 | _ \<Rightarrow> rank * slice_rows p) in Ok [start..<start + slice_rows p]
      else Panic)"

subsection \<open>Addressing\<close>

definition slice_proj :: "u8 list \<Rightarrow> proj \<Rightarrow> (u8 list \<times> u8 list, expert_error) outcome" where
  "slice_proj qs p =
     (if length qs \<noteq> QUARTER_SLICE_BYTES then Err (SliceSize QUARTER_SLICE_BYTES (length qs))
      else obind (subslice qs (slice_payload_off p) (slice_payload_off p + slice_payload_bytes p)) (\<lambda>payload.
           obind (subslice qs (slice_scale_off p) (slice_scale_off p + slice_scale_bytes p)) (\<lambda>scales.
           Ok (payload, scales))))"

definition grouped_proj :: "u8 list \<Rightarrow> nat \<Rightarrow> proj \<Rightarrow> (u8 list \<times> u8 list, expert_error) outcome" where
  "grouped_proj grouped expert p =
     (if 2 ^ 64 \<le> expert * QUARTER_SLICE_BYTES then Err (Grouped (ExpertOffsetOverflows expert))
      else let base = expert * QUARTER_SLICE_BYTES; stop = usize_add base QUARTER_SLICE_BYTES in
           if length grouped < stop then Err (Grouped (ExpertOutsideImage expert base stop (length grouped)))
           else obind (subslice grouped base stop) (\<lambda>s. slice_proj s p))"

definition check_rank :: "nat \<Rightarrow> (unit, expert_error) outcome" where
  "check_rank rank = (if EP_RANKS \<le> rank then Err (ShapeMismatch (EpRankIs rank)) else Ok ())"

definition check_layer :: "nat \<Rightarrow> (unit, expert_error) outcome" where
  "check_layer layer =
     (if layer < FIRST_MOE_LAYER \<or> FIRST_MOE_LAYER + MOE_LAYERS \<le> layer
      then Err (ShapeMismatch (MoeLayerIs layer)) else Ok ())"

definition check_expert :: "nat \<Rightarrow> (unit, expert_error) outcome" where
  "check_expert expert =
     (if EXPERTS_PER_LAYER \<le> expert then Err (ShapeMismatch (ExpertIs expert)) else Ok ())"

subsection \<open>The image holds the projections side by side\<close>

text \<open>The regions follow one another without a gap and fill the slice.\<close>

lemma layout_table_tiles:
  "map lr_off layout_table = map (\<lambda>i. sum_list (take i (map lr_len layout_table))) [0..<7] \<and>
   sum_list (map lr_len layout_table) = QUARTER_SLICE_BYTES"
  by (simp add: layout_table_def proj_ALL_def slice_payload_off_def slice_payload_bytes_def slice_scale_bytes_def
      slice_scale_off_def reserved_bytes_def layout_simps upt_rec)

text \<open>A projection has two columns to a payload byte and 32 to a scale byte.\<close>

lemma slice_widths:
  "slice_payload_bytes p = slice_rows p * (slice_in_cols p div 2)"
  "slice_scale_bytes p = slice_rows p * (slice_in_cols p div 32)"
  "slice_in_cols p = slice_in_cols p div 32 * 32" "slice_in_cols p = slice_in_cols p div 2 * 2"
  "slice_payload_off p + slice_payload_bytes p \<le> QUARTER_SLICE_BYTES"
  "slice_scale_off p + slice_scale_bytes p \<le> QUARTER_SLICE_BYTES"
  by (cases p; simp add: slice_payload_bytes_def slice_scale_bytes_def slice_scale_off_def slice_payload_off_def layout_simps)+

definition payload_of :: "u8 list \<Rightarrow> nat \<Rightarrow> proj \<Rightarrow> u8 list" where
  "payload_of grouped e p =
     take (slice_payload_bytes p) (drop (e * QUARTER_SLICE_BYTES + slice_payload_off p) grouped)"

definition scales_of :: "u8 list \<Rightarrow> nat \<Rightarrow> proj \<Rightarrow> u8 list" where
  "scales_of grouped e p =
     take (slice_scale_bytes p) (drop (e * QUARTER_SLICE_BYTES + slice_scale_off p) grouped)"

lemma take_drop_take_drop:
  "i + n \<le> m \<Longrightarrow> take n (drop i (take m (drop k xs))) = take n (drop (k + i) xs)"
  by (simp add: drop_take min_def add.commute)

lemma grouped_proj_regions:
  assumes "e < EXPERTS_PER_LAYER" "(e + 1) * QUARTER_SLICE_BYTES \<le> length grouped"
  shows "grouped_proj grouped e p = Ok (payload_of grouped e p, scales_of grouped e p)"
    "length (payload_of grouped e p) = slice_payload_bytes p" "length (scales_of grouped e p) = slice_scale_bytes p"
proof -
  have e: "e * QUARTER_SLICE_BYTES + QUARTER_SLICE_BYTES < 2 ^ 64" using assms(1) by (simp add: layout_simps)
  note w = slice_widths(5,6) [of p]
  let ?s = "take QUARTER_SLICE_BYTES (drop (e * QUARTER_SLICE_BYTES) grouped)"
  have "slice_proj ?s p = Ok (payload_of grouped e p, scales_of grouped e p)"
    using assms(2) w by (simp add: slice_proj_def subslice_def take_drop_take_drop payload_of_def scales_of_def)
  then show "grouped_proj grouped e p = Ok (payload_of grouped e p, scales_of grouped e p)"
    using e assms(2) by (simp add: grouped_proj_def Let_def usize_add_no_wrap subslice_def)
  show "length (payload_of grouped e p) = slice_payload_bytes p" "length (scales_of grouped e p) = slice_scale_bytes p"
    using assms(2) w by (simp_all add: payload_of_def scales_of_def)
qed

end
