(* ===== verification/GroupedGemm.thy ===== *)
theory GroupedGemm
  imports ExpertSlice
begin

text \<open>
  The grouped expert GEMM, \<open>crates/mimo26-expert/src/grouped.rs\<close>: the launch geometry, the grouped plan,
  the reference GEMM over an image of quarter slices, and the rank-local FFN. The arithmetic is the
  \<open>f32\<close> arithmetic of the source, in its order. \<open>f32::exp\<close> is the argument \<open>expf\<close> (its last bit
  is left to the platform). Token counts are lengths of vectors, so sums of them are far below \<open>2 ^ 64\<close>
  and are not wrapped. \<open>debug_assert!\<close> does nothing in the release build.
\<close>

subsection \<open>Geometry\<close>

definition THREADS :: nat where [layout_simps]: "THREADS = 256"
definition ROWS_PER_BLOCK :: nat where [layout_simps]: "ROWS_PER_BLOCK = 32"
definition K_STEP :: nat where [layout_simps]: "K_STEP = BLOCK"
definition WARPS :: nat where [layout_simps]: "WARPS = THREADS div 32"
definition LANES_PER_ROW :: nat where [layout_simps]: "LANES_PER_ROW = 8"
definition K_TILE :: nat where [layout_simps]: "K_TILE = 256"
definition M_SIZES :: "nat list" where [layout_simps]: "M_SIZES = [1, 2, 4, 8, 16, 64, 256]"
definition BENCH_M_SIZES :: "nat list" where [layout_simps]: "BENCH_M_SIZES = [1, 2, 4, 8, 16, 64]"

record launch_geom =
  lg_grid_x :: u32
  lg_grid_y :: u32
  lg_grid_z :: u32
  lg_block_x :: u32
  lg_rows_per_block :: u32
  lg_k_step :: u32
  lg_smem_bytes :: u32

definition lg_blocks :: "launch_geom \<Rightarrow> u64" where
  "lg_blocks g = ucast (lg_grid_x g) * ucast (lg_grid_y g) * ucast (lg_grid_z g)"

definition lg_live_blocks :: "launch_geom \<Rightarrow> nat \<Rightarrow> u64" where
  "lg_live_blocks g expert_count = ucast (lg_grid_x g) * of_nat expert_count * ucast (lg_grid_z g)"

text \<open>\<open>usize::next_power_of_two\<close> and \<open>usize::div_ceil\<close>.\<close>

definition next_power_of_two :: "nat \<Rightarrow> nat" where
  "next_power_of_two n = (if n \<le> 1 then 1 else 2 ^ bit_len (n - 1))"

definition div_ceil :: "nat \<Rightarrow> nat \<Rightarrow> nat" where
  "div_ceil a b = (a + b - 1) div b"

definition token_stage_bytes :: "nat \<Rightarrow> nat \<Rightarrow> nat" where
  "token_stage_bytes m in_cols = (if m = 0 then 0 else 2 * next_power_of_two (min m 8) * K_TILE * 4)"

definition launch_geometry :: "proj \<Rightarrow> nat \<Rightarrow> nat \<Rightarrow> launch_geom" where
  "launch_geometry p m n_experts =
     \<lparr>lg_grid_x = of_nat (div_ceil (slice_rows p) ROWS_PER_BLOCK), lg_grid_y = of_nat n_experts,
      lg_grid_z = of_nat (div_ceil m 8), lg_block_x = of_nat THREADS, lg_rows_per_block = of_nat ROWS_PER_BLOCK,
      lg_k_step = of_nat K_STEP, lg_smem_bytes = of_nat (token_stage_bytes m (slice_in_cols p))\<rparr>"

subsection \<open>Plans\<close>

record expert_group =
  eg_expert :: nat
  eg_tokens :: nat
  eg_token_offset :: nat

record grouped_plan =
  gp_groups :: "expert_group list"
  gp_padded :: nat

definition uniform :: "nat \<Rightarrow> nat \<Rightarrow> nat \<Rightarrow> grouped_plan" where
  "uniform n_experts m padded =
     \<lparr>gp_groups = map (\<lambda>e. \<lparr>eg_expert = e, eg_tokens = m, eg_token_offset = e * m\<rparr>) [0..<n_experts], gp_padded = padded\<rparr>"

definition expert_count :: "grouped_plan \<Rightarrow> nat" where
  "expert_count plan = length (gp_groups plan)"

definition padded_expert_count :: "grouped_plan \<Rightarrow> nat" where
  "padded_expert_count plan = length (gp_groups plan) + gp_padded plan"

definition total_tokens :: "grouped_plan \<Rightarrow> nat" where
  "total_tokens plan = sum_list (map eg_tokens (gp_groups plan))"

definition max_tokens :: "grouped_plan \<Rightarrow> nat" where
  "max_tokens plan = foldl max 0 (map eg_tokens (gp_groups plan))"

definition is_padded :: "grouped_plan \<Rightarrow> nat \<Rightarrow> bool" where
  "is_padded plan expert \<longleftrightarrow> length (gp_groups plan) \<le> expert"

definition padded_output_rows :: "grouped_plan \<Rightarrow> nat" where
  "padded_output_rows plan = 0"

fun validate_groups :: "nat \<Rightarrow> nat \<Rightarrow> expert_group list \<Rightarrow> (unit, expert_error) outcome" where
  "validate_groups i expect_off [] = Ok ()"
| "validate_groups i expect_off (g # gs) =
     obind (check_expert (eg_expert g)) (\<lambda>_.
     if eg_token_offset g \<noteq> expect_off then Err (Grouped (GroupOffset i (eg_token_offset g) expect_off))
     else if eg_tokens g \<notin> set M_SIZES then Err (Grouped (GroupTokens i (eg_tokens g)))
     else validate_groups (i + 1) (expect_off + eg_tokens g) gs)"

definition plan_validate :: "grouped_plan \<Rightarrow> (unit, expert_error) outcome" where
  "plan_validate plan = validate_groups 0 0 (gp_groups plan)"

subsection \<open>The GEMM\<close>

record grouped_output =
  go_data :: "f32 list"
  go_out_rows :: nat

definition go_row :: "grouped_output \<Rightarrow> nat \<Rightarrow> (f32 list, expert_error) outcome" where
  "go_row out token = subslice (go_data out) (token * go_out_rows out) ((token + 1) * go_out_rows out)"

text \<open>The trap that rounds the accumulator to BF16 after every addition.\<close>

definition round_acc :: "f32 \<Rightarrow> naive_flags \<Rightarrow> f32" where
  "round_acc acc naive =
     (if nb_has naive BF16_ACCUM \<and> f32_is_finite acc
      then (acc + (0x7FFF + (drop_bit 16 acc AND 1))) AND 0xFFFF0000 else acc)"

definition gemm_cell ::
  "u8 list \<Rightarrow> u8 list \<Rightarrow> f32 list \<Rightarrow> nat \<Rightarrow> nat \<Rightarrow> naive_flags \<Rightarrow> (f32, expert_error) outcome" where
  "gemm_cell payload scales xrow in_cols r naive =
     (let half = in_cols div 2; srow = in_cols div BLOCK in
      obind (subslice payload (r * half) ((r + 1) * half)) (\<lambda>prow.
      obind (subslice scales (r * srow) ((r + 1) * srow)) (\<lambda>srowb.
      fold_results (\<lambda>acc k.
        obind (unpack_element prow srowb k naive) (\<lambda>w.
        obind (index_at xrow k) (\<lambda>v.
        Ok (round_acc (f32_add acc (f32_mul w v)) naive)))) 0 [0..<in_cols])))"

definition gemm_group ::
  "u8 list \<Rightarrow> u8 list \<Rightarrow> f32 list \<Rightarrow> nat \<Rightarrow> nat \<Rightarrow> nat \<Rightarrow> nat \<Rightarrow> naive_flags \<Rightarrow> f32 list \<Rightarrow> (f32 list, expert_error) outcome" where
  "gemm_group payload scales x in_cols out_rows tokens token_offset naive out =
     fold_results (\<lambda>out t.
       obind (subslice x ((token_offset + t) * in_cols) ((token_offset + t + 1) * in_cols)) (\<lambda>xrow.
       obind (collect_results (\<lambda>r. gemm_cell payload scales xrow in_cols r naive) [0..<out_rows]) (\<lambda>orow.
       write_at ((token_offset + t) * out_rows) orow out))) out [0..<tokens]"

definition gemm_step ::
  "u8 list \<Rightarrow> f32 list \<Rightarrow> grouped_plan \<Rightarrow> proj \<Rightarrow> naive_flags \<Rightarrow> f32 list \<Rightarrow> nat \<Rightarrow> (f32 list, expert_error) outcome" where
  "gemm_step grouped x plan p naive out e =
     (let real = e < length (gp_groups plan); g = gp_groups plan ! e;
          tokens = (if real then eg_tokens g else max_tokens plan);
          token_offset = (if real then eg_token_offset g else total_tokens plan) in
      if tokens = 0 then Ok out
      else let expert = (if real then eg_expert g else e) in
        obind (grouped_proj grouped expert p) (\<lambda>(payload, scales).
        if is_padded plan e then Err (PaddedRowRead expert 0)
        else gemm_group payload scales x (slice_in_cols p) (slice_rows p) tokens token_offset naive out))"

definition grouped_gemm ::
  "u8 list \<Rightarrow> f32 list \<Rightarrow> grouped_plan \<Rightarrow> proj \<Rightarrow> naive_flags \<Rightarrow> (grouped_output, expert_error) outcome" where
  "grouped_gemm grouped x plan p naive =
     obind (plan_validate plan) (\<lambda>_.
     let in_cols = slice_in_cols p; out_rows = slice_rows p; total = total_tokens plan in
     if length x \<noteq> total * in_cols then Err (Grouped (InputElements (length x) total in_cols (total * in_cols)))
     else let n_loop = (if nb_has naive PAD_ROW_READ then padded_expert_count plan else expert_count plan) in
       obind (fold_results (gemm_step grouped x plan p naive) (replicate (total * out_rows) 0) [0..<n_loop]) (\<lambda>out.
       Ok \<lparr>go_data = out, go_out_rows = out_rows\<rparr>))"

definition silu :: "(f32 \<Rightarrow> f32) \<Rightarrow> f32 \<Rightarrow> f32" where
  "silu expf x = f32_div x (f32_add 0x3F800000 (expf (f32_negate x)))"

definition gate_up ::
  "(f32 \<Rightarrow> f32) \<Rightarrow> u8 list \<Rightarrow> f32 list \<Rightarrow> grouped_plan \<Rightarrow> naive_flags \<Rightarrow> (grouped_output, expert_error) outcome" where
  "gate_up expf grouped x plan naive =
     obind (grouped_gemm grouped x plan Gate naive) (\<lambda>g.
     obind (grouped_gemm grouped x plan Up naive) (\<lambda>u.
     obind (collect_results (\<lambda>i.
       obind (index_at (go_data g) i) (\<lambda>a. obind (index_at (go_data u) i) (\<lambda>b. Ok (f32_mul (silu expf a) b))))
       [0..<length (go_data g)]) (\<lambda>data.
     Ok \<lparr>go_data = data, go_out_rows = go_out_rows g\<rparr>)))"

definition expert_ffn ::
  "u8 list \<Rightarrow> f32 list \<Rightarrow> grouped_plan \<Rightarrow> naive_flags \<Rightarrow> (grouped_output, expert_error) outcome" where
  "expert_ffn grouped h plan naive = grouped_gemm grouped h plan Down naive"

definition expert_ffn_self_contained ::
  "(f32 \<Rightarrow> f32) \<Rightarrow> u8 list \<Rightarrow> f32 list \<Rightarrow> grouped_plan \<Rightarrow> naive_flags \<Rightarrow> (grouped_output, expert_error) outcome" where
  "expert_ffn_self_contained expf grouped x plan naive =
     obind (gate_up expf grouped x plan naive) (\<lambda>h. grouped_gemm grouped (go_data h) plan Down naive)"

subsection \<open>Costs\<close>

definition streamed_bytes :: "grouped_plan \<Rightarrow> proj \<Rightarrow> nat \<Rightarrow> u64" where
  "streamed_bytes plan p m =
     (let per_expert = of_nat (slice_payload_bytes p + slice_scale_bytes p);
          weights = per_expert * of_nat (expert_count plan);
          tokens = of_nat (total_tokens plan * slice_in_cols p * 4);
          out = of_nat (total_tokens plan * slice_rows p * 4)
      in weights + tokens + out)"

definition gemm_flops :: "grouped_plan \<Rightarrow> proj \<Rightarrow> u64" where
  "gemm_flops plan p = 2 * of_nat (total_tokens plan) * of_nat (slice_rows p) * of_nat (slice_in_cols p)"

definition ffn_streamed_bytes :: "grouped_plan \<Rightarrow> nat \<Rightarrow> u64" where
  "ffn_streamed_bytes plan m = streamed_bytes plan Gate m + streamed_bytes plan Up m + streamed_bytes plan Down m"

definition ffn_flops :: "grouped_plan \<Rightarrow> u64" where
  "ffn_flops plan = gemm_flops plan Gate + gemm_flops plan Up + gemm_flops plan Down"

subsection \<open>What the GEMM computes\<close>

text \<open>The weight of column \<open>k\<close> of output row \<open>r\<close>, and one row of the product in the loop's order.\<close>

definition expert_weight :: "u8 list \<Rightarrow> nat \<Rightarrow> proj \<Rightarrow> nat \<Rightarrow> nat \<Rightarrow> f32" where
  "expert_weight img e p r k =
     (let half = slice_in_cols p div 2; srow = slice_in_cols p div 32 in
      m26x_unpack (take half (drop (r * half) (payload_of img e p)))
        (take srow (drop (r * srow) (scales_of img e p))) k (slice_in_cols p) NB_NONE)"

definition matvec :: "u8 list \<Rightarrow> nat \<Rightarrow> proj \<Rightarrow> f32 list \<Rightarrow> f32 list" where
  "matvec img e p v =
     map (\<lambda>r. foldl (\<lambda>acc k. f32_add acc (f32_mul (expert_weight img e p r k) (v ! k))) 0 [0..<slice_in_cols p])
       [0..<slice_rows p]"

text \<open>The rows of a matrix of width \<open>w\<close>, and the expert of every row of a plan.\<close>

definition row_of :: "nat \<Rightarrow> 'a list \<Rightarrow> nat \<Rightarrow> 'a list" where
  "row_of w x i = take w (drop (i * w) x)"

definition row_experts :: "grouped_plan \<Rightarrow> nat list" where
  "row_experts plan = concat (map (\<lambda>g. replicate (eg_tokens g) (eg_expert g)) (gp_groups plan))"

lemma length_matvec [simp]: "length (matvec img e p v) = slice_rows p"
  by (simp add: matvec_def)

lemma length_row_experts: "length (row_experts plan) = total_tokens plan"
  by (simp add: row_experts_def total_tokens_def length_concat comp_def)

lemma subslice_row:
  "(i + 1) * w \<le> length xs \<Longrightarrow> subslice xs (i * w) ((i + 1) * w) = Ok (row_of w xs i)"
  by (simp add: subslice_def row_of_def)

lemma length_row_of: "(i + 1) * w \<le> length xs \<Longrightarrow> length (row_of w xs i) = w"
  by (simp add: row_of_def)

lemma row_fits: "i < n \<Longrightarrow> n * w \<le> m \<Longrightarrow> (i + 1) * w \<le> (m :: nat)"
proof -
  assume "i < n" "n * w \<le> m"
  moreover from this have "(i + 1) * w \<le> n * w" by (intro mult_le_mono1) simp
  ultimately show "(i + 1) * w \<le> m" by simp
qed

lemma gemm_cell_value:
  assumes e: "e < EXPERTS_PER_LAYER" "(e + 1) * QUARTER_SLICE_BYTES \<le> length img"
    and r: "r < slice_rows p" and v: "length v = slice_in_cols p"
  shows "gemm_cell (payload_of img e p) (scales_of img e p) v (slice_in_cols p) r NB_NONE =
    Ok (foldl (\<lambda>acc k. f32_add acc (f32_mul (expert_weight img e p r k) (v ! k))) 0 [0..<slice_in_cols p])"
proof -
  let ?h = "slice_in_cols p div 2" and ?s = "slice_in_cols p div 32"
  note len = grouped_proj_regions(2,3) [OF e, of p] and w = slice_widths [of p]
  have fit: "(r + 1) * ?h \<le> length (payload_of img e p)" "(r + 1) * ?s \<le> length (scales_of img e p)"
    using row_fits [OF r] len w(1,2) by simp_all
  note rows = length_row_of [OF fit(1)] length_row_of [OF fit(2)]
  have "unpack_element (row_of ?h (payload_of img e p) r) (row_of ?s (scales_of img e p) r) k NB_NONE =
      (Ok (expert_weight img e p r k) :: (f32, expert_error) outcome)" if "k < slice_in_cols p" for k
    unfolding expert_weight_def Let_def row_of_def [symmetric]
    by (rule unpack_element_device) (use that rows w(3,4) in simp_all)
  then show ?thesis
    unfolding gemm_cell_def Let_def BLOCK_def subslice_row [OF fit(1)] subslice_row [OF fit(2)] obind.simps
    by (intro fold_results_all_Ok) (simp add: index_at_def v round_acc_def)
qed

lemma gemm_group_value:
  assumes e: "e < EXPERTS_PER_LAYER" "(e + 1) * QUARTER_SLICE_BYTES \<le> length img"
    and x: "length x = n * slice_in_cols p" and out: "length out = n * slice_rows p" and le: "off + tokens \<le> n"
  shows "gemm_group (payload_of img e p) (scales_of img e p) x (slice_in_cols p) (slice_rows p) tokens off NB_NONE out =
    Ok (take (off * slice_rows p) out @
        concat (map (\<lambda>i. matvec img e p (row_of (slice_in_cols p) x i)) [off..<off + tokens]) @
        drop ((off + tokens) * slice_rows p) out)"
  using le
proof (induction tokens)
  case 0
  then show ?case by (simp add: gemm_group_def)
next
  case (Suc t)
  let ?C = "slice_in_cols p" and ?R = "slice_rows p" and ?i = "off + t"
  let ?m = "\<lambda>i. matvec img e p (row_of ?C x i)"
  have fit: "(?i + 1) * ?C \<le> length x" "(?i + 1) * ?R \<le> length out" using Suc.prems x out
    by (auto intro!: row_fits [of "off + t" n, unfolded Suc_eq_plus1 [symmetric], simplified])
  have row: "collect_results (\<lambda>r. gemm_cell (payload_of img e p) (scales_of img e p) (row_of ?C x ?i) ?C r NB_NONE) [0..<?R] = Ok (?m ?i)"
    unfolding matvec_def by (rule collect_results_all_Ok) (simp add: gemm_cell_value [OF e _ length_row_of [OF fit(1)]])
  have len: "length (concat (map ?m [off..<?i])) = t * ?R" by (simp add: length_concat_uniform)
  have pre: "length (take (off * ?R) out @ concat (map ?m [off..<?i])) = ?i * ?R"
    using fit(2) len by (simp add: add_mult_distrib)
  have w: "write_at (?i * ?R) (?m ?i) (take (off * ?R) out @ concat (map ?m [off..<?i]) @ drop (?i * ?R) out) =
      Ok (take (off * ?R) out @ concat (map ?m [off..<?i]) @ ?m ?i @ drop ((?i + 1) * ?R) out)" (is "write_at _ _ (?a @ ?b @ ?c) = _")
    using fit(2) pre by (simp add: write_at_def add.commute)
  have IH: "gemm_group (payload_of img e p) (scales_of img e p) x ?C ?R t off NB_NONE out = Ok (?a @ ?b @ ?c)"
    by (rule Suc.IH) (use Suc.prems in simp)
  show ?case
    using IH unfolding gemm_group_def upt_Suc_append [OF zero_le] fold_results_append
    by (simp add: subslice_row [OF fit(1), simplified] row w [simplified])
qed

text \<open>The groups of a valid plan tile its rows in order.\<close>

definition group_start :: "grouped_plan \<Rightarrow> nat \<Rightarrow> nat" where
  "group_start plan i = sum_list (map eg_tokens (take i (gp_groups plan)))"

lemma group_start_Suc:
  "i < length (gp_groups plan) \<Longrightarrow> group_start plan (Suc i) = group_start plan i + eg_tokens (gp_groups plan ! i)"
  by (simp add: group_start_def take_Suc_conv_app_nth)

lemma group_start_le: "i \<le> j \<Longrightarrow> group_start plan i \<le> group_start plan j"
proof -
  assume "i \<le> j"
  then have "take j (gp_groups plan) = take i (gp_groups plan) @ take (j - i) (drop i (gp_groups plan))"
    by (metis le_add_diff_inverse take_add)
  then show ?thesis by (simp add: group_start_def)
qed

lemma group_start_end: "group_start plan (length (gp_groups plan)) = total_tokens plan"
  by (simp add: group_start_def total_tokens_def)

lemma validate_groups_Ok:
  "validate_groups i off gs = Ok () \<longleftrightarrow>
     (\<forall>j < length gs. eg_expert (gs ! j) < EXPERTS_PER_LAYER \<and> eg_tokens (gs ! j) \<in> set M_SIZES \<and>
        eg_token_offset (gs ! j) = off + sum_list (map eg_tokens (take j gs)))"
proof (induction gs arbitrary: i off)
  case (Cons g gs)
  then show ?case
    by (auto simp: outcome_simps check_expert_def nth_Cons split: nat.splits if_splits)
qed simp

lemma row_experts_nth:
  assumes "i < length (gp_groups plan)" "t < eg_tokens (gp_groups plan ! i)"
  shows "row_experts plan ! (group_start plan i + t) = eg_expert (gp_groups plan ! i)"
proof -
  let ?f = "\<lambda>g. replicate (eg_tokens g) (eg_expert g)"
  have "row_experts plan = concat (map ?f (take i (gp_groups plan))) @ ?f (gp_groups plan ! i) @ concat (map ?f (drop (Suc i) (gp_groups plan)))"
    unfolding row_experts_def by (subst id_take_nth_drop [OF assms(1)]) simp
  moreover have "length (concat (map ?f (take i (gp_groups plan)))) = group_start plan i"
    by (simp add: group_start_def length_concat comp_def)
  ultimately show ?thesis using assms(2) by (simp add: nth_append)
qed

lemma gemm_steps:
  assumes valid: "plan_validate plan = Ok ()" and x: "length x = total_tokens plan * slice_in_cols p"
    and img: "\<forall>e \<in> set (row_experts plan). (e + 1) * QUARTER_SLICE_BYTES \<le> length img"
    and n: "n \<le> length (gp_groups plan)"
  shows "fold_results (gemm_step img x plan p NB_NONE) (replicate (total_tokens plan * slice_rows p) 0) [0..<n] =
    Ok (concat (map (\<lambda>i. matvec img (row_experts plan ! i) p (row_of (slice_in_cols p) x i)) [0..<group_start plan n]) @
        replicate ((total_tokens plan - group_start plan n) * slice_rows p) 0)"
  using n
proof (induction n)
  case 0
  then show ?case by (simp add: group_start_def)
next
  case (Suc n)
  let ?g = "gp_groups plan ! n" and ?C = "slice_in_cols p" and ?R = "slice_rows p" and ?T = "total_tokens plan"
  let ?M = "\<lambda>i. matvec img (row_experts plan ! i) p (row_of ?C x i)" and ?s = "group_start plan n"
  let ?out = "concat (map ?M [0..<?s]) @ replicate ((?T - ?s) * ?R) 0"
  have n: "n < length (gp_groups plan)" using Suc.prems by simp
  have g: "eg_expert ?g < EXPERTS_PER_LAYER" "eg_tokens ?g \<in> set M_SIZES" "eg_token_offset ?g = ?s"
    using valid n by (simp_all add: plan_validate_def validate_groups_Ok group_start_def)
  have pos: "eg_tokens ?g \<noteq> 0" using g(2) by (auto simp: M_SIZES_def)
  have end_le: "?s + eg_tokens ?g \<le> ?T"
    using group_start_le [of "Suc n" "length (gp_groups plan)" plan] n by (simp add: group_start_Suc group_start_end)
  have len: "length ?out = ?T * ?R" "length (concat (map ?M [0..<?s])) = ?s * ?R"
    using end_le by (simp_all add: length_concat_uniform diff_mult_distrib)
  have e: "(eg_expert ?g + 1) * QUARTER_SLICE_BYTES \<le> length img"
  proof -
    have "?s + 0 < length (row_experts plan)" using end_le pos by (simp add: length_row_experts)
    then have "row_experts plan ! (?s + 0) \<in> set (row_experts plan)" by (rule nth_mem)
    with img show ?thesis using row_experts_nth [OF n, of 0] pos by auto
  qed
  have same: "map (\<lambda>i. matvec img (eg_expert ?g) p (row_of ?C x i)) [?s..<?s + eg_tokens ?g] = map ?M [?s..<?s + eg_tokens ?g]"
    by (rule map_cong) (use row_experts_nth [OF n] in \<open>auto simp: le_iff_add\<close>)
  have "gemm_step img x plan p NB_NONE ?out n =
      gemm_group (payload_of img (eg_expert ?g) p) (scales_of img (eg_expert ?g) p) x ?C ?R (eg_tokens ?g) ?s NB_NONE ?out"
    using n pos by (simp add: gemm_step_def Let_def grouped_proj_regions(1) [OF g(1) e] is_padded_def g(3))
  also have "\<dots> = Ok (take (?s * ?R) ?out @ concat (map ?M [?s..<?s + eg_tokens ?g]) @ drop ((?s + eg_tokens ?g) * ?R) ?out)"
    unfolding gemm_group_value [OF g(1) e x len(1) end_le] same ..
  also have "\<dots> = Ok (concat (map ?M [0..<?s + eg_tokens ?g]) @ replicate ((?T - (?s + eg_tokens ?g)) * ?R) 0)"
    using len(2) by (simp add: upt_add_eq_append [OF le0, of ?s] add_mult_distrib diff_mult_distrib)
  finally show ?case
    using Suc n by (simp add: fold_results_append group_start_Suc)
qed

lemma grouped_gemm_value:
  assumes "plan_validate plan = Ok ()" "length x = total_tokens plan * slice_in_cols p"
    "\<forall>e \<in> set (row_experts plan). (e + 1) * QUARTER_SLICE_BYTES \<le> length img"
  shows "grouped_gemm img x plan p NB_NONE = Ok
    \<lparr>go_data = concat (map (\<lambda>i. matvec img (row_experts plan ! i) p (row_of (slice_in_cols p) x i)) [0..<total_tokens plan]),
     go_out_rows = slice_rows p\<rparr>"
  using gemm_steps [OF assms order_refl] assms(1,2)
  by (simp add: grouped_gemm_def Let_def expert_count_def group_start_end)

subsection \<open>The rank-local FFN\<close>

definition ffn_row :: "(f32 \<Rightarrow> f32) \<Rightarrow> u8 list \<Rightarrow> nat \<Rightarrow> f32 list \<Rightarrow> f32 list" where
  "ffn_row expf img e v =
     matvec img e Down (map2 (\<lambda>a b. f32_mul (silu expf a) b) (matvec img e Gate v) (matvec img e Up v))"

lemma length_ffn_row [simp]: "length (ffn_row expf img e v) = SLICE_HIDDEN"
  by (simp add: ffn_row_def)

lemma map2_concat:
  assumes "\<And>i. i \<in> set is \<Longrightarrow> length (a i) = length (b i)"
  shows "map2 f (concat (map a is)) (concat (map b is)) = concat (map (\<lambda>i. map2 f (a i) (b i)) is)"
  using assms by (induction "is") (simp_all add: zip_append)

lemma collect_pairs:
  assumes "length xs = length ys"
  shows "collect_results (\<lambda>i. obind (index_at xs i) (\<lambda>a. obind (index_at ys i) (\<lambda>b. Ok (f a b)))) [0..<length xs] = Ok (map2 f xs ys)"
proof -
  have "map2 f xs ys = map (\<lambda>i. f (xs ! i) (ys ! i)) [0..<length xs]"
    using assms by (intro nth_equalityI) auto
  then show ?thesis
    by (simp only:) (rule collect_results_all_Ok, simp add: index_at_def flip: assms)
qed

lemma ffn_value:
  assumes valid: "plan_validate plan = Ok ()" and x: "length x = total_tokens plan * SLICE_HIDDEN"
    and img: "\<forall>e \<in> set (row_experts plan). (e + 1) * QUARTER_SLICE_BYTES \<le> length img"
  shows "expert_ffn_self_contained expf img x plan NB_NONE = Ok
    \<lparr>go_data = concat (map (\<lambda>i. ffn_row expf img (row_experts plan ! i) (row_of SLICE_HIDDEN x i)) [0..<total_tokens plan]),
     go_out_rows = SLICE_HIDDEN\<rparr>"
proof -
  let ?e = "\<lambda>i. row_experts plan ! i" and ?x = "\<lambda>i. row_of SLICE_HIDDEN x i" and ?N = "[0..<total_tokens plan]"
  let ?h = "\<lambda>i. map2 (\<lambda>a b. f32_mul (silu expf a) b) (matvec img (?e i) Gate (?x i)) (matvec img (?e i) Up (?x i))"
  let ?R = "INTERMEDIATE div EP_RANKS"
  have gu: "grouped_gemm img x plan Gate NB_NONE = Ok \<lparr>go_data = concat (map (\<lambda>i. matvec img (?e i) Gate (?x i)) ?N), go_out_rows = ?R\<rparr>"
    "grouped_gemm img x plan Up NB_NONE = Ok \<lparr>go_data = concat (map (\<lambda>i. matvec img (?e i) Up (?x i)) ?N), go_out_rows = ?R\<rparr>"
    using grouped_gemm_value [OF valid _ img, where x = x and p = Gate] grouped_gemm_value [OF valid _ img, where x = x and p = Up] x
    by simp_all
  have pairs: "map2 (\<lambda>a b. f32_mul (silu expf a) b) (concat (map (\<lambda>i. matvec img (?e i) Gate (?x i)) ?N))
      (concat (map (\<lambda>i. matvec img (?e i) Up (?x i)) ?N)) = concat (map ?h ?N)"
    by (rule map2_concat) simp
  have same: "length (concat (map (\<lambda>i. matvec img (?e i) Gate (?x i)) ?N)) = length (concat (map (\<lambda>i. matvec img (?e i) Up (?x i)) ?N))"
    by (simp add: length_concat comp_def)
  have up: "gate_up expf img x plan NB_NONE = Ok \<lparr>go_data = concat (map ?h ?N), go_out_rows = ?R\<rparr>"
    unfolding gate_up_def gu obind.simps grouped_output.simps collect_pairs [OF same] pairs ..
  have rows: "row_of ?R (concat (map ?h ?N)) i = ?h i" if "i < total_tokens plan" for i
    using that take_drop_concat_uniform [of ?N ?h ?R i] by (simp add: row_of_def)
  have len: "length (concat (map ?h ?N)) = total_tokens plan * slice_in_cols Down" by (simp add: length_concat_uniform)
  have down: "map (\<lambda>i. matvec img (?e i) Down (row_of (slice_in_cols Down) (concat (map ?h ?N)) i)) ?N =
      map (\<lambda>i. ffn_row expf img (?e i) (?x i)) ?N"
    by (rule map_cong) (simp_all add: rows ffn_row_def)
  show ?thesis
    unfolding expert_ffn_self_contained_def up obind.simps grouped_output.simps grouped_gemm_value [OF valid len img] down
    by simp
qed

end
