(* ===== verification/RoutePlan.thy ===== *)
theory RoutePlan
  imports GroupedGemm Frame
begin

text \<open>
  The routing table of one request, \<open>crates/mimo26-spark/src/route.rs\<close>: the token-major route entries
  grouped by expert, every group padded up to the compiled tile sizes, the hidden rows replicated once per
  route, and the FFN output reduced back to one weighted sum per token. A product written with \<open>*\<close> on
  \<open>usize\<close> wraps.
\<close>

subsection \<open>Tiles\<close>

text \<open>\<open>while r >= tile { tiles.push(tile); r -= tile; }\<close>\<close>

function push_tiles :: "nat \<Rightarrow> nat list \<times> nat \<Rightarrow> nat list \<times> nat" where
  "push_tiles tile (tiles, r) = (if 0 < tile \<and> tile \<le> r then push_tiles tile (tiles @ [tile], r - tile) else (tiles, r))"
  by pat_completeness auto
termination by (relation "measure (\<lambda>(tile, tiles, r). r)") auto

declare push_tiles.simps [simp del]

definition tile_m :: "nat \<Rightarrow> nat list" where
  "tile_m real =
     (let (tiles, r) = push_tiles 16 (push_tiles 64 (push_tiles 256 ([], real)))
      in if 0 < r then tiles @ [16] else tiles)"

subsection \<open>The table\<close>

record route_plan =
  rp_plan :: grouped_plan
  rp_row_token :: "nat list"
  rp_row_weight :: "f32 list"
  rp_row_padded :: "nat list"
  rp_tokens :: nat

datatype route_error =
    RouteCount nat nat
  | RouteRowIndex nat u32 nat
  | RouteHidden nat nat
  | RouteFfnOut nat nat

text \<open>\<open>BTreeMap<u32, Vec<usize>>\<close>, as the list of its entries by ascending key;
  \<open>entry(k).or_default().push(v)\<close>.\<close>

fun btree_push :: "u32 \<Rightarrow> nat \<Rightarrow> (u32 \<times> nat list) list \<Rightarrow> (u32 \<times> nat list) list" where
  "btree_push k v [] = [(k, [v])]"
| "btree_push k v ((k', vs) # es) =
     (if k < k' then (k, [v]) # (k', vs) # es
      else if k = k' then (k', vs @ [v]) # es
      else (k', vs) # btree_push k v es)"

definition check_route :: "nat \<times> route_entry \<Rightarrow> (unit, route_error) outcome" where
  "check_route = (\<lambda>(slot, r).
     let token = slot div 8 in
     if unat (re_row_index r) \<noteq> token then Err (RouteRowIndex slot (re_row_index r) token) else Ok ())"

definition by_expert :: "route_entry list \<Rightarrow> (u32 \<times> nat list) list" where
  "by_expert routes = foldl (\<lambda>m (slot, r). btree_push (re_expert_id r) slot m) [] (enumerate 0 routes)"

record route_build =
  rb_groups :: "expert_group list"
  rb_row_token :: "nat list"
  rb_row_weight :: "f32 list"
  rb_row_padded :: "nat list"
  rb_running :: nat

definition push_group :: "u32 \<Rightarrow> route_build \<Rightarrow> nat \<Rightarrow> route_build" where
  "push_group expert b tile =
     b\<lparr>rb_groups := rb_groups b @ [\<lparr>eg_expert = unat expert, eg_tokens = tile, eg_token_offset = rb_running b\<rparr>],
       rb_running := rb_running b + tile\<rparr>"

definition push_row :: "route_entry list \<Rightarrow> nat \<Rightarrow> route_build \<Rightarrow> nat \<times> nat \<Rightarrow> (route_build, route_error) outcome" where
  "push_row routes start b js =
     (case js of (j, slot) \<Rightarrow>
      obind (index_at routes slot) (\<lambda>r.
      Ok (b\<lparr>rb_row_token := rb_row_token b @ [slot div 8],
            rb_row_weight := rb_row_weight b @ [re_gate_weight r],
            rb_row_padded := rb_row_padded b @ [start + j]\<rparr>)))"

definition push_expert :: "route_entry list \<Rightarrow> route_build \<Rightarrow> u32 \<times> nat list \<Rightarrow> (route_build, route_error) outcome" where
  "push_expert routes b e =
     (case e of (expert, slots) \<Rightarrow>
      let tiles = tile_m (length slots); start = rb_running b;
          b = foldl (push_group expert) b tiles
      in fold_results (push_row routes start) b (enumerate 0 slots))"

definition from_routes :: "route_entry list \<Rightarrow> nat \<Rightarrow> (route_plan, route_error) outcome" where
  "from_routes routes tokens =
     (if length routes \<noteq> tokens * 8 mod 2 ^ 64 then Err (RouteCount (length routes) tokens)
      else obind (check_all check_route (enumerate 0 routes)) (\<lambda>_.
        obind (fold_results (push_expert routes)
          \<lparr>rb_groups = [], rb_row_token = [], rb_row_weight = [], rb_row_padded = [], rb_running = 0\<rparr>
          (by_expert routes)) (\<lambda>b.
        Ok \<lparr>rp_plan = \<lparr>gp_groups = rb_groups b, gp_padded = 0\<rparr>, rp_row_token = rb_row_token b,
            rp_row_weight = rb_row_weight b, rp_row_padded = rb_row_padded b, rp_tokens = tokens\<rparr>)))"

definition routed_rows :: "route_plan \<Rightarrow> nat" where
  "routed_rows rp = length (rp_row_token rp)"

definition padded_rows :: "route_plan \<Rightarrow> nat" where
  "padded_rows rp = total_tokens (rp_plan rp)"

definition replicate_x :: "route_plan \<Rightarrow> f32 list \<Rightarrow> (f32 list, route_error) outcome" where
  "replicate_x rp hidden =
     (if length hidden \<noteq> rp_tokens rp * SLICE_HIDDEN mod 2 ^ 64 then Err (RouteHidden (length hidden) (rp_tokens rp))
      else fold_results (\<lambda>x (token, padded).
          obind (subslice hidden (token * SLICE_HIDDEN) ((token + 1) * SLICE_HIDDEN)) (\<lambda>src.
          write_at (padded * SLICE_HIDDEN) src x))
        (replicate (padded_rows rp * SLICE_HIDDEN) 0) (zip (rp_row_token rp) (rp_row_padded rp)))"

text \<open>One route: \<open>out[token * HIDDEN + h] += ffn_out[padded * HIDDEN + h] * w\<close> for every \<open>h\<close>.\<close>

definition reduce_row :: "f32 list \<Rightarrow> f32 list \<Rightarrow> nat \<times> f32 \<times> nat \<Rightarrow> (f32 list, route_error) outcome" where
  "reduce_row ffn_out out e =
     (case e of (token, w, padded) \<Rightarrow>
      fold_results (\<lambda>out h.
        obind (index_at ffn_out (padded * SLICE_HIDDEN + h)) (\<lambda>y.
        obind (index_at out (token * SLICE_HIDDEN + h)) (\<lambda>o1.
        Ok (out[token * SLICE_HIDDEN + h := f32_add o1 (f32_mul y w)])))) out [0..<SLICE_HIDDEN])"

definition reduce :: "route_plan \<Rightarrow> f32 list \<Rightarrow> (f32 list, route_error) outcome" where
  "reduce rp ffn_out =
     (if length ffn_out \<noteq> padded_rows rp * SLICE_HIDDEN then Err (RouteFfnOut (length ffn_out) (padded_rows rp))
      else fold_results (reduce_row ffn_out) (replicate (rp_tokens rp * SLICE_HIDDEN) 0)
        (zip (rp_row_token rp) (zip (rp_row_weight rp) (rp_row_padded rp))))"

text \<open>\<open>sort_by_key\<close> is stable, and so is \<open>sort_key\<close>. The padded index becomes an \<open>i32\<close>.\<close>

definition token_major_routes :: "route_plan \<Rightarrow> u32 list \<times> f32 list" where
  "token_major_routes rp =
     (let order = sort_key (\<lambda>i. rp_row_token rp ! i) [0..<length (rp_row_token rp)] in
      (map (\<lambda>i. of_nat (rp_row_padded rp ! i)) order, map (\<lambda>i. rp_row_weight rp ! i) order))"

end
