(* ===== verification/RouteTable.thy ===== *)
theory RouteTable
  imports RoutePlan "HOL-Library.Multiset"
begin

text \<open>
  The table \<open>RoutePlan::from_routes\<close> builds, in closed form: the tiles of a count, the routes by
  expert as a stable sort, and for every route its padded row, which lies in a tile of its expert.
\<close>

subsection \<open>Tiles\<close>

lemma push_tiles_eq:
  "0 < tile \<Longrightarrow> push_tiles tile (ts, r) = (ts @ replicate (r div tile) tile, r mod tile)"
proof (induction tile "(ts, r)" arbitrary: ts r rule: push_tiles.induct)
  case (1 tile ts r)
  show ?case
  proof (cases "tile \<le> r")
    case True
    then have "r div tile = Suc ((r - tile) div tile)" "(r - tile) mod tile = r mod tile"
      using 1 by (simp_all add: le_div_geq le_mod_geq)
    with 1 True show ?thesis by (subst push_tiles.simps) (simp add: replicate_app_Cons_same)
  next
    case False
    then show ?thesis by (subst push_tiles.simps) simp
  qed
qed

lemma tile_m_eq:
  "tile_m n = replicate (n div 256) 256 @ replicate (n mod 256 div 64) 64 @ replicate (n mod 64 div 16) 16 @
     (if 0 < n mod 16 then [16] else [])"
  by (simp add: tile_m_def push_tiles_eq Let_def mod_mod_cancel)

definition tile_rows :: "nat \<Rightarrow> nat" where
  "tile_rows n = 16 * ((n + 15) div 16)"

lemma sum_tile_m: "sum_list (tile_m n) = tile_rows n"
proof -
  have a: "n = n div 256 * 256 + n mod 256" by simp
  have b: "n mod 256 = n mod 256 div 64 * 64 + n mod 64" using div_mult_mod_eq [of "n mod 256" 64] by (simp add: mod_mod_cancel)
  have c: "n mod 64 = n mod 64 div 16 * 16 + n mod 16" using div_mult_mod_eq [of "n mod 64" 16] by (simp add: mod_mod_cancel)
  have "n = (x * 16 + y * 4 + z) * 16 + r" if "n = x * 256 + m" "m = y * 64 + k" "k = z * 16 + r" for x y z m k r
    using that by simp
  from this [OF a b c] have "n = (n div 256 * 16 + n mod 256 div 64 * 4 + n mod 64 div 16) * 16 + n mod 16" .
  then obtain q r where n: "n = q * 16 + r" "r = n mod 16" "q = n div 256 * 16 + n mod 256 div 64 * 4 + n mod 64 div 16"
    by blast
  have "r < 16" using n(2) by simp
  then have "n + 15 = (q + (if 0 < r then 1 else 0)) * 16 + (if 0 < r then r - 1 else 15)"
    "(if 0 < r then r - 1 else 15) < 16" by (auto simp: n(1))
  moreover have "(a * 16 + b) div 16 = a" if "b < 16" for a b :: nat using that by simp
  ultimately have "(n + 15) div 16 = q + (if 0 < r then 1 else 0)" by metis
  then have "tile_rows n = 16 * (q + (if 0 < r then 1 else 0))" by (simp add: tile_rows_def)
  then show ?thesis unfolding tile_m_eq by (simp add: sum_list_replicate n(3) flip: n(2))
qed

lemma tile_rows_bounds: "n \<le> tile_rows n" "tile_rows n < n + 16"
  by (simp_all add: tile_rows_def)

lemma set_tile_m: "t \<in> set (tile_m n) \<Longrightarrow> t \<in> set M_SIZES"
  by (auto simp: tile_m_eq M_SIZES_def split: if_splits)

subsection \<open>Routes by expert\<close>

lemma btree_push_inv:
  assumes "sorted_wrt (<) (map fst m)" "\<forall>(k', vs) \<in> set m. vs = G k'" "k \<notin> fst ` set m \<Longrightarrow> G k = []"
  shows "sorted_wrt (<) (map fst (btree_push k v m)) \<and> fst ` set (btree_push k v m) = insert k (fst ` set m) \<and>
    (\<forall>(k', vs) \<in> set (btree_push k v m). vs = (G(k := G k @ [v])) k')"
  using assms
proof (induction m)
  case (Cons e es)
  obtain k' vs where e: "e = (k', vs)" by force
  consider "k < k'" | "k = k'" | "k' < k" by (meson linorder_less_linear)
  then show ?case
  proof cases
    case 1
    then have "k \<notin> fst ` set (e # es)" using Cons.prems(1) e by (auto dest: less_trans)
    with Cons.prems 1 e show ?thesis by (force dest: less_trans)
  next
    case 2
    have "k'' \<noteq> k" if "(k'', ws) \<in> set es" for k'' ws using Cons.prems(1) e 2 that by force
    then show ?thesis using Cons.prems(1,2) e 2 by auto
  next
    case 3
    have "k \<notin> fst ` set es \<Longrightarrow> G k = []" using Cons.prems(3) 3 e by auto
    with Cons 3 e show ?thesis by auto
  qed
qed simp

lemma by_expert_inv:
  fixes routes :: "route_entry list"
  defines "f \<equiv> \<lambda>s. re_expert_id (routes ! s)"
  shows "sorted_wrt (<) (map fst (by_expert routes))"
    "(k, vs) \<in> set (by_expert routes) \<Longrightarrow> vs = filter (\<lambda>s. f s = k) [0..<length routes]"
    "fst ` set (by_expert routes) = f ` {..<length routes}"
proof -
  let ?m = "\<lambda>n. foldl (\<lambda>m s. btree_push (f s) s m) [] [0..<n]"
  have inv: "sorted_wrt (<) (map fst (?m n)) \<and> (\<forall>(k, vs) \<in> set (?m n). vs = filter (\<lambda>s. f s = k) [0..<n]) \<and>
      fst ` set (?m n) = f ` {..<n}" for n
  proof (induction n)
    case (Suc n)
    have "f n \<notin> fst ` set (?m n) \<Longrightarrow> filter (\<lambda>s. f s = f n) [0..<n] = []"
      using Suc by (auto simp: filter_empty_conv) (metis imageI lessThan_iff)
    then show ?case
      using btree_push_inv [where v = n and m = "?m n" and k = "f n" and G = "\<lambda>k. filter (\<lambda>s. f s = k) [0..<n]"] Suc
      by (auto simp: lessThan_Suc)
  qed simp
  have "enumerate 0 routes = map (\<lambda>s. (s, routes ! s)) [0..<length routes]"
    by (rule nth_equalityI) (simp_all add: nth_enumerate_eq)
  then have "by_expert routes = ?m (length routes)" by (simp add: by_expert_def foldl_map f_def)
  then show "sorted_wrt (<) (map fst (by_expert routes))"
    "(k, vs) \<in> set (by_expert routes) \<Longrightarrow> vs = filter (\<lambda>s. f s = k) [0..<length routes]"
    "fst ` set (by_expert routes) = f ` {..<length routes}"
    using inv [of "length routes"] by auto
qed

text \<open>Buckets of equal keys, in key order, are the stable sort by key.\<close>

lemma filter_buckets:
  "distinct (map fst m) \<Longrightarrow> \<forall>(k', vs) \<in> set m. vs = filter (\<lambda>s. f s = k') xs \<Longrightarrow>
   filter (\<lambda>s. f s = k) (concat (map snd m)) = (if k \<in> fst ` set m then filter (\<lambda>s. f s = k) xs else [])"
proof (induction m)
  case (Cons e m)
  obtain k' where e: "e = (k', filter (\<lambda>s. f s = k') xs)" using Cons.prems(2) by (cases e) auto
  have "filter (\<lambda>s. f s = k) (filter (\<lambda>s. f s = k') xs) = (if k = k' then filter (\<lambda>s. f s = k) xs else [])"
    by (auto simp: filter_empty_conv)
  with Cons e show ?case by auto
qed simp

lemma sorted_buckets:
  "sorted_wrt (<) (map fst m) \<Longrightarrow> \<forall>(k', vs) \<in> set m. \<forall>s \<in> set vs. f s = (k' :: 'a::linorder) \<Longrightarrow>
   sorted (map f (concat (map snd m)))"
proof (induction m)
  case (Cons e m)
  obtain k' vs where e: "e = (k', vs)" by force
  have "sorted (map f vs)" using Cons.prems(2) e by (auto simp: sorted_iff_nth_mono)
  moreover have "f s \<le> f s'" if "s \<in> set vs" "(k, ws) \<in> set m" "s' \<in> set ws" for s k ws s'
  proof -
    have "f s = k'" "f s' = k" "k' < k" using Cons.prems e that by force+
    then show ?thesis by simp
  qed
  ultimately show ?case using Cons e by (fastforce simp: sorted_append)
qed simp

text \<open>Read in key order, the entries are the slots sorted stably by expert.\<close>

lemma by_expert_sorted:
  "concat (map snd (by_expert routes)) = sort_key (\<lambda>s. re_expert_id (routes ! s)) [0..<length routes]"
proof (rule sym, rule properties_for_sort_key)
  let ?f = "\<lambda>s. re_expert_id (routes ! s)" and ?m = "by_expert routes" and ?xs = "[0..<length routes]"
  note inv = by_expert_inv [where routes = routes]
  have d: "distinct (map fst ?m)" using inv(1) by (simp add: strict_sorted_iff)
  have b: "\<forall>(k', vs) \<in> set ?m. vs = filter (\<lambda>s. ?f s = k') ?xs" using inv(2) by blast
  have filt: "filter (\<lambda>s. ?f s = k) (concat (map snd ?m)) = filter (\<lambda>s. ?f s = k) ?xs" for k
    unfolding filter_buckets [OF d b] inv(3) by (auto intro!: filter_False [symmetric])
  show "sorted (map ?f (concat (map snd ?m)))" by (rule sorted_buckets [OF inv(1)]) (use b in auto)
  show "mset (concat (map snd ?m)) = mset ?xs"
  proof (rule multiset_eqI)
    fix s
    have "count (mset zs) s = count (mset (filter (\<lambda>s'. ?f s' = ?f s) zs)) s" for zs by simp
    then show "count (mset (concat (map snd ?m))) s = count (mset ?xs) s" by (metis filt)
  qed
  show "filter (\<lambda>s. ?f k = ?f s) (concat (map snd ?m)) = filter (\<lambda>s. ?f k = ?f s) ?xs" for k
    using filt [of "?f k"] by (simp only: eq_commute)
qed

subsection \<open>The table that is built\<close>

fun tile_groups :: "nat \<Rightarrow> nat \<Rightarrow> nat list \<Rightarrow> expert_group list" where
  "tile_groups e run [] = []"
| "tile_groups e run (t # ts) = \<lparr>eg_expert = e, eg_tokens = t, eg_token_offset = run\<rparr> # tile_groups e (run + t) ts"

fun table_groups :: "nat \<Rightarrow> (u32 \<times> nat list) list \<Rightarrow> expert_group list" where
  "table_groups run [] = []"
| "table_groups run ((k, vs) # es) = tile_groups (unat k) run (tile_m (length vs)) @ table_groups (run + tile_rows (length vs)) es"

fun table_padded :: "nat \<Rightarrow> (u32 \<times> nat list) list \<Rightarrow> nat list" where
  "table_padded run [] = []"
| "table_padded run ((k, vs) # es) = [run..<run + length vs] @ table_padded (run + tile_rows (length vs)) es"

definition table_rows :: "(u32 \<times> nat list) list \<Rightarrow> nat" where
  "table_rows es = sum_list (map (\<lambda>(k, vs). tile_rows (length vs)) es)"

lemma push_groups:
  "foldl (push_group e) b ts = b\<lparr>rb_groups := rb_groups b @ tile_groups (unat e) (rb_running b) ts,
     rb_running := rb_running b + sum_list ts\<rparr>"
  by (induction ts arbitrary: b) (simp_all add: push_group_def)

lemma push_rows:
  "\<forall>s \<in> set vs. s < length routes \<Longrightarrow>
   fold_results (push_row routes start) b (enumerate j vs) =
     Ok (b\<lparr>rb_row_token := rb_row_token b @ map (\<lambda>s. s div 8) vs,
           rb_row_weight := rb_row_weight b @ map (\<lambda>s. re_gate_weight (routes ! s)) vs,
           rb_row_padded := rb_row_padded b @ [start + j..<start + j + length vs]\<rparr>)"
proof (induction vs arbitrary: b j)
  case (Cons s vs)
  have "[start + j..<start + j + length (s # vs)] = (start + j) # [start + Suc j..<start + Suc j + length vs]"
    by (simp add: upt_rec)
  with Cons show ?case by (simp add: push_row_def index_at_def)
qed simp

lemma build_table:
  "\<forall>(k, vs) \<in> set es. \<forall>s \<in> set vs. s < length routes \<Longrightarrow>
   fold_results (push_expert routes) b es =
     Ok (b\<lparr>rb_groups := rb_groups b @ table_groups (rb_running b) es,
           rb_row_token := rb_row_token b @ map (\<lambda>s. s div 8) (concat (map snd es)),
           rb_row_weight := rb_row_weight b @ map (\<lambda>s. re_gate_weight (routes ! s)) (concat (map snd es)),
           rb_row_padded := rb_row_padded b @ table_padded (rb_running b) es,
           rb_running := rb_running b + table_rows es\<rparr>)"
proof (induction es arbitrary: b)
  case Nil
  then show ?case by (simp add: table_rows_def)
next
  case (Cons e es)
  obtain k vs where e: "e = (k, vs)" by force
  with Cons show ?case
    by (simp add: push_expert_def Let_def push_groups push_rows [where j = 0, simplified] sum_tile_m table_rows_def add.assoc)
qed

text \<open>The expert of every padded row: a real row lies in a tile of its expert.\<close>

lemma tile_groups_rows:
  "concat (map (\<lambda>g. replicate (eg_tokens g) (eg_expert g)) (tile_groups e run ts)) = replicate (sum_list ts) e"
  by (induction ts arbitrary: run) (simp_all add: replicate_add)

lemma table_row_experts:
  "concat (map (\<lambda>g. replicate (eg_tokens g) (eg_expert g)) (table_groups run es)) =
     concat (map (\<lambda>(k, vs). replicate (tile_rows (length vs)) (unat k)) es)"
  by (induction run es rule: table_groups.induct) (simp_all add: tile_groups_rows sum_tile_m)

lemma table_padded_experts:
  "list_all2 (\<lambda>p k. run \<le> p \<and> p < run + table_rows es \<and>
      concat (map (\<lambda>(k, vs). replicate (tile_rows (length vs)) (unat k)) es) ! (p - run) = unat k)
    (table_padded run es) (concat (map (\<lambda>(k, vs). replicate (length vs) k) es))"
proof (induction run es rule: table_padded.induct)
  case (2 run k vs es)
  let ?n = "tile_rows (length vs)"
  have n: "length vs \<le> ?n" by (rule tile_rows_bounds)
  have "list_all2 (\<lambda>p k'. run \<le> p \<and> p < run + (?n + table_rows es) \<and>
      (replicate ?n (unat k) @ concat (map (\<lambda>(k, vs). replicate (tile_rows (length vs)) (unat k)) es)) ! (p - run) = unat k')
    [run..<run + length vs] (replicate (length vs) k)"
    using n by (simp add: list_all2_conv_all_nth nth_append)
  moreover have "list_all2 (\<lambda>p k'. run \<le> p \<and> p < run + (?n + table_rows es) \<and>
      (replicate ?n (unat k) @ concat (map (\<lambda>(k, vs). replicate (tile_rows (length vs)) (unat k)) es)) ! (p - run) = unat k')
    (table_padded (run + ?n) es) (concat (map (\<lambda>(k, vs). replicate (length vs) k) es))"
    by (rule list_all2_mono [OF 2]) (auto simp: nth_append)
  ultimately show ?case by (simp add: table_rows_def list_all2_appendI)
qed simp

lemma table_padded_sorted:
  "sorted_wrt (<) (table_padded run es) \<and> (\<forall>p \<in> set (table_padded run es). run \<le> p)"
proof (induction run es rule: table_padded.induct)
  case (2 run k vs es)
  have "length vs \<le> tile_rows (length vs)" by (rule tile_rows_bounds)
  with 2 show ?case by (force simp: sorted_wrt_append)
qed simp

lemma tile_groups_valid:
  "e < EXPERTS_PER_LAYER \<Longrightarrow> set ts \<subseteq> set M_SIZES \<Longrightarrow>
   validate_groups i run (tile_groups e run ts @ gs) = validate_groups (i + length ts) (run + sum_list ts) gs"
  by (induction ts arbitrary: i run) (simp_all add: check_expert_def add.assoc)

lemma table_groups_valid:
  "\<forall>(k, vs) \<in> set es. unat k < EXPERTS_PER_LAYER \<Longrightarrow> validate_groups i run (table_groups run es) = Ok ()"
proof (induction run es arbitrary: i rule: table_groups.induct)
  case (2 run k vs es)
  have "set (tile_m (length vs)) \<subseteq> set M_SIZES" using set_tile_m by blast
  with 2 show ?case
    using tile_groups_valid [of "unat k" "tile_m (length vs)" i run] by (simp add: sum_tile_m)
qed simp

text \<open>The routes a request must have, and the table it gives.\<close>

definition routes_ok :: "route_entry list \<Rightarrow> nat \<Rightarrow> bool" where
  "routes_ok routes tokens \<longleftrightarrow>
     length routes = tokens * 8 \<and> tokens * SLICE_HIDDEN < 2 ^ 64 \<and>
     (\<forall>s < length routes. unat (re_row_index (routes ! s)) = s div 8)"

definition route_order :: "route_entry list \<Rightarrow> nat list" where
  "route_order routes = sort_key (\<lambda>s. re_expert_id (routes ! s)) [0..<length routes]"

definition route_table :: "route_entry list \<Rightarrow> nat \<Rightarrow> route_plan" where
  "route_table routes tokens =
     \<lparr>rp_plan = \<lparr>gp_groups = table_groups 0 (by_expert routes), gp_padded = 0\<rparr>,
      rp_row_token = map (\<lambda>s. s div 8) (route_order routes),
      rp_row_weight = map (\<lambda>s. re_gate_weight (routes ! s)) (route_order routes),
      rp_row_padded = table_padded 0 (by_expert routes), rp_tokens = tokens\<rparr>"

lemma by_expert_slots: "(k, vs) \<in> set (by_expert routes) \<Longrightarrow> s \<in> set vs \<Longrightarrow> s < length routes"
  using by_expert_inv(2) [of k vs routes] by simp

lemma built_table:
  "fold_results (push_expert routes)
     \<lparr>rb_groups = [], rb_row_token = [], rb_row_weight = [], rb_row_padded = [], rb_running = 0\<rparr> (by_expert routes) =
   Ok \<lparr>rb_groups = table_groups 0 (by_expert routes), rb_row_token = map (\<lambda>s. s div 8) (route_order routes),
       rb_row_weight = map (\<lambda>s. re_gate_weight (routes ! s)) (route_order routes),
       rb_row_padded = table_padded 0 (by_expert routes), rb_running = table_rows (by_expert routes)\<rparr>"
proof -
  have "\<forall>(k, vs) \<in> set (by_expert routes). \<forall>s \<in> set vs. s < length routes" using by_expert_slots by blast
  from build_table [OF this] show ?thesis by (simp add: route_order_def by_expert_sorted)
qed

lemma from_routes_Ok:
  assumes "from_routes routes tokens = Ok rp"
  shows "rp = route_table routes tokens"
  using assms by (auto simp: from_routes_def outcome_simps built_table route_table_def split: if_splits)

lemma from_routes_table:
  assumes "routes_ok routes tokens"
  shows "from_routes routes tokens = Ok (route_table routes tokens)"
proof -
  have "tokens * 8 < 2 ^ 64" using assms by (simp add: routes_ok_def SLICE_HIDDEN_def)
  moreover have "check_all check_route (enumerate 0 routes) = Ok ()"
    using assms by (auto simp: check_all_eq_Ok check_route_def routes_ok_def in_set_enumerate_eq)
  ultimately show ?thesis
    using assms by (simp add: from_routes_def routes_ok_def built_table route_table_def)
qed

lemma padded_rows_table: "padded_rows (route_table routes tokens) = table_rows (by_expert routes)"
proof -
  let ?p = "\<lparr>gp_groups = table_groups 0 (by_expert routes), gp_padded = 0\<rparr>"
  have "total_tokens ?p = length (row_experts ?p)" by (rule length_row_experts [symmetric])
  also have "\<dots> = table_rows (by_expert routes)"
    by (simp add: row_experts_def table_row_experts length_concat comp_def table_rows_def case_prod_unfold)
  finally show ?thesis by (simp add: padded_rows_def route_table_def)
qed

text \<open>The padded row of the \<open>i\<close>-th route in table order belongs to that route's expert.\<close>

lemma table_slots:
  "list_all2 (\<lambda>p s. p < table_rows (by_expert routes) \<and>
      row_experts (rp_plan (route_table routes tokens)) ! p = unat (re_expert_id (routes ! s)))
    (table_padded 0 (by_expert routes)) (route_order routes)"
proof -
  let ?es = "by_expert routes"
  have "map (\<lambda>s. re_expert_id (routes ! s)) vs = replicate (length vs) k" if "(k, vs) \<in> set ?es" for k vs
  proof -
    have "map (\<lambda>s. re_expert_id (routes ! s)) vs = map (\<lambda>_. k) vs" using by_expert_inv(2) [OF that] by simp
    then show ?thesis by (simp add: map_replicate_const)
  qed
  then have "map (\<lambda>s. re_expert_id (routes ! s)) (concat (map snd ?es)) = concat (map (\<lambda>(k, vs). replicate (length vs) k) ?es)"
    by (auto simp: map_concat intro!: arg_cong [where f = concat])
  then show ?thesis
    using table_padded_experts [of 0 ?es]
    by (simp add: route_order_def route_table_def row_experts_def table_row_experts list_all2_conv_all_nth flip: by_expert_sorted)
      (metis length_map nth_map)
qed

end
