(* ===== verification/RouteMixture.thy ===== *)
theory RouteMixture
  imports RouteTable
begin

text \<open>
  What the routing table is worth: padding costs fewer than 16 rows per expert, and running the grouped
  FFN over the replicated rows and reducing gives every token the weighted sum of its own eight experts'
  outputs, added in the order of the expert ids (route order among equal ones).
\<close>

subsection \<open>Rows in, rows out\<close>

lemma row_of_nth: "h < w \<Longrightarrow> (i + 1) * w \<le> length xs \<Longrightarrow> row_of w xs i ! h = xs ! (i * w + h)"
  by (simp add: row_of_def)

lemma row_of_concat:
  "(\<And>i. i < n \<Longrightarrow> length (f i) = w) \<Longrightarrow> p < n \<Longrightarrow> row_of w (concat (map f [0..<n])) p = f p"
  using take_drop_concat_uniform [of "[0..<n]" f w p] by (simp add: row_of_def)

lemma row_of_write:
  assumes "(p + 1) * w \<le> length x" "length v = w" "write_at (p * w) v x = Ok y"
  shows "length y = length x" "row_of w y q = (if q = p then v else row_of w x q)"
proof -
  have fit: "p * w + length v \<le> length x" using assms(1,2) by simp
  then have y: "y = put_bytes (p * w) v x" using assms(3) by (simp add: write_at_def put_bytes_def)
  then show "length y = length x" using fit by simp
  consider "q = p" | "q < p" | "p < q" by linarith
  then show "row_of w y q = (if q = p then v else row_of w x q)"
  proof cases
    case 1
    then show ?thesis using fit y assms(2) by (simp add: row_of_def take_drop_put_same)
  next
    case 2
    then have "(q + 1) * w \<le> p * w" by (intro mult_right_mono) simp_all
    then show ?thesis using 2 fit y by (simp add: row_of_def take_drop_put_before)
  next
    case 3
    then have "(p + 1) * w \<le> q * w" by (intro mult_right_mono) simp_all
    then show ?thesis using 3 fit y assms(2) by (simp add: row_of_def take_drop_put_after)
  qed
qed

lemma place_rows:
  fixes hidden x :: "'a list"
  assumes "\<forall>(t, p) \<in> set tps. t < T \<and> p < P" "distinct (map snd tps)"
    "length hidden = T * w" "length x = P * w"
  shows "\<exists>y. fold_results (\<lambda>x (token, padded).
      obind (subslice hidden (token * w) ((token + 1) * w)) (\<lambda>src. write_at (padded * w) src x)) x tps = (Ok y :: ('a list, 'e) outcome) \<and>
    length y = P * w \<and> (\<forall>(t, p) \<in> set tps. row_of w y p = row_of w hidden t) \<and>
    (\<forall>p. p \<notin> snd ` set tps \<longrightarrow> row_of w y p = row_of w x p)"
  using assms
proof (induction tps arbitrary: x)
  case (Cons e tps)
  obtain t p where e: "e = (t, p)" by force
  have fit: "(t + 1) * w \<le> length hidden" "(p + 1) * w \<le> length x"
    using Cons.prems e row_fits [of t T w] row_fits [of p P w] by auto
  note v = length_row_of [OF fit(1)]
  obtain x1 where x1: "write_at (p * w) (row_of w hidden t) x = (Ok x1 :: ('a list, 'e) outcome)"
    using fit(2) v by (simp add: write_at_def)
  note w = row_of_write [OF fit(2) v x1]
  obtain y where y: "fold_results (\<lambda>x (token, padded).
      obind (subslice hidden (token * w) ((token + 1) * w)) (\<lambda>src. write_at (padded * w) src x)) x1 tps = (Ok y :: ('a list, 'e) outcome)"
    "length y = P * w" "\<forall>(t, p) \<in> set tps. row_of w y p = row_of w hidden t"
    "\<forall>p. p \<notin> snd ` set tps \<longrightarrow> row_of w y p = row_of w x1 p"
    using Cons.IH [of x1] Cons.prems w(1) e by auto
  have "row_of w y p = row_of w hidden t" using y(4) w(2) [of p] Cons.prems(2) e by simp
  then show ?case
    using y w(2) e by (intro exI [of _ y]) (auto simp: subslice_row [OF fit(1), simplified] x1 [simplified])
qed simp

lemma reduce_row_cells:
  assumes "(t + 1) * SLICE_HIDDEN \<le> length out" "(p + 1) * SLICE_HIDDEN \<le> length ffn"
  shows "\<exists>out'. reduce_row ffn out (t, w, p) = Ok out' \<and> length out' = length out \<and>
    (\<forall>j < length out. out' ! j =
       (if t * SLICE_HIDDEN \<le> j \<and> j < (t + 1) * SLICE_HIDDEN
        then f32_add (out ! j) (f32_mul (ffn ! (p * SLICE_HIDDEN + (j - t * SLICE_HIDDEN))) w) else out ! j))"
proof -
  let ?f = "\<lambda>out h. obind (index_at ffn (p * SLICE_HIDDEN + h)) (\<lambda>y. obind (index_at out (t * SLICE_HIDDEN + h)) (\<lambda>o1.
      Ok (out[t * SLICE_HIDDEN + h := f32_add o1 (f32_mul y w)])))"
  have "\<exists>out'. fold_results ?f out [0..<n] = (Ok out' :: (f32 list, route_error) outcome) \<and> length out' = length out \<and>
      (\<forall>j < length out. out' ! j = (if t * SLICE_HIDDEN \<le> j \<and> j < t * SLICE_HIDDEN + n
         then f32_add (out ! j) (f32_mul (ffn ! (p * SLICE_HIDDEN + (j - t * SLICE_HIDDEN))) w) else out ! j))"
    if "n \<le> SLICE_HIDDEN" for n
    using that
  proof (induction n)
    case (Suc n)
    then obtain o' where o': "fold_results ?f out [0..<n] = (Ok o' :: (f32 list, route_error) outcome)" "length o' = length out"
      "\<forall>j < length out. o' ! j = (if t * SLICE_HIDDEN \<le> j \<and> j < t * SLICE_HIDDEN + n
         then f32_add (out ! j) (f32_mul (ffn ! (p * SLICE_HIDDEN + (j - t * SLICE_HIDDEN))) w) else out ! j)" by auto
    have "p * SLICE_HIDDEN + n < length ffn" "t * SLICE_HIDDEN + n < length out" using assms Suc.prems by simp_all
    with o' show ?case by (auto simp: fold_results_append index_at_def nth_list_update)
  next
    case 0
    then show ?case by simp (meson leD)
  qed
  from this [OF order_refl] show ?thesis by (simp add: reduce_row_def add.commute)
qed

lemma reduce_rows:
  assumes "\<forall>(t, w, p) \<in> set es. t < T \<and> p < P" "length out = T * SLICE_HIDDEN" "length ffn = P * SLICE_HIDDEN"
  shows "\<exists>out'. fold_results (reduce_row ffn) out es = Ok out' \<and> length out' = length out \<and>
    (\<forall>t < T. \<forall>h < SLICE_HIDDEN. out' ! (t * SLICE_HIDDEN + h) =
       foldl (\<lambda>acc (t, w, p). f32_add acc (f32_mul (ffn ! (p * SLICE_HIDDEN + h)) w)) (out ! (t * SLICE_HIDDEN + h))
         (filter (\<lambda>e. fst e = t) es))"
  using assms(1,2)
proof (induction es arbitrary: out)
  case (Cons e es)
  obtain t w p where e: "e = (t, w, p)" by (cases e)
  have "(t + 1) * SLICE_HIDDEN \<le> length out" "(p + 1) * SLICE_HIDDEN \<le> length ffn"
    using Cons.prems e assms(3) row_fits [of t T SLICE_HIDDEN] row_fits [of p P SLICE_HIDDEN] by auto
  then obtain o1 where o1: "reduce_row ffn out e = Ok o1" "length o1 = length out"
    "\<forall>j < length out. o1 ! j = (if t * SLICE_HIDDEN \<le> j \<and> j < (t + 1) * SLICE_HIDDEN
      then f32_add (out ! j) (f32_mul (ffn ! (p * SLICE_HIDDEN + (j - t * SLICE_HIDDEN))) w) else out ! j)"
    using reduce_row_cells e by blast
  have cell: "o1 ! (t' * SLICE_HIDDEN + h) = (if t' = t then f32_add (out ! (t' * SLICE_HIDDEN + h))
      (f32_mul (ffn ! (p * SLICE_HIDDEN + h)) w) else out ! (t' * SLICE_HIDDEN + h))"
    if "t' < T" "h < SLICE_HIDDEN" for t' h
  proof -
    have "t' * SLICE_HIDDEN + h < length out" using that Cons.prems(2) row_fits [of t' T SLICE_HIDDEN] by fastforce
    moreover have "t' < t \<Longrightarrow> (t' + 1) * SLICE_HIDDEN \<le> t * SLICE_HIDDEN" "t < t' \<Longrightarrow> (t + 1) * SLICE_HIDDEN \<le> t' * SLICE_HIDDEN"
      by (intro mult_right_mono; simp)+
    ultimately show ?thesis using o1(3) that(2) by (cases t' t rule: linorder_cases) auto
  qed
  show ?case using Cons.IH [of o1] Cons.prems o1(1,2) e by (auto simp: cell)
qed simp

subsection \<open>Properties\<close>

lemma card_by_expert: "length (by_expert routes) = card (re_expert_id ` set routes)"
proof -
  have "distinct (map fst (by_expert routes))" using by_expert_inv(1) [of routes] by (simp add: strict_sorted_iff)
  then have "length (by_expert routes) = card (fst ` set (by_expert routes))" by (metis distinct_card length_map list.set_map)
  also have "fst ` set (by_expert routes) = re_expert_id ` set routes"
    unfolding by_expert_inv(3) by (auto simp: set_conv_nth)
  finally show ?thesis .
qed

lemma table_rows_bounds:
  "length (concat (map snd es)) \<le> table_rows es" "table_rows es \<le> length (concat (map snd es)) + 15 * length es"
proof (induction es)
  case (Cons e es)
  case 1 show ?case using Cons.IH tile_rows_bounds [of "length (snd e)"] by (simp add: table_rows_def case_prod_unfold)
  case 2 show ?case using Cons.IH tile_rows_bounds [of "length (snd e)"] by (simp add: table_rows_def case_prod_unfold)
qed (simp_all add: table_rows_def)

lemma route_table_valid:
  assumes "\<forall>r \<in> set routes. unat (re_expert_id r) < EXPERTS_PER_LAYER"
  shows "plan_validate (rp_plan (route_table routes tokens)) = Ok ()"
proof -
  have "\<forall>(k, vs) \<in> set (by_expert routes). unat k < EXPERTS_PER_LAYER"
    using by_expert_inv(3) [of routes] assms by (force simp: image_iff)
  then show ?thesis by (simp add: plan_validate_def route_table_def table_groups_valid)
qed

text \<open>C20: However the routes fall, the padded matrix has room for every routed row and wastes at most 15
  rows for each expert that is routed to; and when the expert ids are in range the plan passes the
  GEMM's own validation.\<close>

theorem padding_bounded:
  assumes "from_routes routes tokens = Ok rp"
  shows "routed_rows rp = length routes \<and> routed_rows rp \<le> padded_rows rp \<and>
    padded_rows rp \<le> routed_rows rp + 15 * card (re_expert_id ` set routes) \<and>
    ((\<forall>r \<in> set routes. unat (re_expert_id r) < EXPERTS_PER_LAYER) \<longrightarrow> plan_validate (rp_plan rp) = Ok ())"
proof (intro conjI impI)
  note rp = from_routes_Ok [OF assms]
  have len: "length (concat (map snd (by_expert routes))) = length routes" by (simp only: by_expert_sorted) simp
  then show "routed_rows rp = length routes" by (simp add: rp routed_rows_def route_table_def route_order_def)
  with len table_rows_bounds [of "by_expert routes"]
  show "routed_rows rp \<le> padded_rows rp" "padded_rows rp \<le> routed_rows rp + 15 * card (re_expert_id ` set routes)"
    by (simp_all only: rp padded_rows_table card_by_expert)
  assume "\<forall>r \<in> set routes. unat (re_expert_id r) < EXPERTS_PER_LAYER"
  then show "plan_validate (rp_plan rp) = Ok ()" unfolding rp by (rule route_table_valid)
qed

text \<open>Two experts, five and three routes: two tiles of 16.\<close>

definition sample_routes :: "route_entry list" where
  "sample_routes = map (\<lambda>i. \<lparr>re_row_index = 0, re_expert_id = (if i < 5 then 200 else 7), re_gate_weight = 0x3F000000\<rparr>) [0..<8]"

lemma sample_routes_ok: "routes_ok sample_routes 1" "re_expert_id ` set sample_routes = {200, 7}"
  "\<forall>r \<in> set sample_routes. unat (re_expert_id r) < EXPERTS_PER_LAYER" "length sample_routes = 8"
proof -
  show "routes_ok sample_routes 1" by (simp add: sample_routes_def routes_ok_def layout_simps)
  show "\<forall>r \<in> set sample_routes. unat (re_expert_id r) < EXPERTS_PER_LAYER" "length sample_routes = 8"
    by (auto simp: sample_routes_def layout_simps)
  have "(\<lambda>i. if i < 5 then 200 else 7 :: u32) ` {0..<8 :: nat} = {200, 7}"
  proof (intro equalityI subsetI)
    fix x :: u32
    assume "x \<in> {200, 7}"
    then have "x = (if (0::nat) < 5 then 200 else 7) \<or> x = (if (5::nat) < 5 then 200 else 7)" by auto
    then show "x \<in> (\<lambda>i. if i < 5 then 200 else 7) ` {0..<8 :: nat}" by (elim disjE) (rule image_eqI, assumption, simp)+
  qed auto
  moreover have "re_expert_id ` set sample_routes = (\<lambda>i. if i < 5 then 200 else 7) ` {0..<8 :: nat}"
    by (simp add: sample_routes_def image_image)
  ultimately show "re_expert_id ` set sample_routes = {200, 7}" by simp
qed

theorem padding_bounded_witness:
  "\<exists>rp. from_routes sample_routes 1 = Ok rp \<and> 8 \<le> padded_rows rp \<and> padded_rows rp \<le> 38 \<and> plan_validate (rp_plan rp) = Ok ()"
  using padding_bounded [OF from_routes_table [OF sample_routes_ok(1)]] sample_routes_ok
  by (intro exI [of _ "route_table sample_routes 1"]) (simp add: from_routes_table)

text \<open>What one rank contributes for token \<open>t\<close>: its eight experts' outputs, weighted, added in the order of
  the expert ids.\<close>

definition token_mixture :: "(f32 \<Rightarrow> f32) \<Rightarrow> u8 list \<Rightarrow> route_entry list \<Rightarrow> f32 list \<Rightarrow> nat \<Rightarrow> f32 list" where
  "token_mixture expf img routes hidden t =
     map (\<lambda>h. foldl (\<lambda>acc s. f32_add acc (f32_mul
           (ffn_row expf img (unat (re_expert_id (routes ! s))) (row_of SLICE_HIDDEN hidden t) ! h) (re_gate_weight (routes ! s))))
         0 (sort_key (\<lambda>s. re_expert_id (routes ! s)) [8 * t..<8 * t + 8])) [0..<SLICE_HIDDEN]"

lemma filter_zip_fst: "length xs = length ys \<Longrightarrow> map fst (filter (\<lambda>e. Q (fst e)) (zip xs ys)) = filter Q xs"
  by (induction xs ys rule: list_induct2) auto

lemma foldl_entries:
  assumes "list_all2 (\<lambda>p s. F p = val s) ps ss"
  shows "foldl (\<lambda>acc (t, w, p). g acc (F p) w) a (filter (\<lambda>e. fst e = t) (zip (map tok ss) (zip (map wt ss) ps))) =
    foldl (\<lambda>acc s. g acc (val s) (wt s)) a (filter (\<lambda>s. tok s = t) ss)"
  using assms by (induction arbitrary: a rule: list_all2_induct) auto

lemma slots_of_token: "t < n \<Longrightarrow> filter (\<lambda>s. s div 8 = t) [0..<n * 8] = [8 * t..<8 * t + 8]"
proof -
  assume t: "t < n"
  have f1: "filter (\<lambda>s. s div 8 = t) [0..<n * 8] = filter (\<lambda>s. s \<in> {8 * t..<8 * t + 8}) [0..<n * 8]"
    by (rule filter_cong) (auto simp: div_nat_eqI less_mult_imp_div_less)
  have f2: "[0..<n * 8] = [0..<8 * t] @ [8 * t..<8 * t + 8] @ [8 * t + 8..<n * 8]"
  proof -
    have "8 * t + 8 \<le> n * 8" using t by simp
    then obtain k where k: "n * 8 = 8 * t + (8 + k)" using le_Suc_ex by (metis add.assoc)
    then show ?thesis using upt_add_eq_append [of 0 "8 * t" "8 + k"] upt_add_eq_append [of "8 * t" "8 * t + 8" k] by (simp add: add.assoc)
  qed
  have f3: "filter (\<lambda>s. s \<in> {8 * t..<8 * t + 8}) ([0..<8 * t] @ [8 * t..<8 * t + 8] @ [8 * t + 8..<n * 8]) = [8 * t..<8 * t + 8]"
  proof -
    have "filter (\<lambda>s. s \<in> {8 * t..<8 * t + 8}) [0..<8 * t] = []" "filter (\<lambda>s. s \<in> {8 * t..<8 * t + 8}) [8 * t + 8..<n * 8] = []"
      by (auto simp: filter_empty_conv)
    moreover have "filter (\<lambda>s. s \<in> {8 * t..<8 * t + 8}) [8 * t..<8 * t + 8] = [8 * t..<8 * t + 8]" by (auto simp: filter_id_conv)
    ultimately show ?thesis by (simp only: filter_append append_Nil append_Nil2)
  qed
  show ?thesis by (simp only: f1) (simp only: f2 f3)
qed

lemma route_table_experts:
  "set (row_experts (rp_plan (route_table routes tokens))) \<subseteq> (\<lambda>r. unat (re_expert_id r)) ` set routes"
proof -
  have "fst ` set (by_expert routes) = re_expert_id ` set routes" unfolding by_expert_inv(3) by (auto simp: set_conv_nth)
  then have "unat k \<in> (\<lambda>r. unat (re_expert_id r)) ` set routes" if "(k, vs) \<in> set (by_expert routes)" for k vs
    using that by (force simp: image_iff)
  then show ?thesis by (fastforce simp: row_experts_def route_table_def table_row_experts)
qed

lemma routed_input:
  assumes ok: "routes_ok routes tokens" and hidden: "length hidden = tokens * SLICE_HIDDEN"
  shows "\<exists>x. replicate_x (route_table routes tokens) hidden = Ok x \<and>
    length x = padded_rows (route_table routes tokens) * SLICE_HIDDEN \<and>
    list_all2 (\<lambda>p s. row_of SLICE_HIDDEN x p = row_of SLICE_HIDDEN hidden (s div 8)) (table_padded 0 (by_expert routes)) (route_order routes)"
proof -
  let ?rp = "route_table routes tokens" and ?pads = "table_padded 0 (by_expert routes)" and ?S = "route_order routes"
  let ?tps = "zip (map (\<lambda>s. s div 8) ?S) ?pads"
  note slots = table_slots [of routes tokens]
  then have len: "length ?pads = length ?S" by (rule list_all2_lengthD)
  have S: "s < tokens * 8" if "s \<in> set ?S" for s using that ok by (auto simp: route_order_def routes_ok_def)
  have "distinct ?pads" using table_padded_sorted [of 0 "by_expert routes"] by (simp add: strict_sorted_iff)
  then have d: "distinct (map snd ?tps)" using len by simp
  have "t < tokens \<and> p < padded_rows ?rp" if tp: "(t, p) \<in> set ?tps" for t p
  proof -
    obtain i where i: "i < length ?S" "t = ?S ! i div 8" "p = ?pads ! i" using tp by (auto simp: set_zip)
    then show ?thesis
      using S [of "?S ! i"] list_all2_nthD2 [OF slots i(1)] by (simp add: padded_rows_table less_mult_imp_div_less)
  qed
  then have b: "\<forall>(t, p) \<in> set ?tps. t < tokens \<and> p < padded_rows ?rp" by blast
  obtain x where x: "fold_results (\<lambda>x (token, padded).
      obind (subslice hidden (token * SLICE_HIDDEN) ((token + 1) * SLICE_HIDDEN)) (\<lambda>src. write_at (padded * SLICE_HIDDEN) src x))
      (replicate (padded_rows ?rp * SLICE_HIDDEN) 0) ?tps = (Ok x :: (f32 list, route_error) outcome)"
    "length x = padded_rows ?rp * SLICE_HIDDEN" "\<forall>(t, p) \<in> set ?tps. row_of SLICE_HIDDEN x p = row_of SLICE_HIDDEN hidden t"
    using place_rows [OF b d hidden, of "replicate (padded_rows ?rp * SLICE_HIDDEN) 0"] by auto
  have "tokens * SLICE_HIDDEN mod 2 ^ 64 = tokens * SLICE_HIDDEN" using ok by (simp add: routes_ok_def)
  then have "replicate_x ?rp hidden = Ok x"
    using x(1) hidden unfolding replicate_x_def by (simp add: route_table_def)
  moreover have "(?S ! i div 8, ?pads ! i) \<in> set ?tps" if "i < length ?S" for i using that len by (force simp: set_zip)
  ultimately show ?thesis using x(2,3) len by (fastforce simp: list_all2_conv_all_nth)
qed

text \<open>The FFN's output at a route's padded row is its expert's output for its token.\<close>

lemma routed_ffn:
  assumes ok: "routes_ok routes tokens" and hidden: "length hidden = tokens * SLICE_HIDDEN"
    and img: "\<forall>r \<in> set routes. unat (re_expert_id r) < EXPERTS_PER_LAYER \<and>
      (unat (re_expert_id r) + 1) * QUARTER_SLICE_BYTES \<le> length img"
  shows "\<exists>x ffn. replicate_x (route_table routes tokens) hidden = Ok x \<and>
    expert_ffn_self_contained expf img x (rp_plan (route_table routes tokens)) NB_NONE =
      Ok \<lparr>go_data = ffn, go_out_rows = SLICE_HIDDEN\<rparr> \<and>
    length ffn = padded_rows (route_table routes tokens) * SLICE_HIDDEN \<and>
    (\<forall>h < SLICE_HIDDEN. list_all2 (\<lambda>p s. ffn ! (p * SLICE_HIDDEN + h) =
        ffn_row expf img (unat (re_expert_id (routes ! s))) (row_of SLICE_HIDDEN hidden (s div 8)) ! h)
      (table_padded 0 (by_expert routes)) (route_order routes))"
proof -
  let ?rp = "route_table routes tokens" and ?H = SLICE_HIDDEN and ?pads = "table_padded 0 (by_expert routes)"
  let ?P = "padded_rows ?rp" and ?tok = "\<lambda>s. s div 8 :: nat" and ?S = "route_order routes"
  let ?e = "\<lambda>s. unat (re_expert_id (routes ! s))"
  have slots: "list_all2 (\<lambda>p s. p < ?P \<and> row_experts (rp_plan ?rp) ! p = ?e s) ?pads ?S"
    using table_slots by (simp add: padded_rows_table)
  have plan: "total_tokens (rp_plan ?rp) = ?P" by (simp add: padded_rows_def)
  have valid: "plan_validate (rp_plan ?rp) = Ok ()" by (rule route_table_valid) (use img in blast)
  have fits: "\<forall>e \<in> set (row_experts (rp_plan ?rp)). (e + 1) * QUARTER_SLICE_BYTES \<le> length img"
    using route_table_experts [of routes tokens] img by fastforce
  obtain x where x: "replicate_x ?rp hidden = Ok x" "length x = ?P * ?H"
    "list_all2 (\<lambda>p s. row_of ?H x p = row_of ?H hidden (s div 8)) ?pads ?S"
    using routed_input [OF ok hidden] by blast
  define ffn where "ffn = concat (map (\<lambda>i. ffn_row expf img (row_experts (rp_plan ?rp) ! i) (row_of ?H x i)) [0..<?P])"
  have y: "expert_ffn_self_contained expf img x (rp_plan ?rp) NB_NONE = Ok \<lparr>go_data = ffn, go_out_rows = ?H\<rparr>"
    using ffn_value [OF valid _ fits, of x expf] x(2) by (simp add: plan ffn_def)
  have lenf: "length ffn = ?P * ?H" by (simp add: ffn_def length_concat_uniform)
  have cell: "list_all2 (\<lambda>p s. ffn ! (p * ?H + h) = ffn_row expf img (?e s) (row_of ?H hidden (?tok s)) ! h) ?pads ?S"
    if "h < ?H" for h
  proof -
    have "ffn ! (p * ?H + h) = ffn_row expf img (row_experts (rp_plan ?rp) ! p) (row_of ?H x p) ! h" if "p < ?P" for p
    proof -
      have "row_of ?H ffn p ! h = ffn ! (p * ?H + h)"
        using row_fits [OF that, of ?H "length ffn"] lenf by (intro row_of_nth [OF \<open>h < ?H\<close>]) simp
      moreover have "row_of ?H ffn p = ffn_row expf img (row_experts (rp_plan ?rp) ! p) (row_of ?H x p)"
        unfolding ffn_def by (rule row_of_concat) (use that in simp_all)
      ultimately show ?thesis by simp
    qed
    then show ?thesis using slots x(3) by (auto simp: list_all2_conv_all_nth)
  qed
  then show ?thesis using x(1) y lenf by blast
qed

text \<open>Reducing rows that hold the experts' outputs.\<close>

lemma reduce_mixture:
  assumes ok: "routes_ok routes tokens" and lenf: "length ffn = padded_rows (route_table routes tokens) * SLICE_HIDDEN"
    and cell: "\<And>h. h < SLICE_HIDDEN \<Longrightarrow> list_all2 (\<lambda>p s. ffn ! (p * SLICE_HIDDEN + h) =
        ffn_row expf img (unat (re_expert_id (routes ! s))) (row_of SLICE_HIDDEN hidden (s div 8)) ! h)
      (table_padded 0 (by_expert routes)) (route_order routes)"
  shows "reduce (route_table routes tokens) ffn = Ok (concat (map (token_mixture expf img routes hidden) [0..<tokens]))"
proof -
  let ?rp = "route_table routes tokens" and ?H = SLICE_HIDDEN and ?pads = "table_padded 0 (by_expert routes)"
  let ?P = "padded_rows ?rp" and ?tok = "\<lambda>s. s div 8 :: nat" and ?S = "route_order routes"
  let ?e = "\<lambda>s. unat (re_expert_id (routes ! s))"
  have lenr: "length routes = tokens * 8" using ok by (simp add: routes_ok_def)
  have S: "set ?S = {..<tokens * 8}" by (auto simp: route_order_def lenr)
  have slots: "list_all2 (\<lambda>p s. p < ?P \<and> row_experts (rp_plan ?rp) ! p = ?e s) ?pads ?S"
    using table_slots by (simp add: padded_rows_table)
  let ?es = "zip (map ?tok ?S) (zip (map (\<lambda>s. re_gate_weight (routes ! s)) ?S) ?pads)"
  have b: "\<forall>(t, w, p) \<in> set ?es. t < tokens \<and> p < ?P"
    using slots S by (fastforce simp: set_zip list_all2_conv_all_nth less_mult_imp_div_less dest: nth_mem)
  obtain out where out: "fold_results (reduce_row ffn) (replicate (tokens * ?H) 0) ?es = Ok out" "length out = tokens * ?H"
    "\<forall>t < tokens. \<forall>h < ?H. out ! (t * ?H + h) =
       foldl (\<lambda>acc (t, w, p). f32_add acc (f32_mul (ffn ! (p * ?H + h)) w)) (replicate (tokens * ?H) 0 ! (t * ?H + h))
         (filter (\<lambda>e. fst e = t) ?es)"
    using reduce_rows [OF b _ lenf, of "replicate (tokens * ?H) 0"] by auto
  have "reduce ?rp ffn = Ok out"
    using out(1) lenf by (simp add: reduce_def route_table_def)
  moreover have "row_of ?H out t = token_mixture expf img routes hidden t" if t: "t < tokens" for t
  proof (rule nth_equalityI)
    have fit: "(t + 1) * ?H \<le> length out" using row_fits [OF t] out(2) by simp
    then show "length (row_of ?H out t) = length (token_mixture expf img routes hidden t)"
      by (simp add: length_row_of token_mixture_def)
    fix h
    assume "h < length (row_of ?H out t)"
    then have h: "h < ?H" using length_row_of [OF fit] by simp
    have "row_of ?H out t ! h = out ! (t * ?H + h)" by (rule row_of_nth [OF h fit])
    also have "\<dots> = foldl (\<lambda>acc s. f32_add acc (f32_mul (ffn_row expf img (?e s) (row_of ?H hidden (?tok s)) ! h) (re_gate_weight (routes ! s))))
        0 (filter (\<lambda>s. ?tok s = t) ?S)"
      using out(3) t h row_fits [OF t, of ?H "tokens * ?H"]
        foldl_entries [OF cell [OF h], of "\<lambda>acc v w. f32_add acc (f32_mul v w)" 0 t ?tok "\<lambda>s. re_gate_weight (routes ! s)"] by simp
    also have "filter (\<lambda>s. ?tok s = t) ?S = sort_key (\<lambda>s. re_expert_id (routes ! s)) [8 * t..<8 * t + 8]"
      by (simp only: route_order_def filter_sort lenr slots_of_token [OF t])
    also have "foldl (\<lambda>acc s. f32_add acc (f32_mul (ffn_row expf img (?e s) (row_of ?H hidden (?tok s)) ! h) (re_gate_weight (routes ! s)))) 0 \<dots> =
        foldl (\<lambda>acc s. f32_add acc (f32_mul (ffn_row expf img (?e s) (row_of ?H hidden t) ! h) (re_gate_weight (routes ! s)))) 0 \<dots>"
      by (rule foldl_cong) (auto simp: div_nat_eqI)
    finally show "row_of ?H out t ! h = token_mixture expf img routes hidden t ! h" using h by (simp add: token_mixture_def)
  qed
  then have "concat (map (row_of ?H out) [0..<tokens]) = concat (map (token_mixture expf img routes hidden) [0..<tokens])"
    by (intro arg_cong [where f = concat] map_cong) simp_all
  then have "out = concat (map (token_mixture expf img routes hidden) [0..<tokens])"
    unfolding row_of_def [abs_def] concat_rows_eq [OF out(2)] .
  ultimately show ?thesis by simp
qed

text \<open>C3: Running a request through the table gives what each token alone would get. Grouping the routes
  by expert, replicating the hidden rows into the padded matrix, running the rank's grouped FFN over it
  and reducing succeeds, and the result for every token is the weighted sum of its own eight experts'
  FFN outputs, computed with the same additions in expert order whatever the other tokens are.\<close>

theorem routed_ffn_is_mixture:
  assumes ok: "routes_ok routes tokens" and hidden: "length hidden = tokens * SLICE_HIDDEN"
    and img: "\<forall>r \<in> set routes. unat (re_expert_id r) < EXPERTS_PER_LAYER \<and>
      (unat (re_expert_id r) + 1) * QUARTER_SLICE_BYTES \<le> length img"
  shows "\<exists>rp x y out. from_routes routes tokens = Ok rp \<and> replicate_x rp hidden = Ok x \<and>
    expert_ffn_self_contained expf img x (rp_plan rp) NB_NONE = Ok y \<and> reduce rp (go_data y) = Ok out \<and>
    out = concat (map (token_mixture expf img routes hidden) [0..<tokens])"
proof -
  obtain x ffn where x: "replicate_x (route_table routes tokens) hidden = Ok x"
    "expert_ffn_self_contained expf img x (rp_plan (route_table routes tokens)) NB_NONE = Ok \<lparr>go_data = ffn, go_out_rows = SLICE_HIDDEN\<rparr>"
    "length ffn = padded_rows (route_table routes tokens) * SLICE_HIDDEN"
    "\<forall>h < SLICE_HIDDEN. list_all2 (\<lambda>p s. ffn ! (p * SLICE_HIDDEN + h) =
        ffn_row expf img (unat (re_expert_id (routes ! s))) (row_of SLICE_HIDDEN hidden (s div 8)) ! h)
      (table_padded 0 (by_expert routes)) (route_order routes)"
    using routed_ffn [OF assms, of expf] by blast
  have "reduce (route_table routes tokens) (go_data \<lparr>go_data = ffn, go_out_rows = SLICE_HIDDEN\<rparr>) =
      Ok (concat (map (token_mixture expf img routes hidden) [0..<tokens]))"
    unfolding grouped_output.simps by (rule reduce_mixture [OF ok x(3)]) (use x(4) in blast)
  then show ?thesis using from_routes_table [OF ok] x(1,2) by blast
qed

text \<open>One token over an image of 256 slices.\<close>

theorem routed_ffn_is_mixture_witness:
  "\<exists>rp x y out. from_routes sample_routes 1 = Ok rp \<and> replicate_x rp (replicate 4096 0x3F800000) = Ok x \<and>
    expert_ffn_self_contained (\<lambda>_. 0x3F800000) (replicate 855638016 0x22) x (rp_plan rp) NB_NONE = Ok y \<and>
    reduce rp (go_data y) = Ok out \<and>
    out = concat (map (token_mixture (\<lambda>_. 0x3F800000) (replicate 855638016 0x22) sample_routes (replicate 4096 0x3F800000)) [0..<1])"
proof (rule routed_ffn_is_mixture [OF sample_routes_ok(1)])
  show "length (replicate 4096 (0x3F800000 :: f32)) = 1 * SLICE_HIDDEN" by (simp add: SLICE_HIDDEN_def)
  have "(unat (re_expert_id r) + 1) * QUARTER_SLICE_BYTES \<le> 855638016" if "r \<in> set sample_routes" for r
  proof -
    have "unat (re_expert_id r) + 1 \<le> 256" using bspec [OF sample_routes_ok(3) that] by (simp add: EXPERTS_PER_LAYER_def)
    then have "(unat (re_expert_id r) + 1) * QUARTER_SLICE_BYTES \<le> 256 * QUARTER_SLICE_BYTES" by (rule mult_right_mono) simp
    then show ?thesis by (simp add: QUARTER_SLICE_BYTES_def)
  qed
  then show "\<forall>r \<in> set sample_routes. unat (re_expert_id r) < EXPERTS_PER_LAYER \<and>
      (unat (re_expert_id r) + 1) * QUARTER_SLICE_BYTES \<le> length (replicate 855638016 (0x22 :: u8))"
    using sample_routes_ok(3) by simp
qed

end
