(* ===== verification/Float64.thy ===== *)
theory Float64
  imports FloatOps
begin

text \<open>
  The rest of the binary64 arithmetic the FP8 codec uses, and when it is exact: a result with at most
  53 significant bits, far from the ends of the range, is the mathematical one.
\<close>

subsection \<open>Operations\<close>

definition f64_abs :: "f64 \<Rightarrow> f64" where
  "f64_abs w = w AND 0x7FFFFFFFFFFFFFFF"

definition f64_div :: "f64 \<Rightarrow> f64 \<Rightarrow> f64" where
  "f64_div a b =
     (let s = (f64_neg a \<noteq> f64_neg b) in
      if f64_is_nan a \<or> f64_is_nan b \<or> (f64_is_inf a \<and> f64_is_inf b) \<or> (f64_mag a = 0 \<and> f64_mag b = 0)
      then 0x7FF8000000000000
      else if f64_is_inf a \<or> f64_mag b = 0 then f64_signed s 0x7FF0000000000000
      else if f64_is_inf b then f64_signed s 0
      else f64_signed s (round_mag 52 0x7FF0000000000000 (mag_val 52 (f64_mag a) * 2 ^ 1074) (mag_val 52 (f64_mag b))))"

definition f64_add :: "f64 \<Rightarrow> f64 \<Rightarrow> f64" where
  "f64_add a b =
     (if f64_is_nan a \<or> f64_is_nan b then 0x7FF8000000000000
      else if f64_is_inf a then (if f64_is_inf b \<and> f64_neg a \<noteq> f64_neg b then 0x7FF8000000000000 else a)
      else if f64_is_inf b then b
      else let s = f64_units a + f64_units b in
           if s = 0 then f64_signed (f64_neg a \<and> f64_neg b) 0
           else f64_signed (s < 0) (round_mag 52 0x7FF0000000000000 (nat \<bar>s\<bar>) 1))"

text \<open>\<open>f64::min\<close> and \<open>f64::max\<close> return the other operand for a NaN.\<close>

definition f64_min :: "f64 \<Rightarrow> f64 \<Rightarrow> f64" where
  "f64_min a b = (if f64_is_nan a then b else if f64_is_nan b then a else if f64_units a < f64_units b then a else b)"

definition f64_max :: "f64 \<Rightarrow> f64 \<Rightarrow> f64" where
  "f64_max a b = (if f64_is_nan a then b else if f64_is_nan b then a else if f64_units a < f64_units b then b else a)"

text \<open>\<open>2f64.powi(e)\<close> in the range of normal numbers.\<close>

definition f64_pow2 :: "int \<Rightarrow> f64" where
  "f64_pow2 e = f64_signed False (nat (e + 1023) * 2 ^ 52)"

text \<open>\<open>x.round() as u8\<close> for \<open>x\<close> that is not negative: ties away from zero, the cast saturates.\<close>

definition f64_round_u8 :: "f64 \<Rightarrow> u8" where
  "f64_round_u8 x = of_nat (min 255 ((2 * mag_val 52 (f64_mag x) + 2 ^ 1074) div 2 ^ 1075))"

subsection \<open>Exact results\<close>

text \<open>\<open>x\<close> is the finite value \<open>n\<close> units, with sign \<open>s\<close>.\<close>

definition f64_is :: "f64 \<Rightarrow> bool \<Rightarrow> nat \<Rightarrow> bool" where
  "f64_is x s n \<longleftrightarrow> f64_neg x = s \<and> f64_mag x < 0x7FF0000000000000 \<and> mag_val 52 (f64_mag x) = n"

lemma f64_is_finite: "f64_is x s n \<Longrightarrow> \<not> f64_is_nan x \<and> \<not> f64_is_inf x"
  by (simp add: f64_is_def f64_is_nan_def f64_is_inf_def)

lemma mag_val_eq_0 [simp]: "mag_val t m = 0 \<longleftrightarrow> m = 0"
  by (cases "m = 0") (simp_all add: mag_val_def)

lemma f64_is_zero_iff: "f64_is x s n \<Longrightarrow> f64_mag x = 0 \<longleftrightarrow> n = 0"
  by (auto simp: f64_is_def)

lemma f64_is_units: "f64_is x s n \<Longrightarrow> f64_units x = (if s then - int n else int n)"
  by (auto simp: f64_is_def f64_units_def)

text \<open>Numbers of at most 53 bits below \<open>2 ^ 2000\<close> units are representable.\<close>

definition f64_exact :: "nat \<Rightarrow> bool" where
  "f64_exact n \<longleftrightarrow> (\<exists>m j. n = m * 2 ^ j \<and> m < 2 ^ 53 \<and> n < 2 ^ 2000)"

lemma f64_exactI: "m < 2 ^ 53 \<Longrightarrow> j \<le> 1947 \<Longrightarrow> f64_exact (m * 2 ^ j)"
proof -
  assume m: "m < 2 ^ 53" and j: "j \<le> 1947"
  have "m * 2 ^ j < 2 ^ 53 * 2 ^ j" using m by simp
  also have "(2 :: nat) ^ 53 * 2 ^ j = 2 ^ (53 + j)" by (rule power_add [symmetric])
  also have "(2 :: nat) ^ (53 + j) \<le> 2 ^ 2000" by (rule power_increasing) (use j in simp_all)
  finally show ?thesis using m by (auto simp: f64_exact_def)
qed

lemma f64_is_round:
  assumes "f64_exact n"
  shows "f64_is (f64_signed s (round_mag 52 0x7FF0000000000000 n 1)) s n"
proof -
  obtain m j where n: "n = m * 2 ^ j" "m < 2 ^ 53" "n < 2 ^ 2000" using assms by (auto simp: f64_exact_def)
  have lt: "m * 2 ^ j < 2 ^ (52 + 1948)" using n(1,3) by simp
  have "mag_val 52 (round_mag 52 0x7FF0000000000000 n 1) = n" "round_mag 52 0x7FF0000000000000 n 1 < 0x7FF0000000000000"
    unfolding n(1) by (rule val_round_exact [OF _ lt], use n(2) in simp, simp)+
  then show ?thesis by (simp add: f64_is_def f64_signed_parts)
qed

lemma f64_is_mul:
  assumes "f64_is a s m" "f64_is b t n" "m * n = k * 2 ^ 1074" "f64_exact k"
  shows "f64_is (f64_mul a b) (s \<noteq> t) k"
  using f64_is_round [OF assms(4), of "s \<noteq> t"] assms(1-3) f64_is_finite [OF assms(1)] f64_is_finite [OF assms(2)]
    round_mag_div [of "2 ^ 1074" 52 "0x7FF0000000000000" k]
  by (simp add: f64_mul_def Let_def f64_is_def)

lemma f64_is_div:
  assumes "f64_is a s m" "f64_is b t n" "m * 2 ^ 1074 = k * n" "f64_exact k" "n \<noteq> 0"
  shows "f64_is (f64_div a b) (s \<noteq> t) k"
  using f64_is_round [OF assms(4), of "s \<noteq> t"] assms(1-3,5) f64_is_finite [OF assms(1)] f64_is_finite [OF assms(2)]
    round_mag_div [of n 52 "0x7FF0000000000000" k] f64_is_zero_iff [OF assms(2)]
  by (auto simp: f64_div_def Let_def f64_is_def)

lemma f64_is_add:
  assumes "f64_is a False m" "f64_is b False n" "f64_exact (m + n)" "m + n \<noteq> 0"
  shows "f64_is (f64_add a b) False (m + n)"
  using f64_is_round [OF assms(3), of False] assms(4) f64_is_finite [OF assms(1)] f64_is_finite [OF assms(2)]
    f64_is_units [OF assms(1)] f64_is_units [OF assms(2)]
  by (auto simp: f64_add_def Let_def nat_add_distrib simp flip: of_nat_add)

lemma f64_is_pow2: "- 1022 \<le> e \<Longrightarrow> e \<le> 1000 \<Longrightarrow> f64_is (f64_pow2 e) False (2 ^ nat (e + 1074))"
proof -
  assume e: "- 1022 \<le> e" "e \<le> 1000"
  define k where "k = nat (e + 1023)"
  have k: "1 \<le> k" "k \<le> 2023" "nat (e + 1074) = 52 + (k - 1)" using e by (simp_all add: k_def)
  have "k * 2 ^ 52 \<le> 2023 * 2 ^ 52" using k(2) by (rule mult_right_mono) simp
  moreover have "mag_val 52 (k * 2 ^ 52) = 2 ^ 52 * 2 ^ (k - 1)" using k(1) by (simp add: mag_val_def)
  ultimately show ?thesis
    unfolding k(3) power_add by (simp add: f64_is_def f64_pow2_def f64_signed_parts flip: k_def)
qed

end
