(* ===== verification/E4m3.thy ===== *)
theory E4m3
  imports Float64 Mxfp4
begin

text \<open>
  The E4M3 byte codec of \<open>crates/mimo26-load/src/e4m3.rs\<close>: \<open>[s eeee mmm]\<close>, bias 7, no
  infinities, \<open>S.1111.111\<close> is NaN. The magnitude of a code is \<open>mag_val 3\<close> units of \<open>2 ^ (-9)\<close>.
\<close>

subsection \<open>Codec\<close>

definition E4M3_MAX :: f64 where "E4M3_MAX = 0x407C000000000000"

text \<open>\<open>f64::from\<close> of a small unsigned integer.\<close>

definition f64_of_u8 :: "u8 \<Rightarrow> f64" where
  "f64_of_u8 b = f64_signed False (round_mag 52 0x7FF0000000000000 (unat b * 2 ^ 1074) 1)"

definition decode_e4m3 :: "u8 \<Rightarrow> f64" where
  "decode_e4m3 code =
     (if code = 0x7F \<or> code = 0xFF then 0x7FF8000000000000
      else let s = (if code AND 0x80 \<noteq> 0 then 0xBFF0000000000000 else 0x3FF0000000000000);
               e = uint (drop_bit 3 code AND 0x0F);
               m = f64_of_u8 (code AND 0x07);
               val = (if e = 0 then f64_mul (f64_div m (f64_of_u8 8)) (f64_pow2 (- 6))
                      else f64_mul (f64_add 0x3FF0000000000000 (f64_div m (f64_of_u8 8))) (f64_pow2 (e - 7)))
           in f64_mul s val)"

definition decode_table :: "f64 list" where
  "decode_table = map (\<lambda>c. decode_e4m3 (of_nat c)) [0..<256]"

definition encode_e4m3 :: "f64 \<Rightarrow> u8" where
  "encode_e4m3 val =
     (let v = (if f64_is_nan val then 0 else val);
          mag = f64_min (f64_abs v) E4M3_MAX;
          sign = (if f64_lt v 0 then 0x80 else 0) in
      if f64_mag mag = 0 then sign
      else let bits = mag;
               exp = uint (drop_bit 52 bits AND 0x7FF);
               mant = bits AND 0xFFFFFFFFFFFFF in
           if exp < 1017 then
             (let m = f64_round_u8 (f64_mul mag 0x4080000000000000) in
              if m \<ge> 8 then sign OR 0x08 else sign OR m)
           else
             (let e = exp - 1016;
                  m = uint (drop_bit 49 (mant + 0x1000000000000));
                  (e, m) = (if m \<ge> 8 then (e + 1, 0) else (e, m));
                  e = (of_int (max 1 (min 15 e)) :: u8);
                  m = (of_int (max 0 (min 7 m)) :: u8)
              in (sign OR push_bit 3 e) OR m))"

subsection \<open>The value of a code\<close>

text \<open>A code's magnitude in units of \<open>2 ^ (-9)\<close>, and that unit in units of \<open>f64\<close>.\<close>

definition e4m3_units :: "nat \<Rightarrow> nat" where
  "e4m3_units c = mag_val 3 c"

abbreviation e4m3_unit :: nat where
  "e4m3_unit \<equiv> 2 ^ 1065"

lemma f64_is_of_u8: "f64_is (f64_of_u8 b) False (unat b * 2 ^ 1074)"
  unfolding f64_of_u8_def by (rule f64_is_round, rule f64_exactI) (use unat_lt [of b] in simp_all)

lemma f64_is_one: "f64_is 0x3FF0000000000000 False (2 ^ 1074)" "f64_is 0xBFF0000000000000 True (2 ^ 1074)"
proof -
  have "f64_pow2 0 = 0x3FF0000000000000" by (simp add: f64_pow2_def f64_signed_def)
  then show "f64_is 0x3FF0000000000000 False (2 ^ 1074)" using f64_is_pow2 [of 0] by simp
  then have v: "mag_val 52 0x3FF0000000000000 = 2 ^ 1074" by (simp add: f64_is_def f64_mag_def)
  have "f64_signed True 0x3FF0000000000000 = 0xBFF0000000000000" by (simp add: f64_signed_def)
  then have "f64_mag 0xBFF0000000000000 = 0x3FF0000000000000" "f64_neg 0xBFF0000000000000"
    using f64_signed_parts [of "0x3FF0000000000000" True] by simp_all
  then show "f64_is 0xBFF0000000000000 True (2 ^ 1074)" using v by (simp add: f64_is_def)
qed


lemma code_fields:
  fixes code :: u8
  shows "unat (code AND 0x07) = unat code mod 8" "unat (drop_bit 3 code AND 0x0F) = unat code div 8 mod 16"
    "unat (code AND 0x7F) = unat code mod 128"
proof -
  have m: "(0x07 :: u8) = mask 3" "(0x0F :: u8) = mask 4" "(0x7F :: u8) = mask 7" by (simp_all add: mask_eq_exp_minus_1)
  show "unat (code AND 0x07) = unat code mod 8" "unat (drop_bit 3 code AND 0x0F) = unat code div 8 mod 16"
    "unat (code AND 0x7F) = unat code mod 128"
    unfolding m by (simp_all only: take_bit_eq_mask [symmetric] unsigned_take_bit_eq take_bit_eq_mod unsigned_drop_bit_eq drop_bit_eq_div)
      (simp_all add: unat_div unat_mod)
qed

lemma e4m3_units_code: "e4m3_units (8 * e + m) = (if e = 0 then m else (8 + m) * 2 ^ (e - 1))" if "m < 8"
  using that by (simp add: e4m3_units_def mag_val_def)

lemma decode_e4m3_is:
  assumes "code \<noteq> 0x7F" "code \<noteq> 0xFF"
  shows "f64_is (decode_e4m3 code) (bit code 7) (e4m3_units (unat (code AND 0x7F)) * e4m3_unit)"
proof -
  define e where "e = unat (drop_bit 3 code AND 0x0F)"
  define m where "m = unat (code AND 0x07)"
  have em: "e < 16" "m < 8" "unat (code AND 0x7F) = 8 * e + m"
  proof -
    show "e < 16" "m < 8" by (simp_all add: e_def m_def code_fields)
    have "n mod 128 = 8 * (n div 8 mod 16) + n mod 8" for n :: nat
      using mod_mult2_eq [of n 8 16] by simp
    then show "unat (code AND 0x7F) = 8 * e + m" by (simp only: e_def m_def code_fields)
  qed
  have u: "uint (drop_bit 3 code AND 0x0F) = int e" by (simp only: e_def uint_nat)
  have frac: "f64_is (f64_div (f64_of_u8 (code AND 0x07)) (f64_of_u8 8)) False (m * 2 ^ 1071)"
    using f64_is_div [OF f64_is_of_u8 [of "code AND 0x07"] f64_is_of_u8 [of 8], of "m * 2 ^ 1071"]
      f64_exactI [of m 1071] em(2)
    by (simp add: m_def)
  have val: "f64_is (if uint (drop_bit 3 code AND 0x0F) = 0 then f64_mul (f64_div (f64_of_u8 (code AND 0x07)) (f64_of_u8 8)) (f64_pow2 (- 6))
        else f64_mul (f64_add 0x3FF0000000000000 (f64_div (f64_of_u8 (code AND 0x07)) (f64_of_u8 8)))
               (f64_pow2 (uint (drop_bit 3 code AND 0x0F) - 7)))
       False (e4m3_units (8 * e + m) * e4m3_unit)"
  proof (cases "e = 0")
    case True
    then have "uint (drop_bit 3 code AND 0x0F) = 0" by (simp only: u of_nat_0)
    moreover have "f64_is (f64_mul (f64_div (f64_of_u8 (code AND 0x07)) (f64_of_u8 8)) (f64_pow2 (- 6))) False (m * e4m3_unit)"
    proof -
      have p: "f64_is (f64_pow2 (- 6)) False (2 ^ 1068)" using f64_is_pow2 [of "- 6"] by simp
      have "(1071 :: nat) + 1068 = 1065 + 1074" by simp
      then have eq: "m * 2 ^ 1071 * 2 ^ 1068 = m * e4m3_unit * 2 ^ 1074" by (simp only: mult.assoc power_add [symmetric])
      have "f64_exact (m * e4m3_unit)" by (rule f64_exactI) (use em(2) in simp_all)
      from f64_is_mul [OF frac p eq this] show ?thesis by simp
    qed
    ultimately show ?thesis using True e4m3_units_code [OF em(2), of 0] by simp
  next
    case False
    then have u0: "uint (drop_bit 3 code AND 0x0F) \<noteq> 0" by (simp only: u)
    have "2 ^ 1074 + m * 2 ^ 1071 = (8 + m) * 2 ^ 1071" by simp
    then have add: "f64_is (f64_add 0x3FF0000000000000 (f64_div (f64_of_u8 (code AND 0x07)) (f64_of_u8 8))) False ((8 + m) * 2 ^ 1071)"
      using f64_is_add [OF f64_is_one(1) frac] f64_exactI [of "8 + m" 1071] em(2) by simp
    have p: "nat (int e - 7 + 1074) = e + 1067" by simp
    have eq: "(8 + m) * 2 ^ 1071 * 2 ^ (e + 1067) = (8 + m) * 2 ^ (e + 1064) * 2 ^ 1074"
      by (simp add: power_add)
    have "f64_is (f64_mul (f64_add 0x3FF0000000000000 (f64_div (f64_of_u8 (code AND 0x07)) (f64_of_u8 8)))
               (f64_pow2 (int e - 7))) False ((8 + m) * 2 ^ (e + 1064))"
      using f64_is_mul [OF add f64_is_pow2 [of "int e - 7", unfolded p] eq] f64_exactI [of "8 + m" "e + 1064"] em by simp
    moreover have "(2 :: nat) ^ (e + 1064) = 2 ^ (e - 1) * e4m3_unit"
    proof -
      have "e + 1064 = (e - 1) + 1065" using False by simp
      then show ?thesis by (simp only: power_add)
    qed
    ultimately show ?thesis using False u0 e4m3_units_code [OF em(2), of e] by (simp add: u mult.assoc)
  qed
  have s: "f64_is (if code AND 0x80 \<noteq> 0 then 0xBFF0000000000000 else 0x3FF0000000000000) (bit code 7) (2 ^ 1074)"
  proof -
    have "(0x80 :: u8) = 2 ^ 7" by simp
    then have "code AND 0x80 \<noteq> 0 \<longleftrightarrow> bit code 7" by (simp only: and_exp) simp
    with f64_is_one show ?thesis by simp
  qed
  have "f64_exact (e4m3_units (8 * e + m) * e4m3_unit)"
  proof (cases "e = 0")
    case True
    then show ?thesis using f64_exactI [of m 1065] em(2) e4m3_units_code [OF em(2), of 0] by simp
  next
    case False
    have "e4m3_units (8 * e + m) * e4m3_unit = (8 + m) * 2 ^ ((e - 1) + 1065)"
      using False e4m3_units_code [OF em(2), of e] by (simp only: power_add mult.assoc) simp
    then show ?thesis using f64_exactI [of "8 + m" "(e - 1) + 1065"] em by simp
  qed
  then show ?thesis
    using f64_is_mul [OF s val, of "e4m3_units (8 * e + m) * e4m3_unit"] assms em(3)
    by (simp add: decode_e4m3_def Let_def mult.commute)
qed


subsection \<open>Order of the magnitudes\<close>

lemma mag_val_Suc: "mag_val t m < mag_val t (Suc m)"
proof -
  define e where "e = m div 2 ^ t"
  define f where "f = m mod 2 ^ t"
  have m: "m = e * 2 ^ t + f" by (simp only: e_def f_def div_mult_mod_eq)
  have f: "f < 2 ^ t" by (simp add: f_def)
  show ?thesis
  proof (cases "Suc f < 2 ^ t")
    case True
    then have "Suc m div 2 ^ t = e" "Suc m mod 2 ^ t = Suc f"
      unfolding m using f by (simp_all flip: add_Suc_right)
    then show ?thesis by (simp add: mag_val_def flip: e_def f_def)
  next
    case False
    with f have "Suc f = 2 ^ t" by simp
    then have "Suc m = Suc e * 2 ^ t" by (simp add: m)
    then have d: "Suc m div 2 ^ t = Suc e" "Suc m mod 2 ^ t = 0" by (simp_all del: mult_Suc)
    have "(2 ^ t + f) * 2 ^ (e - 1) < 2 ^ t * 2 ^ e" if "e \<noteq> 0"
    proof -
      have "(2 ^ t + f) * 2 ^ (e - 1) < (2 ^ t + 2 ^ t) * 2 ^ (e - 1)" using f by simp
      also have "\<dots> = 2 ^ t * 2 ^ Suc (e - 1)" by simp
      finally show ?thesis using that by simp
    qed
    then show ?thesis using d f m by (auto simp: mag_val_def simp flip: e_def f_def)
  qed
qed

lemma mag_val_less_iff: "mag_val t m < mag_val t n \<longleftrightarrow> m < n"
  using lift_Suc_mono_less [of "mag_val t", OF mag_val_Suc] by (metis less_asym' linorder_neqE_nat)

lemma mag_val_le_iff: "mag_val t m \<le> mag_val t n \<longleftrightarrow> m \<le> n"
  using mag_val_less_iff [of t n m] by (simp add: not_less [symmetric])

lemma mag_val_form: "\<exists>m j. mag_val 52 b = m * 2 ^ j \<and> m < 2 ^ 53 \<and> j \<le> b div 2 ^ 52"
proof (cases "b div 2 ^ 52 = 0")
  case True
  then have "b < 2 ^ 52" by (simp add: div_eq_0_iff)
  then show ?thesis using True by (intro exI [of _ b] exI [of _ 0]) (simp add: mag_val_def)
next
  case False
  then show ?thesis
    by (intro exI [of _ "2 ^ 52 + b mod 2 ^ 52"] exI [of _ "b div 2 ^ 52 - 1"]) (simp add: mag_val_def)
qed

text \<open>The code nearest to \<open>x\<close> units of \<open>f64\<close>, the larger one on a tie.\<close>

definition nearest_code :: "nat \<Rightarrow> nat \<Rightarrow> bool" where
  "nearest_code x k \<longleftrightarrow> k \<le> 126 \<and>
     (\<forall>j \<le> 126. \<bar>int x - int (e4m3_units k * e4m3_unit)\<bar> \<le> \<bar>int x - int (e4m3_units j * e4m3_unit)\<bar> \<and>
        (\<bar>int x - int (e4m3_units k * e4m3_unit)\<bar> = \<bar>int x - int (e4m3_units j * e4m3_unit)\<bar> \<longrightarrow> j \<le> k))"

lemma nearest_codeI:
  assumes x: "x \<le> e4m3_units 126 * e4m3_unit"
    and lo: "k \<noteq> 0 \<Longrightarrow> (e4m3_units (k - 1) + e4m3_units k) * e4m3_unit \<le> 2 * x"
    and hi: "2 * x < (e4m3_units k + e4m3_units (k + 1)) * e4m3_unit"
  shows "nearest_code x k"
proof -
  note mono = mag_val_less_iff [of 3, folded e4m3_units_def] mag_val_le_iff [of 3, folded e4m3_units_def]
  have k: "k \<le> 126"
  proof (rule ccontr)
    assume "\<not> k \<le> 126"
    then have k: "126 \<le> k - 1" "126 < k" "k \<noteq> 0" by auto
    then have "e4m3_units 126 \<le> e4m3_units (k - 1)" "e4m3_units 126 < e4m3_units k" by (simp_all only: mono)
    then have "2 * e4m3_units 126 < e4m3_units (k - 1) + e4m3_units k" by simp
    then have "2 * e4m3_units 126 * e4m3_unit < (e4m3_units (k - 1) + e4m3_units k) * e4m3_unit"
      by (rule mult_strict_right_mono) simp
    with lo [OF k(3)] x show False by linarith
  qed
  define D where "D j = \<bar>int x - int (e4m3_units j * e4m3_unit)\<bar>" for j
  have lower: "D k \<le> D j"
    if "j < k" for j
  proof -
    have j: "j \<le> k - 1" "j < k" "k \<noteq> 0" using that by auto
    then have "e4m3_units j \<le> e4m3_units (k - 1)" "e4m3_units j < e4m3_units k" by (simp_all only: mono)
    then have "e4m3_units j * e4m3_unit \<le> e4m3_units (k - 1) * e4m3_unit" "e4m3_units j * e4m3_unit < e4m3_units k * e4m3_unit"
      by simp_all
    with lo [OF j(3)] show ?thesis by (simp add: D_def add_mult_distrib del: of_nat_mult)
  qed
  have upper: "D k < D j"
    if "k < j" for j
  proof -
    have j: "k + 1 \<le> j" "k < j" using that by auto
    then have "e4m3_units (k + 1) \<le> e4m3_units j" "e4m3_units k < e4m3_units j" by (simp_all only: mono)
    then have "e4m3_units (k + 1) * e4m3_unit \<le> e4m3_units j * e4m3_unit" "e4m3_units k * e4m3_unit < e4m3_units j * e4m3_unit"
      by simp_all
    with hi show ?thesis by (simp add: D_def add_mult_distrib del: of_nat_mult)
  qed
  have "D k \<le> D j \<and> (D k = D j \<longrightarrow> j \<le> k)" for j
    using lower [of j] upper [of j] by (cases j k rule: linorder_cases) (auto simp: less_imp_le)
  with k show ?thesis by (simp add: nearest_code_def D_def)
qed


subsection \<open>The encoder\<close>

lemma f64_mag_less: "f64_mag w < 2 ^ 63"
proof -
  have low: "(0x7FFFFFFFFFFFFFFF :: u64) = mask 63" by (simp add: mask_eq_exp_minus_1)
  show ?thesis unfolding f64_mag_def low
    by (simp only: take_bit_eq_mask [symmetric] unsigned_take_bit_eq take_bit_eq_mod) (simp add: unat_mod)
qed

lemma f64_abs_parts: "f64_mag (f64_abs w) = f64_mag w" "\<not> f64_neg (f64_abs w)" "unat (f64_abs w) = f64_mag w"
proof -
  have low: "(0x7FFFFFFFFFFFFFFF :: u64) = mask 63" by (simp add: mask_eq_exp_minus_1)
  show "f64_mag (f64_abs w) = f64_mag w" "unat (f64_abs w) = f64_mag w"
    by (simp_all only: f64_mag_def f64_abs_def and.assoc and.idem)
  show "\<not> f64_neg (f64_abs w)" unfolding f64_neg_def f64_abs_def low by (simp only: bit_and_iff bit_mask_iff) simp
qed

definition mag_pattern :: "f64 \<Rightarrow> nat" where
  "mag_pattern v = min (f64_mag v) 0x407C000000000000"

lemma clamped_mag:
  fixes v :: f64
  assumes "\<not> f64_is_nan v"
  defines "m \<equiv> f64_min (f64_abs v) E4M3_MAX"
  shows "unat m = mag_pattern v" "f64_mag m = mag_pattern v" "\<not> f64_neg m"
proof -
  have max: "f64_mag E4M3_MAX = 0x407C000000000000" "\<not> f64_neg E4M3_MAX" "unat E4M3_MAX = 0x407C000000000000"
  proof -
    have "E4M3_MAX = f64_signed False 0x407C000000000000" by (simp add: E4M3_MAX_def f64_signed_def)
    then show "f64_mag E4M3_MAX = 0x407C000000000000" "\<not> f64_neg E4M3_MAX"
      using f64_signed_parts [of "0x407C000000000000" False] by simp_all
    show "unat E4M3_MAX = 0x407C000000000000" by (simp add: E4M3_MAX_def)
  qed
  have nan: "\<not> f64_is_nan (f64_abs v)" "\<not> f64_is_nan E4M3_MAX"
    using assms(1) max by (simp_all add: f64_is_nan_def f64_abs_parts)
  have "m = (if f64_mag v < 0x407C000000000000 then f64_abs v else E4M3_MAX)"
    using nan max by (simp add: m_def f64_min_def f64_units_def f64_abs_parts mag_val_less_iff)
  then show "unat m = mag_pattern v" "f64_mag m = mag_pattern v" "\<not> f64_neg m"
    using max f64_abs_parts [of v] by (simp_all add: mag_pattern_def)
qed

text \<open>The magnitude the encoder computes, on the pattern of the clamped argument.\<close>

definition code_of_mag :: "nat \<Rightarrow> nat" where
  "code_of_mag b =
     (if b div 2 ^ 52 < 1017 then (mag_val 52 b + 2 ^ 1064) div e4m3_unit
      else 8 * (b div 2 ^ 52 - 1016) + (b mod 2 ^ 52 + 2 ^ 48) div 2 ^ 49)"

lemma half_up:
  fixes x H U k :: nat
  assumes "U = 2 * H" "0 < H" "k = (x + H) div U"
  shows "k \<noteq> 0 \<Longrightarrow> (k - 1 + k) * U \<le> 2 * x" "2 * x < (k + (k + 1)) * U" "k * U \<le> x + H"
proof -
  have "k * U + (x + H) mod U = x + H" unfolding assms(3) by (rule div_mult_mod_eq)
  moreover have "(x + H) mod U < U" using assms(1,2) by simp
  ultimately have b: "k * U \<le> x + H" "x + H < k * U + U" by linarith+
  show "k * U \<le> x + H" by (rule b(1))
  show "2 * x < (k + (k + 1)) * U" using b(2) assms(1) by (simp add: algebra_simps)
  assume "k \<noteq> 0"
  then obtain n where "k = Suc n" by (cases k) auto
  with b(1) assms(1) show "(k - 1 + k) * U \<le> 2 * x" by (simp add: algebra_simps)
qed

lemma e4m3_units_small: "n \<le> 16 \<Longrightarrow> e4m3_units n = n"
proof -
  assume n: "n \<le> 16"
  consider "n < 8" | i where "n = i + 8" "i < 8" | "n = 16"
    using n by (metis le_less less_diff_conv2 le_add_diff_inverse2 not_less numeral_Bit0)
  then show ?thesis by cases (simp_all add: e4m3_units_def mag_val_def)
qed

lemma e4m3_units_max: "e4m3_units 126 * e4m3_unit = mag_val 52 0x407C000000000000"
proof -
  have "mag_val 52 0x407C000000000000 = 7 * 2 ^ 50 * 2 ^ 1030" by (simp add: mag_val_def)
  also have "\<dots> = 7 * 2 ^ 15 * e4m3_unit" by (simp only: mult.assoc power_add [symmetric]) simp
  also have "7 * 2 ^ 15 = e4m3_units 126" by (simp add: e4m3_units_def mag_val_def)
  finally show ?thesis by simp
qed

lemma code_of_mag_nearest:
  assumes b: "b \<le> 0x407C000000000000"
  shows "nearest_code (mag_val 52 b) (code_of_mag b)"
proof (rule nearest_codeI)
  show "mag_val 52 b \<le> e4m3_units 126 * e4m3_unit" unfolding e4m3_units_max mag_val_le_iff by (rule b)
  define E where "E = b div 2 ^ 52"
  define k where "k = code_of_mag b"
  have "(code_of_mag b \<noteq> 0 \<longrightarrow> (e4m3_units (k - 1) + e4m3_units k) * e4m3_unit \<le> 2 * mag_val 52 b) \<and>
      2 * mag_val 52 b < (e4m3_units k + e4m3_units (k + 1)) * e4m3_unit"
  proof (cases "E < 1017")
    case True
    define x where "x = mag_val 52 b"
    have code: "k = (x + 2 ^ 1064) div e4m3_unit" using True by (simp add: code_of_mag_def k_def x_def E_def)
    have "b < 1017 * 2 ^ 52" using True by (simp add: E_def div_less_iff_less_mult)
    then have "x < mag_val 52 (1017 * 2 ^ 52)" by (simp only: x_def mag_val_less_iff)
    also have "mag_val 52 (1017 * 2 ^ 52) = 2 ^ 52 * 2 ^ 1016" by (simp add: mag_val_def)
    also have "(2 :: nat) ^ 52 * 2 ^ 1016 = 8 * e4m3_unit" by (simp add: power_add [symmetric])
    finally have x: "x < 8 * e4m3_unit" .
    have U: "e4m3_unit = 2 * 2 ^ 1064" by simp
    note h = half_up [OF U _ code]
    have "k < 9"
    proof (rule ccontr)
      assume "\<not> k < 9"
      then have "9 * e4m3_unit \<le> k * e4m3_unit" by simp
      with h(3) x U show False by simp
    qed
    then have "e4m3_units k = k" "e4m3_units (k - 1) = k - 1" "e4m3_units (k + 1) = k + 1"
      by (simp_all add: e4m3_units_small)
    with h show ?thesis unfolding x_def k_def by simp
  next
    case False
    define e where "e = E - 1017"
    define f where "f = b mod 2 ^ 52"
    define m where "m = (f + 2 ^ 48) div 2 ^ 49"
    define P where "P = (2 :: nat) ^ (E - 1)"
    have k: "k = 8 * Suc e + m" using False by (simp add: k_def code_of_mag_def m_def f_def e_def E_def)
    have f: "f < 2 ^ 52" by (simp add: f_def)
    have h: "m \<noteq> 0 \<Longrightarrow> (m - 1 + m) * 2 ^ 49 \<le> 2 * f" "2 * f < (m + (m + 1)) * 2 ^ 49" "m * 2 ^ 49 \<le> f + 2 ^ 48"
      using half_up [of "2 ^ 49" "2 ^ 48" m f] by (simp_all add: m_def)
    have m: "m < 9" using h(3) f by simp
    have unit: "n * 2 ^ e * e4m3_unit = n * 2 ^ 49 * P" for n
    proof -
      have "e + 1065 = 49 + (E - 1)" using False by (simp add: e_def)
      then show ?thesis by (simp only: mult.assoc P_def power_add [symmetric])
    qed
    have x: "mag_val 52 b = (2 ^ 52 + f) * P" using False by (simp add: mag_val_def P_def f_def E_def)
    have uk: "e4m3_units k = (8 + m) * 2 ^ e"
      using e4m3_units_code [of m "Suc e"] e4m3_units_code [of 0 "Suc (Suc e)"] m by (cases "m = 8") (simp_all add: k)
    have up: "(9 + m) * 2 ^ e \<le> e4m3_units (k + 1)"
      using e4m3_units_code [of "Suc m" "Suc e"] e4m3_units_code [of "m - 7" "Suc (Suc e)"] m
      by (cases "m < 7"; cases "m = 7"; cases "m = 8") (simp_all add: k)
    have "2 * mag_val 52 b < (e4m3_units k + e4m3_units (k + 1)) * e4m3_unit"
    proof -
      have "2 * mag_val 52 b = (2 ^ 53 + 2 * f) * P" by (simp add: x)
      also have "\<dots> < ((17 + 2 * m) * 2 ^ 49) * P" using h(2) by (simp add: P_def)
      also have "\<dots> = (8 + m + (9 + m)) * 2 ^ e * e4m3_unit" unfolding unit by simp
      also have "\<dots> \<le> (e4m3_units k + e4m3_units (k + 1)) * e4m3_unit"
        by (rule mult_right_mono) (use up uk in \<open>simp_all add: add_mult_distrib\<close>)
      finally show ?thesis .
    qed
    moreover have "(e4m3_units (k - 1) + e4m3_units k) * e4m3_unit \<le> 2 * mag_val 52 b"
    proof (cases "m = 0")
      case True
      have "e4m3_units (k - 1) \<le> e4m3_units k" unfolding e4m3_units_def mag_val_le_iff by simp
      then have "(e4m3_units (k - 1) + e4m3_units k) * e4m3_unit \<le> (16 * 2 ^ e) * e4m3_unit"
        using uk True by (intro mult_right_mono) simp_all
      also have "\<dots> \<le> 2 * mag_val 52 b" unfolding unit x by simp
      finally show ?thesis .
    next
      case False
      then have "e4m3_units (k - 1) = (7 + m) * 2 ^ e"
        using e4m3_units_code [of "m - 1" "Suc e"] m by (simp add: k)
      then have "(e4m3_units (k - 1) + e4m3_units k) * e4m3_unit = (7 + m + (8 + m)) * 2 ^ e * e4m3_unit"
        by (simp add: uk add_mult_distrib)
      also have "\<dots> = ((15 + 2 * m) * 2 ^ 49) * P" unfolding unit by simp
      also have "\<dots> \<le> (2 ^ 53 + 2 * f) * P" by (rule mult_right_mono) (use h(1) False in simp_all)
      also have "\<dots> = 2 * mag_val 52 b" by (simp add: x)
      finally show ?thesis .
    qed
    ultimately show ?thesis by simp
  qed
  then show "code_of_mag b \<noteq> 0 \<Longrightarrow> (e4m3_units (code_of_mag b - 1) + e4m3_units (code_of_mag b)) * e4m3_unit \<le> 2 * mag_val 52 b"
    "2 * mag_val 52 b < (e4m3_units (code_of_mag b) + e4m3_units (code_of_mag b + 1)) * e4m3_unit"
    by (simp_all add: k_def)
qed


lemma pattern_fields:
  fixes w :: u64
  assumes "unat w < 2 ^ 63"
  shows "uint (drop_bit 52 w AND 0x7FF) = int (unat w div 2 ^ 52)"
    "uint (drop_bit 49 ((w AND 0xFFFFFFFFFFFFF) + 0x1000000000000)) = int ((unat w mod 2 ^ 52 + 2 ^ 48) div 2 ^ 49)"
proof -
  have m: "(0x7FF :: u64) = mask 11" "(0xFFFFFFFFFFFFF :: u64) = mask 52" by (simp_all add: mask_eq_exp_minus_1)
  have d: "unat w div 2 ^ 52 < 2 ^ 11" using assms by (simp add: div_less_iff_less_mult)
  have "unat (drop_bit 52 w AND mask 11) = unat w div 2 ^ 52"
    using d by (simp only: take_bit_eq_mask [symmetric] unsigned_take_bit_eq take_bit_eq_mod unsigned_drop_bit_eq drop_bit_eq_div)
      (simp add: unat_div unat_mod)
  then show "uint (drop_bit 52 w AND 0x7FF) = int (unat w div 2 ^ 52)" by (simp only: m uint_nat)
  have f: "unat (w AND mask 52) = unat w mod 2 ^ 52"
    by (simp only: take_bit_eq_mask [symmetric] unsigned_take_bit_eq take_bit_eq_mod) (simp add: unat_mod)
  then have "unat ((w AND mask 52) + 0x1000000000000) = unat w mod 2 ^ 52 + 2 ^ 48"
    by (subst unat_add_lem [THEN iffD1]) simp_all
  then have "unat (drop_bit 49 ((w AND mask 52) + 0x1000000000000)) = (unat w mod 2 ^ 52 + 2 ^ 48) div 2 ^ 49"
    by (simp only: unsigned_drop_bit_eq drop_bit_eq_div) (simp add: unat_div)
  then show "uint (drop_bit 49 ((w AND 0xFFFFFFFFFFFFF) + 0x1000000000000)) = int ((unat w mod 2 ^ 52 + 2 ^ 48) div 2 ^ 49)"
    by (simp only: m uint_nat)
qed

lemma code_bits:
  assumes "e < 32" "m < 8"
  shows "push_bit 3 (of_nat e :: u8) OR of_nat m = of_nat (8 * e + m)"
proof -
  have "\<not> bit (push_bit 3 (of_nat e :: u8)) n \<or> \<not> bit (of_nat m :: u8) n" for n
  proof (cases "n < 3")
    case False
    have "take_bit 3 m = m" using assms(2) by (simp add: take_bit_nat_eq_self_iff)
    then have "take_bit 3 (of_nat m :: u8) = of_nat m" by (simp only: take_bit_of_nat)
    then show ?thesis using False by (metis bit_take_bit_iff)
  qed (simp add: bit_push_bit_iff)
  then have "push_bit 3 (of_nat e :: u8) OR of_nat m = push_bit 3 (of_nat e) + of_nat m"
    by (simp add: disjunctive_add)
  then show ?thesis by (simp add: push_bit_eq_mult mult.commute)
qed

lemma subnormal_round:
  assumes "unat m = b" "f64_mag m = b" "\<not> f64_neg m" "b div 2 ^ 52 < 1017"
  shows "f64_round_u8 (f64_mul m 0x4080000000000000) = of_nat (code_of_mag b)" "code_of_mag b \<le> 8"
proof -
  define x where "x = mag_val 52 b"
  obtain n j where n: "x = n * 2 ^ j" "n < 2 ^ 53" "j \<le> b div 2 ^ 52"
    using mag_val_form [of b] by (auto simp: x_def)
  have "f64_exact (n * 2 ^ (j + 9))" by (rule f64_exactI) (use n(2,3) assms(4) in simp_all)
  then have e: "f64_exact (x * 2 ^ 9)" by (simp only: n(1) power_add mult.assoc)
  have "b < 1017 * 2 ^ 52" using assms(4) by (simp add: div_less_iff_less_mult)
  then have "x < mag_val 52 (1017 * 2 ^ 52)" by (simp only: x_def mag_val_less_iff)
  also have "mag_val 52 (1017 * 2 ^ 52) = 2 ^ 52 * 2 ^ 1016" by (simp add: mag_val_def)
  also have "(2 :: nat) ^ 52 * 2 ^ 1016 = 8 * e4m3_unit" by (simp add: power_add [symmetric])
  finally have x: "x < 8 * e4m3_unit" .
  have m: "f64_is m False x" using assms(2-4) by (simp add: f64_is_def x_def div_less_iff_less_mult)
  have p: "f64_is 0x4080000000000000 False (2 ^ 1083)"
  proof -
    have "f64_pow2 9 = 0x4080000000000000" by (simp add: f64_pow2_def f64_signed_def)
    then show ?thesis using f64_is_pow2 [of 9] by simp
  qed
  have "x * 2 ^ 1083 = x * 2 ^ 9 * 2 ^ 1074" by (simp only: mult.assoc power_add [symmetric]) simp
  from f64_is_mul [OF m p this e] have v: "mag_val 52 (f64_mag (f64_mul m 0x4080000000000000)) = x * 2 ^ 9"
    by (simp add: f64_is_def)
  have c: "code_of_mag b = (x + 2 ^ 1064) div e4m3_unit" using assms(4) by (simp add: code_of_mag_def x_def)
  have "2 * (x * 2 ^ 9) + 2 ^ 1074 = 2 ^ 10 * (x + 2 ^ 1064)" by (simp add: add_mult_distrib2)
  moreover have "(2 :: nat) ^ 1075 = 2 ^ 10 * e4m3_unit" by (simp only: power_add [symmetric]) simp
  ultimately have q: "(2 * (x * 2 ^ 9) + 2 ^ 1074) div 2 ^ 1075 = code_of_mag b"
    by (simp only: c div_mult_mult1_if) simp
  have "x + 2 ^ 1064 < 9 * e4m3_unit" using x by simp
  then show le: "code_of_mag b \<le> 8" unfolding c by (simp add: less_mult_imp_div_less less_Suc_eq_le [symmetric])
  show "f64_round_u8 (f64_mul m 0x4080000000000000) = of_nat (code_of_mag b)"
    unfolding f64_round_u8_def v q using le by simp
qed

lemma encode_form:
  assumes "\<not> f64_is_nan v"
  shows "encode_e4m3 v = (if f64_lt v 0 then 0x80 else 0) OR of_nat (code_of_mag (mag_pattern v))"
proof -
  define s where "s = (if f64_lt v 0 then 0x80 else 0 :: u8)"
  define m where "m = f64_min (f64_abs v) E4M3_MAX"
  define b where "b = mag_pattern v"
  note cm = clamped_mag [OF assms, folded m_def b_def]
  have b: "b \<le> 0x407C000000000000" by (simp add: b_def mag_pattern_def)
  have near: "code_of_mag b \<le> 126" using code_of_mag_nearest [OF b] by (simp add: nearest_code_def)
  have enc: "encode_e4m3 v = (if b = 0 then s
      else if uint (drop_bit 52 m AND 0x7FF) < 1017 then
        (let c = f64_round_u8 (f64_mul m 0x4080000000000000) in if c \<ge> 8 then s OR 0x08 else s OR c)
      else (let e = uint (drop_bit 52 m AND 0x7FF) - 1016;
                c = uint (drop_bit 49 ((m AND 0xFFFFFFFFFFFFF) + 0x1000000000000));
                (e, c) = (if c \<ge> 8 then (e + 1, 0) else (e, c))
            in (s OR push_bit 3 (of_int (max 1 (min 15 e)))) OR of_int (max 0 (min 7 c))))"
    using assms cm(2) by (simp add: encode_e4m3_def Let_def flip: s_def m_def)
  have u: "unat m < 2 ^ 63" using cm(1) b by simp
  note pf = pattern_fields [OF u, unfolded cm(1)]
  show ?thesis
  proof (cases "b div 2 ^ 52 < 1017")
    case True
    note sr = subnormal_round [OF cm(1,2,3) True]
    have "b = 0 \<Longrightarrow> code_of_mag b = 0" by (simp add: code_of_mag_def mag_val_def)
    moreover have "(8 :: u8) \<le> of_nat (code_of_mag b) \<longleftrightarrow> code_of_mag b = 8"
      using sr(2) by (simp add: word_le_nat_alt unat_of_nat)
    ultimately show ?thesis
      using True sr(1) by (simp add: enc pf(1) Let_def s_def flip: b_def)
  next
    case False
    define e where "e = b div 2 ^ 52 - 1016"
    define c where "c = (b mod 2 ^ 52 + 2 ^ 48) div 2 ^ 49"
    have k: "code_of_mag b = 8 * e + c" using False by (simp add: code_of_mag_def e_def c_def)
    have "c \<le> 8" by (simp add: c_def less_Suc_eq_le [symmetric] div_less_iff_less_mult)
    have e: "1 \<le> e" "int (b div 2 ^ 52) - 1016 = int e" "b \<noteq> 0" using False by (auto simp: e_def)
    define e' c' where "e' = (if c = 8 then e + 1 else e)" and "c' = (if c = 8 then 0 else c)"
    have ec: "code_of_mag b = 8 * e' + c'" "c' < 8" "1 \<le> e'" "e' < 16"
      using k near \<open>c \<le> 8\<close> e(1) by (auto simp: e'_def c'_def split: if_splits)
    have "encode_e4m3 v = (s OR push_bit 3 (of_int (max 1 (min 15 (int e'))))) OR of_int (max 0 (min 7 (int c')))"
      using False e \<open>c \<le> 8\<close> pf(1) pf(2) [folded c_def] by (simp add: enc Let_def e'_def c'_def add.commute)
    also have "of_int (max 1 (min 15 (int e'))) = (of_nat e' :: u8)" using ec by (simp add: min_absorb2 max_absorb2)
    also have "of_int (max 0 (min 7 (int c'))) = (of_nat c' :: u8)" using ec by (simp add: min_absorb2)
    finally show ?thesis using code_bits [of e' c'] ec by (simp add: s_def or.assoc flip: b_def)
  qed
qed


lemma sign_or_bits:
  assumes "k \<le> 126"
  shows "unat (((if s then 0x80 else 0) OR of_nat k :: u8) AND 0x7F) = k"
    "bit ((if s then 0x80 else 0) OR of_nat k :: u8) 7 = s"
proof -
  have m: "(0x7F :: u8) = mask 7" by (simp add: mask_eq_exp_minus_1)
  have "(0x80 :: u8) AND mask 7 = 0" by (simp add: mask_eq_exp_minus_1)
  moreover have k: "(of_nat k :: u8) AND mask 7 = of_nat k"
    using assms by (simp only: take_bit_eq_mask [symmetric] take_bit_of_nat) (simp add: take_bit_eq_mod)
  ultimately have "((if s then 0x80 else 0) OR of_nat k :: u8) AND 0x7F = of_nat k"
    by (simp add: m bit.conj_disj_distrib2)
  with assms show "unat (((if s then 0x80 else 0) OR of_nat k :: u8) AND 0x7F) = k" by (simp add: unat_of_nat)
  have "\<not> bit (of_nat k :: u8) 7" by (subst k [symmetric]) (simp add: bit_and_iff bit_mask_iff)
  moreover have "(0x80 :: u8) = 2 ^ 7" by simp
  then have "bit (0x80 :: u8) 7" by (simp only: bit_exp_iff) simp
  ultimately show "bit ((if s then 0x80 else 0) OR of_nat k :: u8) 7 = s" by (simp add: bit_or_iff)
qed

lemma encode_nearest_code:
  assumes "\<not> f64_is_nan v"
  shows "nearest_code (mag_val 52 (mag_pattern v)) (unat (encode_e4m3 v AND 0x7F))" "bit (encode_e4m3 v) 7 = f64_lt v 0"
proof -
  have b: "mag_pattern v \<le> 0x407C000000000000" by (simp add: mag_pattern_def)
  note n = code_of_mag_nearest [OF b]
  then have "code_of_mag (mag_pattern v) \<le> 126" by (simp add: nearest_code_def)
  with n show "nearest_code (mag_val 52 (mag_pattern v)) (unat (encode_e4m3 v AND 0x7F))" "bit (encode_e4m3 v) 7 = f64_lt v 0"
    by (simp_all only: encode_form [OF assms] sign_or_bits)
qed

lemma decode_units:
  assumes "k \<le> 126"
  shows "f64_units (decode_e4m3 (of_nat k)) = int (e4m3_units k * e4m3_unit)"
proof -
  have "(of_nat k :: u8) \<noteq> 0x7F" "(of_nat k :: u8) \<noteq> 0xFF" using assms by (simp_all add: word_unat_eq_iff unat_of_nat)
  from decode_e4m3_is [OF this] sign_or_bits [OF assms, of False] have
    "f64_is (decode_e4m3 (of_nat k)) False (e4m3_units k * e4m3_unit)" by simp
  then show ?thesis by (simp add: f64_is_units)
qed

lemma clamped_units: "int (mag_val 52 (mag_pattern v)) = min \<bar>f64_units v\<bar> (f64_units E4M3_MAX)"
proof -
  have "E4M3_MAX = f64_signed False 0x407C000000000000" by (simp add: E4M3_MAX_def f64_signed_def)
  then have "f64_units E4M3_MAX = int (mag_val 52 0x407C000000000000)"
    using f64_signed_parts [of "0x407C000000000000" False] by (simp add: f64_units_def)
  moreover have "\<bar>f64_units v\<bar> = int (mag_val 52 (f64_mag v))" by (simp add: f64_units_def)
  ultimately show ?thesis
    using mag_val_le_iff [of 52 "f64_mag v" "0x407C000000000000"] mag_val_le_iff [of 52 "0x407C000000000000" "f64_mag v"]
    by (auto simp: mag_pattern_def min_def)
qed

text \<open>C14: for every number the encoder picks the code whose magnitude is nearest to the argument's magnitude
  clamped to 448, the larger code on a tie, and sets the sign bit exactly for arguments below zero.\<close>

theorem encode_e4m3_nearest:
  assumes "\<not> f64_is_nan v"
  shows "unat (encode_e4m3 v AND 0x7F) \<le> 126 \<and> bit (encode_e4m3 v) 7 = f64_lt v 0 \<and>
    (\<forall>j \<le> 126.
       \<bar>min \<bar>f64_units v\<bar> (f64_units E4M3_MAX) - f64_units (decode_e4m3 (encode_e4m3 v AND 0x7F))\<bar>
         \<le> \<bar>min \<bar>f64_units v\<bar> (f64_units E4M3_MAX) - f64_units (decode_e4m3 (of_nat j))\<bar> \<and>
       (\<bar>min \<bar>f64_units v\<bar> (f64_units E4M3_MAX) - f64_units (decode_e4m3 (encode_e4m3 v AND 0x7F))\<bar>
         = \<bar>min \<bar>f64_units v\<bar> (f64_units E4M3_MAX) - f64_units (decode_e4m3 (of_nat j))\<bar>
         \<longrightarrow> j \<le> unat (encode_e4m3 v AND 0x7F)))"
proof -
  note n = encode_nearest_code [OF assms]
  then have k: "unat (encode_e4m3 v AND 0x7F) \<le> 126" by (simp add: nearest_code_def)
  have "decode_e4m3 (encode_e4m3 v AND 0x7F) = decode_e4m3 (of_nat (unat (encode_e4m3 v AND 0x7F)))" by simp
  also note decode_units [OF k]
  finally have d: "f64_units (decode_e4m3 (encode_e4m3 v AND 0x7F)) = int (e4m3_units (unat (encode_e4m3 v AND 0x7F)) * e4m3_unit)" .
  from n show ?thesis by (auto simp only: d nearest_code_def clamped_units decode_units)
qed

lemma encode_e4m3_nearest_witness:
  "\<bar>min \<bar>f64_units 0x3FF3333333333333\<bar> (f64_units E4M3_MAX) - f64_units (decode_e4m3 (encode_e4m3 0x3FF3333333333333 AND 0x7F))\<bar>
     \<le> \<bar>min \<bar>f64_units 0x3FF3333333333333\<bar> (f64_units E4M3_MAX) - f64_units (decode_e4m3 0x3A)\<bar>"
proof -
  have "(0x3A :: nat) \<le> 126" by simp
  moreover have "\<not> f64_is_nan 0x3FF3333333333333" by (simp add: f64_is_nan_def f64_mag_def)
  ultimately show ?thesis
    using encode_e4m3_nearest [of "0x3FF3333333333333"] by (metis of_nat_numeral)
qed

text \<open>A stored code survives the trip through its value: encoding what a code decodes to gives the code
  back, for every code but the two NaNs and negative zero.\<close>

theorem e4m3_roundtrip:
  assumes "c \<noteq> 0x7F" "c \<noteq> 0xFF" "c \<noteq> 0x80"
  shows "encode_e4m3 (decode_e4m3 c) = c"
proof -
  define k where "k = unat (c AND 0x7F)"
  note d = decode_e4m3_is [OF assms(1,2), folded k_def]
  have c: "c = (if bit c 7 then 0x80 else 0) OR of_nat k"
  proof -
    have "(0x80 :: u8) OR 0x7F = - 1" by simp
    then have "c = (c AND 0x80) OR (c AND 0x7F)" by (simp only: bit.conj_disj_distrib [symmetric] bit.conj_one_right)
    moreover have "(0x80 :: u8) = 2 ^ 7" by simp
    then have "c AND 0x80 = (if bit c 7 then 0x80 else 0)" by (simp only: and_exp)
    ultimately show ?thesis by (simp add: k_def)
  qed
  define v where "v = decode_e4m3 c"
  have k: "k \<le> 126"
  proof -
    have "k < 128" by (simp add: k_def code_fields)
    moreover have "k \<noteq> 127" using c assms(1,2) by (auto split: if_splits)
    ultimately show ?thesis by simp
  qed
  have nan: "\<not> f64_is_nan v" and val: "mag_val 52 (f64_mag v) = e4m3_units k * e4m3_unit"
    using d f64_is_finite [OF d] by (simp_all add: v_def f64_is_def)
  have le: "e4m3_units k \<le> e4m3_units 126" using k by (simp only: e4m3_units_def mag_val_le_iff)
  then have "mag_val 52 (f64_mag v) \<le> mag_val 52 0x407C000000000000" by (simp only: val flip: e4m3_units_max)
      (simp only: mult_le_mono1)
  then have pat: "mag_pattern v = f64_mag v" by (simp only: mag_val_le_iff mag_pattern_def)
  have "mag_pattern v \<le> 0x407C000000000000" by (simp add: mag_pattern_def)
  from code_of_mag_nearest [OF this] k
  have "\<bar>int (e4m3_units k * e4m3_unit) - int (e4m3_units (code_of_mag (mag_pattern v)) * e4m3_unit)\<bar> \<le> 0"
    by (simp only: nearest_code_def pat val) force
  then have "e4m3_units (code_of_mag (mag_pattern v)) = e4m3_units k" by simp
  then have code: "code_of_mag (mag_pattern v) = k"
    unfolding e4m3_units_def using mag_val_less_iff [of 3] by (metis linorder_neqE_nat order_less_irrefl)
  have "f64_units v = (if bit c 7 then - int (e4m3_units k * e4m3_unit) else int (e4m3_units k * e4m3_unit))"
    unfolding v_def by (rule f64_is_units [OF d])
  moreover have "f64_units 0 = 0" "\<not> f64_is_nan 0" by (simp_all add: f64_units_def f64_mag_def f64_is_nan_def)
  moreover have "e4m3_units k = 0 \<longleftrightarrow> k = 0" by (simp add: e4m3_units_def)
  ultimately have "f64_lt v 0 = bit c 7" using c assms(3) nan by (auto simp: f64_lt_def split: if_splits)
  with encode_form [OF nan] code c show ?thesis by (simp add: v_def)
qed

lemma e4m3_roundtrip_witness: "encode_e4m3 (decode_e4m3 0xB9) = 0xB9"
  by (rule e4m3_roundtrip) simp_all

end
