(* ===== verification/LoadMat.thy ===== *)
theory LoadMat
  imports E4m3
begin

text \<open>
  The loader's matrices (\<open>Mat\<close>, \<open>crates/mimo26-load/src/lib.rs\<close>) and the block quantizer of
  \<open>e4m3.rs\<close>. A matrix is a row-major list with its two dimensions; every access is an index
  into that list, so an index past a row's end reads the next row, and one past the list panics.
\<close>

subsection \<open>Errors\<close>

text \<open>\<open>what\<close> is a formatted message; the model keeps the numbers it formats.\<close>

datatype load_what =
  MatDataLen nat nat nat | StackCols nat nat | ScaleShape nat nat nat nat | ScaleGridTooSmall nat nat
  | ScalePerRowShape nat nat nat nat | NaiveScaleRow nat nat

datatype load_error =
  UnevenShardRows "nat list"
  | SegmentMismatch nat nat nat
  | ShardListMismatch
  | MissingRequiredWeights "string list"
  | MissingRouterBias string
  | NameAudit "string list"
  | ShapeMismatch load_what

subsection \<open>Mat\<close>

record 'a mat =
  mat_rows :: nat
  mat_cols :: nat
  mat_data :: "'a list"

definition from_row_major :: "nat \<Rightarrow> nat \<Rightarrow> 'a list \<Rightarrow> ('a mat, load_error) outcome" where
  "from_row_major rows cols xs =
     (if length xs \<noteq> rows * cols then Err (ShapeMismatch (MatDataLen (length xs) rows cols))
      else Ok \<lparr>mat_rows = rows, mat_cols = cols, mat_data = xs\<rparr>)"

definition mat_row :: "'a mat \<Rightarrow> nat \<Rightarrow> ('a list, 'e) outcome" where
  "mat_row m r = subslice (mat_data m) (r * mat_cols m) ((r + 1) * mat_cols m)"

definition mat_zeros :: "nat \<Rightarrow> nat \<Rightarrow> 'a::zero mat" where
  "mat_zeros rows cols = \<lparr>mat_rows = rows, mat_cols = cols, mat_data = replicate (rows * cols) 0\<rparr>"

definition mat_get :: "'a mat \<Rightarrow> nat \<Rightarrow> nat \<Rightarrow> ('a, 'e) outcome" where
  "mat_get m r c = index_at (mat_data m) (r * mat_cols m + c)"

definition mat_set :: "'a mat \<Rightarrow> nat \<Rightarrow> nat \<Rightarrow> 'a \<Rightarrow> ('a mat, 'e) outcome" where
  "mat_set m r c v =
     (if r * mat_cols m + c < length (mat_data m)
      then Ok (m\<lparr>mat_data := (mat_data m)[r * mat_cols m + c := v]\<rparr>) else Panic)"

definition slice_rows_of :: "'a mat \<Rightarrow> nat \<Rightarrow> nat \<Rightarrow> ('a mat, 'e) outcome" where
  "slice_rows_of m lo hi =
     (if \<not> (hi \<le> mat_rows m \<and> lo \<le> hi) then Panic
      else obind (subslice (mat_data m) (lo * mat_cols m) (hi * mat_cols m))
        (\<lambda>xs. Ok \<lparr>mat_rows = hi - lo, mat_cols = mat_cols m, mat_data = xs\<rparr>))"

definition stack_rows :: "'a mat list \<Rightarrow> ('a mat, load_error) outcome" where
  "stack_rows parts =
     (case parts of [] \<Rightarrow> Ok \<lparr>mat_rows = 0, mat_cols = 0, mat_data = []\<rparr>
      | p # _ \<Rightarrow>
        obind (fold_results (\<lambda>(rows, xs) q.
            if mat_cols q \<noteq> mat_cols p then Err (ShapeMismatch (StackCols (mat_cols q) (mat_cols p)))
            else Ok (rows + mat_rows q, xs @ mat_data q)) (0, []) parts)
          (\<lambda>(rows, xs). Ok \<lparr>mat_rows = rows, mat_cols = mat_cols p, mat_data = xs\<rparr>))"

definition ceil_div :: "nat \<Rightarrow> nat \<Rightarrow> (nat, 'e) outcome" where
  "ceil_div a b = (if b = 0 then Panic else Ok (a div b + (if a mod b \<noteq> 0 then 1 else 0)))"

subsection \<open>Block quantization\<close>

type_synonym block = "nat \<times> nat"

text \<open>The cells of a rectangle, row by row.\<close>

definition cells :: "nat \<Rightarrow> nat \<Rightarrow> nat \<Rightarrow> nat \<Rightarrow> (nat \<times> nat) list" where
  "cells r0 r1 c0 c1 = concat (map (\<lambda>r. map (\<lambda>c. (r, c)) [c0..<c1]) [r0..<r1])"

definition block_cells :: "nat \<Rightarrow> nat \<Rightarrow> block \<Rightarrow> nat \<Rightarrow> nat \<Rightarrow> (nat \<times> nat) list" where
  "block_cells rows cols b bi bj =
     cells (bi * fst b) (min (bi * fst b + fst b) rows) (bj * snd b) (min (bj * snd b + snd b) cols)"

definition block_scale :: "f64 \<Rightarrow> f32" where
  "block_scale amax = (if f64_lt 0 amax then f32_of_f64 (f64_div amax E4M3_MAX) else 0x3F800000)"

definition quantize_one :: "f64 mat \<Rightarrow> block \<Rightarrow> u8 mat \<times> f32 mat \<Rightarrow> nat \<times> nat \<Rightarrow> (u8 mat \<times> f32 mat, load_error) outcome" where
  "quantize_one w b cs p =
     (let bi = fst p; bj = snd p; rc = block_cells (mat_rows w) (mat_cols w) b bi bj in
      obind (fold_results (\<lambda>a rc. obind (mat_get w (fst rc) (snd rc)) (\<lambda>x. Ok (f64_max a (f64_abs x)))) 0 rc) (\<lambda>amax.
      let s = block_scale amax in
      obind (mat_set (snd cs) bi bj s) (\<lambda>scale.
      obind (fold_results (\<lambda>codes rc. obind (mat_get w (fst rc) (snd rc))
               (\<lambda>x. mat_set codes (fst rc) (snd rc) (encode_e4m3 (f64_div x (f64_of_f32 s))))) (fst cs) rc) (\<lambda>codes.
      Ok (codes, scale)))))"

definition quantize_block :: "f64 mat \<Rightarrow> block \<Rightarrow> (u8 mat \<times> f32 mat, load_error) outcome" where
  "quantize_block w b =
     obind (ceil_div (mat_rows w) (fst b)) (\<lambda>rb. obind (ceil_div (mat_cols w) (snd b)) (\<lambda>cb.
       fold_results (quantize_one w b) (mat_zeros (mat_rows w) (mat_cols w), mat_zeros rb cb) (cells 0 rb 0 cb)))"

definition dequantized :: "u8 \<Rightarrow> f32 \<Rightarrow> f32" where
  "dequantized code scale = f32_of_f64 (f64_mul (decode_e4m3 code) (f64_of_f32 scale))"

definition dequantize_block :: "u8 mat \<Rightarrow> f32 mat \<Rightarrow> block \<Rightarrow> (f32 mat, load_error) outcome" where
  "dequantize_block codes scale_inv b =
     obind (ceil_div (mat_rows codes) (fst b)) (\<lambda>rb. obind (ceil_div (mat_cols codes) (snd b)) (\<lambda>cb.
       if mat_rows scale_inv \<noteq> rb \<or> mat_cols scale_inv \<noteq> cb
       then Err (ShapeMismatch (ScaleShape (mat_rows scale_inv) (mat_cols scale_inv) rb cb))
       else fold_results (\<lambda>out rc. obind (mat_get codes (fst rc) (snd rc)) (\<lambda>k.
              obind (mat_get scale_inv (fst rc div fst b) (snd rc div snd b)) (\<lambda>s.
              mat_set out (fst rc) (snd rc) (dequantized k s))))
            (mat_zeros (mat_rows codes) (mat_cols codes)) (cells 0 (mat_rows codes) 0 (mat_cols codes))))"

subsection \<open>Matrices as functions of their cells\<close>

definition mat_ok :: "'a mat \<Rightarrow> bool" where
  "mat_ok m \<longleftrightarrow> length (mat_data m) = mat_rows m * mat_cols m"

definition mat_at :: "'a mat \<Rightarrow> nat \<Rightarrow> nat \<Rightarrow> 'a" where
  "mat_at m r c = mat_data m ! (r * mat_cols m + c)"

definition mat_of :: "nat \<Rightarrow> nat \<Rightarrow> (nat \<Rightarrow> nat \<Rightarrow> 'a) \<Rightarrow> 'a mat" where
  "mat_of rows cols g = \<lparr>mat_rows = rows, mat_cols = cols, mat_data = map (\<lambda>i. g (i div cols) (i mod cols)) [0..<rows * cols]\<rparr>"

lemma cell_index: "r * cols + c < rows * cols" if "r < rows" "c < cols" for r c :: nat
proof -
  have "r * cols + c < Suc r * cols" using that(2) by simp
  also have "\<dots> \<le> rows * cols" by (rule mult_le_mono1) (use that(1) in simp)
  finally show ?thesis .
qed

lemma mat_of_simps [simp]:
  "mat_rows (mat_of rows cols g) = rows" "mat_cols (mat_of rows cols g) = cols" "mat_ok (mat_of rows cols g)"
  "r < rows \<Longrightarrow> c < cols \<Longrightarrow> mat_at (mat_of rows cols g) r c = g r c"
  using cell_index [of r rows c cols] by (simp_all add: mat_of_def mat_ok_def mat_at_def)

lemma mat_eq_mat_of:
  assumes "mat_ok m" "\<And>r c. r < mat_rows m \<Longrightarrow> c < mat_cols m \<Longrightarrow> mat_at m r c = g r c"
  shows "m = mat_of (mat_rows m) (mat_cols m) g"
proof -
  have "mat_data m = map (\<lambda>i. g (i div mat_cols m) (i mod mat_cols m)) [0..<mat_rows m * mat_cols m]"
  proof (rule nth_equalityI)
    fix i assume "i < length (mat_data m)"
    then have i: "i < mat_rows m * mat_cols m" using assms(1) by (simp add: mat_ok_def)
    then have "i div mat_cols m < mat_rows m" "i mod mat_cols m < mat_cols m"
      by (simp_all add: less_mult_imp_div_less) (metis mod_less_divisor mult_0_right not_gr_zero not_less_zero)
    from assms(2) [OF this] i show "mat_data m ! i = map (\<lambda>i. g (i div mat_cols m) (i mod mat_cols m)) [0..<mat_rows m * mat_cols m] ! i"
      by (simp add: mat_at_def)
  qed (use assms(1) in \<open>simp add: mat_ok_def\<close>)
  then show ?thesis by (simp add: mat_of_def)
qed

lemma mat_of_cong:
  "(\<And>r c. r < rows \<Longrightarrow> c < cols \<Longrightarrow> g r c = h r c) \<Longrightarrow> mat_of rows cols g = mat_of rows cols h"
  using mat_eq_mat_of [of "mat_of rows cols g" h] by simp

lemma mat_get_ok [simp]: "mat_ok m \<Longrightarrow> r < mat_rows m \<Longrightarrow> c < mat_cols m \<Longrightarrow> mat_get m r c = Ok (mat_at m r c)"
  using cell_index [of r "mat_rows m" c "mat_cols m"] by (simp add: mat_get_def mat_at_def index_at_def mat_ok_def)

lemma mat_zeros_simps [simp]: "mat_rows (mat_zeros r c) = r" "mat_cols (mat_zeros r c) = c" "mat_ok (mat_zeros r c)"
  by (simp_all add: mat_zeros_def mat_ok_def)

lemma set_cells: "set (cells r0 r1 c0 c1) = {r0..<r1} \<times> {c0..<c1}"
  by (auto simp: cells_def)

text \<open>Writing the cells of a list, in any order and with repetitions.\<close>

definition mat_fill :: "(nat \<Rightarrow> nat \<Rightarrow> 'a) \<Rightarrow> (nat \<times> nat) list \<Rightarrow> 'a mat \<Rightarrow> 'a mat" where
  "mat_fill g ps m = foldl (\<lambda>m p. m\<lparr>mat_data := (mat_data m)[fst p * mat_cols m + snd p := g (fst p) (snd p)]\<rparr>) m ps"

lemma mat_fill_steps [simp]:
  "mat_fill g [] m = m"
  "mat_fill g (p # ps) m = mat_fill g ps (m\<lparr>mat_data := (mat_data m)[fst p * mat_cols m + snd p := g (fst p) (snd p)]\<rparr>)"
  by (simp_all add: mat_fill_def)

lemma mat_fill_shape:
  "mat_rows (mat_fill g ps m) = mat_rows m \<and> mat_cols (mat_fill g ps m) = mat_cols m \<and>
   length (mat_data (mat_fill g ps m)) = length (mat_data m)"
  by (induction ps arbitrary: m) simp_all

lemma mat_fill_simps [simp]:
  "mat_rows (mat_fill g ps m) = mat_rows m" "mat_cols (mat_fill g ps m) = mat_cols m"
  "mat_ok (mat_fill g ps m) = mat_ok m"
  by (simp_all add: mat_ok_def mat_fill_shape)

lemma mat_fill_append: "mat_fill g (ps @ qs) m = mat_fill g qs (mat_fill g ps m)"
  by (simp add: mat_fill_def)

lemma mat_fill_cong: "(\<And>p. p \<in> set ps \<Longrightarrow> g (fst p) (snd p) = h (fst p) (snd p)) \<Longrightarrow> mat_fill g ps m = mat_fill h ps m"
  by (induction ps arbitrary: m) simp_all

lemma cell_inject: "c < cols \<Longrightarrow> d < cols \<Longrightarrow> r * cols + c = s * cols + d \<longleftrightarrow> r = s \<and> c = d" for r s c d cols :: nat
  by (metis add.commute div_mult_self3 div_less mod_less mod_mult_self3 add_cancel_right_right less_nat_zero_code)

lemma mat_fill_at:
  assumes "mat_ok m" "\<forall>p \<in> set ps. fst p < mat_rows m \<and> snd p < mat_cols m" "r < mat_rows m" "c < mat_cols m"
  shows "mat_at (mat_fill g ps m) r c = (if (r, c) \<in> set ps then g r c else mat_at m r c)"
  using assms
proof (induction ps arbitrary: m)
  case (Cons p ps)
  define m' where "m' = m\<lparr>mat_data := (mat_data m)[fst p * mat_cols m + snd p := g (fst p) (snd p)]\<rparr>"
  have "mat_at m' r c = (if (r, c) = p then g r c else mat_at m r c)"
    using Cons.prems cell_inject [of "snd p" "mat_cols m" c "fst p" r] cell_index [of r "mat_rows m" c "mat_cols m"]
    by (auto simp: mat_at_def m'_def mat_ok_def nth_list_update)
  moreover have "mat_ok m'" "mat_rows m' = mat_rows m" "mat_cols m' = mat_cols m"
    using Cons.prems(1) by (simp_all add: m'_def mat_ok_def)
  ultimately show ?case using Cons.IH [of m'] Cons.prems by (auto simp flip: m'_def)
qed simp

lemma fill_cells:
  assumes "mat_ok m" "\<forall>p \<in> set ps. fst p < mat_rows m \<and> snd p < mat_cols m"
    "\<And>m p. p \<in> set ps \<Longrightarrow> f m p = (mat_set m (fst p) (snd p) (g (fst p) (snd p)) :: ('a mat, 'e) outcome)"
  shows "fold_results f m ps = Ok (mat_fill g ps m)"
  using assms
proof (induction ps arbitrary: m)
  case (Cons p ps)
  then show ?case using cell_index [of "fst p" "mat_rows m" "snd p" "mat_cols m"] by (simp add: mat_set_def mat_ok_def)
qed simp

lemma fill_all:
  assumes "mat_ok m"
  shows "mat_fill g (cells 0 (mat_rows m) 0 (mat_cols m)) m = mat_of (mat_rows m) (mat_cols m) g"
  using mat_eq_mat_of [of "mat_fill g (cells 0 (mat_rows m) 0 (mat_cols m)) m" g] assms
  by (simp add: mat_fill_at set_cells)


subsection \<open>The block loops are maps over the cells\<close>

definition cdiv :: "nat \<Rightarrow> nat \<Rightarrow> nat" where
  "cdiv a b = a div b + (if a mod b \<noteq> 0 then 1 else 0)"

lemma ceil_div_ok [simp]: "0 < b \<Longrightarrow> ceil_div a b = Ok (cdiv a b)"
  by (simp add: ceil_div_def cdiv_def)

lemma less_cdiv_iff: "0 < b \<Longrightarrow> i < cdiv a b \<longleftrightarrow> i * b < a"
proof -
  assume b: "0 < b"
  have "i < cdiv a b \<longleftrightarrow> i < a div b \<or> (i = a div b \<and> a mod b \<noteq> 0)" by (auto simp: cdiv_def)
  also have "\<dots> \<longleftrightarrow> i * b < a"
  proof (cases i "a div b" rule: linorder_cases)
    case less
    then have "Suc i * b \<le> a" using less_eq_div_iff_mult_less_eq [OF b, of "Suc i" a] by simp
    with b less show ?thesis by simp
  next
    case equal
    have "n < n + m \<longleftrightarrow> 0 < m" for n m :: nat by simp
    from this [of "a div b * b" "a mod b"] equal show ?thesis by (simp only: div_mult_mod_eq) simp
  next
    case greater
    then have "a < i * b" using b by (simp add: div_less_iff_less_mult)
    with greater show ?thesis by simp
  qed
  finally show ?thesis .
qed

lemma div_less_cdiv: "0 < b \<Longrightarrow> r < a \<Longrightarrow> r div b < cdiv a b"
  by (simp add: less_cdiv_iff) (meson le_less_trans div_times_less_eq_dividend)

text \<open>The cells of block \<open>(bi, bj)\<close> are those whose coordinates divide to it.\<close>

lemma set_block_cells:
  assumes "0 < fst b" "0 < snd b"
  shows "set (block_cells rows cols b bi bj) =
    {(r, c). r < rows \<and> c < cols \<and> r div fst b = bi \<and> c div snd b = bj}"
proof -
  have d: "bi * n \<le> r \<and> r < bi * n + n \<longleftrightarrow> r div n = bi" if "0 < n" for r n bi :: nat
    using that by (metis add.commute div_nat_eqI dividend_less_times_div div_times_less_eq_dividend mult.commute mult_Suc_right)
  have "(r, c) \<in> set (block_cells rows cols b bi bj) \<longleftrightarrow>
      r < rows \<and> c < cols \<and> (bi * fst b \<le> r \<and> r < bi * fst b + fst b) \<and> (bj * snd b \<le> c \<and> c < bj * snd b + snd b)" for r c
    by (auto simp: block_cells_def set_cells)
  then show ?thesis by (auto simp only: d [OF assms(1)] d [OF assms(2)] mem_Collect_eq split: prod.splits)
qed

lemma fold_read:
  assumes "mat_ok m" "\<forall>p \<in> set ps. fst p < mat_rows m \<and> snd p < mat_cols m"
  shows "fold_results (\<lambda>a p. obind (mat_get m (fst p) (snd p)) (\<lambda>x. Ok (f a x))) a ps =
    (Ok (foldl (\<lambda>a p. f a (mat_at m (fst p) (snd p))) a ps) :: ('b, 'e) outcome)"
  using assms by (intro fold_results_all_Ok) auto

text \<open>The largest magnitude of a block, as \<open>f64::max\<close> folds it.\<close>

definition block_amax :: "f64 mat \<Rightarrow> block \<Rightarrow> nat \<Rightarrow> nat \<Rightarrow> f64" where
  "block_amax w b bi bj =
     foldl (\<lambda>a p. f64_max a (f64_abs (mat_at w (fst p) (snd p)))) 0 (block_cells (mat_rows w) (mat_cols w) b bi bj)"

lemma quantize_one_eq:
  assumes w: "mat_ok w" and b: "0 < fst b" "0 < snd b"
    and c: "mat_ok codes" "mat_rows codes = mat_rows w" "mat_cols codes = mat_cols w"
    and s: "mat_ok scale" "fst p < mat_rows scale" "snd p < mat_cols scale"
  shows "quantize_one w b (codes, scale) p =
    Ok (mat_fill (\<lambda>r c. encode_e4m3 (f64_div (mat_at w r c) (f64_of_f32 (block_scale (block_amax w b (r div fst b) (c div snd b))))))
          (block_cells (mat_rows w) (mat_cols w) b (fst p) (snd p)) codes,
        mat_fill (\<lambda>bi bj. block_scale (block_amax w b bi bj)) [p] scale)"
proof -
  define rc where "rc = block_cells (mat_rows w) (mat_cols w) b (fst p) (snd p)"
  have rc: "\<forall>q \<in> set rc. fst q < mat_rows w \<and> snd q < mat_cols w" by (auto simp: rc_def set_block_cells [OF b])
  define s where "s = block_scale (block_amax w b (fst p) (snd p))"
  have am: "fold_results (\<lambda>a q. obind (mat_get w (fst q) (snd q)) (\<lambda>x. Ok (f64_max a (f64_abs x)))) 0 rc =
      (Ok (block_amax w b (fst p) (snd p)) :: (f64, load_error) outcome)"
    using fold_read [OF w rc, where f = "\<lambda>a x. f64_max a (f64_abs x)" and a = 0] by (simp add: block_amax_def rc_def)
  have codes: "fold_results (\<lambda>codes q. obind (mat_get w (fst q) (snd q))
        (\<lambda>x. mat_set codes (fst q) (snd q) (encode_e4m3 (f64_div x (f64_of_f32 s))))) codes rc =
      (Ok (mat_fill (\<lambda>r c. encode_e4m3 (f64_div (mat_at w r c) (f64_of_f32 s))) rc codes) :: (u8 mat, load_error) outcome)"
    by (rule fill_cells) (use w rc c in auto)
  have "mat_fill (\<lambda>r c. encode_e4m3 (f64_div (mat_at w r c) (f64_of_f32 s))) rc codes =
      mat_fill (\<lambda>r c. encode_e4m3 (f64_div (mat_at w r c) (f64_of_f32 (block_scale (block_amax w b (r div fst b) (c div snd b)))))) rc codes"
    by (rule mat_fill_cong) (auto simp: rc_def s_def set_block_cells [OF b])
  moreover have "mat_set scale (fst p) (snd p) s = (Ok (mat_fill (\<lambda>bi bj. block_scale (block_amax w b bi bj)) [p] scale) :: (f32 mat, load_error) outcome)"
    using cell_index [of "fst p" "mat_rows scale" "snd p" "mat_cols scale"] assms(7-9)
    by (simp add: mat_set_def mat_ok_def s_def)
  ultimately show ?thesis
    using am codes by (simp add: quantize_one_def Let_def flip: rc_def s_def)
qed

lemma quantize_block_eq:
  assumes w: "mat_ok w" and b: "0 < fst b" "0 < snd b"
  shows "quantize_block w b =
    Ok (mat_of (mat_rows w) (mat_cols w) (\<lambda>r c. encode_e4m3 (f64_div (mat_at w r c) (f64_of_f32 (block_scale (block_amax w b (r div fst b) (c div snd b)))))),
        mat_of (cdiv (mat_rows w) (fst b)) (cdiv (mat_cols w) (snd b)) (\<lambda>bi bj. block_scale (block_amax w b bi bj)))"
proof -
  define G where "G = (\<lambda>r c. encode_e4m3 (f64_div (mat_at w r c) (f64_of_f32 (block_scale (block_amax w b (r div fst b) (c div snd b))))))"
  define S where "S = (\<lambda>bi bj. block_scale (block_amax w b bi bj))"
  define tile where "tile p = block_cells (mat_rows w) (mat_cols w) b (fst p) (snd p)" for p
  have loop: "fold_results (quantize_one w b) (codes, scale) ps = Ok (mat_fill G (concat (map tile ps)) codes, mat_fill S ps scale)"
    if "mat_ok codes" "mat_rows codes = mat_rows w" "mat_cols codes = mat_cols w" "mat_ok scale"
      "\<forall>p \<in> set ps. fst p < mat_rows scale \<and> snd p < mat_cols scale" for codes scale ps
    using that
  proof (induction ps arbitrary: codes scale)
    case (Cons p ps)
    have "quantize_one w b (codes, scale) p = Ok (mat_fill G (tile p) codes, mat_fill S [p] scale)"
      unfolding G_def S_def tile_def by (rule quantize_one_eq) (use Cons.prems w b in auto)
    moreover have "fold_results (quantize_one w b) (mat_fill G (tile p) codes, mat_fill S [p] scale) ps =
        Ok (mat_fill G (concat (map tile ps)) (mat_fill G (tile p) codes), mat_fill S ps (mat_fill S [p] scale))"
      by (rule Cons.IH) (use Cons.prems mat_fill_simps [of S "[p]" scale] in \<open>simp_all del: mat_fill_steps\<close>)
    ultimately show ?case using mat_fill_append [of G "tile p" "concat (map tile ps)" codes] by simp
  qed simp
  define rb cb where "rb = cdiv (mat_rows w) (fst b)" and "cb = cdiv (mat_cols w) (snd b)"
  let ?c = "mat_zeros (mat_rows w) (mat_cols w) :: u8 mat" and ?s = "mat_zeros rb cb :: f32 mat"
  have "fold_results (quantize_one w b) (?c, ?s) (cells 0 rb 0 cb) =
      Ok (mat_fill G (concat (map tile (cells 0 rb 0 cb))) ?c, mat_fill S (cells 0 rb 0 cb) ?s)"
    by (rule loop) (auto simp: set_cells)
  moreover have "mat_fill S (cells 0 rb 0 cb) ?s = mat_of rb cb S" using fill_all [of ?s S] by simp
  moreover have "mat_fill G (concat (map tile (cells 0 rb 0 cb))) ?c = mat_of (mat_rows w) (mat_cols w) G"
  proof -
    have "set (concat (map tile (cells 0 rb 0 cb))) = {0..<mat_rows w} \<times> {0..<mat_cols w}"
      using div_less_cdiv [OF b(1)] div_less_cdiv [OF b(2)]
      by (auto simp: tile_def set_cells set_block_cells [OF b] rb_def cb_def)
    then show ?thesis
      using mat_eq_mat_of [of "mat_fill G (concat (map tile (cells 0 rb 0 cb))) ?c" G] by (simp add: mat_fill_at)
  qed
  ultimately show ?thesis using b unfolding quantize_block_def G_def S_def by (simp add: rb_def cb_def)
qed

lemma dequantize_block_eq:
  assumes "mat_ok codes" "mat_ok scale" "0 < fst b" "0 < snd b"
    "mat_rows scale = cdiv (mat_rows codes) (fst b)" "mat_cols scale = cdiv (mat_cols codes) (snd b)"
  shows "dequantize_block codes scale b =
    Ok (mat_of (mat_rows codes) (mat_cols codes) (\<lambda>r c. dequantized (mat_at codes r c) (mat_at scale (r div fst b) (c div snd b))))"
proof -
  let ?z = "mat_zeros (mat_rows codes) (mat_cols codes) :: f32 mat"
  let ?g = "\<lambda>r c. dequantized (mat_at codes r c) (mat_at scale (r div fst b) (c div snd b))"
  have "fold_results (\<lambda>out rc. obind (mat_get codes (fst rc) (snd rc)) (\<lambda>k.
              obind (mat_get scale (fst rc div fst b) (snd rc div snd b)) (\<lambda>s.
              mat_set out (fst rc) (snd rc) (dequantized k s)))) ?z (cells 0 (mat_rows codes) 0 (mat_cols codes)) =
      (Ok (mat_fill ?g (cells 0 (mat_rows codes) 0 (mat_cols codes)) ?z) :: (f32 mat, load_error) outcome)"
    by (rule fill_cells) (use assms in \<open>auto simp: set_cells div_less_cdiv\<close>)
  then show ?thesis using assms fill_all [of ?z ?g] by (simp add: dequantize_block_def)
qed

text \<open>C22: on every matrix and block shape the tiled quantizer stores, for each element, the code of the element
  divided by the scale of the block its coordinates fall in; ragged edge blocks included, no element is
  skipped or written with a neighbour's scale. The dequantizer accepts the pair and multiplies each code
  by that same scale.\<close>

theorem block_quantizer_elementwise:
  assumes "mat_ok w" "0 < fst b" "0 < snd b"
  shows "\<exists>codes scale. quantize_block w b = Ok (codes, scale) \<and>
    codes = mat_of (mat_rows w) (mat_cols w) (\<lambda>r c. encode_e4m3 (f64_div (mat_at w r c) (f64_of_f32 (mat_at scale (r div fst b) (c div snd b))))) \<and>
    scale = mat_of (cdiv (mat_rows w) (fst b)) (cdiv (mat_cols w) (snd b)) (\<lambda>bi bj. block_scale (block_amax w b bi bj)) \<and>
    dequantize_block codes scale b =
      Ok (mat_of (mat_rows w) (mat_cols w) (\<lambda>r c. dequantized (mat_at codes r c) (mat_at scale (r div fst b) (c div snd b))))"
proof -
  define scale where "scale = mat_of (cdiv (mat_rows w) (fst b)) (cdiv (mat_cols w) (snd b)) (\<lambda>bi bj. block_scale (block_amax w b bi bj))"
  define codes where "codes = mat_of (mat_rows w) (mat_cols w)
    (\<lambda>r c. encode_e4m3 (f64_div (mat_at w r c) (f64_of_f32 (mat_at scale (r div fst b) (c div snd b)))))"
  have "quantize_block w b = Ok (codes, scale)"
    unfolding quantize_block_eq [OF assms] codes_def scale_def
    using div_less_cdiv [OF assms(2)] div_less_cdiv [OF assms(3)] by (auto intro!: mat_of_cong)
  moreover have "dequantize_block codes scale b =
      Ok (mat_of (mat_rows w) (mat_cols w) (\<lambda>r c. dequantized (mat_at codes r c) (mat_at scale (r div fst b) (c div snd b))))"
    using dequantize_block_eq [of codes scale b] assms by (simp add: codes_def scale_def)
  ultimately show ?thesis using codes_def scale_def by blast
qed

lemma block_quantizer_elementwise_witness:
  "\<exists>codes scale. quantize_block \<lparr>mat_rows = 3, mat_cols = 2, mat_data = [1, 2, 3, 4, 5, 6]\<rparr> (2, 2) = Ok (codes, scale) \<and> mat_rows scale = 2"
  using block_quantizer_elementwise [of "\<lparr>mat_rows = 3, mat_cols = 2, mat_data = [1, 2, 3, 4, 5, 6]\<rparr>" "(2, 2)"]
  by (auto simp: mat_ok_def cdiv_def)

end
