(* ===== verification/FusedQkv.thy ===== *)
theory FusedQkv
  imports LoadMat
begin

text \<open>
  Reconstruction of the fused QKV projection (\<open>crates/mimo26-load/src/fused.rs\<close>): every checkpoint
  shard stores its own \<open>[q; k; v]\<close> rows with its own padded scale grid; the loader regroups them to
  \<open>[Q | K | V]\<close> over all shards and resolves each row's scale in the grid of its shard.
\<close>

subsection \<open>Split\<close>

definition DEFAULT_BLOCK :: block where "DEFAULT_BLOCK = (128, 128)"

record reconstructed_projection =
  rp_name :: string
  rp_weight :: "u8 mat"
  rp_scale_per_row :: "f32 mat"

record split_parts =
  sp_q :: reconstructed_projection
  sp_k :: reconstructed_projection
  sp_v :: reconstructed_projection

type_synonym segs = "nat \<times> nat \<times> nat"

definition seg_total :: "segs \<Rightarrow> nat" where
  "seg_total g = fst g + fst (snd g) + snd (snd g)"

definition seg_bounds :: "segs \<Rightarrow> (string \<times> nat \<times> nat) list" where
  "seg_bounds g =
     (let q = fst g; k = fst (snd g) in
      [(''q'', 0, q), (''k'', q, q + k), (''v'', q + k, seg_total g)])"

text \<open>The scales of rows \<open>lo..hi\<close> of a shard, each from row \<open>r / br\<close> of the shard's own grid.\<close>

definition local_scales :: "u8 mat \<Rightarrow> f32 mat \<Rightarrow> block \<Rightarrow> nat \<Rightarrow> nat \<Rightarrow> (f32 mat, load_error) outcome" where
  "local_scales w s b lo hi =
     (if snd b = 0 then Panic
      else fold_results (\<lambda>m r.
             if fst b = 0 then Panic
             else let srow = r div fst b in
               if mat_rows s \<le> srow then Err (ShapeMismatch (ScaleGridTooSmall (mat_rows s) r))
               else fold_results (\<lambda>m c. obind (mat_get s srow c) (mat_set m (r - lo) c)) m [0..<mat_cols w div snd b])
           (mat_zeros (hi - lo) (mat_cols w div snd b)) [lo..<hi])"

type_synonym split_acc = "(string \<times> u8 mat list \<times> f32 mat list) list"

definition split_shard :: "segs \<Rightarrow> block \<Rightarrow> split_acc \<Rightarrow> u8 mat \<times> f32 mat \<Rightarrow> (split_acc, load_error) outcome" where
  "split_shard g b acc ws =
     collect_results (\<lambda>(bound, name, wts, scs).
       obind (local_scales (fst ws) (snd ws) b (fst (snd bound)) (snd (snd bound))) (\<lambda>spr.
       obind (slice_rows_of (fst ws) (fst (snd bound)) (snd (snd bound))) (\<lambda>sl.
       Ok (name, wts @ [sl], scs @ [spr])))) (zip (seg_bounds g) acc)"

definition finish_projection :: "string \<times> u8 mat list \<times> f32 mat list \<Rightarrow> (reconstructed_projection, load_error) outcome" where
  "finish_projection a =
     obind (stack_rows (fst (snd a))) (\<lambda>weight. obind (stack_rows (snd (snd a))) (\<lambda>spr.
       Ok \<lparr>rp_name = fst a, rp_weight = weight, rp_scale_per_row = spr\<rparr>))"

definition check_segments :: "segs \<Rightarrow> u8 mat list \<Rightarrow> (unit, load_error) outcome" where
  "check_segments g ws =
     check_all (\<lambda>(i, w). if mat_rows w \<noteq> seg_total g then Err (SegmentMismatch i (mat_rows w) (seg_total g)) else Ok ())
       (enumerate 0 ws)"

definition split_shard_major_fused :: "u8 mat list \<Rightarrow> f32 mat list \<Rightarrow> segs \<Rightarrow> block \<Rightarrow> (split_parts, load_error) outcome" where
  "split_shard_major_fused ws ss g b =
     (if ws = [] \<or> length ws \<noteq> length ss then Err ShardListMismatch
      else obind (check_segments g ws) (\<lambda>_.
        obind (fold_results (split_shard g b) [(''q'', [], []), (''k'', [], []), (''v'', [], [])] (zip ws ss)) (\<lambda>acc.
        obind (collect_results finish_projection acc) (\<lambda>out.
        case out of [q, k, v] \<Rightarrow> Ok \<lparr>sp_q = q, sp_k = k, sp_v = v\<rparr> | _ \<Rightarrow> Panic))))"

subsection \<open>Dequantization\<close>

definition dequantize_per_row :: "reconstructed_projection \<Rightarrow> block \<Rightarrow> (f32 mat, load_error) outcome" where
  "dequantize_per_row p b =
     (let w = rp_weight p; s = rp_scale_per_row p in
      if snd b = 0 then Panic
      else if mat_rows s \<noteq> mat_rows w \<or> mat_cols s \<noteq> mat_cols w div snd b
      then Err (ShapeMismatch (ScalePerRowShape (mat_rows s) (mat_cols s) (mat_rows w) (mat_cols w div snd b)))
      else fold_results (\<lambda>out rc. obind (mat_get w (fst rc) (snd rc)) (\<lambda>k.
             obind (mat_get s (fst rc) (snd rc div snd b)) (\<lambda>x.
             mat_set out (fst rc) (snd rc) (dequantized k x))))
           (mat_zeros (mat_rows w) (mat_cols w)) (cells 0 (mat_rows w) 0 (mat_cols w)))"

text \<open>The path the code keeps as an oracle of the bug: one global grid, rows in shard order.\<close>

definition dequantize_naive_fused :: "u8 mat list \<Rightarrow> f32 mat list \<Rightarrow> block \<Rightarrow> (f32 mat, load_error) outcome" where
  "dequantize_naive_fused ws ss b =
     (if ws = [] \<or> length ws \<noteq> length ss then Err ShardListMismatch
      else obind (stack_rows ws) (\<lambda>w. obind (stack_rows ss) (\<lambda>s.
        fold_results (\<lambda>out r.
          if fst b = 0 then Panic
          else let srow = r div fst b in
            if mat_rows s \<le> srow then Err (ShapeMismatch (NaiveScaleRow srow (mat_rows s)))
            else fold_results (\<lambda>out c. obind (mat_get w r c) (\<lambda>k.
                   if snd b = 0 then Panic
                   else obind (mat_get s srow (c div snd b)) (\<lambda>x. mat_set out r c (dequantized k x)))) out [0..<mat_cols w])
          (mat_zeros (mat_rows w) (mat_cols w)) [0..<mat_rows w])))"

definition reconstruct_layer_qkv :: "u8 mat list \<Rightarrow> f32 mat list \<Rightarrow> segs \<Rightarrow> block \<Rightarrow> bool \<Rightarrow> (f32 mat, load_error) outcome" where
  "reconstruct_layer_qkv ws ss g b naive =
     (if ws = [] \<or> length ws \<noteq> length ss then Err ShardListMismatch
      else let rows = remdups_adj (sort (map mat_rows ws)) in
        if length rows \<noteq> 1 then Err (UnevenShardRows rows)
        else obind (check_segments g ws) (\<lambda>_.
          if naive then dequantize_naive_fused ws ss b
          else obind (split_shard_major_fused ws ss g b) (\<lambda>parts.
            obind (dequantize_per_row (sp_q parts) b) (\<lambda>q.
            obind (dequantize_per_row (sp_k parts) b) (\<lambda>k.
            obind (dequantize_per_row (sp_v parts) b) (\<lambda>v.
            stack_rows [q, k, v]))))))"

subsection \<open>Stacking\<close>

lemma fold_results_map: "fold_results f s (map g xs) = fold_results (\<lambda>s x. f s (g x)) s xs"
  by (induction xs arbitrary: s) (simp_all cong: obind_cong)

lemma mat_data_add:
  "mat_data (mat_of (x + y) cols g) = mat_data (mat_of x cols g) @ mat_data (mat_of y cols (\<lambda>r. g (x + r)))"
proof (cases "cols = 0")
  case False
  have "[0..<(x + y) * cols] = [0..<x * cols] @ map (\<lambda>i. i + x * cols) [0..<y * cols]"
    by (simp add: add_mult_distrib upt_add_eq_append [of 0 "x * cols"] map_add_upt add.commute [of "y * cols"])
  with False show ?thesis by (simp add: mat_of_def add.commute)
qed (simp add: mat_of_def)

lemma stack_rows_cons:
  assumes "\<forall>p \<in> set (q # ps). mat_cols p = cols"
  shows "stack_rows (q # ps) = Ok \<lparr>mat_rows = sum_list (map mat_rows (q # ps)), mat_cols = cols, mat_data = concat (map mat_data (q # ps))\<rparr>"
proof -
  have "fold_results (\<lambda>(rows, xs) p. if mat_cols p \<noteq> cols then Err (ShapeMismatch (StackCols (mat_cols p) cols))
            else Ok (rows + mat_rows p, xs @ mat_data p)) (n, xs) ps =
        Ok (n + sum_list (map mat_rows ps), xs @ concat (map mat_data ps))" if "\<forall>p \<in> set ps. mat_cols p = cols" for n xs ps
    using that by (induction ps arbitrary: n xs) simp_all
  from this [of "q # ps" 0 "[]"] assms
  have "fold_results (\<lambda>(rows, xs) p. if mat_cols p \<noteq> cols then Err (ShapeMismatch (StackCols (mat_cols p) cols))
            else Ok (rows + mat_rows p, xs @ mat_data p)) (0, []) (q # ps) =
        Ok (sum_list (map mat_rows (q # ps)), concat (map mat_data (q # ps)))" by simp
  moreover have "mat_cols q = cols" using assms by simp
  ultimately show ?thesis by (simp only: stack_rows_def list.case obind.simps prod.case)
qed

lemma stack_rows_eq:
  "parts \<noteq> [] \<Longrightarrow> \<forall>p \<in> set parts. mat_cols p = cols \<Longrightarrow>
   stack_rows parts = Ok \<lparr>mat_rows = sum_list (map mat_rows parts), mat_cols = cols, mat_data = concat (map mat_data parts)\<rparr>"
  using stack_rows_cons by (cases parts) auto

lemma stack_shards:
  assumes "0 < n"
  shows "stack_rows (map (\<lambda>s. mat_of z cols (g s)) [0..<n]) = Ok (mat_of (n * z) cols (\<lambda>r. g (r div z) (r mod z)))"
proof -
  have data: "concat (map (\<lambda>s. mat_data (mat_of z cols (g s))) [0..<n]) = mat_data (mat_of (n * z) cols (\<lambda>r. g (r div z) (r mod z)))" for n
  proof (induction n)
    case (Suc n)
    have "mat_of z cols (\<lambda>r. g ((n * z + r) div z) ((n * z + r) mod z)) = mat_of z cols (g n)"
      by (rule mat_of_cong) simp
    with Suc show ?case using mat_data_add [of "n * z" z cols "\<lambda>r. g (r div z) (r mod z)"] by (simp add: add.commute)
  qed (simp add: mat_of_def)
  have "stack_rows (map (\<lambda>s. mat_of z cols (g s)) [0..<n]) =
      Ok \<lparr>mat_rows = n * z, mat_cols = cols, mat_data = mat_data (mat_of (n * z) cols (\<lambda>r. g (r div z) (r mod z)))\<rparr>"
    using stack_rows_eq [of "map (\<lambda>s. mat_of z cols (g s)) [0..<n]" cols] assms data [of n]
    by (simp add: comp_def sum_list_triv)
  then show ?thesis by (simp add: mat_of_def)
qed

subsection \<open>The split\<close>

lemma local_scales_eq:
  assumes b: "0 < fst b" "0 < snd b" and s: "mat_ok s" "mat_cols s = mat_cols w div snd b" "cdiv tot (fst b) \<le> mat_rows s"
    and lo: "lo \<le> hi" "hi \<le> tot"
  shows "local_scales w s b lo hi = Ok (mat_of (hi - lo) (mat_cols w div snd b) (\<lambda>i c. mat_at s ((lo + i) div fst b) c))"
proof -
  define C where "C = mat_cols w div snd b"
  define g where "g = (\<lambda>i c. mat_at s ((lo + i) div fst b) c)"
  have row: "(lo + i) div fst b < mat_rows s" if "i < hi - lo" for i
  proof -
    have "lo + i < tot" using lo that by simp
    then show ?thesis using div_less_cdiv [OF b(1)] s(3) by (blast intro: less_le_trans)
  qed
  have row': "r div fst b < mat_rows s" if "lo \<le> r" "r < hi" for r
    using row [of "r - lo"] that by simp
  have inner: "fold_results (\<lambda>m c. obind (mat_get s (r div fst b) c) (mat_set m (r - lo) c)) m [0..<C] =
      (Ok (mat_fill g (map (\<lambda>c. (r - lo, c)) [0..<C]) m) :: (f32 mat, load_error) outcome)"
    if "mat_ok m" "mat_rows m = hi - lo" "mat_cols m = C" "lo \<le> r" "r < hi" for m r
  proof -
    have "fold_results (\<lambda>m p. obind (mat_get s (r div fst b) (snd p)) (mat_set m (r - lo) (snd p))) m (map (\<lambda>c. (r - lo, c)) [0..<C]) =
        (Ok (mat_fill g (map (\<lambda>c. (r - lo, c)) [0..<C]) m) :: (f32 mat, load_error) outcome)"
      by (rule fill_cells) (use that s row' [of r] in \<open>auto simp: g_def C_def\<close>)
    then show ?thesis by (simp add: fold_results_map)
  qed
  have outer: "fold_results (\<lambda>m r. if fst b = 0 then Panic
             else let srow = r div fst b in
               if mat_rows s \<le> srow then Err (ShapeMismatch (ScaleGridTooSmall (mat_rows s) r))
               else fold_results (\<lambda>m c. obind (mat_get s srow c) (mat_set m (r - lo) c)) m [0..<C]) m rs =
      Ok (mat_fill g (concat (map (\<lambda>r. map (\<lambda>c. (r - lo, c)) [0..<C]) rs)) m)"
    if "mat_ok m" "mat_rows m = hi - lo" "mat_cols m = C" "\<forall>r \<in> set rs. lo \<le> r \<and> r < hi" for m rs
    using that
  proof (induction rs arbitrary: m)
    case (Cons r rs)
    then show ?case using inner [of m r] row' [of r] b by (simp add: Let_def mat_fill_append not_le)
  qed simp
  define ps where "ps = concat (map (\<lambda>r. map (\<lambda>c. (r - lo, c)) [0..<C]) [lo..<hi])"
  have ps: "set ps = {0..<hi - lo} \<times> {0..<C}"
  proof (intro set_eqI iffI)
    fix p assume "p \<in> {0..<hi - lo} \<times> {0..<C}"
    then show "p \<in> set ps" by (auto simp: ps_def intro!: bexI [of _ "lo + fst p"])
  qed (auto simp: ps_def)
  have "mat_fill g ps (mat_zeros (hi - lo) C) = mat_of (hi - lo) C g"
    using mat_eq_mat_of [of "mat_fill g ps (mat_zeros (hi - lo) C)" g] by (simp add: mat_fill_at ps)
  then show ?thesis
    using outer [of "mat_zeros (hi - lo) C" "[lo..<hi]"] b unfolding local_scales_def g_def C_def [symmetric] ps_def by simp
qed

lemma slice_rows_eq:
  assumes "mat_ok w" "lo \<le> hi" "hi \<le> mat_rows w"
  shows "slice_rows_of w lo hi = (Ok (mat_of (hi - lo) (mat_cols w) (\<lambda>i c. mat_at w (lo + i) c)) :: (_, load_error) outcome)"
proof -
  define m where "m = \<lparr>mat_rows = hi - lo, mat_cols = mat_cols w, mat_data = take (hi * mat_cols w - lo * mat_cols w) (drop (lo * mat_cols w) (mat_data w))\<rparr>"
  have le: "lo * mat_cols w \<le> hi * mat_cols w" "hi * mat_cols w \<le> length (mat_data w)"
    using assms by (simp_all add: mat_ok_def)
  then have ok: "mat_ok m" by (simp add: m_def mat_ok_def diff_mult_distrib)
  have "mat_at m r c = mat_at w (lo + r) c" if "r < mat_rows m" "c < mat_cols m" for r c
    using that cell_index [of r "hi - lo" c "mat_cols w"] le by (simp add: m_def mat_at_def diff_mult_distrib add_mult_distrib add.assoc)
  from mat_eq_mat_of [OF ok this] have "m = mat_of (hi - lo) (mat_cols w) (\<lambda>i c. mat_at w (lo + i) c)" by (simp add: m_def)
  then show ?thesis using assms le by (simp add: slice_rows_of_def subslice_def m_def)
qed


definition seg_weight :: "nat \<Rightarrow> nat \<Rightarrow> u8 mat \<Rightarrow> u8 mat" where
  "seg_weight lo z w = mat_of z (mat_cols w) (\<lambda>i c. mat_at w (lo + i) c)"

definition seg_scale :: "block \<Rightarrow> nat \<Rightarrow> nat \<Rightarrow> u8 mat \<times> f32 mat \<Rightarrow> f32 mat" where
  "seg_scale b lo z p = mat_of z (mat_cols (fst p) div snd b) (\<lambda>i c. mat_at (snd p) ((lo + i) div fst b) c)"

text \<open>What the loader may assume of a shard: its own padded grid covers its rows.\<close>

definition shard_ok :: "segs \<Rightarrow> block \<Rightarrow> nat \<Rightarrow> u8 mat \<times> f32 mat \<Rightarrow> bool" where
  "shard_ok g b cols p \<longleftrightarrow>
     mat_ok (fst p) \<and> mat_rows (fst p) = seg_total g \<and> mat_cols (fst p) = cols \<and>
     mat_ok (snd p) \<and> mat_cols (snd p) = cols div snd b \<and> cdiv (seg_total g) (fst b) \<le> mat_rows (snd p)"

lemma split_shard_eq:
  assumes "0 < fst b" "0 < snd b" "shard_ok (q, k, v) b cols p"
  shows "split_shard (q, k, v) b [(n1, w1, s1), (n2, w2, s2), (n3, w3, s3)] p =
    Ok [(n1, w1 @ [seg_weight 0 q (fst p)], s1 @ [seg_scale b 0 q p]),
        (n2, w2 @ [seg_weight q k (fst p)], s2 @ [seg_scale b q k p]),
        (n3, w3 @ [seg_weight (q + k) v (fst p)], s3 @ [seg_scale b (q + k) v p])]"
proof -
  note sh = assms(3) [unfolded shard_ok_def]
  have "local_scales (fst p) (snd p) b lo (lo + z) = Ok (seg_scale b lo z p)"
    "slice_rows_of (fst p) lo (lo + z) = (Ok (seg_weight lo z (fst p)) :: (_, load_error) outcome)"
    if "lo + z \<le> q + k + v" for lo z
    using local_scales_eq [of b "snd p" "fst p" "seg_total (q, k, v)" lo "lo + z"] slice_rows_eq [of "fst p" lo "lo + z"]
      sh assms(1,2) that
    by (simp_all add: seg_scale_def seg_weight_def seg_total_def)
  from this [of 0 q] this [of q k] this [of "q + k" v] show ?thesis
    by (simp add: split_shard_def seg_bounds_def seg_total_def Let_def)
qed

lemma split_all_eq:
  assumes "0 < fst b" "0 < snd b" "\<forall>p \<in> set ps. shard_ok (q, k, v) b cols p"
  shows "fold_results (split_shard (q, k, v) b) [(n1, w1, s1), (n2, w2, s2), (n3, w3, s3)] ps =
    Ok [(n1, w1 @ map (seg_weight 0 q \<circ> fst) ps, s1 @ map (seg_scale b 0 q) ps),
        (n2, w2 @ map (seg_weight q k \<circ> fst) ps, s2 @ map (seg_scale b q k) ps),
        (n3, w3 @ map (seg_weight (q + k) v \<circ> fst) ps, s3 @ map (seg_scale b (q + k) v) ps)]"
  using assms(3)
proof (induction ps arbitrary: w1 w2 w3 s1 s2 s3)
  case (Cons p ps)
  then have "shard_ok (q, k, v) b cols p" by simp
  from split_shard_eq [OF assms(1,2) this] Cons show ?case by simp
qed simp

text \<open>One projection, dequantized: shard after shard, each row with its own shard's scales.\<close>

definition projection_of :: "(u8 mat \<times> f32 mat) list \<Rightarrow> block \<Rightarrow> nat \<Rightarrow> nat \<Rightarrow> nat \<Rightarrow> nat \<Rightarrow> f32" where
  "projection_of ps b lo z r c =
     dequantized (mat_at (fst (ps ! (r div z))) (lo + r mod z) c)
       (mat_at (snd (ps ! (r div z))) ((lo + r mod z) div fst b) (c div snd b))"

lemma projection_eq:
  assumes "ps \<noteq> []" "\<forall>p \<in> set ps. mat_cols (fst p) = cols" "0 < snd b" "snd b dvd cols"
  shows "\<exists>pr. finish_projection (nm, map (seg_weight lo z \<circ> fst) ps, map (seg_scale b lo z) ps) = Ok pr \<and>
    dequantize_per_row pr b = Ok (mat_of (length ps * z) cols (projection_of ps b lo z))"
proof -
  let ?W = "mat_of (length ps * z) cols (\<lambda>r c. mat_at (fst (ps ! (r div z))) (lo + r mod z) c)"
  let ?S = "mat_of (length ps * z) (cols div snd b) (\<lambda>r c. mat_at (snd (ps ! (r div z))) ((lo + r mod z) div fst b) c)"
  have "map (seg_weight lo z \<circ> fst) ps = map (\<lambda>s. mat_of z cols (\<lambda>i c. mat_at (fst (ps ! s)) (lo + i) c)) [0..<length ps]"
    "map (seg_scale b lo z) ps = map (\<lambda>s. mat_of z (cols div snd b) (\<lambda>i c. mat_at (snd (ps ! s)) ((lo + i) div fst b) c)) [0..<length ps]"
    using assms(2) by (auto intro!: nth_equalityI simp: seg_weight_def seg_scale_def)
  then have fin: "finish_projection (nm, map (seg_weight lo z \<circ> fst) ps, map (seg_scale b lo z) ps) =
      Ok \<lparr>rp_name = nm, rp_weight = ?W, rp_scale_per_row = ?S\<rparr>"
    using stack_shards [of "length ps" z cols "\<lambda>s i c. mat_at (fst (ps ! s)) (lo + i) c"]
      stack_shards [of "length ps" z "cols div snd b" "\<lambda>s i c. mat_at (snd (ps ! s)) ((lo + i) div fst b) c"] assms(1)
    by (simp add: finish_projection_def)
  have c: "c div snd b < cols div snd b" if "c < cols" for c
    using that assms(3,4) by (metis dvd_div_mult_self div_less_iff_less_mult)
  let ?z = "mat_zeros (length ps * z) cols :: f32 mat"
  have "fold_results (\<lambda>out rc. obind (mat_get ?W (fst rc) (snd rc)) (\<lambda>k.
             obind (mat_get ?S (fst rc) (snd rc div snd b)) (\<lambda>x.
             mat_set out (fst rc) (snd rc) (dequantized k x)))) ?z (cells 0 (length ps * z) 0 cols) =
      (Ok (mat_fill (projection_of ps b lo z) (cells 0 (length ps * z) 0 cols) ?z) :: (f32 mat, load_error) outcome)"
    by (rule fill_cells) (use c in \<open>auto simp: set_cells projection_of_def\<close>)
  then have "dequantize_per_row \<lparr>rp_name = nm, rp_weight = ?W, rp_scale_per_row = ?S\<rparr> b =
      Ok (mat_of (length ps * z) cols (projection_of ps b lo z))"
    using assms(3) fill_all [of ?z "projection_of ps b lo z"] by (simp add: dequantize_per_row_def Let_def)
  with fin show ?thesis by blast
qed

lemma check_segments_ok: "\<forall>w \<in> set ws. mat_rows w = seg_total g \<Longrightarrow> check_segments g ws = Ok ()"
  by (auto simp: check_segments_def check_all_eq_Ok in_set_enumerate_eq)

lemma even_rows: "ws \<noteq> [] \<Longrightarrow> \<forall>w \<in> set ws. mat_rows w = n \<Longrightarrow> remdups_adj (sort (map mat_rows ws)) = [n]"
proof -
  assume ws: "ws \<noteq> []" "\<forall>w \<in> set ws. mat_rows w = n"
  then have "map mat_rows ws = replicate (length ws) n" by (intro replicate_eqI) auto
  moreover have "sort (replicate m n) = replicate m n" for m by (simp add: sorted_sort_id)
  ultimately show ?thesis using ws(1) by (simp add: remdups_adj_replicate)
qed

text \<open>The shard and the row in it that row \<open>r\<close> of the result comes from.\<close>

definition fused_source :: "nat \<Rightarrow> segs \<Rightarrow> nat \<Rightarrow> nat \<times> nat" where
  "fused_source n g r =
     (let q = fst g; k = fst (snd g); v = snd (snd g) in
      if r < n * q then (r div q, r mod q)
      else if r < n * q + n * k then ((r - n * q) div k, q + (r - n * q) mod k)
      else ((r - (n * q + n * k)) div v, q + k + (r - (n * q + n * k)) mod v))"


lemma stack_three:
  "stack_rows [mat_of x cols g1, mat_of y cols g2, mat_of z cols g3] =
   Ok (mat_of (x + y + z) cols (\<lambda>r c. if r < x then g1 r c else if r < x + y then g2 (r - x) c else g3 (r - (x + y)) c))"
proof -
  define G where "G = (\<lambda>r c. if r < x then g1 r c else if r < x + y then g2 (r - x) c else g3 (r - (x + y)) c)"
  have "mat_of x cols G = mat_of x cols g1" "mat_of y cols (\<lambda>r. G (x + r)) = mat_of y cols g2"
    "mat_of z cols (\<lambda>r. G (x + y + r)) = mat_of z cols g3"
    by (rule mat_of_cong, simp add: G_def)+
  then have "mat_data (mat_of (x + y + z) cols G) =
      mat_data (mat_of x cols g1) @ mat_data (mat_of y cols g2) @ mat_data (mat_of z cols g3)"
    by (simp add: mat_data_add [of "x + y" z] mat_data_add [of x y])
  moreover have "mat_of n cols G = \<lparr>mat_rows = n, mat_cols = cols, mat_data = mat_data (mat_of n cols G)\<rparr>" for n
    by (simp add: mat_of_def)
  ultimately show ?thesis unfolding G_def [symmetric] by (subst stack_rows_eq [where cols = cols]) (simp_all add: add.assoc)
qed

lemma reconstruct_eq:
  assumes b: "0 < fst b" "0 < snd b" "snd b dvd cols" and ws: "ws \<noteq> []" "length ws = length ss"
    and sh: "\<forall>p \<in> set (zip ws ss). shard_ok g b cols p"
  shows "reconstruct_layer_qkv ws ss g b False =
    Ok (mat_of (length ws * seg_total g) cols (\<lambda>r c. case fused_source (length ws) g r of (s, i) \<Rightarrow>
          dequantized (mat_at (ws ! s) i c) (mat_at (ss ! s) (i div fst b) (c div snd b))))"
proof -
  obtain q k v where g: "g = (q, k, v)" by (cases g)
  define ps where "ps = zip ws ss"
  have fst_ps: "map fst ps = ws" "length ps = length ws" "ps \<noteq> []" using ws by (auto simp: ps_def)
  have at: "fst (ps ! s) = ws ! s" "snd (ps ! s) = ss ! s" if "s < length ws" for s
    using that ws by (simp_all add: ps_def)
  have "\<forall>w \<in> set (map fst ps). mat_rows w = seg_total g" using sh by (auto simp: ps_def shard_ok_def)
  then have rows: "\<forall>w \<in> set ws. mat_rows w = seg_total g" by (simp only: fst_ps)
  have cols: "\<forall>p \<in> set ps. mat_cols (fst p) = cols" using sh by (auto simp: ps_def shard_ok_def)
  note fp = projection_eq [OF fst_ps(3) cols b(2,3)]
  obtain pq where pq: "finish_projection (''q'', map (seg_weight 0 q \<circ> fst) ps, map (seg_scale b 0 q) ps) = Ok pq"
    "dequantize_per_row pq b = Ok (mat_of (length ps * q) cols (projection_of ps b 0 q))" using fp by blast
  obtain pk where pk: "finish_projection (''k'', map (seg_weight q k \<circ> fst) ps, map (seg_scale b q k) ps) = Ok pk"
    "dequantize_per_row pk b = Ok (mat_of (length ps * k) cols (projection_of ps b q k))" using fp by blast
  obtain pv where pv: "finish_projection (''v'', map (seg_weight (q + k) v \<circ> fst) ps, map (seg_scale b (q + k) v) ps) = Ok pv"
    "dequantize_per_row pv b = Ok (mat_of (length ps * v) cols (projection_of ps b (q + k) v))" using fp by blast
  have "split_shard_major_fused ws ss g b = Ok \<lparr>sp_q = pq, sp_k = pk, sp_v = pv\<rparr>"
    using split_all_eq [OF b(1,2), of ps q k v cols] sh ws check_segments_ok [OF rows] pq pk pv
    by (simp add: split_shard_major_fused_def g flip: ps_def)
  then have "reconstruct_layer_qkv ws ss g b False =
      stack_rows [mat_of (length ws * q) cols (projection_of ps b 0 q), mat_of (length ws * k) cols (projection_of ps b q k),
        mat_of (length ws * v) cols (projection_of ps b (q + k) v)]"
    using ws even_rows [OF ws(1) rows] check_segments_ok [OF rows] pq pk pv fst_ps(2)
    by (simp add: reconstruct_layer_qkv_def Let_def)
  also note stack_three
  also have "length ws * q + length ws * k + length ws * v = length ws * seg_total g" by (simp add: g seg_total_def algebra_simps)
  finally have eq: "reconstruct_layer_qkv ws ss g b False = Ok (mat_of (length ws * seg_total g) cols
      (\<lambda>r c. if r < length ws * q then projection_of ps b 0 q r c
        else if r < length ws * q + length ws * k then projection_of ps b q k (r - length ws * q) c
        else projection_of ps b (q + k) v (r - (length ws * q + length ws * k)) c))" .
  have div: "r div z < length ws" if "r < length ws * z" for r z using that by (simp add: less_mult_imp_div_less)
  show ?thesis unfolding eq
    by (rule arg_cong [where f = Ok], rule mat_of_cong)
      (auto simp: fused_source_def g seg_total_def projection_of_def Let_def at div algebra_simps)
qed

text \<open>C8: from shards that store \<open>[q; k; v]\<close> rows with padded scale grids of their own, the loader rebuilds
  \<open>[Q | K | V]\<close>: every output row is the dequantized row its projection, shard and local position name, and
  its scale is read in the grid of that shard at the local row, never in a padding row or another shard's
  grid. No error and no panic occurs.\<close>

theorem reconstruct_projection_major:
  assumes "0 < fst b" "0 < snd b" "snd b dvd cols" "ws \<noteq> []" "length ws = length ss"
    "\<forall>p \<in> set (zip ws ss). shard_ok g b cols p"
  shows "\<exists>out. reconstruct_layer_qkv ws ss g b False = Ok out \<and>
    mat_rows out = length ws * seg_total g \<and> mat_cols out = cols \<and>
    (\<forall>r < mat_rows out. \<forall>c < cols.
       (case fused_source (length ws) g r of (s, i) \<Rightarrow>
          s < length ws \<and> i < seg_total g \<and> i div fst b < cdiv (seg_total g) (fst b) \<and>
          mat_at out r c = dequantized (mat_at (ws ! s) i c) (mat_at (ss ! s) (i div fst b) (c div snd b))))"
proof -
  have m: "(x div z < n \<and> x mod z < z)" if "x < n * z" for x n z :: nat
    using that by (cases "z = 0") (simp_all add: less_mult_imp_div_less)
  have src: "fst (fused_source n g r) < n \<and> snd (fused_source n g r) < seg_total g" if "r < n * seg_total g" for n r
  proof -
    obtain q k v where g: "g = (q, k, v)" by (cases g)
    have r: "r < n * q + n * k + n * v" using that by (simp add: g seg_total_def algebra_simps)
    consider "r < n * q" | "\<not> r < n * q" "r < n * q + n * k" "r - n * q < n * k"
      | "\<not> r < n * q" "\<not> r < n * q + n * k" "r - (n * q + n * k) < n * v"
      using r by linarith
    then show ?thesis
    proof cases
      case 1
      with m [OF 1] show ?thesis by (simp add: g fused_source_def seg_total_def)
    next
      case 2
      with m [OF 2(3)] show ?thesis by (simp add: g fused_source_def seg_total_def)
    next
      case 3
      with m [OF 3(3)] show ?thesis by (simp add: g fused_source_def seg_total_def)
    qed
  qed
  show ?thesis
    unfolding reconstruct_eq [OF assms] using src [of _ "length ws"] div_less_cdiv [OF assms(1)]
    by (fastforce split: prod.splits)
qed

lemma reconstruct_projection_major_witness:
  "\<exists>out. reconstruct_layer_qkv
      [\<lparr>mat_rows = 3, mat_cols = 2, mat_data = [1, 2, 3, 4, 5, 6]\<rparr>, \<lparr>mat_rows = 3, mat_cols = 2, mat_data = [7, 8, 9, 10, 11, 12]\<rparr>]
      [\<lparr>mat_rows = 3, mat_cols = 1, mat_data = [13, 14, 15]\<rparr>, \<lparr>mat_rows = 2, mat_cols = 1, mat_data = [16, 17]\<rparr>]
      (1, 1, 1) (2, 2) False = Ok out \<and> mat_rows out = 6"
proof -
  let ?ws = "[\<lparr>mat_rows = 3, mat_cols = 2, mat_data = [1, 2, 3, 4, 5, 6]\<rparr>, \<lparr>mat_rows = 3, mat_cols = 2, mat_data = [7, 8, 9, 10, 11, 12]\<rparr>] :: u8 mat list"
  let ?ss = "[\<lparr>mat_rows = 3, mat_cols = 1, mat_data = [13, 14, 15]\<rparr>, \<lparr>mat_rows = 2, mat_cols = 1, mat_data = [16, 17]\<rparr>] :: f32 mat list"
  have "\<exists>out. reconstruct_layer_qkv ?ws ?ss (1, 1, 1) (2, 2) False = Ok out \<and> mat_rows out = length ?ws * seg_total (1, 1, 1)"
    using reconstruct_projection_major [of "(2, 2)" 2 ?ws ?ss "(1, 1, 1)"]
    by (fastforce simp: shard_ok_def mat_ok_def seg_total_def cdiv_def)
  then show ?thesis by (simp add: seg_total_def numeral_eq_Suc)
qed

text \<open>A width that is not a multiple of the block: the documentation gives the grid \<open>ceil(hidden / bc)\<close> columns,
  the split keeps \<open>hidden / bc\<close> of them, and the dequantizer's last cell reads past the scale matrix.\<close>

lemma ragged_columns_panic:
  assumes "mat_ok w" "mat_ok s" "0 < snd b" "mat_rows s = mat_rows w" "mat_cols s = mat_cols w div snd b"
    "mat_rows w = 1" "\<not> snd b dvd mat_cols w"
  shows "dequantize_per_row \<lparr>rp_name = nm, rp_weight = w, rp_scale_per_row = s\<rparr> b = Panic"
proof -
  define C where "C = mat_cols w"
  have C: "C = Suc (C - 1)" "(C - 1) div snd b = C div snd b"
  proof -
    have m: "0 < C mod snd b" using assms(7) by (simp add: C_def dvd_eq_mod_eq_0)
    then show "C = Suc (C - 1)" by (cases C) auto
    have "C - 1 = C div snd b * snd b + (C mod snd b - 1)" using m div_mult_mod_eq [of C "snd b"] by linarith
    moreover have "C mod snd b - 1 < snd b" using assms(3) by (simp add: less_imp_diff_less)
    ultimately show "(C - 1) div snd b = C div snd b" by (metis add.commute add.right_neutral div_less div_mult_self3 assms(3) less_numeral_extra(3))
  qed
  have get: "mat_get s 0 (C div snd b) = (Panic :: (f32, load_error) outcome)"
    using assms(2,4-6) by (simp add: mat_get_def index_at_def mat_ok_def C_def)
  have "cells 0 1 0 C = map (\<lambda>c. (0, c)) [0..<C - 1] @ [(0, C - 1)]"
    by (subst C(1)) (simp add: cells_def)
  moreover have "fold_results f m (ps @ [p]) = Panic"
    if "\<And>m p e. f m p \<noteq> Err e" "\<And>m. f m p = Panic" for f :: "f32 mat \<Rightarrow> nat \<times> nat \<Rightarrow> (f32 mat, load_error) outcome" and m ps p
  proof -
    have "fold_results f m ps \<noteq> Err e" for e using that(1) by (induction ps arbitrary: m) (auto simp: outcome_simps)
    then consider "fold_results f m ps = Panic" | m' where "fold_results f m ps = Ok m'"
      by (cases "fold_results f m ps") auto
    then show ?thesis using that(2) by cases (simp_all add: fold_results_append)
  qed
  note last = this
  define step where "step = (\<lambda>out rc. obind (mat_get w (fst rc) (snd rc)) (\<lambda>k. obind (mat_get s (fst rc) (snd rc div snd b)) (\<lambda>x.
      (mat_set out (fst rc) (snd rc) (dequantized k x) :: (f32 mat, load_error) outcome))))"
  have step: "step m p \<noteq> Err e" "step m (0, C - 1) = Panic" for m p e
  proof -
    show "step m p \<noteq> Err e" by (auto simp: step_def outcome_simps mat_get_def index_at_def mat_set_def)
    have "mat_get w 0 (C - 1) = (Ok (mat_at w 0 (C - 1)) :: (u8, load_error) outcome)"
      using assms(1,6) C(1) by (intro mat_get_ok) (simp_all add: C_def)
    with get C(2) show "step m (0, C - 1) = Panic" by (simp add: step_def)
  qed
  ultimately have "fold_results step m (cells 0 1 0 C) = Panic" for m 
    using last [where f = step and p = "(0, C - 1)", OF step] by simp
  then show ?thesis using assms(3-6) by (simp add: dequantize_per_row_def step_def C_def)
qed

end
