(* ===== verification/NameAudit.thy ===== *)
theory NameAudit
  imports LoadMat
begin

text \<open>
  Checkpoint tensor names (\<open>crates/mimo26-load/src/names.rs\<close>): canonical names, the classification of
  raw names and the audits that refuse a checkpoint with names they do not understand. Names are ASCII.
\<close>

subsection \<open>Strings\<close>

definition starts_with :: "string \<Rightarrow> string \<Rightarrow> bool" where
  "starts_with p s \<longleftrightarrow> take (length p) s = p"

definition strip_prefix :: "string \<Rightarrow> string \<Rightarrow> string option" where
  "strip_prefix p s = (if starts_with p s then Some (drop (length p) s) else None)"

definition contains_str :: "string \<Rightarrow> string \<Rightarrow> bool" where
  "contains_str p s = list_ex (\<lambda>i. starts_with p (drop i s)) [0..<Suc (length s)]"

lemma strip_prefix_append [simp]: "strip_prefix p (p @ s) = Some s"
  by (simp add: strip_prefix_def starts_with_def)

lemma strip_prefix_Some: "strip_prefix p s = Some t \<longleftrightarrow> s = p @ t"
  by (auto simp: strip_prefix_def starts_with_def append_eq_conv_conj) (metis append_take_drop_id)

lemma starts_with_iff: "starts_with p s \<longleftrightarrow> (\<exists>t. s = p @ t)"
  by (metis append_eq_conv_conj append_take_drop_id starts_with_def)

text \<open>\<open>{}\<close> of an unsigned integer, and \<open>str::parse\<close> of a string of digits into a \<open>usize\<close>.\<close>

fun show_nat :: "nat \<Rightarrow> string" where
  "show_nat n = (if n < 10 then [char_of (48 + n)] else show_nat (n div 10) @ [char_of (48 + n mod 10)])"

declare show_nat.simps [simp del]

definition is_ascii_digit :: "char \<Rightarrow> bool" where
  "is_ascii_digit c \<longleftrightarrow> 48 \<le> (of_char c :: nat) \<and> (of_char c :: nat) \<le> 57"

definition digits_value :: "string \<Rightarrow> nat" where
  "digits_value ds = foldl (\<lambda>n c. n * 10 + (of_char c - 48)) 0 ds"

definition parse_usize :: "string \<Rightarrow> nat option" where
  "parse_usize ds = (if ds = [] \<or> \<not> list_all is_ascii_digit ds \<or> 2 ^ 64 \<le> digits_value ds then None else Some (digits_value ds))"

subsection \<open>Names\<close>

definition REQUIRED_WEIGHTS :: "string list" where
  "REQUIRED_WEIGHTS = [''embed.weight'', ''norm.weight'', ''lm_head.weight'']"

definition NON_BACKBONE_PREFIXES :: "string list" where
  "NON_BACKBONE_PREFIXES =
     [''audio_encoder.'', ''model.audio_encoder.'', ''visual.'', ''model.visual.'', ''speech_embeddings.'',
      ''model.speech_embeddings.'']"

definition canonical_name :: "string \<Rightarrow> string" where
  "canonical_name raw =
     (case strip_prefix ''model.mtp.'' raw of Some rest \<Rightarrow> ''mtp.'' @ rest
      | None \<Rightarrow> (case strip_prefix ''model.'' raw of Some rest \<Rightarrow> rest | None \<Rightarrow> raw))"

definition is_backbone_weight :: "string \<Rightarrow> bool" where
  "is_backbone_weight raw =
     (let c = canonical_name raw in
      starts_with ''layers.'' c \<or> c = ''embed_tokens.weight'' \<or> c = ''norm.weight'' \<or> c = ''lm_head.weight'')"

definition router_bias_name :: "nat \<Rightarrow> string" where
  "router_bias_name layer = ''layers.'' @ show_nat layer @ ''.mlp.gate.e_score_correction_bias''"

definition audit_required_weights :: "string list \<Rightarrow> (unit, load_error) outcome" where
  "audit_required_weights names =
     (let missing = filter (\<lambda>r. \<not> List.member names r) REQUIRED_WEIGHTS in
      if missing \<noteq> [] then Err (MissingRequiredWeights missing) else Ok ())"

definition audit_router_bias :: "string list \<Rightarrow> nat \<Rightarrow> (unit, load_error) outcome" where
  "audit_router_bias names n_layers =
     check_all (\<lambda>layer. if List.member names (router_bias_name layer) then Ok ()
                       else Err (MissingRouterBias (router_bias_name layer))) [0..<n_layers]"

definition take_uint :: "string \<Rightarrow> (nat \<times> string) option" where
  "take_uint s =
     (let digits = takeWhile is_ascii_digit s in
      if digits = [] then None
      else (case parse_usize digits of None \<Rightarrow> None | Some n \<Rightarrow> Some (n, drop (length digits) s)))"

definition expert_name_parts :: "string \<Rightarrow> (nat \<times> nat) option" where
  "expert_name_parts raw =
     Option.bind (strip_prefix ''model.layers.'' raw) (\<lambda>rest.
     Option.bind (take_uint rest) (\<lambda>(layer, rest).
     Option.bind (strip_prefix ''.mlp.experts.'' rest) (\<lambda>rest.
     Option.bind (take_uint rest) (\<lambda>(expert, rest).
     Option.bind (strip_prefix ''.'' rest) (\<lambda>rest.
       if list_ex (\<lambda>proj. rest = proj \<or> rest = proj @ ''_scale'')
            [''gate_proj.weight'', ''up_proj.weight'', ''down_proj.weight'']
       then Some (layer, expert) else None)))))"

definition is_expert_name :: "string \<Rightarrow> bool" where
  "is_expert_name raw \<longleftrightarrow> expert_name_parts raw \<noteq> None"

definition is_qkv_proj_name :: "string \<Rightarrow> bool" where
  "is_qkv_proj_name raw =
     (case strip_prefix ''model.layers.'' raw of None \<Rightarrow> False
      | Some rest \<Rightarrow> (case take_uint rest of None \<Rightarrow> False
          | Some (_, tail) \<Rightarrow> tail = ''.self_attn.qkv_proj.weight''))"

definition classify :: "string \<Rightarrow> string" where
  "classify raw =
     (if is_expert_name raw then ''expert''
      else if starts_with ''model.mtp.'' raw then ''mtp''
      else if contains_str ''dflash'' raw \<or> contains_str ''draft'' raw then ''dflash''
      else if list_ex (\<lambda>p. starts_with p raw) NON_BACKBONE_PREFIXES then ''audio/visual/speech''
      else if is_backbone_weight raw then ''backbone''
      else ''UNCLASSIFIED'')"

subsection \<open>The weight-map audit\<close>

record audit_report =
  ar_tensors :: nat
  ar_kinds :: "string \<rightharpoonup> nat"
  ar_qkv :: nat

type_synonym audit_state = "audit_report \<times> string list"

definition audit_one :: "audit_state \<Rightarrow> string \<Rightarrow> audit_state" where
  "audit_one st raw =
     (let rep = fst st; k = classify raw;
          rep = rep\<lparr>ar_tensors := ar_tensors rep + 1,
                    ar_kinds := (ar_kinds rep)(k \<mapsto> (case ar_kinds rep k of None \<Rightarrow> 0 | Some n \<Rightarrow> n) + 1)\<rparr>;
          problems = (if k = ''UNCLASSIFIED'' then snd st @ [raw] else snd st);
          problems = (if k = ''mtp'' \<and> \<not> starts_with ''mtp.'' (canonical_name raw)
                      then problems @ [raw @ '': mtp prefix lost by canonicalisation''] else problems);
          rep = (if is_qkv_proj_name raw then rep\<lparr>ar_qkv := ar_qkv rep + 1\<rparr> else rep)
      in (rep, problems))"

definition audit_weight_map :: "string list \<Rightarrow> nat \<Rightarrow> (audit_report, load_error) outcome" where
  "audit_weight_map names expected =
     (let st = foldl audit_one (\<lparr>ar_tensors = 0, ar_kinds = (\<lambda>_. None), ar_qkv = 0\<rparr>, []) names;
          rep = fst st;
          problems = (if ar_qkv rep \<noteq> expected
                      then snd st @ [''fused-QKV count '' @ show_nat (ar_qkv rep) @ '' != '' @ show_nat expected]
                      else snd st)
      in if problems \<noteq> [] then Err (NameAudit problems) else Ok rep)"

subsection \<open>Lemmas\<close>

lemma mtp_root_kept: "starts_with ''model.mtp.'' raw \<Longrightarrow> starts_with ''mtp.'' (canonical_name raw)"
proof -
  assume "starts_with ''model.mtp.'' raw"
  then obtain t where "strip_prefix ''model.mtp.'' raw = Some t" by (auto simp: strip_prefix_def)
  then have "canonical_name raw = ''mtp.'' @ t" by (simp add: canonical_name_def)
  then show ?thesis by (simp add: starts_with_def)
qed

lemma classify_mtp: "classify raw = ''mtp'' \<Longrightarrow> starts_with ''model.mtp.'' raw"
  by (auto simp: classify_def split: if_splits)

lemma audit_fold:
  "foldl audit_one (rep, ps) names =
    (\<lparr>ar_tensors = ar_tensors rep + length names,
      ar_kinds = (\<lambda>k. let n = length (filter (\<lambda>r. classify r = k) names) in
                      if n = 0 then ar_kinds rep k else Some ((case ar_kinds rep k of None \<Rightarrow> 0 | Some m \<Rightarrow> m) + n)),
      ar_qkv = ar_qkv rep + length (filter is_qkv_proj_name names)\<rparr>,
     ps @ filter (\<lambda>r. classify r = ''UNCLASSIFIED'') names)"
proof (induction names arbitrary: rep ps)
  case (Cons raw names)
  have "\<not> (classify raw = ''mtp'' \<and> \<not> starts_with ''mtp.'' (canonical_name raw))"
    using classify_mtp mtp_root_kept by blast
  then have step: "audit_one (rep, ps) raw =
      (\<lparr>ar_tensors = ar_tensors rep + 1,
        ar_kinds = (ar_kinds rep)(classify raw \<mapsto> (case ar_kinds rep (classify raw) of None \<Rightarrow> 0 | Some n \<Rightarrow> n) + 1),
        ar_qkv = ar_qkv rep + (if is_qkv_proj_name raw then 1 else 0)\<rparr>,
       ps @ (if classify raw = ''UNCLASSIFIED'' then [raw] else []))"
    by (auto simp: audit_one_def Let_def)
  show ?case unfolding foldl_Cons step Cons by (auto simp: Let_def fun_eq_iff split: option.splits)
qed (simp add: Let_def)


lemma audit_fold_start:
  "foldl audit_one (\<lparr>ar_tensors = 0, ar_kinds = (\<lambda>_. None), ar_qkv = 0\<rparr>, []) names =
    (\<lparr>ar_tensors = length names,
      ar_kinds = (\<lambda>k. if k \<in> classify ` set names then Some (length (filter (\<lambda>r. classify r = k) names)) else None),
      ar_qkv = length (filter is_qkv_proj_name names)\<rparr>,
     filter (\<lambda>r. classify r = ''UNCLASSIFIED'') names)"
proof -
  have "length (filter (\<lambda>r. classify r = k) names) = 0 \<longleftrightarrow> k \<notin> classify ` set names" for k
    by (auto simp: filter_empty_conv)
  then show ?thesis unfolding audit_fold by (simp add: Let_def fun_eq_iff)
qed

text \<open>Printing and parsing an index.\<close>

lemma digit_char: "n < 10 \<Longrightarrow> of_char (char_of (48 + n) :: char) = (48 + n :: nat)"
  by simp

lemma digits_value_snoc: "digits_value (ds @ [c]) = digits_value ds * 10 + (of_char c - 48)"
  by (simp add: digits_value_def)

lemma show_nat_digits: "list_all is_ascii_digit (show_nat n) \<and> show_nat n \<noteq> [] \<and> digits_value (show_nat n) = n"
proof (induction n rule: show_nat.induct)
  case (1 n)
  show ?case
  proof (cases "n < 10")
    case True
    then show ?thesis by (subst (1 2 3) show_nat.simps) (simp add: is_ascii_digit_def digits_value_def)
  next
    case False
    have "digits_value (show_nat (n div 10) @ [char_of (48 + n mod 10)]) = n"
      using 1 [OF False] digit_char [of "n mod 10"] by (simp add: digits_value_snoc)
    moreover have "is_ascii_digit (char_of (48 + n mod 10))"
      using digit_char [of "n mod 10"] mod_less_divisor [of 10 n] by (simp add: is_ascii_digit_def less_Suc_eq_le [symmetric])
    ultimately show ?thesis using 1 [OF False] False by (subst (1 2 3) show_nat.simps) simp
  qed
qed

lemma take_uint_show:
  assumes "n < 2 ^ 64" "\<not> is_ascii_digit c"
  shows "take_uint (show_nat n @ c # rest) = Some (n, c # rest)"
proof -
  have "takeWhile is_ascii_digit (show_nat n @ c # rest) = show_nat n"
    using show_nat_digits [of n] assms(2) by (auto simp: takeWhile_append2 list_all_iff)
  moreover have "parse_usize (show_nat n) = Some n" using show_nat_digits [of n] assms(1) by (simp add: parse_usize_def)
  ultimately show ?thesis using show_nat_digits [of n] by (simp add: take_uint_def Let_def)
qed

lemma expert_name_roundtrip:
  assumes "l < 2 ^ 64" "e < 2 ^ 64" "proj \<in> set [''gate_proj.weight'', ''up_proj.weight'', ''down_proj.weight'']"
  shows "expert_name_parts (''model.layers.'' @ show_nat l @ ''.mlp.experts.'' @ show_nat e @ ''.'' @ proj @ (if sc then ''_scale'' else [])) = Some (l, e)"
proof -
  have dot: "\<not> is_ascii_digit (CHR ''.'')" by (simp add: is_ascii_digit_def)
  have "take_uint (show_nat l @ ''.mlp.experts.'' @ show_nat e @ ''.'' @ proj @ (if sc then ''_scale'' else [])) =
      Some (l, ''.mlp.experts.'' @ show_nat e @ ''.'' @ proj @ (if sc then ''_scale'' else []))"
    using take_uint_show [OF assms(1) dot, of "''mlp.experts.'' @ show_nat e @ ''.'' @ proj @ (if sc then ''_scale'' else [])"] by simp
  moreover have "take_uint (show_nat e @ ''.'' @ proj @ (if sc then ''_scale'' else [])) = Some (e, ''.'' @ proj @ (if sc then ''_scale'' else []))"
    using take_uint_show [OF assms(2) dot, of "proj @ (if sc then ''_scale'' else [])"] by simp
  moreover have "list_ex (\<lambda>p. proj @ (if sc then ''_scale'' else []) = p \<or> proj @ (if sc then ''_scale'' else []) = p @ ''_scale'')
      [''gate_proj.weight'', ''up_proj.weight'', ''down_proj.weight'']" using assms(3) by auto
  ultimately show ?thesis by (simp only: expert_name_parts_def strip_prefix_append Option.bind.bind_lunit prod.case if_True)
qed

text \<open>The required-weights audit asks for \<open>embed.weight\<close>, but the backbone's embedding is called
  \<open>embed_tokens.weight\<close>: a list of canonical backbone names never passes.\<close>

lemma required_audit_rejects_backbone:
  assumes "\<forall>n \<in> set names. is_backbone_weight n \<and> canonical_name n = n"
  shows "\<exists>missing. audit_required_weights names = Err (MissingRequiredWeights missing) \<and> ''embed.weight'' \<in> set missing"
proof -
  have "''embed.weight'' \<notin> set names"
  proof
    assume "''embed.weight'' \<in> set names"
    with assms have "is_backbone_weight ''embed.weight''" "canonical_name ''embed.weight'' = ''embed.weight''" by blast+
    then show False by (simp add: is_backbone_weight_def starts_with_def)
  qed
  then have "''embed.weight'' \<in> set (filter (\<lambda>r. \<not> List.member names r) REQUIRED_WEIGHTS)"
    by (simp add: REQUIRED_WEIGHTS_def)
  then show ?thesis by (auto simp: audit_required_weights_def Let_def simp del: set_filter)
qed

text \<open>C30: the weight-map audit passes exactly when every tensor name is of a known kind and the fused QKV
  projections are as many as expected; its report then counts every name once, under its kind, and a name
  counted as backbone is neither an expert's nor under the MTP root.\<close>

theorem audit_weight_map_exact:
  "audit_weight_map names n = Ok rep \<longleftrightarrow>
     (\<forall>r \<in> set names. classify r \<noteq> ''UNCLASSIFIED'' \<and>
        (classify r = ''backbone'' \<longrightarrow> is_backbone_weight r \<and> \<not> is_expert_name r \<and> \<not> starts_with ''model.mtp.'' r)) \<and>
     length (filter is_qkv_proj_name names) = n \<and>
     rep = \<lparr>ar_tensors = length names,
            ar_kinds = (\<lambda>k. if k \<in> classify ` set names then Some (length (filter (\<lambda>r. classify r = k) names)) else None),
            ar_qkv = n\<rparr>"
proof -
  have "classify r = ''backbone'' \<Longrightarrow> is_backbone_weight r \<and> \<not> is_expert_name r \<and> \<not> starts_with ''model.mtp.'' r" for r
    by (auto simp: classify_def split: if_splits)
  then show ?thesis by (auto simp: audit_weight_map_def audit_fold_start filter_empty_conv Let_def)
qed

lemma audit_weight_map_exact_witness:
  "audit_weight_map [''model.norm.weight''] 0 = Ok \<lparr>ar_tensors = 1, ar_kinds = [''backbone'' \<mapsto> 1], ar_qkv = 0\<rparr>"
proof -
  have "classify ''model.norm.weight'' = ''backbone''" "\<not> is_qkv_proj_name ''model.norm.weight''"
    "is_backbone_weight ''model.norm.weight''" "\<not> is_expert_name ''model.norm.weight''" by code_simp+
  then show ?thesis
    using audit_weight_map_exact [of "[''model.norm.weight'']" 0 "\<lparr>ar_tensors = 1, ar_kinds = [''backbone'' \<mapsto> 1], ar_qkv = 0\<rparr>"]
    by (simp add: starts_with_def fun_eq_iff)
qed

end
