(* ===== verification/AttnGeom.thy ===== *)
theory AttnGeom
  imports E4m3
begin

text \<open>
  \<open>crates/mimo26-attn\<close>: the misfeature flags and errors (\<open>lib.rs\<close>), the geometry and byte
  arithmetic of the KV cache (\<open>geom.rs\<close>) and the two ahead-of-time gates (\<open>aot.rs\<close>).
\<close>

subsection \<open>lib.rs\<close>

datatype family = Ga | Swa

type_synonym attn_naive = u32

definition AN_NONE :: attn_naive where "AN_NONE = 0"
definition ROPE_TRUNC_TABLE :: attn_naive where "ROPE_TRUNC_TABLE = 0x1"
definition ROPE_FULL_WIDTH :: attn_naive where "ROPE_FULL_WIDTH = 0x2"
definition ROPE_SINGLE_THETA :: attn_naive where "ROPE_SINGLE_THETA = 0x4"
definition SCALE_BY_DV :: attn_naive where "SCALE_BY_DV = 0x8"
definition SINK_ON_GA :: attn_naive where "SINK_ON_GA = 0x10"
definition GA_WINDOWED :: attn_naive where "GA_WINDOWED = 0x20"
definition SINK_PER_KV :: attn_naive where "SINK_PER_KV = 0x40"
definition V_BROADCAST :: attn_naive where "V_BROADCAST = 0x80"
definition VSCALE_AFTER_STORE :: attn_naive where "VSCALE_AFTER_STORE = 0x100"
definition VSCALE_ON_READ :: attn_naive where "VSCALE_ON_READ = 0x200"
definition EVICT_KEEP_LAST :: attn_naive where "EVICT_KEEP_LAST = 0x400"
definition POS_ZEROED :: attn_naive where "POS_ZEROED = 0x800"
definition BLOCK128_SHARED_SCALES :: attn_naive where "BLOCK128_SHARED_SCALES = 0x1000"
definition SILENT_CLAMP :: attn_naive where "SILENT_CLAMP = 0x2000"
definition SINK_PER_SPLIT :: attn_naive where "SINK_PER_SPLIT = 0x4000"
definition NO_RUNNING_RESCALE :: attn_naive where "NO_RUNNING_RESCALE = 0x8000"
definition AN_AOT_MIXED_GATE :: attn_naive where "AN_AOT_MIXED_GATE = 0x10000"
definition PAGED_KPOS_ZERO_BASED :: attn_naive where "PAGED_KPOS_ZERO_BASED = 0x20000"
definition AN_ALL :: attn_naive where "AN_ALL = 0xFFFFFFFF"

definition an_has :: "attn_naive \<Rightarrow> attn_naive \<Rightarrow> bool" where
  "an_has n other = (n AND other \<noteq> 0)"

lemma an_has_NONE [simp]: "\<not> an_has AN_NONE b"
  by (simp add: an_has_def AN_NONE_def)

definition attn_bits_from_env :: "bool \<Rightarrow> bool \<Rightarrow> attn_naive" where
  "attn_bits_from_env spike attn = (if spike \<or> attn then AN_ALL else AN_NONE)"

text \<open>The messages of \<open>ShapeMismatch\<close> and \<open>KvLayout\<close> are kept as the numbers they format.\<close>

datatype kv_what = PositionsDecrease int int | EncodeEmpty

datatype attn_error =
  AttnShape nat nat nat nat nat nat
  | SinkNotSupported string
  | SinkLength nat nat
  | KvLayout kv_what

subsection \<open>geom.rs\<close>

definition D_QK :: nat where "D_QK = 192"
definition D_V :: nat where "D_V = 128"
definition N_Q :: nat where "N_Q = 64"
definition GA_KV_HEADS :: nat where "GA_KV_HEADS = 4"
definition SWA_KV_HEADS :: nat where "SWA_KV_HEADS = 8"
definition WINDOW :: nat where "WINDOW = 128"
definition ROT_DIM :: nat where "ROT_DIM = 64"
definition ROPE_THETA :: f64 where "ROPE_THETA = 0x416312D000000000"
definition SWA_ROPE_THETA :: f64 where "SWA_ROPE_THETA = 0x40C3880000000000"
definition VALUE_SCALE :: f32 where "VALUE_SCALE = 0x3F34FDF4"
definition PARTIAL_ROTARY_FACTOR :: f64 where "PARTIAL_ROTARY_FACTOR = 0x3FD5604189374BC7"
definition MAX_POSITION :: int where "MAX_POSITION = 1048576"
definition N_GA :: nat where "N_GA = 9"
definition N_SWA :: nat where "N_SWA = 39"
definition PAGE_TOKENS :: nat where "PAGE_TOKENS = 256"

lemmas geom_consts = D_QK_def D_V_def N_Q_def GA_KV_HEADS_def SWA_KV_HEADS_def WINDOW_def N_GA_def N_SWA_def PAGE_TOKENS_def

datatype scale_mode = ScaleUnit | ScalePerTokenHead

record attn_spec =
  as_family :: family
  as_n_q :: nat
  as_n_kv :: nat
  as_d_qk :: nat
  as_d_v :: nat
  as_window :: nat
  as_theta :: f64
  as_partial_rotary_factor :: f64
  as_value_scale :: f32
  as_sink_enabled :: bool

definition spec_real :: "family \<Rightarrow> attn_spec" where
  "spec_real fam =
     (let (n_kv, theta) = (case fam of Ga \<Rightarrow> (GA_KV_HEADS, ROPE_THETA) | Swa \<Rightarrow> (SWA_KV_HEADS, SWA_ROPE_THETA)) in
      \<lparr>as_family = fam, as_n_q = N_Q, as_n_kv = n_kv, as_d_qk = D_QK, as_d_v = D_V, as_window = WINDOW,
       as_theta = theta, as_partial_rotary_factor = PARTIAL_ROTARY_FACTOR, as_value_scale = VALUE_SCALE,
       as_sink_enabled = (fam = Swa)\<rparr>)"

definition n_rep :: "attn_spec \<Rightarrow> (nat, attn_error) outcome" where
  "n_rep s = (if as_n_kv s = 0 then Panic else Ok (as_n_q s div as_n_kv s))"

definition window_gated :: "attn_spec \<Rightarrow> nat option" where
  "window_gated s = (case as_family s of Ga \<Rightarrow> None | Swa \<Rightarrow> Some (as_window s))"

definition sink_allowed :: "attn_spec \<Rightarrow> bool" where
  "sink_allowed s \<longleftrightarrow> as_family s = Swa \<and> as_sink_enabled s"

definition kv_row_elems :: "attn_spec \<Rightarrow> nat" where
  "kv_row_elems s = as_n_kv s * (as_d_qk s + as_d_v s)"

definition layer_kv_code_bytes :: "nat \<Rightarrow> nat" where
  "layer_kv_code_bytes n_kv = n_kv * (D_QK + D_V)"

definition layer_scale_bytes :: "nat \<Rightarrow> nat" where
  "layer_scale_bytes n_kv = n_kv * 2 * 4"

definition per_token :: "nat \<Rightarrow> nat \<Rightarrow> scale_mode \<Rightarrow> nat" where
  "per_token n_layers n_kv mode =
     (let codes = n_layers * layer_kv_code_bytes n_kv in
      case mode of ScaleUnit \<Rightarrow> codes | ScalePerTokenHead \<Rightarrow> codes + n_layers * layer_scale_bytes n_kv)"

definition ga_kv_bytes_per_token :: "scale_mode \<Rightarrow> nat" where
  "ga_kv_bytes_per_token mode = per_token N_GA GA_KV_HEADS mode"

definition swa_ring_bytes_per_seq :: "scale_mode \<Rightarrow> nat" where
  "swa_ring_bytes_per_seq mode = per_token N_SWA SWA_KV_HEADS mode * WINDOW"

definition ga_page_bytes :: "scale_mode \<Rightarrow> nat" where
  "ga_page_bytes mode = ga_kv_bytes_per_token mode * PAGE_TOKENS"

text \<open>The byte pins the documentation states.\<close>

lemma byte_pins:
  "ga_kv_bytes_per_token ScaleUnit = 11520" "ga_kv_bytes_per_token ScalePerTokenHead = 11520 + 288"
  "swa_ring_bytes_per_seq ScaleUnit = 12779520" "ga_page_bytes ScaleUnit = 2949120"
  by (simp_all add: ga_kv_bytes_per_token_def swa_ring_bytes_per_seq_def ga_page_bytes_def per_token_def
    layer_kv_code_bytes_def layer_scale_bytes_def geom_consts)

subsection \<open>aot.rs\<close>

datatype aot_role = Coordinator | Gb10

definition COORD_ARCHS :: "u32 list" where "COORD_ARCHS = [120]"
definition GB10_ARCHS :: "u32 list" where "GB10_ARCHS = [121]"
definition COORD_SM_COUNTS :: "u32 list" where "COORD_SM_COUNTS = [170, 188]"
definition GB10_SM_COUNTS :: "u32 list" where "GB10_SM_COUNTS = [48]"
definition NAIVE_UNION :: "u32 list" where "NAIVE_UNION = [170, 121]"

datatype aot_error = WrongArch aot_role u32 "u32 list" | WrongSmCount aot_role u32 "u32 list"

definition arch_allowed :: "aot_role \<Rightarrow> u32 list" where
  "arch_allowed r = (case r of Coordinator \<Rightarrow> COORD_ARCHS | Gb10 \<Rightarrow> GB10_ARCHS)"

definition sm_allowed :: "aot_role \<Rightarrow> u32 list" where
  "sm_allowed r = (case r of Coordinator \<Rightarrow> COORD_SM_COUNTS | Gb10 \<Rightarrow> GB10_SM_COUNTS)"

definition check_aot_arch :: "aot_role \<Rightarrow> u32 \<Rightarrow> attn_naive \<Rightarrow> (unit, aot_error) outcome" where
  "check_aot_arch r arch naive =
     (if an_has naive AN_AOT_MIXED_GATE then
        (if List.member NAIVE_UNION arch then Ok () else Err (WrongArch r arch NAIVE_UNION))
      else if List.member (arch_allowed r) arch then Ok ()
      else Err (WrongArch r arch (arch_allowed r)))"

definition check_aot_sm_count :: "aot_role \<Rightarrow> u32 \<Rightarrow> attn_naive \<Rightarrow> (unit, aot_error) outcome" where
  "check_aot_sm_count r sm naive =
     (if an_has naive AN_AOT_MIXED_GATE then
        (if List.member NAIVE_UNION sm then Ok () else Err (WrongSmCount r sm NAIVE_UNION))
      else if List.member (sm_allowed r) sm then Ok ()
      else Err (WrongSmCount r sm (sm_allowed r)))"

definition check_aot :: "aot_role \<Rightarrow> u32 \<Rightarrow> u32 \<Rightarrow> attn_naive \<Rightarrow> (unit, aot_error) outcome" where
  "check_aot r arch sm naive =
     (if an_has naive AN_AOT_MIXED_GATE then
        (if list_ex (List.member NAIVE_UNION) [arch, sm] then Ok () else Err (WrongArch r arch NAIVE_UNION))
      else obind (check_aot_arch r arch AN_NONE) (\<lambda>_. check_aot_sm_count r sm AN_NONE))"

text \<open>No pair of a chip and a count passes for both roles.\<close>

lemma aot_roles_disjoint:
  "check_aot Coordinator a s AN_NONE = Ok () \<Longrightarrow> check_aot Gb10 a' s' AN_NONE = Ok () \<Longrightarrow> a \<noteq> a' \<and> s \<noteq> s'"
  by (auto simp: check_aot_def check_aot_arch_def check_aot_sm_count_def arch_allowed_def sm_allowed_def COORD_ARCHS_def
    GB10_ARCHS_def COORD_SM_COUNTS_def GB10_SM_COUNTS_def outcome_simps split: if_splits)

end
