(* ===== verification/KvCodec.thy ===== *)
theory KvCodec
  imports AttnGeom
begin

text \<open>
  The FP8 KV codec (\<open>crates/mimo26-attn/src/fp8kv.rs\<close>): codes and scale planes of a batch of tokens,
  encoded and decoded. A loop over tokens, heads and dimensions visits the plane in index order, so
  the model lists the indices in that order.
\<close>

subsection \<open>Layouts\<close>

datatype kv_layout = LUnit | LPerTokenHead | LBlock128Shared

definition layout_of :: "scale_mode \<Rightarrow> attn_naive \<Rightarrow> kv_layout" where
  "layout_of mode naive =
     (if an_has naive BLOCK128_SHARED_SCALES then LBlock128Shared
      else (case mode of ScaleUnit \<Rightarrow> LUnit | ScalePerTokenHead \<Rightarrow> LPerTokenHead))"

definition SCALE_BYTES :: nat where "SCALE_BYTES = 4"

record encoded_kv =
  enc_layout :: kv_layout
  enc_n_tok :: nat
  enc_n_kv :: nat
  enc_d_qk :: nat
  enc_d_v :: nat
  k_codes :: "u8 list"
  v_codes :: "u8 list"
  k_scales :: "f32 list"
  v_scales :: "f32 list"
  shared_scales :: "f32 list"
  clip_count :: nat

definition k_code_off :: "nat \<Rightarrow> nat \<Rightarrow> nat \<Rightarrow> nat \<Rightarrow> nat \<Rightarrow> nat" where
  "k_code_off t h i n_kv d_qk = (t * n_kv + h) * d_qk + i"

definition v_code_off :: "nat \<Rightarrow> nat \<Rightarrow> nat \<Rightarrow> nat \<Rightarrow> nat \<Rightarrow> nat" where
  "v_code_off t h j n_kv d_v = (t * n_kv + h) * d_v + j"

definition k_scale_off :: "nat \<Rightarrow> nat \<Rightarrow> nat \<Rightarrow> nat" where
  "k_scale_off t h n_kv = t * n_kv + h"

definition v_scale_off :: "nat \<Rightarrow> nat \<Rightarrow> nat \<Rightarrow> nat" where
  "v_scale_off t h n_kv = t * n_kv + h"

definition shared_block128_off :: "nat \<Rightarrow> nat" where
  "shared_block128_off flat = flat div 128"

definition shared_blocks_per_row :: "nat \<Rightarrow> nat \<Rightarrow> nat \<Rightarrow> nat" where
  "shared_blocks_per_row n_kv d_qk d_v = (n_kv * (d_qk + d_v) + 127) div 128"

definition kv_bytes_per_token :: "kv_layout \<Rightarrow> nat \<Rightarrow> nat \<Rightarrow> nat \<Rightarrow> nat" where
  "kv_bytes_per_token l n_kv d_qk d_v =
     (let codes = n_kv * (d_qk + d_v) in
      case l of LUnit \<Rightarrow> codes
      | LPerTokenHead \<Rightarrow> codes + n_kv * 2 * SCALE_BYTES
      | LBlock128Shared \<Rightarrow> codes + shared_blocks_per_row n_kv d_qk d_v * SCALE_BYTES)"

subsection \<open>Encoding\<close>

definition head_index :: "nat \<Rightarrow> nat \<Rightarrow> (nat \<times> nat) list" where
  "head_index n_tok n_kv = concat (map (\<lambda>t. map (\<lambda>h. (t, h)) [0..<n_kv]) [0..<n_tok])"

definition plane_index :: "nat \<Rightarrow> nat \<Rightarrow> nat \<Rightarrow> (nat \<times> nat \<times> nat) list" where
  "plane_index n_tok n_kv d = concat (map (\<lambda>(t, h). map (\<lambda>i. (t, h, i)) [0..<d]) (head_index n_tok n_kv))"

abbreviation f32_one :: f32 where
  "f32_one \<equiv> 0x3F800000"

definition clipped :: "f64 \<Rightarrow> bool" where
  "clipped q = f64_lt E4M3_MAX (f64_abs q)"

definition encode_rows :: "f32 list \<Rightarrow> nat \<Rightarrow> nat \<Rightarrow> nat \<Rightarrow> (nat \<Rightarrow> nat \<Rightarrow> (f32, attn_error) outcome) \<Rightarrow> attn_naive
    \<Rightarrow> (u8 list \<times> nat, attn_error) outcome" where
  "encode_rows vals n_tok n_kv d scale_of naive =
     (if length vals \<noteq> n_tok * n_kv * d then Panic
      else obind (collect_results (\<lambda>(t, h, i). obind (scale_of t h) (\<lambda>s.
             obind (index_at vals ((t * n_kv + h) * d + i)) (\<lambda>x. Ok (f64_of_f32 (f32_div x s))))) (plane_index n_tok n_kv d))
        (\<lambda>qs. Ok (map encode_e4m3 qs, if an_has naive SILENT_CLAMP then 0 else length (filter clipped qs))))"

definition plane_scale :: "f32 list \<Rightarrow> f32" where
  "plane_scale row =
     (let amax = foldl (\<lambda>a v. f64_max a (f64_abs (f64_of_f32 v))) 0 row in
      if f64_lt 0 amax then f32_of_f64 (f64_div amax E4M3_MAX) else f32_one)"

definition flat_lookup :: "f32 list \<Rightarrow> f32 list \<Rightarrow> nat \<Rightarrow> nat \<Rightarrow> nat \<Rightarrow> nat \<Rightarrow> nat \<Rightarrow> (f32 \<times> bool, attn_error) outcome" where
  "flat_lookup k_rows v_rows t n_kv d_qk d_v flat =
     (let per_head = d_qk + d_v; h = flat div per_head; within = flat mod per_head in
      if within < d_qk then obind (index_at k_rows (k_code_off t h within n_kv d_qk)) (\<lambda>x. Ok (x, True))
      else obind (index_at v_rows (v_code_off t h (within - d_qk) n_kv d_v)) (\<lambda>x. Ok (x, False)))"

definition plane_scales :: "f32 list \<Rightarrow> nat \<Rightarrow> nat \<Rightarrow> nat \<Rightarrow> (f32 list, attn_error) outcome" where
  "plane_scales rows n_tok n_kv d =
     collect_results (\<lambda>(t, h). obind (subslice rows ((t * n_kv + h) * d) ((t * n_kv + h) * d + d)) (\<lambda>r. Ok (plane_scale r)))
       (head_index n_tok n_kv)"

definition shared_plane :: "f32 list \<Rightarrow> f32 list \<Rightarrow> nat \<Rightarrow> nat \<Rightarrow> nat \<Rightarrow> nat \<Rightarrow> (f32 list, attn_error) outcome" where
  "shared_plane k_rows v_rows n_tok n_kv d_qk d_v =
     collect_results (\<lambda>(t, b).
       obind (fold_results (\<lambda>a flat. obind (flat_lookup k_rows v_rows t n_kv d_qk d_v flat) (\<lambda>x.
                Ok (f64_max a (f64_abs (f64_of_f32 (fst x)))))) 0
              [b * 128..<min ((b + 1) * 128) (n_kv * (d_qk + d_v))]) (\<lambda>amax.
       Ok (if f64_lt 0 amax then f32_of_f64 (f64_div amax E4M3_MAX) else f32_one)))
     (head_index n_tok (shared_blocks_per_row n_kv d_qk d_v))"

text \<open>One plane of the shared layout: \<open>base\<close> is the plane's start within a head's flat row.\<close>

definition shared_codes :: "f32 list \<Rightarrow> f32 list \<Rightarrow> nat \<Rightarrow> nat \<Rightarrow> nat \<Rightarrow> nat \<Rightarrow> nat \<Rightarrow> nat \<Rightarrow> (f64 list, attn_error) outcome" where
  "shared_codes rows shared blocks n_tok n_kv d per_head base =
     collect_results (\<lambda>(t, h, i).
       obind (index_at shared (t * blocks + shared_block128_off (h * per_head + base + i))) (\<lambda>s.
       obind (index_at rows ((t * n_kv + h) * d + i)) (\<lambda>x.
       Ok (f64_div (f64_of_f32 x) (f64_of_f32 s))))) (plane_index n_tok n_kv d)"

definition encode_kv :: "f32 list \<Rightarrow> f32 list \<Rightarrow> nat \<Rightarrow> nat \<Rightarrow> nat \<Rightarrow> nat \<Rightarrow> scale_mode \<Rightarrow> attn_naive \<Rightarrow> (encoded_kv, attn_error) outcome" where
  "encode_kv k_rows v_rows n_tok n_kv d_qk d_v mode naive =
     (if n_tok = 0 then Err (KvLayout EncodeEmpty)
      else let l = layout_of mode naive;
               enc = (\<lambda>kc vc ks vs sh clips. \<lparr>enc_layout = l, enc_n_tok = n_tok, enc_n_kv = n_kv, enc_d_qk = d_qk, enc_d_v = d_v,
                  k_codes = kc, v_codes = vc, k_scales = ks, v_scales = vs, shared_scales = sh, clip_count = clips\<rparr>) in
        (case l of
           LUnit \<Rightarrow>
             obind (encode_rows k_rows n_tok n_kv d_qk (\<lambda>_ _. Ok f32_one) naive) (\<lambda>k.
             obind (encode_rows v_rows n_tok n_kv d_v (\<lambda>_ _. Ok f32_one) naive) (\<lambda>v.
             Ok (enc (fst k) (fst v) [] [] [] (snd k + snd v))))
         | LPerTokenHead \<Rightarrow>
             obind (plane_scales k_rows n_tok n_kv d_qk) (\<lambda>ks.
             obind (plane_scales v_rows n_tok n_kv d_v) (\<lambda>vs.
             obind (encode_rows k_rows n_tok n_kv d_qk (\<lambda>t h. index_at ks (k_scale_off t h n_kv)) naive) (\<lambda>k.
             obind (encode_rows v_rows n_tok n_kv d_v (\<lambda>t h. index_at vs (v_scale_off t h n_kv)) naive) (\<lambda>v.
             Ok (enc (fst k) (fst v) ks vs [] (snd k + snd v))))))
         | LBlock128Shared \<Rightarrow>
             let blocks = shared_blocks_per_row n_kv d_qk d_v in
             obind (shared_plane k_rows v_rows n_tok n_kv d_qk d_v) (\<lambda>shared.
             obind (shared_codes k_rows shared blocks n_tok n_kv d_qk (d_qk + d_v) 0) (\<lambda>k.
             obind (shared_codes v_rows shared blocks n_tok n_kv d_v (d_qk + d_v) d_qk) (\<lambda>v.
             Ok (enc (map encode_e4m3 k) (map encode_e4m3 v) [] [] shared
                   (if an_has naive SILENT_CLAMP then 0 else length (filter clipped k) + length (filter clipped v))))))))"

subsection \<open>Decoding\<close>

definition decode_plane :: "u8 list \<Rightarrow> nat \<Rightarrow> nat \<Rightarrow> nat \<Rightarrow> (nat \<Rightarrow> nat \<Rightarrow> nat \<Rightarrow> (f32, attn_error) outcome) \<Rightarrow> (f32 \<Rightarrow> f32)
    \<Rightarrow> (f32 list, attn_error) outcome" where
  "decode_plane codes n_tok n_kv d scale_of finish =
     collect_results (\<lambda>(t, h, i). obind (scale_of t h i) (\<lambda>s.
       obind (index_at codes ((t * n_kv + h) * d + i)) (\<lambda>c. Ok (finish (f32_mul (f32_of_f64 (decode_e4m3 c)) s)))))
     (plane_index n_tok n_kv d)"

definition decode_kv :: "encoded_kv \<Rightarrow> f32 \<Rightarrow> (f32 list \<times> f32 list, attn_error) outcome" where
  "decode_kv e read_scale =
     (let n_tok = enc_n_tok e; n_kv = enc_n_kv e; d_qk = enc_d_qk e; d_v = enc_d_v e;
          shared = (\<lambda>flat. index_at (shared_scales e) (shared_block128_off flat)) in
      obind (decode_plane (k_codes e) n_tok n_kv d_qk (\<lambda>t h i.
          case enc_layout e of LUnit \<Rightarrow> Ok f32_one
          | LPerTokenHead \<Rightarrow> index_at (k_scales e) (k_scale_off t h n_kv)
          | LBlock128Shared \<Rightarrow> shared (h * (d_qk + d_v) + i)) (\<lambda>x. x)) (\<lambda>k.
      obind (decode_plane (v_codes e) n_tok n_kv d_v (\<lambda>t h j.
          case enc_layout e of LUnit \<Rightarrow> Ok f32_one
          | LPerTokenHead \<Rightarrow> index_at (v_scales e) (v_scale_off t h n_kv)
          | LBlock128Shared \<Rightarrow> shared (h * (d_qk + d_v) + d_qk + j)) (\<lambda>x. f32_mul x read_scale)) (\<lambda>v.
      Ok (k, v))))"

subsection \<open>Tokens\<close>

text \<open>One token's plane, head by head: \<open>F\<close> of the head's scale and the element.\<close>

definition token_row :: "(f32 \<Rightarrow> 'a \<Rightarrow> 'b) \<Rightarrow> (nat \<Rightarrow> f32) \<Rightarrow> nat \<Rightarrow> nat \<Rightarrow> 'a list \<Rightarrow> 'b list" where
  "token_row F S n_kv d r = concat (map (\<lambda>h. map (\<lambda>i. F (S h) (r ! (h * d + i))) [0..<d]) [0..<n_kv])"

lemma length_token_row [simp]: "length (token_row F S n_kv d r) = n_kv * d"
  by (simp add: token_row_def length_concat sum_list_triv comp_def)

lemma nth_concat_uniform:
  assumes "\<forall>r \<in> set rows. length r = w" "t < length rows" "i < w"
  shows "t * w + i < length (concat rows)" "concat rows ! (t * w + i) = rows ! t ! i"
  using assms
proof (induction rows arbitrary: t)
  case (Cons r rows)
  { case 1 then show ?case using Cons(1) [of "t - 1"] by (cases t) auto }
  { case 2 then show ?case using Cons(2) [of "t - 1"] by (cases t) (auto simp: nth_append) }
qed simp_all

lemma token_row_nth: "h < n_kv \<Longrightarrow> i < d \<Longrightarrow> token_row F S n_kv d r ! (h * d + i) = F (S h) (r ! (h * d + i))"
  unfolding token_row_def
  using nth_concat_uniform(2) [of "map (\<lambda>h. map (\<lambda>i. F (S h) (r ! (h * d + i))) [0..<d]) [0..<n_kv]" d h i] by simp

lemma map_plane_index:
  "map f (plane_index n n_kv d) = concat (map (\<lambda>t. concat (map (\<lambda>h. map (\<lambda>i. f (t, h, i)) [0..<d]) [0..<n_kv])) [0..<n])"
proof -
  have "concat (concat xss) = concat (map concat xss)" for xss :: "'a list list list" by (induction xss) simp_all
  then show ?thesis by (simp add: plane_index_def head_index_def map_concat comp_def)
qed

lemma set_plane_index: "set (plane_index n n_kv d) = {(t, h, i). t < n \<and> h < n_kv \<and> i < d}"
  by (force simp: plane_index_def head_index_def)

lemma map_index_rows: "map (\<lambda>t. f (rows ! t)) [0..<length rows] = map f rows"
  by (rule nth_equalityI) simp_all

text \<open>A loop over the plane of uniform rows is a map over its tokens.\<close>

lemma plane_loop:
  assumes rows: "\<forall>r \<in> set rows. length r = n_kv * d"
    and S: "\<And>t h i. t < length rows \<Longrightarrow> h < n_kv \<Longrightarrow> scale_of t h i = Ok (S t h)"
  shows "collect_results (\<lambda>(t, h, i). obind (scale_of t h i) (\<lambda>s. obind (index_at (concat rows) ((t * n_kv + h) * d + i)) (\<lambda>x. Ok (F s x))))
      (plane_index (length rows) n_kv d) =
    (Ok (concat (map (\<lambda>t. token_row F (S t) n_kv d (rows ! t)) [0..<length rows])) :: ('b list, attn_error) outcome)"
proof -
  have at: "index_at (concat rows) ((t * n_kv + h) * d + i) = (Ok (rows ! t ! (h * d + i)) :: (_, attn_error) outcome)"
    if "t < length rows" "h < n_kv" "i < d" for t h i
  proof -
    have eq: "(t * n_kv + h) * d + i = t * (n_kv * d) + (h * d + i)" by (simp add: algebra_simps)
    have "h * d + i < n_kv * d" by (rule less_le_trans [of _ "Suc h * d"]) (use that in \<open>simp_all only: mult_le_mono1 Suc_leI, simp\<close>)
    then show ?thesis unfolding eq using nth_concat_uniform [OF rows that(1), of "h * d + i"] by (simp only: index_at_def if_True)
  qed
  have "collect_results (\<lambda>(t, h, i). obind (scale_of t h i) (\<lambda>s. obind (index_at (concat rows) ((t * n_kv + h) * d + i)) (\<lambda>x. Ok (F s x))))
      (plane_index (length rows) n_kv d) =
    (Ok (map (\<lambda>(t, h, i). F (S t h) (rows ! t ! (h * d + i))) (plane_index (length rows) n_kv d)) :: ('b list, attn_error) outcome)"
    by (rule collect_results_all_Ok) (auto simp: set_plane_index S at)
  also have "map (\<lambda>(t, h, i). F (S t h) (rows ! t ! (h * d + i))) (plane_index (length rows) n_kv d) =
      concat (map (\<lambda>t. token_row F (S t) n_kv d (rows ! t)) [0..<length rows])"
    by (simp add: map_plane_index token_row_def)
  finally show ?thesis .
qed


text \<open>The scale of each head of a token's plane.\<close>

definition head_scale :: "scale_mode \<Rightarrow> nat \<Rightarrow> f32 list \<Rightarrow> nat \<Rightarrow> f32" where
  "head_scale mode d r h = (case mode of ScaleUnit \<Rightarrow> f32_one | ScalePerTokenHead \<Rightarrow> plane_scale (take d (drop (h * d) r)))"

definition tok_quot :: "scale_mode \<Rightarrow> nat \<Rightarrow> nat \<Rightarrow> f32 list \<Rightarrow> f64 list" where
  "tok_quot mode n_kv d r = token_row (\<lambda>s x. f64_of_f32 (f32_div x s)) (head_scale mode d r) n_kv d r"

definition tok_codes :: "scale_mode \<Rightarrow> nat \<Rightarrow> nat \<Rightarrow> f32 list \<Rightarrow> u8 list" where
  "tok_codes mode n_kv d r = map encode_e4m3 (tok_quot mode n_kv d r)"

definition tok_scales :: "scale_mode \<Rightarrow> nat \<Rightarrow> nat \<Rightarrow> f32 list \<Rightarrow> f32 list" where
  "tok_scales mode n_kv d r = (case mode of ScaleUnit \<Rightarrow> [] | ScalePerTokenHead \<Rightarrow> map (head_scale mode d r) [0..<n_kv])"

definition tok_clips :: "scale_mode \<Rightarrow> nat \<Rightarrow> nat \<Rightarrow> f32 list \<Rightarrow> nat" where
  "tok_clips mode n_kv d r = length (filter clipped (tok_quot mode n_kv d r))"

text \<open>What a token's element reads back as.\<close>

definition fp8_trip :: "f32 \<Rightarrow> f32 \<Rightarrow> f32" where
  "fp8_trip s x = f32_mul (f32_of_f64 (decode_e4m3 (encode_e4m3 (f64_of_f32 (f32_div x s))))) s"

definition tok_trip :: "scale_mode \<Rightarrow> nat \<Rightarrow> nat \<Rightarrow> f32 list \<Rightarrow> f32 list" where
  "tok_trip mode n_kv d r = token_row fp8_trip (head_scale mode d r) n_kv d r"

definition kv_token_ok :: "nat \<Rightarrow> nat \<Rightarrow> nat \<Rightarrow> f32 list \<times> f32 list \<Rightarrow> bool" where
  "kv_token_ok n_kv d_qk d_v p \<longleftrightarrow> length (fst p) = n_kv * d_qk \<and> length (snd p) = n_kv * d_v"

text \<open>The encoding of a list of tokens.\<close>

definition enc_of :: "scale_mode \<Rightarrow> nat \<Rightarrow> nat \<Rightarrow> nat \<Rightarrow> nat \<Rightarrow> (f32 list \<times> f32 list) list \<Rightarrow> encoded_kv" where
  "enc_of mode n_kv d_qk d_v clips H =
     \<lparr>enc_layout = layout_of mode AN_NONE, enc_n_tok = length H, enc_n_kv = n_kv, enc_d_qk = d_qk, enc_d_v = d_v,
      k_codes = concat (map (tok_codes mode n_kv d_qk \<circ> fst) H), v_codes = concat (map (tok_codes mode n_kv d_v \<circ> snd) H),
      k_scales = concat (map (tok_scales mode n_kv d_qk \<circ> fst) H), v_scales = concat (map (tok_scales mode n_kv d_v \<circ> snd) H),
      shared_scales = [], clip_count = clips\<rparr>"

definition tokens_clips :: "scale_mode \<Rightarrow> nat \<Rightarrow> nat \<Rightarrow> nat \<Rightarrow> (f32 list \<times> f32 list) list \<Rightarrow> nat" where
  "tokens_clips mode n_kv d_qk d_v H =
     sum_list (map (tok_clips mode n_kv d_qk \<circ> fst) H) + sum_list (map (tok_clips mode n_kv d_v \<circ> snd) H)"

lemma map_token_row: "map g (token_row F S n_kv d r) = token_row (\<lambda>s x. g (F s x)) S n_kv d r"
  by (simp add: token_row_def map_concat comp_def)

lemma encode_rows_tokens:
  assumes "\<forall>r \<in> set rows. length r = n_kv * d" "n = length rows"
    "\<And>t h. t < length rows \<Longrightarrow> h < n_kv \<Longrightarrow> scale_of t h = Ok (head_scale mode d (rows ! t) h)"
  shows "encode_rows (concat rows) n n_kv d scale_of AN_NONE =
    Ok (concat (map (tok_codes mode n_kv d) rows), sum_list (map (tok_clips mode n_kv d) rows))"
proof -
  have "length (concat rows) = n * (n_kv * d)" using assms(1,2) length_concat_uniform [of rows "\<lambda>r. r"] by simp
  moreover have "collect_results (\<lambda>(t, h, i). obind (scale_of t h) (\<lambda>s.
             obind (index_at (concat rows) ((t * n_kv + h) * d + i)) (\<lambda>x. Ok (f64_of_f32 (f32_div x s))))) (plane_index n n_kv d) =
      Ok (concat (map (tok_quot mode n_kv d) rows))"
    using plane_loop [OF assms(1), where scale_of = "\<lambda>t h i. scale_of t h" and S = "\<lambda>t. head_scale mode d (rows ! t)"
        and F = "\<lambda>s x. f64_of_f32 (f32_div x s)"] assms(2,3) map_index_rows [of "tok_quot mode n_kv d" rows]
    by (simp add: tok_quot_def [abs_def])
  moreover have "map encode_e4m3 (concat (map (tok_quot mode n_kv d) rows)) = concat (map (tok_codes mode n_kv d) rows)"
    by (simp add: map_concat comp_def tok_codes_def [abs_def])
  moreover have "length (filter clipped (concat (map (tok_quot mode n_kv d) rows))) = sum_list (map (tok_clips mode n_kv d) rows)"
    by (induction rows) (simp_all add: tok_clips_def)
  ultimately show ?thesis by (simp add: encode_rows_def algebra_simps)
qed

lemma plane_scales_tokens:
  assumes "\<forall>r \<in> set rows. length r = n_kv * d" "n = length rows"
  shows "plane_scales (concat rows) n n_kv d = Ok (concat (map (tok_scales ScalePerTokenHead n_kv d) rows))"
proof -
  have at: "subslice (concat rows) ((t * n_kv + h) * d) ((t * n_kv + h) * d + d) =
      (Ok (take d (drop (h * d) (rows ! t))) :: (_, attn_error) outcome)" if "t < n" "h < n_kv" for t h
  proof -
    have len: "length (concat rows) = n * (n_kv * d)" using assms length_concat_uniform [of rows "\<lambda>r. r"] by simp
    have "h * d + d \<le> n_kv * d" using mult_le_mono1 [of "Suc h" n_kv d] that(2) by simp
    moreover have "Suc t * (n_kv * d) \<le> n * (n_kv * d)" using that(1) by (intro mult_le_mono1) simp
    ultimately have le: "(t * n_kv + h) * d + d \<le> length (concat rows)" by (simp add: len algebra_simps)
    have "take d (drop ((t * n_kv + h) * d) (concat rows)) = take d (drop (h * d) (rows ! t))"
    proof (rule nth_equalityI)
      show "length (take d (drop ((t * n_kv + h) * d) (concat rows))) = length (take d (drop (h * d) (rows ! t)))"
        using le assms that \<open>h * d + d \<le> n_kv * d\<close> by simp
      fix i assume "i < length (take d (drop ((t * n_kv + h) * d) (concat rows)))"
      then have i: "i < d" by simp
      have eq: "(t * n_kv + h) * d + i = t * (n_kv * d) + (h * d + i)" by (simp add: algebra_simps)
      have "h * d + i < n_kv * d" using i \<open>h * d + d \<le> n_kv * d\<close> by linarith
      then have "concat rows ! ((t * n_kv + h) * d + i) = rows ! t ! (h * d + i)"
        unfolding eq using nth_concat_uniform(2) [OF assms(1), of t "h * d + i"] that(1) assms(2) by (simp only:)
      then show "take d (drop ((t * n_kv + h) * d) (concat rows)) ! i = take d (drop (h * d) (rows ! t)) ! i"
        using i le assms that \<open>h * d + d \<le> n_kv * d\<close> by simp
    qed
    with le show ?thesis by (simp add: subslice_def)
  qed
  have "plane_scales (concat rows) n n_kv d = Ok (map (\<lambda>(t, h). head_scale ScalePerTokenHead d (rows ! t) h) (head_index n n_kv))"
    unfolding plane_scales_def
    by (rule collect_results_all_Ok) (auto simp: head_index_def at head_scale_def)
  also have "map (\<lambda>(t, h). head_scale ScalePerTokenHead d (rows ! t) h) (head_index n n_kv) =
      concat (map (\<lambda>t. tok_scales ScalePerTokenHead n_kv d (rows ! t)) [0..<n])"
    by (simp add: head_index_def map_concat comp_def tok_scales_def)
  also have "map (\<lambda>t. tok_scales ScalePerTokenHead n_kv d (rows ! t)) [0..<n] = map (tok_scales ScalePerTokenHead n_kv d) rows"
    by (rule nth_equalityI) (simp_all add: assms(2))
  finally show ?thesis .
qed

lemma tok_scales_nth:
  assumes "\<forall>r \<in> set rows. length r = n_kv * d" "t < length rows" "h < n_kv"
  shows "index_at (concat (map (tok_scales ScalePerTokenHead n_kv d) rows)) (t * n_kv + h) =
    (Ok (head_scale ScalePerTokenHead d (rows ! t) h) :: (f32, attn_error) outcome)"
  using nth_concat_uniform [of "map (tok_scales ScalePerTokenHead n_kv d) rows" n_kv t h] assms(2,3)
  by (simp add: index_at_def tok_scales_def)

lemma encode_kv_tokens:
  assumes "H \<noteq> []" "\<forall>p \<in> set H. kv_token_ok n_kv d_qk d_v p" "n = length H"
  shows "encode_kv (concat (map fst H)) (concat (map snd H)) n n_kv d_qk d_v mode AN_NONE =
    Ok (enc_of mode n_kv d_qk d_v (tokens_clips mode n_kv d_qk d_v H) H)"
proof -
  have k: "\<forall>r \<in> set (map fst H). length r = n_kv * d_qk" "n = length (map fst H)"
    and v: "\<forall>r \<in> set (map snd H). length r = n_kv * d_v" "n = length (map snd H)"
    using assms(2,3) by (auto simp: kv_token_ok_def)
  show ?thesis
  proof (cases mode)
    case ScaleUnit
    have "encode_rows (concat (map fst H)) n n_kv d_qk (\<lambda>_ _. Ok f32_one) AN_NONE =
        Ok (concat (map (tok_codes mode n_kv d_qk) (map fst H)), sum_list (map (tok_clips mode n_kv d_qk) (map fst H)))"
      by (rule encode_rows_tokens [OF k]) (simp add: head_scale_def ScaleUnit)
    moreover have "encode_rows (concat (map snd H)) n n_kv d_v (\<lambda>_ _. Ok f32_one) AN_NONE =
        Ok (concat (map (tok_codes mode n_kv d_v) (map snd H)), sum_list (map (tok_clips mode n_kv d_v) (map snd H)))"
      by (rule encode_rows_tokens [OF v]) (simp add: head_scale_def ScaleUnit)
    ultimately show ?thesis using assms(1,3)
      by (simp add: encode_kv_def ScaleUnit layout_of_def enc_of_def tok_scales_def tokens_clips_def comp_def Let_def)
  next
    case ScalePerTokenHead
    have "encode_rows (concat (map fst H)) n n_kv d_qk
          (\<lambda>t h. index_at (concat (map (tok_scales mode n_kv d_qk) (map fst H))) (k_scale_off t h n_kv)) AN_NONE =
        Ok (concat (map (tok_codes mode n_kv d_qk) (map fst H)), sum_list (map (tok_clips mode n_kv d_qk) (map fst H)))"
      by (rule encode_rows_tokens [OF k]) (simp only: ScalePerTokenHead k_scale_off_def tok_scales_nth [OF k(1)])
    moreover have "encode_rows (concat (map snd H)) n n_kv d_v
          (\<lambda>t h. index_at (concat (map (tok_scales mode n_kv d_v) (map snd H))) (v_scale_off t h n_kv)) AN_NONE =
        Ok (concat (map (tok_codes mode n_kv d_v) (map snd H)), sum_list (map (tok_clips mode n_kv d_v) (map snd H)))"
      by (rule encode_rows_tokens [OF v]) (simp only: ScalePerTokenHead v_scale_off_def tok_scales_nth [OF v(1)])
    ultimately show ?thesis using plane_scales_tokens [OF k] plane_scales_tokens [OF v] assms(1,3)
      by (simp add: encode_kv_def ScalePerTokenHead layout_of_def enc_of_def tokens_clips_def comp_def Let_def)
  qed
qed


subsection \<open>Reading back\<close>

lemma token_row_cong: "(\<And>h i. h < n_kv \<Longrightarrow> i < d \<Longrightarrow> F (S h) (r ! (h * d + i)) = G (T h) (q ! (h * d + i))) \<Longrightarrow>
    token_row F S n_kv d r = token_row G T n_kv d q"
  by (auto simp: token_row_def intro!: arg_cong [where f = concat])

lemma decode_plane_tokens:
  assumes "\<And>t h i. t < length rows \<Longrightarrow> h < n_kv \<Longrightarrow> scale_of t h i = Ok (head_scale mode d (rows ! t) h)" "n = length rows"
  shows "decode_plane (concat (map (tok_codes mode n_kv d) rows)) n n_kv d scale_of finish =
    Ok (concat (map (\<lambda>r. map finish (tok_trip mode n_kv d r)) rows))"
proof -
  have row: "token_row (\<lambda>s c. finish (f32_mul (f32_of_f64 (decode_e4m3 c)) s)) (head_scale mode d r) n_kv d (tok_codes mode n_kv d r) =
      map finish (tok_trip mode n_kv d r)" for r
    unfolding tok_trip_def map_token_row
    by (rule token_row_cong) (simp add: tok_codes_def tok_quot_def map_token_row token_row_nth fp8_trip_def)
  have "decode_plane (concat (map (tok_codes mode n_kv d) rows)) n n_kv d scale_of finish =
      Ok (concat (map (\<lambda>t. token_row (\<lambda>s c. finish (f32_mul (f32_of_f64 (decode_e4m3 c)) s)) (head_scale mode d (rows ! t)) n_kv d
        (map (tok_codes mode n_kv d) rows ! t)) [0..<length rows]))"
    using plane_loop [of "map (tok_codes mode n_kv d) rows" n_kv d scale_of "\<lambda>t. head_scale mode d (rows ! t)"
        "\<lambda>s c. finish (f32_mul (f32_of_f64 (decode_e4m3 c)) s)"] assms
    by (simp add: decode_plane_def tok_codes_def tok_quot_def)
  also have "map (\<lambda>t. token_row (\<lambda>s c. finish (f32_mul (f32_of_f64 (decode_e4m3 c)) s)) (head_scale mode d (rows ! t)) n_kv d
        (map (tok_codes mode n_kv d) rows ! t)) [0..<length rows] = map (\<lambda>r. map finish (tok_trip mode n_kv d r)) rows"
    by (rule nth_equalityI) (simp_all add: row)
  finally show ?thesis .
qed

lemma decode_kv_tokens:
  assumes "\<forall>p \<in> set H. kv_token_ok n_kv d_qk d_v p"
  shows "decode_kv (enc_of mode n_kv d_qk d_v clips H) read_scale =
    Ok (concat (map (tok_trip mode n_kv d_qk \<circ> fst) H), concat (map (map (\<lambda>x. f32_mul x read_scale) \<circ> tok_trip mode n_kv d_v \<circ> snd) H))"
proof -
  have k: "\<forall>r \<in> set (map fst H). length r = n_kv * d_qk" and v: "\<forall>r \<in> set (map snd H). length r = n_kv * d_v"
    using assms by (auto simp: kv_token_ok_def)
  define e where "e = enc_of mode n_kv d_qk d_v clips H"
  have sel: "enc_layout e = layout_of mode AN_NONE" "enc_n_tok e = length H" "enc_n_kv e = n_kv" "enc_d_qk e = d_qk" "enc_d_v e = d_v"
    "k_codes e = concat (map (tok_codes mode n_kv d_qk) (map fst H))" "v_codes e = concat (map (tok_codes mode n_kv d_v) (map snd H))"
    "k_scales e = concat (map (tok_scales mode n_kv d_qk) (map fst H))" "v_scales e = concat (map (tok_scales mode n_kv d_v) (map snd H))"
    by (simp_all add: e_def enc_of_def comp_def)
  have "decode_plane (k_codes e) (enc_n_tok e) (enc_n_kv e) (enc_d_qk e) (\<lambda>t h i.
          case enc_layout e of LUnit \<Rightarrow> Ok f32_one
          | LPerTokenHead \<Rightarrow> index_at (k_scales e) (k_scale_off t h (enc_n_kv e))
          | LBlock128Shared \<Rightarrow> index_at (shared_scales e) (shared_block128_off (h * (enc_d_qk e + enc_d_v e) + i))) (\<lambda>x. x) =
      Ok (concat (map (\<lambda>r. map (\<lambda>x. x) (tok_trip mode n_kv d_qk r)) (map fst H)))"
    unfolding sel
    by (rule decode_plane_tokens)
      (use tok_scales_nth [OF k] in \<open>auto simp: layout_of_def head_scale_def k_scale_off_def split: scale_mode.splits\<close>)
  moreover have "decode_plane (v_codes e) (enc_n_tok e) (enc_n_kv e) (enc_d_v e) (\<lambda>t h j.
          case enc_layout e of LUnit \<Rightarrow> Ok f32_one
          | LPerTokenHead \<Rightarrow> index_at (v_scales e) (v_scale_off t h (enc_n_kv e))
          | LBlock128Shared \<Rightarrow> index_at (shared_scales e) (shared_block128_off (h * (enc_d_qk e + enc_d_v e) + enc_d_qk e + j)))
        (\<lambda>x. f32_mul x read_scale) =
      Ok (concat (map (\<lambda>r. map (\<lambda>x. f32_mul x read_scale) (tok_trip mode n_kv d_v r)) (map snd H)))"
    unfolding sel
    by (rule decode_plane_tokens)
      (use tok_scales_nth [OF v] in \<open>auto simp: layout_of_def head_scale_def v_scale_off_def split: scale_mode.splits\<close>)
  ultimately show ?thesis by (simp add: decode_kv_def Let_def comp_def flip: e_def)
qed

end
