(* ===== verification/KvStore.thy ===== *)
theory KvStore
  imports KvCodec
begin

text \<open>
  The append-order row buffer of one attention layer (\<open>RowStore\<close>, \<open>crates/mimo26-attn/src/cache.rs\<close>),
  and the list of token rows it stands for: \<open>store_holds\<close>.
\<close>

subsection \<open>RowStore\<close>

datatype store_mode = SM_F32 | SM_Fp8Unit | SM_Fp8PerTokenHead

definition store_scale_mode :: "store_mode \<Rightarrow> scale_mode option" where
  "store_scale_mode m = (case m of SM_F32 \<Rightarrow> None | SM_Fp8Unit \<Rightarrow> Some ScaleUnit | SM_Fp8PerTokenHead \<Rightarrow> Some ScalePerTokenHead)"

record row_store =
  rs_mode :: store_mode
  rs_n_kv :: nat
  rs_d_qk :: nat
  rs_d_v :: nat
  rs_value_scale :: f32
  rs_f32_k :: "f32 list"
  rs_f32_v :: "f32 list"
  rs_enc :: "encoded_kv option"
  rs_n_rows :: nat

definition store_new :: "store_mode \<Rightarrow> nat \<Rightarrow> nat \<Rightarrow> nat \<Rightarrow> f32 \<Rightarrow> row_store" where
  "store_new mode n_kv d_qk d_v value_scale =
     \<lparr>rs_mode = mode, rs_n_kv = n_kv, rs_d_qk = d_qk, rs_d_v = d_v, rs_value_scale = value_scale,
      rs_f32_k = [], rs_f32_v = [], rs_enc = None, rs_n_rows = 0\<rparr>"

text \<open>The two layouts and head counts must agree, or the code panics.\<close>

definition merge_encoded :: "encoded_kv \<Rightarrow> encoded_kv \<Rightarrow> (encoded_kv, attn_error) outcome" where
  "merge_encoded dst src =
     (if enc_layout dst \<noteq> enc_layout src \<or> enc_n_kv dst \<noteq> enc_n_kv src then Panic
      else Ok (dst\<lparr>k_codes := k_codes dst @ k_codes src, v_codes := v_codes dst @ v_codes src,
                   k_scales := k_scales dst @ k_scales src, v_scales := v_scales dst @ v_scales src,
                   shared_scales := shared_scales dst @ shared_scales src,
                   clip_count := clip_count dst + clip_count src, enc_n_tok := enc_n_tok dst + enc_n_tok src\<rparr>))"

definition store_put :: "row_store \<Rightarrow> f32 list \<Rightarrow> f32 list \<Rightarrow> nat \<Rightarrow> attn_naive \<Rightarrow> (row_store, attn_error) outcome" where
  "store_put s k_raw v_stored n naive =
     (case store_scale_mode (rs_mode s) of
        None \<Rightarrow> Ok (s\<lparr>rs_f32_k := rs_f32_k s @ k_raw, rs_f32_v := rs_f32_v s @ v_stored\<rparr>)
      | Some mode \<Rightarrow>
          obind (encode_kv k_raw v_stored n (rs_n_kv s) (rs_d_qk s) (rs_d_v s) mode naive) (\<lambda>chunk.
          case rs_enc s of
            None \<Rightarrow> Ok (s\<lparr>rs_enc := Some chunk\<rparr>)
          | Some dst \<Rightarrow> obind (merge_encoded dst chunk) (\<lambda>e. Ok (s\<lparr>rs_enc := Some e\<rparr>))))"

definition store_append :: "row_store \<Rightarrow> f32 list \<Rightarrow> f32 list \<Rightarrow> nat \<Rightarrow> attn_naive \<Rightarrow> (row_store, attn_error) outcome" where
  "store_append s k_raw v_raw n naive =
     (if length k_raw \<noteq> n * rs_n_kv s * rs_d_qk s \<or> length v_raw \<noteq> n * rs_n_kv s * rs_d_v s
      then Err (AttnShape (length k_raw) (length v_raw) n (rs_n_kv s) (rs_d_qk s) (rs_d_v s))
      else if n = 0 then Ok s
      else let sc = (if an_has naive VSCALE_AFTER_STORE then f32_one else rs_value_scale s);
               v_stored = map (\<lambda>x. f32_mul x sc) v_raw in
        obind (store_put s k_raw v_stored n naive) (\<lambda>s. Ok (s\<lparr>rs_n_rows := rs_n_rows s + n\<rparr>)))"

definition store_rows :: "row_store \<Rightarrow> attn_naive \<Rightarrow> (f32 list \<times> f32 list, attn_error) outcome" where
  "store_rows s naive =
     (let read_scale = (if an_has naive VSCALE_ON_READ then rs_value_scale s else f32_one) in
      case rs_mode s of
        SM_F32 \<Rightarrow> Ok (rs_f32_k s, if read_scale = f32_one then rs_f32_v s else map (\<lambda>x. f32_mul x read_scale) (rs_f32_v s))
      | _ \<Rightarrow> (case rs_enc s of None \<Rightarrow> Panic | Some e \<Rightarrow> decode_kv e read_scale))"

definition store_rows_range :: "row_store \<Rightarrow> nat \<Rightarrow> nat \<Rightarrow> attn_naive \<Rightarrow> (f32 list \<times> f32 list, attn_error) outcome" where
  "store_rows_range s lo hi naive =
     (if \<not> (hi \<le> rs_n_rows s \<and> lo \<le> hi) then Panic
      else obind (store_rows s naive) (\<lambda>(k, v).
        let klen = rs_n_kv s * rs_d_qk s; vlen = rs_n_kv s * rs_d_v s in
        obind (subslice k (lo * klen) (hi * klen)) (\<lambda>k. obind (subslice v (lo * vlen) (hi * vlen)) (\<lambda>v. Ok (k, v)))))"

text \<open>\<open>xs.drain(..n)\<close>.\<close>

definition drain_front :: "nat \<Rightarrow> 'a list \<Rightarrow> ('a list, attn_error) outcome" where
  "drain_front n xs = (if n \<le> length xs then Ok (drop n xs) else Panic)"

definition store_drop_front :: "row_store \<Rightarrow> nat \<Rightarrow> (row_store, attn_error) outcome" where
  "store_drop_front s n =
     (if \<not> n \<le> rs_n_rows s then Panic
      else if n = 0 then Ok s
      else let klen = rs_n_kv s * rs_d_qk s; vlen = rs_n_kv s * rs_d_v s in
        obind (case rs_mode s of
            SM_F32 \<Rightarrow> obind (drain_front (n * klen) (rs_f32_k s)) (\<lambda>k. obind (drain_front (n * vlen) (rs_f32_v s)) (\<lambda>v.
              Ok (s\<lparr>rs_f32_k := k, rs_f32_v := v\<rparr>)))
          | _ \<Rightarrow> (case rs_enc s of None \<Rightarrow> Panic
              | Some e \<Rightarrow>
                  obind (drain_front (n * klen) (k_codes e)) (\<lambda>kc. obind (drain_front (n * vlen) (v_codes e)) (\<lambda>vc.
                  obind (case enc_layout e of
                      LPerTokenHead \<Rightarrow>
                        obind (drain_front (n * rs_n_kv s) (k_scales e)) (\<lambda>ks. obind (drain_front (n * rs_n_kv s) (v_scales e)) (\<lambda>vs.
                        Ok (e\<lparr>k_scales := ks, v_scales := vs\<rparr>)))
                    | LBlock128Shared \<Rightarrow>
                        obind (drain_front (n * shared_blocks_per_row (rs_n_kv s) (rs_d_qk s) (rs_d_v s)) (shared_scales e)) (\<lambda>sh.
                        Ok (e\<lparr>shared_scales := sh\<rparr>))
                    | LUnit \<Rightarrow> Ok e) (\<lambda>e.
                  Ok (s\<lparr>rs_enc := Some (e\<lparr>k_codes := kc, v_codes := vc, enc_n_tok := enc_n_tok e - n\<rparr>)\<rparr>))))))
          (\<lambda>s. Ok (s\<lparr>rs_n_rows := rs_n_rows s - n\<rparr>)))"

subsection \<open>The rows it holds\<close>

definition store_holds :: "row_store \<Rightarrow> (f32 list \<times> f32 list) list \<Rightarrow> bool" where
  "store_holds s H \<longleftrightarrow> rs_n_rows s = length H \<and> (\<forall>p \<in> set H. kv_token_ok (rs_n_kv s) (rs_d_qk s) (rs_d_v s) p) \<and>
     (case store_scale_mode (rs_mode s) of
        None \<Rightarrow> rs_f32_k s = concat (map fst H) \<and> rs_f32_v s = concat (map snd H)
      | Some mode \<Rightarrow> (case rs_enc s of None \<Rightarrow> H = []
          | Some e \<Rightarrow> \<exists>clips. e = enc_of mode (rs_n_kv s) (rs_d_qk s) (rs_d_v s) clips H))"

text \<open>The dimensions and the scale never change.\<close>

definition store_shape :: "row_store \<Rightarrow> store_mode \<times> nat \<times> nat \<times> nat \<times> f32" where
  "store_shape s = (rs_mode s, rs_n_kv s, rs_d_qk s, rs_d_v s, rs_value_scale s)"

text \<open>A token's rows in cached form: \<open>V\<close> scaled before it is stored, both through the codec.\<close>

definition scaled_token :: "row_store \<Rightarrow> f32 list \<times> f32 list \<Rightarrow> f32 list \<times> f32 list" where
  "scaled_token s p = (fst p, map (\<lambda>x. f32_mul x (rs_value_scale s)) (snd p))"

definition read_k :: "row_store \<Rightarrow> f32 list \<times> f32 list \<Rightarrow> f32 list" where
  "read_k s p = (case store_scale_mode (rs_mode s) of None \<Rightarrow> fst p | Some m \<Rightarrow> tok_trip m (rs_n_kv s) (rs_d_qk s) (fst p))"

definition read_v :: "row_store \<Rightarrow> f32 list \<times> f32 list \<Rightarrow> f32 list" where
  "read_v s p = (case store_scale_mode (rs_mode s) of None \<Rightarrow> snd p
     | Some m \<Rightarrow> map (\<lambda>x. f32_mul x f32_one) (tok_trip m (rs_n_kv s) (rs_d_v s) (snd p)))"

lemma shape_eqs:
  "store_shape s = store_shape t \<Longrightarrow>
     rs_mode s = rs_mode t \<and> rs_n_kv s = rs_n_kv t \<and> rs_d_qk s = rs_d_qk t \<and> rs_d_v s = rs_d_v t \<and> rs_value_scale s = rs_value_scale t \<and>
     scaled_token s = scaled_token t \<and> read_k s = read_k t \<and> read_v s = read_v t"
  by (auto simp: store_shape_def fun_eq_iff scaled_token_def read_k_def read_v_def split: option.split)

lemma store_new_holds: "store_holds (store_new mode n_kv d_qk d_v vs) []"
  by (simp add: store_holds_def store_new_def split: option.splits)

lemma scaled_token_ok: "kv_token_ok n_kv d_qk d_v p \<Longrightarrow> kv_token_ok n_kv d_qk d_v (scaled_token s p)"
  by (simp add: kv_token_ok_def scaled_token_def)

lemma merge_enc_of:
  "merge_encoded (enc_of mode n_kv d_qk d_v c H) (enc_of mode n_kv d_qk d_v c' B) = Ok (enc_of mode n_kv d_qk d_v (c + c') (H @ B))"
  by (simp add: merge_encoded_def enc_of_def)

lemma length_token_rows:
  assumes "\<forall>p \<in> set B. kv_token_ok n_kv d_qk d_v p"
  shows "length (concat (map fst B)) = length B * n_kv * d_qk" "length (concat (map snd B)) = length B * n_kv * d_v"
  using length_concat_uniform [of B fst "n_kv * d_qk"] length_concat_uniform [of B snd "n_kv * d_v"] assms
  by (auto simp: kv_token_ok_def)

lemma store_append_holds:
  assumes H: "store_holds s H" and B: "\<forall>p \<in> set B. kv_token_ok (rs_n_kv s) (rs_d_qk s) (rs_d_v s) p"
  shows "\<exists>s'. store_append s (concat (map fst B)) (concat (map snd B)) (length B) AN_NONE = Ok s' \<and>
    store_holds s' (H @ map (scaled_token s) B) \<and> store_shape s' = store_shape s"
proof (cases "B = []")
  case True
  then show ?thesis using H by (simp add: store_append_def)
next
  case False
  note len = length_token_rows [OF B]
  have v: "map (\<lambda>x. f32_mul x (rs_value_scale s)) (concat (map snd B)) = concat (map snd (map (scaled_token s) B))"
    "concat (map fst B) = concat (map fst (map (scaled_token s) B))"
    by (simp_all add: map_concat scaled_token_def comp_def)
  have ok: "\<forall>p \<in> set (map (scaled_token s) B). kv_token_ok (rs_n_kv s) (rs_d_qk s) (rs_d_v s) p"
    using B by (auto intro: scaled_token_ok)
  show ?thesis
  proof (cases "store_scale_mode (rs_mode s)")
    case None
    with H False ok len v show ?thesis
      by (simp add: store_append_def store_put_def store_holds_def store_shape_def ball_Un)
  next
    case (Some mode)
    have enc: "encode_kv (concat (map fst B)) (map (\<lambda>x. f32_mul x (rs_value_scale s)) (concat (map snd B))) (length B)
        (rs_n_kv s) (rs_d_qk s) (rs_d_v s) mode AN_NONE =
        Ok (enc_of mode (rs_n_kv s) (rs_d_qk s) (rs_d_v s)
          (tokens_clips mode (rs_n_kv s) (rs_d_qk s) (rs_d_v s) (map (scaled_token s) B)) (map (scaled_token s) B))"
      unfolding v using encode_kv_tokens [OF _ ok, of "length B" mode] False by simp
    have app: "store_append s (concat (map fst B)) (concat (map snd B)) (length B) AN_NONE =
        obind (store_put s (concat (map fst B)) (map (\<lambda>x. f32_mul x (rs_value_scale s)) (concat (map snd B))) (length B) AN_NONE)
          (\<lambda>s. Ok (s\<lparr>rs_n_rows := rs_n_rows s + length B\<rparr>))"
      using False len by (simp add: store_append_def)
    show ?thesis
    proof (cases "rs_enc s")
      case None
      then show ?thesis using H Some ok unfolding app store_put_def
        by (auto simp: enc store_holds_def store_shape_def)
    next
      case (Some e)
      with H \<open>store_scale_mode (rs_mode s) = Some mode\<close> obtain c where
        e: "e = enc_of mode (rs_n_kv s) (rs_d_qk s) (rs_d_v s) c H" by (auto simp: store_holds_def)
      show ?thesis using H Some \<open>store_scale_mode (rs_mode s) = Some mode\<close> ok unfolding app store_put_def
        by (auto simp: enc e merge_enc_of store_holds_def store_shape_def)
    qed
  qed
qed

lemma store_rows_holds:
  assumes "store_holds s H" "H \<noteq> []"
  shows "store_rows s AN_NONE = Ok (concat (map (read_k s) H), concat (map (read_v s) H))"
proof (cases "store_scale_mode (rs_mode s)")
  case None
  then show ?thesis using assms by (auto simp: store_holds_def store_rows_def read_k_def [abs_def] read_v_def [abs_def] store_scale_mode_def split: store_mode.splits)
next
  case (Some mode)
  with assms obtain e c where e: "rs_enc s = Some e" "e = enc_of mode (rs_n_kv s) (rs_d_qk s) (rs_d_v s) c H"
    by (auto simp: store_holds_def split: option.splits)
  have "rs_mode s \<noteq> SM_F32" using Some by (auto simp: store_scale_mode_def)
  then have "store_rows s AN_NONE = decode_kv e f32_one" using e(1) by (simp add: store_rows_def split: store_mode.splits)
  also have "\<dots> = Ok (concat (map (read_k s) H), concat (map (read_v s) H))"
    unfolding e(2) using decode_kv_tokens [of H] assms(1) Some
    by (simp add: store_holds_def read_k_def [abs_def] read_v_def [abs_def] comp_def)
  finally show ?thesis .
qed

lemma concat_map_empty [simp]: "concat (map (\<lambda>x. []) xs) = []"
  by (induction xs) simp_all

lemma rows_split:
  assumes "\<forall>p \<in> set H. length (f p) = w" "n \<le> length H"
  shows "drop (n * w) (concat (map f H)) = concat (map f (drop n H))" "take (n * w) (concat (map f H)) = concat (map f (take n H))"
proof -
  have "concat (map f H) = concat (map f (take n H)) @ concat (map f (drop n H))"
    by (metis append_take_drop_id concat_append map_append)
  moreover have "length (concat (map f (take n H))) = n * w"
    using assms length_concat_uniform [of "take n H" f w] by (auto dest: in_set_takeD)
  ultimately show "drop (n * w) (concat (map f H)) = concat (map f (drop n H))"
    "take (n * w) (concat (map f H)) = concat (map f (take n H))" by simp_all
qed

lemma drain_rows:
  assumes "\<forall>p \<in> set H. length (f p) = w" "n \<le> length H"
  shows "drain_front (n * w) (concat (map f H)) = Ok (concat (map f (drop n H)))"
  using rows_split [OF assms] assms length_concat_uniform [of H f w] by (simp add: drain_front_def)

lemma subslice_rows:
  assumes "\<forall>p \<in> set H. length (f p) = w" "lo \<le> hi" "hi \<le> length H"
  shows "subslice (concat (map f H)) (lo * w) (hi * w) = (Ok (concat (map f (take (hi - lo) (drop lo H)))) :: (_, attn_error) outcome)"
proof -
  have "hi * w \<le> length (concat (map f H))" using assms length_concat_uniform [of H f w] by simp
  moreover have "take (hi * w - lo * w) (drop (lo * w) (concat (map f H))) = concat (map f (take (hi - lo) (drop lo H)))"
  proof -
    have "hi * w - lo * w = (hi - lo) * w" by (simp add: diff_mult_distrib)
    moreover have "\<forall>p \<in> set (drop lo H). length (f p) = w" using assms(1) by (auto dest: in_set_dropD)
    ultimately show ?thesis using rows_split(1) [OF assms(1), of lo] rows_split(2) [of "drop lo H" f w "hi - lo"] assms by simp
  qed
  ultimately show ?thesis using assms by (simp add: subslice_def)
qed

lemma store_drop_holds:
  assumes H: "store_holds s H" and n: "n \<le> length H"
  shows "\<exists>s'. store_drop_front s n = Ok s' \<and> store_holds s' (drop n H) \<and> store_shape s' = store_shape s"
proof (cases "n = 0")
  case True
  then show ?thesis using H by (simp add: store_drop_front_def)
next
  case False
  note h = H [unfolded store_holds_def]
  have dropped: "\<forall>p \<in> set (drop n H). kv_token_ok (rs_n_kv s) (rs_d_qk s) (rs_d_v s) p" using h by (auto dest: in_set_dropD)
  have len: "\<forall>p \<in> set H. length (fst p) = rs_n_kv s * rs_d_qk s" "\<forall>p \<in> set H. length (snd p) = rs_n_kv s * rs_d_v s"
    using h by (auto simp: kv_token_ok_def)
  show ?thesis
  proof (cases "store_scale_mode (rs_mode s)")
    case None
    then show ?thesis using h n dropped False drain_rows [OF len(1) n] drain_rows [OF len(2) n]
      by (auto simp: store_drop_front_def store_holds_def store_shape_def store_scale_mode_def split: store_mode.splits)
  next
    case (Some mode)
    have "H \<noteq> []" using False n by auto
    with h Some obtain e c where e: "rs_enc s = Some e" "e = enc_of mode (rs_n_kv s) (rs_d_qk s) (rs_d_v s) c H"
      by (auto split: option.splits)
    have codes: "drain_front (n * (rs_n_kv s * rs_d_qk s)) (k_codes e) = Ok (k_codes (enc_of mode (rs_n_kv s) (rs_d_qk s) (rs_d_v s) c (drop n H)))"
      "drain_front (n * (rs_n_kv s * rs_d_v s)) (v_codes e) = Ok (v_codes (enc_of mode (rs_n_kv s) (rs_d_qk s) (rs_d_v s) c (drop n H)))"
      using drain_rows [of H "tok_codes mode (rs_n_kv s) (rs_d_qk s) \<circ> fst"] drain_rows [of H "tok_codes mode (rs_n_kv s) (rs_d_v s) \<circ> snd"] n
      by (simp_all add: e(2) enc_of_def tok_codes_def tok_quot_def)
    have sm: "rs_mode s = SM_Fp8Unit \<or> rs_mode s = SM_Fp8PerTokenHead"
      using Some by (cases "rs_mode s") (auto simp: store_scale_mode_def)
    let ?e = "enc_of mode (rs_n_kv s) (rs_d_qk s) (rs_d_v s) c (drop n H)"
    have "store_drop_front s n = Ok (s\<lparr>rs_enc := Some ?e, rs_n_rows := length H - n\<rparr>)"
    proof (cases mode)
      case ScaleUnit
      then have l: "enc_layout e = LUnit" by (simp add: e(2) enc_of_def layout_of_def)
      have "e\<lparr>k_codes := k_codes ?e, v_codes := v_codes ?e, enc_n_tok := enc_n_tok e - n\<rparr> = ?e"
        by (simp add: e(2) enc_of_def tok_scales_def ScaleUnit comp_def)
      with sm show ?thesis using h n False
        by (auto simp: store_drop_front_def codes e(1) l)
    next
      case ScalePerTokenHead
      have scales: "drain_front (n * rs_n_kv s) (k_scales e) = Ok (k_scales ?e)" "drain_front (n * rs_n_kv s) (v_scales e) = Ok (v_scales ?e)"
        using drain_rows [of H "tok_scales mode (rs_n_kv s) (rs_d_qk s) \<circ> fst"] drain_rows [of H "tok_scales mode (rs_n_kv s) (rs_d_v s) \<circ> snd"] n
        by (simp_all add: e(2) enc_of_def tok_scales_def ScalePerTokenHead)
      have l: "enc_layout e = LPerTokenHead" by (simp add: e(2) enc_of_def layout_of_def ScalePerTokenHead)
      have "e\<lparr>k_scales := k_scales ?e, v_scales := v_scales ?e, k_codes := k_codes ?e, v_codes := v_codes ?e, enc_n_tok := enc_n_tok e - n\<rparr> = ?e"
        by (simp add: e(2) enc_of_def)
      with sm show ?thesis using h n False
        by (auto simp: store_drop_front_def codes scales e(1) l)
    qed
    then show ?thesis using Some n dropped by (auto simp: store_holds_def store_shape_def)
  qed
qed

lemma store_range_holds:
  assumes H: "store_holds s H" and r: "lo \<le> hi" "hi \<le> length H" "H \<noteq> []"
  shows "store_rows_range s lo hi AN_NONE =
    Ok (concat (map (read_k s) (take (hi - lo) (drop lo H))), concat (map (read_v s) (take (hi - lo) (drop lo H))))"
proof -
  have len: "\<forall>p \<in> set H. length (read_k s p) = rs_n_kv s * rs_d_qk s" "\<forall>p \<in> set H. length (read_v s p) = rs_n_kv s * rs_d_v s"
    using H by (auto simp: store_holds_def read_k_def read_v_def kv_token_ok_def tok_trip_def split: option.splits)
  show ?thesis
    using store_rows_holds [OF H r(3)] subslice_rows [OF len(1) r(1,2)] subslice_rows [OF len(2) r(1,2)] r H
    by (simp add: store_rows_range_def store_holds_def Let_def)
qed

end
