(* ===== verification/SwaRing.thy ===== *)
theory SwaRing
  imports KvStore
begin

text \<open>
  The ring of a sliding-window layer (\<open>SwaRing\<close>, \<open>crates/mimo26-attn/src/cache.rs\<close>): rows with absolute
  positions, and the eviction after each batch. Positions are \<open>i64\<close> values far from the ends of the
  range (at most \<open>MAX_POSITION\<close>), carried as integers.
\<close>

subsection \<open>SwaRing\<close>

record swa_ring =
  ring_store :: row_store
  ring_pos :: "int list"
  ring_window :: nat

definition ring_new :: "store_mode \<Rightarrow> nat \<Rightarrow> nat \<Rightarrow> nat \<Rightarrow> nat \<Rightarrow> f32 \<Rightarrow> swa_ring" where
  "ring_new mode n_kv d_qk d_v window value_scale =
     \<lparr>ring_store = store_new mode n_kv d_qk d_v value_scale, ring_pos = [], ring_window = window\<rparr>"

function lower_bound_loop :: "int list \<Rightarrow> int \<Rightarrow> nat \<Rightarrow> nat \<Rightarrow> nat" where
  "lower_bound_loop v x lo hi =
     (if lo < hi then
        let mid = (lo + hi) div 2 in
        if v ! mid < x then lower_bound_loop v x (mid + 1) hi else lower_bound_loop v x lo mid
      else lo)"
  by auto
termination by (relation "measure (\<lambda>(v, x, lo, hi). hi - lo)") auto

declare lower_bound_loop.simps [simp del]

definition lower_bound_i64 :: "int list \<Rightarrow> int \<Rightarrow> nat" where
  "lower_bound_i64 v x = lower_bound_loop v x 0 (length v)"

definition evict_count :: "swa_ring \<Rightarrow> nat \<Rightarrow> attn_naive \<Rightarrow> nat" where
  "evict_count r batch_rows naive =
     (let n = length (ring_pos r) in
      if an_has naive EVICT_KEEP_LAST then n - ring_window r
      else let batch_min = (case drop (n - batch_rows) (ring_pos r) of [] \<Rightarrow> 0 | p # ps \<Rightarrow> foldl min p ps);
               keep_from = batch_min - int (ring_window r) + 1;
               drop_keep = lower_bound_i64 (ring_pos r) keep_from;
               drop_trim = n - (ring_window r + batch_rows)
           in min n (max drop_keep drop_trim))"

definition ring_append :: "swa_ring \<Rightarrow> f32 list \<Rightarrow> f32 list \<Rightarrow> int list \<Rightarrow> attn_naive \<Rightarrow> (swa_ring, attn_error) outcome" where
  "ring_append r k_raw v_raw positions naive =
     (let n = length positions in
      if n = 0 then Ok r
      else if ring_pos r \<noteq> [] \<and> positions ! 0 < last (ring_pos r)
      then Err (KvLayout (PositionsDecrease (positions ! 0) (last (ring_pos r))))
      else obind (store_append (ring_store r) k_raw v_raw n naive) (\<lambda>st.
        let r = r\<lparr>ring_store := st, ring_pos := ring_pos r @ positions\<rparr>;
            d = evict_count r n naive in
        if d > 0 then obind (store_drop_front (ring_store r) d) (\<lambda>st. obind (drain_front d (ring_pos r)) (\<lambda>pos.
          Ok (r\<lparr>ring_store := st, ring_pos := pos\<rparr>)))
        else Ok r))"

definition ring_get :: "swa_ring \<Rightarrow> attn_naive \<Rightarrow> (f32 list \<times> f32 list \<times> int list, attn_error) outcome" where
  "ring_get r naive = obind (store_rows (ring_store r) naive) (\<lambda>(k, v). Ok (k, v, ring_pos r))"

subsection \<open>The search\<close>

lemma sorted_split:
  fixes f :: "'a \<Rightarrow> int"
  assumes "\<forall>i < k. f (L ! i) < x" "\<forall>i < length L. k \<le> i \<longrightarrow> x \<le> f (L ! i)" "k \<le> length L"
  shows "filter (\<lambda>p. x \<le> f p) L = drop k L"
proof -
  have "\<not> x \<le> f p" if "p \<in> set (take k L)" for p using assms(1,3) that by (auto simp: in_set_conv_nth)
  then have "filter (\<lambda>p. x \<le> f p) (take k L) = []" by (simp add: filter_empty_conv)
  moreover have "x \<le> f p" if "p \<in> set (drop k L)" for p using assms(2,3) that by (auto simp: in_set_conv_nth)
  then have "filter (\<lambda>p. x \<le> f p) (drop k L) = drop k L" by (simp add: filter_id_conv)
  ultimately show ?thesis by (metis append_Nil append_take_drop_id filter_append)
qed

lemma lower_bound_loop_spec:
  assumes "sorted v" "lo \<le> hi" "hi \<le> length v" "\<forall>i < lo. v ! i < x" "\<forall>i < length v. hi \<le> i \<longrightarrow> x \<le> v ! i"
  shows "\<exists>k \<le> length v. lower_bound_loop v x lo hi = k \<and> (\<forall>i < k. v ! i < x) \<and> (\<forall>i < length v. k \<le> i \<longrightarrow> x \<le> v ! i)"
  using assms
proof (induction v x lo hi rule: lower_bound_loop.induct)
  case (1 v x lo hi)
  show ?case
  proof (cases "lo < hi")
    case True
    define mid where "mid = (lo + hi) div 2"
    have mid: "lo \<le> mid" "mid < hi" using True by (simp_all add: mid_def)
    show ?thesis
    proof (cases "v ! mid < x")
      case True
      then have "\<forall>i < mid + 1. v ! i < x" using 1(3,5) mid by (auto simp: less_Suc_eq_le dest: sorted_nth_mono [of v _ mid])
      then have "\<exists>k \<le> length v. lower_bound_loop v x (mid + 1) hi = k \<and> (\<forall>i < k. v ! i < x) \<and> (\<forall>i < length v. k \<le> i \<longrightarrow> x \<le> v ! i)"
        using 1(1) [OF \<open>lo < hi\<close> mid_def True 1(3) _ 1(5) _ 1(7)] mid by simp
      then show ?thesis using True \<open>lo < hi\<close> by (subst lower_bound_loop.simps) (simp add: Let_def mid_def)
    next
      case False
      then have "\<forall>i < length v. mid \<le> i \<longrightarrow> x \<le> v ! i" using 1(3,5) mid by (auto dest: sorted_nth_mono [of v mid])
      then have "\<exists>k \<le> length v. lower_bound_loop v x lo mid = k \<and> (\<forall>i < k. v ! i < x) \<and> (\<forall>i < length v. k \<le> i \<longrightarrow> x \<le> v ! i)"
        using 1(2) [OF \<open>lo < hi\<close> mid_def False 1(3) mid(1) _ 1(6)] mid 1(5) by simp
      then show ?thesis using False \<open>lo < hi\<close> by (subst lower_bound_loop.simps) (simp add: Let_def mid_def)
    qed
  next
    case False
    then show ?thesis using 1(4-7) by (subst lower_bound_loop.simps) auto
  qed
qed

lemma lower_bound_spec:
  assumes "sorted (map fst L)"
  shows "lower_bound_i64 (map fst L) x \<le> length L \<and> drop (lower_bound_i64 (map fst L) x) L = filter (\<lambda>p. x \<le> fst p) L"
proof -
  obtain k where k: "k \<le> length L" "lower_bound_loop (map fst L) x 0 (length L) = k" "\<forall>i < k. map fst L ! i < x"
    "\<forall>i < length L. k \<le> i \<longrightarrow> x \<le> map fst L ! i"
    using lower_bound_loop_spec [of "map fst L" 0 "length L" x] assms by auto
  then show ?thesis using sorted_split [of k fst L x] by (simp add: lower_bound_i64_def)
qed

subsection \<open>One batch\<close>

type_synonym kv_row = "int \<times> f32 list \<times> f32 list"

abbreviation keep_after :: "int \<Rightarrow> kv_row list \<Rightarrow> kv_row list" where
  "keep_after p \<equiv> filter (\<lambda>row. p < fst row)"

definition ring_holds :: "swa_ring \<Rightarrow> kv_row list \<Rightarrow> bool" where
  "ring_holds r L \<longleftrightarrow> store_holds (ring_store r) (map snd L) \<and> ring_pos r = map fst L"

lemma foldl_min_sorted: "sorted_wrt (<) (p # ps) \<Longrightarrow> foldl min p ps = (p :: int)"
  by (induction ps arbitrary: p) (auto simp: min_absorb1)

lemma kept_bound:
  fixes L B :: "kv_row list"
  assumes s: "sorted_wrt (<) (map fst (L @ B))" and B: "B \<noteq> []"
  shows "length (keep_after (fst (hd B) - int w) (L @ B)) \<le> w + length B"
    "0 < w \<Longrightarrow> length (keep_after (fst (hd B) - int w) (L @ B)) < w + length B"
proof -
  define b where "b = fst (hd B)"
  have lt: "fst p < b" if "p \<in> set L" for p using s B that by (auto simp: b_def sorted_wrt_append)
  have "distinct (map fst L)" using s by (simp add: sorted_wrt_append strict_sorted_iff)
  then have d: "distinct (map fst (keep_after (b - int w) L))" by (rule distinct_map_filter)
  have "set (map fst (keep_after (b - int w) L)) \<subseteq> {b - int w + 1..<b}" using lt by auto
  then have "card (set (map fst (keep_after (b - int w) L))) \<le> card {b - int w + 1..<b}" by (rule card_mono [rotated]) simp
  then have l: "length (keep_after (b - int w) L) \<le> w - 1" using distinct_card [OF d] by simp
  have "length (keep_after (b - int w) B) \<le> length B" by simp
  with l show "length (keep_after (fst (hd B) - int w) (L @ B)) \<le> w + length B"
    "0 < w \<Longrightarrow> length (keep_after (fst (hd B) - int w) (L @ B)) < w + length B"
    unfolding b_def [symmetric] filter_append length_append by linarith+
qed

lemma evict_exact:
  fixes L B :: "kv_row list"
  assumes pos: "ring_pos r = map fst (L @ B)" and s: "sorted_wrt (<) (map fst (L @ B))" and B: "B \<noteq> []"
  shows "evict_count r (length B) AN_NONE \<le> length (L @ B) \<and>
    drop (evict_count r (length B) AN_NONE) (L @ B) = keep_after (fst (hd B) - int (ring_window r)) (L @ B)"
proof -
  define w where "w = ring_window r"
  define v where "v = map fst (L @ B)"
  define x where "x = fst (hd B) - int w + 1"
  obtain p ps where B': "map fst B = p # ps" "p = fst (hd B)" using B by (cases B) auto
  have len_B: "length B = Suc (length ps)" using B'(1) by (metis length_map length_Cons)
  have "sorted_wrt (<) (p # ps)" using s by (simp add: sorted_wrt_append flip: B'(1))
  then have min: "(case drop (length (ring_pos r) - length B) (ring_pos r) of [] \<Rightarrow> 0 | p # ps \<Rightarrow> foldl min p ps) = fst (hd B)"
    using foldl_min_sorted len_B by (simp add: pos B')
  have "sorted (map fst (L @ B))" using s by (simp only: strict_sorted_iff)
  from lower_bound_spec [OF this, of x] have lb: "lower_bound_i64 v x \<le> length (L @ B)"
    "drop (lower_bound_i64 v x) (L @ B) = filter (\<lambda>p. x \<le> fst p) (L @ B)" by (simp_all only: v_def)
  define k where "k = lower_bound_i64 v x"
  have "(x \<le> y) = (fst (hd B) - int w < y)" for y by (auto simp: x_def)
  then have drop: "drop k (L @ B) = keep_after (fst (hd B) - int w) (L @ B)" using lb(2) by (simp only: k_def)
  then have len: "length (L @ B) - k = length (keep_after (fst (hd B) - int w) (L @ B))" by (metis length_drop)
  have "length (L @ B) - (w + length B) \<le> k" using kept_bound(1) [OF s B, of w] len by simp
  then have "evict_count r (length B) AN_NONE = k"
  proof -
    have "lower_bound_i64 (ring_pos r) (fst (hd B) - int w + 1) = k" by (simp only: k_def v_def x_def pos)
    moreover have "length (ring_pos r) = length (L @ B)" by (simp only: pos length_map)
    moreover have "k \<le> length (L @ B)" using lb(1) by (simp only: k_def)
    ultimately show ?thesis using min \<open>length (L @ B) - (w + length B) \<le> k\<close>
      by (simp add: evict_count_def Let_def flip: w_def)
  qed
  with drop lb(1) show ?thesis by (simp only: k_def w_def)
qed


text \<open>A batch of raw rows at their positions.\<close>

definition feed_batch :: "swa_ring \<Rightarrow> kv_row list \<Rightarrow> (swa_ring, attn_error) outcome" where
  "feed_batch r B = ring_append r (concat (map (fst \<circ> snd) B)) (concat (map (snd \<circ> snd) B)) (map fst B) AN_NONE"

definition scaled_row :: "f32 \<Rightarrow> kv_row \<Rightarrow> kv_row" where
  "scaled_row vs row = (fst row, fst (snd row), map (\<lambda>x. f32_mul x vs) (snd (snd row)))"

lemma fst_scaled_row [simp]: "fst (scaled_row vs row) = fst row"
  by (simp add: scaled_row_def)

lemma map_fst_scaled [simp]: "map fst (map (scaled_row vs) B) = map fst B" "map (fst \<circ> scaled_row vs) B = map fst B"
  by (simp_all add: comp_def)

definition ring_shape :: "swa_ring \<Rightarrow> nat \<times> store_mode \<times> nat \<times> nat \<times> nat \<times> f32" where
  "ring_shape r = (ring_window r, store_shape (ring_store r))"

definition row_ok :: "nat \<Rightarrow> nat \<Rightarrow> nat \<Rightarrow> kv_row \<Rightarrow> bool" where
  "row_ok n_kv d_qk d_v row \<longleftrightarrow> kv_token_ok n_kv d_qk d_v (snd row)"

lemma feed_batch_holds:
  assumes r: "ring_holds r L" and shape: "ring_shape r = (w, mode, n_kv, d_qk, d_v, vs)"
    and s: "sorted_wrt (<) (map fst (L @ B))" and B: "B \<noteq> []" "\<forall>row \<in> set B. row_ok n_kv d_qk d_v row"
  shows "\<exists>r'. feed_batch r B = Ok r' \<and> ring_shape r' = ring_shape r \<and>
    ring_holds r' (keep_after (fst (hd B) - int w) (L @ map (scaled_row vs) B))"
proof -
  define N where "N = L @ map (scaled_row vs) B"
  have sN: "sorted_wrt (<) (map fst N)" "map fst N = map fst (L @ B)" "length N = length (L @ B)"
    using s by (simp_all add: N_def)
  have st: "store_shape (ring_store r) = (mode, n_kv, d_qk, d_v, vs)" "ring_window r = w" using shape by (simp_all add: ring_shape_def)
  have tok: "\<forall>p \<in> set (map snd B). kv_token_ok (rs_n_kv (ring_store r)) (rs_d_qk (ring_store r)) (rs_d_v (ring_store r)) p"
    using B(2) st(1) by (auto simp: row_ok_def store_shape_def)
  have "map (scaled_token (ring_store r)) (map snd B) = map snd (map (scaled_row vs) B)"
    using st(1) by (simp add: scaled_token_def scaled_row_def store_shape_def)
  then have N_eq: "map snd L @ map (scaled_token (ring_store r)) (map snd B) = map snd N" by (simp only: N_def map_append)
  have "store_holds (ring_store r) (map snd L)" using r by (simp add: ring_holds_def)
  from store_append_holds [OF this tok, unfolded N_eq] obtain st' where st': "store_append (ring_store r) (concat (map (fst \<circ> snd) B)) (concat (map (snd \<circ> snd) B)) (length B) AN_NONE = Ok st'"
    "store_holds st' (map snd N)" "store_shape st' = store_shape (ring_store r)"
    by (auto simp: comp_def)
  define r1 where "r1 = r\<lparr>ring_store := st', ring_pos := ring_pos r @ map fst B\<rparr>"
  define d where "d = evict_count r1 (length B) AN_NONE"
  have pos1: "ring_pos r1 = map fst (L @ map (scaled_row vs) B)" using r by (simp add: r1_def ring_holds_def)
  have hd: "fst (hd (map (scaled_row vs) B)) = fst (hd B)" using B(1) by (simp add: hd_map)
  have "evict_count r1 (length (map (scaled_row vs) B)) AN_NONE \<le> length N \<and>
      drop (evict_count r1 (length (map (scaled_row vs) B)) AN_NONE) N = keep_after (fst (hd B) - int (ring_window r1)) N"
    unfolding N_def hd [symmetric] by (rule evict_exact [OF pos1]) (use s B(1) in simp_all)
  then have ev: "d \<le> length N" "drop d N = keep_after (fst (hd B) - int w) N"
    using st(2) by (simp_all add: d_def r1_def)
  have order: "\<not> (ring_pos r \<noteq> [] \<and> map fst B ! 0 < last (ring_pos r))"
  proof
    assume a: "ring_pos r \<noteq> [] \<and> map fst B ! 0 < last (ring_pos r)"
    then have "last (ring_pos r) \<in> set (ring_pos r)" by simp
    then have "last (ring_pos r) \<in> set (map fst L)" using r by (simp only: ring_holds_def)
    moreover have "map fst B ! 0 \<in> set (map fst B)" using B(1) by (intro nth_mem) simp
    ultimately have "last (ring_pos r) < map fst B ! 0" using s unfolding map_append sorted_wrt_append by blast
    with a show False by simp
  qed
  obtain st'' where st'': "store_drop_front st' d = Ok st''" "store_holds st'' (map snd (drop d N))" "store_shape st'' = store_shape st'"
    using store_drop_holds [OF st'(2), of d] ev(1) by (auto simp: drop_map)
  have "feed_batch r B = Ok (if 0 < d then r1\<lparr>ring_store := st'', ring_pos := drop d (ring_pos r1)\<rparr> else r1)"
    using B(1) order st'(1) st''(1) ev(1) sN(3) pos1
    by (simp add: feed_batch_def ring_append_def Let_def drain_front_def flip: r1_def d_def) (simp add: r1_def)
  moreover have "ring_holds (if 0 < d then r1\<lparr>ring_store := st'', ring_pos := drop d (ring_pos r1)\<rparr> else r1) (drop d N)"
    using st''(2) st'(2) pos1 by (auto simp: ring_holds_def N_def drop_map) (simp_all add: r1_def)
  moreover have "ring_shape (if 0 < d then r1\<lparr>ring_store := st'', ring_pos := drop d (ring_pos r1)\<rparr> else r1) = ring_shape r"
    using st'(3) st''(3) by (simp add: ring_shape_def r1_def)
  ultimately show ?thesis using ev(2) by (auto simp: N_def)
qed


lemma mem_nonempty: "x \<in> set xs \<Longrightarrow> xs \<noteq> []"
  by auto

lemma append_nonempty: "ys \<noteq> [] \<Longrightarrow> xs @ ys \<noteq> []"
  by simp

subsection \<open>Sequences of batches\<close>

definition feed_all :: "swa_ring \<Rightarrow> kv_row list list \<Rightarrow> (swa_ring, attn_error) outcome" where
  "feed_all r Bs = fold_results feed_batch r Bs"

lemma feed_all_holds:
  assumes "ring_shape r0 = (w, mode, n_kv, d_qk, d_v, vs)" "ring_holds r0 []"
    "sorted_wrt (<) (map fst (concat Bs))" "\<forall>B \<in> set Bs. B \<noteq> [] \<and> (\<forall>row \<in> set B. row_ok n_kv d_qk d_v row)" "Bs \<noteq> []"
  shows "\<exists>r. feed_all r0 Bs = Ok r \<and> ring_shape r = ring_shape r0 \<and>
    ring_holds r (keep_after (fst (hd (last Bs)) - int w) (map (scaled_row vs) (concat Bs)))"
  using assms(3-5)
proof (induction Bs rule: rev_induct)
  case (snoc B Bs)
  obtain L r1 where r1: "feed_all r0 Bs = Ok r1" "ring_shape r1 = ring_shape r0" "ring_holds r1 L"
    and L: "\<exists>p. L = keep_after p (map (scaled_row vs) (concat Bs)) \<and> p \<le> fst (hd B) - int w \<or> Bs = [] \<and> L = []"
  proof (cases "Bs = []")
    case True
    then show ?thesis using assms(2) by (intro that [of r0 "[]"]) (simp_all add: feed_all_def)
  next
    case False
    have s: "sorted_wrt (<) (map fst (concat Bs))" using snoc.prems(1) by (simp add: sorted_wrt_append)
    with snoc False obtain r1 where "feed_all r0 Bs = Ok r1" "ring_shape r1 = ring_shape r0"
      "ring_holds r1 (keep_after (fst (hd (last Bs)) - int w) (map (scaled_row vs) (concat Bs)))" by auto
    moreover have "fst (hd (last Bs)) < fst (hd B)"
    proof -
      have "hd (last Bs) \<in> set (concat Bs)" "hd B \<in> set B" using snoc.prems(2) False by (auto intro!: bexI [of _ "last Bs"])
      then show ?thesis using snoc.prems(1) by (auto simp: sorted_wrt_append)
    qed
    ultimately show ?thesis by (intro that [of r1]) auto
  qed
  have "sorted_wrt (<) (map fst (L @ B))"
  proof -
    have eq: "map fst (keep_after p (map (scaled_row vs) (concat Bs)) @ B) = filter (\<lambda>y. p < y) (map fst (concat Bs)) @ map fst B" for p
      by (simp add: filter_map comp_def)
    have "sorted_wrt (<) (map fst (concat Bs) @ map fst B)" using snoc.prems(1) by simp
    then have "sorted_wrt (<) (filter (\<lambda>y. p < y) (map fst (concat Bs)) @ map fst B)" for p
      unfolding sorted_wrt_append by (auto simp del: set_map set_concat intro: sorted_wrt_filter)
    then have "sorted_wrt (<) (map fst (keep_after p (map (scaled_row vs) (concat Bs)) @ B))" for p
      by (simp only: eq)
    moreover have "sorted_wrt (<) (map fst B)" using snoc.prems(1) by (simp add: sorted_wrt_append)
    ultimately show ?thesis using L by auto
  qed
  then obtain r' where r': "feed_batch r1 B = Ok r'" "ring_shape r' = ring_shape r1"
    "ring_holds r' (keep_after (fst (hd B) - int w) (L @ map (scaled_row vs) B))"
    using feed_batch_holds [OF r1(3), of w mode n_kv d_qk d_v vs B] snoc.prems(2) r1(2) assms(1) by auto
  have "keep_after (fst (hd B) - int w) (L @ map (scaled_row vs) B) =
      keep_after (fst (hd (last (Bs @ [B]))) - int w) (map (scaled_row vs) (concat (Bs @ [B])))"
  proof -
    have "keep_after t (keep_after p N) = keep_after t N" if "p \<le> t" for p t and N :: "kv_row list"
      unfolding filter_filter by (rule filter_cong) (use that in auto)
    then show ?thesis using L by auto
  qed
  with r' r1 show ?case by (simp add: feed_all_def fold_results_append)
qed simp

text \<open>C10: after any sequence of batches at increasing positions the ring holds exactly the rows whose
  position is above the first position of the last batch minus the window, in order, with \<open>V\<close> scaled
  before it was stored: every row some query of the batch may still see, and fewer than
  \<open>window + T\<close> of them. No append fails.\<close>

theorem ring_keeps_visible_rows:
  assumes "0 < w" "sorted_wrt (<) (map fst (concat (Bs @ [B])))"
    "\<forall>X \<in> set (Bs @ [B]). X \<noteq> [] \<and> (\<forall>row \<in> set X. row_ok n_kv d_qk d_v row)"
  shows "\<exists>r. feed_all (ring_new mode n_kv d_qk d_v w vs) (Bs @ [B]) = Ok r \<and>
    (let kept = keep_after (fst (hd B) - int w) (map (scaled_row vs) (concat (Bs @ [B]))) in
     ring_get r AN_NONE = Ok (concat (map (read_k (ring_store r) \<circ> snd) kept), concat (map (read_v (ring_store r) \<circ> snd) kept), map fst kept) \<and>
     length kept < w + length B)"
proof -
  let ?r0 = "ring_new mode n_kv d_qk d_v w vs"
  define N where "N = map (scaled_row vs) (concat (Bs @ [B]))"
  define kept where "kept = keep_after (fst (hd B) - int w) N"
  have B: "B \<noteq> []" using assms(3) by simp
  have "ring_shape ?r0 = (w, mode, n_kv, d_qk, d_v, vs)" "ring_holds ?r0 []"
    using store_new_holds by (simp_all add: ring_new_def ring_shape_def store_shape_def store_new_def ring_holds_def)
  from feed_all_holds [OF this assms(2,3)] obtain r where
    r: "feed_all ?r0 (Bs @ [B]) = Ok r" "ring_holds r kept" by (auto simp: kept_def N_def)
  have N: "N = map (scaled_row vs) (concat Bs) @ map (scaled_row vs) B" "fst (hd (map (scaled_row vs) B)) = fst (hd B)"
    using B by (simp_all add: N_def hd_map)
  have "sorted_wrt (<) (map fst (map (scaled_row vs) (concat Bs) @ map (scaled_row vs) B))" using assms(2) by simp
  from kept_bound(2) [OF this _ assms(1)] B have "length kept < w + length B" by (simp add: kept_def N)
  moreover have "kept \<noteq> []"
  proof -
    have "hd (map (scaled_row vs) B) \<in> set (keep_after (fst (hd B) - int w) (map (scaled_row vs) B))"
    proof -
      have "hd (map (scaled_row vs) B) \<in> set (map (scaled_row vs) B)" using B by (intro hd_in_set) simp
      then show ?thesis using N(2) assms(1) by (simp only: set_filter mem_Collect_eq) simp
    qed
    then have "keep_after (fst (hd B) - int w) (map (scaled_row vs) B) \<noteq> []" by (rule mem_nonempty)
    then show ?thesis unfolding kept_def N(1) filter_append by (rule append_nonempty)
  qed
  then have "ring_get r AN_NONE = Ok (concat (map (read_k (ring_store r) \<circ> snd) kept), concat (map (read_v (ring_store r) \<circ> snd) kept), map fst kept)"
    using store_rows_holds [of "ring_store r" "map snd kept"] r(2) by (simp add: ring_get_def ring_holds_def comp_def)
  ultimately show ?thesis using r(1) by (auto simp: Let_def kept_def N_def)
qed

lemma ring_keeps_visible_rows_witness:
  "\<exists>r. feed_all (ring_new SM_Fp8Unit 1 1 1 2 VALUE_SCALE) [[(0, [1], [2])], [(1, [3], [4])], [(3, [5], [6]), (4, [7], [8])]] = Ok r \<and>
     (\<exists>k v. ring_get r AN_NONE = Ok (k, v, [3, 4]))"
proof -
  let ?Bs = "[[(0, [1], [2])], [(1, [3], [4])]] :: kv_row list list" and ?B = "[(3, [5], [6]), (4, [7], [8])] :: kv_row list"
  let ?kept = "keep_after (fst (hd ?B) - int 2) (map (scaled_row VALUE_SCALE) (concat (?Bs @ [?B])))"
  have "\<exists>r. feed_all (ring_new SM_Fp8Unit 1 1 1 2 VALUE_SCALE) (?Bs @ [?B]) = Ok r \<and>
    (let kept = ?kept in
     ring_get r AN_NONE = Ok (concat (map (read_k (ring_store r) \<circ> snd) kept), concat (map (read_v (ring_store r) \<circ> snd) kept), map fst kept) \<and>
     length kept < 2 + length ?B)"
    by (rule ring_keeps_visible_rows) (simp_all add: row_ok_def kv_token_ok_def)
  moreover have "map fst ?kept = [3, 4]" by simp
  ultimately obtain r where "feed_all (ring_new SM_Fp8Unit 1 1 1 2 VALUE_SCALE) (?Bs @ [?B]) = Ok r"
    "ring_get r AN_NONE = Ok (concat (map (read_k (ring_store r) \<circ> snd) ?kept), concat (map (read_v (ring_store r) \<circ> snd) ?kept), [3, 4])"
    unfolding Let_def by (elim exE conjE) (simp only:)
  then show ?thesis unfolding append.simps by blast
qed

subsection \<open>What the guard does not check\<close>

text \<open>Only the first position of a batch is compared with the ring: a batch that decreases is accepted, though
  positions "must be non-decreasing" and the check is meant to fail loudly.\<close>

lemma ring_accepts_decreasing_batch:
  "\<exists>r. ring_append (ring_new SM_F32 1 1 1 8 f32_one) [1, 2] [3, 4] [5, 3] AN_NONE = Ok r \<and> ring_pos r = [5, 3]"
proof -
  have "lower_bound_i64 [5, 3] (- 4) = 0" by code_simp
  then show ?thesis
    by (simp add: ring_append_def ring_new_def store_new_def store_append_def store_put_def store_scale_mode_def evict_count_def Let_def)
qed

text \<open>Positions may repeat by the documentation; then the trim to \<open>window + T\<close> rows evicts rows a query still sees:
  four rows at position 5, a window of 2 and a batch of one row drop one of them.\<close>

lemma ring_evicts_repeated_position:
  "ring_pos r = [5, 5, 5, 5] \<Longrightarrow> ring_window r = 2 \<Longrightarrow> evict_count r 1 AN_NONE = 1"
proof -
  assume r: "ring_pos r = [5, 5, 5, 5]" "ring_window r = 2"
  have "lower_bound_i64 [5, 5, 5, 5] 4 = 0" by code_simp
  with r show ?thesis by (simp add: evict_count_def Let_def)
qed

end
