(* ===== verification/GaPaged.thy ===== *)
theory GaPaged
  imports KvStore LoadMat
begin

text \<open>
  The paged KV of a global-attention layer (\<open>GaPaged\<close>, \<open>crates/mimo26-attn/src/cache.rs\<close>): pages of a
  fixed number of tokens reached through a page table. It refines the flat list of token rows.
\<close>

subsection \<open>GaPaged\<close>

record ga_paged =
  ga_template :: row_store
  ga_page_tokens :: nat
  ga_page_table :: "nat list"
  ga_slots :: "row_store list"
  ga_n_rows :: nat

definition ga_new :: "store_mode \<Rightarrow> nat \<Rightarrow> nat \<Rightarrow> nat \<Rightarrow> f32 \<Rightarrow> ga_paged" where
  "ga_new mode n_kv d_qk d_v value_scale =
     \<lparr>ga_template = store_new mode n_kv d_qk d_v value_scale, ga_page_tokens = PAGE_TOKENS, ga_page_table = [],
      ga_slots = [], ga_n_rows = 0\<rparr>"

definition with_page_tokens :: "ga_paged \<Rightarrow> nat \<Rightarrow> (ga_paged, attn_error) outcome" where
  "with_page_tokens g page_tokens = (if 1 \<le> page_tokens then Ok (g\<lparr>ga_page_tokens := page_tokens\<rparr>) else Panic)"

definition page_of :: "ga_paged \<Rightarrow> nat \<Rightarrow> (nat \<times> nat, attn_error) outcome" where
  "page_of g token = (if ga_page_tokens g = 0 then Panic else Ok (token div ga_page_tokens g, token mod ga_page_tokens g))"

definition slot_of :: "ga_paged \<Rightarrow> nat \<Rightarrow> (nat, attn_error) outcome" where
  "slot_of g logical_page = index_at (ga_page_table g) logical_page"

definition allocated_pages :: "ga_paged \<Rightarrow> nat" where
  "allocated_pages g = length (ga_slots g)"

definition ga_kv_dims :: "ga_paged \<Rightarrow> nat \<times> nat \<times> nat" where
  "ga_kv_dims g = (rs_n_kv (ga_template g), rs_d_qk (ga_template g), rs_d_v (ga_template g))"

definition pool_bytes :: "ga_paged \<Rightarrow> attn_naive \<Rightarrow> nat" where
  "pool_bytes g naive =
     (let (n_kv, d_qk, d_v) = ga_kv_dims g in
      case store_scale_mode (rs_mode (ga_template g)) of
        None \<Rightarrow> allocated_pages g * ga_page_tokens g * n_kv * (d_qk + d_v) * 4
      | Some m \<Rightarrow> allocated_pages g * ga_page_tokens g * kv_bytes_per_token (layout_of m naive) n_kv d_qk d_v)"

text \<open>One round of the append loop: a new page when the last one is full, then the rows that fit.\<close>

definition ga_step :: "ga_paged \<Rightarrow> f32 list \<Rightarrow> f32 list \<Rightarrow> nat \<Rightarrow> nat \<Rightarrow> attn_naive \<Rightarrow> (ga_paged \<times> nat, attn_error) outcome" where
  "ga_step g k_raw v_raw n done_rows naive =
     (let (n_kv, d_qk, d_v) = ga_kv_dims g; klen = n_kv * d_qk; vlen = n_kv * d_v in
      if ga_page_tokens g = 0 then Panic
      else let logical_page = ga_n_rows g div ga_page_tokens g;
               off = ga_n_rows g mod ga_page_tokens g;
               tk = min (ga_page_tokens g - off) (n - done_rows);
               g = (if logical_page = length (ga_page_table g)
                    then g\<lparr>ga_slots := ga_slots g @ [store_new (rs_mode (ga_template g)) n_kv d_qk d_v (rs_value_scale (ga_template g))],
                           ga_page_table := ga_page_table g @ [length (ga_slots g)]\<rparr>
                    else g) in
        obind (index_at (ga_page_table g) logical_page) (\<lambda>slot.
        obind (subslice k_raw (done_rows * klen) ((done_rows + tk) * klen)) (\<lambda>k.
        obind (subslice v_raw (done_rows * vlen) ((done_rows + tk) * vlen)) (\<lambda>v.
        obind (index_at (ga_slots g) slot) (\<lambda>st.
        obind (store_append st k v tk naive) (\<lambda>st.
        Ok (g\<lparr>ga_slots := (ga_slots g)[slot := st], ga_n_rows := ga_n_rows g + tk\<rparr>, done_rows + tk)))))))"

lemma ga_step_progress:
  "ga_step g k v n d naive = Ok (g', d') \<Longrightarrow> d < n \<Longrightarrow> d < d' \<and> d' \<le> n"
  by (auto simp: ga_step_def Let_def outcome_simps ga_kv_dims_def split: if_splits)

function ga_append_loop :: "ga_paged \<Rightarrow> f32 list \<Rightarrow> f32 list \<Rightarrow> nat \<Rightarrow> nat \<Rightarrow> attn_naive \<Rightarrow> (ga_paged, attn_error) outcome" where
  "ga_append_loop g k_raw v_raw n done_rows naive =
     (if done_rows < n then
        (case ga_step g k_raw v_raw n done_rows naive of
           Ok (g', d') \<Rightarrow> ga_append_loop g' k_raw v_raw n d' naive
         | Err e \<Rightarrow> Err e
         | Panic \<Rightarrow> Panic)
      else Ok g)"
  by auto
termination
  by (relation "measure (\<lambda>(g, k, v, n, d, naive). n - d)") (auto dest: ga_step_progress)

declare ga_append_loop.simps [simp del]

definition ga_append :: "ga_paged \<Rightarrow> f32 list \<Rightarrow> f32 list \<Rightarrow> nat \<Rightarrow> attn_naive \<Rightarrow> (ga_paged, attn_error) outcome" where
  "ga_append g k_raw v_raw n naive = ga_append_loop g k_raw v_raw n 0 naive"

definition ga_read_step :: "ga_paged \<Rightarrow> nat \<Rightarrow> nat \<Rightarrow> attn_naive \<Rightarrow> (f32 list \<times> f32 list \<times> nat, attn_error) outcome" where
  "ga_read_step g t hi naive =
     obind (page_of g t) (\<lambda>(page, off).
       let tk = min (ga_page_tokens g - off) (hi - t) in
       obind (slot_of g page) (\<lambda>slot. obind (index_at (ga_slots g) slot) (\<lambda>st.
       obind (store_rows_range st off (off + tk) naive) (\<lambda>(k, v). Ok (k, v, t + tk)))))"

lemma ga_read_progress: "ga_read_step g t hi naive = Ok (k, v, t') \<Longrightarrow> t < hi \<Longrightarrow> t < t' \<and> t' \<le> hi"
  by (auto simp: ga_read_step_def page_of_def Let_def outcome_simps split: if_splits)

function ga_read_loop :: "ga_paged \<Rightarrow> nat \<Rightarrow> nat \<Rightarrow> f32 list \<Rightarrow> f32 list \<Rightarrow> attn_naive \<Rightarrow> (f32 list \<times> f32 list, attn_error) outcome" where
  "ga_read_loop g t hi k v naive =
     (if t < hi then
        (case ga_read_step g t hi naive of
           Ok (pk, pv, t') \<Rightarrow> ga_read_loop g t' hi (k @ pk) (v @ pv) naive
         | Err e \<Rightarrow> Err e
         | Panic \<Rightarrow> Panic)
      else Ok (k, v))"
  by auto
termination
  by (relation "measure (\<lambda>(g, t, hi, k, v, naive). hi - t)") (auto dest: ga_read_progress)

declare ga_read_loop.simps [simp del]

definition ga_rows_range :: "ga_paged \<Rightarrow> nat \<Rightarrow> nat \<Rightarrow> attn_naive \<Rightarrow> (f32 list \<times> f32 list, attn_error) outcome" where
  "ga_rows_range g lo hi naive =
     (if \<not> (hi \<le> ga_n_rows g \<and> lo \<le> hi) then Panic else ga_read_loop g lo hi [] [] naive)"

definition ga_page_rows :: "ga_paged \<Rightarrow> nat \<Rightarrow> attn_naive \<Rightarrow> (f32 list \<times> f32 list, attn_error) outcome" where
  "ga_page_rows g logical_page naive =
     obind (slot_of g logical_page) (\<lambda>slot.
       let lo = logical_page * ga_page_tokens g; hi = min (lo + ga_page_tokens g) (ga_n_rows g) in
       if \<not> hi > lo then Panic
       else obind (index_at (ga_slots g) slot) (\<lambda>st. store_rows_range st 0 (hi - lo) naive))"

subsection \<open>Refinement of the flat list\<close>

type_synonym kv_token = "f32 list \<times> f32 list"

definition page :: "nat \<Rightarrow> kv_token list \<Rightarrow> nat \<Rightarrow> kv_token list" where
  "page P H i = take P (drop (i * P) H)"

definition ga_holds :: "ga_paged \<Rightarrow> kv_token list \<Rightarrow> bool" where
  "ga_holds g H \<longleftrightarrow> 0 < ga_page_tokens g \<and> ga_n_rows g = length H \<and>
     length (ga_slots g) = cdiv (length H) (ga_page_tokens g) \<and> ga_page_table g = [0..<length (ga_slots g)] \<and>
     (\<forall>i < length (ga_slots g). store_holds (ga_slots g ! i) (page (ga_page_tokens g) H i) \<and>
        store_shape (ga_slots g ! i) = store_shape (ga_template g))"

definition ga_same :: "ga_paged \<Rightarrow> ga_paged \<Rightarrow> bool" where
  "ga_same g g' \<longleftrightarrow> ga_page_tokens g' = ga_page_tokens g \<and> ga_template g' = ga_template g"

lemma page_append:
  assumes "0 < P"
  shows "length H div P < i \<or> i < length H div P \<Longrightarrow> length X \<le> P - length H mod P \<Longrightarrow> page P (H @ X) i = page P H i"
    "length X \<le> P - length H mod P \<Longrightarrow> page P (H @ X) (length H div P) = page P H (length H div P) @ X"
proof -
  define q r where "q = length H div P" and "r = length H mod P"
  have l: "length H = q * P + r" "r < P" using assms by (simp_all add: q_def r_def)
  show "page P (H @ X) i = page P H i" if i: "q < i \<or> i < q" "length X \<le> P - r"
    using i(1)
  proof
    assume "q < i"
    then have "Suc q * P \<le> i * P" by (intro mult_le_mono1) simp
    with l i(2) show ?thesis by (simp add: page_def)
  next
    assume "i < q"
    then have "Suc i * P \<le> q * P" by (intro mult_le_mono1) simp
    with l show ?thesis by (simp add: page_def)
  qed
  show "page P (H @ X) q = page P H q @ X" if "length X \<le> P - r"
    using l that by (simp add: page_def)
qed

lemma length_page: "0 < P \<Longrightarrow> length (page P H (length H div P)) = length H mod P"
  by (simp add: page_def minus_div_mult_eq_mod less_imp_le min_absorb2)


lemma cdiv_eqI: "0 < b \<Longrightarrow> q * b < a \<Longrightarrow> a \<le> Suc q * b \<Longrightarrow> cdiv a b = Suc q"
  using less_cdiv_iff [of b q a] less_cdiv_iff [of b "Suc q" a] by simp

text \<open>The page the next row goes to, allocated when the last page is full.\<close>

definition ga_grow :: "ga_paged \<Rightarrow> ga_paged" where
  "ga_grow g =
     (if ga_n_rows g div ga_page_tokens g = length (ga_page_table g)
      then g\<lparr>ga_slots := ga_slots g @ [store_new (rs_mode (ga_template g)) (rs_n_kv (ga_template g)) (rs_d_qk (ga_template g))
               (rs_d_v (ga_template g)) (rs_value_scale (ga_template g))],
             ga_page_table := ga_page_table g @ [length (ga_slots g)]\<rparr>
      else g)"

lemma ga_grow_holds:
  assumes "ga_holds g H"
  defines "q \<equiv> length H div ga_page_tokens g"
  shows "length (ga_slots (ga_grow g)) = Suc q \<and> ga_page_table (ga_grow g) = [0..<Suc q] \<and> ga_same g (ga_grow g) \<and> ga_n_rows (ga_grow g) = length H \<and>
    (\<forall>i \<le> q. store_holds (ga_slots (ga_grow g) ! i) (page (ga_page_tokens g) H i) \<and>
       store_shape (ga_slots (ga_grow g) ! i) = store_shape (ga_template g))"
proof -
  define P where "P = ga_page_tokens g"
  have P: "0 < P" using assms(1) by (simp add: ga_holds_def P_def)
  note h = assms(1) [unfolded ga_holds_def, folded P_def]
  show ?thesis
  proof (cases "length H mod P = 0")
    case True
    then have l: "length (ga_slots g) = q" using h by (simp add: cdiv_def q_def P_def)
    have "length H = q * P" using True by (simp add: q_def P_def) (metis add.right_neutral div_mult_mod_eq)
    then have "page P H q = []" by (simp add: page_def)
    then show ?thesis using l h store_new_holds
      by (auto simp: ga_grow_def ga_same_def nth_append less_Suc_eq_le store_shape_def store_new_def q_def simp flip: P_def)
  next
    case False
    then have "length (ga_slots g) = Suc q" using h by (simp add: cdiv_def q_def P_def)
    then show ?thesis using h by (auto simp: ga_grow_def ga_same_def q_def simp flip: P_def)
  qed
qed

lemma ga_step_holds:
  assumes g: "ga_holds g H" and B: "\<forall>p \<in> set B. kv_token_ok (rs_n_kv (ga_template g)) (rs_d_qk (ga_template g)) (rs_d_v (ga_template g)) p"
    and d: "d < length B"
  shows "\<exists>g' tk. ga_step g (concat (map fst B)) (concat (map snd B)) (length B) d AN_NONE = Ok (g', d + tk) \<and> 0 < tk \<and> d + tk \<le> length B \<and>
    ga_holds g' (H @ map (scaled_token (ga_template g)) (take tk (drop d B))) \<and> ga_same g g'"
proof -
  define P q r where "P = ga_page_tokens g" and "q = length H div P" and "r = length H mod P"
  define tk where "tk = min (P - r) (length B - d)"
  define X where "X = take tk (drop d B)"
  define g1 where "g1 = ga_grow g"
  have P: "0 < P" "ga_n_rows g = length H" using g by (simp_all add: ga_holds_def P_def)
  have tk: "0 < tk" "d + tk \<le> length B" "tk \<le> P - r" using d P(1) by (simp_all add: tk_def r_def)
  have X: "length X = tk" "\<forall>p \<in> set X. p \<in> set B" using tk(2) by (auto simp: X_def dest: in_set_takeD in_set_dropD)
  have g1: "length (ga_slots g1) = Suc q" "ga_page_table g1 = [0..<Suc q]" "ga_same g g1" "ga_n_rows g1 = length H"
    and slots: "\<And>i. i \<le> q \<Longrightarrow> store_holds (ga_slots g1 ! i) (page P H i) \<and> store_shape (ga_slots g1 ! i) = store_shape (ga_template g)"
    using ga_grow_holds [OF g] by (simp_all add: g1_def q_def P_def)
  have shape: "store_shape (ga_slots g1 ! q) = store_shape (ga_template g)" using slots by simp
  note sh = shape_eqs [OF shape]
  have "\<forall>p \<in> set X. kv_token_ok (rs_n_kv (ga_slots g1 ! q)) (rs_d_qk (ga_slots g1 ! q)) (rs_d_v (ga_slots g1 ! q)) p"
    using B X(2) sh by auto
  from store_append_holds [OF _ this, of "page P H q"] slots [of q] obtain st where
    st: "store_append (ga_slots g1 ! q) (concat (map fst X)) (concat (map snd X)) tk AN_NONE = Ok st"
    "store_holds st (page P H q @ map (scaled_token (ga_template g)) X)" "store_shape st = store_shape (ga_template g)"
    using sh X(1) by auto
  define g2 where "g2 = g1\<lparr>ga_slots := (ga_slots g1)[q := st], ga_n_rows := ga_n_rows g1 + tk\<rparr>"
  have sub: "subslice (concat (map fst B)) (d * (rs_n_kv (ga_template g) * rs_d_qk (ga_template g))) ((d + tk) * (rs_n_kv (ga_template g) * rs_d_qk (ga_template g))) =
      (Ok (concat (map fst X)) :: (_, attn_error) outcome)"
    "subslice (concat (map snd B)) (d * (rs_n_kv (ga_template g) * rs_d_v (ga_template g))) ((d + tk) * (rs_n_kv (ga_template g) * rs_d_v (ga_template g))) =
      (Ok (concat (map snd X)) :: (_, attn_error) outcome)"
    using subslice_rows [of B fst _ d "d + tk"] subslice_rows [of B snd _ d "d + tk"] B tk(2) by (auto simp: X_def kv_token_ok_def)
  have step: "ga_step g (concat (map fst B)) (concat (map snd B)) (length B) d AN_NONE = Ok (g2, d + tk)"
  proof -
    have "(if ga_n_rows g div ga_page_tokens g = length (ga_page_table g)
        then g\<lparr>ga_slots := ga_slots g @ [store_new (rs_mode (ga_template g)) (rs_n_kv (ga_template g)) (rs_d_qk (ga_template g)) (rs_d_v (ga_template g)) (rs_value_scale (ga_template g))],
               ga_page_table := ga_page_table g @ [length (ga_slots g)]\<rparr> else g) = g1" by (simp only: g1_def ga_grow_def)
    moreover have "index_at (ga_page_table g1) q = (Ok q :: (_, attn_error) outcome)" "index_at (ga_slots g1) q = (Ok (ga_slots g1 ! q) :: (_, attn_error) outcome)"
      using g1(1,2) by (simp_all add: index_at_def del: upt_Suc)
    ultimately show ?thesis using P sub st(1) tk_def
      by (simp add: ga_step_def ga_kv_dims_def Let_def g2_def flip: P_def q_def r_def del: if_splits)
  qed
  have len: "length H = q * P + r" "r < P" using P(1) by (simp_all add: q_def r_def)
  have "cdiv (length H + tk) P = Suc q" by (rule cdiv_eqI) (use P(1) tk len in simp_all)
  moreover have "page P (H @ map (scaled_token (ga_template g)) X) i = page P H i" if "i < q" for i
    using page_append(1) [OF P(1), of H i "map (scaled_token (ga_template g)) X"] that X(1) tk(3) by (simp add: q_def r_def)
  moreover have "page P (H @ map (scaled_token (ga_template g)) X) q = page P H q @ map (scaled_token (ga_template g)) X"
    using page_append(2) [OF P(1), of "map (scaled_token (ga_template g)) X" H] X(1) tk(3) by (simp add: q_def r_def)
  ultimately have "ga_holds g2 (H @ map (scaled_token (ga_template g)) X)"
    using g1 slots st P X(1) by (auto simp: ga_holds_def g2_def ga_same_def nth_list_update less_Suc_eq simp flip: P_def simp del: upt_Suc)
  moreover have "ga_same g g2" using g1(3) by (simp add: ga_same_def g2_def)
  ultimately show ?thesis using step tk(1,2) by (auto simp: X_def)
qed


subsection \<open>The loops\<close>

lemma ga_same_trans: "ga_same g g' \<Longrightarrow> ga_same g' g'' \<Longrightarrow> ga_same g g''"
  by (simp add: ga_same_def)

lemma ga_append_loop_holds:
  assumes "ga_holds g H" "\<forall>p \<in> set B. kv_token_ok (rs_n_kv (ga_template g)) (rs_d_qk (ga_template g)) (rs_d_v (ga_template g)) p" "d \<le> length B"
  shows "\<exists>g'. ga_append_loop g (concat (map fst B)) (concat (map snd B)) (length B) d AN_NONE = Ok g' \<and>
    ga_holds g' (H @ map (scaled_token (ga_template g)) (drop d B)) \<and> ga_same g g'"
  using assms
proof (induction "length B - d" arbitrary: g H d rule: less_induct)
  case less
  show ?case
  proof (cases "d < length B")
    case True
    from ga_step_holds [OF less(2,3) True] obtain g1 tk where
      g1: "ga_step g (concat (map fst B)) (concat (map snd B)) (length B) d AN_NONE = Ok (g1, d + tk)" "0 < tk" "d + tk \<le> length B"
      "ga_holds g1 (H @ map (scaled_token (ga_template g)) (take tk (drop d B)))" "ga_same g g1" by blast
    have same: "ga_template g1 = ga_template g" using g1(5) by (simp add: ga_same_def)
    have dec: "length B - (d + tk) < length B - d" using True g1(2) by simp
    from less(1) [OF dec g1(4)] less(3) g1(3) same obtain g2 where
      g2: "ga_append_loop g1 (concat (map fst B)) (concat (map snd B)) (length B) (d + tk) AN_NONE = Ok g2"
      "ga_holds g2 ((H @ map (scaled_token (ga_template g)) (take tk (drop d B))) @ map (scaled_token (ga_template g)) (drop (d + tk) B))"
      "ga_same g1 g2" by auto
    have "take tk (drop d B) @ drop (d + tk) B = drop d B" by (metis append_take_drop_id drop_drop add.commute)
    then have "map (scaled_token (ga_template g)) (take tk (drop d B)) @ map (scaled_token (ga_template g)) (drop (d + tk) B) =
        map (scaled_token (ga_template g)) (drop d B)" by (metis map_append)
    with g2 g1 True ga_same_trans [OF g1(5) g2(3)] show ?thesis by (subst ga_append_loop.simps) simp
  next
    case False
    with less(2,4) show ?thesis by (subst ga_append_loop.simps) (simp add: ga_same_def)
  qed
qed

lemma ga_read_step_holds:
  assumes g: "ga_holds g H" and t: "t < hi" "hi \<le> length H"
  shows "\<exists>tk. ga_read_step g t hi AN_NONE =
      Ok (concat (map (read_k (ga_template g)) (take tk (drop t H))), concat (map (read_v (ga_template g)) (take tk (drop t H))), t + tk) \<and>
    0 < tk \<and> t + tk \<le> hi"
proof -
  define P where "P = ga_page_tokens g"
  define i off where "i = t div P" and "off = t mod P"
  define tk where "tk = min (P - off) (hi - t)"
  have P: "0 < P" using g by (simp add: ga_holds_def P_def)
  have len: "t = i * P + off" "off < P" using P by (simp_all add: i_def off_def)
  have tk: "0 < tk" "t + tk \<le> hi" "off + tk \<le> P" using t len by (simp_all add: tk_def)
  have i: "i < length (ga_slots g)" using g div_less_cdiv [OF P, of t "length H"] t by (simp add: ga_holds_def i_def flip: P_def)
  have st: "store_holds (ga_slots g ! i) (page P H i)" "store_shape (ga_slots g ! i) = store_shape (ga_template g)"
    using g i by (simp_all add: ga_holds_def P_def)
  have pl: "off + tk \<le> length (page P H i)" using tk t len by (simp add: page_def)
  then have "page P H i \<noteq> []" using tk(1) by auto
  from store_range_holds [OF st(1) _ pl this, of off]
  have "store_rows_range (ga_slots g ! i) off (off + tk) AN_NONE =
      Ok (concat (map (read_k (ga_template g)) (take tk (drop off (page P H i)))), concat (map (read_v (ga_template g)) (take tk (drop off (page P H i)))))"
    using shape_eqs [OF st(2)] by simp
  also have "take tk (drop off (page P H i)) = take tk (drop t H)"
    using tk(3) len by (simp add: page_def drop_take min_absorb1 add.commute)
  finally show ?thesis using tk i g P
    by (intro exI [of _ tk]) (simp add: ga_read_step_def page_of_def slot_of_def index_at_def Let_def ga_holds_def tk_def flip: P_def i_def off_def)
qed

lemma ga_read_loop_holds:
  assumes "ga_holds g H" "t \<le> hi" "hi \<le> length H"
  shows "ga_read_loop g t hi k v AN_NONE =
    Ok (k @ concat (map (read_k (ga_template g)) (take (hi - t) (drop t H))), v @ concat (map (read_v (ga_template g)) (take (hi - t) (drop t H))))"
  using assms(2)
proof (induction "hi - t" arbitrary: t k v rule: less_induct)
  case less
  show ?case
  proof (cases "t < hi")
    case True
    from ga_read_step_holds [OF assms(1) True assms(3)] obtain tk where
      tk: "ga_read_step g t hi AN_NONE =
        Ok (concat (map (read_k (ga_template g)) (take tk (drop t H))), concat (map (read_v (ga_template g)) (take tk (drop t H))), t + tk)"
      "0 < tk" "t + tk \<le> hi" by blast
    have "take (hi - t) (drop t H) = take tk (drop t H) @ take (hi - (t + tk)) (drop (t + tk) H)"
      using take_add [of tk "hi - (t + tk)" "drop t H"] tk(3) by (simp add: add.commute)
    then show ?thesis using tk less(1) [of "t + tk"] True by (subst ga_read_loop.simps) simp
  next
    case False
    with less(2) show ?thesis by (subst ga_read_loop.simps) simp
  qed
qed

text \<open>Batches of raw tokens.\<close>

definition ga_feed :: "ga_paged \<Rightarrow> kv_token list list \<Rightarrow> (ga_paged, attn_error) outcome" where
  "ga_feed g Bs = fold_results (\<lambda>g B. ga_append g (concat (map fst B)) (concat (map snd B)) (length B) AN_NONE) g Bs"

lemma ga_feed_holds:
  assumes "ga_holds g H" "\<forall>p \<in> set (concat Bs). kv_token_ok (rs_n_kv (ga_template g)) (rs_d_qk (ga_template g)) (rs_d_v (ga_template g)) p"
  shows "\<exists>g'. ga_feed g Bs = Ok g' \<and> ga_holds g' (H @ map (scaled_token (ga_template g)) (concat Bs)) \<and> ga_same g g'"
  using assms
proof (induction Bs arbitrary: g H)
  case (Cons B Bs)
  from ga_append_loop_holds [OF Cons.prems(1), of B 0] Cons.prems(2) obtain g1 where
    g1: "ga_append g (concat (map fst B)) (concat (map snd B)) (length B) AN_NONE = Ok g1"
    "ga_holds g1 (H @ map (scaled_token (ga_template g)) B)" "ga_same g g1" by (auto simp: ga_append_def)
  have same: "ga_template g1 = ga_template g" using g1(3) by (simp add: ga_same_def)
  from Cons.IH [OF g1(2)] Cons.prems(2) same obtain g2 where
    "ga_feed g1 Bs = Ok g2" "ga_holds g2 ((H @ map (scaled_token (ga_template g)) B) @ map (scaled_token (ga_template g)) (concat Bs))" "ga_same g1 g2"
    by auto
  with g1 ga_same_trans [OF g1(3)] show ?case by (auto simp: ga_feed_def)
qed (simp add: ga_feed_def ga_same_def)

text \<open>C11: paging is invisible. Whatever the batch and page sizes, appending never fails, any range read through
  the page table is that range of the flat list of all rows appended, in cached form with \<open>V\<close> scaled before
  storing, a page read is that page of the flat list, and the pages allocated are just enough for the rows.\<close>

theorem paged_reads_are_flat:
  assumes "0 < P" "\<forall>p \<in> set (concat Bs). kv_token_ok n_kv d_qk d_v p"
  shows "\<exists>g0 g. with_page_tokens (ga_new mode n_kv d_qk d_v vs) P = Ok g0 \<and> ga_feed g0 Bs = Ok g \<and>
    (let flat = map (scaled_token (ga_template g0)) (concat Bs); rk = read_k (ga_template g0); rv = read_v (ga_template g0) in
     ga_n_rows g = length flat \<and> allocated_pages g = cdiv (length flat) P \<and>
     (\<forall>lo hi. lo \<le> hi \<longrightarrow> hi \<le> length flat \<longrightarrow>
        ga_rows_range g lo hi AN_NONE = Ok (concat (map rk (take (hi - lo) (drop lo flat))), concat (map rv (take (hi - lo) (drop lo flat))))) \<and>
     (\<forall>i < allocated_pages g.
        ga_page_rows g i AN_NONE = Ok (concat (map rk (take P (drop (i * P) flat))), concat (map rv (take P (drop (i * P) flat))))))"
proof -
  define g0 where "g0 = ga_new mode n_kv d_qk d_v vs\<lparr>ga_page_tokens := P\<rparr>"
  define flat where "flat = map (scaled_token (ga_template g0)) (concat Bs)"
  have g0: "with_page_tokens (ga_new mode n_kv d_qk d_v vs) P = Ok g0" using assms(1) by (simp add: with_page_tokens_def g0_def)
  have "ga_holds g0 []" using assms(1) by (simp add: ga_holds_def g0_def ga_new_def cdiv_def)
  from ga_feed_holds [OF this, of Bs] assms(2) obtain g where
    g: "ga_feed g0 Bs = Ok g" "ga_holds g flat" "ga_same g0 g" by (auto simp: g0_def ga_new_def store_new_def flat_def)
  have P: "ga_page_tokens g = P" "ga_template g = ga_template g0" using g(3) by (simp_all add: ga_same_def g0_def)
  have range: "ga_rows_range g lo hi AN_NONE =
      Ok (concat (map (read_k (ga_template g0)) (take (hi - lo) (drop lo flat))), concat (map (read_v (ga_template g0)) (take (hi - lo) (drop lo flat))))"
    if "lo \<le> hi" "hi \<le> length flat" for lo hi
    using ga_read_loop_holds [OF g(2) that, of "[]" "[]"] that g(2) P(2) by (simp add: ga_rows_range_def ga_holds_def)
  have pages: "ga_page_rows g i AN_NONE =
      Ok (concat (map (read_k (ga_template g0)) (take P (drop (i * P) flat))), concat (map (read_v (ga_template g0)) (take P (drop (i * P) flat))))"
    if "i < allocated_pages g" for i
  proof -
    have i: "i < length (ga_slots g)" "i * P < length flat"
      using that g(2) P(1) assms(1) by (simp_all add: allocated_pages_def ga_holds_def less_cdiv_iff)
    have st: "store_holds (ga_slots g ! i) (page P flat i)" "store_shape (ga_slots g ! i) = store_shape (ga_template g0)"
      using g(2) i(1) P by (simp_all add: ga_holds_def)
    have len: "length (page P flat i) = min P (length flat - i * P)" by (simp add: page_def)
    then have ne: "page P flat i \<noteq> []" using i(2) assms(1) by auto
    have "min (i * P + P) (length flat) - i * P = length (page P flat i)" using len i(2) by auto
    then have "ga_page_rows g i AN_NONE = store_rows_range (ga_slots g ! i) 0 (length (page P flat i)) AN_NONE"
      using i g(2) P(1) assms(1) by (simp add: ga_page_rows_def slot_of_def index_at_def ga_holds_def Let_def)
    also have "\<dots> = Ok (concat (map (read_k (ga_template g0)) (page P flat i)), concat (map (read_v (ga_template g0)) (page P flat i)))"
      using store_range_holds [OF st(1) _ _ ne, of 0 "length (page P flat i)"] shape_eqs [OF st(2)] by simp
    finally show ?thesis by (simp add: page_def)
  qed
  have n: "ga_n_rows g = length flat" "allocated_pages g = cdiv (length flat) P"
    using g(2) P(1) by (simp_all add: ga_holds_def allocated_pages_def)
  show ?thesis
    by (rule exI [of _ g0], rule exI [of _ g], unfold Let_def flat_def [symmetric])
      (intro conjI allI impI g0 g(1) n range pages, assumption+)
qed

lemma paged_reads_are_flat_witness:
  "\<exists>g0 g. with_page_tokens (ga_new SM_Fp8PerTokenHead 1 1 1 VALUE_SCALE) 2 = Ok g0 \<and>
     ga_feed g0 [[([1], [2]), ([3], [4]), ([5], [6])], [([7], [8]), ([9], [10])]] = Ok g \<and> allocated_pages g = 3"
proof -
  have "\<forall>p \<in> set (concat [[([1], [2]), ([3], [4]), ([5], [6])], [([7], [8]), ([9], [10 :: f32])]]). kv_token_ok 1 1 1 p"
    by (simp add: kv_token_ok_def)
  moreover have "0 < (2 :: nat)" by simp
  ultimately have "0 < (2 :: nat)" and ok: "\<forall>p \<in> set (concat [[([1], [2]), ([3], [4]), ([5], [6])], [([7], [8]), ([9], [10 :: f32])]]). kv_token_ok 1 1 1 p"
    by blast+
  from paged_reads_are_flat [OF this, of SM_Fp8PerTokenHead VALUE_SCALE]
  obtain g0 g where
    "with_page_tokens (ga_new SM_Fp8PerTokenHead 1 1 1 VALUE_SCALE) 2 = Ok g0"
    "ga_feed g0 [[([1], [2]), ([3], [4]), ([5], [6])], [([7], [8]), ([9], [10])]] = Ok g"
    and n: "allocated_pages g = cdiv (length (map (scaled_token (ga_template g0)) (concat [[([1], [2]), ([3], [4]), ([5], [6])], [([7], [8]), ([9], [10 :: f32])]]))) 2"
    unfolding Let_def by (elim exE conjE) (rule that, assumption+)
  moreover have "allocated_pages g = 3" using n by (simp add: cdiv_def)
  ultimately show ?thesis by blast
qed

end
