(* ===== verification/Effects.thy ===== *)
theory Effects
  imports Prelude
begin

text \<open>
  Code that changes state through \<open>&mut\<close> and can fail on the way: the state reached so far stays
  after an early return, so an effect returns its outcome together with the state. Properties of an
  effect are stated as weakest preconditions: \<open>wp m Q E s\<close> says that \<open>m\<close> run from \<open>s\<close> does not panic, that
  its value and state satisfy \<open>Q\<close> when it returns \<open>Ok\<close> and its state satisfies \<open>E\<close> when it returns \<open>Err\<close>.
\<close>

named_theorems wp_simps \<open>weakest preconditions of the effect combinators\<close>

type_synonym ('s, 'a, 'e) eff = "'s \<Rightarrow> ('a, 'e) outcome \<times> 's"

definition eret :: "'a \<Rightarrow> ('s, 'a, 'e) eff" where
  "eret x = (\<lambda>s. (Ok x, s))"

definition efail :: "'e \<Rightarrow> ('s, 'a, 'e) eff" where
  "efail e = (\<lambda>s. (Err e, s))"

definition epanic :: "('s, 'a, 'e) eff" where
  "epanic = (\<lambda>s. (Panic, s))"

definition eget :: "('s \<Rightarrow> 'a) \<Rightarrow> ('s, 'a, 'e) eff" where
  "eget f = (\<lambda>s. (Ok (f s), s))"

definition emodify :: "('s \<Rightarrow> 's) \<Rightarrow> ('s, unit, 'e) eff" where
  "emodify f = (\<lambda>s. (Ok (), f s))"

definition eresult :: "('a, 'e) outcome \<Rightarrow> ('s, 'a, 'e) eff" where
  "eresult r = (\<lambda>s. (r, s))"

definition ebind :: "('s, 'a, 'e) eff \<Rightarrow> ('a \<Rightarrow> ('s, 'b, 'e) eff) \<Rightarrow> ('s, 'b, 'e) eff" where
  "ebind m f = (\<lambda>s. case m s of
       (Ok x, s') \<Rightarrow> f x s'
     | (Err e, s') \<Rightarrow> (Err e, s')
     | (Panic, s') \<Rightarrow> (Panic, s'))"

definition ethen :: "('s, unit, 'e) eff \<Rightarrow> ('s, 'b, 'e) eff \<Rightarrow> ('s, 'b, 'e) eff" where
  "ethen m m' = ebind m (\<lambda>_. m')"

text \<open>\<open>for x in xs { f(x)?; }\<close>\<close>

primrec efor :: "('a \<Rightarrow> ('s, unit, 'e) eff) \<Rightarrow> 'a list \<Rightarrow> ('s, unit, 'e) eff" where
  "efor f [] = eret ()"
| "efor f (x # xs) = ethen (f x) (efor f xs)"

text \<open>An effect on one part of the state.\<close>

definition on_fst :: "('s, 'a, 'e) eff \<Rightarrow> ('s \<times> 't, 'a, 'e) eff" where
  "on_fst m = (\<lambda>(s, t). case m s of (r, s') \<Rightarrow> (r, (s', t)))"

definition wp :: "('s, 'a, 'e) eff \<Rightarrow> ('a \<Rightarrow> 's \<Rightarrow> bool) \<Rightarrow> ('s \<Rightarrow> bool) \<Rightarrow> 's \<Rightarrow> bool" where
  "wp m Q E s = (case m s of (Ok x, s') \<Rightarrow> Q x s' | (Err e, s') \<Rightarrow> E s' | (Panic, s') \<Rightarrow> False)"

lemma wp_eret [wp_simps]: "wp (eret x) Q E s = Q x s"
  by (simp add: wp_def eret_def)

lemma wp_efail [wp_simps]: "wp (efail e) Q E s = E s"
  by (simp add: wp_def efail_def)

lemma wp_epanic [wp_simps]: "wp epanic Q E s = False"
  by (simp add: wp_def epanic_def)

lemma wp_eget [wp_simps]: "wp (eget f) Q E s = Q (f s) s"
  by (simp add: wp_def eget_def)

lemma wp_emodify [wp_simps]: "wp (emodify f) Q E s = Q () (f s)"
  by (simp add: wp_def emodify_def)

lemma wp_eresult: "wp (eresult r) Q E s = (case r of Ok x \<Rightarrow> Q x s | Err e \<Rightarrow> E s | Panic \<Rightarrow> False)"
  by (simp add: wp_def eresult_def)

lemma wp_ebind [wp_simps]: "wp (ebind m f) Q E s = wp m (\<lambda>x. wp (f x) Q E) E s"
  by (simp add: wp_def ebind_def split: prod.split outcome.split)

lemma wp_ethen [wp_simps]: "wp (ethen m m') Q E s = wp m (\<lambda>_. wp m' Q E) E s"
  by (simp add: ethen_def wp_ebind)

lemma wp_on_fst [wp_simps]: "wp (on_fst m) Q E (s, t) = wp m (\<lambda>x s'. Q x (s', t)) (\<lambda>s'. E (s', t)) s"
  by (simp add: wp_def on_fst_def split: prod.split outcome.split)

lemma wp_if [wp_simps]:
  "wp (if b then m else m') Q E s = (if b then wp m Q E s else wp m' Q E s)"
  by simp

lemma wp_mono:
  assumes "wp m Q E s" "\<And>x s'. Q x s' \<Longrightarrow> Q' x s'" "\<And>s'. E s' \<Longrightarrow> E' s'"
  shows "wp m Q' E' s"
  using assms by (auto simp: wp_def split: prod.splits outcome.splits)

lemma wp_conj: "wp m Q E s \<Longrightarrow> wp m Q' E' s \<Longrightarrow> wp m (\<lambda>x s'. Q x s' \<and> Q' x s') (\<lambda>s'. E s' \<and> E' s') s"
  by (auto simp: wp_def split: prod.splits outcome.splits)

lemma wp_cases:
  assumes "wp m Q E s"
  obtains (Ok) x s' where "m s = (Ok x, s')" "Q x s'" | (Err) e s' where "m s = (Err e, s')" "E s'"
  using assms by (auto simp: wp_def split: prod.splits outcome.splits)

lemma wpD_Ok: "wp m Q E s \<Longrightarrow> m s = (Ok x, s') \<Longrightarrow> Q x s'"
  by (simp add: wp_def)

text \<open>A loop keeps an invariant indexed by the number of rounds done.\<close>

lemma wp_efor:
  assumes start: "I 0 s"
    and step: "\<And>j t. j < length xs \<Longrightarrow> I j t \<Longrightarrow> wp (f (xs ! j)) (\<lambda>_. I (Suc j)) E t"
  shows "wp (efor f xs) (\<lambda>_. I (length xs)) E s"
  using assms
proof (induction xs arbitrary: I s)
  case Nil
  then show ?case by (simp add: wp_simps)
next
  case (Cons x xs)
  have first: "wp (f x) (\<lambda>_. I 1) E s"
    using Cons.prems(2) [of 0 s] Cons.prems(1) by simp
  have rest: "wp (efor f xs) (\<lambda>_. I (Suc (length xs))) E t" if "I 1 t" for t
  proof (rule Cons.IH [where I = "\<lambda>j. I (Suc j)"])
    show "I (Suc 0) t" using that by simp
    show "wp (f (xs ! j)) (\<lambda>_. I (Suc (Suc j))) E u" if "j < length xs" "I (Suc j) u" for j u
      using Cons.prems(2) [of "Suc j" u] that by simp
  qed
  show ?case
    by (simp add: wp_simps) (rule wp_mono [OF first], simp_all add: rest)
qed

lemma wp_efor_inv:
  assumes "I s" "\<And>x t. x \<in> set xs \<Longrightarrow> I t \<Longrightarrow> wp (f x) (\<lambda>_. I) E t"
  shows "wp (efor f xs) (\<lambda>_. I) E s"
  by (rule wp_efor [where I = "\<lambda>_. I"]) (use assms in auto)

lemma wp_upd_post:
  assumes "wp m Q E s" "\<And>x s'. m s = (Ok x, s') \<Longrightarrow> Q x s' \<Longrightarrow> Q' x s'" "\<And>e s'. m s = (Err e, s') \<Longrightarrow> E s' \<Longrightarrow> E' s'"
  shows "wp m Q' E' s"
  using assms by (auto simp: wp_def split: prod.splits outcome.splits)

end
