(* ===== verification/DeviceBuffer.thy ===== *)
theory DeviceBuffer
  imports Effects
begin

text \<open>
  \<open>crates/mimo26-attn/src/device.rs\<close>: device allocations. The CUDA runtime is an argument: a record of
  the calls the coordinator makes, each a function of the runtime's own state. A copy is given the bytes
  of its two ranges and returns a code and the new bytes of the target; what it relies on is \<open>cuda_ok\<close>
  (a call that reports success did what is asked, an allocation has the size asked for). Copies queued on
  the one stream the code uses run in order, so they are written as they are issued; a copy that reports
  an error may leave anything in its target. An access outside an allocation, undefined in the source, is a panic.
\<close>

type_synonym bytes = "u8 list"

record 'g cuda =
  cuda_malloc :: "nat \<Rightarrow> 'g \<Rightarrow> (int \<times> bytes) \<times> 'g"
  cuda_memcpy :: "bytes \<Rightarrow> bytes \<Rightarrow> 'g \<Rightarrow> (int \<times> bytes) \<times> 'g"
  cuda_memset :: "bytes \<Rightarrow> u8 \<Rightarrow> 'g \<Rightarrow> (int \<times> bytes) \<times> 'g"
  cuda_launch :: "'g \<Rightarrow> int \<times> 'g"
  cuda_synchronize :: "'g \<Rightarrow> int \<times> 'g"
  cuda_mem_free :: "'g \<Rightarrow> (int \<times> nat) \<times> 'g"
  cuda_host_register :: "nat \<Rightarrow> 'g \<Rightarrow> int \<times> 'g"

definition cuda_ok :: "'g cuda \<Rightarrow> bool" where
  "cuda_ok cu \<longleftrightarrow>
     (\<forall>n g. case cuda_malloc cu n g of ((rc, b), _) \<Rightarrow> rc = 0 \<longrightarrow> length b = n) \<and>
     (\<forall>d s g. length d = length s \<longrightarrow> (case cuda_memcpy cu d s g of ((rc, b), _) \<Rightarrow>
        length b = length d \<and> (rc = 0 \<longrightarrow> b = s))) \<and>
     (\<forall>d v g. case cuda_memset cu d v g of ((rc, b), _) \<Rightarrow>
        length b = length d \<and> (rc = 0 \<longrightarrow> b = replicate (length d) v))"

lemma cuda_malloc_ok:
  assumes "cuda_ok cu" "cuda_malloc cu n g = ((0, b), g')"
  shows "length b = n"
proof -
  have "case cuda_malloc cu n g of ((rc, b), _) \<Rightarrow> rc = 0 \<longrightarrow> length b = n"
    using assms(1) unfolding cuda_ok_def by (elim conjE allE)
  then show ?thesis by (simp add: assms(2))
qed

lemma cuda_memcpy_ok:
  assumes "cuda_ok cu" "length d = length s" "cuda_memcpy cu d s g = ((rc, b), g')"
  shows "length b = length d \<and> (rc = 0 \<longrightarrow> b = s)"
proof -
  have "length d = length s \<longrightarrow> (case cuda_memcpy cu d s g of ((rc, b), _) \<Rightarrow>
      length b = length d \<and> (rc = 0 \<longrightarrow> b = s))"
    using assms(1) unfolding cuda_ok_def by (elim conjE allE)
  then show ?thesis by (simp add: assms)
qed

lemma cuda_memset_ok:
  assumes "cuda_ok cu" "cuda_memset cu d v g = ((rc, b), g')"
  shows "length b = length d \<and> (rc = 0 \<longrightarrow> b = replicate (length d) v)"
proof -
  have "case cuda_memset cu d v g of ((rc, b), _) \<Rightarrow>
      length b = length d \<and> (rc = 0 \<longrightarrow> b = replicate (length d) v)"
    using assms(1) unfolding cuda_ok_def by (elim conjE allE)
  then show ?thesis by (simp add: assms)
qed

text \<open>\<open>Result<T, CudaError>\<close>: a non-zero code is the error.\<close>

definition check_rc :: "(int \<Rightarrow> 'e) \<Rightarrow> int \<Rightarrow> ('s, unit, 'e) eff" where
  "check_rc fail rc = (if rc \<noteq> 0 then efail (fail rc) else eret ())"

lemma wp_check_rc [wp_simps]: "wp (check_rc fail rc) Q E s = (if rc \<noteq> 0 then E s else Q () s)"
  by (simp add: check_rc_def wp_simps)

text \<open>\<open>DeviceBuffer::alloc\<close>: no call for zero bytes.\<close>

definition buf_alloc :: "'g cuda \<Rightarrow> (int \<Rightarrow> 'e) \<Rightarrow> nat \<Rightarrow> ('g, bytes, 'e) eff" where
  "buf_alloc cu fail n =
     (if n = 0 then eret []
      else (\<lambda>g. case cuda_malloc cu n g of ((rc, b), g') \<Rightarrow>
        if rc \<noteq> 0 then (Err (fail rc), g') else (Ok b, g')))"

lemma wp_buf_alloc:
  assumes "cuda_ok cu" "\<And>b g'. length b = n \<Longrightarrow> Q b g'" "\<And>g'. E g'"
  shows "wp (buf_alloc cu fail n) Q E g"
  using assms cuda_malloc_ok [OF assms(1)]
  by (auto simp: buf_alloc_def wp_def eret_def split: prod.split)

text \<open>\<open>n\<close> bytes of \<open>src\<close> at \<open>soff\<close> to \<open>dst\<close> at \<open>doff\<close>: the code and the bytes of \<open>dst\<close> afterwards.\<close>

definition copy_bytes :: "'g cuda \<Rightarrow> bytes \<Rightarrow> nat \<Rightarrow> bytes \<Rightarrow> nat \<Rightarrow> nat \<Rightarrow> ('g, int \<times> bytes, 'e) eff" where
  "copy_bytes cu dst doff src soff n =
     (if doff + n \<le> length dst \<and> soff + n \<le> length src
      then (\<lambda>g. case cuda_memcpy cu (take n (drop doff dst)) (take n (drop soff src)) g of
        ((rc, b), g') \<Rightarrow> (Ok (rc, put_bytes doff b dst), g'))
      else epanic)"

lemma wp_copy_bytes:
  assumes "cuda_ok cu" "doff + n \<le> length dst" "soff + n \<le> length src"
    and "\<And>g'. Q (0, put_bytes doff (take n (drop soff src)) dst) g'"
    and "\<And>rc b g'. rc \<noteq> 0 \<Longrightarrow> length b = n \<Longrightarrow> Q (rc, put_bytes doff b dst) g'"
  shows "wp (copy_bytes cu dst doff src soff n) Q E g"
proof -
  obtain rc b g' where run: "cuda_memcpy cu (take n (drop doff dst)) (take n (drop soff src)) g = ((rc, b), g')"
    by (metis prod.exhaust)
  have "length b = n \<and> (rc = 0 \<longrightarrow> b = take n (drop soff src))"
    using cuda_memcpy_ok [OF assms(1) _ run] assms(2,3) by simp
  then show ?thesis
    using assms run by (cases "rc = 0") (auto simp: copy_bytes_def wp_def)
qed

text \<open>
  \<open>upload\<close> and \<open>download\<close> demand equal lengths, \<open>upload_prefix\<close> and \<open>download_prefix\<close> at most the buffer's; an
  empty transfer makes no call. The state is the runtime with the buffer (uploads) or the host slice (downloads).
\<close>

definition store_copied :: "(int \<Rightarrow> 'e) \<Rightarrow> ('g, int \<times> bytes, 'e) eff \<Rightarrow> ('g \<times> bytes, unit, 'e) eff" where
  "store_copied fail m =
     ebind (on_fst m) (\<lambda>(rc, b). ethen (emodify (\<lambda>(g, _). (g, b))) (check_rc fail rc))"

definition buf_upload :: "'g cuda \<Rightarrow> (int \<Rightarrow> 'e) \<Rightarrow> bytes \<Rightarrow> ('g \<times> bytes, unit, 'e) eff" where
  "buf_upload cu fail src = ebind (eget snd) (\<lambda>buf.
     if length src \<noteq> length buf then epanic
     else if length buf = 0 then eret ()
     else store_copied fail (copy_bytes cu buf 0 src 0 (length src)))"

definition buf_download :: "'g cuda \<Rightarrow> (int \<Rightarrow> 'e) \<Rightarrow> bytes \<Rightarrow> ('g \<times> bytes, unit, 'e) eff" where
  "buf_download cu fail buf = ebind (eget snd) (\<lambda>dst.
     if length dst \<noteq> length buf then epanic
     else if length buf = 0 then eret ()
     else store_copied fail (copy_bytes cu dst 0 buf 0 (length dst)))"

definition buf_upload_prefix :: "'g cuda \<Rightarrow> (int \<Rightarrow> 'e) \<Rightarrow> bytes \<Rightarrow> ('g \<times> bytes, unit, 'e) eff" where
  "buf_upload_prefix cu fail src = ebind (eget snd) (\<lambda>buf.
     if length src > length buf then epanic
     else if src = [] then eret ()
     else store_copied fail (copy_bytes cu buf 0 src 0 (length src)))"

definition buf_download_prefix :: "'g cuda \<Rightarrow> (int \<Rightarrow> 'e) \<Rightarrow> bytes \<Rightarrow> ('g \<times> bytes, unit, 'e) eff" where
  "buf_download_prefix cu fail buf = ebind (eget snd) (\<lambda>dst.
     if length dst > length buf then epanic
     else if dst = [] then eret ()
     else store_copied fail (copy_bytes cu dst 0 buf 0 (length dst)))"

definition buf_zero :: "'g cuda \<Rightarrow> (int \<Rightarrow> 'e) \<Rightarrow> ('g \<times> bytes, unit, 'e) eff" where
  "buf_zero cu fail = ebind (eget snd) (\<lambda>buf.
     if length buf = 0 then eret ()
     else store_copied fail (\<lambda>g. case cuda_memset cu buf 0 g of (r, g') \<Rightarrow> (Ok r, g')))"

text \<open>What is uploaded to a prefix is what a download of that prefix returns.\<close>

lemma upload_download_prefix:
  assumes "cuda_ok cu" "length dst = length src" "length src \<le> length buf"
  shows "wp (buf_upload_prefix cu fail src)
    (\<lambda>_ (g, buf'). length buf' = length buf \<and>
       wp (buf_download_prefix cu fail buf') (\<lambda>_ (_, dst'). dst' = src) (\<lambda>_. True) (g, dst)) (\<lambda>_. True) (g, buf)"
proof (cases "src = []")
  case True
  then show ?thesis using assms by (simp add: buf_upload_prefix_def buf_download_prefix_def wp_simps)
next
  case False
  have put: "put_bytes 0 src dst = src" using assms by (simp add: put_bytes_def)
  have down: "wp (buf_download_prefix cu fail (put_bytes 0 src buf)) (\<lambda>_ (_, dst'). dst' = src) (\<lambda>_. True) (h, dst)" for h
    unfolding buf_download_prefix_def store_copied_def
    using assms False by (auto simp: wp_simps take_drop_put_same put intro!: wp_copy_bytes)
      (auto simp: put_bytes_def)
  show ?thesis
    unfolding buf_upload_prefix_def store_copied_def
    using assms False down by (auto simp: wp_simps intro!: wp_copy_bytes)
qed

end
