(* ===== verification/DraftKv.thy ===== *)
theory DraftKv
  imports DeviceBuffer
begin

text \<open>
  \<open>DraftKv\<close> of \<open>crates/mimo26-coordinator/src/dforward/dflash.rs\<close>: the drafter's K and V rings of one request and
  their copies to and from a snapshot, laid out \<open>[layer][K ring][V ring]\<close>.
\<close>

datatype kv_error =
    AllocFailed int
  | CudaFailed string int
  | ShortBuffer string
  | TruncatePast nat nat
  | TruncateLayer nat nat nat
  | ExportPage nat nat
  | ExportPast nat nat nat
  | ImportPage nat nat
  | SwaDisagree string
  | SwaRows string nat nat
  | RewindPast nat nat
  | ForkInto nat nat nat
  | HostRegister nat int
  | PageMissing
  | MemInfo int
  | PoolFull nat nat nat
  | ImageRoom nat nat
  | NoSlot

definition LAYERS :: nat where "LAYERS = 5"
definition RING :: nat where "RING = 1088"
definition NKV :: nat where "NKV = 8"
definition HD :: nat where "HD = 128"

definition ring_bytes :: nat where "ring_bytes = RING * NKV * HD * 2"

record draft_kv =
  dk_k :: "bytes list"
  dk_v :: "bytes list"

definition draft_bytes :: nat where "draft_bytes = LAYERS * 2 * RING * NKV * HD * 2"

text \<open>\<open>for l in 0..LAYERS { for (j, b) in [&self.k[l], &self.v[l]] .. }\<close>.\<close>

definition ring_ids :: "(nat \<times> nat) list" where
  "ring_ids = concat (map (\<lambda>l. [(l, 0), (l, 1)]) [0..<LAYERS])"

definition ring_at :: "draft_kv \<Rightarrow> nat \<times> nat \<Rightarrow> bytes" where
  "ring_at d = (\<lambda>(l, j). if j = 0 then dk_k d ! l else dk_v d ! l)"

definition set_ring :: "nat \<times> nat \<Rightarrow> bytes \<Rightarrow> draft_kv \<Rightarrow> draft_kv" where
  "set_ring = (\<lambda>(l, j) b d. if j = 0 then d\<lparr>dk_k := (dk_k d)[l := b]\<rparr> else d\<lparr>dk_v := (dk_v d)[l := b]\<rparr>)"

definition ring_off :: "nat \<times> nat \<Rightarrow> nat" where
  "ring_off = (\<lambda>(l, j). (l * 2 + j) * ring_bytes)"

text \<open>One copy into the state's buffer, and into one of its rings.\<close>

definition copy_out :: "'g cuda \<Rightarrow> string \<Rightarrow> nat \<Rightarrow> bytes \<Rightarrow> nat \<Rightarrow> nat \<Rightarrow> ('g \<times> bytes, unit, kv_error) eff" where
  "copy_out cu what doff src soff n =
     ebind (eget snd) (\<lambda>dst. store_copied (CudaFailed what) (copy_bytes cu dst doff src soff n))"

definition copy_ring :: "'g cuda \<Rightarrow> string \<Rightarrow> bytes \<Rightarrow> nat \<Rightarrow> nat \<times> nat \<Rightarrow> ('g \<times> draft_kv, unit, kv_error) eff" where
  "copy_ring cu what src base r =
     ebind (eget snd) (\<lambda>d.
     ebind (on_fst (copy_bytes cu (ring_at d r) 0 src (base + ring_off r) ring_bytes)) (\<lambda>(rc, b).
     ethen (emodify (\<lambda>(g, d). (g, set_ring r b d))) (check_rc (CudaFailed what) rc)))"

definition draft_export :: "'g cuda \<Rightarrow> draft_kv \<Rightarrow> ('g \<times> bytes, unit, kv_error) eff" where
  "draft_export cu d = ebind (eget snd) (\<lambda>dst.
     if length dst < draft_bytes then efail (ShortBuffer ''draft export'')
     else efor (\<lambda>r. copy_out cu ''draft export'' (ring_off r) (ring_at d r) 0 ring_bytes) ring_ids)"

definition draft_import :: "'g cuda \<Rightarrow> bytes \<Rightarrow> ('g \<times> draft_kv, unit, kv_error) eff" where
  "draft_import cu src =
     (if length src < draft_bytes then efail (ShortBuffer ''draft import'')
      else efor (copy_ring cu ''draft import'' src 0) ring_ids)"

text \<open>The device-to-device twins take a pointer \<open>base\<close> bytes into a buffer and check no length.\<close>

definition draft_save_dev :: "'g cuda \<Rightarrow> draft_kv \<Rightarrow> nat \<Rightarrow> ('g \<times> bytes, unit, kv_error) eff" where
  "draft_save_dev cu d base =
     efor (\<lambda>r. copy_out cu ''draft save'' (base + ring_off r) (ring_at d r) 0 ring_bytes) ring_ids"

definition draft_load_dev :: "'g cuda \<Rightarrow> bytes \<Rightarrow> nat \<Rightarrow> ('g \<times> draft_kv, unit, kv_error) eff" where
  "draft_load_dev cu src base = efor (copy_ring cu ''draft load'' src base) ring_ids"

primrec alloc_rings :: "'g cuda \<Rightarrow> nat \<Rightarrow> ('g, bytes list, kv_error) eff" where
  "alloc_rings cu 0 = eret []"
| "alloc_rings cu (Suc n) = ebind (buf_alloc cu AllocFailed ring_bytes) (\<lambda>b.
     ebind (alloc_rings cu n) (\<lambda>bs. eret (b # bs)))"

definition draft_new :: "'g cuda \<Rightarrow> ('g, draft_kv, kv_error) eff" where
  "draft_new cu = ebind (alloc_rings cu LAYERS) (\<lambda>ks. ebind (alloc_rings cu LAYERS) (\<lambda>vs.
     eret \<lparr>dk_k = ks, dk_v = vs\<rparr>))"

definition draft_ok :: "draft_kv \<Rightarrow> bool" where
  "draft_ok d \<longleftrightarrow> length (dk_k d) = LAYERS \<and> length (dk_v d) = LAYERS \<and>
     (\<forall>b \<in> set (dk_k d) \<union> set (dk_v d). length b = ring_bytes)"


subsection \<open>Saving and loading\<close>

lemma ring_ids_simp: "ring_ids = [(0, 0), (0, 1), (1, 0), (1, 1), (2, 0), (2, 1), (3, 0), (3, 1), (4, 0), (4, 1)]"
  by (simp add: ring_ids_def LAYERS_def upt_rec)

lemma ring_range: "r \<in> set ring_ids \<Longrightarrow> ring_off r + ring_bytes \<le> draft_bytes"
  by (auto simp: ring_ids_simp ring_off_def draft_bytes_def ring_bytes_def LAYERS_def)

lemma ring_apart:
  "r \<in> set ring_ids \<Longrightarrow> r' \<in> set ring_ids \<Longrightarrow> r \<noteq> r' \<Longrightarrow>
     ring_off r + ring_bytes \<le> ring_off r' \<or> ring_off r' + ring_bytes \<le> ring_off r"
  by (auto simp: ring_ids_simp ring_off_def)

lemma ring_id_cases: "r \<in> set ring_ids \<Longrightarrow> \<exists>l j. r = (l, j) \<and> l < LAYERS \<and> (j = 0 \<or> j = 1)"
  by (auto simp: ring_ids_simp LAYERS_def)

lemma length_ring_at: "draft_ok d \<Longrightarrow> r \<in> set ring_ids \<Longrightarrow> length (ring_at d r) = ring_bytes"
  by (drule ring_id_cases) (auto simp: draft_ok_def ring_at_def)

lemma ring_at_set:
  "draft_ok d \<Longrightarrow> r \<in> set ring_ids \<Longrightarrow> r' \<in> set ring_ids \<Longrightarrow>
     ring_at (set_ring r b d) r' = (if r' = r then b else ring_at d r')"
  by (drule ring_id_cases, drule ring_id_cases) (auto simp: draft_ok_def ring_at_def set_ring_def nth_list_update split: if_splits)

lemma draft_ok_set:
  "draft_ok d \<Longrightarrow> length b = ring_bytes \<Longrightarrow> draft_ok (set_ring r b d)"
  by (cases r) (auto simp: draft_ok_def set_ring_def dest!: set_update_subset_insert [THEN subsetD])

lemma draft_eqI:
  assumes "draft_ok d" "draft_ok d'" "\<And>r. r \<in> set ring_ids \<Longrightarrow> ring_at d r = ring_at d' r"
  shows "d = d'"
proof -
  have mem: "(l, j) \<in> set ring_ids" if "l < LAYERS" "j = 0 \<or> j = 1" for l j
    using that by (auto simp: ring_ids_simp LAYERS_def)
  have k: "dk_k d ! l = dk_k d' ! l" if "l < LAYERS" for l
    using assms(3) [OF mem, OF that disjI1, of 0] by (simp add: ring_at_def)
  have v: "dk_v d ! l = dk_v d' ! l" if "l < LAYERS" for l
    using assms(3) [OF mem, OF that disjI2, of 1] by (simp add: ring_at_def)
  have "dk_k d = dk_k d'" "dk_v d = dk_v d'"
    using assms(1,2) k v by (auto simp: draft_ok_def intro!: nth_equalityI)
  then show ?thesis by simp
qed

text \<open>What a saved snapshot of the rings is: every ring's bytes at its offset from \<open>base\<close>.\<close>

definition draft_saved :: "draft_kv \<Rightarrow> nat \<Rightarrow> bytes \<Rightarrow> bool" where
  "draft_saved d base buf \<longleftrightarrow>
     (\<forall>r \<in> set ring_ids. take ring_bytes (drop (base + ring_off r) buf) = ring_at d r)"

lemma wp_copy_out:
  assumes "cuda_ok cu" "doff + n \<le> length dst" "soff + n \<le> length src"
    and "\<And>g'. Q () (g', put_bytes doff (take n (drop soff src)) dst)"
    and "\<And>b g'. length b = n \<Longrightarrow> E (g', put_bytes doff b dst)"
  shows "wp (copy_out cu what doff src soff n) Q E (g, dst)"
  unfolding copy_out_def store_copied_def
  using assms by (auto simp: wp_simps intro!: wp_copy_bytes)

lemma wp_copy_rings:
  assumes cu: "cuda_ok cu" and d: "draft_ok d" and room: "base + draft_bytes \<le> length buf"
  shows "wp (efor (\<lambda>r. copy_out cu what (base + ring_off r) (ring_at d r) 0 ring_bytes) ring_ids)
    (\<lambda>_ (g', buf'). length buf' = length buf \<and> take base buf' = take base buf \<and> draft_saved d base buf')
    (\<lambda>(g', buf'). length buf' = length buf) (g, buf)"
proof -
  let ?I = "\<lambda>j (g' :: 'a, buf'). length buf' = length buf \<and> take base buf' = take base buf \<and>
    (\<forall>i < j. take ring_bytes (drop (base + ring_off (ring_ids ! i)) buf') = ring_at d (ring_ids ! i))"
  have step: "wp (copy_out cu what (base + ring_off (ring_ids ! j)) (ring_at d (ring_ids ! j)) 0 ring_bytes)
      (\<lambda>_. ?I (Suc j)) (\<lambda>(g', buf'). length buf' = length buf) t"
    if "j < length ring_ids" "?I j t" for j t
  proof -
    obtain g' b where t: "t = (g', b)" by force
    let ?r = "ring_ids ! j"
    have r: "?r \<in> set ring_ids" using that(1) by simp
    have fits: "base + ring_off ?r + ring_bytes \<le> length b"
      using ring_range [OF r] room that(2) t by simp
    have other: "take ring_bytes (drop (base + ring_off (ring_ids ! i)) (put_bytes (base + ring_off ?r) (ring_at d ?r) b))
        = ring_at d (ring_ids ! i)" if "i < j" for i
    proof -
      have "ring_ids ! i \<noteq> ?r"
        using \<open>j < length ring_ids\<close> that by (subst nth_eq_iff_index_eq) (auto simp: ring_ids_simp)
      moreover have "ring_ids ! i \<in> set ring_ids" using that \<open>j < length ring_ids\<close> by simp
      ultimately consider "ring_off (ring_ids ! i) + ring_bytes \<le> ring_off ?r" | "ring_off ?r + ring_bytes \<le> ring_off (ring_ids ! i)"
        using ring_apart [OF _ r, of "ring_ids ! i"] by blast
      then show ?thesis
        using \<open>?I j t\<close> t that fits length_ring_at [OF d r]
        by cases (simp_all add: take_drop_put_before take_drop_put_after)
    qed
    show ?thesis
      unfolding t
      using that(2) t fits length_ring_at [OF d r] other
      by (intro wp_copy_out [OF cu]) (auto simp: less_Suc_eq take_drop_put_same put_bytes_def)
  qed
  show ?thesis
    by (rule wp_mono [OF wp_efor [where I = "?I", OF _ step]])
      (auto simp: draft_saved_def all_set_conv_all_nth)
qed

lemma wp_load_rings:
  assumes cu: "cuda_ok cu" and d: "draft_ok d" and room: "base + draft_bytes \<le> length src"
  shows "wp (efor (copy_ring cu what src base) ring_ids)
    (\<lambda>_ (g', d'). draft_ok d' \<and> draft_saved d' base src) (\<lambda>(g', d'). draft_ok d') (g, d)"
proof -
  let ?I = "\<lambda>j (g' :: 'a, d'). draft_ok d' \<and>
    (\<forall>i < j. take ring_bytes (drop (base + ring_off (ring_ids ! i)) src) = ring_at d' (ring_ids ! i))"
  have step: "wp (copy_ring cu what src base (ring_ids ! j)) (\<lambda>_. ?I (Suc j)) (\<lambda>(g', d'). draft_ok d') t"
    if "j < length ring_ids" "?I j t" for j t
  proof -
    obtain g' e where t: "t = (g', e)" by force
    let ?r = "ring_ids ! j"
    have r: "?r \<in> set ring_ids" using that(1) by simp
    have e: "draft_ok e" using that(2) t by simp
    have len: "length (ring_at e ?r) = ring_bytes" by (rule length_ring_at [OF e r])
    have whole: "put_bytes 0 b (ring_at e ?r) = b" if "length b = ring_bytes" for b
      using that len by (simp add: put_bytes_def)
    have differs: "ring_ids ! i \<noteq> ?r" if "i < j" for i
      using \<open>j < length ring_ids\<close> that by (subst nth_eq_iff_index_eq) (auto simp: ring_ids_simp)
    have fits: "base + ring_off ?r + ring_bytes \<le> length src"
      using ring_range [OF r] room by simp
    show ?thesis
      unfolding t copy_ring_def
      using that t fits len whole e r differs
      by (auto simp: wp_simps less_Suc_eq ring_at_set draft_ok_set intro!: wp_copy_bytes [OF cu])
  qed
  show ?thesis
    by (rule wp_mono [OF wp_efor [where I = "?I", OF _ step]])
      (use d in \<open>auto simp: draft_saved_def all_set_conv_all_nth\<close>)
qed

end
