(* ===== verification/ModelConfig.thy ===== *)
theory ModelConfig
  imports Prelude
begin

text \<open>
  \<open>crates/mimo26-coordinator/src/config.rs\<close>: the geometry of the served model and of its scaled-down twin.
  Floating-point fields are bit patterns.
\<close>

definition GA_LAYER_IDS :: "nat list" where "GA_LAYER_IDS = [0, 5, 11, 17, 23, 29, 35, 41, 47]"
definition DENSE_LAYER_IDS :: "nat list" where "DENSE_LAYER_IDS = [0]"

datatype layer_kind = Ga | Swa

record config =
  vocab_size :: nat
  hidden_size :: nat
  intermediate_size :: nat
  num_hidden_layers :: nat
  num_attention_heads :: nat
  num_key_value_heads :: nat
  swa_num_key_value_heads :: nat
  head_dim :: nat
  v_head_dim :: nat
  sliding_window :: nat
  partial_rotary_factor :: f32
  rope_theta :: f32
  swa_rope_theta :: f32
  attention_value_scale :: f32
  add_swa_attention_sink_bias :: bool
  layernorm_epsilon :: f32
  max_position_embeddings :: u64
  moe_intermediate_size :: nat
  n_routed_experts :: nat
  num_experts_per_tok :: nat
  norm_topk_prob :: bool
  bos_token_id :: u32
  eos_token_ids :: "u32 list"
  pad_token_id :: u32
  mask_token_id :: u32
  ga_layer_ids :: "nat list"
  dense_layer_ids :: "nat list"

definition config_real :: config where
  "config_real = \<lparr>vocab_size = 152576, hidden_size = 4096, intermediate_size = 16384, num_hidden_layers = 48,
     num_attention_heads = 64, num_key_value_heads = 4, swa_num_key_value_heads = 8, head_dim = 192,
     v_head_dim = 128, sliding_window = 128, partial_rotary_factor = 0x3EAB020C, rope_theta = 0x4B189680,
     swa_rope_theta = 0x461C4000, attention_value_scale = 0x3F34FDF4, add_swa_attention_sink_bias = True,
     layernorm_epsilon = 0x358637BD, max_position_embeddings = 1048576, moe_intermediate_size = 2048,
     n_routed_experts = 256, num_experts_per_tok = 8, norm_topk_prob = True, bos_token_id = 151643,
     eos_token_ids = [151643, 151645, 151672], pad_token_id = 151643, mask_token_id = 151675,
     ga_layer_ids = GA_LAYER_IDS, dense_layer_ids = DENSE_LAYER_IDS\<rparr>"

definition config_tiny :: config where
  "config_tiny = \<lparr>vocab_size = 128, hidden_size = 64, intermediate_size = 32, num_hidden_layers = 4,
     num_attention_heads = 8, num_key_value_heads = 2, swa_num_key_value_heads = 4, head_dim = 32,
     v_head_dim = 16, sliding_window = 4, partial_rotary_factor = 0x3F000000, rope_theta = 0x461C4000,
     swa_rope_theta = 0x461C4000, attention_value_scale = 0x3F34FDF4, add_swa_attention_sink_bias = True,
     layernorm_epsilon = 0x358637BD, max_position_embeddings = 256, moe_intermediate_size = 32,
     n_routed_experts = 8, num_experts_per_tok = 2, norm_topk_prob = True, bos_token_id = 151643,
     eos_token_ids = [151643, 151645, 151672], pad_token_id = 151643, mask_token_id = 151675,
     ga_layer_ids = [0], dense_layer_ids = [0]\<rparr>"

definition layer_kind_of :: "config \<Rightarrow> nat \<Rightarrow> layer_kind" where
  "layer_kind_of c i = (if i \<in> set (ga_layer_ids c) then Ga else Swa)"

definition is_moe_layer :: "config \<Rightarrow> nat \<Rightarrow> bool" where
  "is_moe_layer c i \<longleftrightarrow> i \<notin> set (dense_layer_ids c)"

definition n_ga :: "config \<Rightarrow> nat" where "n_ga c = length (ga_layer_ids c)"

definition n_swa :: "config \<Rightarrow> nat" where "n_swa c = num_hidden_layers c - length (ga_layer_ids c)"

definition attn_dims :: "config \<Rightarrow> layer_kind \<Rightarrow> nat \<times> nat \<times> nat \<times> nat" where
  "attn_dims c kind =
     (let kv = (case kind of Ga \<Rightarrow> num_key_value_heads c | Swa \<Rightarrow> swa_num_key_value_heads c);
          hd = head_dim c; vhd = v_head_dim c;
          q = num_attention_heads c * hd; k = kv * hd; v = kv * vhd; o_in = num_attention_heads c * vhd
      in (q, k, v, o_in))"

definition cfg_ga_kv_bytes_per_token :: "config \<Rightarrow> nat" where
  "cfg_ga_kv_bytes_per_token c = (case attn_dims c Ga of (_, k, v, _) \<Rightarrow> n_ga c * (k + v))"

definition cfg_swa_ring_bytes_per_seq :: "config \<Rightarrow> nat" where
  "cfg_swa_ring_bytes_per_seq c =
     (case attn_dims c Swa of (_, k, v, _) \<Rightarrow> n_swa c * (k + v) * sliding_window c)"

text \<open>The documented sizes: 11,520 bytes of global KV a token, and the ring of a sequence.\<close>

lemma config_real_bytes:
  "cfg_ga_kv_bytes_per_token config_real = 11520"
  "cfg_swa_ring_bytes_per_seq config_real = 39 * 8 * (192 + 128) * 128"
  by (simp_all add: cfg_ga_kv_bytes_per_token_def cfg_swa_ring_bytes_per_seq_def attn_dims_def config_real_def
      n_ga_def n_swa_def GA_LAYER_IDS_def)

end
