(* ===== verification/DeviceKv.thy ===== *)
theory DeviceKv
  imports DraftKv ModelConfig
begin

text \<open>
  \<open>DeviceKv\<close> of \<open>crates/mimo26-coordinator/src/dforward.rs\<close>: the KV cache of one request in device memory, one
  K, V and position buffer per layer. Global layers append and grow; sliding-window layers keep the rows a
  later query can see. An operation is an effect on the CUDA runtime and the cache: an error half way
  leaves the rows and buffers reached so far.
\<close>

definition SWA_SLACK_ROWS :: nat where "SWA_SLACK_ROWS = 64"
definition KV_PAGE_ROWS :: nat where "KV_PAGE_ROWS = 256"
definition KV_MARGIN_BYTES :: nat where "KV_MARGIN_BYTES = 512 * 2 ^ 20"

record layer_kv =
  lk_kind :: layer_kind
  row_k :: nat
  row_v :: nat
  lk_window :: nat
  lk_cap :: nat
  lk_rows :: nat
  lk_k :: bytes
  lk_v :: bytes
  lk_pos :: bytes

record device_kv =
  kv_layers :: "layer_kv list"
  kv_tokens :: nat
  kv_max_chunk :: nat
  kv_ga_cap0 :: nat
  kv_swa_cap0 :: nat
  kv_tmp :: bytes
  kv_draft :: "draft_kv option"

type_synonym ('g, 'a) kv_eff = "('g \<times> device_kv, 'a, kv_error) eff"

definition is_ga :: "layer_kv \<Rightarrow> bool" where "is_ga l \<longleftrightarrow> lk_kind l = Ga"
definition is_swa :: "layer_kv \<Rightarrow> bool" where "is_swa l \<longleftrightarrow> lk_kind l = Swa"

text \<open>\<open>window - 1\<close> wraps at zero.\<close>

definition before :: "nat \<Rightarrow> nat" where
  "before w = (if w = 0 then 2 ^ 64 - 1 else w - 1)"

text \<open>\<open>next_multiple_of\<close>: \<open>self + (rhs - self % rhs)\<close>, which wraps in the release build, unless the remainder is zero.\<close>

definition next_multiple :: "nat \<Rightarrow> nat \<Rightarrow> nat" where
  "next_multiple n m = (if n mod m = 0 then n else usize_add n (m - n mod m))"

text \<open>\<open>n.div_ceil(64) * 64\<close>: the quotient cannot overflow, the product wraps.\<close>

definition up_to_64 :: "nat \<Rightarrow> nat" where
  "up_to_64 n = usize_mul ((n + 63) div 64) 64"

text \<open>An effect on the runtime and one layer.\<close>

definition with_layer :: "nat \<Rightarrow> ('g \<times> layer_kv, 'a, kv_error) eff \<Rightarrow> ('g, 'a) kv_eff" where
  "with_layer i m = (\<lambda>(g, kv).
     if i < length (kv_layers kv)
     then (case m (g, kv_layers kv ! i) of (r, (g', l)) \<Rightarrow> (r, (g', kv\<lparr>kv_layers := (kv_layers kv)[i := l]\<rparr>)))
     else (Panic, (g, kv)))"

text \<open>
  \<open>for l in self.layers.iter_mut().filter(P) { body }\<close>, with the offset \<open>off\<close> some bodies advance by \<open>f\<close> of
  the layer they were at. The filter looks at a layer when the loop reaches it.
\<close>

fun layer_loop :: "(layer_kv \<Rightarrow> bool) \<Rightarrow> (layer_kv \<Rightarrow> nat) \<Rightarrow> (nat \<Rightarrow> nat \<Rightarrow> ('g, unit) kv_eff) \<Rightarrow> nat \<Rightarrow> nat list \<Rightarrow> ('g, unit) kv_eff" where
  "layer_loop P f body off [] = eret ()"
| "layer_loop P f body off (i # is) = ebind (eget snd) (\<lambda>kv.
     if P (kv_layers kv ! i) then ethen (body off i) (layer_loop P f body (off + f (kv_layers kv ! i)) is)
     else layer_loop P f body off is)"

definition for_layers :: "(layer_kv \<Rightarrow> bool) \<Rightarrow> (layer_kv \<Rightarrow> nat) \<Rightarrow> (nat \<Rightarrow> nat \<Rightarrow> ('g, unit) kv_eff) \<Rightarrow> ('g, unit) kv_eff" where
  "for_layers P f body = ebind (eget snd) (\<lambda>kv. layer_loop P f body 0 [0..<length (kv_layers kv)])"

datatype plane = PlaneK | PlaneV | PlanePos

fun plane_buf :: "plane \<Rightarrow> layer_kv \<Rightarrow> bytes" where
  "plane_buf PlaneK l = lk_k l"
| "plane_buf PlaneV l = lk_v l"
| "plane_buf PlanePos l = lk_pos l"

fun plane_row :: "plane \<Rightarrow> layer_kv \<Rightarrow> nat" where
  "plane_row PlaneK l = row_k l"
| "plane_row PlaneV l = row_v l"
| "plane_row PlanePos l = 8"

fun set_plane :: "plane \<Rightarrow> bytes \<Rightarrow> layer_kv \<Rightarrow> layer_kv" where
  "set_plane PlaneK b l = l\<lparr>lk_k := b\<rparr>"
| "set_plane PlaneV b l = l\<lparr>lk_v := b\<rparr>"
| "set_plane PlanePos b l = l\<lparr>lk_pos := b\<rparr>"

text \<open>\<open>ck(cudaMemcpy(..), what)?\<close> into a plane of a layer, and into a buffer not yet installed.\<close>

definition copy_in :: "'g cuda \<Rightarrow> string \<Rightarrow> plane \<Rightarrow> nat \<Rightarrow> bytes \<Rightarrow> nat \<Rightarrow> nat \<Rightarrow> ('g \<times> layer_kv, unit, kv_error) eff" where
  "copy_in cu what p doff src soff n =
     ebind (eget snd) (\<lambda>l.
     ebind (on_fst (copy_bytes cu (plane_buf p l) doff src soff n)) (\<lambda>(rc, b).
     ethen (emodify (\<lambda>(g, l). (g, set_plane p b l))) (check_rc (CudaFailed what) rc)))"

definition copy_new :: "'g cuda \<Rightarrow> string \<Rightarrow> bytes \<Rightarrow> bytes \<Rightarrow> nat \<Rightarrow> nat \<Rightarrow> ('g, bytes, kv_error) eff" where
  "copy_new cu what dst src soff n =
     ebind (copy_bytes cu dst 0 src soff n) (\<lambda>(rc, b). ethen (check_rc (CudaFailed what) rc) (eret b))"

subsection \<open>Construction, sizes and counters\<close>

definition new_layer :: "'g cuda \<Rightarrow> config \<Rightarrow> nat \<Rightarrow> nat \<Rightarrow> ('g, layer_kv, kv_error) eff" where
  "new_layer cu c ga_cap layer =
     (let kind = layer_kind_of c layer;
          n_kv = (case kind of Ga \<Rightarrow> num_key_value_heads c | Swa \<Rightarrow> swa_num_key_value_heads c);
          rk = usize_mul n_kv (head_dim c); rv = usize_mul n_kv (v_head_dim c);
          (window, cap) = (case kind of Ga \<Rightarrow> (0, ga_cap)
            | Swa \<Rightarrow> (sliding_window c, usize_add (before (sliding_window c)) SWA_SLACK_ROWS))
      in ebind (buf_alloc cu AllocFailed (usize_mul cap rk)) (\<lambda>k.
         ebind (buf_alloc cu AllocFailed (usize_mul cap rv)) (\<lambda>v.
         ebind (buf_alloc cu AllocFailed (usize_mul cap 8)) (\<lambda>p.
         eret \<lparr>lk_kind = kind, row_k = rk, row_v = rv, lk_window = window, lk_cap = cap, lk_rows = 0,
               lk_k = k, lk_v = v, lk_pos = p\<rparr>))))"

primrec new_layers :: "'g cuda \<Rightarrow> config \<Rightarrow> nat \<Rightarrow> nat list \<Rightarrow> ('g, layer_kv list, kv_error) eff" where
  "new_layers cu c ga_cap [] = eret []"
| "new_layers cu c ga_cap (i # is) =
     ebind (new_layer cu c ga_cap i) (\<lambda>l. ebind (new_layers cu c ga_cap is) (\<lambda>ls. eret (l # ls)))"

definition tmp_need :: "layer_kv list \<Rightarrow> nat" where
  "tmp_need ls = foldl (\<lambda>need l. if is_swa l
     then max need (usize_mul (before (lk_window l)) (max (max (row_k l) (row_v l)) 8)) else need) 256 ls"

definition kv_new :: "'g cuda \<Rightarrow> config \<Rightarrow> nat \<Rightarrow> nat \<Rightarrow> ('g, device_kv, kv_error) eff" where
  "kv_new cu c ga_cap max_chunk =
     ebind (new_layers cu c ga_cap [0..<num_hidden_layers c]) (\<lambda>ls.
     ebind (buf_alloc cu AllocFailed (tmp_need ls)) (\<lambda>tmp.
     eret \<lparr>kv_layers = ls, kv_tokens = 0, kv_max_chunk = max_chunk, kv_ga_cap0 = ga_cap,
           kv_swa_cap0 = usize_add (before (sliding_window c)) SWA_SLACK_ROWS, kv_tmp = tmp, kv_draft = None\<rparr>))"

definition attach_draft :: "'g cuda \<Rightarrow> bool \<Rightarrow> ('g, unit) kv_eff" where
  "attach_draft cu has_dflash = ebind (eget (\<lambda>(g, kv). kv_draft kv)) (\<lambda>d.
     if has_dflash \<and> d = None
     then ebind (on_fst (draft_new cu)) (\<lambda>d. emodify (\<lambda>(g, kv). (g, kv\<lparr>kv_draft := Some d\<rparr>)))
     else eret ())"

definition new_kv :: "'g cuda \<Rightarrow> config \<Rightarrow> bool \<Rightarrow> nat \<Rightarrow> nat \<Rightarrow> ('g, device_kv, kv_error) eff" where
  "new_kv cu c has_dflash max_chunk ga_cap = ebind (kv_new cu c ga_cap max_chunk) (\<lambda>kv g.
     case attach_draft cu has_dflash (g, kv) of
       (Ok _, (g', kv')) \<Rightarrow> (Ok kv', g') | (Err e, (g', _)) \<Rightarrow> (Err e, g') | (Panic, (g', _)) \<Rightarrow> (Panic, g'))"

definition kv_reset :: "device_kv \<Rightarrow> device_kv" where
  "kv_reset kv = kv\<lparr>kv_layers := map (\<lambda>l. l\<lparr>lk_rows := 0\<rparr>) (kv_layers kv), kv_tokens := 0\<rparr>"

definition kv_set_tokens :: "nat \<Rightarrow> device_kv \<Rightarrow> device_kv" where
  "kv_set_tokens n kv = kv\<lparr>kv_tokens := n\<rparr>"

definition kv_truncate :: "nat \<Rightarrow> ('g, unit) kv_eff" where
  "kv_truncate to = ebind (eget snd) (\<lambda>kv.
     if kv_tokens kv < to then efail (TruncatePast to (kv_tokens kv))
     else let n = kv_tokens kv - to in
       ethen (for_layers (\<lambda>_. True) (\<lambda>_. 0) (\<lambda>_ i. with_layer i (ebind (eget snd) (\<lambda>l.
           if lk_rows l < n then efail (TruncateLayer i (lk_rows l) n)
           else emodify (\<lambda>(g, l). (g, l\<lparr>lk_rows := lk_rows l - n\<rparr>))))))
         (emodify (\<lambda>(g, kv). (g, kv\<lparr>kv_tokens := to\<rparr>))))"

definition ga_layers :: "device_kv \<Rightarrow> layer_kv list" where "ga_layers kv = filter is_ga (kv_layers kv)"
definition swa_layers :: "device_kv \<Rightarrow> layer_kv list" where "swa_layers kv = filter is_swa (kv_layers kv)"

definition ga_token_bytes :: "device_kv \<Rightarrow> nat" where
  "ga_token_bytes kv = (\<Sum>l\<leftarrow>ga_layers kv. row_k l + row_v l + 8)"

definition swa_prefill_bytes :: "device_kv \<Rightarrow> nat" where
  "swa_prefill_bytes kv = (\<Sum>l\<leftarrow>swa_layers kv. kv_max_chunk kv * (row_k l + row_v l + 8))"

definition ga_capacity :: "device_kv \<Rightarrow> nat" where
  "ga_capacity kv = (case ga_layers kv of [] \<Rightarrow> 0 | l # _ \<Rightarrow> lk_cap l)"

definition page_stride :: "layer_kv \<Rightarrow> nat" where
  "page_stride l = KV_PAGE_ROWS * (row_k l + row_v l)"

definition kv_ga_page_bytes :: "device_kv \<Rightarrow> nat" where
  "kv_ga_page_bytes kv = (\<Sum>l\<leftarrow>ga_layers kv. page_stride l)"

definition swa_keep_max :: "device_kv \<Rightarrow> nat" where
  "swa_keep_max kv = (case swa_layers kv of [] \<Rightarrow> 0 | l # _ \<Rightarrow> before (lk_window l))"

definition swa_stride :: "nat \<Rightarrow> layer_kv \<Rightarrow> nat" where
  "swa_stride keep l = keep * (row_k l + row_v l + 8)"

definition swa_state_bytes :: "device_kv \<Rightarrow> nat" where
  "swa_state_bytes kv = (\<Sum>l\<leftarrow>swa_layers kv. swa_stride (swa_keep_max kv) l)"

definition draft_state_bytes :: "device_kv \<Rightarrow> nat" where
  "draft_state_bytes kv = (case kv_draft kv of None \<Rightarrow> 0 | Some _ \<Rightarrow> draft_bytes)"

definition kv_state_bytes :: "device_kv \<Rightarrow> nat" where
  "kv_state_bytes kv = swa_state_bytes kv + draft_state_bytes kv"

definition ga_grow_transient :: "device_kv \<Rightarrow> nat \<Rightarrow> nat" where
  "ga_grow_transient kv n_rows =
     (let cap = ga_capacity kv in
      if n_rows \<le> cap then 0
      else (case ga_layers kv of [] \<Rightarrow> 0 | l # _ \<Rightarrow> cap * (row_k l + row_v l + 8)))"

subsection \<open>Growing, shrinking and making room\<close>

definition regrow :: "'g cuda \<Rightarrow> string \<Rightarrow> nat \<Rightarrow> nat \<Rightarrow> nat \<Rightarrow> ('g \<times> layer_kv, unit, kv_error) eff" where
  "regrow cu what start n cap = ebind (eget snd) (\<lambda>l.
     ebind (on_fst (buf_alloc cu AllocFailed (usize_mul cap (row_k l)))) (\<lambda>k.
     ebind (on_fst (buf_alloc cu AllocFailed (usize_mul cap (row_v l)))) (\<lambda>v.
     ebind (on_fst (buf_alloc cu AllocFailed (usize_mul cap 8))) (\<lambda>p.
     ebind (on_fst (copy_new cu (what @ '' k'') k (lk_k l) (start * row_k l) (n * row_k l))) (\<lambda>k.
     ebind (on_fst (copy_new cu (what @ '' v'') v (lk_v l) (start * row_v l) (n * row_v l))) (\<lambda>v.
     ebind (on_fst (copy_new cu (what @ '' pos'') p (lk_pos l) (start * 8) (n * 8))) (\<lambda>p.
     emodify (\<lambda>(g, l). (g, l\<lparr>lk_k := k, lk_v := v, lk_pos := p, lk_cap := cap, lk_rows := n\<rparr>)))))))))"

definition grow_swa :: "'g cuda \<Rightarrow> nat \<Rightarrow> nat \<Rightarrow> ('g, unit) kv_eff" where
  "grow_swa cu i cap = with_layer i (ebind (eget snd) (\<lambda>l. regrow cu ''swa grow'' 0 (lk_rows l) cap))"

definition grow_ga :: "'g cuda \<Rightarrow> nat \<Rightarrow> nat \<Rightarrow> ('g, unit) kv_eff" where
  "grow_ga cu i cap = with_layer i (ebind (eget snd) (\<lambda>l. regrow cu ''ga grow'' 0 (lk_rows l) cap))"

definition shrink_swa :: "'g cuda \<Rightarrow> ('g, unit) kv_eff" where
  "shrink_swa cu = ebind (eget snd) (\<lambda>kv.
     let cap0 = kv_swa_cap0 kv in
     for_layers (\<lambda>l. is_swa l \<and> lk_cap l > cap0) (\<lambda>_. 0) (\<lambda>_ i. with_layer i (ebind (eget snd) (\<lambda>l.
         let keep = min (lk_rows l) (before (lk_window l)); start = lk_rows l - keep
         in regrow cu ''swa shrink'' start keep cap0))))"

definition shrink_ga_layer :: "'g cuda \<Rightarrow> nat \<Rightarrow> ('g \<times> layer_kv, unit, kv_error) eff" where
  "shrink_ga_layer cu cap0 = ebind (eget snd) (\<lambda>l.
     ebind (on_fst (buf_alloc cu AllocFailed (usize_mul cap0 (row_k l)))) (\<lambda>k.
     ethen (emodify (\<lambda>(g, l). (g, l\<lparr>lk_k := k\<rparr>)))
     (ebind (on_fst (buf_alloc cu AllocFailed (usize_mul cap0 (row_v l)))) (\<lambda>v.
     ethen (emodify (\<lambda>(g, l). (g, l\<lparr>lk_v := v\<rparr>)))
     (ebind (on_fst (buf_alloc cu AllocFailed (usize_mul cap0 8))) (\<lambda>p.
     emodify (\<lambda>(g, l). (g, l\<lparr>lk_pos := p, lk_cap := cap0\<rparr>))))))))"

definition shrink_ga :: "'g cuda \<Rightarrow> ('g, unit) kv_eff" where
  "shrink_ga cu = ethen (emodify (\<lambda>(g, kv). (g, kv_reset kv))) (ebind (eget snd) (\<lambda>kv.
     for_layers (\<lambda>l. is_ga l \<and> lk_cap l > kv_ga_cap0 kv) (\<lambda>_. 0)
       (\<lambda>_ i. with_layer i (shrink_ga_layer cu (kv_ga_cap0 kv)))))"

text \<open>The two copies of a compaction, through the cache's \<open>tmp\<close> buffer.\<close>

definition compact_plane :: "'g cuda \<Rightarrow> nat \<Rightarrow> nat \<Rightarrow> nat \<Rightarrow> plane \<Rightarrow> ('g, unit) kv_eff" where
  "compact_plane cu i start keep p = ebind (eget snd) (\<lambda>kv.
     let l = kv_layers kv ! i; rb = plane_row p l in
     ebind (on_fst (copy_bytes cu (kv_tmp kv) 0 (plane_buf p l) (start * rb) (keep * rb))) (\<lambda>(rc, tmp).
     ethen (emodify (\<lambda>(g, kv). (g, kv\<lparr>kv_tmp := tmp\<rparr>)))
    (ethen (check_rc (CudaFailed ''swa compact 1'') rc)
     (with_layer i (copy_in cu ''swa compact 2'' p 0 tmp 0 (keep * rb))))))"

definition prepare :: "'g cuda \<Rightarrow> nat \<Rightarrow> nat \<Rightarrow> ('g, unit) kv_eff" where
  "prepare cu i t = ebind (eget snd) (\<lambda>kv.
     if i \<ge> length (kv_layers kv) then epanic
     else let l = kv_layers kv ! i in
       if usize_add (lk_rows l) t \<le> lk_cap l then eret ()
       else (case lk_kind l of
         Swa \<Rightarrow>
           (let keep = min (lk_rows l) (before (lk_window l)); start = lk_rows l - keep in
            ethen (efor (compact_plane cu i start keep) [PlaneK, PlaneV, PlanePos])
           (ethen (with_layer i (emodify (\<lambda>(g, l). (g, l\<lparr>lk_rows := keep\<rparr>))))
            (if usize_add keep t > lk_cap l then grow_swa cu i (up_to_64 (usize_add keep t)) else eret ())))
       | Ga \<Rightarrow> grow_ga cu i (max (usize_add (lk_cap l) (max (lk_cap l div 8) 4096)) (usize_add (lk_rows l) t))))"

text \<open>
  The append of \<open>attn\<close>: room is made, the kernel writes the codes of \<open>t\<close> rows and their positions behind the
  live rows (\<open>ks\<close>, \<open>vs\<close>, \<open>ps\<close> are what it writes), and the rows become live.
\<close>

definition append_rows :: "'g cuda \<Rightarrow> nat \<Rightarrow> nat \<Rightarrow> bytes \<Rightarrow> bytes \<Rightarrow> bytes \<Rightarrow> ('g, unit) kv_eff" where
  "append_rows cu i t ks vs ps = ethen (prepare cu i t) (with_layer i (ebind (eget snd) (\<lambda>l.
     let row0 = lk_rows l in
     if row0 * row_k l + length ks > length (lk_k l) \<or> row0 * row_v l + length vs > length (lk_v l) \<or>
        row0 * 8 + length ps > length (lk_pos l) then epanic
     else ethen (emodify (\<lambda>(g, l). (g, l\<lparr>lk_k := put_bytes (row0 * row_k l) ks (lk_k l),
              lk_v := put_bytes (row0 * row_v l) vs (lk_v l), lk_pos := put_bytes (row0 * 8) ps (lk_pos l)\<rparr>)))
         (ebind (on_fst (\<lambda>g. case cuda_launch cu g of (rc, g') \<Rightarrow> (Ok rc, g'))) (\<lambda>rc.
          ethen (check_rc (CudaFailed ''attn prep'') rc)
          (emodify (\<lambda>(g, l). (g, l\<lparr>lk_rows := lk_rows l + t\<rparr>))))))))"

definition reserve_ga :: "'g cuda \<Rightarrow> nat \<Rightarrow> ('g, unit) kv_eff" where
  "reserve_ga cu n = for_layers (\<lambda>l. is_ga l \<and> lk_cap l < n) (\<lambda>_. 0) (\<lambda>_ i. grow_ga cu i (next_multiple n 4096))"

definition reserve_swa :: "'g cuda \<Rightarrow> ('g, unit) kv_eff" where
  "reserve_swa cu = ebind (eget snd) (\<lambda>kv.
     let cap = up_to_64 (usize_add (swa_keep_max kv) (kv_max_chunk kv)) in
     for_layers (\<lambda>l. is_swa l \<and> lk_cap l < cap) (\<lambda>_. 0) (\<lambda>_ i. grow_swa cu i cap))"

end
