(* ===== verification/KvMoves.thy ===== *)
theory KvMoves
  imports DeviceKv
begin

text \<open>
  The moves of \<open>DeviceKv\<close> (\<open>dforward.rs\<close>): pages of global rows to and from host memory, the position state
  (sliding-window rows, then draft rings) to and from a snapshot, rewinding and forking a cache.
  Exports read the cache and write a buffer; imports write the cache.
\<close>

subsection \<open>Pages of global rows\<close>

fun export_ga_layers :: "'g cuda \<Rightarrow> nat \<Rightarrow> nat \<Rightarrow> nat \<Rightarrow> layer_kv list \<Rightarrow> ('g \<times> bytes, unit, kv_error) eff" where
  "export_ga_layers cu r0 n off [] = eret ()"
| "export_ga_layers cu r0 n off (l # ls) =
     (if usize_add r0 n > lk_rows l then efail (ExportPast r0 n (lk_rows l))
      else ethen (copy_out cu ''export ga k'' off (lk_k l) (usize_mul r0 (row_k l)) (n * row_k l))
          (ethen (copy_out cu ''export ga v'' (off + KV_PAGE_ROWS * row_k l) (lk_v l) (usize_mul r0 (row_v l)) (n * row_v l))
                 (export_ga_layers cu r0 n (off + page_stride l) ls)))"

definition export_ga_page :: "'g cuda \<Rightarrow> device_kv \<Rightarrow> nat \<Rightarrow> nat \<Rightarrow> ('g \<times> bytes, unit, kv_error) eff" where
  "export_ga_page cu kv r0 n = ebind (eget snd) (\<lambda>page.
     if n > KV_PAGE_ROWS \<or> length page < kv_ga_page_bytes kv then efail (ExportPage n (length page))
     else export_ga_layers cu r0 n 0 (ga_layers kv))"

definition import_ga_layer :: "'g cuda \<Rightarrow> nat \<Rightarrow> bytes \<Rightarrow> nat \<Rightarrow> nat \<Rightarrow> ('g, unit) kv_eff" where
  "import_ga_layer cu n page off i = ethen (prepare cu i n) (with_layer i (ebind (eget snd) (\<lambda>l.
     let r0 = lk_rows l in
     ethen (copy_in cu ''import ga k'' PlaneK (r0 * row_k l) page off (n * row_k l))
    (ethen (copy_in cu ''import ga v'' PlaneV (r0 * row_v l) page (off + KV_PAGE_ROWS * row_k l) (n * row_v l))
           (emodify (\<lambda>(g, l). (g, l\<lparr>lk_rows := lk_rows l + n\<rparr>)))))))"

definition import_ga_page :: "'g cuda \<Rightarrow> nat \<Rightarrow> bytes \<Rightarrow> ('g, unit) kv_eff" where
  "import_ga_page cu n page = ebind (eget snd) (\<lambda>kv.
     if n > KV_PAGE_ROWS \<or> length page < kv_ga_page_bytes kv then efail (ImportPage n (length page))
     else for_layers is_ga page_stride (import_ga_layer cu n page))"

text \<open>\<open>m26c_iota_i64(pos, 0, rows)\<close>: position \<open>r\<close> for row \<open>r\<close>, little endian.\<close>

definition iota_pos :: "nat \<Rightarrow> bytes" where
  "iota_pos n = concat (map (le_bytes 8) [0..<n])"

definition write_iota :: "'g cuda \<Rightarrow> ('g \<times> layer_kv, unit, kv_error) eff" where
  "write_iota cu = ebind (eget snd) (\<lambda>l.
     if lk_rows l * 8 > length (lk_pos l) then epanic
     else ebind (on_fst (\<lambda>g. case cuda_launch cu g of (rc, g') \<Rightarrow> (Ok rc, g'))) (\<lambda>rc.
       ethen (emodify (\<lambda>(g, l). (g, l\<lparr>lk_pos := put_bytes 0 (iota_pos (lk_rows l)) (lk_pos l)\<rparr>)))
             (check_rc (CudaFailed ''ga positions'') rc)))"

definition device_sync :: "'g cuda \<Rightarrow> string \<Rightarrow> ('g, unit, kv_error) eff" where
  "device_sync cu what = (\<lambda>g. case cuda_synchronize cu g of (rc, g') \<Rightarrow> check_rc (CudaFailed what) rc g')"

definition finish_ga_import :: "'g cuda \<Rightarrow> ('g, unit) kv_eff" where
  "finish_ga_import cu =
     ethen (for_layers is_ga (\<lambda>_. 0) (\<lambda>_ i. with_layer i (write_iota cu)))
           (on_fst (device_sync cu ''ga import sync''))"

definition sync_export :: "'g cuda \<Rightarrow> ('g, unit, kv_error) eff" where
  "sync_export cu = device_sync cu ''ga export sync''"

subsection \<open>The position state\<close>

text \<open>\<open>export_swa\<close> and the first part of \<open>save_state_dev\<close> copy the same rows; \<open>what\<close> is the label of their errors.\<close>

fun export_swa_layers ::
  "'g cuda \<Rightarrow> string \<Rightarrow> nat \<Rightarrow> nat option \<Rightarrow> nat \<Rightarrow> layer_kv list \<Rightarrow> ('g \<times> bytes, nat option, kv_error) eff" where
  "export_swa_layers cu what keep_max seen off [] = eret seen"
| "export_swa_layers cu what keep_max seen off (l # ls) =
     (let keep = min (lk_rows l) keep_max; first = (case seen of None \<Rightarrow> keep | Some k \<Rightarrow> k) in
      if first \<noteq> keep then efail (SwaDisagree what)
      else let r0 = lk_rows l - keep; vo = off + keep_max * row_k l; po = vo + keep_max * row_v l in
        ethen (copy_out cu (what @ '' k'') off (lk_k l) (r0 * row_k l) (keep * row_k l))
       (ethen (copy_out cu (what @ '' v'') vo (lk_v l) (r0 * row_v l) (keep * row_v l))
       (ethen (copy_out cu (what @ '' pos'') po (lk_pos l) (r0 * 8) (keep * 8))
              (export_swa_layers cu what keep_max (Some first) (off + swa_stride keep_max l) ls))))"

definition seen_rows :: "nat option \<Rightarrow> nat" where
  "seen_rows seen = (case seen of None \<Rightarrow> 0 | Some k \<Rightarrow> k)"

definition export_swa :: "'g cuda \<Rightarrow> device_kv \<Rightarrow> ('g \<times> bytes, nat, kv_error) eff" where
  "export_swa cu kv = ebind (eget snd) (\<lambda>dst.
     if length dst < swa_state_bytes kv then efail (ShortBuffer ''export_swa'')
     else ebind (export_swa_layers cu ''export swa'' (swa_keep_max kv) None 0 (swa_layers kv))
       (\<lambda>seen. eret (seen_rows seen)))"

definition save_state_dev :: "'g cuda \<Rightarrow> device_kv \<Rightarrow> ('g \<times> bytes, nat, kv_error) eff" where
  "save_state_dev cu kv = ebind (eget snd) (\<lambda>dst.
     if length dst < kv_state_bytes kv then efail (ShortBuffer ''save_state_dev'')
     else ebind (export_swa_layers cu ''save swa'' (swa_keep_max kv) None 0 (swa_layers kv)) (\<lambda>seen.
       ethen (case kv_draft kv of None \<Rightarrow> eret () | Some d \<Rightarrow> draft_save_dev cu d (swa_state_bytes kv))
             (eret (seen_rows seen))))"

definition import_swa_layer :: "'g cuda \<Rightarrow> string \<Rightarrow> nat \<Rightarrow> nat \<Rightarrow> bytes \<Rightarrow> nat \<Rightarrow> nat \<Rightarrow> ('g, unit) kv_eff" where
  "import_swa_layer cu what keep_max n src off i = with_layer i (ebind (eget snd) (\<lambda>l.
     let vo = off + keep_max * row_k l; po = vo + keep_max * row_v l in
     ethen (copy_in cu (what @ '' k'') PlaneK 0 src off (n * row_k l))
    (ethen (copy_in cu (what @ '' v'') PlaneV 0 src vo (n * row_v l))
    (ethen (copy_in cu (what @ '' pos'') PlanePos 0 src po (n * 8))
           (emodify (\<lambda>(g, l). (g, l\<lparr>lk_rows := n\<rparr>)))))))"

definition import_swa :: "'g cuda \<Rightarrow> nat \<Rightarrow> bytes \<Rightarrow> ('g, unit) kv_eff" where
  "import_swa cu n src = ebind (eget snd) (\<lambda>kv.
     if n > swa_keep_max kv \<or> length src < swa_state_bytes kv then efail (SwaRows ''import_swa'' n (length src))
     else for_layers is_swa (swa_stride (swa_keep_max kv)) (import_swa_layer cu ''import swa'' (swa_keep_max kv) n src))"

text \<open>An effect on the draft rings, when there are any.\<close>

definition with_draft :: "('g \<times> draft_kv, unit, kv_error) eff \<Rightarrow> ('g, unit) kv_eff" where
  "with_draft m = (\<lambda>(g, kv). case kv_draft kv of
       None \<Rightarrow> (Ok (), (g, kv))
     | Some d \<Rightarrow> (case m (g, d) of (r, (g', d')) \<Rightarrow> (r, (g', kv\<lparr>kv_draft := Some d'\<rparr>))))"

definition load_state_dev :: "'g cuda \<Rightarrow> bytes \<Rightarrow> nat \<Rightarrow> ('g, unit) kv_eff" where
  "load_state_dev cu src n = ebind (eget snd) (\<lambda>kv.
     if n > swa_keep_max kv \<or> length src < kv_state_bytes kv then efail (SwaRows ''load_state_dev'' n (length src))
     else ethen (for_layers is_swa (swa_stride (swa_keep_max kv)) (import_swa_layer cu ''load swa'' (swa_keep_max kv) n src))
                (with_draft (draft_load_dev cu src (swa_state_bytes kv))))"

definition export_draft :: "'g cuda \<Rightarrow> device_kv \<Rightarrow> ('g \<times> bytes, unit, kv_error) eff" where
  "export_draft cu kv = (case kv_draft kv of None \<Rightarrow> eret () | Some d \<Rightarrow> draft_export cu d)"

definition import_draft :: "'g cuda \<Rightarrow> bytes \<Rightarrow> ('g, unit) kv_eff" where
  "import_draft cu src = with_draft (draft_import cu src)"

subsection \<open>Rewinding and forking\<close>

definition rewind_ga :: "nat \<Rightarrow> ('g, unit) kv_eff" where
  "rewind_ga p =
     ethen (for_layers is_ga (\<lambda>_. 0) (\<lambda>_ i. with_layer i (ebind (eget snd) (\<lambda>l.
         if p > lk_rows l then efail (RewindPast p (lk_rows l))
         else emodify (\<lambda>(g, l). (g, l\<lparr>lk_rows := p\<rparr>))))))
       (emodify (\<lambda>(g, kv). (g, kv\<lparr>kv_tokens := p\<rparr>)))"

definition fork_layer :: "'g cuda \<Rightarrow> nat \<Rightarrow> layer_kv \<Rightarrow> ('g \<times> layer_kv, unit, kv_error) eff" where
  "fork_layer cu n s = ebind (eget snd) (\<lambda>d.
     if n > lk_rows s \<or> n > lk_cap d then efail (ForkInto n (lk_rows s) (lk_cap d))
     else ethen (copy_in cu ''fork ga k'' PlaneK 0 (lk_k s) 0 (n * row_k d))
         (ethen (copy_in cu ''fork ga v'' PlaneV 0 (lk_v s) 0 (n * row_v d))
         (ethen (copy_in cu ''fork ga pos'' PlanePos 0 (lk_pos s) 0 (n * 8))
                (emodify (\<lambda>(g, l). (g, l\<lparr>lk_rows := n\<rparr>))))))"

definition fork_ga :: "'g cuda \<Rightarrow> device_kv \<Rightarrow> nat \<Rightarrow> ('g, unit) kv_eff" where
  "fork_ga cu src n = ethen (reserve_ga cu n) (ebind (eget snd) (\<lambda>kv.
     ethen (layer_loop is_ga (\<lambda>_. 0) (\<lambda>_ i. with_layer i (fork_layer cu n (kv_layers src ! i))) 0
         [0..<min (length (kv_layers kv)) (length (kv_layers src))])
       (emodify (\<lambda>(g, kv). (g, kv\<lparr>kv_tokens := n\<rparr>)))))"

end
