(* ===== verification/KvLayers.thy ===== *)
theory KvLayers
  imports KvMoves
begin

text \<open>
  What the operations on one layer of the device cache do to its buffers and live rows, and the invariant
  of the cache: every buffer has exactly the bytes of its capacity, the live rows fit, every sliding-window
  layer has room for a window and the compaction buffer holds one. Capacities and row sizes stay below bounds
  at which no product of the two wraps.
\<close>

subsection \<open>Well-formed layers and caches\<close>

definition live :: "plane \<Rightarrow> layer_kv \<Rightarrow> bytes" where
  "live p l = take (lk_rows l * plane_row p l) (plane_buf p l)"

text \<open>The bounds: the rows a caller asks for, the rows a layer grows to for them, and the bytes of a row.\<close>

definition row_max :: nat where "row_max = 2 ^ 40"
definition cap_max :: nat where "cap_max = 2 ^ 42"
definition width_max :: nat where "width_max = 2 ^ 20"

definition sized :: "layer_kv \<Rightarrow> bool" where
  "sized l \<longleftrightarrow> lk_cap l \<le> cap_max \<and> row_k l \<le> width_max \<and> row_v l \<le> width_max"

lemma sized_update [simp]:
  "sized (l\<lparr>lk_rows := n\<rparr>) = sized l" "sized (l\<lparr>lk_k := b\<rparr>) = sized l" "sized (l\<lparr>lk_v := b\<rparr>) = sized l"
  "sized (l\<lparr>lk_pos := b\<rparr>) = sized l" "sized (set_plane p b l) = sized l"
  by (simp_all add: sized_def) (cases p; simp)

lemma small_product: "a \<le> cap_max \<Longrightarrow> b \<le> width_max \<Longrightarrow> usize_mul a b = a * b"
proof -
  assume "a \<le> cap_max" "b \<le> width_max"
  then have "a * b \<le> cap_max * width_max" by (rule mult_le_mono)
  then show ?thesis by (intro usize_mul_no_wrap) (simp add: cap_max_def width_max_def)
qed

lemma sized_row:
  assumes "sized l" "n \<le> cap_max"
  shows "usize_mul n (row_k l) = n * row_k l" "usize_mul n (row_v l) = n * row_v l" "usize_mul n 8 = n * 8"
  using assms small_product by (simp_all add: sized_def width_max_def)

definition layer_ok :: "layer_kv \<Rightarrow> bool" where
  "layer_ok l \<longleftrightarrow> lk_rows l \<le> lk_cap l \<and> (\<forall>p. length (plane_buf p l) = lk_cap l * plane_row p l) \<and> sized l"

definition geom :: "layer_kv \<Rightarrow> layer_kind \<times> nat \<times> nat \<times> nat" where
  "geom l = (lk_kind l, row_k l, row_v l, lk_window l)"

definition kv_shape :: "device_kv \<Rightarrow> (layer_kind \<times> nat \<times> nat \<times> nat) list" where
  "kv_shape kv = map geom (kv_layers kv)"

definition swa_room :: "nat \<Rightarrow> nat \<Rightarrow> layer_kv \<Rightarrow> bool" where
  "swa_room W tmp l \<longleftrightarrow> (is_swa l \<longrightarrow>
     lk_window l = W \<and> W - 1 + SWA_SLACK_ROWS \<le> lk_cap l \<and> (\<forall>p. (W - 1) * plane_row p l \<le> tmp))"

definition kv_ok :: "nat \<Rightarrow> device_kv \<Rightarrow> bool" where
  "kv_ok W kv \<longleftrightarrow> 0 < W \<and> W \<le> row_max \<and> kv_max_chunk kv \<le> row_max \<and> kv_ga_cap0 kv \<le> cap_max \<and>
     kv_swa_cap0 kv = W - 1 + SWA_SLACK_ROWS \<and>
     (\<forall>l \<in> set (kv_layers kv). layer_ok l \<and> swa_room W (length (kv_tmp kv)) l) \<and>
     (\<forall>d. kv_draft kv = Some d \<longrightarrow> draft_ok d)"

lemma geom_eqD:
  "geom l' = geom l \<Longrightarrow> lk_kind l' = lk_kind l \<and> row_k l' = row_k l \<and> row_v l' = row_v l \<and> lk_window l' = lk_window l"
  by (simp add: geom_def)

lemma geom_plane_row: "geom l' = geom l \<Longrightarrow> plane_row p l' = plane_row p l"
  by (cases p) (simp_all add: geom_def)

lemma geom_is: "geom l' = geom l \<Longrightarrow> is_swa l' = is_swa l" "geom l' = geom l \<Longrightarrow> is_ga l' = is_ga l"
  by (simp_all add: geom_def is_swa_def is_ga_def)

lemma not_ga: "\<not> is_ga l \<longleftrightarrow> is_swa l"
  by (cases "lk_kind l") (simp_all add: is_ga_def is_swa_def)

lemma geom_set_plane [simp]: "geom (set_plane p b l) = geom l"
  by (cases p) (simp_all add: geom_def set_plane.simps)

lemma set_plane_fields [simp]:
  "lk_rows (set_plane p b l) = lk_rows l" "lk_cap (set_plane p b l) = lk_cap l" "lk_kind (set_plane p b l) = lk_kind l"
  "row_k (set_plane p b l) = row_k l" "row_v (set_plane p b l) = row_v l" "lk_window (set_plane p b l) = lk_window l"
  "plane_row q (set_plane p b l) = plane_row q l"
  "plane_buf q (set_plane p b l) = (if q = p then b else plane_buf q l)"
  by (cases p; cases q; simp)+

declare set_plane.simps [simp del]

lemma rows_update [simp]:
  "plane_buf p (l\<lparr>lk_rows := n\<rparr>) = plane_buf p l" "plane_row p (l\<lparr>lk_rows := n\<rparr>) = plane_row p l"
  "geom (l\<lparr>lk_rows := n\<rparr>) = geom l"
  by (cases p; simp add: geom_def)+

lemma live_rows_update: "live p (l\<lparr>lk_rows := n\<rparr>) = take (n * plane_row p l) (plane_buf p l)"
  by (simp add: live_def)

lemma layer_ok_set_plane:
  "layer_ok l \<Longrightarrow> length b = length (plane_buf p l) \<Longrightarrow> layer_ok (set_plane p b l)"
  by (auto simp: layer_ok_def)

lemma layer_ok_sized: "layer_ok l \<Longrightarrow> sized l"
  by (simp add: layer_ok_def)

lemma sized_same: "sized l \<Longrightarrow> geom l' = geom l \<Longrightarrow> lk_cap l' \<le> cap_max \<Longrightarrow> sized l'"
  by (simp add: sized_def geom_def)

lemma sized_eq: "geom l' = geom l \<Longrightarrow> lk_cap l' = lk_cap l \<Longrightarrow> sized l' = sized l"
  by (simp add: sized_def geom_def)

lemma layer_ok_cap: "layer_ok l \<Longrightarrow> n \<le> lk_rows l \<or> n \<le> lk_cap l \<Longrightarrow> n \<le> cap_max"
  by (auto simp: layer_ok_def sized_def)

lemma slack_cap: "W \<le> row_max \<Longrightarrow> W - 1 + SWA_SLACK_ROWS \<le> cap_max"
  by (simp add: row_max_def cap_max_def SWA_SLACK_ROWS_def)

lemma next_multiple_bounds:
  assumes "n \<le> row_max"
  shows "n \<le> next_multiple n 4096 \<and> next_multiple n 4096 \<le> cap_max"
proof -
  have up: "n + (4096 - n mod 4096) \<le> row_max + 4096" using assms by simp
  then have "usize_add n (4096 - n mod 4096) = n + (4096 - n mod 4096)"
    by (intro usize_add_no_wrap) (simp add: row_max_def)
  moreover have "n + (4096 - n mod 4096) \<le> cap_max" "n \<le> cap_max" using up assms by (simp_all add: row_max_def cap_max_def)
  moreover have "n mod 4096 < 4096" by simp
  ultimately show ?thesis unfolding next_multiple_def by (simp split: if_split) linarith
qed

lemma up_to_64_bounds:
  assumes "n \<le> 2 * row_max"
  shows "n \<le> up_to_64 n \<and> up_to_64 n \<le> cap_max"
proof -
  have up: "n \<le> (n + 63) div 64 * 64" "(n + 63) div 64 * 64 \<le> n + 63" by auto
  then have "(n + 63) div 64 * 64 \<le> cap_max" using assms by (simp add: row_max_def cap_max_def)
  moreover from this have "up_to_64 n = (n + 63) div 64 * 64"
    unfolding up_to_64_def by (intro usize_mul_no_wrap) (simp add: cap_max_def)
  ultimately show ?thesis using up(1) by simp
qed

lemma usize_row_add: "a + b \<le> 2 * row_max \<Longrightarrow> usize_add a b = a + b"
  by (rule usize_add_no_wrap) (simp add: row_max_def)

lemma layer_ok_rows: "layer_ok l \<Longrightarrow> n \<le> lk_cap l \<Longrightarrow> layer_ok (l\<lparr>lk_rows := n\<rparr>)"
  by (simp add: layer_ok_def)

lemma length_live: "layer_ok l \<Longrightarrow> length (live p l) = lk_rows l * plane_row p l"
  by (simp add: live_def layer_ok_def)

lemma all_planes: "(\<forall>p. P p) \<longleftrightarrow> P PlaneK \<and> P PlaneV \<and> P PlanePos"
  by (auto, metis plane.exhaust)

lemma before_pos: "0 < w \<Longrightarrow> before w = w - 1"
  by (simp add: before_def)

subsection \<open>Effects on one layer\<close>

lemma wp_with_layer:
  assumes "i < length (kv_layers kv)"
    and "wp m (\<lambda>x (g', l'). Q x (g', kv\<lparr>kv_layers := (kv_layers kv)[i := l']\<rparr>))
      (\<lambda>(g', l'). E (g', kv\<lparr>kv_layers := (kv_layers kv)[i := l']\<rparr>)) (g, kv_layers kv ! i)"
  shows "wp (with_layer i m) Q E (g, kv)"
  using assms by (auto simp: wp_def with_layer_def split: prod.splits outcome.splits)

lemma wp_copy_in:
  assumes "cuda_ok cu" "doff + n \<le> length (plane_buf p l)" "soff + n \<le> length src"
    and "\<And>g'. Q () (g', set_plane p (put_bytes doff (take n (drop soff src)) (plane_buf p l)) l)"
    and "\<And>g' b. length b = length (plane_buf p l) \<Longrightarrow> E (g', set_plane p b l)"
  shows "wp (copy_in cu what p doff src soff n) Q E (g, l)"
  unfolding copy_in_def using assms by (auto simp: wp_simps intro!: wp_copy_bytes)

lemma wp_copy_new:
  assumes "cuda_ok cu" "n \<le> length dst" "soff + n \<le> length src"
    and "\<And>g'. Q (put_bytes 0 (take n (drop soff src)) dst) g'" "\<And>g'. E g'"
  shows "wp (copy_new cu what dst src soff n) Q E g"
  unfolding copy_new_def using assms by (auto simp: wp_simps intro!: wp_copy_bytes)

lemma rows_fit: "start + n \<le> m \<Longrightarrow> start * (w :: nat) + n * w \<le> m * w"
  by (metis add_mult_distrib mult_le_mono1)

lemma take_put_start: "length v \<le> length out \<Longrightarrow> take (length v) (put_bytes 0 v out) = v"
  by (simp add: put_bytes_def)

definition regrown :: "nat \<Rightarrow> nat \<Rightarrow> nat \<Rightarrow> layer_kv \<Rightarrow> layer_kv \<Rightarrow> bool" where
  "regrown start n cap l l' \<longleftrightarrow> layer_ok l' \<and> geom l' = geom l \<and> lk_cap l' = cap \<and> lk_rows l' = n \<and>
     (\<forall>p. live p l' = take (n * plane_row p l) (drop (start * plane_row p l) (plane_buf p l)))"

lemma wp_regrow:
  assumes cu: "cuda_ok cu" and l: "layer_ok l" and fits: "start + n \<le> lk_cap l" "n \<le> cap" "cap \<le> cap_max"
    and Q: "\<And>g' l'. regrown start n cap l l' \<Longrightarrow> Q () (g', l')"
    and E: "\<And>g'. E (g', l)"
  shows "wp (regrow cu what start n cap) Q E (g, l)"
proof -
  let ?seg = "\<lambda>p. take (n * plane_row p l) (drop (start * plane_row p l) (plane_buf p l))"
  let ?new = "\<lambda>k v q. l\<lparr>lk_k := put_bytes 0 (?seg PlaneK) k, lk_v := put_bytes 0 (?seg PlaneV) v,
      lk_pos := put_bytes 0 (?seg PlanePos) q, lk_cap := cap, lk_rows := n\<rparr>"
  have src: "start * plane_row p l + n * plane_row p l \<le> length (plane_buf p l)" for p
    using l fits(1) by (simp add: layer_ok_def rows_fit)
  have seg: "length (?seg p) = n * plane_row p l" for p
    using src [of p] by simp
  have dst: "n * plane_row p l \<le> cap * plane_row p l" for p
    using fits(2) by (rule mult_le_mono1)
  have regrown: "regrown start n cap l (?new k v q)"
    if len: "length k = cap * row_k l" "length v = cap * row_v l" "length q = cap * 8" for k v q
  proof -
    have put: "length (put_bytes 0 (?seg p) b) = cap * plane_row p l \<and>
        take (n * plane_row p l) (put_bytes 0 (?seg p) b) = ?seg p"
      if "length b = cap * plane_row p l" for p b
      using that seg [of p] dst [of p] take_put_start [of "?seg p" b] by simp
    show ?thesis
      using put [of k PlaneK] put [of v PlaneV] put [of q PlanePos] len fits(2,3) layer_ok_sized [OF l]
      by (simp add: regrown_def layer_ok_def geom_def live_def all_planes sized_def)
  qed
  note mul = sized_row [OF layer_ok_sized [OF l] fits(3)]
  show ?thesis
    unfolding regrow_def
    apply (simp only: wp_simps snd_conv mul)
    apply (rule wp_buf_alloc [OF cu _ E])
    apply (rule wp_buf_alloc [OF cu _ E])
    apply (rule wp_buf_alloc [OF cu _ E])
    apply (rule wp_copy_new [OF cu _ _ _ E], use dst [of PlaneK] in simp, use src [of PlaneK] in simp)
    apply (rule wp_copy_new [OF cu _ _ _ E], use dst [of PlaneV] in simp, use src [of PlaneV] in simp)
    apply (rule wp_copy_new [OF cu _ _ _ E], use dst [of PlanePos] in simp, use src [of PlanePos] in simp)
    apply (simp only: wp_simps prod.case)
    apply (rule Q)
    apply (insert regrown, simp)
    done
qed

subsection \<open>Room for more rows\<close>

definition at_layer :: "device_kv \<Rightarrow> nat \<Rightarrow> layer_kv \<Rightarrow> bytes \<Rightarrow> device_kv" where
  "at_layer kv i l tmp = kv\<lparr>kv_layers := (kv_layers kv)[i := l], kv_tmp := tmp\<rparr>"

lemma at_layer_simps [simp]:
  "kv_tmp (at_layer kv i l tmp) = tmp" "length (kv_layers (at_layer kv i l tmp)) = length (kv_layers kv)"
  "i < length (kv_layers kv) \<Longrightarrow> kv_layers (at_layer kv i l tmp) ! i = l"
  "(at_layer kv i l tmp)\<lparr>kv_layers := (kv_layers (at_layer kv i l tmp))[i := l']\<rparr> = at_layer kv i l' tmp"
  "(at_layer kv i l tmp)\<lparr>kv_layers := (kv_layers kv)[i := l']\<rparr> = at_layer kv i l' tmp"
  "(at_layer kv i l tmp)\<lparr>kv_tmp := tmp'\<rparr> = at_layer kv i l tmp'"
  "kv_layers (at_layer kv i l tmp) = (kv_layers kv)[i := l]"
  "kv_tokens (at_layer kv i l tmp) = kv_tokens kv" "kv_draft (at_layer kv i l tmp) = kv_draft kv"
  "kv_ga_cap0 (at_layer kv i l tmp) = kv_ga_cap0 kv" "kv_swa_cap0 (at_layer kv i l tmp) = kv_swa_cap0 kv"
  "kv_max_chunk (at_layer kv i l tmp) = kv_max_chunk kv"
  by (simp_all add: at_layer_def)

lemma at_layer_same: "i < length (kv_layers kv) \<Longrightarrow> at_layer kv i (kv_layers kv ! i) (kv_tmp kv) = kv"
  by (simp add: at_layer_def)

lemma set_plane_same: "set_plane p (plane_buf p l) l = l"
  by (cases p) (simp_all add: set_plane.simps)

lemma wp_compact_plane:
  assumes cu: "cuda_ok cu" and i: "i < length (kv_layers kv)" and l: "layer_ok l"
    and fits: "start + keep \<le> lk_cap l" "keep * plane_row p l \<le> length tmp"
    and Q: "\<And>g' b tmp'. length b = length (plane_buf p l) \<Longrightarrow>
      take (keep * plane_row p l) b = take (keep * plane_row p l) (drop (start * plane_row p l) (plane_buf p l)) \<Longrightarrow>
      length tmp' = length tmp \<Longrightarrow> Q () (g', at_layer kv i (set_plane p b l) tmp')"
    and E: "\<And>g' b tmp'. length b = length (plane_buf p l) \<Longrightarrow> length tmp' = length tmp \<Longrightarrow>
      E (g', at_layer kv i (set_plane p b l) tmp')"
  shows "wp (compact_plane cu i start keep p) Q E (g, at_layer kv i l tmp)"
proof -
  let ?rb = "plane_row p l" and ?buf = "plane_buf p l"
  let ?seg = "take (keep * ?rb) (drop (start * ?rb) ?buf)"
  have src: "start * ?rb + keep * ?rb \<le> length ?buf"
    using l fits(1) by (simp add: layer_ok_def rows_fit)
  then have seg: "length ?seg = keep * ?rb" and dst: "keep * ?rb \<le> length ?buf" by simp_all
  have room: "length (put_bytes 0 b tmp) = length tmp" if "length b = keep * ?rb" for b
    using that fits(2) by simp
  have second: "wp (copy_in cu ''swa compact 2'' p 0 (put_bytes 0 ?seg tmp) 0 (keep * ?rb))
      (\<lambda>_ (g', l'). Q () (g', at_layer kv i l' (put_bytes 0 ?seg tmp)))
      (\<lambda>(g', l'). E (g', at_layer kv i l' (put_bytes 0 ?seg tmp))) (h, l)" for h
  proof (rule wp_copy_in [OF cu])
    have moved: "take (keep * ?rb) (drop 0 (put_bytes 0 ?seg tmp)) = ?seg"
      using take_put_start [of ?seg tmp] seg fits(2) by simp
    show "0 + keep * ?rb \<le> length ?buf" using dst by simp
    show "0 + keep * ?rb \<le> length (put_bytes 0 ?seg tmp)" using fits(2) room [OF seg] by simp
    show "case (g', set_plane p (put_bytes 0 (take (keep * ?rb) (drop 0 (put_bytes 0 ?seg tmp))) ?buf) l) of
        (g', l') \<Rightarrow> Q () (g', at_layer kv i l' (put_bytes 0 ?seg tmp))" for g'
      unfolding moved prod.case
      by (rule Q) (use seg dst take_put_start [of ?seg ?buf] room [OF seg] in simp_all)
    show "case (g', set_plane p b l) of (g', l') \<Rightarrow> E (g', at_layer kv i l' (put_bytes 0 ?seg tmp))"
      if "length b = length ?buf" for g' b
      using E [of b "put_bytes 0 ?seg tmp" g'] that room [OF seg] by simp
  qed
  show ?thesis
    unfolding compact_plane_def Let_def
    apply (simp only: wp_simps snd_conv at_layer_simps(1) at_layer_simps(3) [OF i])
    apply (rule wp_copy_bytes [OF cu])
      apply (use fits(2) in simp, use src in simp)
     apply (simp add: wp_simps)
     apply (rule wp_with_layer)
      apply (simp add: i)
     apply (use second i in simp)
    apply (use E [of ?buf] room in \<open>simp add: wp_simps set_plane_same\<close>)
    done
qed

definition prepared :: "nat \<Rightarrow> nat \<Rightarrow> layer_kv \<Rightarrow> layer_kv \<Rightarrow> bool" where
  "prepared W t l l' \<longleftrightarrow> layer_ok l' \<and> geom l' = geom l \<and> lk_cap l \<le> lk_cap l' \<and> lk_rows l' + t \<le> lk_cap l' \<and>
     lk_rows l' \<le> lk_rows l \<and> (is_ga l \<longrightarrow> lk_rows l' = lk_rows l) \<and> min (lk_rows l) (W - 1) \<le> lk_rows l' \<and>
     (\<forall>p. live p l' = drop ((lk_rows l - lk_rows l') * plane_row p l) (live p l))"

lemma regrown_prepared:
  assumes "layer_ok l" "regrown 0 (lk_rows l) cap l l'" "lk_cap l \<le> cap" "lk_rows l + t \<le> cap"
  shows "prepared W t l l'"
  using assms by (auto simp: regrown_def prepared_def live_def)

lemma compacted_live:
  assumes "start + keep = lk_rows l"
  shows "take (keep * plane_row p l) (drop (start * plane_row p l) (plane_buf p l))
    = drop ((lk_rows l - keep) * plane_row p l) (live p l)"
proof -
  have "lk_rows l - keep = start" using assms by simp
  moreover have "lk_rows l * plane_row p l = start * plane_row p l + keep * plane_row p l"
    by (simp flip: assms add: add_mult_distrib)
  ultimately show ?thesis by (simp add: live_def drop_take)
qed

lemma wp_compact:
  assumes cu: "cuda_ok cu" and i: "i < length (kv_layers kv)" and l: "layer_ok l"
    and fits: "start + keep = lk_rows l" "\<And>p. keep * plane_row p l \<le> length tmp"
    and Q: "\<And>g' l' tmp'. layer_ok l' \<Longrightarrow> geom l' = geom l \<Longrightarrow> lk_cap l' = lk_cap l \<Longrightarrow> lk_rows l' = keep \<Longrightarrow>
      (\<And>p. live p l' = drop ((lk_rows l - keep) * plane_row p l) (live p l)) \<Longrightarrow> length tmp' = length tmp \<Longrightarrow>
      Q () (g', at_layer kv i l' tmp')"
    and E: "\<And>g' l' tmp'. layer_ok l' \<Longrightarrow> geom l' = geom l \<Longrightarrow> lk_cap l' = lk_cap l \<Longrightarrow> length tmp' = length tmp \<Longrightarrow>
      E (g', at_layer kv i l' tmp')"
  shows "wp (ethen (efor (compact_plane cu i start keep) [PlaneK, PlaneV, PlanePos])
    (with_layer i (emodify (\<lambda>(g, l). (g, l\<lparr>lk_rows := keep\<rparr>))))) Q E (g, at_layer kv i l tmp)"
proof -
  have cap: "start + keep \<le> lk_cap l" "keep \<le> lk_cap l" using l fits(1) by (simp_all add: layer_ok_def)
  have last: "Q () (g', at_layer kv i (l3\<lparr>lk_rows := keep\<rparr>) tmp')"
    if l3: "layer_ok l3" "geom l3 = geom l" "lk_cap l3 = lk_cap l" "length tmp' = length tmp"
      "\<And>p. take (keep * plane_row p l) (plane_buf p l3)
         = take (keep * plane_row p l) (drop (start * plane_row p l) (plane_buf p l))" for g' l3 tmp'
  proof -
    have row: "plane_row p l3 = plane_row p l" for p by (rule geom_plane_row [OF l3(2)])
    have "live p (l3\<lparr>lk_rows := keep\<rparr>) = drop ((lk_rows l - keep) * plane_row p l) (live p l)" for p
      unfolding live_rows_update row l3(5) by (rule compacted_live [OF fits(1)])
    moreover have "layer_ok (l3\<lparr>lk_rows := keep\<rparr>)" by (rule layer_ok_rows [OF l3(1)]) (simp add: l3(3) cap)
    ultimately show ?thesis by (intro Q) (simp_all add: l3)
  qed
  show ?thesis
    apply (simp only: efor.simps wp_simps)
    apply (rule wp_compact_plane [OF cu i l cap(1) fits(2)])
     defer
     apply (rule E, simp_all add: layer_ok_set_plane l) [1]
    apply (simp only: wp_simps)
    apply (rule wp_compact_plane [OF cu i])
        apply (simp_all add: layer_ok_set_plane l cap fits(2) [of PlaneV, simplified]) [3]
     defer
     apply (rule E, simp_all add: layer_ok_set_plane l) [1]
    apply (simp only: wp_simps)
    apply (rule wp_compact_plane [OF cu i])
        apply (simp_all add: layer_ok_set_plane l cap fits(2) [of PlanePos, simplified]) [3]
     defer
     apply (rule E, simp_all add: layer_ok_set_plane l) [1]
    apply (simp only: wp_simps)
    apply (rule wp_with_layer)
     apply (simp add: i)
    apply (simp add: wp_simps i)
    apply (rule last)
        apply (simp_all add: layer_ok_set_plane l) [4]
    apply (rename_tac p, case_tac p, simp_all)
    done
qed

end
