(* ===== verification/KvSafe.thy ===== *)
theory KvSafe
  imports KvLayers
begin

text \<open>
  Every operation of the device cache keeps its invariant and stays inside its buffers, on success and on
  every error; what the page and state moves leave in the layers.
\<close>

subsection \<open>The invariant through a change of one layer\<close>

definition kv_inv :: "nat \<Rightarrow> (layer_kind \<times> nat \<times> nat \<times> nat) list \<Rightarrow> device_kv \<Rightarrow> bool" where
  "kv_inv W S kv \<longleftrightarrow> kv_ok W kv \<and> kv_shape kv = S"

lemma kv_inv_layer:
  "kv_inv W S kv \<Longrightarrow> i < length (kv_layers kv) \<Longrightarrow> layer_ok (kv_layers kv ! i) \<and> swa_room W (length (kv_tmp kv)) (kv_layers kv ! i)"
  by (simp add: kv_inv_def kv_ok_def)

lemma kv_inv_length: "kv_inv W S kv \<Longrightarrow> length (kv_layers kv) = length S"
  by (auto simp: kv_inv_def kv_shape_def)

lemma kv_inv_geom: "kv_inv W S kv \<Longrightarrow> i < length S \<Longrightarrow> geom (kv_layers kv ! i) = S ! i"
  by (auto simp: kv_inv_def kv_shape_def)

lemma swa_room_geom:
  "swa_room W n l \<Longrightarrow> geom l' = geom l \<Longrightarrow> lk_cap l \<le> lk_cap l' \<or> W - 1 + SWA_SLACK_ROWS \<le> lk_cap l' \<Longrightarrow> swa_room W n l'"
proof -
  assume room: "swa_room W n l" and same: "geom l' = geom l"
    and cap: "lk_cap l \<le> lk_cap l' \<or> W - 1 + SWA_SLACK_ROWS \<le> lk_cap l'"
  show ?thesis
    using room cap unfolding swa_room_def geom_is(1) [OF same] geom_plane_row [OF same]
    by (auto simp: geom_eqD [OF same])
qed

lemma ethen_assoc: "ethen (ethen a b) c = ethen a (ethen b c)"
  by (auto simp: ethen_def ebind_def split: prod.split outcome.split)

lemma kv_inv_at_layer:
  assumes "kv_inv W S kv" "i < length (kv_layers kv)" "layer_ok l'" "geom l' = geom (kv_layers kv ! i)"
    and "lk_cap (kv_layers kv ! i) \<le> lk_cap l' \<or> W - 1 + SWA_SLACK_ROWS \<le> lk_cap l'" "length tmp' = length (kv_tmp kv)"
  shows "kv_inv W S (at_layer kv i l' tmp')"
proof -
  have "swa_room W (length (kv_tmp kv)) l'"
    using swa_room_geom [OF _ assms(4,5)] kv_inv_layer [OF assms(1,2)] by blast
  moreover have "map geom (kv_layers (at_layer kv i l' tmp')) = map geom (kv_layers kv)"
    using assms(2,4) by (simp add: map_update list_update_same_conv)
  ultimately show ?thesis
    using assms by (auto simp: kv_inv_def kv_ok_def kv_shape_def dest!: set_update_subset_insert [THEN subsetD])
qed

lemma at_layer_tmp: "kv\<lparr>kv_layers := (kv_layers kv)[i := l]\<rparr> = at_layer kv i l (kv_tmp kv)"
  by (simp add: at_layer_def)

lemma wp_prepare:
  assumes cu: "cuda_ok cu" and inv: "kv_inv W S kv" and i: "i < length (kv_layers kv)"
    and few: "lk_rows (kv_layers kv ! i) + t \<le> row_max"
    and Q: "\<And>g' l' tmp'. prepared W t (kv_layers kv ! i) l' \<Longrightarrow> length tmp' = length (kv_tmp kv) \<Longrightarrow>
      Q () (g', at_layer kv i l' tmp')"
    and E: "\<And>g' l' tmp'. layer_ok l' \<Longrightarrow> geom l' = geom (kv_layers kv ! i) \<Longrightarrow>
      lk_cap (kv_layers kv ! i) \<le> lk_cap l' \<Longrightarrow> length tmp' = length (kv_tmp kv) \<Longrightarrow> E (g', at_layer kv i l' tmp')"
  shows "wp (prepare cu i t) Q E (g, kv)"
proof -
  let ?l = "kv_layers kv ! i"
  have l: "layer_ok ?l" and room: "swa_room W (length (kv_tmp kv)) ?l" and W: "0 < W"
    using kv_inv_layer [OF inv i] inv by (simp_all add: kv_inv_def kv_ok_def)
  have stay: "Q () (g, kv)" if "lk_rows ?l + t \<le> lk_cap ?l"
  proof -
    have "prepared W t ?l ?l" using that l by (simp add: prepared_def)
    from Q [OF this refl, of g] show ?thesis by (simp add: at_layer_same i)
  qed
  let ?cap = "max (lk_cap ?l + max (lk_cap ?l div 8) 4096) (lk_rows ?l + t)"
  have sum: "usize_add (lk_rows ?l) t = lk_rows ?l + t" by (rule usize_row_add) (use few in simp)
  have cap: "usize_add (lk_cap ?l) (max (lk_cap ?l div 8) 4096) = lk_cap ?l + max (lk_cap ?l div 8) 4096" "?cap \<le> cap_max"
    if "lk_cap ?l < lk_rows ?l + t"
  proof -
    have few_cap: "lk_cap ?l \<le> row_max" using that few by simp
    then show "usize_add (lk_cap ?l) (max (lk_cap ?l div 8) 4096) = lk_cap ?l + max (lk_cap ?l div 8) 4096"
      by (intro usize_row_add) (simp add: row_max_def)
    show "?cap \<le> cap_max" using few few_cap by (simp add: row_max_def cap_max_def)
  qed
  have ga: "wp (grow_ga cu i ?cap) Q E (g, kv)" if "lk_cap ?l < lk_rows ?l + t"
    unfolding grow_ga_def
    apply (rule wp_with_layer [OF i])
    apply (simp only: wp_simps snd_conv)
    apply (rule wp_regrow [OF cu l])
        apply (use l in \<open>simp_all add: layer_ok_def at_layer_tmp\<close>) [2]
      apply (rule cap(2) [OF that])
     apply (simp only: at_layer_tmp prod.case)
     apply (rule Q [OF _ refl])
     apply (erule regrown_prepared [OF l], simp, simp)
    apply (simp only: at_layer_tmp prod.case)
    apply (rule E, simp_all add: l)
    done
  let ?keep = "min (lk_rows ?l) (W - 1)"
  let ?up = "up_to_64 (?keep + t)"
  have keep: "usize_add ?keep t = ?keep + t" by (rule usize_row_add) (use few in simp)
  have up: "?keep + t \<le> ?up" "?up \<le> cap_max" using up_to_64_bounds [of "?keep + t"] few by auto
  have swa: "wp (ethen (ethen (efor (compact_plane cu i (lk_rows ?l - ?keep) ?keep) [PlaneK, PlaneV, PlanePos])
      (with_layer i (emodify (\<lambda>(g, l). (g, l\<lparr>lk_rows := ?keep\<rparr>)))))
      (if ?keep + t > lk_cap ?l then grow_swa cu i ?up else eret ())) Q E (g, kv)"
    if swa: "is_swa ?l"
  proof -
    have fits: "?keep * plane_row p ?l \<le> length (kv_tmp kv)" for p
      using room swa by (meson le_trans min.cobounded2 mult_le_mono1 swa_room_def)
    have grown: "wp (grow_swa cu i ?up) Q E (g', at_layer kv i l' tmp')"
      if big: "lk_cap ?l < ?keep + t" and l': "layer_ok l'" "geom l' = geom ?l" "lk_cap l' = lk_cap ?l" "lk_rows l' = ?keep"
        "\<And>p. live p l' = drop ((lk_rows ?l - ?keep) * plane_row p ?l) (live p ?l)" "length tmp' = length (kv_tmp kv)"
      for g' l' tmp'
    proof -
      have up': "prepared W t ?l l''" if re: "regrown 0 ?keep ?up l' l''" for l''
      proof -
        have rows: "plane_row p l' = plane_row p ?l" for p by (rule geom_plane_row [OF l'(2)])
        have "live p l'' = live p l'" for p
          using re l'(4) by (simp add: regrown_def live_def [of p l'])
        then show ?thesis
          using re big up(1) l' by (simp add: prepared_def regrown_def is_ga_def geom_def)
            (use \<open>is_swa ?l\<close> in \<open>simp add: is_swa_def\<close>)
      qed
      show ?thesis
        unfolding grow_swa_def
        apply (rule wp_with_layer, simp add: i)
        apply (simp only: wp_simps snd_conv at_layer_simps(3) [OF i] l'(4))
        apply (rule wp_regrow [OF cu l'(1)])
            apply (use l'(1,4) up(1) in \<open>simp_all add: layer_ok_def\<close>) [2]
          apply (rule up(2))
         apply (simp only: at_layer_simps(4) prod.case)
         apply (rule Q [OF up'], assumption, rule l'(6))
        apply (simp only: at_layer_simps(4) prod.case)
        apply (rule E, simp_all add: l')
        done
    qed
    have small: "Q () (g', at_layer kv i l' tmp')"
      if "?keep + t \<le> lk_cap ?l" and l': "layer_ok l'" "geom l' = geom ?l" "lk_cap l' = lk_cap ?l" "lk_rows l' = ?keep"
        "\<And>p. live p l' = drop ((lk_rows ?l - ?keep) * plane_row p ?l) (live p ?l)" "length tmp' = length (kv_tmp kv)"
      for g' l' tmp'
      by (rule Q [OF _ l'(6)]) (use that swa in \<open>auto simp: prepared_def is_ga_def is_swa_def\<close>)
    have "wp (ethen (efor (compact_plane cu i (lk_rows ?l - ?keep) ?keep) [PlaneK, PlaneV, PlanePos])
        (with_layer i (emodify (\<lambda>(g, l). (g, l\<lparr>lk_rows := ?keep\<rparr>)))))
      (\<lambda>_. wp (if ?keep + t > lk_cap ?l then grow_swa cu i ?up else eret ()) Q E) E
      (g, at_layer kv i ?l (kv_tmp kv))"
      by (rule wp_compact [OF cu i l _ fits])
        (use grown small in \<open>auto simp: wp_simps intro!: E\<close>)
    then show ?thesis by (simp only: wp_ethen [of "ethen _ _"] at_layer_same [OF i])
  qed
  have W1: "before (lk_window ?l) = W - 1" if "is_swa ?l"
    using that room W by (simp add: swa_room_def before_pos)
  show ?thesis
  proof (cases "lk_rows ?l + t \<le> lk_cap ?l")
    case True
    then show ?thesis using stay i sum by (simp add: prepare_def wp_simps)
  next
    case full: False
    show ?thesis
    proof (cases "lk_kind ?l")
      case Ga
      then show ?thesis using full ga cap(1) sum i by (simp add: prepare_def wp_simps Let_def del: efor.simps)
    next
      case Swa
      then have "is_swa ?l" by (simp add: is_swa_def)
      from swa [OF this] have step: "wp (ethen (efor (compact_plane cu i (lk_rows ?l - ?keep) ?keep) [PlaneK, PlaneV, PlanePos])
          (ethen (with_layer i (emodify (\<lambda>(g, l). (g, l\<lparr>lk_rows := ?keep\<rparr>))))
          (if ?keep + t > lk_cap ?l then grow_swa cu i ?up else eret ()))) Q E (g, kv)"
        unfolding ethen_assoc .
      have "(length (kv_layers kv) \<le> i) = False" "(lk_rows ?l + t \<le> lk_cap ?l) = False" using i full by simp_all
      with W1 [OF \<open>is_swa ?l\<close>] Swa show ?thesis
        unfolding prepare_def wp_ebind wp_eget snd_conv Let_def
        by (simp only: if_False layer_kind.case sum keep) (rule step)
    qed
  qed
qed

lemma live_append:
  assumes "layer_ok l" "lk_rows l + n \<le> lk_cap l" "length v = n * plane_row p l"
  shows "take ((lk_rows l + n) * plane_row p l) (put_bytes (lk_rows l * plane_row p l) v (plane_buf p l)) = live p l @ v"
proof -
  have "lk_rows l * plane_row p l + length v \<le> length (plane_buf p l)"
    using assms by (simp add: layer_ok_def rows_fit)
  then show ?thesis
    using assms(3) by (simp add: put_bytes_def live_def add_mult_distrib min_absorb2)
qed

lemma append_fits:
  assumes "layer_ok l" "lk_rows l + n \<le> lk_cap l"
  shows "lk_rows l * plane_row p l + n * plane_row p l \<le> length (plane_buf p l)"
  using assms by (simp add: layer_ok_def rows_fit)

definition appended :: "nat \<Rightarrow> (plane \<Rightarrow> bytes) \<Rightarrow> plane set \<Rightarrow> layer_kv \<Rightarrow> layer_kv \<Rightarrow> bool" where
  "appended n v P l l' \<longleftrightarrow> layer_ok l' \<and> geom l' = geom l \<and> lk_cap l \<le> lk_cap l' \<and> lk_rows l' = lk_rows l + n \<and>
     (\<forall>p \<in> P. live p l' = live p l @ v p)"

lemma appendedI:
  assumes "layer_ok l" "lk_rows l + n \<le> lk_cap l" "geom l' = geom l" "lk_cap l' = lk_cap l" "lk_rows l' = lk_rows l + n"
    and "\<And>p. length (plane_buf p l') = length (plane_buf p l)"
    and "\<And>p. p \<in> P \<Longrightarrow> length (v p) = n * plane_row p l"
    and "\<And>p. p \<in> P \<Longrightarrow> plane_buf p l' = put_bytes (lk_rows l * plane_row p l) (v p) (plane_buf p l)"
  shows "appended n v P l l'"
proof -
  have row: "plane_row p l' = plane_row p l" for p by (rule geom_plane_row [OF assms(3)])
  have "live p l' = live p l @ v p" if "p \<in> P" for p
    unfolding live_def [of p l'] row assms(5) assms(8) [OF that]
    by (rule live_append [OF assms(1,2) assms(7) [OF that]])
  then show ?thesis
    using assms(1-6) sized_eq [OF assms(3,4)] by (simp add: appended_def layer_ok_def row)
qed

lemma appended_prepared:
  assumes "prepared W n l l1" "is_ga l" "appended n v P l1 l'"
  shows "appended n v P l l'"
proof -
  have "live p l1 = live p l" for p
    using assms(1,2) by (simp add: prepared_def)
  then show ?thesis
    using assms unfolding appended_def prepared_def by auto
qed

definition page_part :: "bytes \<Rightarrow> nat \<Rightarrow> nat \<Rightarrow> layer_kv \<Rightarrow> plane \<Rightarrow> bytes" where
  "page_part page off n l p = take (n * plane_row p l) (drop (if p = PlaneK then off else off + KV_PAGE_ROWS * row_k l) page)"

text \<open>Importing the rows of one layer appends its part of the page to the layer's rows.\<close>

lemma wp_import_ga_layer:
  assumes cu: "cuda_ok cu" and inv: "kv_inv W S kv" and i: "i < length (kv_layers kv)" and ga: "is_ga (kv_layers kv ! i)"
    and n: "n \<le> KV_PAGE_ROWS" and page: "off + page_stride (kv_layers kv ! i) \<le> length page"
    and few: "lk_rows (kv_layers kv ! i) + n \<le> row_max"
    and Q: "\<And>g' l' tmp'. appended n (page_part page off n (kv_layers kv ! i)) {PlaneK, PlaneV} (kv_layers kv ! i) l' \<Longrightarrow>
      length tmp' = length (kv_tmp kv) \<Longrightarrow> Q () (g', at_layer kv i l' tmp')"
    and E: "\<And>g' l' tmp'. layer_ok l' \<Longrightarrow> geom l' = geom (kv_layers kv ! i) \<Longrightarrow>
      lk_cap (kv_layers kv ! i) \<le> lk_cap l' \<Longrightarrow> length tmp' = length (kv_tmp kv) \<Longrightarrow> E (g', at_layer kv i l' tmp')"
  shows "wp (import_ga_layer cu n page off i) Q E (g, kv)"
proof -
  let ?l = "kv_layers kv ! i"
  have src: "off + n * row_k ?l \<le> length page" "off + KV_PAGE_ROWS * row_k ?l + n * row_v ?l \<le> length page"
  proof -
    have "n * row_k ?l \<le> KV_PAGE_ROWS * row_k ?l" "n * row_v ?l \<le> KV_PAGE_ROWS * row_v ?l"
      using n by (simp_all add: mult_le_mono1)
    then show "off + n * row_k ?l \<le> length page" "off + KV_PAGE_ROWS * row_k ?l + n * row_v ?l \<le> length page"
      using page unfolding page_stride_def add_mult_distrib2 by linarith+
  qed
  have after: "wp (with_layer i (ebind (eget snd) (\<lambda>l. let r0 = lk_rows l in
     ethen (copy_in cu ''import ga k'' PlaneK (r0 * row_k l) page off (n * row_k l))
    (ethen (copy_in cu ''import ga v'' PlaneV (r0 * row_v l) page (off + KV_PAGE_ROWS * row_k l) (n * row_v l))
           (emodify (\<lambda>(g, l). (g, l\<lparr>lk_rows := lk_rows l + n\<rparr>)))))))
     Q E (g', at_layer kv i l1 tmp1)"
    if pre: "prepared W n ?l l1" and tmp1: "length tmp1 = length (kv_tmp kv)" for g' l1 tmp1
  proof -
    have l1: "layer_ok l1" "geom l1 = geom ?l" "lk_cap ?l \<le> lk_cap l1" "lk_rows l1 + n \<le> lk_cap l1"
      using pre by (simp_all add: prepared_def)
    have rows: "row_k l1 = row_k ?l" "row_v l1 = row_v ?l" using geom_eqD [OF l1(2)] by simp_all
    note fit = append_fits [OF l1(1,4)]
    let ?k = "page_part page off n ?l PlaneK" and ?v = "page_part page off n ?l PlaneV"
    have lens: "length ?k = n * row_k ?l" "length ?v = n * row_v ?l"
      using src by (simp_all add: page_part_def)
    define b1 where "b1 = put_bytes (lk_rows l1 * row_k ?l) ?k (lk_k l1)"
    define b2 where "b2 = put_bytes (lk_rows l1 * row_v ?l) ?v (lk_v l1)"
    have lenb: "length b1 = length (lk_k l1)" "length b2 = length (lk_v l1)"
      using fit [of PlaneK] fit [of PlaneV] lens rows by (simp_all add: b1_def b2_def)
    let ?l3 = "(set_plane PlaneV b2 (set_plane PlaneK b1 l1))\<lparr>lk_rows := lk_rows l1 + n\<rparr>"
    have "appended n (page_part page off n ?l) {PlaneK, PlaneV} l1 ?l3"
    proof (rule appendedI [OF l1(1,4)])
      show "length (plane_buf p ?l3) = length (plane_buf p l1)" for p
        using lenb by (cases p) simp_all
    qed (use lens rows in \<open>auto simp: b1_def b2_def\<close>)
    from appended_prepared [OF pre ga this]
    have fin: "Q () (g'', at_layer kv i ?l3 tmp1)" for g'' by (rule Q) (rule tmp1)
    have err: "E (g'', at_layer kv i l' tmp1)" if "layer_ok l'" "geom l' = geom l1" "lk_cap l' = lk_cap l1" for g'' l'
      by (rule E) (use that l1 tmp1 in simp_all)
    show ?thesis
      unfolding Let_def
      apply (rule wp_with_layer, simp add: i)
      apply (simp only: wp_simps snd_conv at_layer_simps(3) [OF i] rows)
      apply (rule wp_copy_in [OF cu])
         apply (use fit [of PlaneK] rows in simp)
        apply (rule src(1))
       defer
       apply (simp only: at_layer_simps(4) prod.case, rule err, simp_all add: layer_ok_set_plane l1) [1]
      apply (simp only: wp_simps)
      apply (rule wp_copy_in [OF cu])
         apply (use fit [of PlaneV] rows in simp)
        apply (rule src(2))
       defer
       apply (simp only: at_layer_simps(4) prod.case, rule err, simp_all add: layer_ok_set_plane l1) [1]
       apply (rule layer_ok_set_plane [OF layer_ok_set_plane [OF l1(1)]])
        apply (use lenb in \<open>simp add: b1_def page_part_def\<close>, simp)
      apply (simp only: wp_simps at_layer_simps(4) prod.case)
      apply (use fin in \<open>simp add: b1_def b2_def page_part_def\<close>)
      done
  qed
  show ?thesis
    unfolding import_ga_layer_def
    by (simp only: wp_simps) (rule wp_prepare [OF cu inv i few], rule after, assumption+, rule E)
qed

subsection \<open>Offsets\<close>

definition off_sum :: "(layer_kv \<Rightarrow> bool) \<Rightarrow> (layer_kv \<Rightarrow> nat) \<Rightarrow> device_kv \<Rightarrow> nat \<Rightarrow> nat" where
  "off_sum P f kv i = (\<Sum>l\<leftarrow>filter P (take i (kv_layers kv)). f l)"

lemma off_sum_0 [simp]: "off_sum P f kv 0 = 0"
  by (simp add: off_sum_def)

lemma off_sum_Suc:
  "i < length (kv_layers kv) \<Longrightarrow> off_sum P f kv (Suc i) = off_sum P f kv i + (if P (kv_layers kv ! i) then f (kv_layers kv ! i) else 0)"
  by (simp add: off_sum_def take_Suc_conv_app_nth)

lemma off_sum_mono: "i \<le> j \<Longrightarrow> off_sum P f kv i \<le> off_sum P f kv j"
proof -
  assume "i \<le> j"
  then have "take j (kv_layers kv) = take i (kv_layers kv) @ take (j - i) (drop i (kv_layers kv))"
    by (metis le_add_diff_inverse take_add)
  then show ?thesis by (simp add: off_sum_def)
qed

lemma off_sum_room:
  "i < length (kv_layers kv) \<Longrightarrow> P (kv_layers kv ! i) \<Longrightarrow>
     off_sum P f kv i + f (kv_layers kv ! i) \<le> (\<Sum>l\<leftarrow>filter P (kv_layers kv). f l)"
  using off_sum_Suc [of i kv P f] off_sum_mono [of "Suc i" "length (kv_layers kv)" P f kv] by (simp add: off_sum_def)

text \<open>Sums over layers that only look at their geometry.\<close>

lemma sum_geom:
  assumes "\<And>l l'. geom l' = geom l \<Longrightarrow> P l' = P l \<and> f l' = f l" "map geom ls = map geom ls'"
  shows "(\<Sum>l\<leftarrow>filter P ls. f l) = (\<Sum>l\<leftarrow>filter P ls'. f l)"
  using assms(2)
proof (induction ls arbitrary: ls')
  case Nil
  then show ?case by simp
next
  case (Cons l ls)
  then obtain l' ks where ls': "ls' = l' # ks" "geom l' = geom l" "map geom ls = map geom ks" by auto
  show ?case using Cons.IH [OF ls'(3)] assms(1) [OF ls'(2)] by (simp add: ls'(1))
qed

text \<open>The parts of the cache an operation on its layers leaves alone.\<close>

definition kv_same :: "device_kv \<Rightarrow> device_kv \<Rightarrow> bool" where
  "kv_same kv kv' \<longleftrightarrow> kv_tokens kv' = kv_tokens kv \<and> kv_max_chunk kv' = kv_max_chunk kv \<and>
     kv_ga_cap0 kv' = kv_ga_cap0 kv \<and> kv_swa_cap0 kv' = kv_swa_cap0 kv \<and> kv_draft kv' = kv_draft kv \<and>
     length (kv_tmp kv') = length (kv_tmp kv)"

lemma kv_same_refl [simp]: "kv_same kv kv" by (simp add: kv_same_def)

lemma kv_same_trans: "kv_same kv kv' \<Longrightarrow> kv_same kv' kv'' \<Longrightarrow> kv_same kv kv''"
  by (simp add: kv_same_def)

lemma kv_same_at_layer: "length tmp' = length (kv_tmp kv) \<Longrightarrow> kv_same kv (at_layer kv i l tmp')"
  by (simp add: kv_same_def)

lemma length_iota_pos [simp]: "length (iota_pos n) = n * 8"
  using length_concat_uniform [of "[0..<n]" "le_bytes 8" 8] by (simp add: iota_pos_def)

subsection \<open>Loops over layers\<close>

definition fine :: "nat \<Rightarrow> layer_kv \<Rightarrow> layer_kv \<Rightarrow> bool" where
  "fine W l l' \<longleftrightarrow> layer_ok l' \<and> geom l' = geom l \<and>
     (is_ga l \<or> lk_cap l \<le> lk_cap l' \<or> W - 1 + SWA_SLACK_ROWS \<le> lk_cap l')"

lemma ga_not_swa: "is_ga l \<Longrightarrow> \<not> is_swa l"
  by (simp add: is_ga_def is_swa_def)

lemma kv_inv_fine:
  assumes "kv_inv W S kv" "i < length (kv_layers kv)" "fine W (kv_layers kv ! i) l'" "length tmp' = length (kv_tmp kv)"
  shows "kv_inv W S (at_layer kv i l' tmp')"
proof (cases "is_ga (kv_layers kv ! i)")
  case True
  then have "swa_room W (length (kv_tmp kv)) l'"
    using assms(3) ga_not_swa geom_is(1) [of l' "kv_layers kv ! i"] by (auto simp: swa_room_def fine_def)
  moreover have "map geom (kv_layers (at_layer kv i l' tmp')) = map geom (kv_layers kv)"
    using assms(2,3) by (simp add: map_update list_update_same_conv fine_def)
  ultimately show ?thesis
    using assms by (auto simp: kv_inv_def kv_ok_def kv_shape_def fine_def dest!: set_update_subset_insert [THEN subsetD])
next
  case False
  then show ?thesis using assms kv_inv_at_layer by (auto simp: fine_def)
qed

definition changed :: "(nat \<Rightarrow> bool) \<Rightarrow> (nat \<Rightarrow> layer_kv \<Rightarrow> layer_kv \<Rightarrow> bool) \<Rightarrow> nat \<Rightarrow> device_kv \<Rightarrow> device_kv \<Rightarrow> bool" where
  "changed P R j kv kv' \<longleftrightarrow> kv_same kv kv' \<and> length (kv_layers kv') = length (kv_layers kv) \<and>
     (\<forall>i < length (kv_layers kv).
        if i < j \<and> P i then R i (kv_layers kv ! i) (kv_layers kv' ! i) else kv_layers kv' ! i = kv_layers kv ! i)"

lemma changed_0: "changed P R 0 kv kv"
  by (simp add: changed_def)

lemma changed_skip: "changed P R j kv kv' \<Longrightarrow> \<not> P j \<Longrightarrow> changed P R (Suc j) kv kv'"
  by (auto simp: changed_def less_Suc_eq)

lemma changed_step:
  assumes "changed P R j kv kv'" "j < length (kv_layers kv)" "P j" "R j (kv_layers kv ! j) l'" "length tmp' = length (kv_tmp kv')"
  shows "changed P R (Suc j) kv (at_layer kv' j l' tmp')"
  using assms by (auto simp: changed_def nth_list_update less_Suc_eq intro: kv_same_trans kv_same_at_layer)

definition layer_step ::
  "nat \<Rightarrow> ('g, unit) kv_eff \<Rightarrow> nat \<Rightarrow> (layer_kv \<Rightarrow> bool) \<Rightarrow> 'g \<Rightarrow> device_kv \<Rightarrow> bool" where
  "layer_step W m i R g kv \<longleftrightarrow> wp m
     (\<lambda>_ (g', kv'). \<exists>l' tmp'. kv' = at_layer kv i l' tmp' \<and> length tmp' = length (kv_tmp kv) \<and> fine W (kv_layers kv ! i) l' \<and> R l')
     (\<lambda>(g', kv'). \<exists>l' tmp'. kv' = at_layer kv i l' tmp' \<and> length tmp' = length (kv_tmp kv) \<and> fine W (kv_layers kv ! i) l') (g, kv)"

lemma wp_layer_loop:
  fixes body :: "nat \<Rightarrow> nat \<Rightarrow> ('g, unit) kv_eff"
  assumes inv: "kv_inv W S kv" and N: "N \<le> length (kv_layers kv)"
    and step: "\<And>i kv' g. i < N \<Longrightarrow> P (kv_layers kv ! i) \<Longrightarrow> kv_inv W S kv' \<Longrightarrow> kv_same kv kv' \<Longrightarrow>
      length (kv_layers kv') = length (kv_layers kv) \<Longrightarrow> kv_layers kv' ! i = kv_layers kv ! i \<Longrightarrow>
      layer_step W (body (off_sum P f kv i) i) i (R i (kv_layers kv ! i)) g kv'"
  shows "wp (layer_loop P f body 0 [0..<N])
    (\<lambda>_ (g, kv'). kv_inv W S kv' \<and> changed (\<lambda>i. P (kv_layers kv ! i)) R N kv kv')
    (\<lambda>(g, kv'). kv_inv W S kv' \<and> kv_same kv kv') (g, kv)"
proof -
  let ?P = "\<lambda>i. P (kv_layers kv ! i)"
  let ?Q = "\<lambda>_ (g :: 'g, kv'). kv_inv W S kv' \<and> changed ?P R N kv kv'"
  let ?E = "\<lambda>(g :: 'g, kv'). kv_inv W S kv' \<and> kv_same kv kv'"
  have "wp (layer_loop P f body (off_sum P f kv j) [j..<N]) ?Q ?E (g, kv')"
    if "j \<le> N" "kv_inv W S kv'" "changed ?P R j kv kv'" for j kv' and g :: 'g
    using that
  proof (induction "N - j" arbitrary: j kv' g)
    case 0
    then show ?case by (simp add: wp_simps)
  next
    case (Suc m)
    then have j: "j < N" and j': "j < length (kv_layers kv)" using N by simp_all
    let ?rest = "layer_loop P f body (off_sum P f kv (Suc j)) [Suc j..<N]"
    have here: "kv_layers kv' ! j = kv_layers kv ! j" and same: "kv_same kv kv'"
      and len: "length (kv_layers kv') = length (kv_layers kv)"
      using Suc.prems(3) j' by (auto simp: changed_def)
    have upt: "[j..<N] = j # [Suc j..<N]" using j by (rule upt_conv_Cons)
    show ?case
    proof (cases "P (kv_layers kv ! j)")
      case False
      then show ?thesis
        using Suc.hyps(1) [OF _ _ Suc.prems(2) changed_skip [OF Suc.prems(3)]] Suc.hyps(2) j
        by (simp add: upt wp_simps here off_sum_Suc [OF j'])
    next
      case True
      have "layer_step W (body (off_sum P f kv j) j) j (R j (kv_layers kv ! j)) g kv'"
        by (rule step [OF j True Suc.prems(2) same len here])
      then have "wp (body (off_sum P f kv j) j) (\<lambda>_. wp ?rest ?Q ?E) ?E (g, kv')"
        unfolding layer_step_def
      proof (rule wp_mono)
        fix x and s :: "'g \<times> device_kv"
        assume "case s of (g', kv'') \<Rightarrow> \<exists>l' tmp'. kv'' = at_layer kv' j l' tmp' \<and>
          length tmp' = length (kv_tmp kv') \<and> fine W (kv_layers kv' ! j) l' \<and> R j (kv_layers kv ! j) l'"
        then obtain g' l' tmp' where s: "s = (g', at_layer kv' j l' tmp')" and tmp: "length tmp' = length (kv_tmp kv')"
          and l': "fine W (kv_layers kv' ! j) l'" "R j (kv_layers kv ! j) l'"
          by (auto split: prod.splits)
        have "kv_inv W S (at_layer kv' j l' tmp')" by (rule kv_inv_fine [OF Suc.prems(2)]) (use j' len l' tmp in simp_all)
        moreover have "changed ?P R (Suc j) kv (at_layer kv' j l' tmp')"
          by (rule changed_step [where P = ?P and R = R, OF Suc.prems(3) j' True l'(2) tmp])
        ultimately show "wp ?rest ?Q ?E s"
          using Suc.hyps(1) [of "Suc j" "at_layer kv' j l' tmp'" g'] Suc.hyps(2) j by (simp add: s)
      next
        fix s :: "'g \<times> device_kv"
        assume "case s of (g', kv'') \<Rightarrow> \<exists>l' tmp'. kv'' = at_layer kv' j l' tmp' \<and>
          length tmp' = length (kv_tmp kv') \<and> fine W (kv_layers kv' ! j) l'"
        then show "?E s"
          using kv_inv_fine [OF Suc.prems(2)] kv_same_trans [OF same kv_same_at_layer] j' len by auto
      qed
      then show ?thesis using True by (simp add: upt wp_simps here off_sum_Suc [OF j'])
    qed
  qed
  from this [OF _ inv changed_0] show ?thesis by simp
qed

lemma wp_for_layers:
  fixes body :: "nat \<Rightarrow> nat \<Rightarrow> ('g, unit) kv_eff"
  assumes inv: "kv_inv W S kv"
    and step: "\<And>i kv' g. i < length (kv_layers kv) \<Longrightarrow> P (kv_layers kv ! i) \<Longrightarrow> kv_inv W S kv' \<Longrightarrow> kv_same kv kv' \<Longrightarrow>
      length (kv_layers kv') = length (kv_layers kv) \<Longrightarrow> kv_layers kv' ! i = kv_layers kv ! i \<Longrightarrow>
      layer_step W (body (off_sum P f kv i) i) i (R i (kv_layers kv ! i)) g kv'"
  shows "wp (for_layers P f body)
    (\<lambda>_ (g, kv'). kv_inv W S kv' \<and> changed (\<lambda>i. P (kv_layers kv ! i)) R (length (kv_layers kv)) kv kv')
    (\<lambda>(g, kv'). kv_inv W S kv' \<and> kv_same kv kv') (g, kv)"
  unfolding for_layers_def wp_ebind wp_eget snd_conv by (rule wp_layer_loop [OF inv order.refl], rule step)

lemma layer_stepI:
  assumes "i < length (kv_layers kv)"
    and "wp m (\<lambda>_ (g', l'). fine W (kv_layers kv ! i) l' \<and> R l') (\<lambda>(g', l'). fine W (kv_layers kv ! i) l') (g, kv_layers kv ! i)"
  shows "layer_step W (with_layer i m) i R g kv"
  unfolding layer_step_def
  by (rule wp_with_layer [OF assms(1)], rule wp_mono [OF assms(2)]) (auto simp: at_layer_tmp)

text \<open>\<open>finish_ga_import\<close> gives every row of a global layer its position and leaves the rows as they are.\<close>

definition positioned :: "layer_kv \<Rightarrow> layer_kv \<Rightarrow> bool" where
  "positioned l l' \<longleftrightarrow> lk_cap l' = lk_cap l \<and> lk_rows l' = lk_rows l \<and> live PlaneK l' = live PlaneK l \<and>
     live PlaneV l' = live PlaneV l \<and> live PlanePos l' = iota_pos (lk_rows l)"

lemma wp_write_iota:
  assumes l: "layer_ok l"
  shows "wp (write_iota cu) (\<lambda>_ (g', l'). fine W l l' \<and> positioned l l') (\<lambda>(g', l'). fine W l l') (g, l)"
proof -
  let ?b = "put_bytes 0 (iota_pos (lk_rows l)) (lk_pos l)"
  have room: "lk_rows l * 8 \<le> length (lk_pos l)"
    using l by (auto simp: layer_ok_def all_planes)
  then have len: "length ?b = length (lk_pos l)" by simp
  have whole: "l\<lparr>lk_pos := b\<rparr> = set_plane PlanePos b l" for b by (simp add: set_plane.simps)
  have "fine W l (set_plane PlanePos ?b l)"
    using layer_ok_set_plane [OF l, of ?b PlanePos] len by (simp add: fine_def)
  moreover have "take (lk_rows l * 8) ?b = iota_pos (lk_rows l)"
    using room take_put_start [of "iota_pos (lk_rows l)" "lk_pos l"] by simp
  then have "positioned l (set_plane PlanePos ?b l)"
    by (simp add: positioned_def live_def)
  ultimately have "fine W l (l\<lparr>lk_pos := ?b\<rparr>)" "positioned l (l\<lparr>lk_pos := ?b\<rparr>)" by (simp_all add: whole)
  then show ?thesis
    using room unfolding write_iota_def
    by (auto simp: wp_simps wp_def [of "\<lambda>g. case cuda_launch cu g of (rc, g') \<Rightarrow> (Ok rc, g')"] split: prod.split)
qed

lemma wp_device_sync: "(\<And>g'. Q () g') \<Longrightarrow> (\<And>g'. E g') \<Longrightarrow> wp (device_sync cu what) Q E g"
  by (simp add: device_sync_def wp_def check_rc_def eret_def efail_def split: prod.split)

lemma wp_finish_ga_import:
  assumes "kv_inv W S kv"
  shows "wp (finish_ga_import cu)
    (\<lambda>_ (g, kv'). kv_inv W S kv' \<and> changed (\<lambda>i. is_ga (kv_layers kv ! i)) (\<lambda>_. positioned) (length (kv_layers kv)) kv kv')
    (\<lambda>(g, kv'). kv_inv W S kv' \<and> kv_same kv kv') (g, kv)"
proof -
  have each: "wp (for_layers is_ga (\<lambda>_. 0) (\<lambda>_ i. with_layer i (write_iota cu)))
    (\<lambda>_ (g, kv'). kv_inv W S kv' \<and> changed (\<lambda>i. is_ga (kv_layers kv ! i)) (\<lambda>_. positioned) (length (kv_layers kv)) kv kv')
    (\<lambda>(g, kv'). kv_inv W S kv' \<and> kv_same kv kv') (g, kv)"
  proof (rule wp_for_layers [OF assms], rule layer_stepI)
    fix i kv' and g :: 'a
    assume "i < length (kv_layers kv)" "kv_inv W S kv'"
      and len: "length (kv_layers kv') = length (kv_layers kv)" and here: "kv_layers kv' ! i = kv_layers kv ! i"
    then have "layer_ok (kv_layers kv' ! i)" using kv_inv_layer [of W S kv' i] by simp
    from wp_write_iota [OF this] here show "wp (write_iota cu) (\<lambda>_ (g', l'). fine W (kv_layers kv' ! i) l' \<and> positioned (kv_layers kv ! i) l')
        (\<lambda>(g', l'). fine W (kv_layers kv' ! i) l') (g, kv_layers kv' ! i)"
      by simp
  qed simp
  show ?thesis
    unfolding finish_ga_import_def wp_ethen
    by (rule wp_mono [OF each]) (auto simp: wp_simps changed_def kv_same_def intro!: wp_device_sync)
qed

subsection \<open>Importing pages\<close>

lemma ga_page_bytes_sum: "kv_ga_page_bytes kv = (\<Sum>l\<leftarrow>filter is_ga (kv_layers kv). page_stride l)"
  by (simp add: kv_ga_page_bytes_def ga_layers_def)

definition page_imported :: "nat \<Rightarrow> bytes \<Rightarrow> device_kv \<Rightarrow> device_kv \<Rightarrow> bool" where
  "page_imported n page kv = changed (\<lambda>i. is_ga (kv_layers kv ! i))
     (\<lambda>i l. appended n (page_part page (off_sum is_ga page_stride kv i) n l) {PlaneK, PlaneV} l)
     (length (kv_layers kv)) kv"

text \<open>Room for \<open>n\<close> rows behind those of each global layer, within the bound.\<close>

definition few_rows :: "nat \<Rightarrow> device_kv \<Rightarrow> bool" where
  "few_rows n kv \<longleftrightarrow> (\<forall>l \<in> set (kv_layers kv). is_ga l \<longrightarrow> lk_rows l + n \<le> row_max)"

lemma wp_import_ga_page:
  assumes cu: "cuda_ok cu" and inv: "kv_inv W S kv" and few: "n \<le> KV_PAGE_ROWS \<Longrightarrow> few_rows n kv"
  shows "wp (import_ga_page cu n page) (\<lambda>_ (g, kv'). kv_inv W S kv' \<and> page_imported n page kv kv')
    (\<lambda>(g, kv'). kv_inv W S kv' \<and> kv_same kv kv') (g, kv)"
proof (cases "n > KV_PAGE_ROWS \<or> length page < kv_ga_page_bytes kv")
  case True
  then show ?thesis using inv by (simp add: import_ga_page_def wp_simps)
next
  case False
  have "wp (for_layers is_ga page_stride (import_ga_layer cu n page))
    (\<lambda>_ (g, kv'). kv_inv W S kv' \<and> page_imported n page kv kv') (\<lambda>(g, kv'). kv_inv W S kv' \<and> kv_same kv kv') (g, kv)"
    unfolding page_imported_def
  proof (rule wp_for_layers [OF inv])
    fix i kv' and g :: 'a
    assume i: "i < length (kv_layers kv)" "is_ga (kv_layers kv ! i)" and inv': "kv_inv W S kv'"
      and len: "length (kv_layers kv') = length (kv_layers kv)" and here: "kv_layers kv' ! i = kv_layers kv ! i"
    have off: "off_sum is_ga page_stride kv i + page_stride (kv_layers kv' ! i) \<le> length page"
      using off_sum_room [of i kv is_ga page_stride] i False here by (simp add: ga_page_bytes_sum)
    show "layer_step W (import_ga_layer cu n page (off_sum is_ga page_stride kv i) i) i
        (appended n (page_part page (off_sum is_ga page_stride kv i) n (kv_layers kv ! i)) {PlaneK, PlaneV} (kv_layers kv ! i)) g kv'"
      unfolding layer_step_def
      by (rule wp_import_ga_layer [OF cu inv' _ _ _ off])
        (use i len here False few in \<open>auto simp: fine_def appended_def few_rows_def\<close>)
  qed
  then show ?thesis using False by (simp add: import_ga_page_def wp_simps)
qed

end
