(* ===== verification/KvTransfer.thy ===== *)
theory KvTransfer
  imports KvSafe
begin

text \<open>
  The moves between device, host pages and snapshots: a page exported from one cache and imported into
  another carries its rows over, and a saved position state loads back.
\<close>

subsection \<open>Writing segments of a buffer\<close>

definition rows_at :: "plane \<Rightarrow> layer_kv \<Rightarrow> nat \<Rightarrow> nat \<Rightarrow> bytes" where
  "rows_at p l r0 n = take (n * plane_row p l) (drop (r0 * plane_row p l) (plane_buf p l))"

lemma rows_at_fit: "layer_ok l \<Longrightarrow> r0 + n \<le> lk_cap l \<Longrightarrow> r0 * plane_row p l + n * plane_row p l \<le> length (plane_buf p l)"
  by (simp add: layer_ok_def rows_fit)

lemma length_rows_at: "layer_ok l \<Longrightarrow> r0 + n \<le> lk_cap l \<Longrightarrow> length (rows_at p l r0 n) = n * plane_row p l"
  using rows_at_fit [of l r0 n p] by (simp add: rows_at_def)

lemma live_rows_at: "live p l = rows_at p l 0 (lk_rows l)"
  by (simp add: live_def rows_at_def)

text \<open>\<open>seg buf off v\<close>: the buffer holds \<open>v\<close> at \<open>off\<close>.\<close>

definition seg :: "bytes \<Rightarrow> nat \<Rightarrow> bytes \<Rightarrow> bool" where
  "seg buf off v \<longleftrightarrow> off + length v \<le> length buf \<and> take (length v) (drop off buf) = v"

lemma seg_put: "off + length v \<le> length buf \<Longrightarrow> seg (put_bytes off v buf) off v"
  by (simp add: seg_def take_drop_put_same)

lemma seg_put_later: "seg buf a v \<Longrightarrow> a + length v \<le> off \<Longrightarrow> off + length w \<le> length buf \<Longrightarrow> seg (put_bytes off w buf) a v"
  by (simp add: seg_def take_drop_put_before)

text \<open>An effect that writes only behind \<open>off\<close>, and keeps the length.\<close>

definition behind :: "nat \<Rightarrow> bytes \<Rightarrow> bytes \<Rightarrow> bool" where
  "behind off buf buf' \<longleftrightarrow> length buf' = length buf \<and> (\<forall>a v. seg buf a v \<longrightarrow> a + length v \<le> off \<longrightarrow> seg buf' a v)"

lemma behind_refl: "behind off buf buf" by (simp add: behind_def)

lemma behind_trans: "behind off buf buf' \<Longrightarrow> behind off' buf' buf'' \<Longrightarrow> off \<le> off' \<Longrightarrow> behind off buf buf''"
  by (auto simp: behind_def)

lemma behind_put: "off + length w \<le> length buf \<Longrightarrow> behind off buf (put_bytes off w buf)"
  by (auto simp: behind_def intro: seg_put_later)

lemma behindD: "behind off buf buf' \<Longrightarrow> seg buf a v \<Longrightarrow> a + length v \<le> off \<Longrightarrow> seg buf' a v"
  by (simp add: behind_def)

lemma wp_copy_rows:
  assumes "cuda_ok cu" "layer_ok l" "r0 + n \<le> lk_cap l" "off + n * plane_row p l \<le> length buf"
  shows "wp (copy_out cu what off (plane_buf p l) (r0 * plane_row p l) (n * plane_row p l))
    (\<lambda>_ (g', buf'). behind off buf buf' \<and> seg buf' off (rows_at p l r0 n)) (\<lambda>(g', buf'). length buf' = length buf) (g, buf)"
proof -
  have len: "length (rows_at p l r0 n) = n * plane_row p l" using assms(2,3) by (rule length_rows_at)
  show ?thesis
    by (rule wp_copy_out [OF assms(1)])
      (use assms(4) rows_at_fit [OF assms(2,3), of p] len behind_put seg_put in \<open>auto simp flip: rows_at_def\<close>)
qed

subsection \<open>Exporting a page\<close>

definition ga_at :: "layer_kv list \<Rightarrow> nat \<Rightarrow> nat" where
  "ga_at ls j = (\<Sum>l\<leftarrow>take j ls. page_stride l)"

definition exported :: "nat \<Rightarrow> nat \<Rightarrow> nat \<Rightarrow> layer_kv \<Rightarrow> bytes \<Rightarrow> bool" where
  "exported r0 n off l page \<longleftrightarrow> r0 + n \<le> lk_rows l \<and> seg page off (rows_at PlaneK l r0 n) \<and>
     seg page (off + KV_PAGE_ROWS * row_k l) (rows_at PlaneV l r0 n)"

lemma wp_export_ga_layers:
  assumes cu: "cuda_ok cu" and n: "n \<le> KV_PAGE_ROWS" and fit: "r0 + n < 2 ^ 64"
    and ok: "\<And>l. l \<in> set ls \<Longrightarrow> layer_ok l" and room: "off + (\<Sum>l\<leftarrow>ls. page_stride l) \<le> length page"
  shows "wp (export_ga_layers cu r0 n off ls)
    (\<lambda>_ (g', page'). behind off page page' \<and> (\<forall>j < length ls. exported r0 n (off + ga_at ls j) (ls ! j) page'))
    (\<lambda>(g', page'). length page' = length page) (g, page)"
  using ok room
proof (induction ls arbitrary: off page g)
  case Nil
  then show ?case by (simp add: wp_simps behind_refl)
next
  case (Cons l ls)
  let ?vo = "off + KV_PAGE_ROWS * row_k l"
  have l: "layer_ok l" by (rule Cons.prems(1)) simp
  have stride: "page_stride l = KV_PAGE_ROWS * row_k l + KV_PAGE_ROWS * row_v l"
    by (simp add: page_stride_def add_mult_distrib2)
  have nk: "n * row_k l \<le> KV_PAGE_ROWS * row_k l" and nv: "n * row_v l \<le> KV_PAGE_ROWS * row_v l"
    using n by (rule mult_le_mono1)+
  have end_: "off + page_stride l + (\<Sum>l\<leftarrow>ls. page_stride l) \<le> length page" using Cons.prems(2) by simp
  show ?case
  proof (cases "r0 + n \<le> lk_rows l")
    case False
    then show ?thesis by (simp add: wp_simps usize_add_no_wrap [OF fit])
  next
    case True
    then have cap: "r0 + n \<le> lk_cap l" using l by (simp add: layer_ok_def)
    have "r0 \<le> cap_max" using layer_ok_cap [OF l, of r0] cap by simp
    note mul = sized_row [OF layer_ok_sized [OF l] this]
    have lens: "length (rows_at PlaneK l r0 n) = n * row_k l" "length (rows_at PlaneV l r0 n) = n * row_v l"
      using length_rows_at [OF l cap, of PlaneK] length_rows_at [OF l cap, of PlaneV] by simp_all
    have room: "off + n * row_k l \<le> length page" "?vo + n * row_v l \<le> length page"
      using nk nv end_ stride by linarith+
    have third: "wp (export_ga_layers cu r0 n (off + page_stride l) ls)
        (\<lambda>_ (g', page'). behind off page page' \<and> (\<forall>j < length (l # ls). exported r0 n (off + ga_at (l # ls) j) ((l # ls) ! j) page'))
        (\<lambda>(g', page'). length page' = length page) (g2, p2)"
      if p1: "behind off page p1" "seg p1 off (rows_at PlaneK l r0 n)"
        and p2: "behind ?vo p1 p2" "seg p2 ?vo (rows_at PlaneV l r0 n)" for g2 p1 p2
    proof (rule wp_mono)
      have len2: "length p2 = length page" using p1(1) p2(1) by (simp add: behind_def)
      show "wp (export_ga_layers cu r0 n (off + page_stride l) ls)
        (\<lambda>_ (g', page'). behind (off + page_stride l) p2 page' \<and>
          (\<forall>j < length ls. exported r0 n (off + page_stride l + ga_at ls j) (ls ! j) page'))
        (\<lambda>(g', page'). length page' = length p2) (g2, p2)"
        by (rule Cons.IH) (use Cons.prems(1) end_ len2 in simp_all)
      fix x s
      assume post: "case s of (g', page') \<Rightarrow> behind (off + page_stride l) p2 page' \<and>
          (\<forall>j < length ls. exported r0 n (off + page_stride l + ga_at ls j) (ls ! j) page')"
      obtain g' page' where s: "s = (g', page')" by force
      have b: "behind (off + page_stride l) p2 page'" using post s by simp
      have "seg p2 off (rows_at PlaneK l r0 n)"
        by (rule behindD [OF p2(1) p1(2)]) (use nk lens in linarith)
      then have "seg page' off (rows_at PlaneK l r0 n)"
        by (rule behindD [OF b]) (use nk lens stride in linarith)
      moreover have "seg page' ?vo (rows_at PlaneV l r0 n)"
        by (rule behindD [OF b p2(2)]) (use nv lens stride in linarith)
      ultimately have "exported r0 n off l page'" using True by (simp add: exported_def)
      then have "exported r0 n (off + ga_at (l # ls) j) ((l # ls) ! j) page'" if "j < length (l # ls)" for j
        using post s that by (cases j) (simp_all add: ga_at_def add.assoc)
      moreover have "behind off page page'"
        by (rule behind_trans [OF p1(1) behind_trans [OF p2(1) b]]) (simp_all add: stride)
      ultimately show "case s of (g', page') \<Rightarrow> behind off page page' \<and>
          (\<forall>j < length (l # ls). exported r0 n (off + ga_at (l # ls) j) ((l # ls) ! j) page')"
        by (simp add: s)
    qed (use that in \<open>auto simp: behind_def\<close>)
    have second: "wp (copy_out cu ''export ga v'' ?vo (lk_v l) (r0 * row_v l) (n * row_v l))
        (\<lambda>_. wp (export_ga_layers cu r0 n (off + page_stride l) ls)
          (\<lambda>_ (g', page'). behind off page page' \<and> (\<forall>j < length (l # ls). exported r0 n (off + ga_at (l # ls) j) ((l # ls) ! j) page'))
          (\<lambda>(g', page'). length page' = length page)) (\<lambda>(g', page'). length page' = length page) (g1, p1)"
      if p1: "behind off page p1" "seg p1 off (rows_at PlaneK l r0 n)" for g1 p1
    proof (rule wp_mono)
      have len: "length p1 = length page" using p1(1) by (simp add: behind_def)
      show "wp (copy_out cu ''export ga v'' ?vo (lk_v l) (r0 * row_v l) (n * row_v l))
          (\<lambda>_ (g', buf'). behind ?vo p1 buf' \<and> seg buf' ?vo (rows_at PlaneV l r0 n))
          (\<lambda>(g', buf'). length buf' = length p1) (g1, p1)"
        using wp_copy_rows [OF cu l cap, of ?vo PlaneV p1] room(2) len by simp
    qed (use third [OF p1] p1(1) in \<open>auto simp: behind_def\<close>)
    have first: "wp (copy_out cu ''export ga k'' off (lk_k l) (r0 * row_k l) (n * row_k l))
        (\<lambda>_ (g', buf'). behind off page buf' \<and> seg buf' off (rows_at PlaneK l r0 n))
        (\<lambda>(g', buf'). length buf' = length page) (g, page)"
      using wp_copy_rows [OF cu l cap, of off PlaneK page] room(1) by simp
    have "(usize_add r0 n > lk_rows l) = False" using True by (simp add: usize_add_no_wrap [OF fit])
    then show ?thesis
      unfolding export_ga_layers.simps
      by (simp only: wp_simps if_False mul) (rule wp_mono [OF first], use second in \<open>auto simp: wp_ethen\<close>)
  qed
qed

definition page_exported :: "nat \<Rightarrow> nat \<Rightarrow> device_kv \<Rightarrow> bytes \<Rightarrow> bool" where
  "page_exported r0 n kv page \<longleftrightarrow> (\<forall>i < length (kv_layers kv). is_ga (kv_layers kv ! i) \<longrightarrow>
     exported r0 n (off_sum is_ga page_stride kv i) (kv_layers kv ! i) page)"

lemma nth_filter_at:
  assumes "i < length xs" "P (xs ! i)"
  shows "length (filter P (take i xs)) < length (filter P xs)" "filter P xs ! length (filter P (take i xs)) = xs ! i"
    "take (length (filter P (take i xs))) (filter P xs) = filter P (take i xs)"
proof -
  have "filter P xs = filter P (take i xs) @ xs ! i # filter P (drop (Suc i) xs)"
    using assms by (subst id_take_nth_drop [OF assms(1)]) simp
  then show "length (filter P (take i xs)) < length (filter P xs)" "filter P xs ! length (filter P (take i xs)) = xs ! i"
    "take (length (filter P (take i xs))) (filter P xs) = filter P (take i xs)" by simp_all
qed

lemma wp_export_ga_page:
  assumes cu: "cuda_ok cu" and inv: "kv_inv W S kv" and fit: "r0 + n < 2 ^ 64"
  shows "wp (export_ga_page cu kv r0 n)
    (\<lambda>_ (g', page'). length page' = length page \<and> n \<le> KV_PAGE_ROWS \<and> kv_ga_page_bytes kv \<le> length page \<and> page_exported r0 n kv page')
    (\<lambda>(g', page'). length page' = length page) (g, page)"
proof (cases "n > KV_PAGE_ROWS \<or> length page < kv_ga_page_bytes kv")
  case True
  then show ?thesis by (simp add: export_ga_page_def wp_simps)
next
  case False
  have layers: "layer_ok l" if "l \<in> set (ga_layers kv)" for l
    using that inv by (auto simp: ga_layers_def kv_inv_def kv_ok_def)
  have "wp (export_ga_layers cu r0 n 0 (ga_layers kv))
      (\<lambda>_ (g', page'). length page' = length page \<and> n \<le> KV_PAGE_ROWS \<and> kv_ga_page_bytes kv \<le> length page \<and> page_exported r0 n kv page')
      (\<lambda>(g', page'). length page' = length page) (g, page)"
  proof (rule wp_mono)
    show "wp (export_ga_layers cu r0 n 0 (ga_layers kv))
      (\<lambda>_ (g', page'). behind 0 page page' \<and>
        (\<forall>j < length (ga_layers kv). exported r0 n (0 + ga_at (ga_layers kv) j) (ga_layers kv ! j) page'))
      (\<lambda>(g', page'). length page' = length page) (g, page)"
      by (rule wp_export_ga_layers [OF cu _ fit layers]) (use False in \<open>simp_all add: kv_ga_page_bytes_def\<close>)
    fix x s
    assume post: "case s of (g', page') \<Rightarrow> behind 0 page page' \<and>
        (\<forall>j < length (ga_layers kv). exported r0 n (0 + ga_at (ga_layers kv) j) (ga_layers kv ! j) page')"
    obtain g' page' where s: "s = (g', page')" by force
    have "exported r0 n (off_sum is_ga page_stride kv i) (kv_layers kv ! i) page'"
      if "i < length (kv_layers kv)" "is_ga (kv_layers kv ! i)" for i
    proof -
      let ?j = "length (filter is_ga (take i (kv_layers kv)))"
      note at = nth_filter_at [where P = is_ga, OF that]
      have "exported r0 n (0 + ga_at (ga_layers kv) ?j) (ga_layers kv ! ?j) page'"
        using post s at(1) by (simp add: ga_layers_def)
      then show ?thesis using at by (simp add: ga_layers_def ga_at_def off_sum_def)
    qed
    then show "case s of (g', page') \<Rightarrow> length page' = length page \<and> n \<le> KV_PAGE_ROWS \<and> kv_ga_page_bytes kv \<le> length page \<and>
        page_exported r0 n kv page'"
      using post False by (simp add: s page_exported_def behind_def)
  qed simp
  then show ?thesis using False by (simp add: export_ga_page_def wp_simps)
qed

text \<open>The page is the rows: what an import of it appends is what the export read.\<close>

lemma off_sum_shape:
  assumes "\<And>l l'. geom l' = geom l \<Longrightarrow> P l' = P l \<and> f l' = f l" "kv_shape kv' = kv_shape kv"
  shows "off_sum P f kv' i = off_sum P f kv i"
  unfolding off_sum_def by (rule sum_geom [OF assms(1)]) (use assms(2) in \<open>auto simp: kv_shape_def take_map [symmetric]\<close>)

lemma page_stride_geom: "geom l' = geom l \<Longrightarrow> page_stride l' = page_stride l"
  by (simp add: page_stride_def geom_def)

lemma page_off_shape: "kv_shape kv' = kv_shape kv \<Longrightarrow> off_sum is_ga page_stride kv' i = off_sum is_ga page_stride kv i"
  by (rule off_sum_shape) (use geom_is(2) page_stride_geom in blast)

lemma page_part_exported:
  assumes "exported r0 n off l page" "layer_ok l" "geom l' = geom l" "p = PlaneK \<or> p = PlaneV"
  shows "page_part page off n l' p = rows_at p l r0 n"
proof -
  have cap: "r0 + n \<le> lk_cap l" using assms(1,2) by (simp add: exported_def layer_ok_def)
  have "row_k l' = row_k l" "plane_row p l' = plane_row p l"
    using geom_eqD [OF assms(3)] geom_plane_row [OF assms(3)] by simp_all
  then show ?thesis
    using assms(1,4) length_rows_at [OF assms(2) cap, of p] by (auto simp: page_part_def exported_def seg_def)
qed

subsection \<open>Saving the position state\<close>

lemma wp_rows_then:
  assumes "cuda_ok cu" "layer_ok l" "r0 + n \<le> lk_cap l" "off + n * plane_row p l \<le> length buf"
    and "\<And>g' buf'. behind off buf buf' \<Longrightarrow> seg buf' off (rows_at p l r0 n) \<Longrightarrow> length buf' = length buf \<Longrightarrow> wp m Q E (g', buf')"
    and "\<And>g' buf'. length buf' = length buf \<Longrightarrow> E (g', buf')"
  shows "wp (ethen (copy_out cu what off (plane_buf p l) (r0 * plane_row p l) (n * plane_row p l)) m) Q E (g, buf)"
  unfolding wp_ethen
  by (rule wp_mono [OF wp_copy_rows [OF assms(1-4)]]) (use assms(5,6) in \<open>auto simp: behind_def\<close>)

fun plane_off :: "nat \<Rightarrow> layer_kv \<Rightarrow> plane \<Rightarrow> nat" where
  "plane_off keep l PlaneK = 0"
| "plane_off keep l PlaneV = keep * row_k l"
| "plane_off keep l PlanePos = keep * row_k l + keep * row_v l"

definition saved :: "nat \<Rightarrow> nat \<Rightarrow> nat \<Rightarrow> layer_kv \<Rightarrow> bytes \<Rightarrow> bool" where
  "saved keep_max n off l buf \<longleftrightarrow> min (lk_rows l) keep_max = n \<and>
     (\<forall>p. seg buf (off + plane_off keep_max l p) (rows_at p l (lk_rows l - n) n))"

lemma plane_off_room:
  "n \<le> keep \<Longrightarrow> plane_off keep l p + n * plane_row p l \<le> swa_stride keep l"
proof -
  assume "n \<le> keep"
  then have "n * plane_row p l \<le> keep * plane_row p l" by (rule mult_le_mono1)
  moreover have "plane_off keep l p + keep * plane_row p l \<le> swa_stride keep l"
    by (cases p) (simp_all add: swa_stride_def add_mult_distrib2)
  ultimately show ?thesis by linarith
qed

lemma saved_behind:
  assumes "saved keep_max n off l buf" "layer_ok l" "behind off' buf buf'" "off + swa_stride keep_max l \<le> off'"
  shows "saved keep_max n off l buf'"
proof -
  have n: "n \<le> keep_max" "lk_rows l - n + n \<le> lk_cap l" using assms(1,2) by (auto simp: saved_def layer_ok_def)
  have "seg buf' (off + plane_off keep_max l p) (rows_at p l (lk_rows l - n) n)" for p
    by (rule behindD [OF assms(3)])
      (use assms(1,4) plane_off_room [OF n(1), of l p] length_rows_at [OF assms(2) n(2), of p] in \<open>auto simp: saved_def\<close>)
  then show ?thesis using assms(1) by (simp add: saved_def)
qed

definition swa_at :: "nat \<Rightarrow> layer_kv list \<Rightarrow> nat \<Rightarrow> nat" where
  "swa_at keep ls j = (\<Sum>l\<leftarrow>take j ls. swa_stride keep l)"

lemma wp_export_swa_layers:
  assumes cu: "cuda_ok cu" and ok: "\<And>l. l \<in> set ls \<Longrightarrow> layer_ok l"
    and room: "off + (\<Sum>l\<leftarrow>ls. swa_stride km l) \<le> length buf"
  shows "wp (export_swa_layers cu what km seen off ls)
    (\<lambda>r (g', buf'). behind off buf buf' \<and> (case seen of Some k \<Rightarrow> r = Some k | None \<Rightarrow> ls = [] \<longrightarrow> r = None) \<and>
       (\<forall>j < length ls. saved km (seen_rows r) (off + swa_at km ls j) (ls ! j) buf'))
    (\<lambda>(g', buf'). length buf' = length buf) (g, buf)"
  using ok room
proof (induction ls arbitrary: seen off buf g)
  case Nil
  then show ?case by (simp add: wp_simps behind_refl split: option.split)
next
  case (Cons l ls)
  have l: "layer_ok l" by (rule Cons.prems(1)) simp
  define n where "n = min (lk_rows l) km"
  define k where "k = (case seen of None \<Rightarrow> n | Some k \<Rightarrow> k)"
  let ?Q = "\<lambda>r (g', buf'). behind off buf buf' \<and> (case seen of Some k \<Rightarrow> r = Some k | None \<Rightarrow> l # ls = [] \<longrightarrow> r = None) \<and>
       (\<forall>j < length (l # ls). saved km (seen_rows r) (off + swa_at km (l # ls) j) ((l # ls) ! j) buf')"
  let ?E = "\<lambda>(g', buf'). length buf' = length buf"
  show ?case
  proof (cases "k = n")
    case False
    then show ?thesis by (simp add: wp_simps Let_def flip: n_def k_def)
  next
    case True
    have n: "n \<le> km" "lk_rows l - n + n \<le> lk_cap l" using l by (auto simp: n_def layer_ok_def)
    note fit = plane_off_room [OF n(1), of l] and len = length_rows_at [OF l n(2)]
    have gap: "plane_off km l PlaneK + n * plane_row PlaneK l \<le> plane_off km l PlanePos"
      "plane_off km l PlaneV + n * plane_row PlaneV l \<le> plane_off km l PlanePos"
      using mult_le_mono1 [OF n(1), of "row_k l"] mult_le_mono1 [OF n(1), of "row_v l"]
      unfolding plane_off.simps plane_row.simps by linarith+
    have total: "off + swa_stride km l + (\<Sum>l\<leftarrow>ls. swa_stride km l) \<le> length buf" using Cons.prems(2) by simp
    have tail: "wp (export_swa_layers cu what km (Some n) (off + swa_stride km l) ls) ?Q ?E (g3, b3)"
      if b: "behind off buf b3" and sv: "saved km n off l b3" for g3 b3
    proof (rule wp_mono)
      have len3: "length b3 = length buf" using b by (simp add: behind_def)
      show "wp (export_swa_layers cu what km (Some n) (off + swa_stride km l) ls)
        (\<lambda>r (g', buf'). behind (off + swa_stride km l) b3 buf' \<and> (case Some n of Some k \<Rightarrow> r = Some k | None \<Rightarrow> ls = [] \<longrightarrow> r = None) \<and>
          (\<forall>j < length ls. saved km (seen_rows r) (off + swa_stride km l + swa_at km ls j) (ls ! j) buf'))
        (\<lambda>(g', buf'). length buf' = length b3) (g3, b3)"
        by (rule Cons.IH) (use Cons.prems(1) total len3 in simp_all)
      fix r s
      assume post: "case s of (g', buf') \<Rightarrow> behind (off + swa_stride km l) b3 buf' \<and>
          (case Some n of Some k \<Rightarrow> r = Some k | None \<Rightarrow> ls = [] \<longrightarrow> r = None) \<and>
          (\<forall>j < length ls. saved km (seen_rows r) (off + swa_stride km l + swa_at km ls j) (ls ! j) buf')"
      obtain g' b' where s: "s = (g', b')" by force
      have r: "r = Some n" and b': "behind (off + swa_stride km l) b3 b'" using post s by simp_all
      have "saved km n off l b'" by (rule saved_behind [OF sv l b']) simp
      then have "saved km (seen_rows r) (off + swa_at km (l # ls) j) ((l # ls) ! j) b'" if "j < length (l # ls)" for j
        using post s that r by (cases j) (simp_all add: swa_at_def seen_rows_def add.assoc)
      then show "?Q r s"
        using behind_trans [OF b b'] True r by (auto simp: s k_def split: option.splits)
    qed (use b in \<open>auto simp: behind_def\<close>)
    have "wp (export_swa_layers cu what km seen off (l # ls)) ?Q ?E (g, buf)
        = wp (ethen (copy_out cu (what @ '' k'') (off + plane_off km l PlaneK) (plane_buf PlaneK l) ((lk_rows l - n) * plane_row PlaneK l) (n * plane_row PlaneK l))
       (ethen (copy_out cu (what @ '' v'') (off + plane_off km l PlaneV) (plane_buf PlaneV l) ((lk_rows l - n) * plane_row PlaneV l) (n * plane_row PlaneV l))
       (ethen (copy_out cu (what @ '' pos'') (off + plane_off km l PlanePos) (plane_buf PlanePos l) ((lk_rows l - n) * plane_row PlanePos l) (n * plane_row PlanePos l))
              (export_swa_layers cu what km (Some n) (off + swa_stride km l) ls)))) ?Q ?E (g, buf)"
      using True by (simp add: Let_def add.assoc flip: n_def k_def)
    also have "\<dots>"
    proof (rule wp_rows_then [OF cu l n(2)])
      show "off + plane_off km l PlaneK + n * plane_row PlaneK l \<le> length buf" using fit [of PlaneK] total by linarith
      fix g1 b1 assume b1: "behind (off + plane_off km l PlaneK) buf b1" "length b1 = length buf"
        and s1: "seg b1 (off + plane_off km l PlaneK) (rows_at PlaneK l (lk_rows l - n) n)"
      show "wp (ethen (copy_out cu (what @ '' v'') (off + plane_off km l PlaneV) (plane_buf PlaneV l) ((lk_rows l - n) * plane_row PlaneV l) (n * plane_row PlaneV l))
       (ethen (copy_out cu (what @ '' pos'') (off + plane_off km l PlanePos) (plane_buf PlanePos l) ((lk_rows l - n) * plane_row PlanePos l) (n * plane_row PlanePos l))
              (export_swa_layers cu what km (Some n) (off + swa_stride km l) ls))) ?Q ?E (g1, b1)"
      proof (rule wp_rows_then [OF cu l n(2)])
        show "off + plane_off km l PlaneV + n * plane_row PlaneV l \<le> length b1" using fit [of PlaneV] total b1(2) by linarith
        fix g2 b2 assume b2: "behind (off + plane_off km l PlaneV) b1 b2" "length b2 = length b1"
          and s2: "seg b2 (off + plane_off km l PlaneV) (rows_at PlaneV l (lk_rows l - n) n)"
        have k2: "seg b2 (off + plane_off km l PlaneK) (rows_at PlaneK l (lk_rows l - n) n)"
          by (rule behindD [OF b2(1) s1]) (use len [of PlaneK] n(1) in simp)
        show "wp (ethen (copy_out cu (what @ '' pos'') (off + plane_off km l PlanePos) (plane_buf PlanePos l) ((lk_rows l - n) * plane_row PlanePos l) (n * plane_row PlanePos l))
              (export_swa_layers cu what km (Some n) (off + swa_stride km l) ls)) ?Q ?E (g2, b2)"
        proof (rule wp_rows_then [OF cu l n(2)])
          show "off + plane_off km l PlanePos + n * plane_row PlanePos l \<le> length b2" using fit [of PlanePos] total b1(2) b2(2) by linarith
          fix g3 b3 assume b3: "behind (off + plane_off km l PlanePos) b2 b3" "length b3 = length b2"
            and s3: "seg b3 (off + plane_off km l PlanePos) (rows_at PlanePos l (lk_rows l - n) n)"
          have "seg b3 (off + plane_off km l PlaneK) (rows_at PlaneK l (lk_rows l - n) n)"
            by (rule behindD [OF b3(1) k2]) (use len [of PlaneK] gap(1) in linarith)
          moreover have "seg b3 (off + plane_off km l PlaneV) (rows_at PlaneV l (lk_rows l - n) n)"
            by (rule behindD [OF b3(1) s2]) (use len [of PlaneV] gap(2) in linarith)
          ultimately have "saved km n off l b3" using s3 by (auto simp: saved_def all_planes n_def)
          moreover have "behind off buf b3"
            using behind_trans [OF b1(1) behind_trans [OF b2(1) b3(1)]] by simp
          ultimately show "wp (export_swa_layers cu what km (Some n) (off + swa_stride km l) ls) ?Q ?E (g3, b3)" by (rule tail [rotated])
        qed (use b1 b2 in simp)
      qed (use b1 in simp)
    qed simp
    finally show ?thesis .
  qed
qed

definition state_saved :: "device_kv \<Rightarrow> nat \<Rightarrow> bytes \<Rightarrow> bool" where
  "state_saved kv n buf \<longleftrightarrow> n \<le> swa_keep_max kv \<and>
     (\<forall>i < length (kv_layers kv). is_swa (kv_layers kv ! i) \<longrightarrow>
        saved (swa_keep_max kv) n (off_sum is_swa (swa_stride (swa_keep_max kv)) kv i) (kv_layers kv ! i) buf) \<and>
     (\<forall>d. kv_draft kv = Some d \<longrightarrow> draft_saved d (swa_state_bytes kv) buf)"

lemma behind_take:
  assumes "length buf' = length buf" "take base buf' = take base buf"
  shows "behind base buf buf'"
proof -
  have "take n (drop a buf') = take n (drop a buf)" if "a + n \<le> base" for a n
  proof -
    have "take n (drop a xs) = take n (drop a (take base xs))" for xs :: bytes
      using that by (simp add: drop_take)
    then show ?thesis using assms(2) by metis
  qed
  then show ?thesis using assms(1) by (auto simp: behind_def seg_def)
qed

lemma swa_state_bytes_sum: "swa_state_bytes kv = (\<Sum>l\<leftarrow>filter is_swa (kv_layers kv). swa_stride (swa_keep_max kv) l)"
  by (simp add: swa_state_bytes_def swa_layers_def)

lemma wp_export_state:
  assumes cu: "cuda_ok cu" and inv: "kv_inv W S kv" and room: "swa_state_bytes kv \<le> length buf"
  shows "wp (export_swa_layers cu what (swa_keep_max kv) None 0 (swa_layers kv))
    (\<lambda>r (g', buf'). length buf' = length buf \<and> seen_rows r \<le> swa_keep_max kv \<and> (\<forall>i < length (kv_layers kv). is_swa (kv_layers kv ! i) \<longrightarrow>
        saved (swa_keep_max kv) (seen_rows r) (off_sum is_swa (swa_stride (swa_keep_max kv)) kv i) (kv_layers kv ! i) buf'))
    (\<lambda>(g', buf'). length buf' = length buf) (g, buf)"
proof (rule wp_mono)
  let ?km = "swa_keep_max kv"
  show "wp (export_swa_layers cu what ?km None 0 (swa_layers kv))
    (\<lambda>r (g', buf'). behind 0 buf buf' \<and> (case None of Some k \<Rightarrow> r = Some k | None \<Rightarrow> swa_layers kv = [] \<longrightarrow> r = None) \<and>
       (\<forall>j < length (swa_layers kv). saved ?km (seen_rows r) (0 + swa_at ?km (swa_layers kv) j) (swa_layers kv ! j) buf'))
    (\<lambda>(g', buf'). length buf' = length buf) (g, buf)"
    by (rule wp_export_swa_layers [OF cu])
      (use inv room in \<open>auto simp: swa_layers_def kv_inv_def kv_ok_def swa_state_bytes_def\<close>)
  fix r s
  assume post: "case s of (g', buf') \<Rightarrow> behind 0 buf buf' \<and> (case None of Some k \<Rightarrow> r = Some k | None \<Rightarrow> swa_layers kv = [] \<longrightarrow> r = None) \<and>
       (\<forall>j < length (swa_layers kv). saved ?km (seen_rows r) (0 + swa_at ?km (swa_layers kv) j) (swa_layers kv ! j) buf')"
  obtain g' b where s: "s = (g', b)" by force
  have each: "saved ?km (seen_rows r) (off_sum is_swa (swa_stride ?km) kv i) (kv_layers kv ! i) b"
    if "i < length (kv_layers kv)" "is_swa (kv_layers kv ! i)" for i
  proof -
    let ?j = "length (filter is_swa (take i (kv_layers kv)))"
    note at = nth_filter_at [where P = is_swa, OF that]
    have "saved ?km (seen_rows r) (0 + swa_at ?km (swa_layers kv) ?j) (swa_layers kv ! ?j) b"
      using post s at(1) by (simp add: swa_layers_def)
    then show ?thesis using at by (simp add: swa_layers_def swa_at_def off_sum_def)
  qed
  have "seen_rows r \<le> ?km"
  proof (cases "swa_layers kv")
    case Nil
    then show ?thesis using post s by (simp add: seen_rows_def)
  next
    case (Cons l ls)
    have "\<forall>j < length (swa_layers kv). saved ?km (seen_rows r) (0 + swa_at ?km (swa_layers kv) j) (swa_layers kv ! j) b"
      using post s by simp
    from this [rule_format, of 0] Cons have "saved ?km (seen_rows r) (0 + swa_at ?km (swa_layers kv) 0) (swa_layers kv ! 0) b"
      by simp
    then show ?thesis by (auto simp: saved_def)
  qed
  then show "case s of (g', buf') \<Rightarrow> length buf' = length buf \<and> seen_rows r \<le> ?km \<and> (\<forall>i < length (kv_layers kv). is_swa (kv_layers kv ! i) \<longrightarrow>
        saved ?km (seen_rows r) (off_sum is_swa (swa_stride ?km) kv i) (kv_layers kv ! i) buf')"
    using post each by (simp add: s behind_def)
qed

lemma wp_save_state_dev:
  assumes cu: "cuda_ok cu" and inv: "kv_inv W S kv"
  shows "wp (save_state_dev cu kv) (\<lambda>n (g', buf'). length buf' = length buf \<and> kv_state_bytes kv \<le> length buf \<and> state_saved kv n buf')
    (\<lambda>(g', buf'). length buf' = length buf) (g, buf)"
proof (cases "length buf < kv_state_bytes kv")
  case True
  then show ?thesis by (simp add: save_state_dev_def wp_simps)
next
  case False
  let ?km = "swa_keep_max kv" and ?base = "swa_state_bytes kv"
  have room: "?base \<le> length buf" using False by (simp add: kv_state_bytes_def)
  have rest: "wp (case kv_draft kv of None \<Rightarrow> eret () | Some d \<Rightarrow> draft_save_dev cu d ?base)
      (\<lambda>_ (g', buf'). length buf' = length buf \<and> kv_state_bytes kv \<le> length buf \<and> state_saved kv n buf')
      (\<lambda>(g', buf'). length buf' = length buf) (g1, b1)"
    if len: "length b1 = length buf" and n: "n \<le> ?km" and sv: "\<forall>i < length (kv_layers kv). is_swa (kv_layers kv ! i) \<longrightarrow>
        saved ?km n (off_sum is_swa (swa_stride ?km) kv i) (kv_layers kv ! i) b1" for n g1 b1
  proof (cases "kv_draft kv")
    case None
    then show ?thesis using len n sv False by (simp add: wp_simps state_saved_def)
  next
    case (Some d)
    have "draft_ok d" using inv Some by (simp add: kv_inv_def kv_ok_def)
    have "wp (draft_save_dev cu d ?base)
      (\<lambda>_ (g', buf'). length buf' = length b1 \<and> take ?base buf' = take ?base b1 \<and> draft_saved d ?base buf')
      (\<lambda>(g', buf'). length buf' = length b1) (g1, b1)"
      unfolding draft_save_dev_def
      by (rule wp_copy_rings [OF cu \<open>draft_ok d\<close>]) (use False Some len in \<open>simp add: kv_state_bytes_def draft_state_bytes_def\<close>)
    then show ?thesis unfolding Some option.case
    proof (rule wp_mono)
      fix x s assume "case s of (g', buf') \<Rightarrow> length buf' = length b1 \<and> take ?base buf' = take ?base b1 \<and> draft_saved d ?base buf'"
      then obtain g' b where s: "s = (g', b)" "length b = length b1" "draft_saved d ?base b" and b: "behind ?base b1 b"
        by (auto simp: behind_take)
      have "saved ?km n (off_sum is_swa (swa_stride ?km) kv i) (kv_layers kv ! i) b"
        if "i < length (kv_layers kv)" "is_swa (kv_layers kv ! i)" for i
        by (rule saved_behind [OF _ _ b])
          (use sv that off_sum_room [of i kv is_swa "swa_stride ?km"] kv_inv_layer [OF inv] in \<open>auto simp: swa_state_bytes_sum\<close>)
      then show "case s of (g', buf') \<Rightarrow> length buf' = length buf \<and> kv_state_bytes kv \<le> length buf \<and> state_saved kv n buf'"
        using s len n False Some by (simp add: state_saved_def)
    qed (use len in auto)
  qed
  have keep: "(case s of (g', b) \<Rightarrow> length b = length buf \<and> seen_rows r \<le> ?km \<and> (\<forall>i < length (kv_layers kv). is_swa (kv_layers kv ! i) \<longrightarrow>
        saved ?km (seen_rows r) (off_sum is_swa (swa_stride ?km) kv i) (kv_layers kv ! i) b)) \<Longrightarrow>
      wp (ethen (case kv_draft kv of None \<Rightarrow> eret () | Some d \<Rightarrow> draft_save_dev cu d ?base) (eret (seen_rows r)))
      (\<lambda>n (g', buf'). length buf' = length buf \<and> kv_state_bytes kv \<le> length buf \<and> state_saved kv n buf')
      (\<lambda>(g', buf'). length buf' = length buf) s" for r s
    by (cases s, simp add: wp_ethen) (rule wp_mono [OF rest], auto simp: wp_eret)
  have no: "(length buf < kv_state_bytes kv) = False" using False by simp
  show ?thesis
    unfolding save_state_dev_def
    by (simp only: wp_ebind wp_eget snd_conv no if_False) (rule wp_mono [OF wp_export_state [OF cu inv room]], rule keep, simp_all)
qed

subsection \<open>Loading the position state\<close>

definition loaded :: "nat \<Rightarrow> nat \<Rightarrow> bytes \<Rightarrow> nat \<Rightarrow> layer_kv \<Rightarrow> layer_kv \<Rightarrow> bool" where
  "loaded keep_max n src off l l' \<longleftrightarrow> lk_rows l' = n \<and> geom l' = geom l \<and>
     (\<forall>p. live p l' = take (n * plane_row p l) (drop (off + plane_off keep_max l p) src))"

lemma wp_import_swa_layer:
  assumes cu: "cuda_ok cu" and i: "i < length (kv_layers kv)" and l: "layer_ok (kv_layers kv ! i)"
    and n: "n \<le> keep_max" "n \<le> lk_cap (kv_layers kv ! i)" and room: "off + swa_stride keep_max (kv_layers kv ! i) \<le> length src"
  shows "layer_step W (import_swa_layer cu what keep_max n src off i) i (loaded keep_max n src off (kv_layers kv ! i)) g kv"
  unfolding import_swa_layer_def
proof (rule layer_stepI [OF i])
  let ?l = "kv_layers kv ! i"
  let ?src = "\<lambda>p. off + plane_off keep_max ?l p"
  let ?v = "\<lambda>p. take (n * plane_row p ?l) (drop (?src p) src)"
  let ?b = "\<lambda>p. put_bytes 0 (?v p) (plane_buf p ?l)"
  have sfit: "?src p + n * plane_row p ?l \<le> length src" for p
    using plane_off_room [OF n(1), of ?l p] room by linarith
  have dfit: "n * plane_row p ?l \<le> length (plane_buf p ?l)" for p
    using l n(2) by (simp add: layer_ok_def)
  have vlen: "length (?v p) = n * plane_row p ?l" for p using sfit [of p] by simp
  have blen: "length (?b p) = length (plane_buf p ?l)" for p using vlen [of p] dfit [of p] by simp
  have taken: "take (n * plane_row p ?l) (?b p) = ?v p" for p
    using take_put_start [of "?v p" "plane_buf p ?l"] vlen [of p] dfit [of p] by simp
  have err: "fine W ?l l'" if "layer_ok l'" "geom l' = geom ?l" "lk_cap l' = lk_cap ?l" for l'
    using that by (simp add: fine_def)
  note ok1 = layer_ok_set_plane [OF l blen [of PlaneK]]
  have ok2: "layer_ok (set_plane PlaneV (?b PlaneV) (set_plane PlaneK (?b PlaneK) ?l))"
    by (rule layer_ok_set_plane [OF ok1]) (use blen [of PlaneV] in simp)
  let ?l' = "(set_plane PlanePos (?b PlanePos) (set_plane PlaneV (?b PlaneV) (set_plane PlaneK (?b PlaneK) ?l)))\<lparr>lk_rows := n\<rparr>"
  have ok3: "layer_ok (set_plane PlanePos (?b PlanePos) (set_plane PlaneV (?b PlaneV) (set_plane PlaneK (?b PlaneK) ?l)))"
    by (rule layer_ok_set_plane [OF ok2]) (use blen [of PlanePos] in simp)
  have "live p ?l' = ?v p" for p
    using taken [of p] by (cases p) (simp_all add: live_rows_update)
  then have fin: "fine W ?l ?l' \<and> loaded keep_max n src off ?l ?l'"
    using layer_ok_rows [OF ok3, of n] n(2) by (simp add: fine_def loaded_def)
  show "wp (ebind (eget snd) (\<lambda>l. let vo = off + keep_max * row_k l; po = vo + keep_max * row_v l in
     ethen (copy_in cu (what @ '' k'') PlaneK 0 src off (n * row_k l))
    (ethen (copy_in cu (what @ '' v'') PlaneV 0 src vo (n * row_v l))
    (ethen (copy_in cu (what @ '' pos'') PlanePos 0 src po (n * 8))
           (emodify (\<lambda>(g, l). (g, l\<lparr>lk_rows := n\<rparr>)))))))
     (\<lambda>_ (g', l'). fine W ?l l' \<and> loaded keep_max n src off ?l l') (\<lambda>(g', l'). fine W ?l l') (g, ?l)"
    unfolding Let_def
    apply (simp only: wp_simps snd_conv)
    apply (rule wp_copy_in [OF cu])
       apply (use dfit [of PlaneK] in simp)
      apply (use sfit [of PlaneK] in simp)
     defer
     apply (simp, rule err, simp_all add: layer_ok_set_plane l) [1]
    apply (simp only: wp_simps)
    apply (rule wp_copy_in [OF cu])
       apply (use dfit [of PlaneV] in simp)
      apply (use sfit [of PlaneV] in \<open>simp add: add.assoc\<close>)
     defer
     apply (simp, rule err, rule layer_ok_set_plane, use ok1 in simp, simp_all) [1]
    apply (simp only: wp_simps)
    apply (rule wp_copy_in [OF cu])
       apply (use dfit [of PlanePos] in simp)
      apply (use sfit [of PlanePos] in \<open>simp add: add.assoc\<close>)
     defer
     apply (simp, rule err, rule layer_ok_set_plane, use ok2 in \<open>simp add: add.assoc\<close>, simp_all) [1]
    apply (simp only: wp_simps)
    apply (use fin in \<open>simp add: add.assoc\<close>)
    done
qed

end
