(* ===== verification/KvState.thy ===== *)
theory KvState
  imports KvTransfer
begin

text \<open>
  Loading a saved position state, and the operations that change counters, capacities or rows: each keeps
  the invariant of the cache and stays inside its buffers, whatever calls fail.
\<close>

lemma kv_inv_W: "kv_inv W S kv \<Longrightarrow> 0 < W"
  by (simp add: kv_inv_def kv_ok_def)

lemma keep_max_W:
  assumes "kv_inv W S kv" "i < length (kv_layers kv)" "is_swa (kv_layers kv ! i)"
  shows "swa_keep_max kv = W - 1" "W - 1 \<le> lk_cap (kv_layers kv ! i)"
proof -
  have "kv_layers kv ! i \<in> set (swa_layers kv)" using assms(2,3) by (simp add: swa_layers_def)
  then obtain l ls where ls: "swa_layers kv = l # ls" by (cases "swa_layers kv") simp_all
  then have "l \<in> set (swa_layers kv)" by simp
  then have "l \<in> set (kv_layers kv)" "is_swa l" by (simp_all add: swa_layers_def)
  then have "lk_window l = W" using assms(1) by (auto simp: kv_inv_def kv_ok_def swa_room_def)
  then show "swa_keep_max kv = W - 1"
    using ls kv_inv_W [OF assms(1)] by (simp add: swa_keep_max_def before_pos)
  show "W - 1 \<le> lk_cap (kv_layers kv ! i)"
    using kv_inv_layer [OF assms(1,2)] assms(3) by (simp add: swa_room_def SWA_SLACK_ROWS_def)
qed

lemma wp_import_swa_layers:
  assumes cu: "cuda_ok cu" and inv: "kv_inv W S kv" and n: "n \<le> swa_keep_max kv" and room: "swa_state_bytes kv \<le> length src"
  shows "wp (for_layers is_swa (swa_stride (swa_keep_max kv)) (import_swa_layer cu what (swa_keep_max kv) n src))
    (\<lambda>_ (g', kv'). kv_inv W S kv' \<and> changed (\<lambda>i. is_swa (kv_layers kv ! i))
       (\<lambda>i. loaded (swa_keep_max kv) n src (off_sum is_swa (swa_stride (swa_keep_max kv)) kv i)) (length (kv_layers kv)) kv kv')
    (\<lambda>(g', kv'). kv_inv W S kv' \<and> kv_same kv kv') (g, kv)"
proof (rule wp_for_layers [OF inv])
  let ?km = "swa_keep_max kv"
  fix i kv' and g :: 'a
  assume i: "i < length (kv_layers kv)" and swa: "is_swa (kv_layers kv ! i)" and inv': "kv_inv W S kv'"
    and len: "length (kv_layers kv') = length (kv_layers kv)" and here: "kv_layers kv' ! i = kv_layers kv ! i"
  have "layer_step W (import_swa_layer cu what ?km n src (off_sum is_swa (swa_stride ?km) kv i) i) i
      (loaded ?km n src (off_sum is_swa (swa_stride ?km) kv i) (kv_layers kv' ! i)) g kv'"
  proof (rule wp_import_swa_layer [OF cu])
    show "i < length (kv_layers kv')" using i len by simp
    show "layer_ok (kv_layers kv' ! i)" using kv_inv_layer [OF inv'] i len by simp
    show "n \<le> ?km" by (rule n)
    show "n \<le> lk_cap (kv_layers kv' ! i)" using keep_max_W [OF inv i swa] n here by simp
    show "off_sum is_swa (swa_stride ?km) kv i + swa_stride ?km (kv_layers kv' ! i) \<le> length src"
      using off_sum_room [where P = is_swa, OF i swa, of "swa_stride ?km"] room here by (simp add: swa_state_bytes_sum)
  qed
  then show "layer_step W (import_swa_layer cu what ?km n src (off_sum is_swa (swa_stride ?km) kv i) i) i
      (loaded ?km n src (off_sum is_swa (swa_stride ?km) kv i) (kv_layers kv ! i)) g kv'"
    by (simp add: here)
qed

text \<open>The draft rings of a cache replaced by those at \<open>base\<close> of \<open>src\<close>.\<close>

definition rings_loaded :: "nat \<Rightarrow> bytes \<Rightarrow> device_kv \<Rightarrow> device_kv \<Rightarrow> bool" where
  "rings_loaded base src kv kv' \<longleftrightarrow> (case kv_draft kv of None \<Rightarrow> kv' = kv
     | Some _ \<Rightarrow> \<exists>d'. kv' = kv\<lparr>kv_draft := Some d'\<rparr> \<and> draft_ok d' \<and> draft_saved d' base src)"

lemma kv_inv_draft: "kv_inv W S kv \<Longrightarrow> draft_ok d \<Longrightarrow> kv_inv W S (kv\<lparr>kv_draft := Some d\<rparr>)"
  by (simp add: kv_inv_def kv_ok_def kv_shape_def)

lemma wp_load_draft:
  assumes cu: "cuda_ok cu" and inv: "kv_inv W S kv" and room: "base + draft_state_bytes kv \<le> length src"
    and m: "m = efor (copy_ring cu what src base) ring_ids"
  shows "wp (with_draft m) (\<lambda>_ (g', kv'). kv_inv W S kv' \<and> rings_loaded base src kv kv')
    (\<lambda>(g', kv'). kv_inv W S kv' \<and> (\<exists>d. kv' = kv\<lparr>kv_draft := d\<rparr>)) (g, kv)"
proof (cases "kv_draft kv")
  case None
  then show ?thesis using inv by (simp add: wp_def with_draft_def rings_loaded_def)
next
  case (Some d)
  have "draft_ok d" using inv Some by (simp add: kv_inv_def kv_ok_def)
  have "wp m (\<lambda>_ (g', d'). draft_ok d' \<and> draft_saved d' base src) (\<lambda>(g', d'). draft_ok d') (g, d)"
    unfolding m by (rule wp_load_rings [OF cu \<open>draft_ok d\<close>]) (use room Some in \<open>simp add: draft_state_bytes_def\<close>)
  then show ?thesis
    using Some kv_inv_draft [OF inv]
    by (auto simp: wp_def with_draft_def rings_loaded_def split: prod.splits outcome.splits)
qed

lemma changed_same: "changed P R j kv kv' \<Longrightarrow> kv_same kv kv'"
  by (simp add: changed_def)

definition state_loaded :: "nat \<Rightarrow> bytes \<Rightarrow> device_kv \<Rightarrow> device_kv \<Rightarrow> bool" where
  "state_loaded n src kv kv' \<longleftrightarrow> (\<exists>kv1. changed (\<lambda>i. is_swa (kv_layers kv ! i))
       (\<lambda>i. loaded (swa_keep_max kv) n src (off_sum is_swa (swa_stride (swa_keep_max kv)) kv i)) (length (kv_layers kv)) kv kv1 \<and>
     rings_loaded (swa_state_bytes kv) src kv1 kv')"

lemma wp_load_state_dev:
  assumes cu: "cuda_ok cu" and inv: "kv_inv W S kv"
  shows "wp (load_state_dev cu src n) (\<lambda>_ (g', kv'). kv_inv W S kv' \<and> state_loaded n src kv kv')
    (\<lambda>(g', kv'). kv_inv W S kv') (g, kv)"
proof (cases "n > swa_keep_max kv \<or> length src < kv_state_bytes kv")
  case True
  then show ?thesis using inv by (simp add: load_state_dev_def wp_simps)
next
  case False
  let ?C = "changed (\<lambda>i. is_swa (kv_layers kv ! i))
       (\<lambda>i. loaded (swa_keep_max kv) n src (off_sum is_swa (swa_stride (swa_keep_max kv)) kv i)) (length (kv_layers kv)) kv"
  have rings: "wp (with_draft (draft_load_dev cu src (swa_state_bytes kv)))
      (\<lambda>_ (g', kv'). kv_inv W S kv' \<and> state_loaded n src kv kv') (\<lambda>(g', kv'). kv_inv W S kv') (g1, kv1)"
    if "kv_inv W S kv1" "?C kv1" for g1 kv1
  proof (rule wp_mono)
    have "kv_draft kv1 = kv_draft kv" using changed_same [OF that(2)] by (simp add: kv_same_def)
    then have "swa_state_bytes kv + draft_state_bytes kv1 \<le> length src"
      using False by (simp add: kv_state_bytes_def draft_state_bytes_def)
    from wp_load_draft [OF cu that(1) this draft_load_dev_def, of g1]
    show "wp (with_draft (draft_load_dev cu src (swa_state_bytes kv)))
      (\<lambda>_ (g', kv'). kv_inv W S kv' \<and> rings_loaded (swa_state_bytes kv) src kv1 kv')
      (\<lambda>(g', kv'). kv_inv W S kv' \<and> (\<exists>d. kv' = kv1\<lparr>kv_draft := d\<rparr>)) (g1, kv1)" .
  qed (use that in \<open>auto simp: state_loaded_def\<close>)
  have no: "(n > swa_keep_max kv \<or> length src < kv_state_bytes kv) = False" using False by simp
  have "wp (for_layers is_swa (swa_stride (swa_keep_max kv)) (import_swa_layer cu ''load swa'' (swa_keep_max kv) n src))
    (\<lambda>_ (g', kv'). kv_inv W S kv' \<and> ?C kv') (\<lambda>(g', kv'). kv_inv W S kv' \<and> kv_same kv kv') (g, kv)"
    by (rule wp_import_swa_layers [OF cu inv]) (use False in \<open>simp_all add: kv_state_bytes_def\<close>)
  then show ?thesis
    unfolding load_state_dev_def wp_ebind wp_eget snd_conv no if_False wp_ethen
    by (rule wp_mono) (use rings in auto)
qed

lemma wp_import_swa:
  assumes cu: "cuda_ok cu" and inv: "kv_inv W S kv"
  shows "wp (import_swa cu n src)
    (\<lambda>_ (g', kv'). kv_inv W S kv' \<and> n \<le> swa_keep_max kv \<and> changed (\<lambda>i. is_swa (kv_layers kv ! i))
       (\<lambda>i. loaded (swa_keep_max kv) n src (off_sum is_swa (swa_stride (swa_keep_max kv)) kv i)) (length (kv_layers kv)) kv kv')
    (\<lambda>(g', kv'). kv_inv W S kv' \<and> kv_same kv kv') (g, kv)"
proof (cases "n > swa_keep_max kv \<or> length src < swa_state_bytes kv")
  case True
  then show ?thesis using inv by (simp add: import_swa_def wp_simps)
next
  case False
  then have no: "(n > swa_keep_max kv \<or> length src < swa_state_bytes kv) = False" by simp
  show ?thesis
    unfolding import_swa_def wp_ebind wp_eget snd_conv no if_False
    by (rule wp_mono [OF wp_import_swa_layers [OF cu inv]]) (use False in auto)
qed

lemma wp_import_draft:
  assumes cu: "cuda_ok cu" and inv: "kv_inv W S kv"
  shows "wp (import_draft cu src) (\<lambda>_ (g', kv'). kv_inv W S kv' \<and> rings_loaded 0 src kv kv')
    (\<lambda>(g', kv'). kv_inv W S kv' \<and> (\<exists>d. kv' = kv\<lparr>kv_draft := d\<rparr>)) (g, kv)"
proof (cases "kv_draft kv \<noteq> None \<and> length src < draft_bytes")
  case True
  then obtain d where d: "kv_draft kv = Some d" by blast
  then have "kv_inv W S (kv\<lparr>kv_draft := Some d\<rparr>)" using inv by (auto simp: kv_inv_def kv_ok_def kv_shape_def)
  moreover have "\<exists>d'. kv\<lparr>kv_draft := Some d\<rparr> = kv\<lparr>kv_draft := d'\<rparr>" by (rule exI, rule refl)
  ultimately show ?thesis
    using d True by (simp add: import_draft_def draft_import_def with_draft_def wp_def efail_def)
next
  case False
  have "draft_import cu src = efor (copy_ring cu ''draft import'' src 0) ring_ids" if "kv_draft kv \<noteq> None"
    using False that by (simp add: draft_import_def)
  then show ?thesis
    using wp_load_draft [OF cu inv, of 0 src _ "''draft import''" g] False inv
    by (cases "kv_draft kv") (auto simp: import_draft_def draft_state_bytes_def with_draft_def wp_def rings_loaded_def)
qed

text \<open>A state saved from one cache and loaded into another of the same shape carries the visible rows over.\<close>

lemma loaded_saved:
  assumes "loaded km n src off l l'" "saved km n off l0 src" "layer_ok l0" "geom l = geom l0"
  shows "live p l' = rows_at p l0 (lk_rows l0 - n) n"
proof -
  have row: "plane_row q l = plane_row q l0" for q by (rule geom_plane_row [OF assms(4)])
  have off: "plane_off km l p = plane_off km l0 p" using row [of PlaneK] row [of PlaneV] by (cases p) simp_all
  have n: "lk_rows l0 - n + n \<le> lk_cap l0" using assms(2,3) by (auto simp: saved_def layer_ok_def)
  then have "length (rows_at p l0 (lk_rows l0 - n) n) = n * plane_row p l0" by (rule length_rows_at [OF assms(3)])
  moreover have "seg src (off + plane_off km l0 p) (rows_at p l0 (lk_rows l0 - n) n)"
    using assms(2) unfolding saved_def by blast
  moreover have "live p l' = take (n * plane_row p l) (drop (off + plane_off km l p) src)"
    using assms(1) unfolding loaded_def by blast
  ultimately show ?thesis by (simp add: seg_def row off)
qed

lemma swa_keep_max_shape: "kv_inv W S kv \<Longrightarrow> kv_inv W S kv' \<Longrightarrow> swa_keep_max kv' = swa_keep_max kv"
proof -
  assume inv: "kv_inv W S kv" "kv_inv W S kv'"
  have len: "length (kv_layers kv') = length (kv_layers kv)" using inv by (simp add: kv_inv_length)
  have kind: "is_swa (kv_layers kv' ! i) = is_swa (kv_layers kv ! i)" if "i < length (kv_layers kv)" for i
    by (rule geom_is(1)) (use kv_inv_geom [OF inv(1)] kv_inv_geom [OF inv(2)] that inv in \<open>simp add: kv_inv_length\<close>)
  show ?thesis
  proof (cases "\<exists>i < length (kv_layers kv). is_swa (kv_layers kv ! i)")
    case True
    then show ?thesis using keep_max_W(1) [OF inv(1)] keep_max_W(1) [OF inv(2)] kind len by auto
  next
    case False
    then have "swa_layers kv = []" "swa_layers kv' = []"
      using kind len by (auto simp: swa_layers_def filter_empty_conv in_set_conv_nth)
    then show ?thesis by (simp add: swa_keep_max_def)
  qed
qed

end
