(* ===== verification/KvOps.thy ===== *)
theory KvOps
  imports KvState
begin

text \<open>
  The remaining operations of the device cache: counters, growth, shrinking, rewinding, forking and the
  append of attention; and a failure of \<open>shrink_ga\<close> that leaves a layer shorter than its capacity.
\<close>

definition kept :: "layer_kv \<Rightarrow> layer_kv \<Rightarrow> bool" where
  "kept l l' \<longleftrightarrow> lk_rows l' = lk_rows l \<and> (\<forall>p. live p l' = live p l)"

lemma regrown_kept: "layer_ok l \<Longrightarrow> regrown 0 (lk_rows l) cap l l' \<Longrightarrow> kept l l'"
  by (auto simp: regrown_def kept_def live_def [of _ l])

lemma layer_step_mono:
  assumes "layer_step W m i R g kv" "\<And>l'. fine W (kv_layers kv ! i) l' \<Longrightarrow> R l' \<Longrightarrow> R' l'"
  shows "layer_step W m i R' g kv"
  unfolding layer_step_def
proof (rule wp_mono [OF assms(1) [unfolded layer_step_def]])
  fix x s
  assume "case s of (g', kv') \<Rightarrow> \<exists>l' tmp'. kv' = at_layer kv i l' tmp' \<and> length tmp' = length (kv_tmp kv) \<and>
    fine W (kv_layers kv ! i) l' \<and> R l'"
  then obtain g' l' tmp' where "s = (g', at_layer kv i l' tmp')" "length tmp' = length (kv_tmp kv)"
    "fine W (kv_layers kv ! i) l'" "R l'" by (auto split: prod.splits)
  with assms(2) show "case s of (g', kv') \<Rightarrow> \<exists>l' tmp'. kv' = at_layer kv i l' tmp' \<and> length tmp' = length (kv_tmp kv) \<and>
    fine W (kv_layers kv ! i) l' \<and> R' l'" by blast
qed

lemma wp_grow_layer:
  assumes cu: "cuda_ok cu" and l: "layer_ok l" and cap: "lk_cap l \<le> cap" "cap \<le> cap_max"
  shows "wp (ebind (eget snd) (\<lambda>l. regrow cu what 0 (lk_rows l) cap))
    (\<lambda>_ (g', l'). fine W l l' \<and> kept l l' \<and> lk_cap l' = cap) (\<lambda>(g', l'). fine W l l') (g, l)"
  unfolding wp_ebind wp_eget snd_conv
  by (rule wp_regrow [OF cu l])
    (use l cap regrown_kept [OF l] in \<open>auto simp: layer_ok_def fine_def regrown_def\<close>)

lemma grow_step:
  assumes cu: "cuda_ok cu" and i: "i < length (kv_layers kv)" and l: "layer_ok (kv_layers kv ! i)"
    and cap: "lk_cap (kv_layers kv ! i) \<le> cap" "cap \<le> cap_max"
  shows "layer_step W (grow_ga cu i cap) i (\<lambda>l'. kept (kv_layers kv ! i) l' \<and> lk_cap l' = cap) g kv"
    "layer_step W (grow_swa cu i cap) i (\<lambda>l'. kept (kv_layers kv ! i) l' \<and> lk_cap l' = cap) g kv"
  unfolding grow_ga_def grow_swa_def
  by (rule layer_stepI [OF i]; rule wp_mono [OF wp_grow_layer [OF cu l cap]]; auto)+

lemma wp_reserve_ga:
  assumes cu: "cuda_ok cu" and inv: "kv_inv W S kv" and n: "n \<le> row_max"
  shows "wp (reserve_ga cu n)
    (\<lambda>_ (g', kv'). kv_inv W S kv' \<and>
       changed (\<lambda>i. is_ga (kv_layers kv ! i) \<and> lk_cap (kv_layers kv ! i) < n) (\<lambda>_ l l'. kept l l' \<and> geom l' = geom l \<and> n \<le> lk_cap l')
         (length (kv_layers kv)) kv kv')
    (\<lambda>(g', kv'). kv_inv W S kv' \<and> kv_same kv kv') (g, kv)"
  unfolding reserve_ga_def
proof (rule wp_for_layers [OF inv])
  fix i kv' and g :: 'a
  assume i: "i < length (kv_layers kv)" and few: "is_ga (kv_layers kv ! i) \<and> lk_cap (kv_layers kv ! i) < n"
    and inv': "kv_inv W S kv'" and len: "length (kv_layers kv') = length (kv_layers kv)" and here: "kv_layers kv' ! i = kv_layers kv ! i"
  note up = next_multiple_bounds [OF n]
  have "layer_step W (grow_ga cu i (next_multiple n 4096)) i
      (\<lambda>l'. kept (kv_layers kv' ! i) l' \<and> lk_cap l' = next_multiple n 4096) g kv'"
    by (rule grow_step [OF cu]) (use i len few up here kv_inv_layer [OF inv', of i] in auto)
  then show "layer_step W (grow_ga cu i (next_multiple n 4096)) i
      (\<lambda>l'. kept (kv_layers kv ! i) l' \<and> geom l' = geom (kv_layers kv ! i) \<and> n \<le> lk_cap l') g kv'"
    by (rule layer_step_mono) (use up here in \<open>auto simp: fine_def\<close>)
qed

lemma swa_keep_max_le:
  assumes "kv_inv W S kv"
  shows "swa_keep_max kv \<le> row_max"
proof (cases "swa_layers kv")
  case (Cons l ls)
  then have "l \<in> set (swa_layers kv)" by simp
  then have "lk_window l = W" "0 < W" "W \<le> row_max"
    using assms by (auto simp: swa_layers_def kv_inv_def kv_ok_def swa_room_def)
  then show ?thesis by (simp add: swa_keep_max_def Cons before_pos)
qed (simp add: swa_keep_max_def)

lemma wp_reserve_swa:
  assumes cu: "cuda_ok cu" and inv: "kv_inv W S kv"
  shows "wp (reserve_swa cu)
    (\<lambda>_ (g', kv'). kv_inv W S kv' \<and> kv_same kv kv' \<and> (\<forall>i < length (kv_layers kv). kept (kv_layers kv ! i) (kv_layers kv' ! i)))
    (\<lambda>(g', kv'). kv_inv W S kv' \<and> kv_same kv kv') (g, kv)"
proof -
  let ?cap = "up_to_64 (usize_add (swa_keep_max kv) (kv_max_chunk kv))"
  have small: "swa_keep_max kv \<le> row_max" "kv_max_chunk kv \<le> row_max"
    using swa_keep_max_le [OF inv] inv by (auto simp: kv_inv_def kv_ok_def)
  have up: "?cap \<le> cap_max"
    using up_to_64_bounds [of "swa_keep_max kv + kv_max_chunk kv"] usize_row_add [of "swa_keep_max kv" "kv_max_chunk kv"] small by simp
  have "wp (for_layers (\<lambda>l. is_swa l \<and> lk_cap l < ?cap) (\<lambda>_. 0) (\<lambda>_ i. grow_swa cu i ?cap))
    (\<lambda>_ (g', kv'). kv_inv W S kv' \<and> changed (\<lambda>i. is_swa (kv_layers kv ! i) \<and> lk_cap (kv_layers kv ! i) < ?cap) (\<lambda>_. kept)
       (length (kv_layers kv)) kv kv') (\<lambda>(g', kv'). kv_inv W S kv' \<and> kv_same kv kv') (g, kv)"
  proof (rule wp_for_layers [OF inv])
    fix i kv' and g :: 'a
    assume i: "i < length (kv_layers kv)" and few: "is_swa (kv_layers kv ! i) \<and> lk_cap (kv_layers kv ! i) < ?cap"
      and inv': "kv_inv W S kv'" and len: "length (kv_layers kv') = length (kv_layers kv)" and here: "kv_layers kv' ! i = kv_layers kv ! i"
    have "layer_step W (grow_swa cu i ?cap) i (\<lambda>l'. kept (kv_layers kv' ! i) l' \<and> lk_cap l' = ?cap) g kv'"
      by (rule grow_step [OF cu]) (use i len few here kv_inv_layer [OF inv', of i] up in auto)
    then show "layer_step W (grow_swa cu i ?cap) i (kept (kv_layers kv ! i)) g kv'"
      by (rule layer_step_mono) (use here in auto)
  qed
  then show ?thesis
    unfolding reserve_swa_def Let_def wp_ebind wp_eget snd_conv
  proof (rule wp_mono)
    fix x and s :: "'a \<times> device_kv"
    assume post: "case s of (g', kv') \<Rightarrow> kv_inv W S kv' \<and> changed (\<lambda>i. is_swa (kv_layers kv ! i) \<and> lk_cap (kv_layers kv ! i) < ?cap)
        (\<lambda>_. kept) (length (kv_layers kv)) kv kv'"
    have "kept (kv_layers kv ! i) (kv_layers (snd s) ! i)" if "i < length (kv_layers kv)" for i
      using post that by (cases s) (auto simp: changed_def kept_def split: if_splits)
    then show "case s of (g', kv') \<Rightarrow> kv_inv W S kv' \<and> kv_same kv kv' \<and> (\<forall>i < length (kv_layers kv). kept (kv_layers kv ! i) (kv_layers kv' ! i))"
      using post changed_same by (cases s) auto
  qed auto
qed

text \<open>\<open>shrink_swa\<close> keeps the last rows a query can see.\<close>

lemma wp_shrink_swa:
  assumes cu: "cuda_ok cu" and inv: "kv_inv W S kv"
  shows "wp (shrink_swa cu)
    (\<lambda>_ (g', kv'). kv_inv W S kv' \<and> changed (\<lambda>i. is_swa (kv_layers kv ! i) \<and> lk_cap (kv_layers kv ! i) > kv_swa_cap0 kv)
       (\<lambda>_ l l'. lk_rows l' = min (lk_rows l) (W - 1) \<and>
          (\<forall>p. live p l' = rows_at p l (lk_rows l - min (lk_rows l) (W - 1)) (min (lk_rows l) (W - 1)))) (length (kv_layers kv)) kv kv')
    (\<lambda>(g', kv'). kv_inv W S kv' \<and> kv_same kv kv') (g, kv)"
  unfolding shrink_swa_def wp_ebind wp_eget snd_conv Let_def
proof (rule wp_for_layers [OF inv])
  fix i kv' and g :: 'a
  assume i: "i < length (kv_layers kv)" and big: "is_swa (kv_layers kv ! i) \<and> lk_cap (kv_layers kv ! i) > kv_swa_cap0 kv"
    and inv': "kv_inv W S kv'" and len: "length (kv_layers kv') = length (kv_layers kv)" and here: "kv_layers kv' ! i = kv_layers kv ! i"
  let ?l = "kv_layers kv ! i"
  let ?keep = "min (lk_rows ?l) (W - 1)"
  have l: "layer_ok ?l" and W: "before (lk_window ?l) = W - 1" and cap0: "kv_swa_cap0 kv = W - 1 + SWA_SLACK_ROWS"
    using kv_inv_layer [OF inv i] big inv by (auto simp: swa_room_def before_pos kv_inv_def kv_ok_def)
  have "wp (ebind (eget snd) (\<lambda>l. regrow cu ''swa shrink'' (lk_rows l - min (lk_rows l) (before (lk_window l)))
        (min (lk_rows l) (before (lk_window l))) (kv_swa_cap0 kv)))
     (\<lambda>_ (g', l'). fine W ?l l' \<and> lk_rows l' = ?keep \<and> (\<forall>p. live p l' = rows_at p ?l (lk_rows ?l - ?keep) ?keep))
     (\<lambda>(g', l'). fine W ?l l') (g, ?l)"
    unfolding wp_ebind wp_eget snd_conv W
    by (rule wp_regrow [OF cu l]) (use l cap0 slack_cap [of W] inv [unfolded kv_inv_def kv_ok_def] in \<open>auto simp: layer_ok_def fine_def regrown_def rows_at_def\<close>)
  then show "layer_step W (with_layer i (ebind (eget snd) (\<lambda>l. regrow cu ''swa shrink'' (lk_rows l - min (lk_rows l) (before (lk_window l)))
        (min (lk_rows l) (before (lk_window l))) (kv_swa_cap0 kv)))) i
      (\<lambda>l'. lk_rows l' = ?keep \<and> (\<forall>p. live p l' = rows_at p ?l (lk_rows ?l - ?keep) ?keep)) g kv'"
    by (intro layer_stepI) (use i len here in simp_all)
qed

lemma kv_inv_reset: "kv_inv W S kv \<Longrightarrow> kv_inv W S (kv_reset kv)"
  by (auto simp: kv_inv_def kv_ok_def kv_reset_def kv_shape_def layer_ok_def swa_room_def is_swa_def)

lemma kv_inv_tokens [simp]: "kv_inv W S (kv\<lparr>kv_tokens := n\<rparr>) = kv_inv W S kv"
  by (simp add: kv_inv_def kv_ok_def kv_shape_def)

lemma wp_rows_loop:
  assumes inv: "kv_inv W S kv"
    and body: "\<And>i l g. layer_ok l \<Longrightarrow> wp (body i) (\<lambda>_ (g', l'). \<exists>n \<le> lk_rows l. l' = l\<lparr>lk_rows := n\<rparr>) (\<lambda>(g', l'). l' = l) (g, l)"
  shows "wp (for_layers P (\<lambda>_. 0) (\<lambda>_ i. with_layer i (body i)))
    (\<lambda>_ (g', kv'). kv_inv W S kv') (\<lambda>(g', kv'). kv_inv W S kv') (g, kv)"
proof -
  have fine: "fine W l (l\<lparr>lk_rows := n\<rparr>)" if "layer_ok l" "n \<le> lk_rows l" for l n
    using that layer_ok_rows [OF that(1), of n] by (simp add: fine_def layer_ok_def)
  have "wp (for_layers P (\<lambda>_. 0) (\<lambda>_ i. with_layer i (body i)))
    (\<lambda>_ (g', kv'). kv_inv W S kv' \<and> changed (\<lambda>i. P (kv_layers kv ! i)) (\<lambda>_ _ _. True) (length (kv_layers kv)) kv kv')
    (\<lambda>(g', kv'). kv_inv W S kv' \<and> kv_same kv kv') (g, kv)"
  proof (rule wp_for_layers [OF inv], rule layer_stepI)
    fix i kv' and g :: 'a
    assume "i < length (kv_layers kv)" "kv_inv W S kv'" "length (kv_layers kv') = length (kv_layers kv)"
    then have l: "layer_ok (kv_layers kv' ! i)" using kv_inv_layer by simp
    show "wp (body i) (\<lambda>_ (g', l'). fine W (kv_layers kv' ! i) l' \<and> True) (\<lambda>(g', l'). fine W (kv_layers kv' ! i) l') (g, kv_layers kv' ! i)"
      by (rule wp_mono [OF body [OF l]]) (use fine [OF l] l in \<open>auto simp: fine_def\<close>)
  qed simp
  then show ?thesis by (rule wp_mono) auto
qed

lemma wp_kv_truncate:
  assumes "kv_inv W S kv"
  shows "wp (kv_truncate to) (\<lambda>_ (g', kv'). kv_inv W S kv') (\<lambda>(g', kv'). kv_inv W S kv') (g, kv)"
  unfolding kv_truncate_def Let_def
  apply (simp only: wp_simps snd_conv)
  using assms apply (auto intro!: wp_rows_loop [THEN wp_mono])
  apply (auto simp: wp_simps)
  apply (rule_tac x = "lk_rows l - (kv_tokens kv - to)" in exI, simp)
  done

lemma wp_rewind_ga:
  assumes "kv_inv W S kv"
  shows "wp (rewind_ga p) (\<lambda>_ (g', kv'). kv_inv W S kv') (\<lambda>(g', kv'). kv_inv W S kv') (g, kv)"
  unfolding rewind_ga_def
  apply (simp only: wp_simps snd_conv)
  using assms apply (auto intro!: wp_rows_loop [THEN wp_mono])
  apply (auto simp: wp_simps intro: exI [of _ p])
  done

lemma wp_fork_layer:
  assumes cu: "cuda_ok cu" and d: "layer_ok d" and s: "layer_ok s" and same: "row_k d = row_k s" "row_v d = row_v s"
  shows "wp (fork_layer cu n s)
    (\<lambda>_ (g', d'). fine W d d' \<and> lk_rows d' = n \<and> n \<le> lk_rows s \<and> (\<forall>p. live p d' = rows_at p s 0 n)) (\<lambda>(g', d'). fine W d d') (g, d)"
proof (cases "n > lk_rows s \<or> n > lk_cap d")
  case True
  then show ?thesis using d by (simp add: fork_layer_def wp_simps fine_def)
next
  case False
  then have n: "n \<le> lk_rows s" "n \<le> lk_cap d" "n \<le> lk_cap s" using s by (auto simp: layer_ok_def)
  have row: "plane_row p s = plane_row p d" for p using same by (cases p) simp_all
  have sfit: "n * plane_row p d \<le> length (plane_buf p s)" and dfit: "n * plane_row p d \<le> length (plane_buf p d)" for p
    using s d n by (simp_all add: layer_ok_def row)
  let ?v = "\<lambda>p. take (n * plane_row p d) (plane_buf p s)"
  let ?b = "\<lambda>p. put_bytes 0 (?v p) (plane_buf p d)"
  have vlen: "length (?v p) = n * plane_row p d" for p using sfit [of p] by simp
  have blen: "length (?b p) = length (plane_buf p d)" for p using vlen [of p] dfit [of p] by simp
  have taken: "take (n * plane_row p d) (?b p) = ?v p" for p
    using take_put_start [of "?v p" "plane_buf p d"] vlen [of p] dfit [of p] by simp
  have err: "fine W d d'" if "layer_ok d'" "geom d' = geom d" "lk_cap d' = lk_cap d" for d'
    using that by (simp add: fine_def)
  note ok1 = layer_ok_set_plane [OF d blen [of PlaneK]]
  have ok2: "layer_ok (set_plane PlaneV (?b PlaneV) (set_plane PlaneK (?b PlaneK) d))"
    by (rule layer_ok_set_plane [OF ok1]) (use blen [of PlaneV] in simp)
  have ok3: "layer_ok (set_plane PlanePos (?b PlanePos) (set_plane PlaneV (?b PlaneV) (set_plane PlaneK (?b PlaneK) d)))"
    by (rule layer_ok_set_plane [OF ok2]) (use blen [of PlanePos] in simp)
  let ?d' = "(set_plane PlanePos (?b PlanePos) (set_plane PlaneV (?b PlaneV) (set_plane PlaneK (?b PlaneK) d)))\<lparr>lk_rows := n\<rparr>"
  have "live p ?d' = rows_at p s 0 n" for p
    using taken [of p] row [of p] by (cases p) (simp_all add: live_rows_update rows_at_def)
  then have fin: "fine W d ?d' \<and> lk_rows ?d' = n \<and> n \<le> lk_rows s \<and> (\<forall>p. live p ?d' = rows_at p s 0 n)"
    using layer_ok_rows [OF ok3, of n] n by (simp add: fine_def)
  have no: "(n > lk_rows s \<or> n > lk_cap d) = False" using False by simp
  show ?thesis
    unfolding fork_layer_def
    apply (simp only: wp_simps snd_conv no if_False)
    apply (rule wp_copy_in [OF cu])
       apply (use dfit [of PlaneK] in simp)
      apply (use sfit [of PlaneK] in simp)
     defer
     apply (simp, rule err, simp_all add: layer_ok_set_plane d) [1]
    apply (simp only: wp_simps)
    apply (rule wp_copy_in [OF cu])
       apply (use dfit [of PlaneV] in simp)
      apply (use sfit [of PlaneV] in simp)
     defer
     apply (simp, rule err, rule layer_ok_set_plane, use ok1 in simp, simp_all) [1]
    apply (simp only: wp_simps)
    apply (rule wp_copy_in [OF cu])
       apply (use dfit [of PlanePos] in simp)
      apply (use sfit [of PlanePos] in simp)
     defer
     apply (simp, rule err, rule layer_ok_set_plane, use ok2 in simp, simp_all) [1]
    apply (simp only: wp_simps)
    apply (use fin in simp)
    done
qed

lemma wp_fork_ga:
  assumes cu: "cuda_ok cu" and inv: "kv_inv W S kv" and src: "kv_inv W S src" and n: "n \<le> row_max"
  shows "wp (fork_ga cu src n) (\<lambda>_ (g', kv'). kv_inv W S kv') (\<lambda>(g', kv'). kv_inv W S kv') (g, kv)"
proof -
  have loop: "wp (layer_loop is_ga (\<lambda>_. 0) (\<lambda>_ i. with_layer i (fork_layer cu n (kv_layers src ! i))) 0
      [0..<min (length (kv_layers kv1)) (length (kv_layers src))]) (\<lambda>_ (g', kv'). kv_inv W S kv' \<and> True) (\<lambda>(g', kv'). kv_inv W S kv') (g1, kv1)"
    if inv1: "kv_inv W S kv1" for g1 kv1
  proof -
    have "wp (layer_loop is_ga (\<lambda>_. 0) (\<lambda>_ i. with_layer i (fork_layer cu n (kv_layers src ! i))) 0
        [0..<min (length (kv_layers kv1)) (length (kv_layers src))])
      (\<lambda>_ (g', kv'). kv_inv W S kv' \<and> changed (\<lambda>i. is_ga (kv_layers kv1 ! i)) (\<lambda>_ _ _. True) (min (length (kv_layers kv1)) (length (kv_layers src))) kv1 kv')
      (\<lambda>(g', kv'). kv_inv W S kv' \<and> kv_same kv1 kv') (g1, kv1)"
    proof (rule wp_layer_loop [OF inv1], simp, rule layer_stepI)
      fix i kv' and g :: 'a
      assume i: "i < min (length (kv_layers kv1)) (length (kv_layers src))" and inv': "kv_inv W S kv'"
        and len: "length (kv_layers kv') = length (kv_layers kv1)"
      then show "i < length (kv_layers kv')" by simp
      have "layer_ok (kv_layers kv' ! i)" "layer_ok (kv_layers src ! i)"
        using kv_inv_layer [OF inv', of i] kv_inv_layer [OF src, of i] i len by simp_all
      moreover have "geom (kv_layers kv' ! i) = geom (kv_layers src ! i)"
        using kv_inv_geom [OF inv', of i] kv_inv_geom [OF src, of i] kv_inv_length [OF src] i by simp
      ultimately show "wp (fork_layer cu n (kv_layers src ! i)) (\<lambda>_ (g', l'). fine W (kv_layers kv' ! i) l' \<and> True)
          (\<lambda>(g', l'). fine W (kv_layers kv' ! i) l') (g, kv_layers kv' ! i)"
        by (intro wp_mono [OF wp_fork_layer [OF cu, where W = W]]) (auto dest: geom_eqD)
    qed
    then show ?thesis by (rule wp_mono) auto
  qed
  have tail: "wp (ebind (eget snd) (\<lambda>kv.
     ethen (layer_loop is_ga (\<lambda>_. 0) (\<lambda>_ i. with_layer i (fork_layer cu n (kv_layers src ! i))) 0
         [0..<min (length (kv_layers kv)) (length (kv_layers src))])
       (emodify (\<lambda>(g, kv). (g, kv\<lparr>kv_tokens := n\<rparr>))))) (\<lambda>_ (g', kv'). kv_inv W S kv') (\<lambda>(g', kv'). kv_inv W S kv') (g1, kv1)"
    if "kv_inv W S kv1" for g1 kv1
    unfolding wp_ebind wp_eget snd_conv wp_ethen
    by (rule wp_mono [OF loop [OF that]]) (auto simp: wp_simps)
  show ?thesis
    unfolding fork_ga_def wp_ethen
    by (rule wp_mono [OF wp_reserve_ga [OF cu inv n]]) (use tail in auto)
qed

lemma wp_append_rows:
  assumes cu: "cuda_ok cu" and inv: "kv_inv W S kv" and i: "i < length (kv_layers kv)"
    and few: "lk_rows (kv_layers kv ! i) + t \<le> row_max"
    and lens: "length ks = t * row_k (kv_layers kv ! i)" "length vs = t * row_v (kv_layers kv ! i)" "length ps = t * 8"
  shows "wp (append_rows cu i t ks vs ps) (\<lambda>_ (g', kv'). kv_inv W S kv') (\<lambda>(g', kv'). kv_inv W S kv') (g, kv)"
  unfolding append_rows_def wp_ethen
proof (rule wp_prepare [OF cu inv i few])
  let ?l = "kv_layers kv ! i"
  fix g1 :: 'a and l1 and tmp1 :: bytes
  assume pre: "prepared W t ?l l1" and tmp: "length tmp1 = length (kv_tmp kv)"
  have l1: "layer_ok l1" "geom l1 = geom ?l" "lk_cap ?l \<le> lk_cap l1" "lk_rows l1 + t \<le> lk_cap l1"
    using pre by (simp_all add: prepared_def)
  have rows: "row_k l1 = row_k ?l" "row_v l1 = row_v ?l" using geom_eqD [OF l1(2)] by simp_all
  note fit = append_fits [OF l1(1,4)]
  have room: "lk_rows l1 * row_k ?l + length ks \<le> length (lk_k l1)" "lk_rows l1 * row_v ?l + length vs \<le> length (lk_v l1)"
    "lk_rows l1 * 8 + length ps \<le> length (lk_pos l1)"
    using fit [of PlaneK] fit [of PlaneV] fit [of PlanePos] rows lens by simp_all
  have keep: "kv_inv W S (at_layer kv i l' tmp1)" if "layer_ok l'" "geom l' = geom l1" "lk_cap l' = lk_cap l1" for l'
    by (rule kv_inv_at_layer [OF inv i]) (use that l1 tmp in simp_all)
  let ?l2 = "l1\<lparr>lk_k := put_bytes (lk_rows l1 * row_k ?l) ks (lk_k l1), lk_v := put_bytes (lk_rows l1 * row_v ?l) vs (lk_v l1),
      lk_pos := put_bytes (lk_rows l1 * 8) ps (lk_pos l1)\<rparr>"
  have l2: "layer_ok ?l2" "geom ?l2 = geom l1" "lk_cap ?l2 = lk_cap l1"
    using l1(1) room by (simp_all add: layer_ok_def all_planes geom_def)
  have l3: "layer_ok (?l2\<lparr>lk_rows := lk_rows l1 + t\<rparr>)" by (rule layer_ok_rows [OF l2(1)]) (use l1 in simp)
  have "\<not> (lk_rows l1 * row_k ?l + length ks > length (lk_k l1) \<or> lk_rows l1 * row_v ?l + length vs > length (lk_v l1) \<or>
        lk_rows l1 * 8 + length ps > length (lk_pos l1))" using room by simp
  then show "wp (with_layer i (ebind (eget snd) (\<lambda>l.
     let row0 = lk_rows l in
     if row0 * row_k l + length ks > length (lk_k l) \<or> row0 * row_v l + length vs > length (lk_v l) \<or>
        row0 * 8 + length ps > length (lk_pos l) then epanic
     else ethen (emodify (\<lambda>(g, l). (g, l\<lparr>lk_k := put_bytes (row0 * row_k l) ks (lk_k l),
              lk_v := put_bytes (row0 * row_v l) vs (lk_v l), lk_pos := put_bytes (row0 * 8) ps (lk_pos l)\<rparr>)))
         (ebind (on_fst (\<lambda>g. case cuda_launch cu g of (rc, g') \<Rightarrow> (Ok rc, g'))) (\<lambda>rc.
          ethen (check_rc (CudaFailed ''attn prep'') rc)
          (emodify (\<lambda>(g, l). (g, l\<lparr>lk_rows := lk_rows l + t\<rparr>))))))))
     (\<lambda>_ (g', kv'). kv_inv W S kv') (\<lambda>(g', kv'). kv_inv W S kv') (g1, at_layer kv i l1 tmp1)"
    apply (intro wp_with_layer)
     apply (simp add: i)
    using keep [OF l2] keep [OF l3] l2 rows i
    by (auto simp: wp_simps Let_def wp_def [of "\<lambda>g. case cuda_launch cu g of (rc, g') \<Rightarrow> (Ok rc, g')"] geom_def split: prod.split)
qed (use kv_inv_at_layer [OF inv i] in auto)

lemma wp_attach_draft:
  assumes cu: "cuda_ok cu" and inv: "kv_inv W S kv"
  shows "wp (attach_draft cu has) (\<lambda>_ (g', kv'). kv_inv W S kv') (\<lambda>(g', kv'). kv_inv W S kv') (g, kv)"
proof -
  have rings: "wp (alloc_rings cu n) (\<lambda>bs g'. length bs = n \<and> (\<forall>b \<in> set bs. length b = ring_bytes)) (\<lambda>g'. True) g" for n g
  proof (induction n arbitrary: g)
    case 0
    then show ?case by (simp add: wp_simps)
  next
    case (Suc n)
    show ?case
      by (simp only: alloc_rings.simps wp_simps)
        (rule wp_buf_alloc [OF cu], simp only: wp_simps, rule wp_mono [OF Suc.IH], auto simp: wp_eret)
  qed
  have "wp (draft_new cu) (\<lambda>d g'. draft_ok d) (\<lambda>g'. True) g"
    unfolding draft_new_def wp_ebind
    by (rule wp_mono [OF rings], rule wp_mono [OF rings]) (auto simp: wp_simps draft_ok_def)
  then show ?thesis
    unfolding attach_draft_def
    apply (simp only: wp_simps prod.case if_split)
    apply (auto simp: inv intro!: kv_inv_draft)
    apply (erule wp_mono)
     apply (auto simp: inv intro!: kv_inv_draft)
    done
qed

subsection \<open>Giving memory back\<close>

lemma wp_layer_loop_inv:
  assumes "I kv" "\<And>off i g kv. i \<in> set is \<Longrightarrow> I kv \<Longrightarrow> P (kv_layers kv ! i) \<Longrightarrow> wp (body off i) (\<lambda>_ (g', kv'). I kv') E (g, kv)"
  shows "wp (layer_loop P f body off is) (\<lambda>_ (g', kv'). I kv') E (g, kv)"
  using assms
proof (induction "is" arbitrary: off g kv)
  case Nil
  then show ?case by (simp add: wp_simps)
next
  case (Cons i "is")
  have rest: "wp (layer_loop P f body off is) (\<lambda>_ (g', kv'). I kv') E (g1, kv1)" if "I kv1" for off g1 kv1
    by (rule Cons.IH [OF that]) (rule Cons.prems(2), simp_all)
  show ?case
  proof (cases "P (kv_layers kv ! i)")
    case True
    then have "wp (body off i) (\<lambda>_ (g', kv'). I kv') E (g, kv)" using Cons.prems by simp
    then show ?thesis using True by (simp add: wp_simps) (erule wp_mono, use rest in auto)
  next
    case False
    then show ?thesis using rest Cons.prems(1) by (simp add: wp_simps)
  qed
qed

lemma wp_shrink_ga_layer:
  assumes cu: "cuda_ok cu" and l: "layer_ok l" "lk_rows l = 0" and cap0: "cap0 \<le> cap_max"
  shows "wp (shrink_ga_layer cu cap0) (\<lambda>_ (g', l'). layer_ok l' \<and> geom l' = geom l \<and> lk_rows l' = 0 \<and> lk_cap l' = cap0) (\<lambda>_. True) (g, l)"
  unfolding shrink_ga_layer_def
  apply (simp only: wp_simps snd_conv prod.case layer_kv.simps sized_row [OF layer_ok_sized [OF l(1)] cap0])
  apply (rule wp_buf_alloc [OF cu])
   apply (rule wp_buf_alloc [OF cu])
    apply (rule wp_buf_alloc [OF cu])
     apply (use l cap0 in \<open>auto simp: layer_ok_def all_planes geom_def sized_def\<close>)
  done

lemma wp_shrink_ga:
  assumes cu: "cuda_ok cu" and inv: "kv_inv W S kv"
  shows "wp (shrink_ga cu) (\<lambda>_ (g', kv'). kv_inv W S kv') (\<lambda>_. True) (g, kv)"
proof -
  let ?I = "\<lambda>kv'. kv_inv W S kv' \<and> (\<forall>l \<in> set (kv_layers kv'). lk_rows l = 0) \<and> length (kv_layers kv') = length (kv_layers kv)"
  have start: "?I (kv_reset kv)" using kv_inv_reset [OF inv] by (auto simp: kv_reset_def)
  have body: "wp (with_layer i (shrink_ga_layer cu cap0)) (\<lambda>_ (g', kv'). ?I kv') (\<lambda>_. True) (g, kv1)"
    if i: "i < length (kv_layers kv)" and I: "?I kv1" and ga: "is_ga (kv_layers kv1 ! i)" and cap0: "cap0 \<le> cap_max" for i g kv1 cap0
  proof (rule wp_with_layer)
    show i': "i < length (kv_layers kv1)" using i I by simp
    have l: "layer_ok (kv_layers kv1 ! i)" "lk_rows (kv_layers kv1 ! i) = 0" using kv_inv_layer I i' by auto
    show "wp (shrink_ga_layer cu cap0) (\<lambda>x (g', l'). case (g', kv1\<lparr>kv_layers := (kv_layers kv1)[i := l']\<rparr>) of (g', kv') \<Rightarrow> ?I kv')
        (\<lambda>(g', l'). True) (g, kv_layers kv1 ! i)"
    proof (rule wp_mono [OF wp_shrink_ga_layer [OF cu l cap0]])
      fix x s
      assume "case s of (g', l') \<Rightarrow> layer_ok l' \<and> geom l' = geom (kv_layers kv1 ! i) \<and> lk_rows l' = 0 \<and> lk_cap l' = cap0"
      then obtain g' l' where s: "s = (g', l')" and l': "layer_ok l'" "geom l' = geom (kv_layers kv1 ! i)" "lk_rows l' = 0"
        by (auto split: prod.splits)
      have "kv_inv W S (at_layer kv1 i l' (kv_tmp kv1))"
        by (rule kv_inv_fine) (use I i' l' ga in \<open>auto simp: fine_def\<close>)
      then show "case s of (g', l') \<Rightarrow> case (g', kv1\<lparr>kv_layers := (kv_layers kv1)[i := l']\<rparr>) of (g', kv') \<Rightarrow> ?I kv'"
        using I l'(3) by (auto simp: s at_layer_tmp dest!: set_update_subset_insert [THEN subsetD])
    qed simp
  qed
  have len: "length (kv_layers (kv_reset kv)) = length (kv_layers kv)" by (simp add: kv_reset_def)
  have "wp (for_layers (\<lambda>l. is_ga l \<and> lk_cap l > cap0) (\<lambda>_. 0) (\<lambda>_ i. with_layer i (shrink_ga_layer cu cap0)))
      (\<lambda>_ (g', kv'). ?I kv') (\<lambda>_. True) (g, kv_reset kv)" if "cap0 \<le> cap_max" for cap0
    unfolding for_layers_def wp_ebind wp_eget snd_conv len
    by (rule wp_layer_loop_inv [where I = ?I, OF start]) (use body that in auto)
  moreover have "kv_ga_cap0 (kv_reset kv) \<le> cap_max" using inv by (simp add: kv_reset_def kv_inv_def kv_ok_def)
  ultimately have "wp (for_layers (\<lambda>l. is_ga l \<and> lk_cap l > kv_ga_cap0 (kv_reset kv)) (\<lambda>_. 0)
      (\<lambda>_ i. with_layer i (shrink_ga_layer cu (kv_ga_cap0 (kv_reset kv))))) (\<lambda>_ (g', kv'). ?I kv') (\<lambda>_. True) (g, kv_reset kv)" by blast
  then show ?thesis
    unfolding shrink_ga_def
    by (simp only: wp_simps snd_conv prod.case) (rule wp_mono, assumption, auto)
qed

subsection \<open>A new cache\<close>

lemma wp_alloc_then:
  assumes "cuda_ok cu" "\<And>b g'. length b = n \<Longrightarrow> wp (f b) Q E g'" "\<And>g'. E g'"
  shows "wp (ebind (buf_alloc cu fail n) f) Q E g"
  unfolding wp_ebind by (rule wp_buf_alloc [OF assms])

lemma tmp_need_ge:
  assumes "l \<in> set ls" "is_swa l"
  shows "usize_mul (before (lk_window l)) (max (max (row_k l) (row_v l)) 8) \<le> tmp_need ls"
proof -
  let ?step = "\<lambda>need l. if is_swa l then max need (usize_mul (before (lk_window l)) (max (max (row_k l) (row_v l)) 8)) else need"
  have mono: "n \<le> foldl ?step n ks" for n ks
  proof (induction ks arbitrary: n)
    case Nil
    then show ?case by simp
  next
    case (Cons k ks)
    have "n \<le> ?step n k" by simp
    also have "\<dots> \<le> foldl ?step (?step n k) ks" by (rule Cons.IH)
    finally show ?case by simp
  qed
  have "usize_mul (before (lk_window l)) (max (max (row_k l) (row_v l)) 8) \<le> foldl ?step n ls" for n
    using assms(1)
  proof (induction ls arbitrary: n)
    case Nil
    then show ?case by simp
  next
    case (Cons k ks)
    show ?case
    proof (cases "l = k")
      case True
      have "usize_mul (before (lk_window l)) (max (max (row_k l) (row_v l)) 8) \<le> ?step n k" using True assms(2) by simp
      also have "\<dots> \<le> foldl ?step (?step n k) ks" by (rule mono)
      finally show ?thesis by simp
    next
      case False
      then show ?thesis using Cons by simp
    qed
  qed
  then show ?thesis by (simp add: tmp_need_def)
qed

definition cfg_shape :: "config \<Rightarrow> (layer_kind \<times> nat \<times> nat \<times> nat) list" where
  "cfg_shape c = map (\<lambda>i. case layer_kind_of c i of
       Ga \<Rightarrow> (Ga, num_key_value_heads c * head_dim c, num_key_value_heads c * v_head_dim c, 0)
     | Swa \<Rightarrow> (Swa, swa_num_key_value_heads c * head_dim c, swa_num_key_value_heads c * v_head_dim c, sliding_window c))
     [0..<num_hidden_layers c]"

text \<open>The sizes a cache is built with: at most \<open>row_max\<close> rows, and rows of at most \<open>width_max\<close> bytes.\<close>

definition dims_ok :: "config \<Rightarrow> nat \<Rightarrow> nat \<Rightarrow> bool" where
  "dims_ok c ga_cap max_chunk \<longleftrightarrow> sliding_window c \<le> row_max \<and> ga_cap \<le> row_max \<and> max_chunk \<le> row_max \<and>
     (\<forall>n \<in> {num_key_value_heads c, swa_num_key_value_heads c}. n * head_dim c \<le> width_max \<and> n * v_head_dim c \<le> width_max)"

lemma dims_widths:
  assumes "dims_ok c ga_cap max_chunk" "n = num_key_value_heads c \<or> n = swa_num_key_value_heads c"
  shows "usize_mul n (head_dim c) = n * head_dim c" "usize_mul n (v_head_dim c) = n * v_head_dim c"
    "n * head_dim c \<le> width_max" "n * v_head_dim c \<le> width_max"
proof -
  show le: "n * head_dim c \<le> width_max" "n * v_head_dim c \<le> width_max" using assms by (auto simp: dims_ok_def)
  then show "usize_mul n (head_dim c) = n * head_dim c" "usize_mul n (v_head_dim c) = n * v_head_dim c"
    by (auto intro!: usize_mul_no_wrap simp: width_max_def)
qed

lemma wp_kv_new:
  assumes cu: "cuda_ok cu" and W: "0 < sliding_window c" and dims: "dims_ok c ga_cap max_chunk"
  shows "wp (kv_new cu c ga_cap max_chunk) (\<lambda>kv g'. kv_inv (sliding_window c) (cfg_shape c) kv \<and> kv_tokens kv = 0) (\<lambda>_. True) g"
proof -
  let ?W = "sliding_window c"
  let ?s = "\<lambda>i. case layer_kind_of c i of
       Ga \<Rightarrow> (Ga, num_key_value_heads c * head_dim c, num_key_value_heads c * v_head_dim c, 0)
     | Swa \<Rightarrow> (Swa, swa_num_key_value_heads c * head_dim c, swa_num_key_value_heads c * v_head_dim c, ?W)"
  have W_max: "?W \<le> row_max" and sizes: "ga_cap \<le> cap_max" "max_chunk \<le> row_max"
    using dims by (simp_all add: dims_ok_def row_max_def cap_max_def)
  have cap: "usize_add (before ?W) SWA_SLACK_ROWS = ?W - 1 + SWA_SLACK_ROWS"
    using W W_max by (simp add: before_pos SWA_SLACK_ROWS_def usize_add_no_wrap row_max_def)
  note ga = dims_widths [OF dims disjI1 [OF refl]] and swa = dims_widths [OF dims disjI2 [OF refl]]
  have eight: "8 \<le> width_max" by (simp add: width_max_def)
  note swa_cap = slack_cap [OF W_max]
  note eqs = ga(1,2) swa(1,2) small_product [OF sizes(1) ga(3)] small_product [OF sizes(1) ga(4)] small_product [OF sizes(1) eight]
    small_product [OF swa_cap swa(3)] small_product [OF swa_cap swa(4)] small_product [OF swa_cap eight]
  have one: "wp (new_layer cu c ga_cap i) (\<lambda>l g'. geom l = ?s i \<and> layer_ok l \<and>
      (is_swa l \<longrightarrow> lk_window l = ?W \<and> ?W - 1 + SWA_SLACK_ROWS \<le> lk_cap l)) (\<lambda>_. True) g" for i g
    unfolding new_layer_def Let_def cap
    by (cases "layer_kind_of c i"; simp only: layer_kind.case prod.case eqs; intro wp_alloc_then [OF cu])
      (use ga(3,4) swa(3,4) sizes(1) swa_cap in \<open>auto simp: wp_eret geom_def layer_ok_def all_planes is_swa_def sized_def\<close>)
  have all: "wp (new_layers cu c ga_cap is) (\<lambda>ls g'. map geom ls = map ?s is \<and> (\<forall>l \<in> set ls. layer_ok l \<and>
      (is_swa l \<longrightarrow> lk_window l = ?W \<and> ?W - 1 + SWA_SLACK_ROWS \<le> lk_cap l))) (\<lambda>_. True) g" for "is" g
  proof (induction "is" arbitrary: g)
    case Nil
    then show ?case by (simp add: wp_simps)
  next
    case (Cons i "is")
    show ?case
      by (simp only: new_layers.simps wp_simps)
        (rule wp_mono [OF one], simp only: wp_simps, rule wp_mono [OF Cons.IH], auto simp: wp_eret)
  qed
  have room: "swa_room ?W (tmp_need ls) l"
    if "l \<in> set ls" "is_swa l \<longrightarrow> lk_window l = ?W \<and> ?W - 1 + SWA_SLACK_ROWS \<le> lk_cap l" "sized l" for l ls
  proof -
    have "(?W - 1) * plane_row p l \<le> tmp_need ls" if "is_swa l" for p
    proof -
      have "plane_row p l \<le> max (max (row_k l) (row_v l)) 8" by (cases p) auto
      then have "(?W - 1) * plane_row p l \<le> (?W - 1) * max (max (row_k l) (row_v l)) 8" by (rule mult_le_mono2)
      also have "\<dots> = usize_mul (?W - 1) (max (max (row_k l) (row_v l)) 8)"
        using small_product [of "?W - 1" "max (max (row_k l) (row_v l)) 8"] \<open>sized l\<close> eight W_max
        by (simp add: sized_def row_max_def cap_max_def)
      also have "\<dots> \<le> tmp_need ls"
        using tmp_need_ge [OF \<open>l \<in> set ls\<close> that] \<open>is_swa l \<longrightarrow> _\<close> that W by (simp add: before_pos)
      finally show ?thesis .
    qed
    then show ?thesis using that(2) by (simp add: swa_room_def)
  qed
  show ?thesis
    unfolding kv_new_def wp_ebind cap
    apply (rule wp_mono [OF all])
     apply (rule wp_buf_alloc [OF cu])
      apply (use W W_max sizes room layer_ok_sized in \<open>auto simp: wp_eret kv_inv_def kv_ok_def kv_shape_def cfg_shape_def\<close>)
    done
qed

end
