(* ===== verification/KvReach.thy ===== *)
theory KvReach
  imports KvOps
begin

text \<open>
  The life of a device cache as a step relation: built, then any sequence of its operations, each against a
  runtime in any state, each ending in success or in an error. No copy of any operation leaves its buffers. Two
  things are left out of the relation. Sizes at which the unchecked \<open>usize\<close> arithmetic of the release build would
  wrap: a cache is built for, and asked for, at most \<open>2 ^ 40\<close> rows of at most \<open>2 ^ 20\<close> bytes. And the cache a failed
  \<open>shrink_ga\<close> leaves behind, which is not safe to use.
\<close>

datatype kv_op =
    OpReset
  | OpSetTokens nat
  | OpTruncate nat
  | OpShrinkGa
  | OpShrinkSwa
  | OpReserveGa nat
  | OpReserveSwa
  | OpAttachDraft bool
  | OpImportPage nat bytes
  | OpFinishImport
  | OpImportSwa nat bytes
  | OpImportDraft bytes
  | OpLoadState bytes nat
  | OpRewind nat
  | OpFork device_kv nat
  | OpAppend nat nat bytes bytes bytes

fun run_op :: "'g cuda \<Rightarrow> kv_op \<Rightarrow> ('g, unit) kv_eff" where
  "run_op cu OpReset = emodify (\<lambda>(g, kv). (g, kv_reset kv))"
| "run_op cu (OpSetTokens n) = emodify (\<lambda>(g, kv). (g, kv_set_tokens n kv))"
| "run_op cu (OpTruncate to) = kv_truncate to"
| "run_op cu OpShrinkGa = shrink_ga cu"
| "run_op cu OpShrinkSwa = shrink_swa cu"
| "run_op cu (OpReserveGa n) = reserve_ga cu n"
| "run_op cu OpReserveSwa = reserve_swa cu"
| "run_op cu (OpAttachDraft has) = attach_draft cu has"
| "run_op cu (OpImportPage n page) = import_ga_page cu n page"
| "run_op cu OpFinishImport = finish_ga_import cu"
| "run_op cu (OpImportSwa n src) = import_swa cu n src"
| "run_op cu (OpImportDraft src) = import_draft cu src"
| "run_op cu (OpLoadState src n) = load_state_dev cu src n"
| "run_op cu (OpRewind p) = rewind_ga p"
| "run_op cu (OpFork src n) = fork_ga cu src n"
| "run_op cu (OpAppend i t ks vs ps) = append_rows cu i t ks vs ps"

text \<open>
  What the callers guarantee: a fork is from a cache of the same shape, an append is of whole rows of one
  layer, and no layer is asked to hold more than \<open>row_max\<close> rows. Every other argument (page lengths, positions,
  rows to rewind or truncate to) is arbitrary.
\<close>

fun op_fits :: "device_kv \<Rightarrow> kv_op \<Rightarrow> bool" where
  "op_fits kv (OpAppend i t ks vs ps) \<longleftrightarrow> i < length (kv_layers kv) \<and> lk_rows (kv_layers kv ! i) + t \<le> row_max \<and>
     length ks = t * row_k (kv_layers kv ! i) \<and> length vs = t * row_v (kv_layers kv ! i) \<and> length ps = t * 8"
| "op_fits kv (OpReserveGa n) \<longleftrightarrow> n \<le> row_max"
| "op_fits kv (OpImportPage n page) \<longleftrightarrow> few_rows n kv"
| "op_fits kv (OpFork src n) = False"
| "op_fits kv op = True"

inductive kv_reach :: "'g cuda \<Rightarrow> config \<Rightarrow> device_kv \<Rightarrow> bool" for cu :: "'g cuda" and c :: config where
  reach_new: "dims_ok c ga_cap max_chunk \<Longrightarrow> kv_new cu c ga_cap max_chunk g = (Ok kv, g') \<Longrightarrow> kv_reach cu c kv"
| reach_op: "kv_reach cu c kv \<Longrightarrow> op_fits kv op \<Longrightarrow> run_op cu op (g, kv) = (r, (g', kv')) \<Longrightarrow>
    op \<noteq> OpShrinkGa \<or> r = Ok () \<Longrightarrow> kv_reach cu c kv'"
| reach_fork: "kv_reach cu c kv \<Longrightarrow> kv_reach cu c src \<Longrightarrow> n \<le> row_max \<Longrightarrow> run_op cu (OpFork src n) (g, kv) = (r, (g', kv')) \<Longrightarrow> kv_reach cu c kv'"

definition op_given :: "'g cuda \<Rightarrow> config \<Rightarrow> device_kv \<Rightarrow> kv_op \<Rightarrow> bool" where
  "op_given cu c kv op \<longleftrightarrow> (\<exists>src n. op = OpFork src n \<and> kv_reach cu c src \<and> n \<le> row_max) \<or> op_fits kv op"

lemma kv_inv_set_tokens: "kv_inv W S kv \<Longrightarrow> kv_inv W S (kv_set_tokens n kv)"
  by (simp add: kv_set_tokens_def)

lemma wp_weaken: "wp m Q E s \<Longrightarrow> (\<And>x s'. Q x s' \<Longrightarrow> P s') \<Longrightarrow> (\<And>s'. E s' \<Longrightarrow> P s') \<Longrightarrow> wp m (\<lambda>_. P) P s"
  by (rule wp_mono)

text \<open>One operation: the invariant, whatever the outcome (except after a failed \<open>shrink_ga\<close>).\<close>

lemma wp_run_op:
  assumes cu: "cuda_ok cu" and inv: "kv_inv W S kv"
    and given: "(\<exists>src n. op = OpFork src n \<and> kv_inv W S src \<and> n \<le> row_max) \<or> op_fits kv op"
  shows "wp (run_op cu op) (\<lambda>_ (g', kv'). kv_inv W S kv') (\<lambda>(g', kv'). op = OpShrinkGa \<or> kv_inv W S kv') (g, kv)"
proof (cases op)
  case OpReset
  then show ?thesis using kv_inv_reset [OF inv] by (simp add: wp_simps)
next
  case (OpSetTokens n)
  then show ?thesis using kv_inv_set_tokens [OF inv] by (simp add: wp_simps)
next
  case (OpTruncate to)
  then show ?thesis by (simp add: wp_mono [OF wp_kv_truncate [OF inv]])
next
  case OpShrinkGa
  then show ?thesis by (simp add: wp_mono [OF wp_shrink_ga [OF cu inv]])
next
  case OpShrinkSwa
  have "wp (shrink_swa cu) (\<lambda>_ (g', kv'). kv_inv W S kv') (\<lambda>(g', kv'). kv_inv W S kv') (g, kv)"
    by (rule wp_weaken [OF wp_shrink_swa [OF cu inv]]) auto
  then show ?thesis using OpShrinkSwa by simp
next
  case (OpReserveGa n)
  have "wp (reserve_ga cu n) (\<lambda>_ (g', kv'). kv_inv W S kv') (\<lambda>(g', kv'). kv_inv W S kv') (g, kv)"
    by (rule wp_weaken [OF wp_reserve_ga [OF cu inv]]) (use given OpReserveGa in auto)
  then show ?thesis using OpReserveGa by simp
next
  case OpReserveSwa
  have "wp (reserve_swa cu) (\<lambda>_ (g', kv'). kv_inv W S kv') (\<lambda>(g', kv'). kv_inv W S kv') (g, kv)"
    by (rule wp_weaken [OF wp_reserve_swa [OF cu inv]]) auto
  then show ?thesis using OpReserveSwa by simp
next
  case (OpAttachDraft has)
  then show ?thesis by (simp add: wp_attach_draft [OF cu inv])
next
  case (OpImportPage n page)
  have "wp (import_ga_page cu n page) (\<lambda>_ (g', kv'). kv_inv W S kv') (\<lambda>(g', kv'). kv_inv W S kv') (g, kv)"
    by (rule wp_weaken [OF wp_import_ga_page [OF cu inv]]) (use given OpImportPage in auto)
  then show ?thesis using OpImportPage by simp
next
  case OpFinishImport
  have "wp (finish_ga_import cu) (\<lambda>_ (g', kv'). kv_inv W S kv') (\<lambda>(g', kv'). kv_inv W S kv') (g, kv)"
    by (rule wp_weaken [OF wp_finish_ga_import [OF inv]]) auto
  then show ?thesis using OpFinishImport by simp
next
  case (OpImportSwa n src)
  have "wp (import_swa cu n src) (\<lambda>_ (g', kv'). kv_inv W S kv') (\<lambda>(g', kv'). kv_inv W S kv') (g, kv)"
    by (rule wp_weaken [OF wp_import_swa [OF cu inv]]) auto
  then show ?thesis using OpImportSwa by simp
next
  case (OpImportDraft src)
  have "wp (import_draft cu src) (\<lambda>_ (g', kv'). kv_inv W S kv') (\<lambda>(g', kv'). kv_inv W S kv') (g, kv)"
    by (rule wp_weaken [OF wp_import_draft [OF cu inv]]) auto
  then show ?thesis using OpImportDraft by simp
next
  case (OpLoadState src n)
  have "wp (load_state_dev cu src n) (\<lambda>_ (g', kv'). kv_inv W S kv') (\<lambda>(g', kv'). kv_inv W S kv') (g, kv)"
    by (rule wp_weaken [OF wp_load_state_dev [OF cu inv]]) auto
  then show ?thesis using OpLoadState by simp
next
  case (OpRewind p)
  then show ?thesis by (simp add: wp_rewind_ga [OF inv])
next
  case (OpFork src n)
  then show ?thesis using given by (auto simp: wp_fork_ga [OF cu inv])
next
  case (OpAppend i t ks vs ps)
  then show ?thesis using given by (simp add: wp_append_rows [OF cu inv])
qed

lemma wp_run_inv:
  assumes "wp m (\<lambda>_ (g', kv'). I kv') (\<lambda>(g', kv'). b \<or> I kv') s" "m s = (r, (g', kv'))" "\<not> b \<or> r = Ok ()"
  shows "I kv'"
  using assms by (cases r) (auto simp: wp_def)

lemma reach_inv:
  assumes cu: "cuda_ok cu" and W: "0 < sliding_window c" "sliding_window c < 2 ^ 63" and reach: "kv_reach cu c kv"
  shows "kv_inv (sliding_window c) (cfg_shape c) kv"
  using reach
proof (induction rule: kv_reach.induct)
  case (reach_new ga_cap max_chunk g kv g')
  then show ?case using wpD_Ok [OF wp_kv_new [OF cu W(1)]] by blast
next
  case (reach_op kv op g r g' kv')
  have "wp (run_op cu op) (\<lambda>_ (g', kv'). kv_inv (sliding_window c) (cfg_shape c) kv')
      (\<lambda>(g', kv'). op = OpShrinkGa \<or> kv_inv (sliding_window c) (cfg_shape c) kv') (g, kv)"
    by (rule wp_run_op [OF cu reach_op.IH]) (use reach_op.hyps(2) in blast)
  then show ?case by (rule wp_run_inv) (use reach_op.hyps in auto)
next
  case (reach_fork kv src n g r g' kv')
  have "wp (run_op cu (OpFork src n)) (\<lambda>_ (g', kv'). kv_inv (sliding_window c) (cfg_shape c) kv')
      (\<lambda>(g', kv'). OpFork src n = OpShrinkGa \<or> kv_inv (sliding_window c) (cfg_shape c) kv') (g, kv)"
    by (rule wp_run_op [OF cu reach_fork.IH(1)]) (use reach_fork.IH(2) reach_fork.hyps(3) in blast)
  then show ?case by (rule wp_run_inv) (use reach_fork.hyps in auto)
qed

lemma wp_no_panic: "wp m Q E s \<Longrightarrow> fst (m s) \<noteq> Panic"
  by (auto simp: wp_def split: prod.splits outcome.splits)

lemma wp_export_swa:
  assumes "cuda_ok cu" "kv_inv W S kv"
  shows "wp (export_swa cu kv) (\<lambda>n (g', buf'). length buf' = length buf) (\<lambda>(g', buf'). length buf' = length buf) (g, buf)"
proof (cases "length buf < swa_state_bytes kv")
  case True
  then show ?thesis by (simp add: export_swa_def wp_simps)
next
  case False
  then have no: "(length buf < swa_state_bytes kv) = False" by simp
  show ?thesis
    unfolding export_swa_def
    by (simp only: wp_ebind wp_eget snd_conv no if_False)
      (rule wp_mono [OF wp_export_state [OF assms]], use False in \<open>auto simp: wp_eret\<close>)
qed

lemma wp_export_draft:
  assumes cu: "cuda_ok cu" and inv: "kv_inv W S kv"
  shows "wp (export_draft cu kv) (\<lambda>_ (g', buf'). length buf' = length buf) (\<lambda>(g', buf'). length buf' = length buf) (g, buf)"
proof (cases "kv_draft kv")
  case None
  then show ?thesis by (simp add: export_draft_def wp_simps)
next
  case (Some d)
  have "draft_ok d" using inv Some by (simp add: kv_inv_def kv_ok_def)
  have "wp (draft_export cu d) (\<lambda>_ (g', buf'). length buf' = length buf) (\<lambda>(g', buf'). length buf' = length buf) (g, buf)"
  proof (cases "length buf < draft_bytes")
    case True
    then show ?thesis by (simp add: draft_export_def wp_simps)
  next
    case False
    then have "wp (efor (\<lambda>r. copy_out cu ''draft export'' (0 + ring_off r) (ring_at d r) 0 ring_bytes) ring_ids)
      (\<lambda>_ (g', buf'). length buf' = length buf \<and> take 0 buf' = take 0 buf \<and> draft_saved d 0 buf')
      (\<lambda>(g', buf'). length buf' = length buf) (g, buf)"
      by (intro wp_copy_rings [OF cu \<open>draft_ok d\<close>]) simp
    from wp_mono [OF this] show ?thesis
      using False by (auto simp: draft_export_def wp_simps elim!: wp_mono)
  qed
  then show ?thesis by (simp add: export_draft_def Some)
qed

text \<open>C7: unless a \<open>shrink_ga\<close> has failed, no operation of the device cache reads or writes outside its buffers, and
  no export of it does. The cache is built by \<open>DeviceKv::new\<close> and then goes through any sequence of its operations, in any
  runtime states and whatever other calls fail, within the sizes at which no \<open>usize\<close> sum or product wraps: at most
  \<open>2 ^ 40\<close> rows asked for, rows of at most \<open>2 ^ 20\<close> bytes, \<open>r0 + n\<close> of an exported page below \<open>2 ^ 64\<close>. Every operation
  returns \<open>Ok\<close> or \<open>Err\<close>, and every buffer has exactly the bytes of its capacity. (A cache whose \<open>shrink_ga\<close>
  failed is not safe: \<open>shrink_ga_failure_shortens\<close> below.)\<close>

theorem kv_memory_safe:
  assumes "cuda_ok cu" "0 < sliding_window c" "sliding_window c < 2 ^ 63" "kv_reach cu c kv" "op_given cu c kv op" "r0 + n < 2 ^ 64"
  shows "fst (run_op cu op (g, kv)) \<noteq> Panic \<and>
    (fst (export_ga_page cu kv r0 n (g, page)) \<noteq> Panic \<and> fst (export_swa cu kv (g, page)) \<noteq> Panic \<and>
      fst (export_draft cu kv (g, page)) \<noteq> Panic \<and> fst (save_state_dev cu kv (g, page)) \<noteq> Panic) \<and>
    (\<forall>l \<in> set (kv_layers kv). lk_rows l \<le> lk_cap l \<and> length (lk_k l) = lk_cap l * row_k l \<and>
      length (lk_v l) = lk_cap l * row_v l \<and> length (lk_pos l) = lk_cap l * 8)"
proof (intro conjI)
  note inv = reach_inv [OF assms(1-4)]
  have given: "(\<exists>src n. op = OpFork src n \<and> kv_inv (sliding_window c) (cfg_shape c) src \<and> n \<le> row_max) \<or> op_fits kv op"
    using assms(5) reach_inv [OF assms(1-3)] unfolding op_given_def by blast
  show "fst (run_op cu op (g, kv)) \<noteq> Panic"
    by (rule wp_no_panic [OF wp_run_op [OF assms(1) inv given]])
  show "fst (export_ga_page cu kv r0 n (g, page)) \<noteq> Panic" "fst (export_swa cu kv (g, page)) \<noteq> Panic"
      "fst (export_draft cu kv (g, page)) \<noteq> Panic" "fst (save_state_dev cu kv (g, page)) \<noteq> Panic"
    using wp_no_panic [OF wp_export_ga_page [OF assms(1) inv assms(6)]] wp_no_panic [OF wp_export_swa [OF assms(1) inv]]
      wp_no_panic [OF wp_export_draft [OF assms(1) inv]] wp_no_panic [OF wp_save_state_dev [OF assms(1) inv]] by simp_all
  show "\<forall>l \<in> set (kv_layers kv). lk_rows l \<le> lk_cap l \<and> length (lk_k l) = lk_cap l * row_k l \<and>
      length (lk_v l) = lk_cap l * row_v l \<and> length (lk_pos l) = lk_cap l * 8"
    using inv by (auto simp: kv_inv_def kv_ok_def layer_ok_def all_planes)
qed

text \<open>
  The bound on \<open>r0 + n\<close> is needed: past it the unchecked sum of the release build passes the guard of the export,
  and the copy starts outside the K buffer. No caller in the repository passes such rows.
\<close>

lemma ethen_panic: "fst (m s) = Panic \<Longrightarrow> fst (ethen m k s) = Panic"
  by (auto simp: ethen_def ebind_def split: prod.split)

lemma ebind_eget: "ebind (eget f) k s = k (f s) s"
  by (simp add: ebind_def eget_def)

lemma export_page_wraps:
  assumes inv: "kv_inv W S kv" and l: "ga_layers kv = l # ls" "0 < row_k l" and page: "kv_ga_page_bytes kv \<le> length page"
  shows "fst (export_ga_page cu kv (2 ^ 64 - 1) 1 (g, page)) = Panic"
proof -
  have "l \<in> set (kv_layers kv)" using arg_cong [OF l(1), of set] by (auto simp: ga_layers_def)
  then have ok: "layer_ok l" using inv by (simp add: kv_inv_def kv_ok_def)
  have "lk_cap l * row_k l \<le> cap_max * width_max" using layer_ok_sized [OF ok] unfolding sized_def by (intro mult_le_mono) auto
  then have short: "length (lk_k l) < 2 ^ 64"
    using ok by (simp add: layer_ok_def all_planes cap_max_def width_max_def)
  have w: "row_k l < 2 ^ 64" using layer_ok_sized [OF ok] by (simp add: sized_def width_max_def)
  have "(2 ^ 64 - 1) * row_k l = (2 ^ 64 - row_k l) + (row_k l - 1) * 2 ^ 64"
    using l(2) w by (cases "row_k l") (simp_all add: algebra_simps)
  then have "usize_mul (2 ^ 64 - 1) (row_k l) = (2 ^ 64 - row_k l) mod 2 ^ 64"
    unfolding usize_mul_def by (simp only: mod_mult_self1)
  then have mul: "usize_mul (2 ^ 64 - 1) (row_k l) = 2 ^ 64 - row_k l" using l(2) by simp
  have add: "usize_add (2 ^ 64 - 1) 1 = 0" by (simp add: usize_add_def)
  have copy: "fst (copy_out cu what off (lk_k l) (2 ^ 64 - row_k l) (1 * row_k l) (g, page)) = Panic" for what off
    using short w by (simp add: copy_out_def ebind_def eget_def copy_bytes_def store_copied_def on_fst_def epanic_def)
  show ?thesis
    unfolding export_ga_page_def ebind_eget l(1) export_ga_layers.simps add mul
    using page by (simp add: ebind_eget KV_PAGE_ROWS_def) (rule ethen_panic, use copy in simp)
qed

subsection \<open>A runtime and a small cache\<close>

text \<open>A runtime that counts allocations and fails those from number \<open>n\<close> on.\<close>

definition counting_cuda :: "nat \<Rightarrow> nat cuda" where
  "counting_cuda n = \<lparr>cuda_malloc = (\<lambda>b g. ((if g < n then 0 else 2, replicate b 0), Suc g)),
     cuda_memcpy = (\<lambda>d s g. ((0, s), g)), cuda_memset = (\<lambda>d v g. ((0, replicate (length d) v), g)),
     cuda_launch = (\<lambda>g. (0, g)), cuda_synchronize = (\<lambda>g. (0, g)), cuda_mem_free = (\<lambda>g. ((0, 0), g)),
     cuda_host_register = (\<lambda>b g. (0, g))\<rparr>"

lemma counting_cuda_ok: "cuda_ok (counting_cuda n)"
  by (simp add: counting_cuda_def cuda_ok_def)

definition small_config :: config where
  "small_config = config_tiny\<lparr>num_hidden_layers := 2, num_key_value_heads := 1, swa_num_key_value_heads := 1,
     head_dim := 2, v_head_dim := 1, sliding_window := 3\<rparr>"

definition small_kv :: device_kv where
  "small_kv = (case kv_new (counting_cuda 100) small_config 4 8 0 of (Ok kv, _) \<Rightarrow> kv)"

lemma small_kv_new: "kv_new (counting_cuda 100) small_config 4 8 0 = (Ok small_kv, 7)"
  by (simp add: small_kv_def kv_new_def new_layer_def small_config_def config_tiny_def counting_cuda_def layer_kind_of_def
      ebind_def eret_def buf_alloc_def before_def SWA_SLACK_ROWS_def tmp_need_def is_swa_def usize_add_def usize_mul_def upt_rec)

lemma small_kv_eq: "small_kv = \<lparr>kv_layers =
     [\<lparr>lk_kind = Ga, row_k = 2, row_v = 1, lk_window = 0, lk_cap = 4, lk_rows = 0,
        lk_k = replicate 8 0, lk_v = replicate 4 0, lk_pos = replicate 32 0\<rparr>,
      \<lparr>lk_kind = Swa, row_k = 2, row_v = 1, lk_window = 3, lk_cap = 66, lk_rows = 0,
        lk_k = replicate 132 0, lk_v = replicate 66 0, lk_pos = replicate 528 0\<rparr>],
     kv_tokens = 0, kv_max_chunk = 8, kv_ga_cap0 = 4, kv_swa_cap0 = 66, kv_tmp = replicate 256 0, kv_draft = None\<rparr>"
  by (simp add: small_kv_def kv_new_def new_layer_def small_config_def config_tiny_def counting_cuda_def layer_kind_of_def
      ebind_def eret_def buf_alloc_def before_def SWA_SLACK_ROWS_def tmp_need_def is_swa_def usize_add_def usize_mul_def upt_rec)

lemma small_kv_reach: "kv_reach (counting_cuda 100) small_config small_kv"
  by (rule reach_new [OF _ small_kv_new]) (simp add: dims_ok_def small_config_def config_tiny_def row_max_def width_max_def)

lemma kv_memory_safe_witness:
  "fst (run_op (counting_cuda 100) (OpAppend 0 5 (replicate 10 1) (replicate 5 1) (replicate 40 0)) (0, small_kv)) \<noteq> Panic"
proof -
  have "op_given (counting_cuda 100) small_config small_kv (OpAppend 0 5 (replicate 10 1) (replicate 5 1) (replicate 40 0))"
    by (simp add: op_given_def small_kv_eq row_max_def)
  from kv_memory_safe [OF counting_cuda_ok _ _ small_kv_reach this, of 0 0 0 "[]"] show ?thesis
    by (simp add: small_config_def)
qed

subsection \<open>A failed \<open>shrink_ga\<close>\<close>

lemma layer_loop_skip:
  "(\<And>j. j \<in> set ns \<Longrightarrow> \<not> P (kv_layers kv ! j)) \<Longrightarrow> layer_loop P (\<lambda>_. 0) body off (ns @ ms) (g, kv) = layer_loop P (\<lambda>_. 0) body off ms (g, kv)"
  by (induction ns) (simp_all add: ebind_def eget_def)

lemma shrink_ga_layer_fails:
  assumes "cuda_malloc cu (usize_mul cap0 (row_k l)) g = ((0, k), g1)" "usize_mul cap0 (row_k l) \<noteq> 0"
    "cuda_malloc cu (usize_mul cap0 (row_v l)) g1 = ((rc, v), g2)" "usize_mul cap0 (row_v l) \<noteq> 0" "rc \<noteq> 0"
  shows "shrink_ga_layer cu cap0 (g, l) = (Err (AllocFailed rc), (g2, l\<lparr>lk_k := k\<rparr>))"
  using assms by (simp add: shrink_ga_layer_def ebind_def ethen_def eget_def emodify_def on_fst_def buf_alloc_def)

text \<open>C31: a failed \<open>shrink_ga\<close> leaves a cache that is not safe to use. Take any cache, and the first of its global
  layers that has grown past the build size. When the allocation of that layer's new V buffer fails after that of
  its K buffer, \<open>shrink_ga\<close> returns the error with the K buffer already at the build size and the capacity still the
  grown one, so a later append of more rows than the build size, which the capacity says fit, writes past
  its end. \<open>Pool::release\<close> reports the error and puts the slot back on the free list.\<close>

theorem shrink_ga_failure_shortens:
  assumes "cuda_ok cu" "0 < sliding_window c" "sliding_window c < 2 ^ 63" "kv_reach cu c kv"
    and layer: "i < length (kv_layers kv)" "l = kv_layers kv ! i" "is_ga l" "kv_ga_cap0 kv < lk_cap l"
      "\<forall>j < i. \<not> (is_ga (kv_layers kv ! j) \<and> kv_ga_cap0 kv < lk_cap (kv_layers kv ! j))"
    and sizes: "0 < kv_ga_cap0 kv" "0 < row_k l" "0 < row_v l"
    and fails: "cuda_malloc cu (kv_ga_cap0 kv * row_k l) g = ((0, k), g1)" "cuda_malloc cu (kv_ga_cap0 kv * row_v l) g1 = ((rc, v), g2)" "rc \<noteq> 0"
    and rows: "kv_ga_cap0 kv < t" "t \<le> lk_cap l" "length ks = t * row_k l"
  shows "\<exists>kv'. shrink_ga cu (g, kv) = (Err (AllocFailed rc), (g2, kv')) \<and>
    lk_cap (kv_layers kv' ! i) = lk_cap l \<and> length (lk_k (kv_layers kv' ! i)) = kv_ga_cap0 kv * row_k l \<and>
    fst (append_rows cu i t ks vs ps (h, kv')) = Panic"
proof -
  let ?P = "\<lambda>l. is_ga l \<and> lk_cap l > kv_ga_cap0 kv" and ?cap0 = "kv_ga_cap0 kv"
  let ?body = "\<lambda>_ i. with_layer i (shrink_ga_layer cu ?cap0)"
  let ?l0 = "l\<lparr>lk_rows := 0\<rparr>" and ?kv0 = "kv_reset kv"
  let ?l1 = "?l0\<lparr>lk_k := k\<rparr>"
  let ?kv1 = "?kv0\<lparr>kv_layers := (kv_layers ?kv0)[i := ?l1]\<rparr>"
  have inv: "kv_inv (sliding_window c) (cfg_shape c) kv" by (rule reach_inv [OF assms(1-4)])
  have l: "layer_ok l" and cap0: "?cap0 \<le> cap_max"
    using kv_inv_layer [OF inv layer(1)] layer(2) inv by (simp_all add: kv_inv_def kv_ok_def)
  note mul = sized_row [OF layer_ok_sized [OF l] cap0]
  have reset: "length (kv_layers ?kv0) = length (kv_layers kv)" "\<And>j. j < length (kv_layers kv) \<Longrightarrow> kv_layers ?kv0 ! j = (kv_layers kv ! j)\<lparr>lk_rows := 0\<rparr>"
    "kv_ga_cap0 ?kv0 = ?cap0" by (simp_all add: kv_reset_def)
  have len: "length k = ?cap0 * row_k l" by (rule cuda_malloc_ok [OF assms(1) fails(1)])
  have fail: "shrink_ga_layer cu ?cap0 (g, ?l0) = (Err (AllocFailed rc), (g2, ?l1))"
    by (rule shrink_ga_layer_fails) (use fails sizes mul in simp_all)
  have upt: "[0..<length (kv_layers kv)] = [0..<i] @ i # [Suc i..<length (kv_layers kv)]"
    using layer(1) by (metis upt_add_eq_append upt_conv_Cons le_add1 le_add_diff_inverse less_imp_le_nat add_0)
  have "layer_loop ?P (\<lambda>_. 0) ?body 0 [0..<length (kv_layers kv)] (g, ?kv0) = layer_loop ?P (\<lambda>_. 0) ?body 0 (i # [Suc i..<length (kv_layers kv)]) (g, ?kv0)"
    unfolding upt by (rule layer_loop_skip) (use layer(1,5) reset(2) in \<open>auto simp: is_ga_def\<close>)
  also have "\<dots> = (Err (AllocFailed rc), (g2, ?kv1))"
    using layer reset fail by (simp add: ebind_def ethen_def eget_def with_layer_def is_ga_def)
  finally have run: "shrink_ga cu (g, kv) = (Err (AllocFailed rc), (g2, ?kv1))"
    by (simp add: shrink_ga_def for_layers_def ethen_def ebind_def emodify_def eget_def reset)
  have at: "kv_layers ?kv1 ! i = ?l1" and i: "i < length (kv_layers ?kv1)" using layer(1) reset(1) by simp_all
  have t: "t \<le> cap_max" using rows(2) layer_ok_cap [OF l] by blast
  have "usize_add 0 t = t" by (rule usize_add_no_wrap [of 0 t, simplified]) (use t in \<open>simp add: cap_max_def\<close>)
  then have "prepare cu i t (h, ?kv1) = (Ok (), (h, ?kv1))"
    using at i rows(2) by (simp add: prepare_def ebind_def eget_def eret_def)
  moreover have "?cap0 * row_k l < t * row_k l" using rows(1) sizes(2) by simp
  then have "length ks > length (lk_k ?l1)" using rows(3) len by simp
  ultimately have "fst (append_rows cu i t ks vs ps (h, ?kv1)) = Panic"
    using at i by (simp add: append_rows_def ethen_def ebind_def eget_def with_layer_def epanic_def)
  then show ?thesis using run at len by (intro exI [of _ ?kv1]) simp
qed

definition grown_kv :: device_kv where
  "grown_kv = small_kv\<lparr>kv_layers := (kv_layers small_kv)[0 := (kv_layers small_kv ! 0)\<lparr>lk_cap := 4096,
      lk_k := replicate 8192 0, lk_v := replicate 4096 0, lk_pos := replicate 32768 0\<rparr>]\<rparr>"

lemma grown_kv_reach: "kv_reach (counting_cuda 100) small_config grown_kv"
proof -
  have "run_op (counting_cuda 100) (OpReserveGa 5) (0, small_kv) = (Ok (), (3, grown_kv))"
    by (simp add: grown_kv_def small_kv_eq counting_cuda_def reserve_ga_def for_layers_def grow_ga_def regrow_def with_layer_def
        ebind_def ethen_def eret_def eget_def emodify_def on_fst_def buf_alloc_def copy_new_def copy_bytes_def check_rc_def
        next_multiple_def usize_add_def usize_mul_def is_ga_def put_bytes_def upt_rec)
  from reach_op [OF small_kv_reach _ this] show ?thesis by (simp add: row_max_def)
qed

lemma shrink_ga_failure_shortens_witness:
  "\<exists>kv'. shrink_ga (counting_cuda 100) (99, grown_kv) = (Err (AllocFailed 2), (101, kv')) \<and>
    lk_cap (kv_layers kv' ! 0) = 4096 \<and> length (lk_k (kv_layers kv' ! 0)) = 8 \<and>
    fst (append_rows (counting_cuda 100) 0 5 (replicate 10 1) (replicate 5 1) (replicate 40 0) (101, kv')) = Panic"
  using shrink_ga_failure_shortens [OF counting_cuda_ok _ _ grown_kv_reach, of 0 "kv_layers grown_kv ! 0" 99
      "replicate 8 0" 100 2 "replicate 4 0" 101 5 "replicate 10 1" "replicate 5 1" "replicate 40 0" 101]
  by (simp add: grown_kv_def small_kv_eq small_config_def config_tiny_def counting_cuda_def is_ga_def)

end
