(* ===== verification/KvPoint.thy ===== *)
theory KvPoint
  imports KvReach
begin

text \<open>
  Retained points: \<open>Kind\<close> of \<open>hostcache.rs\<close>, \<open>After\<close> of \<open>sampling.rs\<close>, \<open>Point\<close> of \<open>api.rs\<close>. A point is an exact
  position of a slot with its sliding-window rows and draft rings saved; loading it into a cache that holds at
  least its global rows puts the cache back at that position.
\<close>

datatype kind = KPrompt | KTurn

record after =
  af_greedy :: "nat option"
  af_logits :: "f32 list option"

definition serves :: "after \<Rightarrow> bool \<Rightarrow> bool" where
  "serves a sampled = (if sampled then af_logits a \<noteq> None else af_greedy a \<noteq> None)"

record point =
  pt_len :: nat
  pt_after :: after
  pt_kind :: kind
  pt_state :: bytes
  pt_swa_rows :: nat
  pt_last_use :: u64

definition point_save :: "'g cuda \<Rightarrow> device_kv \<Rightarrow> after \<Rightarrow> kind \<Rightarrow> u64 \<Rightarrow> ('g, point option, kv_error) eff" where
  "point_save cu kv a k now = (\<lambda>g. case buf_alloc cu AllocFailed (kv_state_bytes kv) g of
       (Ok state, g1) \<Rightarrow> (case save_state_dev cu kv (g1, state) of
           (Ok swa_rows, (g2, state)) \<Rightarrow> (Ok (Some \<lparr>pt_len = kv_tokens kv, pt_after = a, pt_kind = k, pt_state = state,
               pt_swa_rows = swa_rows, pt_last_use = now\<rparr>), g2)
         | (Err e, (g2, _)) \<Rightarrow> (Ok None, g2)
         | (Panic, (g2, _)) \<Rightarrow> (Panic, g2))
     | (Err e, g1) \<Rightarrow> (Ok None, g1)
     | (Panic, g1) \<Rightarrow> (Panic, g1))"

definition point_load :: "'g cuda \<Rightarrow> point \<Rightarrow> ('g, unit) kv_eff" where
  "point_load cu p = ethen (rewind_ga (pt_len p)) (load_state_dev cu (pt_state p) (pt_swa_rows p))"

lemma point_save_saved:
  assumes cu: "cuda_ok cu" and inv: "kv_inv W S kv" and run: "point_save cu kv a k now g = (Ok (Some p), g')"
  shows "pt_len p = kv_tokens kv \<and> kv_state_bytes kv \<le> length (pt_state p) \<and> state_saved kv (pt_swa_rows p) (pt_state p)"
proof -
  obtain state g1 where al: "buf_alloc cu AllocFailed (kv_state_bytes kv) g = (Ok state, g1)"
    using run by (auto simp: point_save_def split: prod.splits outcome.splits)
  obtain n g2 b where sv: "save_state_dev cu kv (g1, state) = (Ok n, (g2, b))" and p: "p = \<lparr>pt_len = kv_tokens kv, pt_after = a,
      pt_kind = k, pt_state = b, pt_swa_rows = n, pt_last_use = now\<rparr>"
    using run al by (auto simp: point_save_def split: prod.splits outcome.splits)
  from wpD_Ok [OF wp_save_state_dev [OF cu inv] sv] show ?thesis by (simp add: p)
qed

text \<open>Rewinding keeps the first rows of every global layer.\<close>

lemma wp_rewind_rows:
  assumes inv: "kv_inv W S kv"
  shows "wp (rewind_ga p) (\<lambda>_ (g', kv'). kv_inv W S kv' \<and> kv_tokens kv' = p \<and> kv_draft kv' = kv_draft kv \<and>
       length (kv_layers kv') = length (kv_layers kv) \<and>
       (\<forall>i < length (kv_layers kv). if is_ga (kv_layers kv ! i)
          then p \<le> lk_rows (kv_layers kv ! i) \<and> kv_layers kv' ! i = (kv_layers kv ! i)\<lparr>lk_rows := p\<rparr>
          else kv_layers kv' ! i = kv_layers kv ! i))
    (\<lambda>_. True) (g, kv)"
proof -
  let ?body = "ebind (eget snd) (\<lambda>l. if p > lk_rows l then efail (RewindPast p (lk_rows l))
      else emodify (\<lambda>(g, l). (g, l\<lparr>lk_rows := p\<rparr>))) :: ('a \<times> layer_kv, unit, kv_error) eff"
  have "wp (for_layers is_ga (\<lambda>_. 0) (\<lambda>_ i. with_layer i ?body))
    (\<lambda>_ (g', kv'). kv_inv W S kv' \<and> changed (\<lambda>i. is_ga (kv_layers kv ! i)) (\<lambda>_ l l'. p \<le> lk_rows l \<and> l' = l\<lparr>lk_rows := p\<rparr>)
       (length (kv_layers kv)) kv kv') (\<lambda>(g', kv'). kv_inv W S kv' \<and> kv_same kv kv') (g, kv)"
  proof (rule wp_for_layers [OF inv], rule layer_stepI)
    fix i kv' and g :: 'a
    assume i: "i < length (kv_layers kv)" and inv': "kv_inv W S kv'"
      and len: "length (kv_layers kv') = length (kv_layers kv)" and here: "kv_layers kv' ! i = kv_layers kv ! i"
    have l: "layer_ok (kv_layers kv ! i)" using kv_inv_layer [OF inv i] by simp
    show "wp ?body (\<lambda>_ (g', l'). fine W (kv_layers kv' ! i) l' \<and> p \<le> lk_rows (kv_layers kv ! i) \<and> l' = (kv_layers kv ! i)\<lparr>lk_rows := p\<rparr>)
        (\<lambda>(g', l'). fine W (kv_layers kv' ! i) l') (g, kv_layers kv' ! i)"
      using l layer_ok_rows [OF l, of p] by (auto simp: wp_simps here fine_def layer_ok_def)
  qed simp
  then show ?thesis
    unfolding rewind_ga_def wp_ethen
    by (rule wp_mono) (auto simp: wp_simps changed_def kv_same_def split: if_splits)
qed

text \<open>What a cache resumed at an earlier position \<open>kv0\<close> holds.\<close>

definition resumed :: "device_kv \<Rightarrow> device_kv \<Rightarrow> bool" where
  "resumed kv0 kv \<longleftrightarrow> kv_tokens kv = kv_tokens kv0 \<and> kv_draft kv = kv_draft kv0 \<and>
     length (kv_layers kv) = length (kv_layers kv0) \<and>
     (\<forall>i < length (kv_layers kv0). let l0 = kv_layers kv0 ! i; l = kv_layers kv ! i in
        if is_ga l0 then lk_rows l = lk_rows l0 \<and> (\<forall>p. live p l = live p l0)
        else lk_rows l = min (lk_rows l0) (swa_keep_max kv0) \<and>
          (\<forall>p. live p l = drop ((lk_rows l0 - lk_rows l) * plane_row p l0) (live p l0)))"

lemma rows_at_last: "n \<le> lk_rows l \<Longrightarrow> rows_at p l (lk_rows l - n) n = drop ((lk_rows l - n) * plane_row p l) (live p l)"
  unfolding rows_at_def using compacted_live [of "lk_rows l - n" n l p] by simp

lemma draft_saved_unique:
  assumes "draft_ok d" "draft_ok d'" "draft_saved d base buf" "draft_saved d' base buf"
  shows "d' = d"
  by (rule draft_eqI) (use assms in \<open>auto simp: draft_saved_def\<close>)

lemma wp_point_load:
  fixes cu :: "'g cuda"
  assumes cu: "cuda_ok cu" and inv0: "kv_inv W S kv0" and inv1: "kv_inv W S kv1"
    and sv: "pt_len p = kv_tokens kv0" "state_saved kv0 (pt_swa_rows p) (pt_state p)"
    and ga: "\<And>i. i < length (kv_layers kv0) \<Longrightarrow> is_ga (kv_layers kv0 ! i) \<Longrightarrow> lk_rows (kv_layers kv0 ! i) = kv_tokens kv0 \<and>
      (\<forall>q. rows_at q (kv_layers kv1 ! i) 0 (kv_tokens kv0) = live q (kv_layers kv0 ! i))"
    and draft: "kv_draft kv1 = None \<longleftrightarrow> kv_draft kv0 = None"
  shows "wp (point_load cu p) (\<lambda>_ (g', kv'). resumed kv0 kv') (\<lambda>_. True) (g, kv1)"
  unfolding point_load_def wp_ethen
proof (rule wp_mono [OF wp_rewind_rows [OF inv1]])
  let ?n = "length (kv_layers kv0)" and ?T = "kv_tokens kv0" and ?rows = "pt_swa_rows p" and ?km = "swa_keep_max kv0"
  have len: "length (kv_layers kv1) = ?n" using inv0 inv1 by (simp add: kv_inv_length)
  have geo: "geom (kv_layers kv1 ! i) = geom (kv_layers kv0 ! i)" if "i < ?n" for i
    using kv_inv_geom [OF inv0, of i] kv_inv_geom [OF inv1, of i] that kv_inv_length [OF inv0] by simp
  fix x and s :: "'g \<times> device_kv"
  assume post: "case s of (g', kv') \<Rightarrow> kv_inv W S kv' \<and> kv_tokens kv' = pt_len p \<and> kv_draft kv' = kv_draft kv1 \<and>
       length (kv_layers kv') = length (kv_layers kv1) \<and>
       (\<forall>i < length (kv_layers kv1). if is_ga (kv_layers kv1 ! i)
          then pt_len p \<le> lk_rows (kv_layers kv1 ! i) \<and> kv_layers kv' ! i = (kv_layers kv1 ! i)\<lparr>lk_rows := pt_len p\<rparr>
          else kv_layers kv' ! i = kv_layers kv1 ! i)"
  obtain h kv2 where s: "s = (h, kv2)" by force
  have inv2: "kv_inv W S kv2" and tok2: "kv_tokens kv2 = ?T" and draft2: "kv_draft kv2 = kv_draft kv1" and len2: "length (kv_layers kv2) = ?n"
    using post by (simp_all add: s sv len)
  have lay2: "if is_ga (kv_layers kv0 ! i) then ?T \<le> lk_rows (kv_layers kv1 ! i) \<and> kv_layers kv2 ! i = (kv_layers kv1 ! i)\<lparr>lk_rows := ?T\<rparr>
      else kv_layers kv2 ! i = kv_layers kv1 ! i" if "i < ?n" for i
    using post that geom_is(2) [OF geo [OF that]] by (auto simp: s sv len)
  have km: "swa_keep_max kv2 = ?km" by (rule swa_keep_max_shape [OF inv0 inv2])
  have geo2: "geom (kv_layers kv2 ! i) = geom (kv_layers kv0 ! i)" if "i < ?n" for i
    using kv_inv_geom [OF inv0, of i] kv_inv_geom [OF inv2, of i] that kv_inv_length [OF inv0] by simp
  have shape2: "kv_shape kv2 = kv_shape kv0" using inv0 inv2 by (simp add: kv_inv_def)
  have swa_geo: "is_swa l' = is_swa l \<and> swa_stride ?km l' = swa_stride ?km l" if "geom l' = geom l" for l l'
    using geom_is(1) [OF that] geom_eqD [OF that] by (simp add: swa_stride_def)
  have off2: "off_sum is_swa (swa_stride ?km) kv2 i = off_sum is_swa (swa_stride ?km) kv0 i" for i
    by (rule off_sum_shape [OF swa_geo shape2])
  have base2: "swa_state_bytes kv2 = swa_state_bytes kv0"
    unfolding swa_state_bytes_sum km by (rule sum_geom [OF swa_geo]) (use shape2 in \<open>simp_all add: kv_shape_def\<close>)
  show "wp (load_state_dev cu (pt_state p) ?rows) (\<lambda>_ (g', kv'). resumed kv0 kv') (\<lambda>_. True) s"
    unfolding s
  proof (rule wp_mono [OF wp_load_state_dev [OF cu inv2]])
    fix y and u :: "'g \<times> device_kv"
    assume "case u of (g', kv') \<Rightarrow> kv_inv W S kv' \<and> state_loaded ?rows (pt_state p) kv2 kv'"
    then obtain g3 kv3 kv4 where u: "u = (g3, kv4)" and inv4: "kv_inv W S kv4"
      and ch: "changed (\<lambda>i. is_swa (kv_layers kv2 ! i)) (\<lambda>i. loaded ?km ?rows (pt_state p) (off_sum is_swa (swa_stride ?km) kv2 i))
        (length (kv_layers kv2)) kv2 kv3" and rl: "rings_loaded (swa_state_bytes kv0) (pt_state p) kv3 kv4"
      by (auto simp: state_loaded_def km base2)
    have same4: "kv_layers kv4 = kv_layers kv3" "kv_tokens kv4 = kv_tokens kv3"
      using rl by (auto simp: rings_loaded_def split: option.splits)
    have tok4: "kv_tokens kv4 = ?T" using same4 ch tok2 by (simp add: changed_def kv_same_def)
    have len4: "length (kv_layers kv4) = ?n" using same4 ch len2 by (simp add: changed_def)
    have draft3: "kv_draft kv3 = kv_draft kv1" using ch draft2 by (simp add: changed_def kv_same_def)
    have draft4: "kv_draft kv4 = kv_draft kv0"
    proof (cases "kv_draft kv0")
      case None
      then show ?thesis using rl draft3 draft by (simp add: rings_loaded_def)
    next
      case (Some d)
      then obtain d1 where "kv_draft kv3 = Some d1" using draft3 draft by (cases "kv_draft kv1") auto
      then obtain d' where d': "kv_draft kv4 = Some d'" "draft_ok d'" "draft_saved d' (swa_state_bytes kv0) (pt_state p)"
        using rl by (auto simp: rings_loaded_def)
      have "draft_ok d" "draft_saved d (swa_state_bytes kv0) (pt_state p)"
        using inv0 sv(2) Some by (simp_all add: kv_inv_def kv_ok_def state_saved_def)
      with d' draft_saved_unique Some show ?thesis by simp
    qed
    have each: "let l0 = kv_layers kv0 ! i; l = kv_layers kv4 ! i in
        if is_ga l0 then lk_rows l = lk_rows l0 \<and> (\<forall>p. live p l = live p l0)
        else lk_rows l = min (lk_rows l0) ?km \<and> (\<forall>p. live p l = drop ((lk_rows l0 - lk_rows l) * plane_row p l0) (live p l0))"
      if i: "i < ?n" for i
    proof (cases "is_ga (kv_layers kv0 ! i)")
      case True
      then have "\<not> is_swa (kv_layers kv2 ! i)" using ga_not_swa geom_is(1) [OF geo2 [OF i]] by simp
      then have "kv_layers kv4 ! i = kv_layers kv2 ! i" using ch i len2 by (simp add: same4 changed_def)
      also have "\<dots> = (kv_layers kv1 ! i)\<lparr>lk_rows := ?T\<rparr>" using lay2 [OF i] True by simp
      finally show ?thesis
        using True ga [OF i True] by (simp add: Let_def live_rows_update rows_at_def)
    next
      case False
      then have swa: "is_swa (kv_layers kv0 ! i)" by (simp add: not_ga)
      then have swa2: "is_swa (kv_layers kv2 ! i)" using geom_is(1) [OF geo2 [OF i]] by simp
      have ld: "loaded ?km ?rows (pt_state p) (off_sum is_swa (swa_stride ?km) kv0 i) (kv_layers kv2 ! i) (kv_layers kv4 ! i)"
        using ch i len2 swa2 by (simp add: same4 changed_def off2)
      have sd: "saved ?km ?rows (off_sum is_swa (swa_stride ?km) kv0 i) (kv_layers kv0 ! i) (pt_state p)"
        using sv(2) i swa by (simp add: state_saved_def)
      have ok0: "layer_ok (kv_layers kv0 ! i)" using kv_inv_layer [OF inv0 i] by simp
      have n: "?rows = min (lk_rows (kv_layers kv0 ! i)) ?km" using sd by (simp add: saved_def)
      have "live q (kv_layers kv4 ! i) = rows_at q (kv_layers kv0 ! i) (lk_rows (kv_layers kv0 ! i) - ?rows) ?rows" for q
        by (rule loaded_saved [OF ld sd ok0 geo2 [OF i]])
      moreover have "lk_rows (kv_layers kv4 ! i) = ?rows" using ld by (simp add: loaded_def)
      ultimately show ?thesis using False n by (simp add: Let_def rows_at_last)
    qed
    show "case u of (g', kv') \<Rightarrow> resumed kv0 kv'"
      using each tok4 draft4 len4 by (simp add: u resumed_def)
  qed simp
qed simp

text \<open>C13: a retained point is the position it was saved at. Save a point of a cache, let the same slot (or
  any cache of the model holding those global rows first) run on, and load it: the cache is back at the point's
  token count with exactly its global rows and positions, the last rows a query may see of every sliding-window
  layer, and its draft rings; a call that fails is an error, never a panic.\<close>

theorem point_load_restores:
  assumes cu: "cuda_ok cu" and W: "0 < sliding_window c" "sliding_window c < 2 ^ 63"
    and reach: "kv_reach cu c kv0" "kv_reach cu c kv1"
    and save: "point_save cu kv0 a k now g = (Ok (Some p), g')"
    and ga: "\<forall>i < length (kv_layers kv0). is_ga (kv_layers kv0 ! i) \<longrightarrow> lk_rows (kv_layers kv0 ! i) = kv_tokens kv0 \<and>
      (\<forall>q. rows_at q (kv_layers kv1 ! i) 0 (kv_tokens kv0) = live q (kv_layers kv0 ! i))"
    and draft: "kv_draft kv1 = None \<longleftrightarrow> kv_draft kv0 = None"
  shows "case point_load cu p (h, kv1) of (Ok _, (_, kv2)) \<Rightarrow> resumed kv0 kv2 | (Err _, _) \<Rightarrow> True | (Panic, _) \<Rightarrow> False"
proof -
  note inv = reach_inv [OF cu W reach(1)] reach_inv [OF cu W reach(2)]
  have "wp (point_load cu p) (\<lambda>_ (g', kv'). resumed kv0 kv') (\<lambda>_. True) (h, kv1)"
    by (rule wp_point_load [OF cu inv]) (use point_save_saved [OF cu inv(1) save] ga draft in auto)
  then show ?thesis by (auto simp: wp_def split: prod.splits outcome.splits)
qed

lemmas effect_defs = ebind_def ethen_def eret_def eget_def emodify_def efail_def epanic_def on_fst_def buf_alloc_def check_rc_def
  copy_bytes_def store_copied_def copy_out_def copy_in_def copy_new_def with_layer_def for_layers_def Let_def usize_add_def usize_mul_def

definition two_tokens :: device_kv where
  "two_tokens = small_kv\<lparr>kv_layers :=
     [(kv_layers small_kv ! 0)\<lparr>lk_rows := 2, lk_k := [1, 1, 2, 2, 0, 0, 0, 0], lk_v := [1, 2, 0, 0]\<rparr>,
      (kv_layers small_kv ! 1)\<lparr>lk_rows := 2, lk_k := [1, 1, 2, 2] @ replicate 128 0, lk_v := [1, 2] @ replicate 64 0\<rparr>],
     kv_tokens := 2\<rparr>"

lemma two_tokens_reach: "kv_reach (counting_cuda 100) small_config two_tokens"
proof -
  let ?z = "replicate 16 (0 :: u8)"
  let ?a = "small_kv\<lparr>kv_layers := [(kv_layers small_kv ! 0)\<lparr>lk_rows := 2, lk_k := [1, 1, 2, 2, 0, 0, 0, 0], lk_v := [1, 2, 0, 0]\<rparr>,
      kv_layers small_kv ! 1]\<rparr>"
  let ?b = "small_kv\<lparr>kv_layers := [(kv_layers small_kv ! 0)\<lparr>lk_rows := 2, lk_k := [1, 1, 2, 2, 0, 0, 0, 0], lk_v := [1, 2, 0, 0]\<rparr>,
      (kv_layers small_kv ! 1)\<lparr>lk_rows := 2, lk_k := [1, 1, 2, 2] @ replicate 128 0, lk_v := [1, 2] @ replicate 64 0\<rparr>]\<rparr>"
  have rep: "replicate 4 (0 :: u8) = [0, 0, 0, 0]" "replicate 2 (0 :: u8) = [0, 0]" by (simp_all add: numeral_eq_Suc)
  have a: "run_op (counting_cuda 100) (OpAppend 0 2 [1, 1, 2, 2] [1, 2] ?z) (0, small_kv) = (Ok (), (0, ?a))"
    by (simp add: small_kv_eq counting_cuda_def append_rows_def prepare_def effect_defs put_bytes_def rep flip: replicate_add)
  have b: "run_op (counting_cuda 100) (OpAppend 1 2 [1, 1, 2, 2] [1, 2] ?z) (0, ?a) = (Ok (), (0, ?b))"
    by (simp add: small_kv_eq counting_cuda_def append_rows_def prepare_def effect_defs put_bytes_def flip: replicate_add)
  have c: "run_op (counting_cuda 100) (OpSetTokens 2) (0, ?b) = (Ok (), (0, two_tokens))"
    by (simp add: two_tokens_def effect_defs kv_set_tokens_def)
  have "kv_reach (counting_cuda 100) small_config ?a"
    by (rule reach_op [OF small_kv_reach _ a]) (simp_all add: small_kv_eq row_max_def)
  from reach_op [OF this _ b] have "kv_reach (counting_cuda 100) small_config ?b"
    by (simp add: small_kv_eq row_max_def)
  from reach_op [OF this _ c] show ?thesis by simp
qed

definition third_token :: "nat \<times> device_kv" where
  "third_token = snd (run_op (counting_cuda 100) (OpAppend 0 1 [3, 3] [3] (replicate 8 0)) (0, two_tokens))"

definition two_point :: point where
  "two_point = (case point_save (counting_cuda 100) two_tokens \<lparr>af_greedy = Some 7, af_logits = None\<rparr> KPrompt 1 0 of
     (Ok (Some p), _) \<Rightarrow> p)"

lemma two_point_saved:
  "point_save (counting_cuda 100) two_tokens \<lparr>af_greedy = Some 7, af_logits = None\<rparr> KPrompt 1 0 = (Ok (Some two_point), 1)"
  by (simp add: two_point_def two_tokens_def small_kv_eq counting_cuda_def point_save_def save_state_dev_def kv_state_bytes_def
      swa_state_bytes_def swa_layers_def swa_keep_max_def draft_state_bytes_def swa_stride_def is_swa_def before_def effect_defs
      put_bytes_def seen_rows_def)

lemma third_token_eq: "third_token = (0, two_tokens\<lparr>kv_layers :=
     [(kv_layers two_tokens ! 0)\<lparr>lk_rows := 3, lk_k := [1, 1, 2, 2, 3, 3, 0, 0], lk_v := [1, 2, 3, 0]\<rparr>, kv_layers two_tokens ! 1]\<rparr>)"
  by (simp add: third_token_def two_tokens_def small_kv_eq counting_cuda_def append_rows_def prepare_def effect_defs put_bytes_def
      flip: replicate_add)

lemma point_load_restores_witness:
  "case point_load (counting_cuda 100) two_point (0, snd third_token) of (Ok _, (_, kv2)) \<Rightarrow> resumed two_tokens kv2
     | (Err _, _) \<Rightarrow> True | (Panic, _) \<Rightarrow> False"
proof -
  have step: "run_op (counting_cuda 100) (OpAppend 0 1 [3, 3] [3] (replicate 8 0)) (0, two_tokens) = (Ok (), third_token)"
    by (simp add: third_token_eq two_tokens_def small_kv_eq counting_cuda_def append_rows_def prepare_def effect_defs put_bytes_def
        flip: replicate_add)
  then have step': "run_op (counting_cuda 100) (OpAppend 0 1 [3, 3] [3] (replicate 8 0)) (0, two_tokens)
      = (Ok (), (fst third_token, snd third_token))" by simp
  have reach: "kv_reach (counting_cuda 100) small_config (snd third_token)"
    by (rule reach_op [OF two_tokens_reach _ step']) (simp_all add: two_tokens_def small_kv_eq row_max_def)
  show ?thesis
    by (rule point_load_restores [OF counting_cuda_ok _ _ two_tokens_reach reach two_point_saved],
        simp add: small_config_def, simp add: small_config_def)
      (auto simp: third_token_eq two_tokens_def small_kv_eq less_Suc_eq numeral_2_eq_2 is_ga_def rows_at_def live_def
        all_planes)
qed

end
