(* ===== verification/HostCache.thy ===== *)
theory HostCache
  imports KvPoint "HOL-Library.Multiset"
begin

text \<open>
  \<open>crates/mimo26-coordinator/src/hostcache.rs\<close>: the host tier of the KV cache. Snapshots of a request's cache are
  kept in page-locked memory: whole pages of 256 rows shared between snapshots under a hash chain of the token
  prefix, the rows past the last whole page, and the position state. The two lanes of the chain are an argument
  (the standard library does not specify its default hasher). Log lines are left out.
\<close>

definition MIN_TOKENS :: nat where "MIN_TOKENS = 512"
definition SLAB_BYTES :: nat where "SLAB_BYTES = 2 ^ 30"

type_synonym slot = "nat \<times> nat"
type_synonym hasher = "u64 \<Rightarrow> 128 word \<Rightarrow> nat list \<Rightarrow> u64"

record arena =
  ar_slabs :: "bytes list"
  ar_slot_bytes :: nat
  ar_free :: "slot list"

record hpage =
  pg_slot :: slot
  pg_refs :: u32

record snapshot =
  sn_tokens :: "nat list"
  sn_pages :: "128 word list"
  sn_tail :: "slot option"
  sn_state :: slot
  sn_swa_rows :: nat
  sn_has_draft :: bool
  sn_after :: after
  sn_kind :: kind
  sn_last_use :: u64

record hstats =
  hs_captures :: u64
  hs_restores :: u64
  hs_restored_tokens :: u64
  hs_evicted :: u64
  hs_pages_written :: u64

record host_cache =
  hc_pages :: arena
  hc_states :: arena
  hc_page_map :: "128 word \<rightharpoonup> hpage"
  hc_snaps :: "snapshot list"
  hc_clock :: u64
  hc_swa_bytes :: nat
  hc_stats :: hstats

subsection \<open>The arena\<close>

text \<open>Whole slots are carved from slabs of at most \<open>SLAB_BYTES\<close>; the free list is a stack.\<close>

function arena_fill :: "'g cuda \<Rightarrow> nat \<Rightarrow> nat \<Rightarrow> bytes list \<Rightarrow> slot list \<Rightarrow> ('g, arena, kv_error) eff" where
  "arena_fill cu sb left slabs free =
     (if left = 0 then eret \<lparr>ar_slabs = slabs, ar_slot_bytes = sb, ar_free = free\<rparr>
      else let n = min left (max (SLAB_BYTES div sb) 1); s = length slabs in
        ebind (\<lambda>g. case cuda_host_register cu (n * sb) g of (rc, g') \<Rightarrow> (Ok rc, g')) (\<lambda>rc.
        ethen (check_rc (HostRegister (n * sb)) rc)
          (arena_fill cu sb (left - n) (slabs @ [replicate (n * sb) 0]) (free @ map (\<lambda>i. (s, i * sb)) (rev [0..<n])))))"
  by pat_completeness auto

termination
  by (relation "measure (\<lambda>(cu, sb, left, slabs, free). left)") auto

declare arena_fill.simps [simp del]

definition arena_new :: "'g cuda \<Rightarrow> nat \<Rightarrow> nat \<Rightarrow> ('g, arena, kv_error) eff" where
  "arena_new cu sb slots = (if sb = 0 then epanic else arena_fill cu sb slots [] [])"

definition slot_in :: "arena \<Rightarrow> slot \<Rightarrow> bool" where
  "slot_in a s \<longleftrightarrow> fst s < length (ar_slabs a) \<and> snd s + ar_slot_bytes a \<le> length (ar_slabs a ! fst s)"

definition arena_get :: "arena \<Rightarrow> slot \<Rightarrow> bytes" where
  "arena_get a s = take (ar_slot_bytes a) (drop (snd s) (ar_slabs a ! fst s))"

definition arena_put :: "slot \<Rightarrow> bytes \<Rightarrow> arena \<Rightarrow> arena" where
  "arena_put s b a = a\<lparr>ar_slabs := (ar_slabs a)[fst s := put_bytes (snd s) b (ar_slabs a ! fst s)]\<rparr>"

definition push_free :: "slot \<Rightarrow> arena \<Rightarrow> arena" where
  "push_free s a = a\<lparr>ar_free := ar_free a @ [s]\<rparr>"

subsection \<open>Page pids\<close>

definition chain_id :: "hasher \<Rightarrow> 128 word \<Rightarrow> nat list \<Rightarrow> 128 word" where
  "chain_id lane prev block = or (push_bit 64 (ucast (lane 0x6d696d6f prev block))) (ucast (lane 0x32366b76 prev block))"

function chain_from :: "hasher \<Rightarrow> 128 word \<Rightarrow> nat list \<Rightarrow> 128 word list" where
  "chain_from lane prev ts =
     (if length ts < KV_PAGE_ROWS then []
      else let pid = chain_id lane prev (take KV_PAGE_ROWS ts) in pid # chain_from lane pid (drop KV_PAGE_ROWS ts))"
  by pat_completeness auto

termination
  by (relation "measure (\<lambda>(lane, prev, ts). length ts)") (auto simp: KV_PAGE_ROWS_def)

declare chain_from.simps [simp del]

definition page_chain :: "hasher \<Rightarrow> nat list \<Rightarrow> 128 word list" where
  "page_chain lane ts = chain_from lane 0 ts"

subsection \<open>Eviction and allocation\<close>

text \<open>\<open>min_by_key\<close> of the last use, then prompt before turn: the first of equal minima.\<close>

definition goes_before :: "kind \<times> u64 \<Rightarrow> kind \<times> u64 \<Rightarrow> bool" where
  "goes_before a b \<longleftrightarrow> snd a < snd b \<or> snd a = snd b \<and> fst a = KPrompt \<and> fst b = KTurn"

definition victim :: "(kind \<times> u64) list \<Rightarrow> nat option" where
  "victim xs = foldl (\<lambda>best i. case best of None \<Rightarrow> Some i | Some j \<Rightarrow> if goes_before (xs ! i) (xs ! j) then Some i else Some j)
     None [0..<length xs]"

definition swap_remove :: "nat \<Rightarrow> 'a list \<Rightarrow> 'a list" where
  "swap_remove i xs = butlast (xs[i := last xs])"

definition drop_ref :: "128 word \<Rightarrow> host_cache \<Rightarrow> host_cache" where
  "drop_ref pid hc = (case hc_page_map hc pid of None \<Rightarrow> hc
     | Some p \<Rightarrow> let refs = pg_refs p - 1 in
         if refs = 0 then hc\<lparr>hc_page_map := (hc_page_map hc)(pid := None), hc_pages := push_free (pg_slot p) (hc_pages hc)\<rparr>
         else hc\<lparr>hc_page_map := (hc_page_map hc)(pid \<mapsto> p\<lparr>pg_refs := refs\<rparr>)\<rparr>)"

definition free_page :: "slot \<Rightarrow> host_cache \<Rightarrow> host_cache" where
  "free_page s hc = hc\<lparr>hc_pages := push_free s (hc_pages hc)\<rparr>"

definition free_tail :: "slot option \<Rightarrow> host_cache \<Rightarrow> host_cache" where
  "free_tail t hc = (case t of None \<Rightarrow> hc | Some s \<Rightarrow> free_page s hc)"

definition free_state :: "slot \<Rightarrow> host_cache \<Rightarrow> host_cache" where
  "free_state s hc = hc\<lparr>hc_states := push_free s (hc_states hc)\<rparr>"

definition release :: "snapshot \<Rightarrow> host_cache \<Rightarrow> host_cache" where
  "release s hc = fold drop_ref (sn_pages s) (free_tail (sn_tail s) (free_state (sn_state s) hc))"

definition snap_keys :: "host_cache \<Rightarrow> (kind \<times> u64) list" where
  "snap_keys hc = map (\<lambda>s. (sn_kind s, sn_last_use s)) (hc_snaps hc)"

definition evict_snap :: "nat \<Rightarrow> host_cache \<Rightarrow> host_cache" where
  "evict_snap i hc =
     (let hc' = release (hc_snaps hc ! i) (hc\<lparr>hc_snaps := swap_remove i (hc_snaps hc)\<rparr>)
      in hc'\<lparr>hc_stats := (hc_stats hc')\<lparr>hs_evicted := hs_evicted (hc_stats hc') + 1\<rparr>\<rparr>)"

definition evict_one :: "host_cache \<Rightarrow> bool \<times> host_cache" where
  "evict_one hc = (case victim (snap_keys hc) of None \<Rightarrow> (False, hc) | Some i \<Rightarrow> (True, evict_snap i hc))"

lemma victim_loop_bound:
  assumes "foldl (\<lambda>best i. case best of None \<Rightarrow> Some i | Some j \<Rightarrow> if goes_before (xs ! i) (xs ! j) then Some i else Some j) b ns = Some k"
    and "\<forall>i \<in> set ns. i < n" "\<forall>j. b = Some j \<longrightarrow> j < n"
  shows "k < n"
  using assms by (induction ns arbitrary: b) (auto split: option.splits if_splits)

lemma victim_bound: "victim xs = Some i \<Longrightarrow> i < length xs"
  unfolding victim_def by (rule victim_loop_bound) auto

lemma length_swap_remove [simp]: "length (swap_remove i xs) = length xs - 1"
  by (simp add: swap_remove_def)

lemma drop_ref_snaps [simp]: "hc_snaps (drop_ref pid hc) = hc_snaps hc"
  by (simp add: drop_ref_def Let_def split: option.split)

lemma fold_drop_ref_snaps [simp]: "hc_snaps (fold drop_ref pids hc) = hc_snaps hc"
  by (induction pids arbitrary: hc) simp_all

lemma release_snaps [simp]: "hc_snaps (release s hc) = hc_snaps hc"
  by (simp add: release_def free_tail_def free_page_def free_state_def split: option.split)

lemma evict_snap_snaps [simp]: "hc_snaps (evict_snap i hc) = swap_remove i (hc_snaps hc)"
  by (simp add: evict_snap_def Let_def)

lemma evict_one_shorter: "evict_one hc = (True, hc') \<Longrightarrow> length (hc_snaps hc') < length (hc_snaps hc)"
  by (auto simp: evict_one_def snap_keys_def dest!: victim_bound split: option.splits)

text \<open>The loop of \<open>alloc_page\<close> and \<open>alloc_state\<close>: pop a free slot, else evict a snapshot and try again.\<close>

function alloc_from ::
  "(host_cache \<Rightarrow> arena) \<Rightarrow> ((arena \<Rightarrow> arena) \<Rightarrow> host_cache \<Rightarrow> host_cache) \<Rightarrow> host_cache \<Rightarrow> slot option \<times> host_cache" where
  "alloc_from part upd hc =
     (if ar_free (part hc) \<noteq> []
      then (Some (last (ar_free (part hc))), upd (\<lambda>a. a\<lparr>ar_free := butlast (ar_free a)\<rparr>) hc)
      else (case evict_one hc of (False, hc') \<Rightarrow> (None, hc') | (True, hc') \<Rightarrow> alloc_from part upd hc'))"
  by pat_completeness auto

termination
  by (relation "measure (\<lambda>(part, upd, hc). length (hc_snaps hc))") (auto dest: evict_one_shorter [OF sym])

declare alloc_from.simps [simp del]

definition alloc_page :: "host_cache \<Rightarrow> slot option \<times> host_cache" where
  "alloc_page = alloc_from hc_pages hc_pages_update"

definition alloc_state :: "host_cache \<Rightarrow> slot option \<times> host_cache" where
  "alloc_state = alloc_from hc_states hc_states_update"

subsection \<open>Construction\<close>

text \<open>\<open>from_env\<close> from the budget in bytes on.\<close>

definition host_cache_new :: "'g cuda \<Rightarrow> device_kv \<Rightarrow> nat \<Rightarrow> ('g, host_cache, kv_error) eff" where
  "host_cache_new cu kv budget =
     (let page_bytes = kv_ga_page_bytes kv; swa_bytes = swa_state_bytes kv;
          state_bytes = swa_bytes + draft_state_bytes kv;
          n_states = min (max (budget div 10 div state_bytes) 4) 256;
          n_pages = max ((budget - n_states * state_bytes) div page_bytes) 16
      in if state_bytes = 0 \<or> page_bytes = 0 then epanic
         else ebind (arena_new cu page_bytes n_pages) (\<lambda>ps.
              ebind (arena_new cu state_bytes n_states) (\<lambda>ss.
              eret \<lparr>hc_pages = ps, hc_states = ss, hc_page_map = Map.empty, hc_snaps = [], hc_clock = 0, hc_swa_bytes = swa_bytes,
                hc_stats = \<lparr>hs_captures = 0, hs_restores = 0, hs_restored_tokens = 0, hs_evicted = 0, hs_pages_written = 0\<rparr>\<rparr>)))"

subsection \<open>Storing a snapshot\<close>

type_synonym ('g, 'a) hc_eff = "('g \<times> host_cache, 'a, kv_error) eff"

text \<open>An effect on the bytes of one slot (\<open>get_mut\<close>).\<close>

definition with_slot ::
  "(host_cache \<Rightarrow> arena) \<Rightarrow> ((arena \<Rightarrow> arena) \<Rightarrow> host_cache \<Rightarrow> host_cache) \<Rightarrow> slot \<Rightarrow> ('g \<times> bytes, 'a, kv_error) eff \<Rightarrow> ('g, 'a) hc_eff" where
  "with_slot part upd s m = (\<lambda>(g, hc).
     if slot_in (part hc) s
     then (case m (g, arena_get (part hc) s) of (r, (g', b)) \<Rightarrow> (r, (g', upd (arena_put s b) hc)))
     else (Panic, (g, hc)))"

abbreviation with_page :: "slot \<Rightarrow> ('g \<times> bytes, 'a, kv_error) eff \<Rightarrow> ('g, 'a) hc_eff" where
  "with_page \<equiv> with_slot hc_pages hc_pages_update"

abbreviation with_state :: "slot \<Rightarrow> ('g \<times> bytes, 'a, kv_error) eff \<Rightarrow> ('g, 'a) hc_eff" where
  "with_state \<equiv> with_slot hc_states hc_states_update"

definition hc_do :: "(host_cache \<Rightarrow> host_cache) \<Rightarrow> ('g, unit) hc_eff" where
  "hc_do f = emodify (\<lambda>(g, hc). (g, f hc))"

text \<open>The closure \<open>abort\<close>: the references the capture took.\<close>

definition abort :: "128 word list \<Rightarrow> host_cache \<Rightarrow> host_cache" where
  "abort held hc = fold drop_ref held hc"

definition add_ref :: "128 word \<Rightarrow> host_cache \<Rightarrow> host_cache" where
  "add_ref pid hc = hc\<lparr>hc_page_map := (hc_page_map hc)(pid := map_option (\<lambda>p. p\<lparr>pg_refs := pg_refs p + 1\<rparr>) (hc_page_map hc pid))\<rparr>"

definition add_page :: "128 word \<Rightarrow> slot \<Rightarrow> host_cache \<Rightarrow> host_cache" where
  "add_page pid s hc = hc\<lparr>hc_page_map := (hc_page_map hc)(pid \<mapsto> \<lparr>pg_slot = s, pg_refs = 1\<rparr>)\<rparr>"

text \<open>An allocation, or the abort of the capture (\<open>let Some(slot) = .. else \<dots> return Ok(())\<close>).\<close>

definition alloc_or ::
  "(host_cache \<Rightarrow> slot option \<times> host_cache) \<Rightarrow> (host_cache \<Rightarrow> host_cache) \<Rightarrow> (slot \<Rightarrow> ('g, 'a option) hc_eff) \<Rightarrow> ('g, 'a option) hc_eff" where
  "alloc_or alloc undo k = (\<lambda>(g, hc). case alloc hc of
       (None, hc') \<Rightarrow> (Ok None, (g, undo hc'))
     | (Some s, hc') \<Rightarrow> k s (g, hc'))"

fun capture_pages :: "'g cuda \<Rightarrow> device_kv \<Rightarrow> nat \<Rightarrow> 128 word list \<Rightarrow> 128 word list \<Rightarrow> u64 \<Rightarrow> ('g, (128 word list \<times> u64) option) hc_eff" where
  "capture_pages cu kv i [] held written = eret (Some (held, written))"
| "capture_pages cu kv i (pid # pids) held written = ebind (eget snd) (\<lambda>hc.
     if hc_page_map hc pid \<noteq> None
     then ethen (hc_do (add_ref pid)) (capture_pages cu kv (i + 1) pids (held @ [pid]) written)
     else alloc_or alloc_page (abort held) (\<lambda>slot.
       ethen (with_page slot (export_ga_page cu kv (i * KV_PAGE_ROWS) KV_PAGE_ROWS))
      (ethen (hc_do (add_page pid slot))
             (capture_pages cu kv (i + 1) pids (held @ [pid]) (written + 1)))))"

definition capture_tail :: "'g cuda \<Rightarrow> device_kv \<Rightarrow> nat \<Rightarrow> 128 word list \<Rightarrow> ('g, slot option option) hc_eff" where
  "capture_tail cu kv n held =
     (let rem = n mod KV_PAGE_ROWS in
      if rem > 0
      then alloc_or alloc_page (abort held) (\<lambda>slot.
        ethen (with_page slot (export_ga_page cu kv (n - rem) rem)) (eret (Some (Some slot))))
      else eret (Some None))"

definition capture_state :: "'g cuda \<Rightarrow> device_kv \<Rightarrow> bytes \<Rightarrow> 128 word list \<Rightarrow> slot option \<Rightarrow> ('g, slot option) hc_eff" where
  "capture_state cu kv state held tail =
     alloc_or alloc_state (abort held \<circ> free_tail tail) (\<lambda>slot.
       ebind (with_state slot (ebind (eget snd) (\<lambda>buf.
           let len = min (min (kv_state_bytes kv) (length buf)) (length state) in
           ebind (on_fst (copy_bytes cu buf 0 state 0 len)) (\<lambda>(rc, b). ethen (emodify (\<lambda>(g, _). (g, b))) (eret rc))))) (\<lambda>rc.
       if rc \<noteq> 0
       then ethen (hc_do (abort held \<circ> free_tail tail \<circ> free_state slot)) (efail (CudaFailed ''hostcache: state copy'' rc))
       else eret (Some slot)))"

definition refresh :: "after \<Rightarrow> u64 \<Rightarrow> snapshot \<Rightarrow> snapshot" where
  "refresh a now s = s\<lparr>sn_last_use := now, sn_after :=
     \<lparr>af_greedy = (case af_greedy (sn_after s) of None \<Rightarrow> af_greedy a | Some x \<Rightarrow> Some x),
      af_logits = (case af_logits (sn_after s) of None \<Rightarrow> af_logits a | Some x \<Rightarrow> Some x)\<rparr>\<rparr>"

definition find_tokens :: "nat list \<Rightarrow> snapshot list \<Rightarrow> nat option" where
  "find_tokens ts ss = List.find (\<lambda>i. sn_tokens (ss ! i) = ts) [0..<length ss]"

definition add_snapshot :: "snapshot \<Rightarrow> u64 \<Rightarrow> host_cache \<Rightarrow> host_cache" where
  "add_snapshot s written hc = hc\<lparr>hc_snaps := hc_snaps hc @ [s], hc_stats := (hc_stats hc)\<lparr>
     hs_captures := hs_captures (hc_stats hc) + 1, hs_pages_written := hs_pages_written (hc_stats hc) + written\<rparr>\<rparr>"

definition when_some :: "'a option \<Rightarrow> ('a \<Rightarrow> ('s, unit, 'e) eff) \<Rightarrow> ('s, unit, 'e) eff" where
  "when_some x f = (case x of None \<Rightarrow> eret () | Some y \<Rightarrow> f y)"

definition new_snap :: "device_kv \<Rightarrow> nat list \<Rightarrow> after \<Rightarrow> kind \<Rightarrow> nat \<Rightarrow> 128 word list \<Rightarrow> slot option \<Rightarrow> slot \<Rightarrow> u64 \<Rightarrow> snapshot" where
  "new_snap kv ts a k swa_rows held tail slot now = \<lparr>sn_tokens = ts, sn_pages = held, sn_tail = tail, sn_state = slot,
     sn_swa_rows = swa_rows, sn_has_draft = draft_state_bytes kv > 0, sn_after = a, sn_kind = k, sn_last_use = now\<rparr>"

text \<open>The body of \<open>capture\<close> for tokens not held yet.\<close>

definition capture_new ::
  "'g cuda \<Rightarrow> hasher \<Rightarrow> device_kv \<Rightarrow> nat list \<Rightarrow> after \<Rightarrow> kind \<Rightarrow> bytes \<Rightarrow> nat \<Rightarrow> ('g, unit) hc_eff" where
  "capture_new cu lane kv ts a k state swa_rows =
     ebind (capture_pages cu kv 0 (page_chain lane ts) [] 0) (\<lambda>pages. when_some pages (\<lambda>(held, written).
     ebind (capture_tail cu kv (length ts) held) (\<lambda>tail. when_some tail (\<lambda>tail.
     ethen (on_fst (sync_export cu))
    (ebind (capture_state cu kv state held tail) (\<lambda>slot. when_some slot (\<lambda>slot.
     hc_do (\<lambda>hc. add_snapshot (new_snap kv ts a k swa_rows held tail slot (hc_clock hc)) written hc))))))))"

definition capture ::
  "'g cuda \<Rightarrow> hasher \<Rightarrow> device_kv \<Rightarrow> nat list \<Rightarrow> after \<Rightarrow> kind \<Rightarrow> bytes \<Rightarrow> nat \<Rightarrow> ('g, unit) hc_eff" where
  "capture cu lane kv ts a k state swa_rows =
     (if length ts < MIN_TOKENS \<or> kv_tokens kv < length ts then eret ()
      else ethen (hc_do (\<lambda>hc. hc\<lparr>hc_clock := hc_clock hc + 1\<rparr>)) (ebind (eget snd) (\<lambda>hc.
        case find_tokens ts (hc_snaps hc) of
          Some i \<Rightarrow> hc_do (\<lambda>hc. hc\<lparr>hc_snaps := (hc_snaps hc)[i := refresh a (hc_clock hc) (hc_snaps hc ! i)]\<rparr>)
        | None \<Rightarrow> capture_new cu lane kv ts a k state swa_rows)))"

subsection \<open>Lookup and restore\<close>

definition is_prefix_snap :: "128 word list \<Rightarrow> nat list \<Rightarrow> snapshot \<Rightarrow> bool" where
  "is_prefix_snap chain prompt s =
     (let n = length (sn_tokens s); full = n div KV_PAGE_ROWS in
      sn_pages s = take full chain \<and>
      drop (full * KV_PAGE_ROWS) (sn_tokens s) = take (n - full * KV_PAGE_ROWS) (drop (full * KV_PAGE_ROWS) prompt))"

definition lookup_snap :: "hasher \<Rightarrow> nat list \<Rightarrow> snapshot list \<Rightarrow> nat option" where
  "lookup_snap lane prompt ss =
     (let chain = page_chain lane prompt in
      foldl (\<lambda>best i. let n = length (sn_tokens (ss ! i)) in
         if n > length prompt \<or> (case best of None \<Rightarrow> False | Some b \<Rightarrow> length (sn_tokens (ss ! b)) \<ge> n) then best
         else if \<not> is_prefix_snap chain prompt (ss ! i) then best
         else Some i) None [0..<length ss])"

definition lookup :: "hasher \<Rightarrow> host_cache \<Rightarrow> nat list \<Rightarrow> (nat \<times> nat) option" where
  "lookup lane hc prompt = map_option (\<lambda>i. (i, length (sn_tokens (hc_snaps hc ! i)))) (lookup_snap lane prompt (hc_snaps hc))"

text \<open>\<open>&prompt[..prompt.len() - 1]\<close> panics on an empty prompt.\<close>

definition lookup_for :: "hasher \<Rightarrow> host_cache \<Rightarrow> nat list \<Rightarrow> bool \<Rightarrow> ((nat \<times> nat) option, kv_error) outcome" where
  "lookup_for lane hc prompt sampled = (case lookup lane hc prompt of
       Some (i, n) \<Rightarrow>
         if n = length prompt \<and> \<not> serves (sn_after (hc_snaps hc ! i)) sampled
         then (if prompt = [] then Panic else Ok (lookup lane hc (butlast prompt)))
         else Ok (Some (i, n))
     | None \<Rightarrow> Ok None)"

text \<open>An effect on the device cache beside other state.\<close>

definition on_kv :: "('g \<times> device_kv, 'a, kv_error) eff \<Rightarrow> ('g \<times> device_kv \<times> 't, 'a, kv_error) eff" where
  "on_kv m = (\<lambda>(g, kv, t). case m (g, kv) of (r, (g', kv')) \<Rightarrow> (r, (g', kv', t)))"

definition import_slot :: "'g cuda \<Rightarrow> nat \<Rightarrow> arena \<Rightarrow> slot \<Rightarrow> ('g, unit) kv_eff" where
  "import_slot cu n a s = (if slot_in a s then import_ga_page cu n (arena_get a s) else epanic)"

definition import_id :: "'g cuda \<Rightarrow> host_cache \<Rightarrow> 128 word \<Rightarrow> ('g, unit) kv_eff" where
  "import_id cu hc pid = (case hc_page_map hc pid of None \<Rightarrow> efail PageMissing
     | Some p \<Rightarrow> import_slot cu KV_PAGE_ROWS (hc_pages hc) (pg_slot p))"

text \<open>What \<open>restore\<close> does to the device cache.\<close>

definition load_snapshot :: "'g cuda \<Rightarrow> host_cache \<Rightarrow> snapshot \<Rightarrow> ('g, unit) kv_eff" where
  "load_snapshot cu hc s =
     (let n = length (sn_tokens s) in
      ethen (emodify (\<lambda>(g, kv). (g, kv_reset kv)))
     (ethen (reserve_ga cu n)
     (ethen (efor (import_id cu hc) (sn_pages s))
     (ethen (case sn_tail s of None \<Rightarrow> eret () | Some t \<Rightarrow> import_slot cu (n mod KV_PAGE_ROWS) (hc_pages hc) t)
     (ethen (finish_ga_import cu)
     (if \<not> slot_in (hc_states hc) (sn_state s) \<or> hc_swa_bytes hc > ar_slot_bytes (hc_states hc) then epanic
      else let buf = arena_get (hc_states hc) (sn_state s) in
        ethen (import_swa cu (sn_swa_rows s) (take (hc_swa_bytes hc) buf))
       (ethen (if sn_has_draft s then import_draft cu (drop (hc_swa_bytes hc) buf) else eret ())
              (emodify (\<lambda>(g, kv). (g, kv_set_tokens n kv))))))))))"

definition restore :: "'g cuda \<Rightarrow> nat \<Rightarrow> ('g \<times> device_kv \<times> host_cache, nat \<times> after \<times> kind, kv_error) eff" where
  "restore cu idx =
     ethen (emodify (\<lambda>(g, kv, hc). (g, kv, hc\<lparr>hc_clock := hc_clock hc + 1\<rparr>)))
    (ebind (eget (\<lambda>(g, kv, hc). hc)) (\<lambda>hc.
     if idx \<ge> length (hc_snaps hc) then epanic
     else let s = hc_snaps hc ! idx; n = length (sn_tokens s) in
       ethen (emodify (\<lambda>(g, kv, hc). (g, kv, hc\<lparr>hc_snaps := (hc_snaps hc)[idx := s\<lparr>sn_last_use := hc_clock hc\<rparr>]\<rparr>)))
      (ethen (on_kv (load_snapshot cu hc s))
      (ethen (emodify (\<lambda>(g, kv, hc). (g, kv, hc\<lparr>hc_stats := (hc_stats hc)\<lparr>hs_restores := hs_restores (hc_stats hc) + 1,
           hs_restored_tokens := hs_restored_tokens (hc_stats hc) + of_nat n\<rparr>\<rparr>)))
       (eret (n, sn_after s, sn_kind s))))))"

end
