(* ===== verification/HostSlots.thy ===== *)
theory HostSlots
  imports HostCache
begin

text \<open>
  Accounting of the host tier: every slot of an arena is in one place (free, a page of the map, a tail or a
  state of a snapshot, or held by a capture under way), and a page's reference count is the number of snapshots
  and captures that use it.
\<close>

definition arena_slots :: "arena \<Rightarrow> slot set" where
  "arena_slots a = {(s, i * ar_slot_bytes a) | s i. s < length (ar_slabs a) \<and> (i + 1) * ar_slot_bytes a \<le> length (ar_slabs a ! s)}"

definition snap_refs :: "snapshot list \<Rightarrow> 128 word multiset" where
  "snap_refs ss = (\<Sum>s\<in>#mset ss. mset (sn_pages s))"

definition opt_slots :: "slot option \<Rightarrow> slot multiset" where
  "opt_slots t = (case t of None \<Rightarrow> {#} | Some s \<Rightarrow> {#s#})"

definition snap_tails :: "snapshot list \<Rightarrow> slot multiset" where
  "snap_tails ss = (\<Sum>s\<in>#mset ss. opt_slots (sn_tail s))"

definition snap_states :: "snapshot list \<Rightarrow> slot multiset" where
  "snap_states ss = image_mset sn_state (mset ss)"

definition map_slots :: "(128 word \<rightharpoonup> hpage) \<Rightarrow> slot multiset" where
  "map_slots m = image_mset (\<lambda>pid. pg_slot (the (m pid))) (mset_set (dom m))"

definition refs_of :: "hpage option \<Rightarrow> nat" where
  "refs_of p = (case p of None \<Rightarrow> 0 | Some q \<Rightarrow> unat (pg_refs q))"

text \<open>\<open>R\<close>, \<open>X\<close>, \<open>Y\<close>: references, page slots and state slots held outside the snapshots.\<close>

definition hc_inv :: "128 word multiset \<Rightarrow> slot multiset \<Rightarrow> slot multiset \<Rightarrow> host_cache \<Rightarrow> bool" where
  "hc_inv R X Y hc \<longleftrightarrow>
     0 < ar_slot_bytes (hc_pages hc) \<and> 0 < ar_slot_bytes (hc_states hc) \<and> finite (dom (hc_page_map hc)) \<and>
     mset (ar_free (hc_pages hc)) + map_slots (hc_page_map hc) + snap_tails (hc_snaps hc) + X = mset_set (arena_slots (hc_pages hc)) \<and>
     mset (ar_free (hc_states hc)) + snap_states (hc_snaps hc) + Y = mset_set (arena_slots (hc_states hc)) \<and>
     (\<forall>pid. refs_of (hc_page_map hc pid) = count (snap_refs (hc_snaps hc) + R) pid) \<and>
     (\<forall>pid p. hc_page_map hc pid = Some p \<longrightarrow> pg_refs p \<noteq> 0)"

lemma finite_arena_slots: "0 < ar_slot_bytes a \<Longrightarrow> finite (arena_slots a)"
proof -
  assume pos: "0 < ar_slot_bytes a"
  let ?n = "length (ar_slabs a)"
  let ?m = "\<Sum>b\<leftarrow>ar_slabs a. length b"
  have "i * ar_slot_bytes a \<le> ?m" if "s < ?n" "(i + 1) * ar_slot_bytes a \<le> length (ar_slabs a ! s)" for s i
  proof -
    have "length (ar_slabs a ! s) \<le> ?m"
      using that(1) by (metis elem_le_sum_list length_map nth_map)
    then show ?thesis using that(2) by simp
  qed
  then have "arena_slots a \<subseteq> {..<?n} \<times> {..?m}"
    by (auto simp: arena_slots_def)
  then show ?thesis by (rule finite_subset) simp
qed

lemma slot_in_arena: "s \<in> arena_slots a \<Longrightarrow> slot_in a s"
  by (auto simp: arena_slots_def slot_in_def)

lemma arena_slots_free [simp]: "arena_slots (a\<lparr>ar_free := fs\<rparr>) = arena_slots a"
  by (simp add: arena_slots_def)

lemma arena_slots_push [simp]: "arena_slots (push_free s a) = arena_slots a" "ar_free (push_free s a) = ar_free a @ [s]"
    "ar_slot_bytes (push_free s a) = ar_slot_bytes a" "ar_slabs (push_free s a) = ar_slabs a"
  by (simp_all add: push_free_def)

lemma swap_remove_mset: "i < length xs \<Longrightarrow> mset xs = add_mset (xs ! i) (mset (swap_remove i xs))"
proof -
  assume i: "i < length xs"
  then have ne: "xs \<noteq> []" by auto
  show ?thesis
  proof (cases "i = length xs - 1")
    case True
    then have "xs[i := last xs] = xs" using ne by (simp add: last_conv_nth)
    then show ?thesis
      using ne True by (metis append_butlast_last_id last_conv_nth mset.simps(2) mset_append mset_single_iff_right
          swap_remove_def union_mset_add_mset_right add.right_neutral mset.simps(1))
  next
    case False
    let ?b = "butlast xs"
    have len: "i < length ?b" using i False by simp
    have xs: "xs = ?b @ [last xs]" using ne by simp
    have "swap_remove i xs = ?b[i := last xs]"
      unfolding swap_remove_def using len by (subst xs) (simp add: list_update_append1 del: append_butlast_last_id)
    then have "mset (swap_remove i xs) = add_mset (last xs) (mset ?b - {#?b ! i#})"
      using len by (simp add: mset_update)
    moreover have "?b ! i = xs ! i" using len by (simp add: nth_butlast)
    moreover have "mset xs = add_mset (last xs) (mset ?b)"
      by (subst xs) simp
    moreover have "?b ! i \<in># mset ?b" using len by simp
    ultimately show ?thesis by (simp add: add_mset_commute)
  qed
qed

lemma snap_swap_remove:
  assumes "i < length ss"
  shows "snap_refs ss = mset (sn_pages (ss ! i)) + snap_refs (swap_remove i ss)"
    "snap_tails ss = opt_slots (sn_tail (ss ! i)) + snap_tails (swap_remove i ss)"
    "snap_states ss = add_mset (sn_state (ss ! i)) (snap_states (swap_remove i ss))"
  by (simp_all add: snap_refs_def snap_tails_def snap_states_def swap_remove_mset [OF assms])

lemma snap_append [simp]:
  "snap_refs (ss @ [s]) = mset (sn_pages s) + snap_refs ss"
  "snap_tails (ss @ [s]) = opt_slots (sn_tail s) + snap_tails ss"
  "snap_states (ss @ [s]) = add_mset (sn_state s) (snap_states ss)"
  by (simp_all add: snap_refs_def snap_tails_def snap_states_def add.commute)

lemma map_slots_insert:
  assumes "finite (dom m)" "m pid = None"
  shows "map_slots (m(pid \<mapsto> p)) = add_mset (pg_slot p) (map_slots m)"
proof -
  have "pid \<notin> dom m" using assms(2) by blast
  have "image_mset (\<lambda>q. pg_slot (the ((m(pid \<mapsto> p)) q))) (mset_set (dom m)) = map_slots m"
    unfolding map_slots_def by (rule image_mset_cong) (use assms in auto)
  then show ?thesis using assms \<open>pid \<notin> dom m\<close> by (simp add: map_slots_def)
qed

lemma map_slots_replace:
  assumes "finite (dom m)"
  shows "map_slots (m(pid \<mapsto> p)) = add_mset (pg_slot p) (map_slots (m(pid := None)))"
  using map_slots_insert [of "m(pid := None)" pid p] assms by simp

lemma map_slots_remove:
  assumes "finite (dom m)" "m pid = Some p"
  shows "map_slots m = add_mset (pg_slot p) (map_slots (m(pid := None)))"
  using map_slots_replace [OF assms(1), of pid p] assms(2) by (simp add: map_upd_triv)

lemma map_slots_update:
  assumes "finite (dom m)" "m pid = Some p" "pg_slot q = pg_slot p"
  shows "map_slots (m(pid \<mapsto> q)) = map_slots m"
  using map_slots_replace [OF assms(1), of pid q] map_slots_remove [OF assms(1,2)] assms(3) by simp

subsection \<open>References\<close>

lemma refs_of_Some: "hc_inv R X Y hc \<Longrightarrow> hc_page_map hc pid = Some p \<Longrightarrow>
    unat (pg_refs p) = count (snap_refs (hc_snaps hc) + R) pid"
  by (auto simp: hc_inv_def refs_of_def dest!: spec [of _ pid])

lemma held_in_map: "hc_inv R X Y hc \<Longrightarrow> 0 < count (snap_refs (hc_snaps hc) + R) pid \<Longrightarrow> \<exists>p. hc_page_map hc pid = Some p"
proof -
  assume inv: "hc_inv R X Y hc" and pos: "0 < count (snap_refs (hc_snaps hc) + R) pid"
  have "refs_of (hc_page_map hc pid) = count (snap_refs (hc_snaps hc) + R) pid"
    using inv by (simp add: hc_inv_def)
  then show ?thesis using pos by (cases "hc_page_map hc pid") (auto simp: refs_of_def)
qed

lemma unat_minus_one_nz: "(x :: u32) \<noteq> 0 \<Longrightarrow> unat (x - 1) = unat x - 1"
  by (rule unat_minus_one)

lemma drop_ref_inv:
  assumes inv: "hc_inv (add_mset pid R) X Y hc"
  shows "hc_inv R X Y (drop_ref pid hc)"
proof -
  let ?m = "hc_page_map hc" and ?ss = "hc_snaps hc"
  obtain p where p: "?m pid = Some p" using held_in_map [OF inv, of pid] by auto
  have fin: "finite (dom ?m)" and nz: "pg_refs p \<noteq> 0" using inv p by (auto simp: hc_inv_def)
  have refs: "refs_of (?m q) = count (snap_refs ?ss + add_mset pid R) q" for q using inv by (simp add: hc_inv_def)
  have less: "unat (pg_refs p - 1) = count (snap_refs ?ss + R) pid"
    using refs [of pid] p unat_minus_one_nz [OF nz] by (simp add: refs_of_def)
  show ?thesis
  proof (cases "pg_refs p - 1 = 0")
    case True
    have "map_slots ?m = add_mset (pg_slot p) (map_slots (?m(pid := None)))" by (rule map_slots_remove [OF fin p])
    then show ?thesis
      using inv refs less p True by (auto simp: hc_inv_def drop_ref_def Let_def push_free_def refs_of_def)
  next
    case False
    have "map_slots (?m(pid \<mapsto> p\<lparr>pg_refs := pg_refs p - 1\<rparr>)) = map_slots ?m" by (rule map_slots_update [OF fin p]) simp
    then show ?thesis
      using inv refs less p False by (auto simp: hc_inv_def drop_ref_def Let_def refs_of_def)
  qed
qed

lemma fold_drop_ref_inv: "hc_inv (mset pids + R) X Y hc \<Longrightarrow> hc_inv R X Y (fold drop_ref pids hc)"
  by (induction pids arbitrary: hc) (simp_all add: drop_ref_inv)

lemma free_page_inv: "hc_inv R (add_mset s X) Y hc \<Longrightarrow> hc_inv R X Y (free_page s hc)"
  by (simp add: hc_inv_def free_page_def)

lemma free_tail_inv: "hc_inv R (opt_slots t + X) Y hc \<Longrightarrow> hc_inv R X Y (free_tail t hc)"
  by (cases t) (simp_all add: free_tail_def opt_slots_def free_page_inv)

lemma free_state_inv: "hc_inv R X (add_mset s Y) hc \<Longrightarrow> hc_inv R X Y (free_state s hc)"
  by (simp add: hc_inv_def free_state_def)

lemma release_inv:
  "hc_inv (mset (sn_pages s) + R) (opt_slots (sn_tail s) + X) (add_mset (sn_state s) Y) hc \<Longrightarrow> hc_inv R X Y (release s hc)"
  unfolding release_def by (intro fold_drop_ref_inv free_tail_inv free_state_inv)

lemma hc_inv_same:
  assumes "hc_inv R X Y hc" "hc_pages hc' = hc_pages hc" "hc_states hc' = hc_states hc" "hc_page_map hc' = hc_page_map hc"
    "snap_refs (hc_snaps hc') + R' = snap_refs (hc_snaps hc) + R" "snap_tails (hc_snaps hc') + X' = snap_tails (hc_snaps hc) + X"
    "snap_states (hc_snaps hc') + Y' = snap_states (hc_snaps hc) + Y"
  shows "hc_inv R' X' Y' hc'"
  using assms by (simp add: hc_inv_def add.assoc)

lemma evict_snap_inv:
  assumes inv: "hc_inv R X Y hc" and i: "i < length (hc_snaps hc)"
  shows "hc_inv R X Y (evict_snap i hc)"
proof -
  let ?s = "hc_snaps hc ! i"
  have "hc_inv (mset (sn_pages ?s) + R) (opt_slots (sn_tail ?s) + X) (add_mset (sn_state ?s) Y)
      (hc\<lparr>hc_snaps := swap_remove i (hc_snaps hc)\<rparr>)"
    by (rule hc_inv_same [OF inv]) (simp_all add: snap_swap_remove [OF i] ac_simps)
  then have "hc_inv R X Y (release ?s (hc\<lparr>hc_snaps := swap_remove i (hc_snaps hc)\<rparr>))" by (rule release_inv)
  then show ?thesis unfolding evict_snap_def Let_def by (rule hc_inv_same) simp_all
qed

lemma evict_one_inv: "hc_inv R X Y hc \<Longrightarrow> evict_one hc = (b, hc') \<Longrightarrow> hc_inv R X Y hc'"
  using evict_snap_inv victim_bound [of "snap_keys hc"]
  by (auto simp: evict_one_def snap_keys_def split: option.splits)

lemma victim_loop_None:
  "foldl (\<lambda>best i. case best of None \<Rightarrow> Some i | Some j \<Rightarrow> if goes_before (xs ! i) (xs ! j) then Some i else Some j) b ns = None \<longleftrightarrow>
    b = None \<and> ns = []"
  by (induction ns arbitrary: b) (auto split: option.split)

lemma victim_None: "victim (snap_keys hc) = None \<longleftrightarrow> hc_snaps hc = []"
  by (simp add: victim_def victim_loop_None snap_keys_def)

lemma evict_one_None: "evict_one hc = (False, hc') \<Longrightarrow> hc' = hc \<and> hc_snaps hc = []"
  using victim_None by (auto simp: evict_one_def split: option.splits)

text \<open>The loop keeps what one eviction keeps; failing means no snapshot is left to evict.\<close>

lemma alloc_from_loop:
  assumes "I hc" "\<And>hc hc'. I hc \<Longrightarrow> evict_one hc = (True, hc') \<Longrightarrow> I hc'" "alloc_from part upd hc = (r, hc')"
  shows "case r of Some s \<Rightarrow> \<exists>hc1. I hc1 \<and> ar_free (part hc1) \<noteq> [] \<and> s = last (ar_free (part hc1)) \<and>
         hc' = upd (\<lambda>a. a\<lparr>ar_free := butlast (ar_free a)\<rparr>) hc1
     | None \<Rightarrow> I hc' \<and> hc_snaps hc' = []"
  using assms(1,3)
proof (induction "length (hc_snaps hc)" arbitrary: hc rule: less_induct)
  case less
  show ?case
  proof (cases "ar_free (part hc) = []")
    case False
    then show ?thesis using less.prems by (auto simp: alloc_from.simps [of _ _ hc])
  next
    case True
    obtain b hc1 where e: "evict_one hc = (b, hc1)" by force
    show ?thesis
    proof (cases b)
      case True
      then have "alloc_from part upd hc1 = (r, hc')"
        using less.prems(2) e \<open>ar_free (part hc) = []\<close> by (simp add: alloc_from.simps [of _ _ hc])
      then show ?thesis using less.hyps [of hc1] evict_one_shorter assms(2) less.prems(1) e True by simp
    next
      case False
      then show ?thesis using less.prems e True evict_one_None [of hc hc1] by (simp add: alloc_from.simps [of _ _ hc])
    qed
  qed
qed

lemma mset_last_butlast: "xs \<noteq> [] \<Longrightarrow> add_mset (last xs) (mset (butlast xs)) = mset xs"
  by (metis append_butlast_last_id mset.simps(2) mset_append add_mset_add_single mset.simps(1))

lemma alloc_page_inv:
  assumes "hc_inv R X Y hc" "alloc_page hc = (r, hc')"
  shows "case r of Some s \<Rightarrow> hc_inv R (add_mset s X) Y hc' | None \<Rightarrow> hc_inv R X Y hc'"
proof -
  have pop: "hc_inv R (add_mset (last (ar_free (hc_pages hc))) X) Y (hc_pages_update (\<lambda>a. a\<lparr>ar_free := butlast (ar_free a)\<rparr>) hc)"
    if "hc_inv R X Y hc" "ar_free (hc_pages hc) \<noteq> []" for hc
    using that mset_last_butlast [OF that(2), symmetric] by (simp add: hc_inv_def)
  have "case r of Some s \<Rightarrow> \<exists>hc1. hc_inv R X Y hc1 \<and> ar_free (hc_pages hc1) \<noteq> [] \<and> s = last (ar_free (hc_pages hc1)) \<and>
         hc' = hc_pages_update (\<lambda>a. a\<lparr>ar_free := butlast (ar_free a)\<rparr>) hc1
     | None \<Rightarrow> hc_inv R X Y hc' \<and> hc_snaps hc' = []"
    by (rule alloc_from_loop [where I = "hc_inv R X Y", OF assms(1) _ assms(2) [unfolded alloc_page_def]]) (rule evict_one_inv)
  then show ?thesis using pop by (auto split: option.splits)
qed

lemma alloc_state_inv:
  assumes "hc_inv R X Y hc" "alloc_state hc = (r, hc')"
  shows "case r of Some s \<Rightarrow> hc_inv R X (add_mset s Y) hc' | None \<Rightarrow> hc_inv R X Y hc'"
proof -
  have pop: "hc_inv R X (add_mset (last (ar_free (hc_states hc))) Y) (hc_states_update (\<lambda>a. a\<lparr>ar_free := butlast (ar_free a)\<rparr>) hc)"
    if "hc_inv R X Y hc" "ar_free (hc_states hc) \<noteq> []" for hc
    using that mset_last_butlast [OF that(2), symmetric] by (simp add: hc_inv_def)
  have "case r of Some s \<Rightarrow> \<exists>hc1. hc_inv R X Y hc1 \<and> ar_free (hc_states hc1) \<noteq> [] \<and> s = last (ar_free (hc_states hc1)) \<and>
         hc' = hc_states_update (\<lambda>a. a\<lparr>ar_free := butlast (ar_free a)\<rparr>) hc1
     | None \<Rightarrow> hc_inv R X Y hc' \<and> hc_snaps hc' = []"
    by (rule alloc_from_loop [where I = "hc_inv R X Y", OF assms(1) _ assms(2) [unfolded alloc_state_def]]) (rule evict_one_inv)
  then show ?thesis using pop by (auto split: option.splits)
qed

subsection \<open>Taking references and pages\<close>

lemma add_ref_inv:
  assumes inv: "hc_inv R X Y hc" and p: "hc_page_map hc pid = Some p" and room: "size (snap_refs (hc_snaps hc) + R) + 1 < 2 ^ 32"
  shows "hc_inv (add_mset pid R) X Y (add_ref pid hc)"
proof -
  have cnt: "unat (pg_refs p) = count (snap_refs (hc_snaps hc) + R) pid" by (rule refs_of_Some [OF inv p])
  then have "unat (pg_refs p) + 1 < 2 ^ 32"
    using room count_le_size [of "snap_refs (hc_snaps hc) + R" pid] by linarith
  then have up: "unat (pg_refs p + 1) = unat (pg_refs p) + 1"
    by (simp add: unat_word_ariths(1))
  have "map_slots ((hc_page_map hc)(pid \<mapsto> p\<lparr>pg_refs := pg_refs p + 1\<rparr>)) = map_slots (hc_page_map hc)"
    by (rule map_slots_update [where p = p]) (use inv p in \<open>simp_all add: hc_inv_def\<close>)
  moreover have "pg_refs p + 1 \<noteq> 0" using up by (metis Suc_eq_plus1 nat.distinct(1) unat_0)
  ultimately show ?thesis
    using inv p cnt up by (auto simp: hc_inv_def add_ref_def refs_of_def)
qed

lemma add_page_inv:
  assumes inv: "hc_inv R (add_mset s X) Y hc" and none: "hc_page_map hc pid = None"
  shows "hc_inv (add_mset pid R) X Y (add_page pid s hc)"
proof -
  have fin: "finite (dom (hc_page_map hc))" using inv by (simp add: hc_inv_def)
  have "refs_of (hc_page_map hc pid) = count (snap_refs (hc_snaps hc) + R) pid" using inv by (simp add: hc_inv_def)
  then have "count (snap_refs (hc_snaps hc)) pid = 0" "count R pid = 0" using none by (simp_all add: refs_of_def)
  then show ?thesis
    using inv none map_slots_insert [OF fin none] by (auto simp: hc_inv_def add_page_def refs_of_def)
qed

lemma add_snapshot_inv:
  assumes "hc_inv (mset (sn_pages s) + R) (opt_slots (sn_tail s) + X) (add_mset (sn_state s) Y) hc"
  shows "hc_inv R X Y (add_snapshot s n hc)"
  by (rule hc_inv_same [OF assms]) (simp_all add: add_snapshot_def ac_simps)

text \<open>A slot in the caller's hands is in no other place.\<close>

lemma hc_inv_count:
  assumes "hc_inv R X Y hc"
  shows "count (mset (ar_free (hc_pages hc)) + map_slots (hc_page_map hc) + snap_tails (hc_snaps hc) + X) s \<le> 1"
    "count (mset (ar_free (hc_states hc)) + snap_states (hc_snaps hc) + Y) s \<le> 1"
proof -
  have "count (mset_set A) x \<le> 1" for A and x :: slot
    by (cases "finite A") (simp_all add: count_mset_set')
  then show "count (mset (ar_free (hc_pages hc)) + map_slots (hc_page_map hc) + snap_tails (hc_snaps hc) + X) s \<le> 1"
    "count (mset (ar_free (hc_states hc)) + snap_states (hc_snaps hc) + Y) s \<le> 1"
    using assms unfolding hc_inv_def by metis+
qed

lemma hc_inv_in_arena:
  assumes "hc_inv R X Y hc"
  shows "s \<in># map_slots (hc_page_map hc) + snap_tails (hc_snaps hc) + X \<Longrightarrow> s \<in> arena_slots (hc_pages hc)"
    "s \<in># snap_states (hc_snaps hc) + Y \<Longrightarrow> s \<in> arena_slots (hc_states hc)"
proof -
  have fin: "finite (arena_slots (hc_pages hc))" "finite (arena_slots (hc_states hc))"
    using assms by (simp_all add: hc_inv_def finite_arena_slots)
  have eq: "mset (ar_free (hc_pages hc)) + map_slots (hc_page_map hc) + snap_tails (hc_snaps hc) + X = mset_set (arena_slots (hc_pages hc))"
    "mset (ar_free (hc_states hc)) + snap_states (hc_snaps hc) + Y = mset_set (arena_slots (hc_states hc))"
    using assms by (simp_all add: hc_inv_def)
  show "s \<in># map_slots (hc_page_map hc) + snap_tails (hc_snaps hc) + X \<Longrightarrow> s \<in> arena_slots (hc_pages hc)"
    using arg_cong [OF eq(1), of set_mset] fin(1) by auto
  show "s \<in># snap_states (hc_snaps hc) + Y \<Longrightarrow> s \<in> arena_slots (hc_states hc)"
    using arg_cong [OF eq(2), of set_mset] fin(2) by auto
qed

end
