(* ===== verification/HostContent.thy ===== *)
theory HostContent
  imports HostSlots
begin

text \<open>
  What the host tier holds: writing a slot changes no other slot, evicting and freeing change no byte. \<open>hc_holds P Q\<close>
  says that the page behind every id satisfies \<open>P\<close> and every snapshot, its tail and its state satisfy \<open>Q\<close>.
\<close>

subsection \<open>Slots of an arena\<close>

lemma arena_put_fields [simp]:
  "ar_slot_bytes (arena_put s b a) = ar_slot_bytes a" "ar_free (arena_put s b a) = ar_free a"
  "length (ar_slabs (arena_put s b a)) = length (ar_slabs a)"
  by (simp_all add: arena_put_def)

lemma arena_put_slab:
  assumes "slot_in a s" "length b = ar_slot_bytes a"
  shows "length (ar_slabs (arena_put s b a) ! k) = length (ar_slabs a ! k)"
  using assms by (cases "k = fst s") (simp_all add: arena_put_def slot_in_def)

lemma arena_slots_put: "slot_in a s \<Longrightarrow> length b = ar_slot_bytes a \<Longrightarrow> arena_slots (arena_put s b a) = arena_slots a"
  by (simp add: arena_slots_def arena_put_slab)

lemma arena_get_put: "slot_in a s \<Longrightarrow> length b = ar_slot_bytes a \<Longrightarrow> arena_get (arena_put s b a) s = b"
  by (simp add: arena_get_def arena_put_def slot_in_def take_drop_put_same)

lemma length_arena_get: "slot_in a s \<Longrightarrow> length (arena_get a s) = ar_slot_bytes a"
  by (auto simp: arena_get_def slot_in_def)

lemma slots_apart:
  assumes "s \<in> arena_slots a" "t \<in> arena_slots a" "s \<noteq> t" "fst s = fst t"
  shows "snd t + ar_slot_bytes a \<le> snd s \<or> snd s + ar_slot_bytes a \<le> snd t"
proof -
  let ?n = "ar_slot_bytes a"
  have "\<exists>i. snd s = i * ?n" if "s \<in> arena_slots a" for s
    using that by (auto simp: arena_slots_def)
  then obtain i j where ij: "snd s = i * ?n" "snd t = j * ?n" using assms(1,2) by metis
  then have "i \<noteq> j" using assms(3,4) by (metis prod_eq_iff)
  then consider "Suc j \<le> i" | "Suc i \<le> j" by linarith
  then show ?thesis
  proof cases
    case 1
    then have "Suc j * ?n \<le> i * ?n" by (rule mult_le_mono1)
    then show ?thesis using ij by simp
  next
    case 2
    then have "Suc i * ?n \<le> j * ?n" by (rule mult_le_mono1)
    then show ?thesis using ij by simp
  qed
qed

lemma arena_get_put_other:
  assumes "s \<in> arena_slots a" "t \<in> arena_slots a" "s \<noteq> t" "length b = ar_slot_bytes a"
  shows "arena_get (arena_put s b a) t = arena_get a t"
proof (cases "fst s = fst t")
  case False
  then show ?thesis by (simp add: arena_get_def arena_put_def)
next
  case True
  have s: "slot_in a s" by (rule slot_in_arena [OF assms(1)])
  have "take (ar_slot_bytes a) (drop (snd t) (put_bytes (snd s) b (ar_slabs a ! fst t))) =
      take (ar_slot_bytes a) (drop (snd t) (ar_slabs a ! fst t))"
    using slots_apart [OF assms(1-3) True] s True assms(4)
    by (auto simp: slot_in_def take_drop_put_before take_drop_put_after)
  then show ?thesis using True s by (simp add: arena_get_def arena_put_def slot_in_def)
qed

subsection \<open>Shrinking and writing\<close>

definition shrunk :: "host_cache \<Rightarrow> host_cache \<Rightarrow> bool" where
  "shrunk hc hc' \<longleftrightarrow> ar_slabs (hc_pages hc') = ar_slabs (hc_pages hc) \<and> ar_slabs (hc_states hc') = ar_slabs (hc_states hc) \<and>
     ar_slot_bytes (hc_pages hc') = ar_slot_bytes (hc_pages hc) \<and> ar_slot_bytes (hc_states hc') = ar_slot_bytes (hc_states hc) \<and>
     hc_swa_bytes hc' = hc_swa_bytes hc \<and>
     (\<forall>pid p'. hc_page_map hc' pid = Some p' \<longrightarrow> (\<exists>p. hc_page_map hc pid = Some p \<and> pg_slot p' = pg_slot p)) \<and>
     mset (hc_snaps hc') \<subseteq># mset (hc_snaps hc)"

lemma shrunk_refl: "shrunk hc hc" by (simp add: shrunk_def)

lemma shrunk_trans: "shrunk hc hc' \<Longrightarrow> shrunk hc' hc'' \<Longrightarrow> shrunk hc hc''"
  unfolding shrunk_def by (metis subset_mset.order_trans)

lemma shrunk_none: "shrunk hc hc' \<Longrightarrow> hc_page_map hc pid = None \<Longrightarrow> hc_page_map hc' pid = None"
  unfolding shrunk_def by (metis option.exhaust option.distinct(1))

lemma shrunk_drop_ref: "shrunk hc (drop_ref pid hc)"
  by (auto simp: shrunk_def drop_ref_def Let_def split: option.split)

lemma shrunk_fold_drop_ref: "shrunk hc (fold drop_ref pids hc)"
  by (induction pids arbitrary: hc) (auto intro: shrunk_refl shrunk_trans shrunk_drop_ref)

lemma shrunk_free: "shrunk hc (free_page s hc)" "shrunk hc (free_tail t hc)" "shrunk hc (free_state s hc)"
  by (auto simp: shrunk_def free_page_def free_tail_def free_state_def split: option.split)

lemma shrunk_release: "shrunk hc (release s hc)"
  unfolding release_def using shrunk_free shrunk_fold_drop_ref by (metis shrunk_trans)

lemma shrunk_abort: "shrunk hc (abort held hc)" "shrunk hc ((abort held \<circ> free_tail t) hc)"
    "shrunk hc ((abort held \<circ> free_tail t \<circ> free_state s) hc)"
  unfolding abort_def comp_def using shrunk_free shrunk_fold_drop_ref by (metis shrunk_trans)+

lemma shrunk_evict: "i < length (hc_snaps hc) \<Longrightarrow> shrunk hc (evict_snap i hc)"
proof -
  assume i: "i < length (hc_snaps hc)"
  let ?hc = "hc\<lparr>hc_snaps := swap_remove i (hc_snaps hc)\<rparr>"
  have "shrunk hc ?hc" using swap_remove_mset [OF i] by (simp add: shrunk_def)
  then have "shrunk hc (release (hc_snaps hc ! i) ?hc)" using shrunk_release shrunk_trans by blast
  then show ?thesis by (simp add: evict_snap_def Let_def shrunk_def)
qed

lemma shrunk_evict_one: "evict_one hc = (b, hc') \<Longrightarrow> shrunk hc hc'"
  using shrunk_evict victim_bound [of "snap_keys hc"] shrunk_refl
  by (auto simp: evict_one_def snap_keys_def split: option.splits)

lemma shrunk_alloc:
  assumes "alloc_from part upd hc = (r, hc')" "(part, upd) = (hc_pages, hc_pages_update) \<or> (part, upd) = (hc_states, hc_states_update)"
  shows "shrunk hc hc'"
proof -
  have pop: "shrunk hc1 (upd (\<lambda>a. a\<lparr>ar_free := butlast (ar_free a)\<rparr>) hc1)" for hc1
    using assms(2) by (auto simp: shrunk_def)
  have "case r of Some s \<Rightarrow> \<exists>hc1. shrunk hc hc1 \<and> ar_free (part hc1) \<noteq> [] \<and> s = last (ar_free (part hc1)) \<and>
         hc' = upd (\<lambda>a. a\<lparr>ar_free := butlast (ar_free a)\<rparr>) hc1
     | None \<Rightarrow> shrunk hc hc' \<and> hc_snaps hc' = []"
    by (rule alloc_from_loop [where I = "shrunk hc", OF shrunk_refl _ assms(1)]) (blast intro: shrunk_trans shrunk_evict_one)
  then show ?thesis using pop shrunk_trans by (auto split: option.splits)
qed

lemma shrunk_alloc_page: "alloc_page hc = (r, hc') \<Longrightarrow> shrunk hc hc'"
  unfolding alloc_page_def by (rule shrunk_alloc) auto

lemma shrunk_alloc_state: "alloc_state hc = (r, hc') \<Longrightarrow> shrunk hc hc'"
  unfolding alloc_state_def by (rule shrunk_alloc) auto

definition hc_holds :: "(128 word \<Rightarrow> bytes \<Rightarrow> bool) \<Rightarrow> (snapshot \<Rightarrow> bytes option \<Rightarrow> bytes \<Rightarrow> bool) \<Rightarrow> host_cache \<Rightarrow> bool" where
  "hc_holds P Q hc \<longleftrightarrow>
     (\<forall>pid p. hc_page_map hc pid = Some p \<longrightarrow> P pid (arena_get (hc_pages hc) (pg_slot p))) \<and>
     (\<forall>s \<in> set (hc_snaps hc). Q s (map_option (arena_get (hc_pages hc)) (sn_tail s)) (arena_get (hc_states hc) (sn_state s)))"

lemma shrunk_gets: "shrunk hc hc' \<Longrightarrow> arena_get (hc_pages hc') = arena_get (hc_pages hc)"
    "shrunk hc hc' \<Longrightarrow> arena_get (hc_states hc') = arena_get (hc_states hc)"
  by (auto simp: shrunk_def arena_get_def)

lemma hc_holds_shrunk: "hc_holds P Q hc \<Longrightarrow> shrunk hc hc' \<Longrightarrow> hc_holds P Q hc'"
proof -
  assume holds: "hc_holds P Q hc" and sh: "shrunk hc hc'"
  have "set (hc_snaps hc') \<subseteq> set (hc_snaps hc)" using sh by (auto simp: shrunk_def dest: mset_subset_eqD)
  then show ?thesis
    using holds sh unfolding hc_holds_def shrunk_gets [OF sh] by (fastforce simp: shrunk_def)
qed

end
