(* ===== verification/HostCapture.thy ===== *)
theory HostCapture
  imports HostContent
begin

text \<open>
  Storing a snapshot: whatever is evicted, shared or fails on the way, every slot stays accounted for and every
  page and snapshot keeps its contents.
\<close>

definition hc_ok ::
  "(128 word \<Rightarrow> bytes \<Rightarrow> bool) \<Rightarrow> (snapshot \<Rightarrow> bytes option \<Rightarrow> bytes \<Rightarrow> bool) \<Rightarrow> nat \<times> nat \<times> nat \<Rightarrow> snapshot multiset \<Rightarrow>
    128 word multiset \<Rightarrow> slot multiset \<Rightarrow> slot multiset \<Rightarrow> host_cache \<Rightarrow> bool" where
  "hc_ok P Q sizes M R X Y hc \<longleftrightarrow> hc_inv R X Y hc \<and> hc_holds P Q hc \<and> mset (hc_snaps hc) \<subseteq># M \<and>
     sizes = (ar_slot_bytes (hc_states hc), hc_swa_bytes hc, card (arena_slots (hc_states hc)))"

lemma hc_okI_shrunk: "hc_ok P Q z M R X Y hc \<Longrightarrow> shrunk hc hc' \<Longrightarrow> hc_inv R' X' Y' hc' \<Longrightarrow> hc_ok P Q z M R' X' Y' hc'"
  using hc_holds_shrunk by (auto simp: hc_ok_def shrunk_def arena_slots_def intro: subset_mset.order_trans)

lemma hc_ok_inv: "hc_ok P Q z M R X Y hc \<Longrightarrow> hc_inv R X Y hc"
  by (simp add: hc_ok_def)

lemma ok_alloc_page:
  assumes "hc_ok P Q z M R X Y hc" "alloc_page hc = (r, hc')"
  shows "case r of Some s \<Rightarrow> hc_ok P Q z M R (add_mset s X) Y hc' | None \<Rightarrow> hc_ok P Q z M R X Y hc'"
  using alloc_page_inv [OF hc_ok_inv [OF assms(1)] assms(2)] hc_okI_shrunk [OF assms(1) shrunk_alloc_page [OF assms(2)]]
  by (auto split: option.splits)

lemma ok_alloc_state:
  assumes "hc_ok P Q z M R X Y hc" "alloc_state hc = (r, hc')"
  shows "case r of Some s \<Rightarrow> hc_ok P Q z M R X (add_mset s Y) hc' | None \<Rightarrow> hc_ok P Q z M R X Y hc'"
  using alloc_state_inv [OF hc_ok_inv [OF assms(1)] assms(2)] hc_okI_shrunk [OF assms(1) shrunk_alloc_state [OF assms(2)]]
  by (auto split: option.splits)

lemma ok_abort: "hc_ok P Q z M (mset held + R) X Y hc \<Longrightarrow> hc_ok P Q z M R X Y (abort held hc)"
  by (rule hc_okI_shrunk) (auto simp: abort_def intro: shrunk_fold_drop_ref fold_drop_ref_inv hc_ok_inv)

lemma ok_free_tail: "hc_ok P Q z M R (opt_slots t + X) Y hc \<Longrightarrow> hc_ok P Q z M R X Y (free_tail t hc)"
  by (rule hc_okI_shrunk) (auto intro: shrunk_free free_tail_inv hc_ok_inv)

lemma ok_free_state: "hc_ok P Q z M R X (add_mset s Y) hc \<Longrightarrow> hc_ok P Q z M R X Y (free_state s hc)"
  by (rule hc_okI_shrunk) (auto intro: shrunk_free free_state_inv hc_ok_inv)

lemma size_sum_subset:
  fixes f :: "'a \<Rightarrow> 'b multiset"
  assumes "A \<subseteq># B"
  shows "size (\<Sum>x\<in>#A. f x) \<le> size (\<Sum>x\<in>#B. f x)"
proof -
  obtain C where "B = A + C" using assms by (metis subset_mset.add_diff_inverse)
  then show ?thesis by (simp add: size_union)
qed

lemma ok_add_ref:
  assumes "hc_ok P Q z M R X Y hc" "hc_page_map hc pid \<noteq> None" "size (\<Sum>s\<in>#M. mset (sn_pages s)) + size R + 1 < 2 ^ 32"
  shows "hc_ok P Q z M (add_mset pid R) X Y (add_ref pid hc)"
proof -
  obtain p where p: "hc_page_map hc pid = Some p" using assms(2) by blast
  have "size (snap_refs (hc_snaps hc)) \<le> size (\<Sum>s\<in>#M. mset (sn_pages s))"
    unfolding snap_refs_def by (rule size_sum_subset) (use assms(1) in \<open>simp add: hc_ok_def\<close>)
  then have "hc_inv (add_mset pid R) X Y (add_ref pid hc)"
    by (intro add_ref_inv [OF hc_ok_inv [OF assms(1)] p]) (use assms(3) in simp)
  moreover have "hc_holds P Q (add_ref pid hc)"
    using assms(1) p by (auto simp: hc_ok_def hc_holds_def add_ref_def)
  ultimately show ?thesis using assms(1) by (simp add: hc_ok_def add_ref_def)
qed

lemma ok_add_page:
  assumes "hc_ok P Q z M R (add_mset s X) Y hc" "hc_page_map hc pid = None" "P pid (arena_get (hc_pages hc) s)"
  shows "hc_ok P Q z M (add_mset pid R) X Y (add_page pid s hc)"
  using assms add_page_inv [OF hc_ok_inv [OF assms(1)] assms(2)]
  by (auto simp: hc_ok_def hc_holds_def add_page_def)

lemma held_slot:
  assumes "hc_inv R (add_mset s X) Y hc"
  shows "s \<in> arena_slots (hc_pages hc)" "\<And>pid p. hc_page_map hc pid = Some p \<Longrightarrow> pg_slot p \<in> arena_slots (hc_pages hc) \<and> pg_slot p \<noteq> s"
    "\<And>q. q \<in> set (hc_snaps hc) \<Longrightarrow> sn_tail q = Some t \<Longrightarrow> t \<in> arena_slots (hc_pages hc) \<and> t \<noteq> s"
proof -
  show "s \<in> arena_slots (hc_pages hc)" using hc_inv_in_arena(1) [OF assms] by simp
  have fin: "finite (dom (hc_page_map hc))" using assms by (simp add: hc_inv_def)
  have one: "x \<noteq> s" if "x \<in># map_slots (hc_page_map hc) + snap_tails (hc_snaps hc)" for x
  proof
    assume "x = s"
    then have "0 < count (map_slots (hc_page_map hc) + snap_tails (hc_snaps hc)) s" using that by simp
    then show False using hc_inv_count(1) [OF assms, of s] by (auto simp: count_eq_zero_iff)
  qed
  show "pg_slot p \<in> arena_slots (hc_pages hc) \<and> pg_slot p \<noteq> s" if "hc_page_map hc pid = Some p" for pid p
  proof -
    have "pid \<in># mset_set (dom (hc_page_map hc))" using that fin by auto
    then have "pg_slot p \<in># map_slots (hc_page_map hc)" using that by (force simp: map_slots_def)
    then show ?thesis using one hc_inv_in_arena(1) [OF assms] by simp
  qed
  show "t \<in> arena_slots (hc_pages hc) \<and> t \<noteq> s" if "q \<in> set (hc_snaps hc)" "sn_tail q = Some t" for q t
  proof -
    have "t \<in># snap_tails (hc_snaps hc)" using that by (force simp: snap_tails_def opt_slots_def)
    then show ?thesis using one hc_inv_in_arena(1) [OF assms] by simp
  qed
qed

lemma held_state:
  assumes "hc_inv R X (add_mset s Y) hc"
  shows "s \<in> arena_slots (hc_states hc)" "q \<in> set (hc_snaps hc) \<Longrightarrow> sn_state q \<in> arena_slots (hc_states hc) \<and> sn_state q \<noteq> s"
proof -
  show "s \<in> arena_slots (hc_states hc)" using hc_inv_in_arena(2) [OF assms] by simp
  assume "q \<in> set (hc_snaps hc)"
  then have q: "sn_state q \<in># snap_states (hc_snaps hc)" by (simp add: snap_states_def)
  moreover have "sn_state q \<noteq> s"
  proof
    assume "sn_state q = s"
    then have "0 < count (snap_states (hc_snaps hc)) s" using q by simp
    then show False using hc_inv_count(2) [OF assms, of s] by (auto simp: count_eq_zero_iff)
  qed
  ultimately show "sn_state q \<in> arena_slots (hc_states hc) \<and> sn_state q \<noteq> s" using hc_inv_in_arena(2) [OF assms] by simp
qed

lemma ok_put_page:
  assumes ok: "hc_ok P Q z M R (add_mset s X) Y hc" and len: "length b = ar_slot_bytes (hc_pages hc)"
  shows "hc_ok P Q z M R (add_mset s X) Y (hc_pages_update (arena_put s b) hc)"
proof -
  let ?a = "hc_pages hc"
  note held = held_slot [OF hc_ok_inv [OF ok]]
  have s: "slot_in ?a s" by (rule slot_in_arena [OF held(1)])
  have get: "arena_get (arena_put s b ?a) t = arena_get ?a t" if "t \<in> arena_slots ?a \<and> t \<noteq> s" for t
    using arena_get_put_other [OF held(1) _ _ len] that by metis
  have "hc_inv R (add_mset s X) Y (hc_pages_update (arena_put s b) hc)"
    using ok arena_slots_put [OF s len] by (simp add: hc_ok_def hc_inv_def)
  moreover have "hc_holds P Q (hc_pages_update (arena_put s b) hc)"
  proof -
    have "map_option (arena_get (arena_put s b ?a)) (sn_tail q) = map_option (arena_get ?a) (sn_tail q)"
      if "q \<in> set (hc_snaps hc)" for q
      using get held(3) [OF that] by (cases "sn_tail q") auto
    then show ?thesis using ok get held(2) by (auto simp: hc_ok_def hc_holds_def)
  qed
  ultimately show ?thesis using ok by (simp add: hc_ok_def)
qed

lemma ok_put_state:
  assumes ok: "hc_ok P Q z M R X (add_mset s Y) hc" and len: "length b = ar_slot_bytes (hc_states hc)"
  shows "hc_ok P Q z M R X (add_mset s Y) (hc_states_update (arena_put s b) hc)"
proof -
  let ?a = "hc_states hc"
  note held = held_state [OF hc_ok_inv [OF ok]]
  have s: "slot_in ?a s" by (rule slot_in_arena [OF held(1)])
  have get: "arena_get (arena_put s b ?a) t = arena_get ?a t" if "t \<in> arena_slots ?a \<and> t \<noteq> s" for t
    using arena_get_put_other [OF held(1) _ _ len] that by metis
  have "hc_inv R X (add_mset s Y) (hc_states_update (arena_put s b) hc)"
    using ok arena_slots_put [OF s len] by (simp add: hc_ok_def hc_inv_def)
  moreover have "hc_holds P Q (hc_states_update (arena_put s b) hc)"
    using ok get held(2) by (auto simp: hc_ok_def hc_holds_def)
  ultimately show ?thesis using ok arena_slots_put [OF s len] by (simp add: hc_ok_def)
qed

subsection \<open>The stages of a capture\<close>

lemma wp_alloc_or [wp_simps]:
  "wp (alloc_or alloc undo k) Q E (g, hc) = (case alloc hc of (None, hc') \<Rightarrow> Q None (g, undo hc') | (Some s, hc') \<Rightarrow> wp (k s) Q E (g, hc'))"
  by (simp add: wp_def alloc_or_def split: prod.split option.split)

lemma wp_hc_do [wp_simps]: "wp (hc_do f) Q E (g, hc) = Q () (g, f hc)"
  by (simp add: hc_do_def wp_simps)

lemma wp_with_slot:
  assumes "slot_in (part hc) s"
    and "wp m (\<lambda>x (g', b). Q x (g', upd (arena_put s b) hc)) (\<lambda>(g', b). E (g', upd (arena_put s b) hc)) (g, arena_get (part hc) s)"
  shows "wp (with_slot part upd s m) Q E (g, hc)"
  using assms by (auto simp: wp_def with_slot_def split: prod.splits outcome.splits)

text \<open>An export into a page slot the capture holds.\<close>

lemma wp_export_slot:
  assumes cu: "cuda_ok cu" and inv: "kv_inv W S kv" and ok: "hc_ok P Q z M R (add_mset s X) Y hc"
    and fit: "r0 + n < 2 ^ 64" and good: "\<And>g' hc'. hc_ok P Q z M R (add_mset s X) Y hc' \<Longrightarrow> hc_page_map hc' = hc_page_map hc \<Longrightarrow>
      page_exported r0 n kv (arena_get (hc_pages hc') s) \<Longrightarrow> C () (g', hc')"
    and bad: "\<And>g' hc'. hc_ok P Q z M R (add_mset s X) Y hc' \<Longrightarrow> E (g', hc')"
  shows "wp (with_page s (export_ga_page cu kv r0 n)) C E (g, hc)"
proof (rule wp_with_slot)
  show s: "slot_in (hc_pages hc) s" by (rule slot_in_arena [OF held_slot(1) [OF hc_ok_inv [OF ok]]])
  have len: "length (arena_get (hc_pages hc) s) = ar_slot_bytes (hc_pages hc)" by (rule length_arena_get [OF s])
  show "wp (export_ga_page cu kv r0 n) (\<lambda>x (g', b). C x (g', hc_pages_update (arena_put s b) hc))
      (\<lambda>(g', b). E (g', hc_pages_update (arena_put s b) hc)) (g, arena_get (hc_pages hc) s)"
    by (rule wp_mono [OF wp_export_ga_page [OF cu inv fit]])
      (auto intro!: good bad ok_put_page [OF ok] simp: len arena_get_put [OF s])
qed

definition sum_refs :: "snapshot multiset \<Rightarrow> nat" where
  "sum_refs M = size (\<Sum>s\<in>#M. mset (sn_pages s))"

lemma wp_capture_pages:
  assumes cu: "cuda_ok cu" and inv: "kv_inv W S kv"
    and good: "\<And>j page. j < length pids \<Longrightarrow> page_exported ((i + j) * KV_PAGE_ROWS) KV_PAGE_ROWS kv page \<Longrightarrow> P (pids ! j) page"
    and room: "sum_refs M + size R + length held + length pids < 2 ^ 32" and few: "i + length pids < 2 ^ 32"
    and ok: "hc_ok P Q z M (mset held + R) X Y hc"
  shows "wp (capture_pages cu kv i pids held written)
    (\<lambda>r (g', hc'). case r of None \<Rightarrow> hc_ok P Q z M R X Y hc'
       | Some (held', _) \<Rightarrow> held' = held @ pids \<and> hc_ok P Q z M (mset held' + R) X Y hc')
    (\<lambda>(g', hc'). \<exists>R' X'. size R' \<le> size R + length held + length pids \<and> hc_ok P Q z M R' X' Y hc') (g, hc)"
  using good room few ok
proof (induction pids arbitrary: i held written hc g)
  case Nil
  then show ?case by (simp add: wp_simps)
next
  case (Cons pid pids)
  let ?C = "\<lambda>r (g' :: 'a, hc'). case r of None \<Rightarrow> hc_ok P Q z M R X Y hc'
       | Some (held', _) \<Rightarrow> held' = held @ pid # pids \<and> hc_ok P Q z M (mset held' + R) X Y hc'"
  let ?E = "\<lambda>(g' :: 'a, hc'). \<exists>R' X'. size R' \<le> size R + length held + length (pid # pids) \<and> hc_ok P Q z M R' X' Y hc'"
  have rest: "wp (capture_pages cu kv (i + 1) pids (held @ [pid]) w) ?C ?E (g1, hc1)"
    if "hc_ok P Q z M (add_mset pid (mset held + R)) X Y hc1" for w g1 hc1
  proof (rule wp_mono)
    show "wp (capture_pages cu kv (i + 1) pids (held @ [pid]) w)
      (\<lambda>r (g', hc'). case r of None \<Rightarrow> hc_ok P Q z M R X Y hc'
         | Some (held', _) \<Rightarrow> held' = (held @ [pid]) @ pids \<and> hc_ok P Q z M (mset held' + R) X Y hc')
      (\<lambda>(g', hc'). \<exists>R' X'. size R' \<le> size R + length (held @ [pid]) + length pids \<and> hc_ok P Q z M R' X' Y hc') (g1, hc1)"
      by (rule Cons.IH) (use Cons.prems(1) [of "Suc _"] Cons.prems(2,3) that in simp_all)
  qed (auto split: option.splits)
  show ?case
  proof (cases "hc_page_map hc pid")
    case (Some p)
    have "hc_ok P Q z M (add_mset pid (mset held + R)) X Y (add_ref pid hc)"
      by (rule ok_add_ref [OF Cons.prems(4)]) (use Some Cons.prems(2) in \<open>simp_all add: sum_refs_def\<close>)
    from rest [OF this] Some show ?thesis by (simp add: wp_simps)
  next
    case None
    obtain r hc1 where al: "alloc_page hc = (r, hc1)" by force
    show ?thesis
    proof (cases r)
      case r: None
      then have "hc_ok P Q z M (mset held + R) X Y hc1" using ok_alloc_page [OF Cons.prems(4) al] by simp
      then show ?thesis using None al r ok_abort by (simp add: wp_simps)
    next
      case r: (Some s)
      then have ok1: "hc_ok P Q z M (mset held + R) (add_mset s X) Y hc1" using ok_alloc_page [OF Cons.prems(4) al] by simp
      have fit: "i * KV_PAGE_ROWS + KV_PAGE_ROWS < 2 ^ 64" using Cons.prems(3) by (simp add: KV_PAGE_ROWS_def)
      have none1: "hc_page_map hc1 pid = None"
        by (rule shrunk_none [OF shrunk_alloc_page [OF al] None])
      have "wp (with_page s (export_ga_page cu kv (i * KV_PAGE_ROWS) KV_PAGE_ROWS))
          (\<lambda>_. wp (ethen (hc_do (add_page pid s)) (capture_pages cu kv (i + 1) pids (held @ [pid]) (written + 1))) ?C ?E) ?E (g, hc1)"
      proof (rule wp_export_slot [OF cu inv ok1 fit])
        fix g' hc' assume ok': "hc_ok P Q z M (mset held + R) (add_mset s X) Y hc'" and m: "hc_page_map hc' = hc_page_map hc1"
          and page: "page_exported (i * KV_PAGE_ROWS) KV_PAGE_ROWS kv (arena_get (hc_pages hc') s)"
        have "P pid (arena_get (hc_pages hc') s)" using Cons.prems(1) [of 0] page by simp
        from rest [OF ok_add_page [OF ok' _ this]] m none1
        show "wp (ethen (hc_do (add_page pid s)) (capture_pages cu kv (i + 1) pids (held @ [pid]) (written + 1))) ?C ?E (g', hc')"
          by (simp add: wp_simps)
      next
        fix g' hc' assume "hc_ok P Q z M (mset held + R) (add_mset s X) Y hc'"
        then have "size (mset held + R) \<le> size R + length held + length (pid # pids) \<and>
          hc_ok P Q z M (mset held + R) (add_mset s X) Y hc'" by simp
        then show "?E (g', hc')" by (simp only: prod.case) blast
      qed
      then show ?thesis using None al r by (simp add: wp_simps)
    qed
  qed
qed

lemma wp_capture_tail:
  assumes cu: "cuda_ok cu" and inv: "kv_inv W S kv" and ok: "hc_ok P Q z M (mset held + R) X Y hc"
    and n: "n < 2 ^ 64"
  shows "wp (capture_tail cu kv n held)
    (\<lambda>r (g', hc'). case r of None \<Rightarrow> hc_ok P Q z M R X Y hc'
       | Some t \<Rightarrow> hc_ok P Q z M (mset held + R) (opt_slots t + X) Y hc' \<and>
           (case t of None \<Rightarrow> n mod KV_PAGE_ROWS = 0 | Some s \<Rightarrow> 0 < n mod KV_PAGE_ROWS \<and>
              page_exported (n - n mod KV_PAGE_ROWS) (n mod KV_PAGE_ROWS) kv (arena_get (hc_pages hc') s)))
    (\<lambda>(g', hc'). \<exists>R' X'. size R' \<le> size R + length held \<and> hc_ok P Q z M R' X' Y hc') (g, hc)"
proof (cases "0 < n mod KV_PAGE_ROWS")
  case False
  then show ?thesis using ok by (simp add: capture_tail_def Let_def wp_simps opt_slots_def)
next
  case True
  obtain r hc1 where al: "alloc_page hc = (r, hc1)" by force
  show ?thesis
  proof (cases r)
    case None
    then have "hc_ok P Q z M (mset held + R) X Y hc1" using ok_alloc_page [OF ok al] by simp
    then show ?thesis using True al None ok_abort by (simp add: capture_tail_def Let_def wp_simps)
  next
    case (Some s)
    then have ok1: "hc_ok P Q z M (mset held + R) (add_mset s X) Y hc1" using ok_alloc_page [OF ok al] by simp
    have err: "\<exists>R'. size R' \<le> size R + length held \<and> (\<exists>X'. hc_ok P Q z M R' X' Y hc')"
      if "hc_ok P Q z M (mset held + R) (add_mset s X) Y hc'" for hc'
      by (rule exI [of _ "mset held + R"]) (use that in auto)
    show ?thesis
      using True al Some
      by (simp add: capture_tail_def Let_def wp_simps)
        (rule wp_export_slot [OF cu inv ok1], use n in \<open>simp_all add: wp_simps opt_slots_def err\<close>)
  qed
qed

lemma wp_capture_state:
  assumes cu: "cuda_ok cu" and ok: "hc_ok P Q z M (mset held + R) (opt_slots t + X) Y hc"
    and len: "length state = fst z" "kv_state_bytes kv = fst z"
  shows "wp (capture_state cu kv state held t)
    (\<lambda>r (g', hc'). case r of None \<Rightarrow> hc_ok P Q z M R X Y hc'
       | Some s \<Rightarrow> hc_ok P Q z M (mset held + R) (opt_slots t + X) (add_mset s Y) hc' \<and>
           arena_get (hc_states hc') s = state \<and> arena_get (hc_pages hc') = arena_get (hc_pages hc))
    (\<lambda>(g', hc'). hc_ok P Q z M R X Y hc') (g, hc)"
proof -
  let ?C = "\<lambda>r (g' :: 'a, hc'). case r of None \<Rightarrow> hc_ok P Q z M R X Y hc'
       | Some s \<Rightarrow> hc_ok P Q z M (mset held + R) (opt_slots t + X) (add_mset s Y) hc' \<and>
           arena_get (hc_states hc') s = state \<and> arena_get (hc_pages hc') = arena_get (hc_pages hc)"
  let ?E = "\<lambda>(g' :: 'a, hc'). hc_ok P Q z M R X Y hc'"
  obtain r hc1 where al: "alloc_state hc = (r, hc1)" by force
  show ?thesis
  proof (cases r)
    case None
    then have "hc_ok P Q z M (mset held + R) (opt_slots t + X) Y hc1" using ok_alloc_state [OF ok al] by simp
    then show ?thesis using al None ok_abort [OF ok_free_tail] by (simp add: capture_state_def wp_simps)
  next
    case (Some s)
    then have ok1: "hc_ok P Q z M (mset held + R) (opt_slots t + X) (add_mset s Y) hc1" using ok_alloc_state [OF ok al] by simp
    have sz: "ar_slot_bytes (hc_states hc1) = fst z" using ok1 by (simp add: hc_ok_def)
    have s: "slot_in (hc_states hc1) s" by (rule slot_in_arena [OF held_state(1) [OF hc_ok_inv [OF ok1]]])
    have blen: "length (arena_get (hc_states hc1) s) = fst z" using length_arena_get [OF s] sz by simp
    have put: "hc_ok P Q z M (mset held + R) (opt_slots t + X) (add_mset s Y) (hc_states_update (arena_put s b) hc1)"
      if "length b = fst z" for b by (rule ok_put_state [OF ok1]) (use that sz in simp)
    have fail: "hc_ok P Q z M R X Y (abort held (free_tail t (free_state s (hc_states_update (arena_put s b) hc1))))"
      if "length b = fst z" for b by (intro ok_abort ok_free_tail ok_free_state put that)
    have pages: "arena_get (hc_pages hc1) = arena_get (hc_pages hc)" by (rule shrunk_gets(1) [OF shrunk_alloc_state [OF al]])
    have whole: "put_bytes 0 state (arena_get (hc_states hc1) s) = state" using blen len by (simp add: put_bytes_def)
    have copy: "wp (copy_bytes cu (arena_get (hc_states hc1) s) 0 state 0 (fst z))
        (\<lambda>(rc, b) g'. length b = fst z \<and> (rc = 0 \<longrightarrow> b = state)) (\<lambda>_. False) g"
      by (rule wp_copy_bytes [OF cu]) (use blen len whole in simp_all)
    have min: "min (min (kv_state_bytes kv) (length (arena_get (hc_states hc1) s))) (length state) = fst z"
      using blen len by simp
    have got: "arena_get (arena_put s state (hc_states hc1)) s = state" by (rule arena_get_put [OF s]) (use len sz in simp)
    show ?thesis
      unfolding capture_state_def
      apply (simp only: wp_alloc_or al Some prod.case option.case wp_ebind)
      apply (rule wp_with_slot [where part = hc_states, OF s])
      apply (simp only: wp_simps snd_conv Let_def min)
      apply (rule wp_mono [OF copy])
       apply (use put fail got pages in \<open>auto simp: wp_simps\<close>)
      done
  qed
qed

subsection \<open>The whole capture\<close>

definition hc_good ::
  "(128 word \<Rightarrow> bytes \<Rightarrow> bool) \<Rightarrow> (snapshot \<Rightarrow> bytes option \<Rightarrow> bytes \<Rightarrow> bool) \<Rightarrow> nat \<times> nat \<times> nat \<Rightarrow>
    128 word multiset \<Rightarrow> slot multiset \<Rightarrow> host_cache \<Rightarrow> bool" where
  "hc_good P Q z R X hc \<longleftrightarrow> hc_ok P Q z (mset (hc_snaps hc)) R X {#} hc"

lemma hc_ok_good: "hc_ok P Q z M R X {#} hc \<Longrightarrow> hc_good P Q z R X hc"
  by (simp add: hc_good_def hc_ok_def)

lemma hc_good_same:
  assumes "hc_good P Q z R X hc" "hc_pages hc' = hc_pages hc" "hc_states hc' = hc_states hc" "hc_page_map hc' = hc_page_map hc"
    "hc_swa_bytes hc' = hc_swa_bytes hc" "hc_snaps hc' = hc_snaps hc"
  shows "hc_good P Q z R X hc'"
  using assms by (simp add: hc_good_def hc_ok_def hc_inv_def hc_holds_def)

lemma sum_list_update_same: "i < length xs \<Longrightarrow> f y = f (xs ! i) \<Longrightarrow> image_mset f (mset (xs[i := y])) = image_mset f (mset xs)"
proof -
  assume "i < length xs" "f y = f (xs ! i)"
  then have "(map f xs)[i := f y] = map f xs" by (metis list_update_id nth_map)
  then show ?thesis by (simp add: map_update flip: mset_map)
qed

text \<open>A change of a snapshot's clock, or of what follows it, changes nothing else.\<close>

lemma hc_good_touch:
  assumes good: "hc_good P Q z R X hc" and i: "i < length (hc_snaps hc)"
    and same: "sn_pages s = sn_pages (hc_snaps hc ! i)" "sn_tail s = sn_tail (hc_snaps hc ! i)" "sn_state s = sn_state (hc_snaps hc ! i)"
    and Q: "\<And>tl st. Q (hc_snaps hc ! i) tl st \<Longrightarrow> Q s tl st"
  shows "hc_good P Q z R X (hc\<lparr>hc_snaps := (hc_snaps hc)[i := s]\<rparr>)"
proof -
  let ?ss = "(hc_snaps hc)[i := s]"
  have "hc_inv R X {#} (hc\<lparr>hc_snaps := ?ss\<rparr>)"
    using good sum_list_update_same [OF i, of "\<lambda>s. mset (sn_pages s)" s] sum_list_update_same [OF i, of "\<lambda>s. opt_slots (sn_tail s)" s]
      sum_list_update_same [OF i, of sn_state s] same
    by (simp add: hc_good_def hc_ok_def hc_inv_def snap_refs_def snap_tails_def snap_states_def)
  moreover have "hc_holds P Q (hc\<lparr>hc_snaps := ?ss\<rparr>)"
  proof -
    have "Q s (map_option (arena_get (hc_pages hc)) (sn_tail s)) (arena_get (hc_states hc) (sn_state s))"
      using good i Q by (simp add: same hc_good_def hc_ok_def hc_holds_def)
    then show ?thesis
      using good by (auto simp: hc_good_def hc_ok_def hc_holds_def dest!: set_update_subset_insert [THEN subsetD])
  qed
  ultimately show ?thesis using good by (simp add: hc_good_def hc_ok_def)
qed

lemma when_some_Some: "when_some (Some x) f = f x"
  by (simp add: when_some_def)

lemma ok_add_snapshot:
  assumes ok: "hc_ok P Q z M (mset (sn_pages s) + R) (opt_slots (sn_tail s) + X) {#sn_state s#} hc"
    and Q: "Q s (map_option (arena_get (hc_pages hc)) (sn_tail s)) (arena_get (hc_states hc) (sn_state s))"
  shows "hc_good P Q z R X (add_snapshot s n hc)"
proof -
  have "hc_inv R X {#} (add_snapshot s n hc)"
    by (rule add_snapshot_inv) (use hc_ok_inv [OF ok] in simp)
  moreover have "hc_holds P Q (add_snapshot s n hc)"
    using ok Q by (auto simp: hc_ok_def hc_holds_def add_snapshot_def)
  ultimately show ?thesis using ok by (simp add: hc_good_def hc_ok_def add_snapshot_def)
qed

lemma wp_capture_last:
  assumes cu: "cuda_ok cu" and ok: "hc_ok P Q z M (mset held + R) (opt_slots t + X) {#} hc"
    and len: "length state = fst z" "kv_state_bytes kv = fst z"
    and Q: "\<And>s now. Q (new_snap kv ts a k swa_rows held t s now) (map_option (arena_get (hc_pages hc)) t) state"
  shows "wp (ethen (on_fst (sync_export cu)) (ebind (capture_state cu kv state held t) (\<lambda>slot. when_some slot (\<lambda>slot.
      hc_do (\<lambda>hc. add_snapshot (new_snap kv ts a k swa_rows held t slot (hc_clock hc)) w hc)))))
    (\<lambda>_ (g', hc'). hc_good P Q z R X hc')
    (\<lambda>(g', hc'). \<exists>R' X'. size R' \<le> size R + length held \<and> hc_good P Q z R' X' hc') (g, hc)"
    (is "wp _ ?C ?E _")
proof -
  have err: "?E (g', hc')" if "hc_ok P Q z M R' X' {#} hc'" "size R' \<le> size R + length held" for g' hc' R' X'
    using hc_ok_good [OF that(1)] that(2) by auto
  have last: "wp (ebind (capture_state cu kv state held t) (\<lambda>slot. when_some slot (\<lambda>slot.
      hc_do (\<lambda>hc. add_snapshot (new_snap kv ts a k swa_rows held t slot (hc_clock hc)) w hc)))) ?C ?E (g1, hc)" for g1
    unfolding wp_ebind
  proof (rule wp_mono [OF wp_capture_state [OF cu ok len]])
    fix u :: "'a \<times> host_cache" assume "case u of (g', hc') \<Rightarrow> hc_ok P Q z M R X {#} hc'"
    then show "?E u" using err by (cases u) simp
  next
    fix r and u :: "'a \<times> host_cache"
    assume post: "case u of (g', hc') \<Rightarrow> case r of None \<Rightarrow> hc_ok P Q z M R X {#} hc'
       | Some s \<Rightarrow> hc_ok P Q z M (mset held + R) (opt_slots t + X) (add_mset s {#}) hc' \<and>
           arena_get (hc_states hc') s = state \<and> arena_get (hc_pages hc') = arena_get (hc_pages hc)"
    obtain g' hc' where u: "u = (g', hc')" by force
    show "wp (when_some r (\<lambda>slot. hc_do (\<lambda>hc. add_snapshot (new_snap kv ts a k swa_rows held t slot (hc_clock hc)) w hc))) ?C ?E u"
    proof (cases r)
      case None
      then show ?thesis using post hc_ok_good by (auto simp: u when_some_def wp_simps)
    next
      case (Some s)
      have "hc_good P Q z R X (add_snapshot (new_snap kv ts a k swa_rows held t s (hc_clock hc')) w hc')"
        by (rule ok_add_snapshot [where M = M]) (use post Some Q in \<open>simp_all add: u new_snap_def\<close>)
      then show ?thesis by (simp add: u Some when_some_def wp_simps)
    qed
  qed
  have held: "size (mset held + R) \<le> size R + length held" by simp
  show ?thesis
    unfolding wp_ethen sync_export_def wp_on_fst
    by (rule wp_device_sync) (use last err ok held in auto)
qed

lemma wp_capture_new:
  assumes cu: "cuda_ok cu" and inv: "kv_inv W S kv"
    and pages: "\<And>j page. j < length (page_chain lane ts) \<Longrightarrow> page_exported (j * KV_PAGE_ROWS) KV_PAGE_ROWS kv page \<Longrightarrow>
      P (page_chain lane ts ! j) page"
    and snap: "\<And>t s tl now. (case tl of None \<Rightarrow> length ts mod KV_PAGE_ROWS = 0 | Some b \<Rightarrow> 0 < length ts mod KV_PAGE_ROWS \<and>
        page_exported (length ts - length ts mod KV_PAGE_ROWS) (length ts mod KV_PAGE_ROWS) kv b) \<Longrightarrow>
      Q (new_snap kv ts a k swa_rows (page_chain lane ts) t s now) tl state"
    and room: "sum_refs (mset (hc_snaps hc)) + size R + length (page_chain lane ts) < 2 ^ 32" and short: "length ts < 2 ^ 64"
    and good: "hc_good P Q z R X hc"
    and len: "length state = fst z" "kv_state_bytes kv = fst z"
  shows "wp (capture_new cu lane kv ts a k state swa_rows) (\<lambda>_ (g', hc'). hc_good P Q z R X hc')
    (\<lambda>(g', hc'). \<exists>R' X'. size R' \<le> size R + length (page_chain lane ts) \<and> hc_good P Q z R' X' hc') (g, hc)"
proof -
  let ?C = "\<lambda>_ (g' :: 'a, hc'). hc_good P Q z R X hc'" and ?ch = "page_chain lane ts"
  let ?E = "\<lambda>(g' :: 'a, hc'). \<exists>R' X'. size R' \<le> size R + length ?ch \<and> hc_good P Q z R' X' hc'"
  let ?M = "mset (hc_snaps hc)"
  have errI: "?E (g', hc')" if "hc_ok P Q z ?M R' X' {#} hc'" "size R' \<le> size R + length ?ch" for g' hc' R' X'
    using hc_ok_good [OF that(1)] that(2) by auto
  show ?thesis
    unfolding capture_new_def wp_ebind
  proof (rule wp_mono)
    show "wp (capture_pages cu kv 0 ?ch [] 0)
      (\<lambda>r (g', hc'). case r of None \<Rightarrow> hc_ok P Q z ?M R X {#} hc'
         | Some (held', _) \<Rightarrow> held' = [] @ ?ch \<and> hc_ok P Q z ?M (mset held' + R) X {#} hc')
      (\<lambda>(g', hc'). \<exists>R' X'. size R' \<le> size R + length ([] :: 128 word list) + length ?ch \<and> hc_ok P Q z ?M R' X' {#} hc') (g, hc)"
      by (rule wp_capture_pages [OF cu inv, where held = "[]" and i = 0]) (use pages room good in \<open>simp_all add: hc_good_def\<close>)
  next
    fix s :: "'a \<times> host_cache"
    assume "case s of (g', hc') \<Rightarrow> \<exists>R' X'. size R' \<le> size R + length ([] :: 128 word list) + length ?ch \<and> hc_ok P Q z ?M R' X' {#} hc'"
    then show "?E s" using errI by (auto simp del: One_nat_def split: prod.splits)
  next
    fix r :: "(128 word list \<times> u64) option" and s :: "'a \<times> host_cache"
    assume post: "case s of (g', hc') \<Rightarrow> case r of None \<Rightarrow> hc_ok P Q z ?M R X {#} hc'
         | Some (held', _) \<Rightarrow> held' = [] @ ?ch \<and> hc_ok P Q z ?M (mset held' + R) X {#} hc'"
    obtain g1 hc1 where s: "s = (g1, hc1)" by force
    show "wp (when_some r (\<lambda>(held, written). ebind (capture_tail cu kv (length ts) held) (\<lambda>tail. when_some tail (\<lambda>tail.
        ethen (on_fst (sync_export cu)) (ebind (capture_state cu kv state held tail) (\<lambda>slot. when_some slot (\<lambda>slot.
          hc_do (\<lambda>hc. add_snapshot (new_snap kv ts a k swa_rows held tail slot (hc_clock hc)) written hc)))))))) ?C ?E s"
    proof (cases r)
      case None
      then show ?thesis using post hc_ok_good by (auto simp: s when_some_def wp_simps)
    next
      case (Some hw)
      obtain w where hw: "hw = (?ch, w)" and ok1: "hc_ok P Q z ?M (mset ?ch + R) X {#} hc1"
        using post Some by (cases hw) (auto simp: s)
      have "wp (capture_tail cu kv (length ts) ?ch) (\<lambda>tail. wp (when_some tail (\<lambda>tail.
          ethen (on_fst (sync_export cu)) (ebind (capture_state cu kv state ?ch tail) (\<lambda>slot. when_some slot (\<lambda>slot.
            hc_do (\<lambda>hc. add_snapshot (new_snap kv ts a k swa_rows ?ch tail slot (hc_clock hc)) w hc)))))) ?C ?E) ?E (g1, hc1)"
      proof (rule wp_mono [OF wp_capture_tail [OF cu inv ok1 short]])
        fix u :: "'a \<times> host_cache"
        assume "case u of (g', hc') \<Rightarrow> \<exists>R' X'. size R' \<le> size R + length ?ch \<and> hc_ok P Q z ?M R' X' {#} hc'"
        then show "?E u" using errI by (auto split: prod.splits)
      next
        fix t and u :: "'a \<times> host_cache"
        assume post2: "case u of (g', hc') \<Rightarrow> case t of None \<Rightarrow> hc_ok P Q z ?M R X {#} hc'
           | Some t \<Rightarrow> hc_ok P Q z ?M (mset ?ch + R) (opt_slots t + X) {#} hc' \<and>
               (case t of None \<Rightarrow> length ts mod KV_PAGE_ROWS = 0 | Some s \<Rightarrow> 0 < length ts mod KV_PAGE_ROWS \<and>
                  page_exported (length ts - length ts mod KV_PAGE_ROWS) (length ts mod KV_PAGE_ROWS) kv (arena_get (hc_pages hc') s))"
        obtain g2 hc2 where u: "u = (g2, hc2)" by force
        show "wp (when_some t (\<lambda>tail.
          ethen (on_fst (sync_export cu)) (ebind (capture_state cu kv state ?ch tail) (\<lambda>slot. when_some slot (\<lambda>slot.
            hc_do (\<lambda>hc. add_snapshot (new_snap kv ts a k swa_rows ?ch tail slot (hc_clock hc)) w hc)))))) ?C ?E u"
        proof (cases t)
          case None
          then show ?thesis using post2 hc_ok_good by (auto simp: u when_some_def wp_simps)
        next
          case (Some t')
          then have ok2: "hc_ok P Q z ?M (mset ?ch + R) (opt_slots t' + X) {#} hc2" using post2 by (simp add: u)
          show ?thesis
            unfolding u Some when_some_Some
            by (rule wp_capture_last [OF cu ok2 len])
              (use post2 snap Some ok2 in \<open>auto simp: u split: option.splits\<close>)
        qed
      qed
      then show ?thesis by (simp only: s Some hw when_some_Some prod.case wp_ebind)
    qed
  qed
qed

lemma find_tokens_bound: "find_tokens ts ss = Some i \<Longrightarrow> i < length ss \<and> sn_tokens (ss ! i) = ts"
  by (auto simp: find_tokens_def find_Some_iff)

lemma wp_capture:
  assumes cu: "cuda_ok cu" and inv: "kv_inv W S kv"
    and pages: "\<And>j page. j < length (page_chain lane ts) \<Longrightarrow> page_exported (j * KV_PAGE_ROWS) KV_PAGE_ROWS kv page \<Longrightarrow>
      P (page_chain lane ts ! j) page"
    and snap: "\<And>t s tl now. MIN_TOKENS \<le> length ts \<Longrightarrow> (case tl of None \<Rightarrow> length ts mod KV_PAGE_ROWS = 0 | Some b \<Rightarrow> 0 < length ts mod KV_PAGE_ROWS \<and>
        page_exported (length ts - length ts mod KV_PAGE_ROWS) (length ts mod KV_PAGE_ROWS) kv b) \<Longrightarrow>
      Q (new_snap kv ts a k swa_rows (page_chain lane ts) t s now) tl state"
    and fresh: "\<And>s tl st b now. Q s tl st \<Longrightarrow> Q (refresh b now s) tl st"
    and room: "sum_refs (mset (hc_snaps hc)) + size R + length (page_chain lane ts) < 2 ^ 32" and short: "length ts < 2 ^ 64"
    and good: "hc_good P Q z R X hc"
    and len: "length state = fst z" "kv_state_bytes kv = fst z"
  shows "wp (capture cu lane kv ts a k state swa_rows) (\<lambda>_ (g', hc'). hc_good P Q z R X hc')
    (\<lambda>(g', hc'). \<exists>R' X'. size R' \<le> size R + length (page_chain lane ts) \<and> hc_good P Q z R' X' hc') (g, hc)"
proof (cases "length ts < MIN_TOKENS \<or> kv_tokens kv < length ts")
  case True
  then show ?thesis using good by (simp add: capture_def wp_simps)
next
  case False
  let ?hc = "hc\<lparr>hc_clock := hc_clock hc + 1\<rparr>"
  have good': "hc_good P Q z R X ?hc" by (rule hc_good_same [OF good]) simp_all
  have no: "(length ts < MIN_TOKENS \<or> kv_tokens kv < length ts) = False" using False by simp
  show ?thesis
  proof (cases "find_tokens ts (hc_snaps hc)")
    case (Some i)
    have "hc_good P Q z R X (?hc\<lparr>hc_snaps := (hc_snaps ?hc)[i := refresh a (hc_clock ?hc) (hc_snaps ?hc ! i)]\<rparr>)"
      by (rule hc_good_touch [OF good']) (use find_tokens_bound [OF Some] fresh in \<open>simp_all add: refresh_def\<close>)
    then show ?thesis unfolding capture_def no using Some by (simp add: wp_simps)
  next
    case None
    have "wp (capture_new cu lane kv ts a k state swa_rows) (\<lambda>_ (g', hc'). hc_good P Q z R X hc')
      (\<lambda>(g', hc'). \<exists>R' X'. size R' \<le> size R + length (page_chain lane ts) \<and> hc_good P Q z R' X' hc') (g, ?hc)"
      by (rule wp_capture_new [OF cu inv pages snap _ short good' len]) (use room False in auto)
    then show ?thesis unfolding capture_def no using None by (simp add: wp_simps)
  qed
qed

end
