(* ===== verification/HostRestore.thy ===== *)
theory HostRestore
  imports HostCapture
begin

text \<open>
  Restoring a snapshot. The forward pass is not modelled: \<open>computes ts kv\<close> stands for "\<open>kv\<close> is a cache in which exactly
  the tokens \<open>ts\<close> have been computed", and \<open>prefix_model\<close> for what the host tier relies on: the rows of a global layer
  depend only on the tokens up to them. \<open>distinct_ids\<close> says that the hash chain tells the prefixes of the token
  lists in play apart.
\<close>

subsection \<open>The hash chain\<close>

lemma length_chain_from: "length (chain_from lane prev ts) = length ts div KV_PAGE_ROWS"
proof (induction lane prev ts rule: chain_from.induct)
  case (1 lane prev ts)
  show ?case
  proof (cases "length ts < KV_PAGE_ROWS")
    case False
    have "length (chain_from lane prev ts) = Suc ((length ts - KV_PAGE_ROWS) div KV_PAGE_ROWS)"
      using 1 False by (simp add: chain_from.simps [of lane prev ts] Let_def)
    also have "\<dots> = length ts div KV_PAGE_ROWS"
      using False by (simp add: le_div_geq KV_PAGE_ROWS_def)
    finally show ?thesis .
  qed (simp add: chain_from.simps [of lane prev ts])
qed

lemma length_page_chain [simp]: "length (page_chain lane ts) = length ts div KV_PAGE_ROWS"
  by (simp add: page_chain_def length_chain_from)

definition distinct_ids :: "hasher \<Rightarrow> nat list set \<Rightarrow> bool" where
  "distinct_ids lane U \<longleftrightarrow> (\<forall>ts \<in> U. \<forall>us \<in> U. \<forall>i < length ts div KV_PAGE_ROWS. \<forall>j < length us div KV_PAGE_ROWS.
     page_chain lane ts ! i = page_chain lane us ! j \<longrightarrow> take ((i + 1) * KV_PAGE_ROWS) ts = take ((j + 1) * KV_PAGE_ROWS) us)"

lemma page_inside: "j < n div KV_PAGE_ROWS \<Longrightarrow> (j + 1) * KV_PAGE_ROWS \<le> n"
  by (simp add: KV_PAGE_ROWS_def)

lemma distinct_idsD:
  assumes "distinct_ids lane U" "ts \<in> U" "us \<in> U" "i < length ts div KV_PAGE_ROWS" "j < length us div KV_PAGE_ROWS"
    "page_chain lane ts ! i = page_chain lane us ! j"
  shows "i = j \<and> take ((i + 1) * KV_PAGE_ROWS) ts = take ((i + 1) * KV_PAGE_ROWS) us"
proof -
  have eq: "take ((i + 1) * KV_PAGE_ROWS) ts = take ((j + 1) * KV_PAGE_ROWS) us"
    using assms unfolding distinct_ids_def by blast
  have "(i + 1) * KV_PAGE_ROWS = (j + 1) * KV_PAGE_ROWS"
    using arg_cong [OF eq, of length] page_inside [OF assms(4)] page_inside [OF assms(5)] by (simp only: length_take min_absorb2)
  then show ?thesis using eq by (simp add: KV_PAGE_ROWS_def)
qed

lemma take_eq_parts: "take k xs = take k ys \<Longrightarrow> drop k xs = take (n - k) (drop k ys) \<Longrightarrow> k \<le> n \<Longrightarrow> xs = take n ys"
proof -
  assume "take k xs = take k ys" "drop k xs = take (n - k) (drop k ys)" "k \<le> n"
  then have "take k xs @ drop k xs = take k ys @ take (n - k) (drop k ys)" by simp
  also have "\<dots> = take n ys" using \<open>k \<le> n\<close> by (metis le_add_diff_inverse take_add)
  finally show ?thesis by simp
qed

text \<open>A snapshot that passes the comparison of \<open>lookup\<close> is a prefix of the prompt.\<close>

lemma is_prefix_snap_take:
  assumes ids: "distinct_ids lane U" "sn_tokens s \<in> U" "prompt \<in> U" and pages: "sn_pages s = page_chain lane (sn_tokens s)"
    and hit: "is_prefix_snap (page_chain lane prompt) prompt s" and len: "length (sn_tokens s) \<le> length prompt"
  shows "sn_tokens s = take (length (sn_tokens s)) prompt"
proof -
  let ?ts = "sn_tokens s" and ?full = "length (sn_tokens s) div KV_PAGE_ROWS"
  have same: "page_chain lane ?ts = take ?full (page_chain lane prompt)"
    and rest: "drop (?full * KV_PAGE_ROWS) ?ts = take (length ?ts - ?full * KV_PAGE_ROWS) (drop (?full * KV_PAGE_ROWS) prompt)"
    using hit pages by (simp_all add: is_prefix_snap_def Let_def)
  have "take (?full * KV_PAGE_ROWS) ?ts = take (?full * KV_PAGE_ROWS) prompt"
  proof (cases ?full)
    case (Suc k)
    have k: "k < ?full" "k < length prompt div KV_PAGE_ROWS"
      using Suc div_le_mono [OF len, of KV_PAGE_ROWS] by simp_all
    have "page_chain lane ?ts ! k = page_chain lane prompt ! k" by (subst same) (simp add: Suc)
    from distinct_idsD [OF ids k this] show ?thesis by (simp add: Suc)
  qed simp
  then show ?thesis by (rule take_eq_parts) (use rest in simp_all)
qed

lemma lookup_loop:
  assumes "foldl (\<lambda>best i. if length (t i) > m \<or> (case best of None \<Rightarrow> False | Some b \<Rightarrow> length (t b) \<ge> length (t i)) then best
      else if \<not> ok i then best else Some i) b ns = r"
    and "\<And>j. b = Some j \<Longrightarrow> ok j \<and> length (t j) \<le> m"
  shows "(\<forall>j. r = Some j \<longrightarrow> (b = Some j \<or> j \<in> set ns) \<and> ok j \<and> length (t j) \<le> m) \<and>
     (\<forall>i \<in> set ns \<union> set_option b. ok i \<and> length (t i) \<le> m \<longrightarrow> (\<exists>j. r = Some j \<and> length (t i) \<le> length (t j)))"
  using assms
proof (induction ns arbitrary: b)
  case Nil
  then show ?case by auto
next
  case (Cons i ns)
  let ?skip = "length (t i) > m \<or> (case b of None \<Rightarrow> False | Some b \<Rightarrow> length (t b) \<ge> length (t i))"
  define b' where "b' = (if ?skip then b else if \<not> ok i then b else Some i)"
  have run: "foldl (\<lambda>best i. if length (t i) > m \<or> (case best of None \<Rightarrow> False | Some b \<Rightarrow> length (t b) \<ge> length (t i)) then best
      else if \<not> ok i then best else Some i) b' ns = r"
    using Cons.prems(1) by (simp add: b'_def)
  have fine: "ok j \<and> length (t j) \<le> m" if "b' = Some j" for j
    using that Cons.prems(2) by (auto simp: b'_def split: if_splits)
  note ih = Cons.IH [OF run fine]
  have reach: "\<exists>j. r = Some j \<and> length (t k) \<le> length (t j)" if "k \<in> set (i # ns) \<union> set_option b" "ok k" "length (t k) \<le> m" for k
  proof -
    have "\<exists>k'. k' \<in> set ns \<union> set_option b' \<and> ok k' \<and> length (t k') \<le> m \<and> length (t k) \<le> length (t k')"
      using that Cons.prems(2) by (cases b) (auto simp: b'_def)
    then show ?thesis using ih le_trans by meson
  qed
  moreover have "(b = Some j \<or> j \<in> set (i # ns)) \<and> ok j \<and> length (t j) \<le> m" if "r = Some j" for j
    using ih that by (auto simp: b'_def split: if_splits)
  ultimately show ?case by blast
qed

lemma lookup_snap_spec:
  assumes "lookup_snap lane prompt ss = r"
  shows "(\<forall>j. r = Some j \<longrightarrow> j < length ss \<and> is_prefix_snap (page_chain lane prompt) prompt (ss ! j) \<and> length (sn_tokens (ss ! j)) \<le> length prompt) \<and>
    (\<forall>i < length ss. is_prefix_snap (page_chain lane prompt) prompt (ss ! i) \<and> length (sn_tokens (ss ! i)) \<le> length prompt \<longrightarrow>
       (\<exists>j. r = Some j \<and> length (sn_tokens (ss ! i)) \<le> length (sn_tokens (ss ! j))))"
  using lookup_loop [where t = "\<lambda>i. sn_tokens (ss ! i)" and m = "length prompt" and b = None and ns = "[0..<length ss]" and r = r
      and ok = "\<lambda>i. is_prefix_snap (page_chain lane prompt) prompt (ss ! i)"]
    assms by (auto simp: lookup_snap_def Let_def)

subsection \<open>Pages and rows\<close>

definition same_rows :: "nat \<Rightarrow> device_kv \<Rightarrow> device_kv \<Rightarrow> bool" where
  "same_rows n kv kv' \<longleftrightarrow> (\<forall>i < length (kv_layers kv). is_ga (kv_layers kv ! i) \<longrightarrow>
     (\<forall>p \<in> {PlaneK, PlaneV}. rows_at p (kv_layers kv' ! i) 0 n = rows_at p (kv_layers kv ! i) 0 n))"

definition ga_filled :: "nat \<Rightarrow> device_kv \<Rightarrow> bool" where
  "ga_filled n kv \<longleftrightarrow> (\<forall>i < length (kv_layers kv). is_ga (kv_layers kv ! i) \<longrightarrow>
     lk_rows (kv_layers kv ! i) = n \<and> live PlanePos (kv_layers kv ! i) = iota_pos n)"

definition prefix_model :: "nat \<Rightarrow> (layer_kind \<times> nat \<times> nat \<times> nat) list \<Rightarrow> bool \<Rightarrow> (nat list \<Rightarrow> device_kv \<Rightarrow> bool) \<Rightarrow> bool" where
  "prefix_model W S draft computes \<longleftrightarrow>
     (\<forall>ts kv. computes ts kv \<longrightarrow> kv_inv W S kv \<and> kv_tokens kv = length ts \<and> ga_filled (length ts) kv \<and> (kv_draft kv \<noteq> None \<longleftrightarrow> draft)) \<and>
     (\<forall>ts kv us kv' m. computes ts kv \<longrightarrow> computes us kv' \<longrightarrow> m \<le> length ts \<longrightarrow> m \<le> length us \<longrightarrow> take m ts = take m us \<longrightarrow>
        same_rows m kv kv')"

lemma prefix_modelD:
  assumes "prefix_model W S draft computes" "computes ts kv"
  shows "kv_inv W S kv" "kv_tokens kv = length ts" "ga_filled (length ts) kv" "kv_draft kv \<noteq> None \<longleftrightarrow> draft"
  using assms unfolding prefix_model_def by blast+

lemma rows_at_within:
  assumes "rows_at p l' 0 m = rows_at p l 0 m" "plane_row p l' = plane_row p l" "r0 + n \<le> m"
  shows "rows_at p l' r0 n = rows_at p l r0 n"
proof -
  let ?w = "plane_row p l"
  have "take (n * ?w) (drop (r0 * ?w) b) = take (n * ?w) (drop (r0 * ?w) (take (m * ?w) b))" for b :: bytes
  proof -
    have "r0 * ?w + n * ?w \<le> m * ?w" by (rule rows_fit [OF assms(3)])
    then show ?thesis by (simp add: drop_take min_absorb1)
  qed
  then show ?thesis using assms(1,2) by (simp add: rows_at_def) metis
qed

lemma inv_same_geom:
  "kv_inv W S kv \<Longrightarrow> kv_inv W S kv' \<Longrightarrow> i < length (kv_layers kv) \<Longrightarrow> geom (kv_layers kv' ! i) = geom (kv_layers kv ! i)"
  using kv_inv_geom kv_inv_length by metis

lemma inv_same_length: "kv_inv W S kv \<Longrightarrow> kv_inv W S kv' \<Longrightarrow> length (kv_layers kv') = length (kv_layers kv)"
  using kv_inv_length by metis

lemma inv_same_shape: "kv_inv W S kv \<Longrightarrow> kv_inv W S kv' \<Longrightarrow> kv_shape kv' = kv_shape kv"
  by (simp add: kv_inv_def)

text \<open>A page holds rows of any cache that has those rows.\<close>

lemma page_exported_same:
  assumes page: "page_exported r0 n kv page" and inv: "kv_inv W S kv" "kv_inv W S kv'"
    and rows: "same_rows m kv' kv" "r0 + n \<le> m" and filled: "ga_filled k kv'" "r0 + n \<le> k"
  shows "page_exported r0 n kv' page"
  unfolding page_exported_def
proof (intro allI impI)
  fix i assume i: "i < length (kv_layers kv')" "is_ga (kv_layers kv' ! i)"
  let ?l = "kv_layers kv ! i" and ?l' = "kv_layers kv' ! i"
  have geo: "geom ?l = geom ?l'" by (rule inv_same_geom [OF inv(2,1) i(1)])
  have i': "i < length (kv_layers kv)" "is_ga ?l" using i inv_same_length [OF inv] geom_is(2) [OF geo] by simp_all
  have off: "off_sum is_ga page_stride kv i = off_sum is_ga page_stride kv' i"
    by (rule page_off_shape [OF inv_same_shape [OF inv(2,1)]])
  have same: "rows_at p ?l' r0 n = rows_at p ?l r0 n" if "p \<in> {PlaneK, PlaneV}" for p
    by (rule rows_at_within [OF _ _ rows(2), symmetric])
      (use rows(1) i that geom_plane_row [OF geo] in \<open>auto simp: same_rows_def\<close>)
  show "exported r0 n (off_sum is_ga page_stride kv' i) ?l' page"
  proof -
    have "exported r0 n (off_sum is_ga page_stride kv' i) ?l page"
      using page i' by (simp add: page_exported_def off [symmetric])
    then show ?thesis
      using i filled geom_eqD [OF geo] same by (simp add: exported_def ga_filled_def)
  qed
qed

subsection \<open>What the host tier holds\<close>

definition held_page :: "hasher \<Rightarrow> (nat list \<Rightarrow> device_kv \<Rightarrow> bool) \<Rightarrow> nat list set \<Rightarrow> 128 word \<Rightarrow> bytes \<Rightarrow> bool" where
  "held_page lane computes U pid page \<longleftrightarrow> (\<exists>ts \<in> U. \<exists>j < length ts div KV_PAGE_ROWS. page_chain lane ts ! j = pid \<and>
     (\<exists>kv. computes ts kv \<and> page_exported (j * KV_PAGE_ROWS) KV_PAGE_ROWS kv page))"

definition tail_of :: "nat \<Rightarrow> device_kv \<Rightarrow> bytes option \<Rightarrow> bool" where
  "tail_of n kv t \<longleftrightarrow> (case t of None \<Rightarrow> n mod KV_PAGE_ROWS = 0
     | Some b \<Rightarrow> 0 < n mod KV_PAGE_ROWS \<and> page_exported (n - n mod KV_PAGE_ROWS) (n mod KV_PAGE_ROWS) kv b)"

definition snap_of :: "hasher \<Rightarrow> bool \<Rightarrow> (nat list \<Rightarrow> device_kv \<Rightarrow> bool) \<Rightarrow> nat list set \<Rightarrow> snapshot \<Rightarrow> bytes option \<Rightarrow> bytes \<Rightarrow> bool" where
  "snap_of lane draft computes U s t st \<longleftrightarrow> sn_tokens s \<in> U \<and> MIN_TOKENS \<le> length (sn_tokens s) \<and>
     sn_pages s = page_chain lane (sn_tokens s) \<and> sn_has_draft s = draft \<and>
     (\<exists>kv. computes (sn_tokens s) kv \<and> tail_of (length (sn_tokens s)) kv t \<and> state_saved kv (sn_swa_rows s) st)"

lemma snap_of_refresh: "snap_of lane draft computes U s t st \<Longrightarrow> snap_of lane draft computes U (refresh a now s) t st"
  by (simp add: snap_of_def refresh_def)

lemma held_page_prefix:
  assumes "held_page lane computes U pid page" "prefix_model W S draft computes" "distinct_ids lane U"
    "ts \<in> U" "computes ts kv" "j < length ts div KV_PAGE_ROWS" "page_chain lane ts ! j = pid"
  shows "page_exported (j * KV_PAGE_ROWS) KV_PAGE_ROWS kv page"
proof -
  obtain us i kv' where us: "us \<in> U" "i < length us div KV_PAGE_ROWS" "page_chain lane us ! i = pid" "computes us kv'"
    and page: "page_exported (i * KV_PAGE_ROWS) KV_PAGE_ROWS kv' page"
    using assms(1) unfolding held_page_def by blast
  have "page_chain lane us ! i = page_chain lane ts ! j" using us(3) assms(7) by simp
  from distinct_idsD [OF assms(3) us(1) assms(4) us(2) assms(6) this]
  have ij: "i = j" and pre: "take ((i + 1) * KV_PAGE_ROWS) us = take ((i + 1) * KV_PAGE_ROWS) ts" by auto
  have fit: "j * KV_PAGE_ROWS + KV_PAGE_ROWS \<le> length ts" "(i + 1) * KV_PAGE_ROWS \<le> length us"
    using page_inside [OF assms(6)] page_inside [OF us(2)] by simp_all
  have "same_rows ((i + 1) * KV_PAGE_ROWS) kv kv'"
    using assms(2,5) us(4) fit pre ij unfolding prefix_model_def by (metis add.commute mult_Suc Suc_eq_plus1)
  note m = prefix_modelD [OF assms(2)]
  show ?thesis
    by (rule page_exported_same [OF _ m(1) [OF us(4)] m(1) [OF assms(5)] \<open>same_rows _ kv kv'\<close> _ m(3) [OF assms(5)] fit(1)])
      (use page ij in simp_all)
qed

subsection \<open>Capturing a computed cache\<close>

lemma state_bytes_same:
  assumes "kv_inv W S kv" "kv_inv W S kv'" "kv_draft kv' = None \<longleftrightarrow> kv_draft kv = None"
  shows "swa_state_bytes kv' = swa_state_bytes kv" "kv_state_bytes kv' = kv_state_bytes kv"
proof -
  have km: "swa_keep_max kv' = swa_keep_max kv" by (rule swa_keep_max_shape [OF assms(1,2)])
  have "is_swa l' = is_swa l \<and> swa_stride k l' = swa_stride k l" if "geom l' = geom l" for k l l'
    using geom_is(1) [OF that] geom_eqD [OF that] by (simp add: swa_stride_def)
  moreover have "map geom (kv_layers kv') = map geom (kv_layers kv)"
    using inv_same_shape [OF assms(1,2)] by (simp add: kv_shape_def)
  ultimately show swa: "swa_state_bytes kv' = swa_state_bytes kv"
    unfolding swa_state_bytes_sum km by (rule sum_geom)
  show "kv_state_bytes kv' = kv_state_bytes kv"
    using swa assms(3) by (auto simp: kv_state_bytes_def draft_state_bytes_def split: option.split)
qed

lemma draft_bytes_pos: "0 < draft_bytes"
  by (simp add: draft_bytes_def LAYERS_def RING_def NKV_def HD_def)

lemma wp_capture_model:
  assumes cu: "cuda_ok cu" and pm: "prefix_model W S draft computes" and ids: "distinct_ids lane U" and U: "ts \<in> U"
    and inv: "kv_inv W S kv" "kv_draft kv \<noteq> None \<longleftrightarrow> draft"
    and kv0: "computes ts kv0" "same_rows (length ts) kv0 kv" "state_saved kv0 swa_rows state" "length state = kv_state_bytes kv0"
    and z: "fst z = kv_state_bytes kv0"
    and room: "sum_refs (mset (hc_snaps hc)) + size R + length ts div KV_PAGE_ROWS < 2 ^ 32" and short: "length ts < 2 ^ 64"
    and good: "hc_good (held_page lane computes U) (snap_of lane draft computes U) z R X hc"
  shows "wp (capture cu lane kv ts a k state swa_rows)
    (\<lambda>_ (g', hc'). hc_good (held_page lane computes U) (snap_of lane draft computes U) z R X hc')
    (\<lambda>(g', hc'). \<exists>R' X'. size R' \<le> size R + length ts div KV_PAGE_ROWS \<and>
       hc_good (held_page lane computes U) (snap_of lane draft computes U) z R' X' hc') (g, hc)"
proof -
  note m = prefix_modelD [OF pm kv0(1)]
  have move: "page_exported r0 n kv0 page" if "page_exported r0 n kv page" "r0 + n \<le> length ts" for r0 n page
    by (rule page_exported_same [OF that(1) inv(1) m(1) kv0(2) that(2) m(3) that(2)])
  have page: "held_page lane computes U (page_chain lane ts ! j) page"
    if "j < length (page_chain lane ts)" "page_exported (j * KV_PAGE_ROWS) KV_PAGE_ROWS kv page" for j page
  proof -
    have j: "j < length ts div KV_PAGE_ROWS" using that(1) by simp
    have "page_exported (j * KV_PAGE_ROWS) KV_PAGE_ROWS kv0 page"
      by (rule move [OF that(2)]) (use page_inside [OF j] in simp)
    then show ?thesis using U j kv0(1) by (auto simp: held_page_def)
  qed
  have draft: "(0 < draft_state_bytes kv) = draft"
    using inv(2) draft_bytes_pos by (auto simp: draft_state_bytes_def split: option.split)
  have snap: "snap_of lane draft computes U (new_snap kv ts a k swa_rows (page_chain lane ts) t s now) tl state"
    if "MIN_TOKENS \<le> length ts" "case tl of None \<Rightarrow> length ts mod KV_PAGE_ROWS = 0 | Some b \<Rightarrow> 0 < length ts mod KV_PAGE_ROWS \<and>
        page_exported (length ts - length ts mod KV_PAGE_ROWS) (length ts mod KV_PAGE_ROWS) kv b" for t s tl now
  proof -
    have "tail_of (length ts) kv0 tl"
      using that(2) move by (auto simp: tail_of_def split: option.splits)
    then show ?thesis using U that(1) kv0 draft by (auto simp: snap_of_def new_snap_def)
  qed
  have len: "length state = fst z" "kv_state_bytes kv = fst z"
    using kv0(4) z state_bytes_same(2) [OF m(1) inv(1)] inv(2) m(4) by auto
  have room': "sum_refs (mset (hc_snaps hc)) + size R + length (page_chain lane ts) < 2 ^ 32" using room by simp
  show ?thesis
    using wp_capture [OF cu inv(1) page snap snap_of_refresh room' short good len] by simp
qed

subsection \<open>Loading a snapshot\<close>

definition holds_rows :: "device_kv \<Rightarrow> nat \<Rightarrow> device_kv \<Rightarrow> bool" where
  "holds_rows kv0 m kv \<longleftrightarrow> (\<forall>i < length (kv_layers kv). is_ga (kv_layers kv ! i) \<longrightarrow> lk_rows (kv_layers kv ! i) = m \<and>
     (\<forall>p \<in> {PlaneK, PlaneV}. live p (kv_layers kv ! i) = rows_at p (kv_layers kv0 ! i) 0 m))"

lemma rows_at_add: "rows_at p l 0 m @ rows_at p l m n = rows_at p l 0 (m + n)"
  by (simp add: rows_at_def add_mult_distrib take_add)

text \<open>The next page of the rows of \<open>kv0\<close> extends the rows held.\<close>

lemma wp_import_next:
  fixes cu :: "'g cuda"
  assumes cu: "cuda_ok cu" and inv: "kv_inv W S kv" and inv0: "kv_inv W S kv0"
    and held: "holds_rows kv0 m kv" and page: "page_exported m n kv0 page" and few: "m + n \<le> row_max"
  shows "wp (import_ga_page cu n page) (\<lambda>_ (g', kv'). kv_inv W S kv' \<and> kv_same kv kv' \<and> holds_rows kv0 (m + n) kv')
    (\<lambda>(g', kv'). kv_inv W S kv') (g, kv)"
proof (rule wp_mono [OF wp_import_ga_page [OF cu inv]])
  show "few_rows n kv" using held few by (auto simp: few_rows_def holds_rows_def in_set_conv_nth)
next
  fix x and s :: "'g \<times> device_kv"
  assume post: "case s of (g, kv') \<Rightarrow> kv_inv W S kv' \<and> page_imported n page kv kv'"
  obtain g' kv' where s: "s = (g', kv')" by force
  have ch: "changed (\<lambda>i. is_ga (kv_layers kv ! i)) (\<lambda>i l. appended n (page_part page (off_sum is_ga page_stride kv i) n l) {PlaneK, PlaneV} l)
      (length (kv_layers kv)) kv kv'"
    using post by (simp add: s page_imported_def)
  have each: "lk_rows (kv_layers kv' ! i) = m + n \<and> live p (kv_layers kv' ! i) = rows_at p (kv_layers kv0 ! i) 0 (m + n)"
    if i: "i < length (kv_layers kv')" and ga: "is_ga (kv_layers kv' ! i)" and p: "p \<in> {PlaneK, PlaneV}" for i p
  proof -
    let ?l = "kv_layers kv ! i" and ?base = "kv_layers kv0 ! i"
    have i': "i < length (kv_layers kv)" "i < length (kv_layers kv0)"
      using i ch inv_same_length [OF inv inv0] by (simp_all add: changed_def)
    have inv': "kv_inv W S kv'" using post by (simp add: s)
    have geo': "geom (kv_layers kv' ! i) = geom ?l" by (rule inv_same_geom [OF inv inv' i'(1)])
    have ga': "is_ga ?l" using geom_is(2) [OF geo'] ga by simp
    have geo: "geom ?l = geom ?base" by (rule inv_same_geom [OF inv0 inv i'(2)])
    have ga0: "is_ga ?base" using ga' geom_is(2) [OF geo] by simp
    have app: "appended n (page_part page (off_sum is_ga page_stride kv i) n ?l) {PlaneK, PlaneV} ?l (kv_layers kv' ! i)"
      using ch i'(1) ga' by (simp add: changed_def)
    have ex: "exported m n (off_sum is_ga page_stride kv i) ?base page"
      using page i'(2) ga0 page_off_shape [OF inv_same_shape [OF inv0 inv]] by (simp add: page_exported_def)
    have "page_part page (off_sum is_ga page_stride kv i) n ?l p = rows_at p ?base m n"
      by (rule page_part_exported [OF ex _ geo]) (use kv_inv_layer [OF inv0 i'(2)] p in auto)
    moreover have "lk_rows ?l = m" "live p ?l = rows_at p ?base 0 m" using held i'(1) ga' p by (auto simp: holds_rows_def)
    ultimately show ?thesis using app p rows_at_add [of p ?base m n] by (auto simp: appended_def)
  qed
  then show "case s of (g', kv') \<Rightarrow> kv_inv W S kv' \<and> kv_same kv kv' \<and> holds_rows kv0 (m + n) kv'"
    using post changed_same [OF ch] by (auto simp: s holds_rows_def)
qed auto

lemma wp_import_slot:
  assumes "cuda_ok cu" "kv_inv W S kv" "kv_inv W S kv0" "holds_rows kv0 m kv" "slot_in a t" "page_exported m n kv0 (arena_get a t)" "m + n \<le> row_max"
  shows "wp (import_slot cu n a t) (\<lambda>_ (g', kv'). kv_inv W S kv' \<and> kv_same kv kv' \<and> holds_rows kv0 (m + n) kv')
    (\<lambda>(g', kv'). kv_inv W S kv') (g, kv)"
  using wp_import_next [OF assms(1-4,6,7)] assms(5) by (simp add: import_slot_def)

lemma wp_import_pages:
  fixes cu :: "'g cuda"
  assumes cu: "cuda_ok cu" and inv: "kv_inv W S kv" and inv0: "kv_inv W S kv0" and held: "holds_rows kv0 0 kv"
    and pages: "\<And>j. j < length pids \<Longrightarrow> \<exists>p. hc_page_map hc (pids ! j) = Some p \<and> slot_in (hc_pages hc) (pg_slot p) \<and>
      page_exported (j * KV_PAGE_ROWS) KV_PAGE_ROWS kv0 (arena_get (hc_pages hc) (pg_slot p))"
    and few: "length pids * KV_PAGE_ROWS \<le> row_max"
  shows "wp (efor (import_id cu hc) pids)
    (\<lambda>_ (g', kv'). kv_inv W S kv' \<and> kv_same kv kv' \<and> holds_rows kv0 (length pids * KV_PAGE_ROWS) kv')
    (\<lambda>(g', kv'). kv_inv W S kv') (g, kv)"
proof -
  let ?I = "\<lambda>j (g' :: 'g, kv'). kv_inv W S kv' \<and> kv_same kv kv' \<and> holds_rows kv0 (j * KV_PAGE_ROWS) kv'"
  have "wp (efor (import_id cu hc) pids) (\<lambda>_. ?I (length pids)) (\<lambda>(g', kv'). kv_inv W S kv') (g, kv)"
  proof (rule wp_efor [where I = ?I])
    show "?I 0 (g, kv)" using inv held by simp
    fix j and s :: "'g \<times> device_kv"
    assume j: "j < length pids" and I: "?I j s"
    obtain g' kv' where s: "s = (g', kv')" by force
    obtain p where p: "hc_page_map hc (pids ! j) = Some p" "slot_in (hc_pages hc) (pg_slot p)"
        "page_exported (j * KV_PAGE_ROWS) KV_PAGE_ROWS kv0 (arena_get (hc_pages hc) (pg_slot p))"
      using pages [OF j] by blast
    have "(j + 1) * KV_PAGE_ROWS \<le> length pids * KV_PAGE_ROWS" using j by (intro mult_le_mono1) simp
    then have room: "j * KV_PAGE_ROWS + KV_PAGE_ROWS \<le> row_max" using few by simp
    have "wp (import_slot cu KV_PAGE_ROWS (hc_pages hc) (pg_slot p))
        (\<lambda>_ (g', kv''). kv_inv W S kv'' \<and> kv_same kv' kv'' \<and> holds_rows kv0 (j * KV_PAGE_ROWS + KV_PAGE_ROWS) kv'')
        (\<lambda>(g', kv'). kv_inv W S kv') (g', kv')"
      by (rule wp_import_slot [OF cu _ inv0 _ p(2,3) room]) (use I in \<open>simp_all add: s\<close>)
    then show "wp (import_id cu hc (pids ! j)) (\<lambda>_. ?I (Suc j)) (\<lambda>(g', kv'). kv_inv W S kv') s"
      unfolding s import_id_def p(1) option.case
      by (rule wp_mono) (use I in \<open>auto simp: s add.commute intro: kv_same_trans\<close>)
  qed
  then show ?thesis by simp
qed

text \<open>The sliding-window rows and the draft rings come back from the two halves of the state.\<close>

lemma seg_take: "seg buf a v \<Longrightarrow> a + length v \<le> k \<Longrightarrow> k \<le> length buf \<Longrightarrow> seg (take k buf) a v"
  by (simp add: seg_def drop_take min_absorb1)

lemma saved_take:
  assumes "saved km n off l buf" "layer_ok l" "off + swa_stride km l \<le> k" "k \<le> length buf"
  shows "saved km n off l (take k buf)"
proof -
  have n: "n \<le> km" "lk_rows l - n + n \<le> lk_cap l" using assms(1,2) by (auto simp: saved_def layer_ok_def)
  have "seg (take k buf) (off + plane_off km l p) (rows_at p l (lk_rows l - n) n)" for p
    by (rule seg_take)
      (use assms plane_off_room [OF n(1), of l p] length_rows_at [OF assms(2) n(2), of p] in \<open>auto simp: saved_def\<close>)
  then show ?thesis using assms(1) by (simp add: saved_def)
qed

lemma draft_saved_drop: "draft_saved d base buf \<Longrightarrow> draft_saved d 0 (drop base buf)"
  by (simp add: draft_saved_def add.commute)

definition ga_ready :: "device_kv \<Rightarrow> device_kv \<Rightarrow> bool" where
  "ga_ready kv0 kv \<longleftrightarrow> (\<forall>i < length (kv_layers kv0). is_ga (kv_layers kv0 ! i) \<longrightarrow>
     lk_rows (kv_layers kv ! i) = lk_rows (kv_layers kv0 ! i) \<and> (\<forall>p. live p (kv_layers kv ! i) = live p (kv_layers kv0 ! i)))"

lemma swa_resumed:
  assumes "loaded km n src off l l'" "saved km n off base src" "layer_ok base" "geom l = geom base"
  shows "lk_rows l' = min (lk_rows base) km \<and> (\<forall>p. live p l' = drop ((lk_rows base - lk_rows l') * plane_row p base) (live p base))"
proof -
  have n: "n = min (lk_rows base) km" using assms(2) by (simp add: saved_def)
  have "lk_rows l' = n" using assms(1) by (simp add: loaded_def)
  moreover have "live p l' = rows_at p base (lk_rows base - n) n" for p by (rule loaded_saved [OF assms])
  ultimately show ?thesis using n by (simp add: rows_at_last)
qed

lemma rings_resumed:
  assumes "rings_loaded b src kv kv'" "kv_inv W S kv0" "kv_draft kv \<noteq> None \<longleftrightarrow> kv_draft kv0 \<noteq> None"
    "\<And>d. kv_draft kv0 = Some d \<Longrightarrow> draft_saved d b src"
  shows "kv_draft kv' = kv_draft kv0 \<and> kv_layers kv' = kv_layers kv \<and> kv_tokens kv' = kv_tokens kv"
proof (cases "kv_draft kv")
  case None
  then show ?thesis using assms by (auto simp: rings_loaded_def)
next
  case (Some d)
  then obtain d0 where d0: "kv_draft kv0 = Some d0" using assms(3) by auto
  obtain d' where d': "kv' = kv\<lparr>kv_draft := Some d'\<rparr>" "draft_ok d'" "draft_saved d' b src"
    using assms(1) Some by (auto simp: rings_loaded_def)
  have "draft_ok d0" using assms(2) d0 by (simp add: kv_inv_def kv_ok_def)
  from draft_saved_unique [OF this d'(2) assms(4) [OF d0] d'(3)] show ?thesis using d' d0 by simp
qed

lemma wp_load_position:
  fixes cu :: "'g cuda"
  assumes cu: "cuda_ok cu" and inv: "kv_inv W S kv" and inv0: "kv_inv W S kv0" and ready: "ga_ready kv0 kv"
    and draft: "kv_draft kv \<noteq> None \<longleftrightarrow> kv_draft kv0 \<noteq> None" "has \<longleftrightarrow> kv_draft kv0 \<noteq> None"
    and st: "state_saved kv0 n st" "swa_state_bytes kv0 \<le> length st" and k: "k = swa_state_bytes kv0"
  shows "wp (ethen (import_swa cu n (take k st)) (ethen (if has then import_draft cu (drop k st) else eret ())
      (emodify (\<lambda>(g, kv). (g, kv_set_tokens (kv_tokens kv0) kv)))))
    (\<lambda>_ (g', kv'). kv_inv W S kv' \<and> resumed kv0 kv') (\<lambda>(g', kv'). kv_inv W S kv') (g, kv)" (is "wp _ ?C ?E _")
  unfolding wp_ethen
proof (rule wp_mono [OF wp_import_swa [OF cu inv]])
  let ?km = "swa_keep_max kv0"
  fix x and s :: "'g \<times> device_kv"
  assume post: "case s of (g', kv') \<Rightarrow> kv_inv W S kv' \<and> n \<le> swa_keep_max kv \<and> changed (\<lambda>i. is_swa (kv_layers kv ! i))
       (\<lambda>i. loaded (swa_keep_max kv) n (take k st) (off_sum is_swa (swa_stride (swa_keep_max kv)) kv i)) (length (kv_layers kv)) kv kv'"
  obtain g1 kv1 where s: "s = (g1, kv1)" by force
  have inv1: "kv_inv W S kv1" using post by (simp add: s)
  have km: "swa_keep_max kv = ?km" by (rule swa_keep_max_shape [OF inv0 inv])
  have swa_geo: "is_swa l' = is_swa l \<and> swa_stride ?km l' = swa_stride ?km l" if "geom l' = geom l" for l l'
    using geom_is(1) [OF that] geom_eqD [OF that] by (simp add: swa_stride_def)
  have off: "off_sum is_swa (swa_stride ?km) kv i = off_sum is_swa (swa_stride ?km) kv0 i" for i
    by (rule off_sum_shape [OF swa_geo inv_same_shape [OF inv0 inv]])
  have ch: "changed (\<lambda>i. is_swa (kv_layers kv ! i)) (\<lambda>i. loaded ?km n (take k st) (off_sum is_swa (swa_stride ?km) kv0 i))
      (length (kv_layers kv)) kv kv1" using post by (simp add: s km off)
  have len: "length (kv_layers kv) = length (kv_layers kv0)" by (rule inv_same_length [OF inv0 inv])
  have each: "let base = kv_layers kv0 ! i; l = kv_layers kv1 ! i in
      if is_ga base then lk_rows l = lk_rows base \<and> (\<forall>p. live p l = live p base)
      else lk_rows l = min (lk_rows base) ?km \<and> (\<forall>p. live p l = drop ((lk_rows base - lk_rows l) * plane_row p base) (live p base))"
    if i: "i < length (kv_layers kv0)" for i
  proof -
    let ?base = "kv_layers kv0 ! i"
    have geo: "geom (kv_layers kv ! i) = geom ?base" by (rule inv_same_geom [OF inv0 inv i])
    show ?thesis
    proof (cases "is_ga ?base")
      case True
      then have "\<not> is_swa (kv_layers kv ! i)" using ga_not_swa geom_is(1) [OF geo] by simp
      then have "kv_layers kv1 ! i = kv_layers kv ! i" using ch i len by (simp add: changed_def)
      then show ?thesis using True ready i by (simp add: Let_def ga_ready_def)
    next
      case False
      then have swa: "is_swa ?base" by (simp add: not_ga)
      have ld: "loaded ?km n (take k st) (off_sum is_swa (swa_stride ?km) kv0 i) (kv_layers kv ! i) (kv_layers kv1 ! i)"
        using ch i len swa geom_is(1) [OF geo] by (simp add: changed_def)
      have ok: "layer_ok ?base" using kv_inv_layer [OF inv0 i] by simp
      have "saved ?km n (off_sum is_swa (swa_stride ?km) kv0 i) ?base (take k st)"
        by (rule saved_take) (use st i swa ok k off_sum_room [where P = is_swa, OF i swa, of "swa_stride ?km"] in
            \<open>auto simp: state_saved_def swa_state_bytes_sum\<close>)
      from swa_resumed [OF ld this ok geo] show ?thesis using False by (simp add: Let_def)
    qed
  qed
  have fin: "?C () (g', kv_set_tokens (kv_tokens kv0) kv')"
    if "kv_inv W S kv'" "kv_draft kv' = kv_draft kv0" "kv_layers kv' = kv_layers kv1" for g' kv'
    using that each ch len by (simp add: kv_set_tokens_def resumed_def changed_def)
  have same1: "kv_draft kv1 = kv_draft kv" using changed_same [OF ch] by (simp add: kv_same_def)
  show "wp (if has then import_draft cu (drop k st) else eret ())
      (\<lambda>_. wp (emodify (\<lambda>(g, kv). (g, kv_set_tokens (kv_tokens kv0) kv))) ?C ?E) ?E s"
  proof (cases has)
    case False
    then have "kv_draft kv1 = kv_draft kv0" using same1 draft by auto
    then show ?thesis using fin [OF inv1] False by (simp add: s wp_simps)
  next
    case True
    show ?thesis
      unfolding s using True
      apply (simp only: if_True)
      apply (rule wp_mono [OF wp_import_draft [OF cu inv1]])
       apply (use rings_resumed [OF _ inv0] same1 draft st(1) draft_saved_drop k fin in
          \<open>auto simp: wp_simps state_saved_def\<close>)
      done
  qed
qed auto

text \<open>The global rows: emptied, given room, read page by page, then numbered.\<close>

lemma holds_rows_reset: "holds_rows kv0 0 (kv_reset kv)"
  by (simp add: holds_rows_def kv_reset_def live_def rows_at_def)

lemma holds_rows_reserved:
  assumes held: "holds_rows kv0 m kv" and inv: "kv_inv W S kv" "kv_inv W S kv'"
    and ch: "changed (\<lambda>i. is_ga (kv_layers kv ! i) \<and> lk_cap (kv_layers kv ! i) < n) (\<lambda>_ l l'. kept l l' \<and> geom l' = geom l \<and> n \<le> lk_cap l')
         (length (kv_layers kv)) kv kv'"
  shows "holds_rows kv0 m kv'"
  unfolding holds_rows_def
proof (intro allI impI)
  fix i assume i: "i < length (kv_layers kv')" "is_ga (kv_layers kv' ! i)"
  have i': "i < length (kv_layers kv)" using i inv_same_length [OF inv] by simp
  have geo: "geom (kv_layers kv' ! i) = geom (kv_layers kv ! i)" by (rule inv_same_geom [OF inv i'])
  have ga: "is_ga (kv_layers kv ! i)" using i(2) geom_is(2) [OF geo] by simp
  have "if is_ga (kv_layers kv ! i) \<and> lk_cap (kv_layers kv ! i) < n
      then kept (kv_layers kv ! i) (kv_layers kv' ! i) \<and> geom (kv_layers kv' ! i) = geom (kv_layers kv ! i) \<and> n \<le> lk_cap (kv_layers kv' ! i)
      else kv_layers kv' ! i = kv_layers kv ! i"
    using ch i' by (simp add: changed_def)
  then have "kept (kv_layers kv ! i) (kv_layers kv' ! i)"
    by (auto simp: kept_def split: if_splits)
  then show "lk_rows (kv_layers kv' ! i) = m \<and> (\<forall>p \<in> {PlaneK, PlaneV}. live p (kv_layers kv' ! i) = rows_at p (kv_layers kv0 ! i) 0 m)"
    using held i' ga by (simp add: holds_rows_def kept_def)
qed

lemma holds_rows_ready:
  assumes held: "holds_rows kv0 n kv" and filled: "ga_filled n kv0" and inv: "kv_inv W S kv0" "kv_inv W S kv"
    and ch: "changed (\<lambda>i. is_ga (kv_layers kv ! i)) (\<lambda>_. positioned) (length (kv_layers kv)) kv kv'"
  shows "ga_ready kv0 kv'"
  unfolding ga_ready_def
proof (intro allI impI)
  fix i assume i: "i < length (kv_layers kv0)" and ga0: "is_ga (kv_layers kv0 ! i)"
  let ?base = "kv_layers kv0 ! i" and ?l = "kv_layers kv ! i" and ?k = "kv_layers kv' ! i"
  have i': "i < length (kv_layers kv)" using i inv_same_length [OF inv] by simp
  have geo: "geom ?l = geom ?base" by (rule inv_same_geom [OF inv i])
  have ga: "is_ga ?l" using ga0 geom_is(2) [OF geo] by simp
  have pos: "positioned ?l ?k" using ch i' ga by (simp add: changed_def)
  have base: "lk_rows ?base = n" "live PlanePos ?base = iota_pos n" using filled i ga0 by (auto simp: ga_filled_def)
  have "lk_rows ?l = n" "live PlaneK ?l = live PlaneK ?base" "live PlaneV ?l = live PlaneV ?base"
    using held i' ga by (simp_all add: holds_rows_def live_rows_at [of _ ?base] base(1))
  then show "lk_rows ?k = lk_rows ?base \<and> (\<forall>p. live p ?k = live p ?base)"
    using pos base by (auto simp: positioned_def all_planes)
qed

lemma wp_load_rows:
  fixes cu :: "'g cuda"
  assumes cu: "cuda_ok cu" and inv: "kv_inv W S kv" and inv0: "kv_inv W S kv0" and filled: "ga_filled n kv0"
    and pages: "\<And>j. j < length pids \<Longrightarrow> \<exists>p. hc_page_map hc (pids ! j) = Some p \<and> slot_in (hc_pages hc) (pg_slot p) \<and>
      page_exported (j * KV_PAGE_ROWS) KV_PAGE_ROWS kv0 (arena_get (hc_pages hc) (pg_slot p))"
    and count: "length pids = n div KV_PAGE_ROWS" and few: "n \<le> row_max"
    and tail: "case t of None \<Rightarrow> n mod KV_PAGE_ROWS = 0 | Some s \<Rightarrow> slot_in (hc_pages hc) s \<and>
      page_exported (n - n mod KV_PAGE_ROWS) (n mod KV_PAGE_ROWS) kv0 (arena_get (hc_pages hc) s)"
    and rest: "\<And>g' kv'. kv_inv W S kv' \<Longrightarrow> kv_draft kv' = kv_draft kv \<Longrightarrow> ga_ready kv0 kv' \<Longrightarrow> wp m C (\<lambda>(g', kv'). kv_inv W S kv') (g', kv')"
  shows "wp (ethen (emodify (\<lambda>(g, kv). (g, kv_reset kv))) (ethen (reserve_ga cu n) (ethen (efor (import_id cu hc) pids)
      (ethen (case t of None \<Rightarrow> eret () | Some s \<Rightarrow> import_slot cu (n mod KV_PAGE_ROWS) (hc_pages hc) s)
      (ethen (finish_ga_import cu) m))))) C (\<lambda>(g', kv'). kv_inv W S kv') (g, kv)"
proof -
  let ?E = "\<lambda>(g' :: 'g, kv'). kv_inv W S kv'" and ?full = "n div KV_PAGE_ROWS" and ?rem = "n mod KV_PAGE_ROWS"
  have split: "?full * KV_PAGE_ROWS + ?rem = n" "n - ?rem = ?full * KV_PAGE_ROWS" by (simp_all add: minus_mod_eq_div_mult)
  have room: "?full * KV_PAGE_ROWS + ?rem \<le> row_max" using few split(1) by simp
  have room0: "length pids * KV_PAGE_ROWS \<le> row_max" unfolding count using few split(1) by linarith
  have five: "wp (ethen (finish_ga_import cu) m) C ?E (g4, kv4)"
    if "kv_inv W S kv4" "kv_draft kv4 = kv_draft kv" "holds_rows kv0 n kv4" for g4 kv4
    unfolding wp_ethen
    by (rule wp_mono [OF wp_finish_ga_import [OF that(1)]])
      (use that rest holds_rows_ready [OF that(3) filled inv0 that(1)] changed_same in \<open>auto simp: kv_same_def\<close>)
  have four: "wp (ethen (case t of None \<Rightarrow> eret () | Some s \<Rightarrow> import_slot cu ?rem (hc_pages hc) s) (ethen (finish_ga_import cu) m)) C ?E (g3, kv3)"
    if "kv_inv W S kv3" "kv_draft kv3 = kv_draft kv" "holds_rows kv0 (?full * KV_PAGE_ROWS) kv3" for g3 kv3
  proof (cases t)
    case None
    then have "?full * KV_PAGE_ROWS = n" using tail split(1) by simp
    then show ?thesis using five that None by (simp add: wp_ethen wp_eret)
  next
    case (Some s)
    have s: "slot_in (hc_pages hc) s" and ex: "page_exported (?full * KV_PAGE_ROWS) ?rem kv0 (arena_get (hc_pages hc) s)"
      using tail by (simp_all only: Some option.case split(2))
    have "wp (import_slot cu ?rem (hc_pages hc) s) (\<lambda>_. wp (ethen (finish_ga_import cu) m) C ?E) ?E (g3, kv3)"
      by (rule wp_mono [OF wp_import_slot [OF cu that(1) inv0 that(3) s ex room]])
        (use five that in \<open>auto simp: kv_same_def split(1)\<close>)
    then show ?thesis by (simp add: Some wp_ethen)
  qed
  have three: "wp (ethen (efor (import_id cu hc) pids)
      (ethen (case t of None \<Rightarrow> eret () | Some s \<Rightarrow> import_slot cu ?rem (hc_pages hc) s) (ethen (finish_ga_import cu) m))) C ?E (g2, kv2)"
    if "kv_inv W S kv2" "kv_draft kv2 = kv_draft kv" "holds_rows kv0 0 kv2" for g2 kv2
    unfolding wp_ethen [of "efor _ _"]
    by (rule wp_mono [OF wp_import_pages [OF cu that(1) inv0 that(3) pages room0]])
      (use four that count in \<open>auto simp: kv_same_def\<close>)
  have inv1: "kv_inv W S (kv_reset kv)" by (rule kv_inv_reset [OF inv])
  have draft1: "kv_draft (kv_reset kv) = kv_draft kv" by (simp add: kv_reset_def)
  show ?thesis
    unfolding wp_ethen [of "emodify _"] wp_emodify prod.case wp_ethen [of "reserve_ga _ _"]
    by (rule wp_mono [OF wp_reserve_ga [OF cu inv1 few]])
      (use three holds_rows_reserved [OF holds_rows_reset inv1] changed_same draft1 in \<open>auto simp: kv_same_def\<close>)
qed

lemma wp_load_snapshot:
  fixes cu :: "'g cuda"
  assumes cu: "cuda_ok cu" and pm: "prefix_model W S draft computes" and ids: "distinct_ids lane U"
    and good: "hc_good (held_page lane computes U) (snap_of lane draft computes U) z R X hc"
    and s: "s \<in> set (hc_snaps hc)" "length (sn_tokens s) \<le> row_max" and inv: "kv_inv W S kv" "kv_draft kv \<noteq> None \<longleftrightarrow> draft"
    and z: "fst z = kv_state_bytes kv" "fst (snd z) = swa_state_bytes kv"
  shows "wp (load_snapshot cu hc s)
    (\<lambda>_ (g', kv'). kv_inv W S kv' \<and> (\<exists>kv0. computes (sn_tokens s) kv0 \<and> resumed kv0 kv')) (\<lambda>(g', kv'). kv_inv W S kv') (g, kv)"
proof -
  let ?n = "length (sn_tokens s)" and ?st = "arena_get (hc_states hc) (sn_state s)"
  have hinv: "hc_inv R X {#} hc" and holds: "hc_holds (held_page lane computes U) (snap_of lane draft computes U) hc"
    and sizes: "ar_slot_bytes (hc_states hc) = fst z" "hc_swa_bytes hc = fst (snd z)"
    using good by (auto simp: hc_good_def hc_ok_def)
  have "snap_of lane draft computes U s (map_option (arena_get (hc_pages hc)) (sn_tail s)) ?st"
    using holds s(1) by (simp add: hc_holds_def)
  then obtain kv0 where kv0: "computes (sn_tokens s) kv0" "tail_of ?n kv0 (map_option (arena_get (hc_pages hc)) (sn_tail s))"
      "state_saved kv0 (sn_swa_rows s) ?st" and sn: "sn_tokens s \<in> U" "sn_pages s = page_chain lane (sn_tokens s)" "sn_has_draft s = draft"
    by (auto simp: snap_of_def)
  note m = prefix_modelD [OF pm kv0(1)]
  have same: "swa_state_bytes kv0 = swa_state_bytes kv" "kv_state_bytes kv0 = kv_state_bytes kv"
    using state_bytes_same [OF inv(1) m(1)] inv(2) m(4) by auto
  have state: "slot_in (hc_states hc) (sn_state s)"
    by (rule slot_in_arena [OF hc_inv_in_arena(2) [OF hinv]]) (use s(1) in \<open>simp add: snap_states_def\<close>)
  have stlen: "length ?st = kv_state_bytes kv" using length_arena_get [OF state] sizes z by simp
  have pages: "\<exists>p. hc_page_map hc (sn_pages s ! j) = Some p \<and> slot_in (hc_pages hc) (pg_slot p) \<and>
      page_exported (j * KV_PAGE_ROWS) KV_PAGE_ROWS kv0 (arena_get (hc_pages hc) (pg_slot p))" if j: "j < length (sn_pages s)" for j
  proof -
    have "sn_pages s ! j \<in># snap_refs (hc_snaps hc)" using s(1) j by (auto simp: snap_refs_def intro!: bexI [OF _ s(1)])
    then obtain p where p: "hc_page_map hc (sn_pages s ! j) = Some p" using held_in_map [OF hinv] by auto
    then have "sn_pages s ! j \<in># mset_set (dom (hc_page_map hc))" using hinv by (auto simp: hc_inv_def)
    then have "pg_slot p \<in># map_slots (hc_page_map hc)" using p by (force simp: map_slots_def)
    then have "slot_in (hc_pages hc) (pg_slot p)" by (intro slot_in_arena hc_inv_in_arena(1) [OF hinv]) simp
    moreover have "held_page lane computes U (sn_pages s ! j) (arena_get (hc_pages hc) (pg_slot p))"
      using holds p by (simp add: hc_holds_def)
    from held_page_prefix [OF this pm ids sn(1) kv0(1)] j sn(2)
    have "page_exported (j * KV_PAGE_ROWS) KV_PAGE_ROWS kv0 (arena_get (hc_pages hc) (pg_slot p))" by simp
    ultimately show ?thesis using p by blast
  qed
  have tail: "case sn_tail s of None \<Rightarrow> ?n mod KV_PAGE_ROWS = 0 | Some t \<Rightarrow> slot_in (hc_pages hc) t \<and>
      page_exported (?n - ?n mod KV_PAGE_ROWS) (?n mod KV_PAGE_ROWS) kv0 (arena_get (hc_pages hc) t)"
  proof (cases "sn_tail s")
    case None
    then show ?thesis using kv0(2) by (simp add: tail_of_def)
  next
    case (Some t)
    then have "t \<in># snap_tails (hc_snaps hc)" using s(1) by (force simp: snap_tails_def opt_slots_def)
    then have "slot_in (hc_pages hc) t" by (intro slot_in_arena hc_inv_in_arena(1) [OF hinv]) simp
    then show ?thesis using Some kv0(2) by (simp add: tail_of_def)
  qed
  have no: "(\<not> slot_in (hc_states hc) (sn_state s) \<or> hc_swa_bytes hc > ar_slot_bytes (hc_states hc)) = False"
    using state sizes z by (simp add: kv_state_bytes_def)
  show ?thesis
    unfolding load_snapshot_def Let_def no if_False
  proof (rule wp_load_rows [OF cu inv(1) m(1) m(3) pages _ s(2) tail])
    show "length (sn_pages s) = ?n div KV_PAGE_ROWS" by (simp add: sn(2))
    fix g' :: 'g and kv' assume kv': "kv_inv W S kv'" "kv_draft kv' = kv_draft kv" "ga_ready kv0 kv'"
    have dr: "kv_draft kv' \<noteq> None \<longleftrightarrow> kv_draft kv0 \<noteq> None" "sn_has_draft s \<longleftrightarrow> kv_draft kv0 \<noteq> None"
      using kv'(2) inv(2) m(4) sn(3) by auto
    have room: "swa_state_bytes kv0 \<le> length ?st" "hc_swa_bytes hc = swa_state_bytes kv0"
      using stlen same sizes z by (simp_all add: kv_state_bytes_def)
    from wp_load_position [OF cu kv'(1) m(1) kv'(3) dr kv0(3) room, of g']
    show "wp (ethen (import_swa cu (sn_swa_rows s) (take (hc_swa_bytes hc) ?st))
        (ethen (if sn_has_draft s then import_draft cu (drop (hc_swa_bytes hc) ?st) else eret ())
          (emodify (\<lambda>(g, kv). (g, kv_set_tokens ?n kv)))))
      (\<lambda>_ (g', kv'). kv_inv W S kv' \<and> (\<exists>kv0. computes (sn_tokens s) kv0 \<and> resumed kv0 kv')) (\<lambda>(g', kv'). kv_inv W S kv') (g', kv')"
      unfolding m(2) by (rule wp_mono) (use kv0(1) in auto)
  qed
qed

end
