(* ===== verification/HostReach.thy ===== *)
theory HostReach
  imports HostRestore
begin

text \<open>
  The life of the host tier as a step relation: built for a cache, then captures and restores in any order, each
  against a runtime in any state. Its index counts the captures that failed.
\<close>

subsection \<open>A new arena\<close>

lemma arena_slots_slab:
  assumes "0 < sb"
  shows "arena_slots \<lparr>ar_slabs = slabs @ [replicate (n * sb) 0], ar_slot_bytes = sb, ar_free = f\<rparr> =
    arena_slots \<lparr>ar_slabs = slabs, ar_slot_bytes = sb, ar_free = f'\<rparr> \<union> (\<lambda>i. (length slabs, i * sb)) ` {..<n}" (is "?A = ?B \<union> ?C")
proof -
  have last: "(i + 1) * sb \<le> n * sb \<longleftrightarrow> i < n" for i using assms by (metis Suc_eq_plus1 Suc_le_eq mult_le_cancel2)
  have "x \<in> ?A \<longleftrightarrow> x \<in> ?B \<union> ?C" for x
  proof (cases x)
    case (Pair s o')
    consider "s < length slabs" | "s = length slabs" | "length slabs < s" by linarith
    then show ?thesis
      by cases (use Pair last in \<open>auto simp: arena_slots_def nth_append image_iff\<close>)
  qed
  then show ?thesis by blast
qed

lemma wp_arena_fill:
  assumes "0 < sb" "mset f = mset_set (arena_slots \<lparr>ar_slabs = slabs, ar_slot_bytes = sb, ar_free = f\<rparr>)"
  shows "wp (arena_fill cu sb left slabs f) (\<lambda>a g'. ar_slot_bytes a = sb \<and> mset (ar_free a) = mset_set (arena_slots a) \<and>
      length (ar_free a) = length f + left) (\<lambda>_. True) g"
  using assms
proof (induction cu sb left slabs f arbitrary: g rule: arena_fill.induct)
  case (1 cu sb left slabs f g)
  show ?case
  proof (cases "left = 0")
    case True
    then show ?thesis using 1(3) by (simp add: arena_fill.simps [of cu sb 0 slabs f] wp_simps)
  next
    case False
    define n where "n = min left (max (SLAB_BYTES div sb) 1)"
    have n: "n \<le> left" by (simp add: n_def)
    let ?slabs = "slabs @ [replicate (n * sb) 0]" and ?f = "f @ map (\<lambda>i. (length slabs, i * sb)) (rev [0..<n])"
    let ?a = "\<lparr>ar_slabs = slabs, ar_slot_bytes = sb, ar_free = f\<rparr>"
    have fin: "finite (arena_slots ?a)" by (rule finite_arena_slots) (use 1(2) in simp)
    have inj: "inj_on (\<lambda>i. (length slabs, i * sb)) {..<n}" using 1(2) by (auto simp: inj_on_def)
    have apart: "arena_slots ?a \<inter> (\<lambda>i. (length slabs, i * sb)) ` {..<n} = {}" by (auto simp: arena_slots_def)
    have "mset (map (\<lambda>i. (length slabs, i * sb)) (rev [0..<n])) = mset_set ((\<lambda>i. (length slabs, i * sb)) ` {..<n})"
      using image_mset_mset_set [OF inj] by (simp add: atLeast0LessThan)
    then have slots: "mset ?f = mset_set (arena_slots \<lparr>ar_slabs = ?slabs, ar_slot_bytes = sb, ar_free = ?f\<rparr>)"
      using 1(3) fin apart by (simp add: arena_slots_slab [OF 1(2), of slabs n _ f] mset_set_Union)
    have ih: "wp (arena_fill cu sb (left - n) ?slabs ?f) (\<lambda>a g'. ar_slot_bytes a = sb \<and> mset (ar_free a) = mset_set (arena_slots a) \<and>
      length (ar_free a) = length ?f + (left - n)) (\<lambda>_. True) g'" for g'
      by (rule 1(1) [OF False n_def refl 1(2) slots])
    have "length ?f + (left - n) = length f + left" using n by simp
    then have rest: "wp (arena_fill cu sb (left - n) ?slabs ?f) (\<lambda>a g'. ar_slot_bytes a = sb \<and> mset (ar_free a) = mset_set (arena_slots a) \<and>
      length (ar_free a) = length f + left) (\<lambda>_. True) g'" for g'
      using ih [of g'] by simp
    have "arena_fill cu sb left slabs f = ebind (\<lambda>g. case cuda_host_register cu (n * sb) g of (rc, g') \<Rightarrow> (Ok rc, g')) (\<lambda>rc.
        ethen (check_rc (HostRegister (n * sb)) rc) (arena_fill cu sb (left - n) ?slabs ?f))"
      using False by (simp add: arena_fill.simps [of cu sb left slabs f] Let_def n_def)
    moreover have "wp (\<lambda>g. case cuda_host_register cu (n * sb) g of (rc, g') \<Rightarrow> (Ok rc, g')) (\<lambda>_ _. True) (\<lambda>_. True) g"
      by (simp add: wp_def split: prod.split)
    ultimately show ?thesis
      by (simp only: wp_ebind wp_ethen) (erule wp_mono, use rest in \<open>auto simp: wp_ethen wp_check_rc\<close>)
  qed
qed

lemma wp_arena_new:
  assumes "0 < sb"
  shows "wp (arena_new cu sb n) (\<lambda>a g'. ar_slot_bytes a = sb \<and> mset (ar_free a) = mset_set (arena_slots a) \<and>
      length (ar_free a) = n) (\<lambda>_. True) g"
proof -
  have "mset [] = mset_set (arena_slots \<lparr>ar_slabs = [], ar_slot_bytes = sb, ar_free = []\<rparr>)" by (simp add: arena_slots_def)
  from wp_arena_fill [OF assms this, of cu n g] show ?thesis using assms by (simp add: arena_new_def)
qed

lemma wp_host_cache_new:
  assumes "0 < kv_ga_page_bytes kv" "0 < kv_state_bytes kv"
  shows "wp (host_cache_new cu kv budget)
    (\<lambda>hc g'. \<exists>n \<le> 256. hc_good P Q (kv_state_bytes kv, swa_state_bytes kv, n) {#} {#} hc) (\<lambda>_. True) g"
proof -
  let ?sb = "swa_state_bytes kv + draft_state_bytes kv"
  define n where "n = min (max (budget div 10 div ?sb) 4) 256"
  define m where "m = max ((budget - n * ?sb) div kv_ga_page_bytes kv) 16"
  have sb: "0 < ?sb" and n: "n \<le> 256" using assms(2) by (simp_all add: kv_state_bytes_def n_def)
  let ?hc = "\<lambda>ps ss. \<lparr>hc_pages = ps, hc_states = ss, hc_page_map = Map.empty, hc_snaps = [], hc_clock = 0, hc_swa_bytes = swa_state_bytes kv,
      hc_stats = \<lparr>hs_captures = 0, hs_restores = 0, hs_restored_tokens = 0, hs_evicted = 0, hs_pages_written = 0\<rparr>\<rparr>"
  have run: "host_cache_new cu kv budget = ebind (arena_new cu (kv_ga_page_bytes kv) m) (\<lambda>ps. ebind (arena_new cu ?sb n) (\<lambda>ss. eret (?hc ps ss)))"
  proof -
    have no: "(?sb = 0 \<or> kv_ga_page_bytes kv = 0) = False" using assms sb by simp
    show ?thesis unfolding host_cache_new_def Let_def no if_False n_def m_def ..
  qed
  have good: "hc_good P Q (kv_state_bytes kv, swa_state_bytes kv, n) {#} {#} (?hc ps ss)"
    if ps: "ar_slot_bytes ps = kv_ga_page_bytes kv \<and> mset (ar_free ps) = mset_set (arena_slots ps) \<and> length (ar_free ps) = m"
      and ss: "ar_slot_bytes ss = ?sb \<and> mset (ar_free ss) = mset_set (arena_slots ss) \<and> length (ar_free ss) = n" for ps ss
  proof -
    have "card (arena_slots ss) = n"
      using ss by (metis size_mset size_mset_set)
    then show ?thesis
      using ps ss assms sb
      by (simp add: hc_good_def hc_ok_def hc_inv_def hc_holds_def kv_state_bytes_def map_slots_def snap_refs_def snap_tails_def
          snap_states_def refs_of_def)
  qed
  show ?thesis
    unfolding run wp_ebind
    apply (rule wp_mono [OF wp_arena_new [OF assms(1)]])
     apply (rule wp_mono [OF wp_arena_new [OF sb]])
      apply (simp only: wp_eret)
      apply (use good n in blast)
     apply simp_all
    done
qed

subsection \<open>Captures and restores\<close>

lemma wp_on_kv [wp_simps]: "wp (on_kv m) Q E (g, kv, hc) = wp m (\<lambda>x (g', kv'). Q x (g', kv', hc)) (\<lambda>(g', kv'). E (g', kv', hc)) (g, kv)"
  by (simp add: wp_def on_kv_def split: prod.split outcome.split)

lemma wp_restore:
  fixes cu :: "'g cuda"
  assumes cu: "cuda_ok cu" and pm: "prefix_model W S draft computes" and ids: "distinct_ids lane U"
    and good: "hc_good (held_page lane computes U) (snap_of lane draft computes U) z R X hc"
    and i: "i < length (hc_snaps hc)" and short: "\<forall>ts \<in> U. length ts \<le> 2 ^ 20" and inv: "kv_inv W S kv" "kv_draft kv \<noteq> None \<longleftrightarrow> draft"
    and z: "fst z = kv_state_bytes kv" "fst (snd z) = swa_state_bytes kv"
  shows "wp (restore cu i)
    (\<lambda>(n, a, k) (g', kv', hc'). hc_good (held_page lane computes U) (snap_of lane draft computes U) z R X hc' \<and> kv_inv W S kv' \<and>
       n = length (sn_tokens (hc_snaps hc ! i)) \<and> a = sn_after (hc_snaps hc ! i) \<and> k = sn_kind (hc_snaps hc ! i) \<and>
       (\<exists>kv0. computes (sn_tokens (hc_snaps hc ! i)) kv0 \<and> resumed kv0 kv'))
    (\<lambda>(g', kv', hc'). hc_good (held_page lane computes U) (snap_of lane draft computes U) z R X hc' \<and> kv_inv W S kv') (g, kv, hc)"
proof -
  let ?P = "held_page lane computes U" and ?Q = "snap_of lane draft computes U"
  let ?hc = "hc\<lparr>hc_clock := hc_clock hc + 1\<rparr>" and ?s = "hc_snaps hc ! i"
  let ?hc2 = "?hc\<lparr>hc_snaps := (hc_snaps ?hc)[i := ?s\<lparr>sn_last_use := hc_clock ?hc\<rparr>]\<rparr>"
  have good1: "hc_good ?P ?Q z R X ?hc" by (rule hc_good_same [OF good]) simp_all
  have good2: "hc_good ?P ?Q z R X ?hc2"
    by (rule hc_good_touch [OF good1]) (use i in \<open>simp_all add: snap_of_def\<close>)
  have stats: "hc_good ?P ?Q z R X (?hc2\<lparr>hc_stats := st\<rparr>)" for st
    by (rule hc_good_same [OF good2]) simp_all
  have "sn_tokens ?s \<in> U" using good i by (auto simp: hc_good_def hc_ok_def hc_holds_def snap_of_def)
  then have few: "length (sn_tokens ?s) \<le> row_max" using short by (force simp: row_max_def)
  have load: "wp (load_snapshot cu ?hc ?s)
    (\<lambda>_ (g', kv'). kv_inv W S kv' \<and> (\<exists>kv0. computes (sn_tokens ?s) kv0 \<and> resumed kv0 kv')) (\<lambda>(g', kv'). kv_inv W S kv') (g, kv)"
    by (rule wp_load_snapshot [OF cu pm ids good1 _ few inv z]) (use i in simp)
  have no: "(length (hc_snaps hc) \<le> i) = False" using i by simp
  show ?thesis
    using i stats good2
    by (simp add: restore_def wp_simps Let_def no) (rule wp_mono [OF load], auto)
qed

inductive hc_reach ::
  "'g cuda \<Rightarrow> hasher \<Rightarrow> config \<Rightarrow> bool \<Rightarrow> (nat list \<Rightarrow> device_kv \<Rightarrow> bool) \<Rightarrow> nat list set \<Rightarrow> nat \<Rightarrow> host_cache \<Rightarrow> bool"
  for cu :: "'g cuda" and lane c draft computes U where
  hc_new: "kv_reach cu c kv \<Longrightarrow> kv_draft kv \<noteq> None \<longleftrightarrow> draft \<Longrightarrow> host_cache_new cu kv budget g = (Ok hc, g') \<Longrightarrow>
    hc_reach cu lane c draft computes U 0 hc"
| hc_capture: "hc_reach cu lane c draft computes U k hc \<Longrightarrow> kv_reach cu c kv \<Longrightarrow> kv_draft kv \<noteq> None \<longleftrightarrow> draft \<Longrightarrow>
    ts \<in> U \<Longrightarrow> computes ts kv0 \<Longrightarrow> same_rows (length ts) kv0 kv \<Longrightarrow> state_saved kv0 rows state \<Longrightarrow> length state = kv_state_bytes kv0 \<Longrightarrow>
    capture cu lane kv ts a kd state rows (g, hc) = (r, (g', hc')) \<Longrightarrow>
    hc_reach cu lane c draft computes U (if r = Ok () then k else Suc k) hc'"
| hc_restore: "hc_reach cu lane c draft computes U k hc \<Longrightarrow> kv_reach cu c kv \<Longrightarrow> kv_draft kv \<noteq> None \<longleftrightarrow> draft \<Longrightarrow>
    i < length (hc_snaps hc) \<Longrightarrow> restore cu i (g, kv, hc) = (r, (g', kv', hc')) \<Longrightarrow>
    hc_reach cu lane c draft computes U k hc'"

text \<open>The sizes every cache of the model agrees on.\<close>

definition sizes_fit :: "nat \<Rightarrow> (layer_kind \<times> nat \<times> nat \<times> nat) list \<Rightarrow> bool \<Rightarrow> nat \<times> nat \<times> nat \<Rightarrow> bool" where
  "sizes_fit W S draft z \<longleftrightarrow> snd (snd z) \<le> 256 \<and>
     (\<forall>kv. kv_inv W S kv \<and> (kv_draft kv \<noteq> None \<longleftrightarrow> draft) \<longrightarrow> fst z = kv_state_bytes kv \<and> fst (snd z) = swa_state_bytes kv)"

lemma size_sum_bound:
  fixes f :: "'a \<Rightarrow> 'b multiset"
  assumes "\<And>x. x \<in># A \<Longrightarrow> size (f x) \<le> n"
  shows "size (\<Sum>x\<in>#A. f x) \<le> size A * n"
  using assms
proof (induction A)
  case (add x A)
  then have "size (f x) \<le> n" "size (\<Sum>x\<in>#A. f x) \<le> size A * n" by auto
  then show ?case by simp
qed simp

text \<open>At most 256 snapshots of at most \<open>2 ^ 12\<close> pages each.\<close>

lemma sum_refs_bound:
  assumes "hc_good (held_page lane computes U) (snap_of lane draft computes U) z R X hc" "\<forall>ts \<in> U. length ts \<le> 2 ^ 20" "snd (snd z) \<le> 256"
  shows "sum_refs (mset (hc_snaps hc)) \<le> 2 ^ 20"
proof -
  have inv: "hc_inv R X {#} hc" and card: "card (arena_slots (hc_states hc)) \<le> 256"
    using assms(1,3) by (auto simp: hc_good_def hc_ok_def)
  have "mset (ar_free (hc_states hc)) + snap_states (hc_snaps hc) = mset_set (arena_slots (hc_states hc))"
    using inv by (simp add: hc_inv_def)
  then have "length (ar_free (hc_states hc)) + length (hc_snaps hc) = card (arena_slots (hc_states hc))"
    by (metis size_mset size_mset_set size_union snap_states_def size_image_mset)
  then have few: "length (hc_snaps hc) \<le> 256" using card by simp
  have "size (mset (sn_pages s)) \<le> 2 ^ 12" if "s \<in># mset (hc_snaps hc)" for s
  proof -
    have "sn_tokens s \<in> U" "sn_pages s = page_chain lane (sn_tokens s)"
      using assms(1) that by (auto simp: hc_good_def hc_ok_def hc_holds_def snap_of_def)
    moreover have "m div KV_PAGE_ROWS \<le> 2 ^ 12" if "m \<le> 2 ^ 20" for m
      using div_le_mono [OF that, of KV_PAGE_ROWS] by (simp add: KV_PAGE_ROWS_def)
    ultimately show ?thesis using assms(2) by simp
  qed
  then have "sum_refs (mset (hc_snaps hc)) \<le> size (mset (hc_snaps hc)) * 2 ^ 12"
    unfolding sum_refs_def by (rule size_sum_bound)
  also have "\<dots> \<le> 256 * 2 ^ 12" using few by simp
  finally show ?thesis by simp
qed

lemma kv_page_bytes_pos: "host_cache_new cu kv budget g = (Ok hc, g') \<Longrightarrow> 0 < kv_ga_page_bytes kv \<and> 0 < kv_state_bytes kv"
  by (auto simp: host_cache_new_def Let_def epanic_def kv_state_bytes_def split: if_splits)

text \<open>The invariant of the host tier after \<open>k\<close> failed captures.\<close>

definition hc_sound ::
  "config \<Rightarrow> hasher \<Rightarrow> bool \<Rightarrow> (nat list \<Rightarrow> device_kv \<Rightarrow> bool) \<Rightarrow> nat list set \<Rightarrow> nat \<Rightarrow> host_cache \<Rightarrow> bool" where
  "hc_sound c lane draft computes U k hc \<longleftrightarrow> (\<exists>R X z.
     hc_good (held_page lane computes U) (snap_of lane draft computes U) z R X hc \<and>
     sizes_fit (sliding_window c) (cfg_shape c) draft z \<and> size R \<le> k * 2 ^ 12 \<and> (k = 0 \<longrightarrow> R = {#} \<and> X = {#}))"

lemma hc_soundI:
  "hc_good (held_page lane computes U) (snap_of lane draft computes U) z R X hc \<Longrightarrow>
   sizes_fit (sliding_window c) (cfg_shape c) draft z \<Longrightarrow> size R \<le> k * 2 ^ 12 \<Longrightarrow> k = 0 \<longrightarrow> R = {#} \<and> X = {#} \<Longrightarrow>
   hc_sound c lane draft computes U k hc"
  unfolding hc_sound_def by (intro exI conjI)

lemma reach_sound:
  fixes cu :: "'g cuda"
  assumes cu: "cuda_ok cu" and W: "0 < sliding_window c" "sliding_window c < 2 ^ 63"
    and pm: "prefix_model (sliding_window c) (cfg_shape c) draft computes" and ids: "distinct_ids lane U"
    and short: "\<forall>ts \<in> U. length ts \<le> 2 ^ 20"
    and reach: "hc_reach cu lane c draft computes U k hc" and few: "k \<le> 2 ^ 18"
  shows "hc_sound c lane draft computes U k hc"
  using reach few
proof (induction rule: hc_reach.induct)
  case (hc_new kv budget g hc g')
  let ?P = "held_page lane computes U" and ?Q = "snap_of lane draft computes U"
  note pos = kv_page_bytes_pos [OF hc_new.hyps(3)]
  note inv = reach_inv [OF cu W hc_new.hyps(1)]
  have "\<exists>n \<le> 256. hc_good ?P ?Q (kv_state_bytes kv, swa_state_bytes kv, n) {#} {#} hc"
    by (rule wpD_Ok [OF wp_host_cache_new hc_new.hyps(3)]) (use pos in simp_all)
  then obtain n where n: "n \<le> 256" and good: "hc_good ?P ?Q (kv_state_bytes kv, swa_state_bytes kv, n) {#} {#} hc"
    by (elim exE conjE)
  have "sizes_fit (sliding_window c) (cfg_shape c) draft (kv_state_bytes kv, swa_state_bytes kv, n)"
    unfolding sizes_fit_def fst_conv snd_conv
  proof (intro conjI allI impI)
    show "n \<le> 256" by (rule n)
    fix kv' assume kv': "kv_inv (sliding_window c) (cfg_shape c) kv' \<and> (kv_draft kv' \<noteq> None \<longleftrightarrow> draft)"
    have "kv_draft kv = None \<longleftrightarrow> kv_draft kv' = None" using kv' hc_new.hyps(2) by blast
    from state_bytes_same [OF conjunct1 [OF kv'] inv this]
    show "kv_state_bytes kv = kv_state_bytes kv'" "swa_state_bytes kv = swa_state_bytes kv'" by simp_all
  qed
  with good show ?case by (rule hc_soundI) simp_all
next
  case (hc_capture k hc kv ts kv0 rows state a kd g r g' hc')
  let ?P = "held_page lane computes U" and ?Q = "snap_of lane draft computes U" and ?k = "if r = Ok () then k else Suc k"
  have k: "k \<le> 2 ^ 18" using hc_capture.prems by (auto split: if_splits)
  obtain R X z where good: "hc_good ?P ?Q z R X hc" and z: "sizes_fit (sliding_window c) (cfg_shape c) draft z"
      and R: "size R \<le> k * 2 ^ 12" and zero: "k = 0 \<longrightarrow> R = {#} \<and> X = {#}"
    using hc_capture.IH [OF k] unfolding hc_sound_def by (elim exE conjE)
  note inv = reach_inv [OF cu W hc_capture.hyps(2)]
  note m = prefix_modelD [OF pm hc_capture.hyps(5)]
  have pages: "length ts div KV_PAGE_ROWS \<le> 2 ^ 12"
    using div_le_mono [of "length ts" "2 ^ 20" KV_PAGE_ROWS] short hc_capture.hyps(4) by (simp add: KV_PAGE_ROWS_def)
  have "sum_refs (mset (hc_snaps hc)) \<le> 2 ^ 20" by (rule sum_refs_bound [OF good short]) (use z in \<open>simp add: sizes_fit_def\<close>)
  then have room: "sum_refs (mset (hc_snaps hc)) + size R + length ts div KV_PAGE_ROWS < 2 ^ 32"
    using R k pages by simp
  have few: "length ts < 2 ^ 64" using short hc_capture.hyps(4) by force
  have "fst z = kv_state_bytes kv0" using z m(1,4) by (simp add: sizes_fit_def)
  from wp_capture_model [OF cu pm ids hc_capture.hyps(4) inv hc_capture.hyps(3,5-8) this room few good, of a kd g]
  have post: "wp (capture cu lane kv ts a kd state rows) (\<lambda>_ (g', hc'). hc_good ?P ?Q z R X hc')
    (\<lambda>(g', hc'). \<exists>R' X'. size R' \<le> size R + length ts div KV_PAGE_ROWS \<and> hc_good ?P ?Q z R' X' hc') (g, hc)" .
  show ?case
  proof (cases "r = Ok ()")
    case True
    have "hc_good ?P ?Q z R X hc'" using post hc_capture.hyps(9) True by (simp add: wp_def)
    from hc_soundI [OF this z R zero] show ?thesis using True by simp
  next
    case False
    then obtain R' X' where R': "size R' \<le> size R + length ts div KV_PAGE_ROWS" and good': "hc_good ?P ?Q z R' X' hc'"
      using post hc_capture.hyps(9) by (cases r) (auto simp: wp_def)
    have "size R' \<le> Suc k * 2 ^ 12" using R' R pages by simp
    from hc_soundI [OF good' z this] show ?thesis using False by simp
  qed
next
  case (hc_restore k hc kv i g r g' kv' hc')
  let ?P = "held_page lane computes U" and ?Q = "snap_of lane draft computes U"
  obtain R X z where good: "hc_good ?P ?Q z R X hc" and z: "sizes_fit (sliding_window c) (cfg_shape c) draft z"
      and R: "size R \<le> k * 2 ^ 12" and zero: "k = 0 \<longrightarrow> R = {#} \<and> X = {#}"
    using hc_restore.IH [OF hc_restore.prems] unfolding hc_sound_def by (elim exE conjE)
  note inv = reach_inv [OF cu W hc_restore.hyps(2)]
  have sz: "fst z = kv_state_bytes kv" "fst (snd z) = swa_state_bytes kv"
    using z inv hc_restore.hyps(3) by (simp_all add: sizes_fit_def)
  have "hc_good ?P ?Q z R X hc'"
    using wp_restore [OF cu pm ids good hc_restore.hyps(4) short inv hc_restore.hyps(3) sz, of g] hc_restore.hyps(5)
    by (cases r) (auto simp: wp_def)
  from hc_soundI [OF this z R zero] show ?case .
qed

subsection \<open>The longest prefix\<close>

lemma chain_from_take: "n \<le> length ts \<Longrightarrow> chain_from lane prev (take n ts) = take (n div KV_PAGE_ROWS) (chain_from lane prev ts)"
proof (induction lane prev ts arbitrary: n rule: chain_from.induct)
  case (1 lane prev ts)
  show ?case
  proof (cases "n < KV_PAGE_ROWS")
    case True
    then show ?thesis by (simp add: chain_from.simps [of lane prev "take n ts"] min_less_iff_disj)
  next
    case False
    let ?i = "chain_id lane prev (take KV_PAGE_ROWS ts)"
    have n: "\<not> length ts < KV_PAGE_ROWS" "n - KV_PAGE_ROWS \<le> length (drop KV_PAGE_ROWS ts)" using False 1(2) by simp_all
    have ih: "chain_from lane ?i (take (n - KV_PAGE_ROWS) (drop KV_PAGE_ROWS ts)) =
        take ((n - KV_PAGE_ROWS) div KV_PAGE_ROWS) (chain_from lane ?i (drop KV_PAGE_ROWS ts))"
      by (rule 1(1) [OF n(1) refl n(2)])
    have "take KV_PAGE_ROWS (take n ts) = take KV_PAGE_ROWS ts" using False by (simp add: min_absorb1)
    then have "chain_from lane prev (take n ts) = ?i # chain_from lane ?i (take (n - KV_PAGE_ROWS) (drop KV_PAGE_ROWS ts))"
      using False 1(2) by (simp add: chain_from.simps [of lane prev "take n ts"] Let_def drop_take)
    moreover have "chain_from lane prev ts = ?i # chain_from lane ?i (drop KV_PAGE_ROWS ts)"
      using n(1) by (simp add: chain_from.simps [of lane prev ts] Let_def)
    moreover have "n div KV_PAGE_ROWS = Suc ((n - KV_PAGE_ROWS) div KV_PAGE_ROWS)"
      using False by (simp add: le_div_geq KV_PAGE_ROWS_def)
    ultimately show ?thesis using ih by simp
  qed
qed

lemma is_prefix_snap_iff:
  assumes ids: "distinct_ids lane U" "sn_tokens s \<in> U" "prompt \<in> U" and pages: "sn_pages s = page_chain lane (sn_tokens s)"
    and len: "length (sn_tokens s) \<le> length prompt"
  shows "is_prefix_snap (page_chain lane prompt) prompt s \<longleftrightarrow> sn_tokens s = take (length (sn_tokens s)) prompt"
proof
  assume "is_prefix_snap (page_chain lane prompt) prompt s"
  from is_prefix_snap_take [OF ids pages this len] show "sn_tokens s = take (length (sn_tokens s)) prompt" .
next
  assume eq: "sn_tokens s = take (length (sn_tokens s)) prompt"
  let ?n = "length (sn_tokens s)"
  have "page_chain lane (sn_tokens s) = take (?n div KV_PAGE_ROWS) (page_chain lane prompt)"
    unfolding page_chain_def by (subst eq) (rule chain_from_take [OF len])
  moreover have "drop k (sn_tokens s) = take (?n - k) (drop k prompt)" for k
    by (subst eq) (simp add: drop_take)
  ultimately show "is_prefix_snap (page_chain lane prompt) prompt s"
    by (simp add: is_prefix_snap_def Let_def pages)
qed

lemma sound_snap:
  assumes "hc_sound c lane draft computes U k hc" "s \<in> set (hc_snaps hc)"
  shows "sn_tokens s \<in> U" "sn_pages s = page_chain lane (sn_tokens s)" "MIN_TOKENS \<le> length (sn_tokens s)"
  using assms by (auto simp: hc_sound_def hc_good_def hc_ok_def hc_holds_def snap_of_def)

lemma lookup_prefix:
  assumes sound: "hc_sound c lane draft computes U k hc" and ids: "distinct_ids lane U" and U: "prompt \<in> U"
    and hit: "lookup lane hc prompt = Some (i, n)"
  shows "i < length (hc_snaps hc) \<and> n \<le> length prompt \<and> sn_tokens (hc_snaps hc ! i) = take n prompt \<and>
     length (sn_tokens (hc_snaps hc ! i)) = n"
proof -
  obtain j where j: "lookup_snap lane prompt (hc_snaps hc) = Some j" "i = j" "n = length (sn_tokens (hc_snaps hc ! j))"
    using hit by (auto simp: lookup_def)
  have i: "i < length (hc_snaps hc)" and pre: "is_prefix_snap (page_chain lane prompt) prompt (hc_snaps hc ! i)"
    and len: "n \<le> length prompt"
    using lookup_snap_spec [OF j(1)] j(2,3) by auto
  have s: "hc_snaps hc ! i \<in> set (hc_snaps hc)" using i by simp
  have "length (sn_tokens (hc_snaps hc ! i)) \<le> length prompt" using len j by simp
  from is_prefix_snap_take [OF ids sound_snap(1) [OF sound s] U sound_snap(2) [OF sound s] pre this]
  show ?thesis using i len j by simp
qed

lemma lookup_for_prefix:
  assumes sound: "hc_sound c lane draft computes U k hc" and ids: "distinct_ids lane U" and U: "prompt \<in> U" "butlast prompt \<in> U"
    and hit: "lookup_for lane hc prompt sampled = Ok (Some (i, n))"
  shows "i < length (hc_snaps hc) \<and> n \<le> length prompt \<and> sn_tokens (hc_snaps hc ! i) = take n prompt \<and>
     length (sn_tokens (hc_snaps hc ! i)) = n \<and> (n = length prompt \<longrightarrow> serves (sn_after (hc_snaps hc ! i)) sampled)"
proof (cases "lookup lane hc prompt")
  case None
  then show ?thesis using hit by (simp add: lookup_for_def)
next
  case (Some jm)
  obtain j m where jm: "jm = (j, m)" by force
  show ?thesis
  proof (cases "m = length prompt \<and> \<not> serves (sn_after (hc_snaps hc ! j)) sampled")
    case False
    then have "i = j" "n = m" using hit Some jm by (auto simp: lookup_for_def split: if_splits)
    then show ?thesis using lookup_prefix [OF sound ids U(1)] Some jm False by simp
  next
    case True
    then have ne: "prompt \<noteq> []" and hit': "lookup lane hc (butlast prompt) = Some (i, n)"
      using hit Some jm by (auto simp: lookup_for_def split: if_splits)
    note p = lookup_prefix [OF sound ids U(2) hit']
    then have "n \<le> length prompt - 1" by simp
    then have "n < length prompt" using ne by (cases prompt) auto
    then have "take n (butlast prompt) = take n prompt" by (simp add: take_butlast)
    then show ?thesis using p \<open>n < length prompt\<close> by simp
  qed
qed

lemma lookup_for_no_panic:
  assumes "hc_sound c lane draft computes U k hc" "distinct_ids lane U" "prompt \<in> U"
  shows "lookup_for lane hc prompt sampled \<noteq> Panic"
proof
  assume panic: "lookup_for lane hc prompt sampled = Panic"
  then obtain i where hit: "lookup lane hc prompt = Some (i, 0)" and "prompt = []"
    by (auto simp: lookup_for_def split: option.splits if_splits prod.splits)
  note p = lookup_prefix [OF assms hit]
  then have "MIN_TOKENS \<le> 0" using sound_snap(3) [OF assms(1), of "hc_snaps hc ! i"] by simp
  then show False by (simp add: MIN_TOKENS_def)
qed

subsection \<open>The properties of the tier\<close>

text \<open>C5: a request restored from the host tier resumes at exactly the state of its own prefix. Whatever was
  captured, shared, evicted, refreshed or restored before, and whatever runtime calls failed, when \<open>lookup_for\<close>
  finds a snapshot for a prompt, \<open>restore\<close> either fails without a panic or leaves the cache as a cache that
  computed exactly the first \<open>n\<close> tokens of the prompt would be resumed: token count, global rows and positions,
  visible sliding-window rows and draft rings; and a restore of the whole prompt can serve the request's first
  token.\<close>

theorem host_restore_exact:
  assumes "cuda_ok cu" "0 < sliding_window c" "sliding_window c < 2 ^ 63"
    and "prefix_model (sliding_window c) (cfg_shape c) draft computes" "distinct_ids lane U" "\<forall>ts \<in> U. length ts \<le> 2 ^ 20"
    and "hc_reach cu lane c draft computes U k hc" "k \<le> 2 ^ 18" "kv_reach cu c kv" "kv_draft kv \<noteq> None \<longleftrightarrow> draft"
    and "prompt \<in> U" "butlast prompt \<in> U" "lookup_for lane hc prompt sampled = Ok (Some (i, n))"
  shows "n \<le> length prompt \<and> (case restore cu i (g, kv, hc) of
      (Ok (m, a, _), (_, kv', _)) \<Rightarrow> m = n \<and> (n = length prompt \<longrightarrow> serves a sampled) \<and>
        (\<exists>kv0. computes (take n prompt) kv0 \<and> resumed kv0 kv')
    | (Err _, _) \<Rightarrow> True | (Panic, _) \<Rightarrow> False)"
proof -
  have sound: "hc_sound c lane draft computes U k hc" by (rule reach_sound [OF assms(1-8)])
  note hit = lookup_for_prefix [OF sound assms(5,11-13)]
  note inv = reach_inv [OF assms(1-3,9)]
  obtain R X z where good: "hc_good (held_page lane computes U) (snap_of lane draft computes U) z R X hc"
      and z: "sizes_fit (sliding_window c) (cfg_shape c) draft z"
    using sound unfolding hc_sound_def by (elim exE conjE)
  have sz: "fst z = kv_state_bytes kv" "fst (snd z) = swa_state_bytes kv"
    using z inv assms(10) by (simp_all add: sizes_fit_def)
  have "i < length (hc_snaps hc)" using hit by simp
  from wp_restore [OF assms(1,4,5) good this assms(6) inv assms(10) sz, of g] show ?thesis
    using hit by (auto simp: wp_def split: prod.splits outcome.splits)
qed

text \<open>C16: \<open>lookup\<close> finds the longest stored prefix. It compares only page ids and the tokens past the last whole page,
  yet returns a snapshot of exactly the first \<open>n\<close> tokens of the prompt, and no stored snapshot that is a prefix of
  the prompt is longer; when it returns none, no stored snapshot is a prefix.\<close>

theorem host_lookup_longest:
  assumes "cuda_ok cu" "0 < sliding_window c" "sliding_window c < 2 ^ 63"
    and "prefix_model (sliding_window c) (cfg_shape c) draft computes" "distinct_ids lane U" "\<forall>ts \<in> U. length ts \<le> 2 ^ 20"
    and "hc_reach cu lane c draft computes U k hc" "k \<le> 2 ^ 18" "prompt \<in> U"
  shows "case lookup lane hc prompt of
      Some (i, n) \<Rightarrow> sn_tokens (hc_snaps hc ! i) = take n prompt \<and> n \<le> length prompt \<and>
        (\<forall>s \<in> set (hc_snaps hc). sn_tokens s = take (length (sn_tokens s)) prompt \<longrightarrow> length (sn_tokens s) \<le> n)
    | None \<Rightarrow> \<forall>s \<in> set (hc_snaps hc). sn_tokens s \<noteq> take (length (sn_tokens s)) prompt"
proof -
  have sound: "hc_sound c lane draft computes U k hc" by (rule reach_sound [OF assms(1-8)])
  have none: "\<exists>j. lookup_snap lane prompt (hc_snaps hc) = Some j \<and> length (sn_tokens s) \<le> length (sn_tokens (hc_snaps hc ! j))"
    if s: "s \<in> set (hc_snaps hc)" and pre: "sn_tokens s = take (length (sn_tokens s)) prompt" for s
  proof -
    obtain i where i: "i < length (hc_snaps hc)" "s = hc_snaps hc ! i" using s by (auto simp: in_set_conv_nth)
    have len: "length (sn_tokens s) \<le> length prompt" using arg_cong [OF pre, of length] by simp
    have "is_prefix_snap (page_chain lane prompt) prompt s"
      using is_prefix_snap_iff [OF assms(5) sound_snap(1) [OF sound s] assms(9) sound_snap(2) [OF sound s] len] pre by simp
    then show ?thesis using lookup_snap_spec [OF refl, of lane prompt "hc_snaps hc"] i len by blast
  qed
  show ?thesis
  proof (cases "lookup lane hc prompt")
    case None
    then show ?thesis using none by (auto simp: lookup_def)
  next
    case (Some jm)
    obtain j m where jm: "jm = (j, m)" by force
    note p = lookup_prefix [OF sound assms(5,9) Some [unfolded jm]]
    have "lookup_snap lane prompt (hc_snaps hc) = Some j" using Some jm by (auto simp: lookup_def)
    then show ?thesis using p none Some jm by fastforce
  qed
qed

text \<open>C15: the host tier's memory is accounted for. As long as no capture has failed, every page slot is in exactly one
  place (free, behind one page id, or one snapshot's tail) and so is every state slot (free or one snapshot's), and
  the reference count of a page is the number of uses of its id by the snapshots: no slot is lost, freed twice or
  shared, and every page a snapshot needs is there.\<close>

theorem host_slots_accounted:
  assumes "cuda_ok cu" "0 < sliding_window c" "sliding_window c < 2 ^ 63"
    and "prefix_model (sliding_window c) (cfg_shape c) draft computes" "distinct_ids lane U" "\<forall>ts \<in> U. length ts \<le> 2 ^ 20"
    and "hc_reach cu lane c draft computes U 0 hc"
  shows "mset (ar_free (hc_pages hc)) + map_slots (hc_page_map hc) + snap_tails (hc_snaps hc) = mset_set (arena_slots (hc_pages hc)) \<and>
    mset (ar_free (hc_states hc)) + snap_states (hc_snaps hc) = mset_set (arena_slots (hc_states hc)) \<and>
    (\<forall>pid. refs_of (hc_page_map hc pid) = count (snap_refs (hc_snaps hc)) pid)"
  using reach_sound [OF assms] by (auto simp: hc_sound_def hc_good_def hc_ok_def hc_inv_def)

end
