(* ===== verification/HostSample.thy ===== *)
theory HostSample
  imports HostReach
begin

text \<open>
  A host tier in action: one cache of 512 tokens captured whole, at sizes that evaluate. It shows that the
  hypotheses of the tier's properties can hold together.
\<close>

definition row_kv :: "nat \<Rightarrow> bytes \<Rightarrow> nat \<Rightarrow> device_kv" where
  "row_kv n pos t = \<lparr>kv_layers =
     [\<lparr>lk_kind = Ga, row_k = 2, row_v = 1, lk_window = 0, lk_cap = 512, lk_rows = n,
        lk_k = replicate 1024 0, lk_v = replicate 512 0, lk_pos = pos\<rparr>,
      \<lparr>lk_kind = Swa, row_k = 2, row_v = 1, lk_window = 3, lk_cap = 66, lk_rows = 0,
        lk_k = replicate 132 0, lk_v = replicate 66 0, lk_pos = replicate 528 0\<rparr>],
     kv_tokens = t, kv_max_chunk = 8, kv_ga_cap0 = 512, kv_swa_cap0 = 66, kv_tmp = replicate 256 0, kv_draft = None\<rparr>"

definition full_kv :: device_kv where
  "full_kv = row_kv 512 (iota_pos 512) 512"

lemma row_kv_new: "kv_new (counting_cuda 100) small_config 512 8 0 = (Ok (row_kv 0 (replicate 4096 0) 0), 7)"
  by (simp add: row_kv_def kv_new_def new_layer_def small_config_def config_tiny_def counting_cuda_def layer_kind_of_def
      ebind_def eret_def buf_alloc_def before_def SWA_SLACK_ROWS_def tmp_need_def is_swa_def upt_rec
      usize_add_def usize_mul_def)

lemma put_replicate: "k + n \<le> m \<Longrightarrow> put_bytes k (replicate n x) (replicate m x) = replicate m x"
  by (simp add: put_bytes_def min_absorb1 flip: replicate_add)

lemma put_whole: "length v = length out \<Longrightarrow> put_bytes 0 v out = v"
  by (simp add: put_bytes_def)

lemma row_kv_append:
  "run_op (counting_cuda 100) (OpAppend 0 512 (replicate 1024 0) (replicate 512 0) (iota_pos 512)) (g, row_kv 0 (replicate 4096 0) 0) =
    (Ok (), (g, row_kv 512 (iota_pos 512) 0))"
  by (simp add: row_kv_def counting_cuda_def append_rows_def prepare_def effect_defs put_replicate put_whole)

lemma full_kv_reach: "kv_reach (counting_cuda 100) small_config full_kv"
proof -
  have dims: "dims_ok small_config 512 8"
    by (simp add: dims_ok_def small_config_def config_tiny_def row_max_def width_max_def)
  have "kv_reach (counting_cuda 100) small_config (row_kv 512 (iota_pos 512) 0)"
    by (rule reach_op [OF reach_new [OF dims row_kv_new] _ row_kv_append]) (simp_all add: row_kv_def row_max_def)
  then show ?thesis
    by (rule reach_op [where op = "OpSetTokens 512" and g = 0 and g' = 0 and r = "Ok ()"])
      (simp_all add: full_kv_def row_kv_def effect_defs kv_set_tokens_def)
qed

definition plain_lane :: hasher where
  "plain_lane seed prev block = ucast prev + 1"

definition plain_prompt :: "nat list" where "plain_prompt = replicate 512 0"

definition plain_prompts :: "nat list set" where "plain_prompts = {replicate 512 0, replicate 511 0}"

definition plain_computes :: "nat list \<Rightarrow> device_kv \<Rightarrow> bool" where
  "plain_computes ts kv \<longleftrightarrow> ts = plain_prompt \<and> kv = full_kv"

lemma plain_chain: "page_chain plain_lane (replicate 512 0) = [0x10000000000000001, 0x20000000000000002]"
    "page_chain plain_lane (replicate 511 0) = [0x10000000000000001]"
  by (simp_all add: page_chain_def chain_from.simps KV_PAGE_ROWS_def chain_id_def plain_lane_def Let_def push_bit_eq_mult)

lemma plain_distinct: "distinct_ids plain_lane plain_prompts"
proof -
  have ne: "(0x10000000000000001 :: 128 word) \<noteq> 0x20000000000000002" by simp
  have n: "(512 :: nat) div KV_PAGE_ROWS = 2" "(511 :: nat) div KV_PAGE_ROWS = 1" "KV_PAGE_ROWS = 256"
    by (simp_all add: KV_PAGE_ROWS_def)
  show ?thesis
    unfolding distinct_ids_def plain_prompts_def
    using ne not_sym [OF ne] by (simp only: ball_simps length_replicate n plain_chain) (auto simp: less_2_cases_iff)
qed

lemma plain_prefix_model: "prefix_model (sliding_window small_config) (cfg_shape small_config) False plain_computes"
proof -
  have inv: "kv_inv (sliding_window small_config) (cfg_shape small_config) full_kv"
    by (rule reach_inv [OF counting_cuda_ok _ _ full_kv_reach]) (simp_all add: small_config_def)
  have filled: "ga_filled 512 full_kv"
    by (auto simp: ga_filled_def full_kv_def row_kv_def less_Suc_eq numeral_2_eq_2 is_ga_def live_def)
  show ?thesis
    unfolding prefix_model_def plain_computes_def plain_prompt_def
    using inv filled by (auto simp: full_kv_def row_kv_def same_rows_def)
qed

definition fresh_tier :: host_cache where
  "fresh_tier = \<lparr>
     hc_pages = \<lparr>ar_slabs = [replicate 12288 0], ar_slot_bytes = 768, ar_free = map (\<lambda>i. (0, i * 768)) (rev [0..<16])\<rparr>,
     hc_states = \<lparr>ar_slabs = [replicate 88 0], ar_slot_bytes = 22, ar_free = map (\<lambda>i. (0, i * 22)) (rev [0..<4])\<rparr>,
     hc_page_map = Map.empty, hc_snaps = [], hc_clock = 0, hc_swa_bytes = 22,
     hc_stats = \<lparr>hs_captures = 0, hs_restores = 0, hs_restored_tokens = 0, hs_evicted = 0, hs_pages_written = 0\<rparr>\<rparr>"

lemma full_kv_sizes: "kv_ga_page_bytes full_kv = 768" "swa_state_bytes full_kv = 22" "draft_state_bytes full_kv = 0"
    "kv_state_bytes full_kv = 22"
  by (simp_all add: full_kv_def row_kv_def DeviceKv.kv_ga_page_bytes_def ga_layers_def is_ga_def page_stride_def KV_PAGE_ROWS_def
      swa_state_bytes_def swa_layers_def is_swa_def swa_keep_max_def swa_stride_def before_def draft_state_bytes_def kv_state_bytes_def)

lemma arena_fill_one:
  assumes "0 < n" "n \<le> max (SLAB_BYTES div sb) 1"
  shows "arena_fill (counting_cuda 100) sb n [] [] g =
    (Ok \<lparr>ar_slabs = [replicate (n * sb) 0], ar_slot_bytes = sb, ar_free = map (\<lambda>i. (0, i * sb)) (rev [0..<n])\<rparr>, g)"
  using assms
  by (simp add: arena_fill.simps [of _ _ n] arena_fill.simps [of _ _ 0] min_absorb1 effect_defs counting_cuda_def)

lemma fresh_tier_new: "host_cache_new (counting_cuda 100) full_kv 0 g = (Ok fresh_tier, g)"
  by (simp add: host_cache_new_def full_kv_sizes arena_new_def arena_fill_one SLAB_BYTES_def effect_defs fresh_tier_def)

definition full_snap :: snapshot where
  "full_snap = \<lparr>sn_tokens = plain_prompt, sn_pages = [0x10000000000000001, 0x20000000000000002], sn_tail = None, sn_state = (0, 0),
     sn_swa_rows = 0, sn_has_draft = False, sn_after = \<lparr>af_greedy = Some 7, af_logits = None\<rparr>, sn_kind = KPrompt, sn_last_use = 1\<rparr>"

definition full_tier :: host_cache where
  "full_tier = snd (snd (capture (counting_cuda 100) plain_lane full_kv plain_prompt \<lparr>af_greedy = Some 7, af_logits = None\<rparr> KPrompt
     (replicate 22 0) 0 (0, fresh_tier)))"

lemma export_full: "r0 + 256 \<le> 512 \<Longrightarrow>
    export_ga_page (counting_cuda 100) full_kv r0 256 (g, replicate 768 0) = (Ok (), (g, replicate 768 0))"
  using full_kv_sizes(1)
  by (simp add: export_ga_page_def full_kv_def row_kv_def ga_layers_def is_ga_def KV_PAGE_ROWS_def effect_defs copy_out_def counting_cuda_def
      page_stride_def put_replicate)

lemma pop_slots:
  assumes "k < n"
  shows "last (map f (rev [k..<n])) = f k" "butlast (map f (rev [k..<n])) = map f (rev [Suc k..<n])" "map f (rev [k..<n]) \<noteq> []"
  using assms by (simp_all add: upt_rec [of k n] butlast_append)

definition pages_at :: "nat \<Rightarrow> arena" where
  "pages_at k = \<lparr>ar_slabs = [replicate 12288 0], ar_slot_bytes = 768, ar_free = map (\<lambda>i. (0, i * 768)) (rev [k..<16])\<rparr>"

definition states_at :: "nat \<Rightarrow> arena" where
  "states_at k = \<lparr>ar_slabs = [replicate 88 0], ar_slot_bytes = 22, ar_free = map (\<lambda>i. (0, i * 22)) (rev [k..<4])\<rparr>"

lemma alloc_page_at: "hc_pages hc = pages_at k \<Longrightarrow> k < 16 \<Longrightarrow> alloc_page hc = (Some (0, k * 768), hc\<lparr>hc_pages := pages_at (Suc k)\<rparr>)"
  by (simp add: alloc_page_def alloc_from.simps [of _ _ hc] pages_at_def pop_slots)

lemma alloc_state_at: "hc_states hc = states_at k \<Longrightarrow> k < 4 \<Longrightarrow> alloc_state hc = (Some (0, k * 22), hc\<lparr>hc_states := states_at (Suc k)\<rparr>)"
  by (simp add: alloc_state_def alloc_from.simps [of _ _ hc] states_at_def pop_slots)

lemma slot_at: "k < 16 \<Longrightarrow> slot_in (pages_at j) (0, k * 768)" "k < 16 \<Longrightarrow> arena_get (pages_at j) (0, k * 768) = replicate 768 0"
    "k < 16 \<Longrightarrow> arena_put (0, k * 768) (replicate 768 0) (pages_at j) = pages_at j"
  by (simp_all add: slot_in_def arena_get_def arena_put_def pages_at_def put_replicate min_absorb2)

lemma state_at: "slot_in (states_at j) (0, 0)" "arena_get (states_at j) (0, 0) = replicate 22 0"
    "arena_put (0, 0) (replicate 22 0) (states_at j) = states_at j"
  by (simp_all add: slot_in_def arena_get_def arena_put_def states_at_def put_replicate min_absorb2)

lemma store_page:
  assumes "hc_pages hc = pages_at j" "k < 16" "r0 + 256 \<le> 512"
  shows "with_page (0, k * 768) (export_ga_page (counting_cuda 100) full_kv r0 256) (g, hc) = (Ok (), (g, hc))"
  using assms by (simp add: with_slot_def slot_at export_full)

definition tier :: "nat \<Rightarrow> (128 word \<rightharpoonup> hpage) \<Rightarrow> host_cache" where
  "tier k m = fresh_tier\<lparr>hc_clock := 1, hc_pages := pages_at k, hc_page_map := m\<rparr>"

lemma tier_page:
  assumes "m p = None" "k < 16" "i < 2"
  shows "capture_pages (counting_cuda 100) full_kv i (p # ps) held w (g, tier k m) =
    capture_pages (counting_cuda 100) full_kv (i + 1) ps (held @ [p]) (w + 1) (g, tier (Suc k) (m(p \<mapsto> \<lparr>pg_slot = (0, k * 768), pg_refs = 1\<rparr>)))"
proof -
  have al: "alloc_page (tier k m) = (Some (0, k * 768), tier (Suc k) m)"
    using alloc_page_at [of "tier k m" k] assms(2) by (simp add: tier_def)
  have st: "with_page (0, k * 768) (export_ga_page (counting_cuda 100) full_kv (i * 256) 256) (g, tier (Suc k) m) = (Ok (), (g, tier (Suc k) m))"
    by (rule store_page) (use assms in \<open>auto simp: tier_def\<close>)
  show ?thesis
    unfolding capture_pages.simps KV_PAGE_ROWS_def
    using assms(1) al st by (simp add: ebind_def ethen_def eget_def hc_do_def emodify_def alloc_or_def add_page_def tier_def)
qed

lemma full_tier_run:
  "capture (counting_cuda 100) plain_lane full_kv plain_prompt \<lparr>af_greedy = Some 7, af_logits = None\<rparr> KPrompt (replicate 22 0) 0 (0, fresh_tier) =
    (Ok (), (0, full_tier)) \<and> hc_snaps full_tier = [full_snap]"
proof -
  let ?a = "0x10000000000000001 :: 128 word" and ?b = "0x20000000000000002 :: 128 word"
  define m where "m = [?a \<mapsto> \<lparr>pg_slot = (0, 0), pg_refs = 1\<rparr>, ?b \<mapsto> \<lparr>pg_slot = (0, 768), pg_refs = 1\<rparr>]"
  have ne: "?b \<noteq> ?a" by simp
  have start: "fresh_tier\<lparr>hc_clock := hc_clock fresh_tier + 1\<rparr> = tier 0 Map.empty"
    by (simp add: tier_def fresh_tier_def pages_at_def)
  have pages: "capture_pages (counting_cuda 100) full_kv 0 [?a, ?b] [] 0 (0, tier 0 Map.empty) = (Ok (Some ([?a, ?b], 2)), (0, tier 2 m))"
    using ne by (simp add: tier_page del: capture_pages.simps(2)) (simp add: eret_def m_def numeral_2_eq_2)
  have tail: "capture_tail (counting_cuda 100) full_kv 512 held s = (Ok (Some None), s)" for held and s :: "nat \<times> host_cache"
    by (simp add: capture_tail_def KV_PAGE_ROWS_def eret_def)
  have states: "hc_states (tier 2 m) = states_at 0" by (simp add: tier_def fresh_tier_def states_at_def)
  have st: "capture_state (counting_cuda 100) full_kv (replicate 22 0) held None (0, tier 2 m) = (Ok (Some (0, 0)), (0, (tier 2 m)\<lparr>hc_states := states_at 1\<rparr>))" for held
    using alloc_state_at [OF states]
    by (simp add: capture_state_def alloc_or_def with_slot_def state_at full_kv_sizes effect_defs counting_cuda_def put_replicate)
  have sync: "on_fst (sync_export (counting_cuda 100)) s = (Ok (), s)" for s :: "nat \<times> host_cache"
    by (cases s) (simp add: on_fst_def sync_export_def device_sync_def counting_cuda_def check_rc_def eret_def)
  have chain: "page_chain plain_lane plain_prompt = [?a, ?b]" and len: "length plain_prompt = 512"
    by (simp_all add: plain_prompt_def plain_chain)
  have snap: "new_snap full_kv plain_prompt \<lparr>af_greedy = Some 7, af_logits = None\<rparr> KPrompt 0 [?a, ?b] None (0, 0)
      (hc_clock (tier 2 m)) = full_snap"
    by (simp add: new_snap_def full_snap_def full_kv_sizes tier_def)
  have run: "capture (counting_cuda 100) plain_lane full_kv plain_prompt \<lparr>af_greedy = Some 7, af_logits = None\<rparr> KPrompt (replicate 22 0) 0 (0, fresh_tier) =
    (Ok (), (0, add_snapshot full_snap 2 ((tier 2 m)\<lparr>hc_states := states_at 1\<rparr>)))"
  proof -
    have no: "(length plain_prompt < MIN_TOKENS \<or> kv_tokens full_kv < length plain_prompt) = False"
      by (simp add: plain_prompt_def MIN_TOKENS_def full_kv_def row_kv_def)
    have "find_tokens plain_prompt (hc_snaps (tier 0 Map.empty)) = None" by (simp add: find_tokens_def tier_def fresh_tier_def)
    moreover have "capture_new (counting_cuda 100) plain_lane full_kv plain_prompt \<lparr>af_greedy = Some 7, af_logits = None\<rparr> KPrompt
        (replicate 22 0) 0 (0, tier 0 Map.empty) = (Ok (), (0, add_snapshot full_snap 2 ((tier 2 m)\<lparr>hc_states := states_at 1\<rparr>)))"
      by (simp add: capture_new_def chain len ethen_def ebind_def pages when_some_Some tail sync st hc_do_def emodify_def snap
          del: capture_pages.simps One_nat_def)
    ultimately show ?thesis
      unfolding capture_def no if_False
      by (simp add: ethen_def ebind_def hc_do_def emodify_def eget_def start)
  qed
  then have eq: "full_tier = add_snapshot full_snap 2 ((tier 2 m)\<lparr>hc_states := states_at 1\<rparr>)" by (simp add: full_tier_def)
  have "hc_snaps full_tier = [full_snap]" unfolding eq by (simp add: add_snapshot_def tier_def fresh_tier_def)
  then show ?thesis using run eq by simp
qed

lemma full_tier_reach: "hc_reach (counting_cuda 100) plain_lane small_config False plain_computes plain_prompts 0 full_tier"
proof -
  have draft: "kv_draft full_kv \<noteq> None \<longleftrightarrow> False" by (simp add: full_kv_def row_kv_def)
  have new: "hc_reach (counting_cuda 100) plain_lane small_config False plain_computes plain_prompts 0 fresh_tier"
    by (rule hc_new [OF full_kv_reach draft fresh_tier_new])
  have saved: "state_saved full_kv 0 (replicate 22 0)"
    by (auto simp: state_saved_def full_kv_def row_kv_def less_Suc_eq numeral_2_eq_2 is_swa_def saved_def seg_def rows_at_def
        off_sum_def swa_keep_max_def swa_layers_def before_def all_planes)
  have "hc_reach (counting_cuda 100) plain_lane small_config False plain_computes plain_prompts
      (if (Ok () :: (unit, kv_error) outcome) = Ok () then 0 else Suc 0) full_tier"
    by (rule hc_capture [OF new full_kv_reach draft _ _ _ saved _ conjunct1 [OF full_tier_run]])
      (simp_all add: plain_prompts_def plain_prompt_def plain_computes_def full_kv_sizes same_rows_def)
  then show ?thesis by simp
qed

lemma plain_hit: "lookup plain_lane full_tier plain_prompt = Some (0, 512)"
    "lookup_for plain_lane full_tier plain_prompt False = Ok (Some (0, 512))"
proof -
  have snaps: "hc_snaps full_tier = [full_snap]" using full_tier_run by simp
  have "is_prefix_snap (page_chain plain_lane plain_prompt) plain_prompt full_snap"
    by (simp add: is_prefix_snap_def full_snap_def plain_prompt_def plain_chain KV_PAGE_ROWS_def)
  then show hit: "lookup plain_lane full_tier plain_prompt = Some (0, 512)"
    by (simp add: lookup_def lookup_snap_def snaps) (simp add: full_snap_def plain_prompt_def)
  show "lookup_for plain_lane full_tier plain_prompt False = Ok (Some (0, 512))"
    by (simp add: lookup_for_def hit snaps) (simp add: full_snap_def serves_def)
qed

lemma plain_facts:
  "0 < sliding_window small_config" "sliding_window small_config < 2 ^ 63" "\<forall>ts \<in> plain_prompts. length ts \<le> 2 ^ 20"
  "plain_prompt \<in> plain_prompts" "butlast plain_prompt \<in> plain_prompts"
  by (simp_all add: small_config_def plain_prompts_def plain_prompt_def butlast_conv_take)

lemma host_restore_exact_witness:
  "case restore (counting_cuda 100) 0 (0, full_kv, full_tier) of
      (Ok (m, a, _), (_, kv', _)) \<Rightarrow> m = 512 \<and> serves a False \<and> resumed full_kv kv'
    | (Err _, _) \<Rightarrow> True | (Panic, _) \<Rightarrow> False"
proof -
  have "(kv_draft full_kv \<noteq> None) = False" "(0 :: nat) \<le> 2 ^ 18" by (simp_all add: full_kv_def row_kv_def)
  note run = host_restore_exact [OF counting_cuda_ok plain_facts(1,2) plain_prefix_model plain_distinct plain_facts(3) full_tier_reach
      this(2) full_kv_reach this(1) plain_facts(4,5) plain_hit(2), of 0]
  have "length plain_prompt = 512" by (simp add: plain_prompt_def)
  then show ?thesis using run by (auto simp: plain_computes_def split: prod.splits outcome.splits)
qed

lemma host_lookup_longest_witness:
  "sn_tokens (hc_snaps full_tier ! 0) = take 512 plain_prompt \<and> 512 \<le> length plain_prompt"
proof -
  have "(0 :: nat) \<le> 2 ^ 18" by simp
  from host_lookup_longest [OF counting_cuda_ok plain_facts(1,2) plain_prefix_model plain_distinct plain_facts(3) full_tier_reach
      this plain_facts(4)] show ?thesis by (simp add: plain_hit(1))
qed

lemma host_slots_accounted_witness:
  "refs_of (hc_page_map full_tier 0x10000000000000001) = count (snap_refs (hc_snaps full_tier)) 0x10000000000000001"
  using host_slots_accounted [OF counting_cuda_ok plain_facts(1,2) plain_prefix_model plain_distinct plain_facts(3) full_tier_reach]
  by blast

subsection \<open>A capture that fails\<close>

definition broken_copy_cuda :: "nat cuda" where
  "broken_copy_cuda = (counting_cuda 100)\<lparr>cuda_memcpy := (\<lambda>d s g. ((1, d), g))\<rparr>"

text \<open>
  The closure that undoes a capture is not run when an export reports an error: the page slot it had taken from the
  free list is in no list any more, and no page and no snapshot uses it.
\<close>

theorem failed_capture_leaks:
  "length (ar_free (hc_pages fresh_tier)) = 16 \<and>
   (case capture broken_copy_cuda plain_lane full_kv plain_prompt \<lparr>af_greedy = Some 7, af_logits = None\<rparr> KPrompt
      (replicate 22 0) 0 (0, fresh_tier) of
     (r, (_, hc')) \<Rightarrow> r = Err (CudaFailed ''export ga k'' 1) \<and> length (ar_free (hc_pages hc')) = 15 \<and>
       hc_page_map hc' = Map.empty \<and> hc_snaps hc' = [])"
proof -
  have pages: "hc_pages (tier 0 Map.empty) = pages_at 0" by (simp add: tier_def)
  have start: "fresh_tier\<lparr>hc_clock := hc_clock fresh_tier + 1\<rparr> = tier 0 Map.empty"
    by (simp add: tier_def fresh_tier_def pages_at_def)
  have al: "alloc_page (tier 0 Map.empty) = (Some (0, 0), tier 1 Map.empty)"
    using alloc_page_at [OF pages] by (simp add: tier_def)
  have no: "(length plain_prompt < MIN_TOKENS \<or> kv_tokens full_kv < length plain_prompt) = False"
    by (simp add: plain_prompt_def MIN_TOKENS_def full_kv_def row_kv_def)
  have find: "find_tokens plain_prompt (hc_snaps (tier 0 Map.empty)) = None" by (simp add: find_tokens_def tier_def fresh_tier_def)
  have chain: "page_chain plain_lane plain_prompt = [0x10000000000000001, 0x20000000000000002]"
    by (simp add: plain_prompt_def plain_chain)
  have empty: "hc_page_map (tier k Map.empty) = Map.empty" for k by (simp add: tier_def)
  have export: "export_ga_page broken_copy_cuda full_kv 0 256 (g, replicate 768 0) =
      (Err (CudaFailed ''export ga k'' 1), (g, replicate 768 0))" for g
    using full_kv_sizes(1)
    by (simp add: export_ga_page_def full_kv_def row_kv_def ga_layers_def is_ga_def KV_PAGE_ROWS_def effect_defs copy_out_def
        broken_copy_cuda_def put_replicate)
  have slot: "slot_in (hc_pages (tier 1 Map.empty)) (0, 0)" "arena_get (hc_pages (tier 1 Map.empty)) (0, 0) = replicate 768 0"
    "hc_pages_update (arena_put (0, 0) (replicate 768 0)) (tier 1 Map.empty) = tier 1 Map.empty"
    using slot_at [of 0 1] by (simp_all add: tier_def)
  have "capture broken_copy_cuda plain_lane full_kv plain_prompt \<lparr>af_greedy = Some 7, af_logits = None\<rparr> KPrompt
      (replicate 22 0) 0 (0, fresh_tier) = (Err (CudaFailed ''export ga k'' 1), (0, tier 1 Map.empty))"
    unfolding capture_def no if_False capture_new_def chain capture_pages.simps
    by (simp add: ethen_def ebind_def hc_do_def emodify_def eget_def start find empty alloc_or_def al with_slot_def slot export
        KV_PAGE_ROWS_def del: One_nat_def)
  then show ?thesis by (simp add: tier_def pages_at_def fresh_tier_def)
qed

end
