(* ===== verification/Spec2Isabelle.thy ===== *)
theory Spec2Isabelle
  imports FrameInto CoordSum Ladder Scheduler StreamText ExpertClient RouteMixture FusedQkv NameAudit SwaRing GaPaged HostSample
begin

text \<open>
  A verification library for mimo26f-afd, a Rust inference engine for one mixture-of-experts language
  model. A coordinator (\<open>crates/mimo26-coordinator\<close>) tokenizes, schedules, runs attention and samples;
  four Spark machines (\<open>crates/mimo26-spark\<close>) each hold a quarter of every expert's weights
  (\<open>crates/mimo26-expert\<close>) and compute partial expert sums. The two sides speak the frame protocol of
  \<open>crates/mimo26-wire\<close>: the coordinator sends hidden rows and routes, every Spark returns BF16 partial rows,
  and the coordinator adds the four partials of each row in rank order.

  Conventions. Rust structs are records, enums datatypes, \<open>u8\<close> to \<open>u64\<close> words (so \<open>+\<close> wraps as
  in a release build), \<open>f32\<close> and \<open>f64\<close> are bit patterns with IEEE arithmetic. A result is
  \<open>Ok\<close>, \<open>Err\<close> or \<open>Panic\<close> (type \<open>outcome\<close>), so an index out of range, a failed assertion
  or an \<open>unwrap\<close> of nothing is a branch of the model. Loops are recursive functions that terminate;
  the three that need not return (draining a transport, sampling, encoding a text) are
  \<open>partial_function (option)\<close> or return an option, and their theorems state that they return. There is no
  fuel. Error messages are constructors carrying the values they print.

  \<open>usize\<close> is \<open>nat\<close>. The wrap-around of the release build is written out (\<open>usize_add\<close>, \<open>usize_mul\<close>, \<open>checked_\<close>
  operations as options) for the sizes in a frame's header, the offsets into an expert slice, the row sizes of a
  route table, and in the device cache for every sum or product of an argument or a capacity that sizes an
  allocation or guards a copy: \<open>rows + t\<close>, \<open>r0 + n\<close>, \<open>r0 * row\<close>, \<open>cap * row\<close>, \<open>next_multiple_of\<close>, \<open>div_ceil(64) * 64\<close>.
  Offsets of live rows in an existing device buffer are plain naturals: the invariant (\<open>sized\<close>) keeps a
  capacity at most \<open>cap_max\<close> = \<open>2 ^ 42\<close> rows and a row at most \<open>width_max\<close> = \<open>2 ^ 20\<close> bytes, so they stay below
  \<open>2 ^ 64\<close>. Everywhere else (list lengths, token and row counts, the slot sizes and offsets of the host tier) \<open>usize\<close> is a natural number without a bound, and the theorems say nothing of values beyond 64 bits.

  Theories, in import order.

  Shared ground.
  \<^item> \<open>Prelude\<close>: \<open>outcome\<close> and its loops, slices, \<open>usize\<close> arithmetic, equal-width rows, little-endian fields
    (locale \<open>le_field\<close>, interpreted for the three widths).
  \<^item> \<open>WireLayout\<close>: \<open>naive.rs\<close>, \<open>layout.rs\<close>, \<open>error.rs\<close> of the wire crate. A trap flag selects a known-wrong
    variant of the code; theorems about the contract take \<open>naive_none\<close>, some hold for every flag.
  \<^item> \<open>Float32\<close>, \<open>FloatOps\<close>: binary32 and binary64 on bit patterns: every finite value is an integer number of
    units, an operation is exact on units and rounds once. Rounding inverts reading units and is exact on
    representable values. A NaN result is the quiet NaN.

  The wire.
  \<^item> \<open>Crc32c\<close>: the table, bitwise, SSE4.2 and ARM CRC paths of \<open>crc32c.rs\<close> agree; bursts change the checksum.
  \<^item> \<open>Frame\<close>, \<open>FrameCodec\<close>, \<open>FrameReturn\<close>: \<open>frame.rs\<close>: encoding then decoding gives the frame back.
    \<open>FrameIntegrity\<close>: decoding any bytes never panics, a corrupted window is detected. \<open>FrameView\<close>: the
    zero-copy view sees what the decoder sees. \<open>FrameInto\<close>: the in-place builders produce the encoder's bytes.
  \<^item> \<open>L4\<close>, \<open>Ladder\<close>: \<open>l4.rs\<close>: sender, receiver and retry: over a channel that corrupts, drops, duplicates and
    reorders, frames are accepted once and in order; retries are bounded.
  \<^item> \<open>CoordSum\<close>: \<open>CoordinatorSum\<close>: whatever the arrival order, the result is the rank-order sum.
  \<^item> \<open>ExpertClient\<close>: \<open>async_api.rs\<close>: the non-blocking client over any transport that is a \<open>mailbox\<close> (locale,
    interpreted on the queue of the crate's tests): submitting never receives, collecting demultiplexes.

  The experts.
  \<^item> \<open>Mxfp4\<close>: \<open>lib.rs\<close> and \<open>mxfp4.rs\<close> of the expert crate, and the decoder of the CUDA headers: the two
    decoders agree bit for bit, and the device's BF16 rounding agrees with the wire's.
  \<^item> \<open>ExpertSlice\<close>, \<open>GroupedGemm\<close>: \<open>slice.rs\<close> and \<open>grouped.rs\<close>: the regions tile the slice; the grouped GEMM over a
    valid plan is one matrix-vector product per row with that row's expert; so is the FFN.
  \<^item> \<open>RoutePlan\<close>, \<open>RouteTable\<close>, \<open>RouteMixture\<close>: \<open>crates/mimo26-spark/src/route.rs\<close>: the table in closed form (a
    stable sort of the routes by expert), the bound on padding, and the composition of grouping,
    replication, FFN and reduction: each token gets the weighted sum of its own experts.

  The loader.
  \<^item> \<open>Float64\<close>, \<open>E4m3\<close>: binary64 constants and comparisons, and \<open>e4m3.rs\<close> of \<open>crates/mimo26-load\<close>: encoding picks
    a nearest code, encoding a decoded code gives it back.
  \<^item> \<open>LoadMat\<close>, \<open>FusedQkv\<close>: the matrices of \<open>lib.rs\<close>, the block quantizer of \<open>e4m3.rs\<close> element by element, and
    \<open>fused.rs\<close>: the reconstruction of the fused projections from their tensor-parallel segments.
  \<^item> \<open>NameAudit\<close>: \<open>names.rs\<close>: the weight-map audit passes exactly when every name is of a known kind and the names
    of fused QKV projections are as many as expected, and reports how many names there are of each kind.

  The KV cache.
  \<^item> \<open>AttnGeom\<close>: flags, geometry and kernel table of \<open>crates/mimo26-attn\<close>. \<open>KvCodec\<close>: \<open>fp8kv.rs\<close>, rows to bytes and back.
  \<^item> \<open>KvStore\<close>, \<open>SwaRing\<close>, \<open>GaPaged\<close>: \<open>cache.rs\<close>: the row store, the sliding-window ring (it keeps every row a later
    query may see) and the paged global cache (reading by page is reading the flat rows).

  The device cache of the coordinator (\<open>device.rs\<close>, \<open>config.rs\<close>, \<open>dflash.rs\<close>, \<open>dforward.rs\<close>).
  \<^item> \<open>Effects\<close>: computations that change a state and may fail or panic, with a \<open>wp\<close> rule per combinator.
  \<^item> \<open>DeviceBuffer\<close>: the CUDA runtime as a record of operations on an opaque device (\<open>cuda_ok\<close> states what the
    code relies on), and the buffer of \<open>device.rs\<close>. \<open>ModelConfig\<close>: the layer geometry. \<open>DraftKv\<close>: the draft cache.
  \<^item> \<open>DeviceKv\<close>, \<open>KvMoves\<close>: \<open>DeviceKv\<close> and its operations: prepare, commit, reset, reserve and shrink, export and
    import of pages, rings, draft and whole snapshots, with every raw copy at the offsets the code computes.
  \<^item> \<open>KvLayers\<close>, \<open>KvSafe\<close>, \<open>KvTransfer\<close>, \<open>KvState\<close>, \<open>KvOps\<close>: one invariant on the buffers' sizes and the
    rows held; each operation keeps it, stays inside its buffers, and does what its name says to the rows.
  \<^item> \<open>KvReach\<close>: a cache built for at most \<open>row_max\<close> = \<open>2 ^ 40\<close> rows (\<open>dims_ok\<close>) and never asked for more (\<open>op_fits\<close>)
    satisfies the invariant after any operations, unless a \<open>shrink_ga\<close> has failed; such a cache is left out of
    \<open>kv_reach\<close>, and the theory shows why: its K buffer can be shorter than its capacity says. \<open>KvPoint\<close>: a saved point, loaded again, gives the state that was saved.

  The host tier of the device cache (\<open>hostcache.rs\<close>).
  \<^item> \<open>HostCache\<close>: arenas, the page hash chain, reference counts, eviction, \<open>capture\<close>, \<open>lookup\<close>, \<open>restore\<close>.
  \<^item> \<open>HostSlots\<close>, \<open>HostContent\<close>, \<open>HostCapture\<close>: every slot is in one place, reference counts count the uses, and
    the bytes behind a page id or a snapshot stay what was captured; a failed capture leaks what it had taken.
  \<^item> \<open>HostRestore\<close>, \<open>HostReach\<close>, \<open>HostSample\<close>: a restored cache is the one that computed the prefix; the tier's
    life as a step relation, the longest prefix found, and a small instance on which the hypotheses hold.

  The coordinator.
  \<^item> \<open>Phase\<close>, \<open>Paging\<close>, \<open>Scheduler\<close>: \<open>phase.rs\<close>, \<open>kv_pool.rs\<close>, \<open>paging.rs\<close>, \<open>scheduler.rs\<close>: a page is served only to the
    phase that computed it; pool and live pages balance; prefill is first come first served and ends.
  \<^item> \<open>Utf8\<close>, \<open>Tokenizer\<close>, \<open>TokenizerRoundtrip\<close>: strings as code points; \<open>tokenizer.rs\<close>: encoding then decoding
    returns the text. The alphabetic and numeric tables of the standard library are an argument.
  \<^item> \<open>Streaming\<close>, \<open>StreamText\<close>: \<open>token.rs\<close>, \<open>stop.rs\<close>, \<open>streaming.rs\<close> and the decode loop of \<open>api.rs\<close>: when the bytes
    of the tokens are whole characters, what is streamed is their text cut at the earliest stop string; when they
    end inside a character, it is their whole text, stop strings included.

  Assumptions on code outside the repository: \<open>f32::exp\<close> and the character classes of the standard library
  are arguments without laws; the sampler, the clock, the client callback and the transport are arguments with
  the laws their locale or theorem states. The CUDA runtime is the record \<open>cuda\<close>; a raw copy outside a buffer,
  undefined in the source, is \<open>Panic\<close> in the model, so \<open>never Panic\<close> includes memory safety. The forward pass is
  the predicate \<open>computes ts kv\<close>, the cache \<open>kv\<close> after the tokens \<open>ts\<close>; \<open>prefix_model\<close> says that the rows of a
  global layer depend only on the tokens up to them. The hash of the host tier is an argument, collision-free
  (\<open>distinct_ids\<close>) on the token lists in play, each of at most \<open>2 ^ 20\<close> tokens, the cap of the engine's context.

  Not modelled: CUDA kernels and the code that launches them, RDMA verbs, sockets, threads, files and
  environment variables, the forward pass of the model, and the repacking tool. The manifest lists every part.
\<close>

end
